(* ===== verification/SdkPrelude.thy ===== *)
theory SdkPrelude
  imports Complex_Main
begin

text \<open>
  Shared vocabulary of the development: the result type of fallible Python code
  (\<open>'e + 'a\<close>, \<open>Inl\<close> the raised exception) with its sequencing operators, the list
  facts the queue and scheduler models use (removing one element by its identity, finding
  the first or the last element with a property), and two small interfaces as locales:
  a machine whose steps keep an invariant, and a finite transition graph.
\<close>

named_theorems sdk_defs \<open>definitions of straight-line operations, unfolded together\<close>

section \<open>Results\<close>

definition rbind :: "'e + 'a \<Rightarrow> ('a \<Rightarrow> 'e + 'b) \<Rightarrow> 'e + 'b" where
  "rbind r f = (case r of Inl e \<Rightarrow> Inl e | Inr a \<Rightarrow> f a)"

definition require :: "bool \<Rightarrow> 'e \<Rightarrow> ('e + 'a) \<Rightarrow> 'e + 'a" where
  "require b e r = (if b then r else Inl e)"

definition is_ok :: "'e + 'a \<Rightarrow> bool" where
  "is_ok r = (case r of Inl _ \<Rightarrow> False | Inr _ \<Rightarrow> True)"

lemma rbind_simps [simp]: "rbind (Inl e) f = Inl e" "rbind (Inr a) f = f a"
  by (simp_all add: rbind_def)

lemma rbind_eq_Inr: "rbind r f = Inr b \<longleftrightarrow> (\<exists>a. r = Inr a \<and> f a = Inr b)"
  by (cases r) simp_all

lemma rbind_eq_Inl: "rbind r f = Inl e \<longleftrightarrow> r = Inl e \<or> (\<exists>a. r = Inr a \<and> f a = Inl e)"
  by (cases r) simp_all

lemma require_simps [simp]: "require True e r = r" "require False e r = Inl e"
  by (simp_all add: require_def)

lemma is_ok_simps [simp]: "is_ok (Inr a)" "\<not> is_ok (Inl e)"
  by (simp_all add: is_ok_def)

lemma is_ok_iff: "is_ok r \<longleftrightarrow> (\<exists>a. r = Inr a)"
  by (cases r) simp_all

section \<open>Lists\<close>

text \<open>Python's \<open>del xs[i]\<close> for an index in range.\<close>

definition del_at :: "nat \<Rightarrow> 'a list \<Rightarrow> 'a list" where
  "del_at i xs = take i xs @ drop (Suc i) xs"

text \<open>The index of the first element with a property, as a scan with \<open>enumerate\<close> finds it.\<close>

fun index_where :: "('a \<Rightarrow> bool) \<Rightarrow> 'a list \<Rightarrow> nat option" where
  "index_where P [] = None"
| "index_where P (x # xs) = (if P x then Some 0 else map_option Suc (index_where P xs))"

text \<open>The same scan over \<open>reversed(xs)\<close>, with the index counted from the front.\<close>

definition last_index_where :: "('a \<Rightarrow> bool) \<Rightarrow> 'a list \<Rightarrow> nat option" where
  "last_index_where P xs =
     map_option (\<lambda>offset. length xs - offset - 1) (index_where P (rev xs))"

lemma index_where_None [simp]: "index_where P xs = None \<longleftrightarrow> (\<forall>x \<in> set xs. \<not> P x)"
  by (induction xs) auto

lemma index_where_Some:
  "index_where P xs = Some i \<Longrightarrow> i < length xs \<and> P (xs ! i) \<and> (\<forall>j < i. \<not> P (xs ! j))"
proof (induction xs arbitrary: i)
  case Nil
  then show ?case by simp
next
  case (Cons x xs)
  then show ?case
    by (auto split: if_splits simp: nth_Cons split: nat.splits)
qed

lemma last_index_where_None [simp]:
  "last_index_where P xs = None \<longleftrightarrow> (\<forall>x \<in> set xs. \<not> P x)"
  by (simp add: last_index_where_def)

lemma last_index_where_Some:
  assumes "last_index_where P xs = Some i"
  shows "i < length xs" "P (xs ! i)" "\<forall>j. i < j \<and> j < length xs \<longrightarrow> \<not> P (xs ! j)"
proof -
  obtain k where k: "index_where P (rev xs) = Some k" and i: "i = length xs - k - 1"
    using assms by (auto simp: last_index_where_def)
  note K = index_where_Some [OF k]
  from K i show "i < length xs" by auto
  from K i show "P (xs ! i)" by (auto simp: rev_nth)
  show "\<forall>j. i < j \<and> j < length xs \<longrightarrow> \<not> P (xs ! j)"
  proof (intro allI impI)
    fix j assume j: "i < j \<and> j < length xs"
    then have "length xs - Suc j < k" using i K by auto
    with K have "\<not> P (rev xs ! (length xs - Suc j))" by blast
    moreover have "length xs - Suc (length xs - Suc j) = j" "length xs - Suc j < length xs"
      using j by auto
    ultimately show "\<not> P (xs ! j)" by (simp add: rev_nth)
  qed
qed

lemma length_del_at [simp]: "i < length xs \<Longrightarrow> length (del_at i xs) = length xs - 1"
  by (simp add: del_at_def)

lemma set_del_at_subset: "set (del_at i xs) \<subseteq> set xs"
  by (auto simp: del_at_def dest: in_set_takeD in_set_dropD)

lemma in_set_del_at: "x \<in> set (del_at i xs) \<Longrightarrow> x \<in> set xs"
  using set_del_at_subset by fast

lemma split_at: "i < length xs \<Longrightarrow> xs = take i xs @ xs ! i # drop (Suc i) xs"
  by (simp add: id_take_nth_drop)

lemma del_atE:
  assumes "i < length xs"
  obtains us vs where "xs = us @ xs ! i # vs" "del_at i xs = us @ vs" "length us = i"
  using split_at [OF assms] assms by (auto simp: del_at_def)

lemma sum_list_del_at:
  assumes "i < length xs"
  shows "sum_list (map f xs) = sum_list (map f (del_at i xs)) + (f (xs ! i) :: nat)"
proof -
  have "sum_list (map f xs) = sum_list (map f (take i xs @ xs ! i # drop (Suc i) xs))"
    using assms by (simp add: id_take_nth_drop [symmetric])
  then show ?thesis by (simp add: del_at_def)
qed

lemma filter_del_at:
  "k < length xs \<Longrightarrow> \<not> P (xs ! k) \<Longrightarrow> filter P (del_at k xs) = filter P xs"
  by (rule del_atE [of k xs]) (auto simp: filter_append dest: arg_cong [where f = "filter P"])

lemma filter_list_update:
  "k < length xs \<Longrightarrow> \<not> P (xs ! k) \<Longrightarrow> \<not> P y \<Longrightarrow> filter P (xs[k := y]) = filter P xs"
  by (induction xs arbitrary: k) (auto simp: nth_Cons split: nat.splits)

section \<open>Machines with an invariant\<close>

text \<open>
  Every component is a state with atomic operations (one per segment of code that runs under
  the component's lock). The contract: each operation keeps the invariant. What a client gets:
  the invariant after any sequence of operations, in any order the threads produce.
\<close>

locale invariant_machine =
  fixes step :: "'op \<Rightarrow> 's \<Rightarrow> 's"
    and inv :: "'s \<Rightarrow> bool"
  assumes inv_step: "inv s \<Longrightarrow> inv (step x s)"
begin

lemma inv_run: "inv s \<Longrightarrow> inv (fold step xs s)"
  by (induction xs arbitrary: s) (auto intro: inv_step)

end

text \<open>A machine with a latch: a condition that, once true, no operation makes false.\<close>

locale latch_machine = invariant_machine +
  fixes latched :: "'s \<Rightarrow> bool"
  assumes latched_step: "inv s \<Longrightarrow> latched s \<Longrightarrow> latched (step x s)"
begin

lemma latched_run: "inv s \<Longrightarrow> latched s \<Longrightarrow> latched (fold step xs s)"
  by (induction xs arbitrary: s) (auto intro: inv_step latched_step)

end

end
