(* ===== verification/PyValues.thy ===== *)
theory PyValues
  imports SdkPrelude
begin

text \<open>
  Python values as the SDK's boundary sees them, the exceptions the SDK raises (errors.py), and
  the JSON validation of json_types.py (\<open>is_json_value\<close>, \<open>clone_json_object\<close>) on values that
  are finite trees, as every decoded frame is. Theory JsonViews models the copies as containers with
  identities, and the copy-on-write views over them.

  A \<open>str\<close> is a list of characters; the code compares, strips and stores strings and never
  depends on code points above 255 (byte counting, which does, works on code point lists in
  theory BufferLimits). A finite \<open>float\<close> is the rational number it denotes.
\<close>

section \<open>Values\<close>

datatype pyfloat = FFinite rat | FPosInf | FNegInf | FNaN

datatype pyval =
    PNone
  | PBool bool
  | PInt int
  | PFloat pyfloat
  | PStr string
  | PList "pyval list"
  | PDict "(pyval \<times> pyval) list"
  | POther nat \<comment> \<open>an object of any other type\<close>

fun isfinite_float :: "pyfloat \<Rightarrow> bool" where
  "isfinite_float (FFinite _) = True"
| "isfinite_float _ = False"

fun is_str :: "pyval \<Rightarrow> bool" where
  "is_str (PStr _) = True"
| "is_str _ = False"

fun is_dict :: "pyval \<Rightarrow> bool" where
  "is_dict (PDict _) = True"
| "is_dict _ = False"

fun is_list :: "pyval \<Rightarrow> bool" where
  "is_list (PList _) = True"
| "is_list _ = False"

type_synonym pydict = "(pyval \<times> pyval) list"

text \<open>\<open>d.get(key)\<close> for a string key, \<open>None\<close> of HOL when the key is missing.\<close>

definition dict_get :: "pydict \<Rightarrow> string \<Rightarrow> pyval option" where
  "dict_get d k = map_of d (PStr k)"

lemma dict_get_Nil [simp]: "dict_get [] k = None"
  by (simp add: dict_get_def)

lemma dict_get_Cons [simp]:
  "dict_get ((PStr k', v) # d) k = (if k = k' then Some v else dict_get d k)"
  by (simp add: dict_get_def)

text \<open>\<open>str.strip()\<close>: the ASCII and Latin-1 white space of Python.\<close>

definition py_space :: "char \<Rightarrow> bool" where
  "py_space c = (let n = (of_char c :: nat) in
     9 \<le> n \<and> n \<le> 13 \<or> 28 \<le> n \<and> n \<le> 32 \<or> n = 133 \<or> n = 160)"

definition py_strip :: "string \<Rightarrow> string" where
  "py_strip s = rev (dropWhile py_space (rev (dropWhile py_space s)))"

definition blank :: "string \<Rightarrow> bool" where
  "blank s = (py_strip s = [])"

lemma blank_iff: "blank s \<longleftrightarrow> (\<forall>c \<in> set s. py_space c)"
proof
  assume "blank s"
  then have "\<forall>c \<in> set (dropWhile py_space s). py_space c"
    by (simp add: blank_def py_strip_def)
  then have "dropWhile py_space s = []"
    by (metis dropWhile_eq_Nil_conv hd_dropWhile hd_in_set)
  then show "\<forall>c \<in> set s. py_space c" by simp
qed (auto simp: blank_def py_strip_def dest!: set_dropWhileD)

section \<open>Exceptions\<close>

text \<open>
  A component of an error path is an object key or an array index (errors.py). Messages built
  by formatting a value into a fixed text are kept as that text's name and the value.
\<close>

datatype path_component = Key string | Index nat

type_synonym path = "path_component list"

datatype reason =
    Text string
  | UnsupportedController string
  | UnsupportedAlignment string

datatype exn =
    ValueError string
  | JsonDepthError \<comment> \<open>a subclass of \<open>ValueError\<close>\<close>
  | TypeError string
  | KeyError string
  | IndexError string
  | OverflowError
  | TimeoutError
  | AssertionError
  | RuntimeError string
  | InvalidStateError
  | MalformedEventError reason "string option" path
  | InvalidFieldError reason "string option" path \<comment> \<open>a subclass of \<open>MalformedEventError\<close>\<close>
  | UnsupportedEventError string
  | InvalidRegistrationInfoError string path
  | InvalidPluginLaunchArgumentsError string path
  | JsonCodecDecodeError string "string option" path
  | JsonCodecEncodeError string "string option" path
  | QueueClosedError
  | QueueFullError
  | MessageTooLargeError
  | CommandBusNotReadyError
  | CommandReentrancyError
  | CommandDeadlineExceededError
  | CommandCancelledError
  | SettingsBusyError
  | LifecycleError string
  | RuntimeWorkerError string
  | SessionReadinessStateError
  | RuntimeActionIdentityError
  | RuntimeEventDispatchError string
  | AppError nat \<comment> \<open>an exception of application or host code, by an opaque number\<close>
  | BaseError nat \<comment> \<open>a \<open>BaseException\<close> that is no \<open>Exception\<close>, such as \<open>KeyboardInterrupt\<close>\<close>

text \<open>What \<open>except Exception\<close>, \<open>except ValueError\<close> and \<open>except JsonCodecError\<close> catch.\<close>

fun is_exception :: "exn \<Rightarrow> bool" where
  "is_exception (BaseError _) = False"
| "is_exception _ = True"

fun is_value_error :: "exn \<Rightarrow> bool" where
  "is_value_error (ValueError _) = True"
| "is_value_error JsonDepthError = True"
| "is_value_error (MalformedEventError _ _ _) = True"
| "is_value_error (InvalidFieldError _ _ _) = True"
| "is_value_error (UnsupportedEventError _) = True"
| "is_value_error (InvalidRegistrationInfoError _ _) = True"
| "is_value_error (InvalidPluginLaunchArgumentsError _ _) = True"
| "is_value_error (JsonCodecDecodeError _ _ _) = True"
| "is_value_error (JsonCodecEncodeError _ _ _) = True"
| "is_value_error _ = False"

fun is_type_error :: "exn \<Rightarrow> bool" where
  "is_type_error (TypeError _) = True"
| "is_type_error _ = False"

fun is_codec_error :: "exn \<Rightarrow> bool" where
  "is_codec_error (JsonCodecDecodeError _ _ _) = True"
| "is_codec_error (JsonCodecEncodeError _ _ _) = True"
| "is_codec_error _ = False"

text \<open>Rendering of an error path, \<open>_format_path\<close>.\<close>

fun decimal :: "nat \<Rightarrow> string" where
  "decimal n = (if n < 10 then [char_of (48 + n)] else decimal (n div 10) @ [char_of (48 + n mod 10)])"

declare decimal.simps [simp del]

fun format_component :: "path_component \<Rightarrow> string" where
  "format_component (Index i) = ''['' @ decimal i @ '']''"
| "format_component (Key k) = ''.'' @ k"

definition format_path :: "path \<Rightarrow> string" where
  "format_path p = ''$'' @ concat (map format_component p)"

section \<open>Timeouts\<close>

text \<open>
  \<open>float(n)\<close> for an \<open>int\<close>: the nearest binary64 number, ties to even, and
  \<open>OverflowError\<close> (\<open>None\<close> here) outside the finite range. \<open>isfinite(n)\<close> converts first, so it
  raises the same way.
\<close>

fun bit_length :: "nat \<Rightarrow> nat" where
  "bit_length n = (if n = 0 then 0 else Suc (bit_length (n div 2)))"

declare bit_length.simps [simp del]

definition float_overflow :: nat where
  "float_overflow = 2 ^ 1024"

definition py_float_of_int :: "int \<Rightarrow> rat option" where
  "py_float_of_int n =
     (let m = nat \<bar>n\<bar>; k = bit_length m - 53;
          q = m div 2 ^ k; r = m mod 2 ^ k;
          q' = (if 2 ^ k < 2 * r \<or> (2 ^ k = 2 * r \<and> odd q) then q + 1 else q);
          v = q' * 2 ^ k
      in if float_overflow \<le> v then None else Some (of_int (sgn n * int v)))"

text \<open>
  \<open>_validate_timeout\<close>, which queues.py, inbound.py, outbound.py, reader.py, writer.py, session.py,
  pumps.py and scheduler.py each define with the same tests and a message of their own.
\<close>

definition validate_timeout :: "string \<Rightarrow> pyval \<Rightarrow> exn + rat option" where
  "validate_timeout message timeout =
     (case timeout of
        PNone \<Rightarrow> Inr None
      | PInt n \<Rightarrow> (case py_float_of_int n of
            None \<Rightarrow> Inl OverflowError
          | Some f \<Rightarrow> if n < 0 then Inl (ValueError message) else Inr (Some f))
      | PFloat (FFinite r) \<Rightarrow> if r < 0 then Inl (ValueError message) else Inr (Some r)
      | _ \<Rightarrow> Inl (ValueError message))"

lemma py_float_of_int_nonneg:
  assumes "py_float_of_int n = Some r" "0 \<le> n"
  shows "0 \<le> r"
proof -
  obtain v :: nat where "r = of_int (sgn n * int v)"
    using assms(1) unfolding py_float_of_int_def Let_def by (metis option.distinct(1) option.inject)
  moreover have "0 \<le> sgn n * int v" using assms(2) by (simp add: sgn_if)
  ultimately show ?thesis by (metis of_int_0_le_iff)
qed

lemma validate_timeout_nonneg:
  assumes "validate_timeout m v = Inr (Some t)"
  shows "0 \<le> t"
  using assms
  by (auto simp: validate_timeout_def py_float_of_int_nonneg
      split: pyval.splits pyfloat.splits option.splits if_splits)

text \<open>
  A waiting operation reads the clock once per pass of its loop. \<open>timed_out timeout expired\<close> is
  its test \<open>remaining is not None and remaining <= 0\<close>, where \<open>expired\<close> says whether the clock has
  reached the deadline.
\<close>

definition timed_out :: "rat option \<Rightarrow> bool \<Rightarrow> bool" where
  "timed_out timeout expired = (timeout \<noteq> None \<and> expired)"

section \<open>Limits\<close>

text \<open>\<open>validate_byte_limit\<close> and \<open>_validate_queue_limit\<close>: an \<open>int\<close>, not a \<open>bool\<close>, and positive.\<close>

definition positive_limit :: "string \<Rightarrow> pyval \<Rightarrow> exn + nat" where
  "positive_limit name v =
     (case v of
        PInt n \<Rightarrow> if 0 < n then Inr (nat n) else Inl (ValueError (name @ '' must be a positive integer''))
      | _ \<Rightarrow> Inl (ValueError (name @ '' must be a positive integer'')))"

section \<open>JSON validation\<close>

definition max_json_depth :: nat where
  "max_json_depth = 64"

text \<open>\<open>_clone_json_value\<close> and \<open>_clone_json_dict\<close>: validation and copy in one traversal.\<close>

fun clone_json_value :: "nat \<Rightarrow> pyval \<Rightarrow> exn + pyval"
  and clone_json_list :: "nat \<Rightarrow> pyval list \<Rightarrow> exn + pyval list"
  and clone_json_items :: "nat \<Rightarrow> pydict \<Rightarrow> exn + pydict" where
  "clone_json_value depth PNone = Inr PNone"
| "clone_json_value depth (PBool b) = Inr (PBool b)"
| "clone_json_value depth (PInt n) = Inr (PInt n)"
| "clone_json_value depth (PStr s) = Inr (PStr s)"
| "clone_json_value depth (PFloat f) =
     (if isfinite_float f then Inr (PFloat f) else Inl (ValueError ''expected a finite JSON value''))"
| "clone_json_value depth (PList vs) =
     (if max_json_depth \<le> depth then Inl JsonDepthError
      else rbind (clone_json_list (Suc depth) vs) (\<lambda>vs'. Inr (PList vs')))"
| "clone_json_value depth (PDict d) =
     (if max_json_depth \<le> depth then Inl JsonDepthError
      else rbind (clone_json_items (Suc depth) d) (\<lambda>d'. Inr (PDict d')))"
| "clone_json_value depth (POther n) = Inl (ValueError ''expected a JSON value'')"
| "clone_json_list depth [] = Inr []"
| "clone_json_list depth (v # vs) =
     rbind (clone_json_value depth v) (\<lambda>v'. rbind (clone_json_list depth vs) (\<lambda>vs'. Inr (v' # vs')))"
| "clone_json_items depth [] = Inr []"
| "clone_json_items depth ((k, v) # d) =
     (if \<not> is_str k then Inl (ValueError ''expected JSON object keys to be strings'')
      else rbind (clone_json_value depth v) (\<lambda>v'.
           rbind (clone_json_items depth d) (\<lambda>d'. Inr ((k, v') # d'))))"

definition clone_json_object :: "pyval \<Rightarrow> exn + pyval" where
  "clone_json_object v =
     (if \<not> is_dict v then Inl (ValueError ''expected a JSON object'') else clone_json_value 0 v)"

fun is_json_value_at :: "nat \<Rightarrow> pyval \<Rightarrow> bool" where
  "is_json_value_at depth PNone = True"
| "is_json_value_at depth (PBool b) = True"
| "is_json_value_at depth (PInt n) = True"
| "is_json_value_at depth (PStr s) = True"
| "is_json_value_at depth (PFloat f) = isfinite_float f"
| "is_json_value_at depth (PList vs) =
     (depth < max_json_depth \<and> (\<forall>v \<in> set vs. is_json_value_at (Suc depth) v))"
| "is_json_value_at depth (PDict d) =
     (depth < max_json_depth \<and> (\<forall>(k, v) \<in> set d. is_str k \<and> is_json_value_at (Suc depth) v))"
| "is_json_value_at depth (POther n) = False"

definition is_json_value :: "pyval \<Rightarrow> bool" where
  "is_json_value v = is_json_value_at 0 v"

text \<open>An object that the protocol can carry: what \<open>JsonObject\<close> stands for at run time.\<close>

definition json_object :: "pyval \<Rightarrow> bool" where
  "json_object v = (is_dict v \<and> is_json_value v)"

lemma clone_json_iff:
  "clone_json_value n v = Inr w \<longleftrightarrow> w = v \<and> is_json_value_at n v"
  "clone_json_list n vs = Inr ws \<longleftrightarrow> ws = vs \<and> (\<forall>v \<in> set vs. is_json_value_at n v)"
  "clone_json_items n d = Inr e \<longleftrightarrow>
     e = d \<and> (\<forall>(k, v) \<in> set d. is_str k \<and> is_json_value_at n v)"
proof (induction n v and n vs and n d arbitrary: w and ws and e
    rule: clone_json_value_clone_json_list_clone_json_items.induct)
qed (auto simp: rbind_eq_Inr)

lemma clone_json_object_Inr [simp]:
  "clone_json_object v = Inr w \<longleftrightarrow> w = v \<and> json_object v"
  by (auto simp: clone_json_object_def json_object_def is_json_value_def clone_json_iff)

lemma clone_json_errors:
  "clone_json_value n v = Inl x \<Longrightarrow> x = JsonDepthError \<or> (\<exists>m. x = ValueError m)"
  "clone_json_list n vs = Inl x \<Longrightarrow> x = JsonDepthError \<or> (\<exists>m. x = ValueError m)"
  "clone_json_items n d = Inl x \<Longrightarrow> x = JsonDepthError \<or> (\<exists>m. x = ValueError m)"
proof (induction n v and n vs and n d
    rule: clone_json_value_clone_json_list_clone_json_items.induct)
qed (auto simp: rbind_eq_Inl split: if_splits)

lemma clone_json_object_errors:
  "clone_json_object v = Inl x \<Longrightarrow> x = JsonDepthError \<or> (\<exists>m. x = ValueError m)"
  by (auto simp: clone_json_object_def split: if_splits dest: clone_json_errors)

lemma is_json_value_at_antimono:
  "is_json_value_at m v \<Longrightarrow> n \<le> m \<Longrightarrow> is_json_value_at n v"
proof (induction m v arbitrary: n rule: is_json_value_at.induct)
  case (6 depth vs)
  then show ?case by auto
next
  case (7 depth d)
  then show ?case by fastforce
qed auto

end
