(* ===== verification/Events.thy ===== *)
theory Events
  imports PyValues
begin

text \<open>
  The data model of events.py: the wire enumerations, the value classes and one record per event
  class, extended along the class hierarchy of the source (\<open>ActionEvent\<close>, \<open>DeviceActionEvent\<close>,
  \<open>ActionPayloadEvent\<close>, then the concrete classes). \<open>stream_dock_event\<close> has one constructor
  per concrete class.
\<close>

section \<open>Enumerations\<close>

datatype controller = KEYPAD | ENCODER | KNOB | INFORMATION | SECONDARY_SCREEN

fun controller_value :: "controller \<Rightarrow> string" where
  "controller_value KEYPAD = ''Keypad''"
| "controller_value ENCODER = ''Encoder''"
| "controller_value KNOB = ''Knob''"
| "controller_value INFORMATION = ''Information''"
| "controller_value SECONDARY_SCREEN = ''SecondaryScreen''"

definition all_controllers :: "controller list" where
  "all_controllers = [KEYPAD, ENCODER, KNOB, INFORMATION, SECONDARY_SCREEN]"

text \<open>\<open>Controller(raw)\<close>: the member with this value, or \<open>ValueError\<close>.\<close>

definition controller_of :: "string \<Rightarrow> controller option" where
  "controller_of s = find (\<lambda>c. controller_value c = s) all_controllers"

datatype title_alignment = BOTTOM | MIDDLE | TOP

fun alignment_value :: "title_alignment \<Rightarrow> string" where
  "alignment_value BOTTOM = ''bottom''"
| "alignment_value MIDDLE = ''middle''"
| "alignment_value TOP = ''top''"

definition alignment_of :: "string \<Rightarrow> title_alignment option" where
  "alignment_of s = find (\<lambda>a. alignment_value a = s) [BOTTOM, MIDDLE, TOP]"

datatype event_type =
    WILL_APPEAR | WILL_DISAPPEAR | DID_RECEIVE_SETTINGS | TITLE_PARAMETERS_DID_CHANGE
  | KEY_DOWN | KEY_UP | TOUCH_TAP | DIAL_DOWN | DIAL_UP | DIAL_ROTATE
  | PROPERTY_INSPECTOR_DID_APPEAR | PROPERTY_INSPECTOR_DID_DISAPPEAR | SEND_TO_PLUGIN
  | DID_RECEIVE_GLOBAL_SETTINGS | DEVICE_DID_CONNECT | DEVICE_DID_DISCONNECT
  | APPLICATION_DID_LAUNCH | APPLICATION_DID_TERMINATE | SYSTEM_DID_WAKE_UP

fun wire_name :: "event_type \<Rightarrow> string" where
  "wire_name WILL_APPEAR = ''willAppear''"
| "wire_name WILL_DISAPPEAR = ''willDisappear''"
| "wire_name DID_RECEIVE_SETTINGS = ''didReceiveSettings''"
| "wire_name TITLE_PARAMETERS_DID_CHANGE = ''titleParametersDidChange''"
| "wire_name KEY_DOWN = ''keyDown''"
| "wire_name KEY_UP = ''keyUp''"
| "wire_name TOUCH_TAP = ''touchTap''"
| "wire_name DIAL_DOWN = ''dialDown''"
| "wire_name DIAL_UP = ''dialUp''"
| "wire_name DIAL_ROTATE = ''dialRotate''"
| "wire_name PROPERTY_INSPECTOR_DID_APPEAR = ''propertyInspectorDidAppear''"
| "wire_name PROPERTY_INSPECTOR_DID_DISAPPEAR = ''propertyInspectorDidDisappear''"
| "wire_name SEND_TO_PLUGIN = ''sendToPlugin''"
| "wire_name DID_RECEIVE_GLOBAL_SETTINGS = ''didReceiveGlobalSettings''"
| "wire_name DEVICE_DID_CONNECT = ''deviceDidConnect''"
| "wire_name DEVICE_DID_DISCONNECT = ''deviceDidDisconnect''"
| "wire_name APPLICATION_DID_LAUNCH = ''applicationDidLaunch''"
| "wire_name APPLICATION_DID_TERMINATE = ''applicationDidTerminate''"
| "wire_name SYSTEM_DID_WAKE_UP = ''systemDidWakeUp''"

definition all_event_types :: "event_type list" where
  "all_event_types =
     [WILL_APPEAR, WILL_DISAPPEAR, DID_RECEIVE_SETTINGS, TITLE_PARAMETERS_DID_CHANGE,
      KEY_DOWN, KEY_UP, TOUCH_TAP, DIAL_DOWN, DIAL_UP, DIAL_ROTATE,
      PROPERTY_INSPECTOR_DID_APPEAR, PROPERTY_INSPECTOR_DID_DISAPPEAR, SEND_TO_PLUGIN,
      DID_RECEIVE_GLOBAL_SETTINGS, DEVICE_DID_CONNECT, DEVICE_DID_DISCONNECT,
      APPLICATION_DID_LAUNCH, APPLICATION_DID_TERMINATE, SYSTEM_DID_WAKE_UP]"

lemma set_all_event_types [simp]: "set all_event_types = UNIV"
  unfolding all_event_types_def by (auto intro: event_type.exhaust)

lemma distinct_wire_names: "distinct (map wire_name all_event_types)"
  by (simp add: all_event_types_def)

lemma wire_name_inj: "inj wire_name"
proof -
  have "inj_on wire_name (set all_event_types)"
    using distinct_wire_names by (simp add: distinct_map)
  then show ?thesis by simp
qed

lemma wire_name_eq [simp]: "wire_name a = wire_name b \<longleftrightarrow> a = b"
  using wire_name_inj by (auto dest: injD)

lemma controller_of_value [simp]: "controller_of (controller_value c) = Some c"
  by (cases c) (simp_all add: controller_of_def all_controllers_def)

lemma controller_of_Some: "controller_of s = Some c \<longleftrightarrow> s = controller_value c"
proof
  assume "controller_of s = Some c"
  then show "s = controller_value c"
    by (auto simp: controller_of_def find_Some_iff)
qed simp

lemma alignment_of_value [simp]: "alignment_of (alignment_value a) = Some a"
  by (cases a) (simp_all add: alignment_of_def)

lemma alignment_of_Some: "alignment_of s = Some a \<longleftrightarrow> s = alignment_value a"
proof
  assume "alignment_of s = Some a"
  then show "s = alignment_value a"
    unfolding alignment_of_def find_Some_iff by blast
qed simp

section \<open>Value classes\<close>

record coordinates =
  co_column :: int
  co_row :: int

record device_size =
  ds_columns :: int
  ds_rows :: int

record device_info =
  di_name :: string
  di_type :: int
  di_size :: device_size

record title_parameters =
  tp_font_family :: string
  tp_font_size :: int
  tp_font_style :: string
  tp_font_underline :: bool
  tp_show_title :: bool
  tp_alignment :: title_alignment
  tp_color :: string

record pi_message =
  pm_name :: "string option"
  pm_value :: pyval

section \<open>Event classes\<close>

record action_event =
  ev_action :: string
  ev_context :: string

record device_action_event = action_event +
  ev_device :: string

record action_payload_event = device_action_event +
  ev_settings :: pyval
  ev_coordinates :: coordinates

text \<open>The fields of \<open>WillAppearEvent\<close> and of \<open>WillDisappearEvent\<close>.\<close>

record visibility_event = action_payload_event +
  vi_controller :: controller
  vi_is_in_multi_action :: bool
  vi_state :: "int option"

record did_receive_settings_event = action_payload_event +
  rs_is_in_multi_action :: bool
  rs_controller :: "controller option"
  rs_state :: "int option"

record key_event = action_payload_event +
  ke_is_in_multi_action :: bool
  ke_controller :: "controller option"
  ke_state :: "int option"
  ke_user_desired_state :: "int option"

record dial_press_event = action_payload_event +
  dp_controller :: controller

record dial_rotate_event = action_payload_event +
  dr_ticks :: int
  dr_pressed :: bool
  dr_controller :: "controller option"

record title_parameters_event = action_payload_event +
  ti_title :: string
  ti_parameters :: title_parameters
  ti_controller :: "controller option"
  ti_state :: "int option"

record send_to_plugin_event = action_event +
  sp_message :: pi_message
  sp_device :: "string option"

datatype stream_dock_event =
    WillAppear visibility_event
  | WillDisappear visibility_event
  | DidReceiveSettings did_receive_settings_event
  | TitleParametersDidChange title_parameters_event
  | KeyDown key_event
  | KeyUp key_event
  | TouchTap key_event
  | DialDown dial_press_event
  | DialUp dial_press_event
  | DialRotate dial_rotate_event
  | PropertyInspectorDidAppear device_action_event
  | PropertyInspectorDidDisappear device_action_event
  | SendToPlugin send_to_plugin_event
  | DidReceiveGlobalSettings pyval
  | DeviceDidConnect string device_info
  | DeviceDidDisconnect string "device_info option"
  | ApplicationDidLaunch string
  | ApplicationDidTerminate string
  | SystemDidWakeUp
  | UnknownEvent string pyval

text \<open>The class of an event: the class-level \<open>event\<close> type, none for an unknown event.\<close>

fun event_type_of :: "stream_dock_event \<Rightarrow> event_type option" where
  "event_type_of (WillAppear _) = Some WILL_APPEAR"
| "event_type_of (WillDisappear _) = Some WILL_DISAPPEAR"
| "event_type_of (DidReceiveSettings _) = Some DID_RECEIVE_SETTINGS"
| "event_type_of (TitleParametersDidChange _) = Some TITLE_PARAMETERS_DID_CHANGE"
| "event_type_of (KeyDown _) = Some KEY_DOWN"
| "event_type_of (KeyUp _) = Some KEY_UP"
| "event_type_of (TouchTap _) = Some TOUCH_TAP"
| "event_type_of (DialDown _) = Some DIAL_DOWN"
| "event_type_of (DialUp _) = Some DIAL_UP"
| "event_type_of (DialRotate _) = Some DIAL_ROTATE"
| "event_type_of (PropertyInspectorDidAppear _) = Some PROPERTY_INSPECTOR_DID_APPEAR"
| "event_type_of (PropertyInspectorDidDisappear _) = Some PROPERTY_INSPECTOR_DID_DISAPPEAR"
| "event_type_of (SendToPlugin _) = Some SEND_TO_PLUGIN"
| "event_type_of (DidReceiveGlobalSettings _) = Some DID_RECEIVE_GLOBAL_SETTINGS"
| "event_type_of (DeviceDidConnect _ _) = Some DEVICE_DID_CONNECT"
| "event_type_of (DeviceDidDisconnect _ _) = Some DEVICE_DID_DISCONNECT"
| "event_type_of (ApplicationDidLaunch _) = Some APPLICATION_DID_LAUNCH"
| "event_type_of (ApplicationDidTerminate _) = Some APPLICATION_DID_TERMINATE"
| "event_type_of SystemDidWakeUp = Some SYSTEM_DID_WAKE_UP"
| "event_type_of (UnknownEvent _ _) = None"

text \<open>The \<open>event_name\<close> property: the raw protocol name.\<close>

definition event_name :: "stream_dock_event \<Rightarrow> string" where
  "event_name e = (case event_type_of e of
     Some t \<Rightarrow> wire_name t
   | None \<Rightarrow> (case e of UnknownEvent n _ \<Rightarrow> n | _ \<Rightarrow> ''''))"

text \<open>\<open>isinstance(event, ActionEvent)\<close> and the action identity such an event has.\<close>

fun as_action_event :: "stream_dock_event \<Rightarrow> action_event option" where
  "as_action_event (WillAppear r) = Some (action_event.truncate r)"
| "as_action_event (WillDisappear r) = Some (action_event.truncate r)"
| "as_action_event (DidReceiveSettings r) = Some (action_event.truncate r)"
| "as_action_event (TitleParametersDidChange r) = Some (action_event.truncate r)"
| "as_action_event (KeyDown r) = Some (action_event.truncate r)"
| "as_action_event (KeyUp r) = Some (action_event.truncate r)"
| "as_action_event (TouchTap r) = Some (action_event.truncate r)"
| "as_action_event (DialDown r) = Some (action_event.truncate r)"
| "as_action_event (DialUp r) = Some (action_event.truncate r)"
| "as_action_event (DialRotate r) = Some (action_event.truncate r)"
| "as_action_event (PropertyInspectorDidAppear r) = Some (action_event.truncate r)"
| "as_action_event (PropertyInspectorDidDisappear r) = Some (action_event.truncate r)"
| "as_action_event (SendToPlugin r) = Some (action_event.truncate r)"
| "as_action_event _ = None"

definition action_context :: "stream_dock_event \<Rightarrow> string option" where
  "action_context e = map_option ev_context (as_action_event e)"

fun is_dial_rotate :: "stream_dock_event \<Rightarrow> bool" where
  "is_dial_rotate (DialRotate _) = True"
| "is_dial_rotate _ = False"

fun is_unknown :: "stream_dock_event \<Rightarrow> bool" where
  "is_unknown (UnknownEvent _ _) = True"
| "is_unknown _ = False"

definition action_event_types :: "event_type list" where
  "action_event_types =
     [WILL_APPEAR, WILL_DISAPPEAR, DID_RECEIVE_SETTINGS, TITLE_PARAMETERS_DID_CHANGE,
      KEY_DOWN, KEY_UP, TOUCH_TAP, DIAL_DOWN, DIAL_UP, DIAL_ROTATE,
      PROPERTY_INSPECTOR_DID_APPEAR, PROPERTY_INSPECTOR_DID_DISAPPEAR, SEND_TO_PLUGIN]"

lemma event_type_of_None: "event_type_of e = None \<longleftrightarrow> is_unknown e"
  by (cases e) simp_all

lemma as_action_event_iff:
  "as_action_event e \<noteq> None \<longleftrightarrow> (\<exists>t \<in> set action_event_types. event_type_of e = Some t)"
  by (cases e) (simp_all add: action_event_types_def)

lemma event_name_known: "event_type_of e = Some t \<Longrightarrow> event_name e = wire_name t"
  by (simp add: event_name_def)

lemma action_context_DialRotate [simp]:
  "action_context (DialRotate r) = Some (ev_context r)"
  by (simp add: action_context_def action_event.defs)

end
