(* ===== verification/EventParser.thy ===== *)
theory EventParser
  imports Events
begin

text \<open>
  parser.py: the conversion of a decoded JSON value into a typed event, field by field, in the
  order of evaluation of the source (which fixes the error that is raised when several fields are
  wrong). \<open>denotes\<close> is the declarative reading of the protocol, an event and the fields that an
  object must have for it; \<open>event_to_wire\<close> writes an event in that form.
\<close>

section \<open>Fields\<close>

definition invalid :: "string option \<Rightarrow> path \<Rightarrow> reason \<Rightarrow> exn + 'a" where
  "invalid ename path r = Inl (InvalidFieldError r ename path)"

abbreviation missing :: reason where
  "missing \<equiv> Text ''required field is missing''"

text \<open>The two texts a failed copy has: \<open>str(exc)\<close> of the depth error, and the fixed one.\<close>

definition clone_event_object :: "pyval \<Rightarrow> exn + pyval" where
  "clone_event_object v = (case clone_json_object v of
     Inr w \<Rightarrow> Inr w
   | Inl JsonDepthError \<Rightarrow>
       Inl (MalformedEventError (Text ''JSON nesting depth exceeds maximum of 64 containers'') None [])
   | Inl _ \<Rightarrow> Inl (MalformedEventError (Text ''message contains a non-JSON value'') None []))"

definition require_string :: "pydict \<Rightarrow> string \<Rightarrow> string option \<Rightarrow> path \<Rightarrow> exn + string" where
  "require_string data key ename path = (case dict_get data key of
     None \<Rightarrow> invalid ename (path @ [Key key]) missing
   | Some (PStr s) \<Rightarrow> Inr s
   | Some _ \<Rightarrow> invalid ename (path @ [Key key]) (Text ''expected string''))"

definition optional_string :: "pydict \<Rightarrow> string \<Rightarrow> string \<Rightarrow> path \<Rightarrow> exn + string option" where
  "optional_string data key ename path = (case dict_get data key of
     None \<Rightarrow> Inr None
   | Some (PStr s) \<Rightarrow> Inr (Some s)
   | Some _ \<Rightarrow> invalid (Some ename) (path @ [Key key]) (Text ''expected string''))"

definition require_int :: "pydict \<Rightarrow> string \<Rightarrow> string \<Rightarrow> path \<Rightarrow> exn + int" where
  "require_int data key ename path = (case dict_get data key of
     None \<Rightarrow> invalid (Some ename) (path @ [Key key]) missing
   | Some (PInt n) \<Rightarrow> Inr n
   | Some _ \<Rightarrow> invalid (Some ename) (path @ [Key key]) (Text ''expected integer''))"

definition optional_int :: "pydict \<Rightarrow> string \<Rightarrow> string \<Rightarrow> path \<Rightarrow> exn + int option" where
  "optional_int data key ename path = (case dict_get data key of
     None \<Rightarrow> Inr None
   | Some (PInt n) \<Rightarrow> Inr (Some n)
   | Some _ \<Rightarrow> invalid (Some ename) (path @ [Key key]) (Text ''expected integer''))"

definition require_bool :: "pydict \<Rightarrow> string \<Rightarrow> string \<Rightarrow> path \<Rightarrow> exn + bool" where
  "require_bool data key ename path = (case dict_get data key of
     None \<Rightarrow> invalid (Some ename) (path @ [Key key]) missing
   | Some (PBool b) \<Rightarrow> Inr b
   | Some _ \<Rightarrow> invalid (Some ename) (path @ [Key key]) (Text ''expected boolean''))"

definition require_object :: "pydict \<Rightarrow> string \<Rightarrow> string \<Rightarrow> path \<Rightarrow> exn + pydict" where
  "require_object data key ename path = (case dict_get data key of
     None \<Rightarrow> invalid (Some ename) (path @ [Key key]) missing
   | Some (PDict d) \<Rightarrow> Inr d
   | Some _ \<Rightarrow> invalid (Some ename) (path @ [Key key]) (Text ''expected object''))"

abbreviation payload_path :: path where
  "payload_path \<equiv> [Key ''payload'']"

text \<open>\<open>_controller\<close>, one function for the required and the optional reading.\<close>

definition parse_controller :: "pydict \<Rightarrow> string \<Rightarrow> bool \<Rightarrow> exn + controller option" where
  "parse_controller payload ename required =
     rbind (if required
            then rbind (require_string payload ''controller'' (Some ename) payload_path)
                   (\<lambda>s. Inr (Some s))
            else optional_string payload ''controller'' ename payload_path)
       (\<lambda>raw. case raw of
            None \<Rightarrow> Inr None
          | Some s \<Rightarrow> (case controller_of s of
                Some c \<Rightarrow> Inr (Some c)
              | None \<Rightarrow> invalid (Some ename) (payload_path @ [Key ''controller''])
                          (UnsupportedController s)))"

text \<open>The parsers that require a controller narrow the result; \<open>AssertionError\<close> is unreachable.\<close>

definition required_controller :: "pydict \<Rightarrow> string \<Rightarrow> exn + controller" where
  "required_controller payload ename =
     rbind (parse_controller payload ename True)
       (\<lambda>c. case c of None \<Rightarrow> Inl AssertionError | Some c \<Rightarrow> Inr c)"

definition parse_coordinates :: "pydict \<Rightarrow> string \<Rightarrow> exn + coordinates" where
  "parse_coordinates payload ename =
     rbind (require_object payload ''coordinates'' ename payload_path) (\<lambda>v.
     rbind (require_int v ''column'' ename (payload_path @ [Key ''coordinates''])) (\<lambda>column.
     rbind (require_int v ''row'' ename (payload_path @ [Key ''coordinates''])) (\<lambda>row.
       Inr \<lparr>co_column = column, co_row = row\<rparr>)))"

definition parse_device_info :: "pydict \<Rightarrow> string \<Rightarrow> bool \<Rightarrow> exn + device_info option" where
  "parse_device_info data ename required =
     (if dict_get data ''deviceInfo'' = None then
        (if required then invalid (Some ename) [Key ''deviceInfo''] missing else Inr None)
      else
        rbind (require_object data ''deviceInfo'' ename []) (\<lambda>v.
        rbind (require_object v ''size'' ename [Key ''deviceInfo'']) (\<lambda>sz.
        rbind (require_string v ''name'' (Some ename) [Key ''deviceInfo'']) (\<lambda>name.
        rbind (require_int v ''type'' ename [Key ''deviceInfo'']) (\<lambda>type.
        rbind (require_int sz ''columns'' ename [Key ''deviceInfo'', Key ''size'']) (\<lambda>columns.
        rbind (require_int sz ''rows'' ename [Key ''deviceInfo'', Key ''size'']) (\<lambda>rows.
          Inr (Some \<lparr>di_name = name, di_type = type,
                 di_size = \<lparr>ds_columns = columns, ds_rows = rows\<rparr>\<rparr>))))))))"

definition parse_title_parameters :: "pydict \<Rightarrow> string \<Rightarrow> exn + title_parameters" where
  "parse_title_parameters payload ename =
     (let path = payload_path @ [Key ''titleParameters''] in
      rbind (require_object payload ''titleParameters'' ename payload_path) (\<lambda>v.
      rbind (require_string v ''titleAlignment'' (Some ename) path) (\<lambda>raw.
      case alignment_of raw of
        None \<Rightarrow> invalid (Some ename) (path @ [Key ''titleAlignment'']) (UnsupportedAlignment raw)
      | Some alignment \<Rightarrow>
          rbind (require_string v ''fontFamily'' (Some ename) path) (\<lambda>font_family.
          rbind (require_int v ''fontSize'' ename path) (\<lambda>font_size.
          rbind (require_string v ''fontStyle'' (Some ename) path) (\<lambda>font_style.
          rbind (require_bool v ''fontUnderline'' ename path) (\<lambda>font_underline.
          rbind (require_bool v ''showTitle'' ename path) (\<lambda>show_title.
          rbind (require_string v ''titleColor'' (Some ename) path) (\<lambda>color.
            Inr \<lparr>tp_font_family = font_family, tp_font_size = font_size,
                 tp_font_style = font_style, tp_font_underline = font_underline,
                 tp_show_title = show_title, tp_alignment = alignment, tp_color = color\<rparr>)))))))))"

definition action_identity ::
    "pydict \<Rightarrow> string \<Rightarrow> bool \<Rightarrow> exn + string \<times> string \<times> string option" where
  "action_identity data ename require_device =
     rbind (require_string data ''action'' (Some ename) []) (\<lambda>action.
     rbind (require_string data ''context'' (Some ename) []) (\<lambda>ctx.
     rbind (if require_device
            then rbind (require_string data ''device'' (Some ename) []) (\<lambda>s. Inr (Some s))
            else optional_string data ''device'' ename []) (\<lambda>device.
       Inr (action, ctx, device))))"

text \<open>The common part of an action event with a payload, and the payload object.\<close>

definition action_payload :: "pydict \<Rightarrow> string \<Rightarrow> exn + action_payload_event \<times> pydict" where
  "action_payload data ename =
     rbind (action_identity data ename True) (\<lambda>(action, ctx, device).
     case device of
       None \<Rightarrow> Inl AssertionError
     | Some device \<Rightarrow>
         rbind (require_object data ''payload'' ename []) (\<lambda>payload.
         rbind (require_object payload ''settings'' ename payload_path) (\<lambda>raw.
         rbind (clone_event_object (PDict raw)) (\<lambda>settings.
         rbind (parse_coordinates payload ename) (\<lambda>coordinates.
           Inr (\<lparr>ev_action = action, ev_context = ctx, ev_device = device,
                  ev_settings = settings, ev_coordinates = coordinates\<rparr>, payload))))))"

section \<open>Parsers\<close>

definition parse_visibility_event ::
    "(visibility_event \<Rightarrow> stream_dock_event) \<Rightarrow> pydict \<Rightarrow> string \<Rightarrow> exn + stream_dock_event" where
  "parse_visibility_event event_class data ename =
     rbind (action_payload data ename) (\<lambda>(base, payload).
     rbind (required_controller payload ename) (\<lambda>controller.
     rbind (require_bool payload ''isInMultiAction'' ename payload_path) (\<lambda>multi.
     rbind (optional_int payload ''state'' ename payload_path) (\<lambda>state.
       Inr (event_class
         (action_payload_event.extend base (visibility_event.fields controller multi state)))))))"

definition parse_will_appear :: "pydict \<Rightarrow> string \<Rightarrow> exn + stream_dock_event" where
  "parse_will_appear = parse_visibility_event WillAppear"

definition parse_will_disappear :: "pydict \<Rightarrow> string \<Rightarrow> exn + stream_dock_event" where
  "parse_will_disappear = parse_visibility_event WillDisappear"

definition parse_did_receive_settings :: "pydict \<Rightarrow> string \<Rightarrow> exn + stream_dock_event" where
  "parse_did_receive_settings data ename =
     rbind (action_payload data ename) (\<lambda>(base, payload).
     rbind (require_bool payload ''isInMultiAction'' ename payload_path) (\<lambda>multi.
     rbind (parse_controller payload ename False) (\<lambda>controller.
     rbind (optional_int payload ''state'' ename payload_path) (\<lambda>state.
       Inr (DidReceiveSettings (action_payload_event.extend base
              (did_receive_settings_event.fields multi controller state)))))))"

definition parse_key_event ::
    "(key_event \<Rightarrow> stream_dock_event) \<Rightarrow> pydict \<Rightarrow> string \<Rightarrow> exn + stream_dock_event" where
  "parse_key_event event_class data ename =
     rbind (action_payload data ename) (\<lambda>(base, payload).
     rbind (require_bool payload ''isInMultiAction'' ename payload_path) (\<lambda>multi.
     rbind (parse_controller payload ename False) (\<lambda>controller.
     rbind (optional_int payload ''state'' ename payload_path) (\<lambda>state.
     rbind (optional_int payload ''userDesiredState'' ename payload_path) (\<lambda>desired.
       Inr (event_class (action_payload_event.extend base
              (key_event.fields multi controller state desired))))))))"

definition parse_key_down :: "pydict \<Rightarrow> string \<Rightarrow> exn + stream_dock_event" where
  "parse_key_down = parse_key_event KeyDown"

definition parse_key_up :: "pydict \<Rightarrow> string \<Rightarrow> exn + stream_dock_event" where
  "parse_key_up = parse_key_event KeyUp"

definition parse_touch_tap :: "pydict \<Rightarrow> string \<Rightarrow> exn + stream_dock_event" where
  "parse_touch_tap = parse_key_event TouchTap"

definition parse_dial_press_event ::
    "(dial_press_event \<Rightarrow> stream_dock_event) \<Rightarrow> pydict \<Rightarrow> string \<Rightarrow> exn + stream_dock_event" where
  "parse_dial_press_event event_class data ename =
     rbind (action_payload data ename) (\<lambda>(base, payload).
     rbind (required_controller payload ename) (\<lambda>controller.
       Inr (event_class (action_payload_event.extend base (dial_press_event.fields controller)))))"

definition parse_dial_down :: "pydict \<Rightarrow> string \<Rightarrow> exn + stream_dock_event" where
  "parse_dial_down = parse_dial_press_event DialDown"

definition parse_dial_up :: "pydict \<Rightarrow> string \<Rightarrow> exn + stream_dock_event" where
  "parse_dial_up = parse_dial_press_event DialUp"

definition parse_dial_rotate :: "pydict \<Rightarrow> string \<Rightarrow> exn + stream_dock_event" where
  "parse_dial_rotate data ename =
     rbind (action_payload data ename) (\<lambda>(base, payload).
     rbind (require_int payload ''ticks'' ename payload_path) (\<lambda>ticks.
     rbind (require_bool payload ''pressed'' ename payload_path) (\<lambda>pressed.
     rbind (parse_controller payload ename False) (\<lambda>controller.
       Inr (DialRotate (action_payload_event.extend base
              (dial_rotate_event.fields ticks pressed controller)))))))"

definition parse_title_parameters_did_change :: "pydict \<Rightarrow> string \<Rightarrow> exn + stream_dock_event" where
  "parse_title_parameters_did_change data ename =
     rbind (action_payload data ename) (\<lambda>(base, payload).
     rbind (require_string payload ''title'' (Some ename) payload_path) (\<lambda>title.
     rbind (parse_title_parameters payload ename) (\<lambda>parameters.
     rbind (parse_controller payload ename False) (\<lambda>controller.
     rbind (optional_int payload ''state'' ename payload_path) (\<lambda>state.
       Inr (TitleParametersDidChange (action_payload_event.extend base
              (title_parameters_event.fields title parameters controller state))))))))"

definition parse_property_inspector_event ::
    "(device_action_event \<Rightarrow> stream_dock_event) \<Rightarrow> pydict \<Rightarrow> string \<Rightarrow> exn + stream_dock_event" where
  "parse_property_inspector_event event_class data ename =
     rbind (action_identity data ename True) (\<lambda>(action, ctx, device).
     case device of
       None \<Rightarrow> Inl AssertionError
     | Some device \<Rightarrow>
         Inr (event_class \<lparr>ev_action = action, ev_context = ctx, ev_device = device\<rparr>))"

definition parse_property_inspector_did_appear :: "pydict \<Rightarrow> string \<Rightarrow> exn + stream_dock_event" where
  "parse_property_inspector_did_appear = parse_property_inspector_event PropertyInspectorDidAppear"

definition parse_property_inspector_did_disappear ::
    "pydict \<Rightarrow> string \<Rightarrow> exn + stream_dock_event" where
  "parse_property_inspector_did_disappear =
     parse_property_inspector_event PropertyInspectorDidDisappear"

definition parse_send_to_plugin :: "pydict \<Rightarrow> string \<Rightarrow> exn + stream_dock_event" where
  "parse_send_to_plugin data ename =
     rbind (action_identity data ename False) (\<lambda>(action, ctx, device).
     rbind (require_object data ''payload'' ename []) (\<lambda>raw.
     rbind (clone_event_object (PDict raw)) (\<lambda>message.
     rbind (optional_string (case message of PDict d \<Rightarrow> d | _ \<Rightarrow> []) ''event'' ename payload_path)
       (\<lambda>name.
       Inr (SendToPlugin \<lparr>ev_action = action, ev_context = ctx,
              sp_message = \<lparr>pm_name = name, pm_value = message\<rparr>, sp_device = device\<rparr>)))))"

definition parse_did_receive_global_settings :: "pydict \<Rightarrow> string \<Rightarrow> exn + stream_dock_event" where
  "parse_did_receive_global_settings data ename =
     rbind (require_object data ''payload'' ename []) (\<lambda>payload.
     rbind (require_object payload ''settings'' ename payload_path) (\<lambda>raw.
     rbind (clone_event_object (PDict raw)) (\<lambda>settings.
       Inr (DidReceiveGlobalSettings settings))))"

definition parse_device_did_connect :: "pydict \<Rightarrow> string \<Rightarrow> exn + stream_dock_event" where
  "parse_device_did_connect data ename =
     rbind (parse_device_info data ename True) (\<lambda>info.
     case info of
       None \<Rightarrow> Inl AssertionError
     | Some info \<Rightarrow>
         rbind (require_string data ''device'' (Some ename) []) (\<lambda>device.
           Inr (DeviceDidConnect device info)))"

definition parse_device_did_disconnect :: "pydict \<Rightarrow> string \<Rightarrow> exn + stream_dock_event" where
  "parse_device_did_disconnect data ename =
     rbind (require_string data ''device'' (Some ename) []) (\<lambda>device.
     rbind (parse_device_info data ename False) (\<lambda>info.
       Inr (DeviceDidDisconnect device info)))"

definition parse_application_event ::
    "(string \<Rightarrow> stream_dock_event) \<Rightarrow> pydict \<Rightarrow> string \<Rightarrow> exn + stream_dock_event" where
  "parse_application_event event_class data ename =
     rbind (require_object data ''payload'' ename []) (\<lambda>payload.
     rbind (require_string payload ''application'' (Some ename) payload_path) (\<lambda>application.
       Inr (event_class application)))"

definition parse_application_did_launch :: "pydict \<Rightarrow> string \<Rightarrow> exn + stream_dock_event" where
  "parse_application_did_launch = parse_application_event ApplicationDidLaunch"

definition parse_application_did_terminate :: "pydict \<Rightarrow> string \<Rightarrow> exn + stream_dock_event" where
  "parse_application_did_terminate = parse_application_event ApplicationDidTerminate"

definition parse_system_did_wake_up :: "pydict \<Rightarrow> string \<Rightarrow> exn + stream_dock_event" where
  "parse_system_did_wake_up data ename = Inr SystemDidWakeUp"

section \<open>The codec registry\<close>

record event_codec_descriptor =
  cd_wire_name :: string
  cd_event_class :: event_type
  cd_parser :: "pydict \<Rightarrow> string \<Rightarrow> exn + stream_dock_event"

text \<open>The registry under construction is an insertion-ordered dict.\<close>

fun register_descriptors ::
    "event_codec_descriptor list \<Rightarrow> (string \<times> event_codec_descriptor) list
      \<Rightarrow> exn + (string \<times> event_codec_descriptor) list" where
  "register_descriptors [] registry = Inr registry"
| "register_descriptors (d # ds) registry =
     (if map_of registry (cd_wire_name d) \<noteq> None then
        Inl (RuntimeError (''Duplicate Stream Dock event codec descriptor: '' @ cd_wire_name d))
      else if wire_name (cd_event_class d) \<noteq> cd_wire_name d then
        Inl (RuntimeError ''Event codec descriptor does not match its event class'')
      else register_descriptors ds (registry @ [(cd_wire_name d, d)]))"

definition build_event_codec_registry ::
    "event_codec_descriptor list \<Rightarrow> exn + (string \<times> event_codec_descriptor) list" where
  "build_event_codec_registry descriptors =
     rbind (register_descriptors descriptors []) (\<lambda>registry.
       if set (map fst registry) \<noteq> set (map wire_name all_event_types)
       then Inl (RuntimeError ''Stream Dock event codec registry does not match StreamDockEventType'')
       else Inr registry)"

fun parser_of :: "event_type \<Rightarrow> pydict \<Rightarrow> string \<Rightarrow> exn + stream_dock_event" where
  "parser_of WILL_APPEAR = parse_will_appear"
| "parser_of WILL_DISAPPEAR = parse_will_disappear"
| "parser_of DID_RECEIVE_SETTINGS = parse_did_receive_settings"
| "parser_of TITLE_PARAMETERS_DID_CHANGE = parse_title_parameters_did_change"
| "parser_of KEY_DOWN = parse_key_down"
| "parser_of KEY_UP = parse_key_up"
| "parser_of TOUCH_TAP = parse_touch_tap"
| "parser_of DIAL_DOWN = parse_dial_down"
| "parser_of DIAL_UP = parse_dial_up"
| "parser_of DIAL_ROTATE = parse_dial_rotate"
| "parser_of PROPERTY_INSPECTOR_DID_APPEAR = parse_property_inspector_did_appear"
| "parser_of PROPERTY_INSPECTOR_DID_DISAPPEAR = parse_property_inspector_did_disappear"
| "parser_of SEND_TO_PLUGIN = parse_send_to_plugin"
| "parser_of DID_RECEIVE_GLOBAL_SETTINGS = parse_did_receive_global_settings"
| "parser_of DEVICE_DID_CONNECT = parse_device_did_connect"
| "parser_of DEVICE_DID_DISCONNECT = parse_device_did_disconnect"
| "parser_of APPLICATION_DID_LAUNCH = parse_application_did_launch"
| "parser_of APPLICATION_DID_TERMINATE = parse_application_did_terminate"
| "parser_of SYSTEM_DID_WAKE_UP = parse_system_did_wake_up"

definition event_codec_descriptors :: "event_codec_descriptor list" where
  "event_codec_descriptors =
     map (\<lambda>t. \<lparr>cd_wire_name = wire_name t, cd_event_class = t, cd_parser = parser_of t\<rparr>)
       all_event_types"

definition event_codec_registry :: "(string \<times> event_codec_descriptor) list" where
  "event_codec_registry =
     (case build_event_codec_registry event_codec_descriptors of Inr r \<Rightarrow> r | Inl _ \<Rightarrow> [])"

definition parse_stream_dock_event :: "pyval \<Rightarrow> bool \<Rightarrow> exn + stream_dock_event" where
  "parse_stream_dock_event value allow_unknown =
     (case value of
        PDict data \<Rightarrow>
          rbind (require_string data ''event'' None []) (\<lambda>raw_event.
          case map_of event_codec_registry raw_event of
            None \<Rightarrow>
              if \<not> allow_unknown then
                (if \<not> is_json_value value
                 then Inl (MalformedEventError (Text ''message contains a non-JSON value'') None [])
                 else Inl (UnsupportedEventError raw_event))
              else rbind (clone_event_object value) (\<lambda>d. Inr (UnknownEvent raw_event d))
          | Some descriptor \<Rightarrow>
              rbind (cd_parser descriptor data raw_event) (\<lambda>event.
                if event_type_of event \<noteq> Some (cd_event_class descriptor)
                then Inl AssertionError else Inr event))
      | _ \<Rightarrow>
          if \<not> is_json_value value
          then Inl (MalformedEventError (Text ''message contains a non-JSON value'') None [])
          else Inl (MalformedEventError (Text ''expected event object'') None []))"

lemma registry_built:
  "build_event_codec_registry event_codec_descriptors =
     Inr (map (\<lambda>t. (wire_name t,
        \<lparr>cd_wire_name = wire_name t, cd_event_class = t, cd_parser = parser_of t\<rparr>)) all_event_types)"
  unfolding build_event_codec_registry_def event_codec_descriptors_def
  by (simp add: all_event_types_def)

lemma registry_lookup:
  "map_of event_codec_registry s =
     (if s \<in> range wire_name
      then Some \<lparr>cd_wire_name = s, cd_event_class = inv wire_name s,
                  cd_parser = parser_of (inv wire_name s)\<rparr> else None)"
proof -
  have "map_of (map (\<lambda>t. (wire_name t, f t)) ts) s =
      (if s \<in> wire_name ` set ts then Some (f (inv wire_name s)) else None)"
    for ts and f :: "event_type \<Rightarrow> event_codec_descriptor"
    by (induction ts) (auto simp: inv_f_f [OF wire_name_inj])
  from this [of _ all_event_types] show ?thesis
    by (auto simp: event_codec_registry_def registry_built f_inv_into_f)
qed

lemma registry_wire [simp]:
  "map_of event_codec_registry (wire_name t) =
     Some \<lparr>cd_wire_name = wire_name t, cd_event_class = t, cd_parser = parser_of t\<rparr>"
  by (simp add: registry_lookup inv_f_f [OF wire_name_inj])

lemma registry_None: "map_of event_codec_registry s = None \<longleftrightarrow> s \<notin> range wire_name"
  by (simp add: registry_lookup)


section \<open>What an object denotes\<close>

definition payload_denotes ::
    "pydict \<Rightarrow> pydict \<Rightarrow> 'a action_payload_event_scheme \<Rightarrow> bool" where
  "payload_denotes d p r \<longleftrightarrow>
     dict_get d ''action'' = Some (PStr (ev_action r)) \<and>
     dict_get d ''context'' = Some (PStr (ev_context r)) \<and>
     dict_get d ''device'' = Some (PStr (ev_device r)) \<and>
     dict_get d ''payload'' = Some (PDict p) \<and>
     dict_get p ''settings'' = Some (ev_settings r) \<and> json_object (ev_settings r) \<and>
     (\<exists>c. dict_get p ''coordinates'' = Some (PDict c) \<and>
        dict_get c ''column'' = Some (PInt (co_column (ev_coordinates r))) \<and>
        dict_get c ''row'' = Some (PInt (co_row (ev_coordinates r))))"

definition controller_denotes :: "pydict \<Rightarrow> controller option \<Rightarrow> bool" where
  "controller_denotes p c \<longleftrightarrow>
     dict_get p ''controller'' = map_option (\<lambda>c. PStr (controller_value c)) c"

definition visibility_denotes :: "pydict \<Rightarrow> visibility_event \<Rightarrow> bool" where
  "visibility_denotes d r \<longleftrightarrow> (\<exists>p. payload_denotes d p r \<and>
     controller_denotes p (Some (vi_controller r)) \<and>
     dict_get p ''isInMultiAction'' = Some (PBool (vi_is_in_multi_action r)) \<and>
     dict_get p ''state'' = map_option PInt (vi_state r))"

definition key_denotes :: "pydict \<Rightarrow> key_event \<Rightarrow> bool" where
  "key_denotes d r \<longleftrightarrow> (\<exists>p. payload_denotes d p r \<and>
     dict_get p ''isInMultiAction'' = Some (PBool (ke_is_in_multi_action r)) \<and>
     controller_denotes p (ke_controller r) \<and>
     dict_get p ''state'' = map_option PInt (ke_state r) \<and>
     dict_get p ''userDesiredState'' = map_option PInt (ke_user_desired_state r))"

definition dial_press_denotes :: "pydict \<Rightarrow> dial_press_event \<Rightarrow> bool" where
  "dial_press_denotes d r \<longleftrightarrow>
     (\<exists>p. payload_denotes d p r \<and> controller_denotes p (Some (dp_controller r)))"

definition inspector_denotes :: "pydict \<Rightarrow> device_action_event \<Rightarrow> bool" where
  "inspector_denotes d r \<longleftrightarrow>
     dict_get d ''action'' = Some (PStr (ev_action r)) \<and>
     dict_get d ''context'' = Some (PStr (ev_context r)) \<and>
     dict_get d ''device'' = Some (PStr (ev_device r))"

definition title_parameters_denotes :: "pydict \<Rightarrow> title_parameters \<Rightarrow> bool" where
  "title_parameters_denotes p t \<longleftrightarrow> (\<exists>v. dict_get p ''titleParameters'' = Some (PDict v) \<and>
     dict_get v ''titleAlignment'' = Some (PStr (alignment_value (tp_alignment t))) \<and>
     dict_get v ''fontFamily'' = Some (PStr (tp_font_family t)) \<and>
     dict_get v ''fontSize'' = Some (PInt (tp_font_size t)) \<and>
     dict_get v ''fontStyle'' = Some (PStr (tp_font_style t)) \<and>
     dict_get v ''fontUnderline'' = Some (PBool (tp_font_underline t)) \<and>
     dict_get v ''showTitle'' = Some (PBool (tp_show_title t)) \<and>
     dict_get v ''titleColor'' = Some (PStr (tp_color t)))"

definition device_info_denotes :: "pydict \<Rightarrow> device_info \<Rightarrow> bool" where
  "device_info_denotes d i \<longleftrightarrow> (\<exists>v s. dict_get d ''deviceInfo'' = Some (PDict v) \<and>
     dict_get v ''size'' = Some (PDict s) \<and>
     dict_get v ''name'' = Some (PStr (di_name i)) \<and>
     dict_get v ''type'' = Some (PInt (di_type i)) \<and>
     dict_get s ''columns'' = Some (PInt (ds_columns (di_size i))) \<and>
     dict_get s ''rows'' = Some (PInt (ds_rows (di_size i))))"

definition application_denotes :: "pydict \<Rightarrow> string \<Rightarrow> bool" where
  "application_denotes d a \<longleftrightarrow>
     (\<exists>p. dict_get d ''payload'' = Some (PDict p) \<and> dict_get p ''application'' = Some (PStr a))"

fun denotes :: "pydict \<Rightarrow> stream_dock_event \<Rightarrow> bool" where
  "denotes d (WillAppear r) = visibility_denotes d r"
| "denotes d (WillDisappear r) = visibility_denotes d r"
| "denotes d (DidReceiveSettings r) = (\<exists>p. payload_denotes d p r \<and>
     dict_get p ''isInMultiAction'' = Some (PBool (rs_is_in_multi_action r)) \<and>
     controller_denotes p (rs_controller r) \<and>
     dict_get p ''state'' = map_option PInt (rs_state r))"
| "denotes d (TitleParametersDidChange r) = (\<exists>p. payload_denotes d p r \<and>
     dict_get p ''title'' = Some (PStr (ti_title r)) \<and>
     title_parameters_denotes p (ti_parameters r) \<and>
     controller_denotes p (ti_controller r) \<and>
     dict_get p ''state'' = map_option PInt (ti_state r))"
| "denotes d (KeyDown r) = key_denotes d r"
| "denotes d (KeyUp r) = key_denotes d r"
| "denotes d (TouchTap r) = key_denotes d r"
| "denotes d (DialDown r) = dial_press_denotes d r"
| "denotes d (DialUp r) = dial_press_denotes d r"
| "denotes d (DialRotate r) = (\<exists>p. payload_denotes d p r \<and>
     dict_get p ''ticks'' = Some (PInt (dr_ticks r)) \<and>
     dict_get p ''pressed'' = Some (PBool (dr_pressed r)) \<and>
     controller_denotes p (dr_controller r))"
| "denotes d (PropertyInspectorDidAppear r) = inspector_denotes d r"
| "denotes d (PropertyInspectorDidDisappear r) = inspector_denotes d r"
| "denotes d (SendToPlugin r) = (
     dict_get d ''action'' = Some (PStr (ev_action r)) \<and>
     dict_get d ''context'' = Some (PStr (ev_context r)) \<and>
     dict_get d ''device'' = map_option PStr (sp_device r) \<and>
     (\<exists>m. dict_get d ''payload'' = Some (PDict m) \<and> pm_value (sp_message r) = PDict m \<and>
        json_object (PDict m) \<and> dict_get m ''event'' = map_option PStr (pm_name (sp_message r))))"
| "denotes d (DidReceiveGlobalSettings s) = (json_object s \<and>
     (\<exists>p. dict_get d ''payload'' = Some (PDict p) \<and> dict_get p ''settings'' = Some s))"
| "denotes d (DeviceDidConnect device i) =
     (dict_get d ''device'' = Some (PStr device) \<and> device_info_denotes d i)"
| "denotes d (DeviceDidDisconnect device i) = (dict_get d ''device'' = Some (PStr device) \<and>
     (case i of None \<Rightarrow> dict_get d ''deviceInfo'' = None | Some i \<Rightarrow> device_info_denotes d i))"
| "denotes d (ApplicationDidLaunch a) = application_denotes d a"
| "denotes d (ApplicationDidTerminate a) = application_denotes d a"
| "denotes d SystemDidWakeUp = True"
| "denotes d (UnknownEvent n v) =
     (n \<notin> range wire_name \<and> v = PDict d \<and> json_object (PDict d))"

section \<open>Accepted objects\<close>

lemma option_case_Inr:
  "(case x of None \<Rightarrow> Inl e | Some a \<Rightarrow> f a) = Inr y \<longleftrightarrow> (\<exists>a. x = Some a \<and> f a = Inr y)"
  "(case x of None \<Rightarrow> invalid n p r | Some a \<Rightarrow> f a) = Inr y \<longleftrightarrow> (\<exists>a. x = Some a \<and> f a = Inr y)"
  by (auto simp: invalid_def split: option.splits)

lemma required_field_Inr [simp]:
  "require_string d k n p = Inr s \<longleftrightarrow> dict_get d k = Some (PStr s)"
  "require_int d k m p = Inr i \<longleftrightarrow> dict_get d k = Some (PInt i)"
  "require_bool d k m p = Inr b \<longleftrightarrow> dict_get d k = Some (PBool b)"
  "require_object d k m p = Inr e \<longleftrightarrow> dict_get d k = Some (PDict e)"
  by (auto simp: require_string_def require_int_def require_bool_def require_object_def invalid_def
      split: option.splits pyval.splits)

lemma optional_field_Inr [simp]:
  "optional_string d k m p = Inr so \<longleftrightarrow> dict_get d k = map_option PStr so"
  "optional_int d k m p = Inr io \<longleftrightarrow> dict_get d k = map_option PInt io"
  by (cases so; auto simp: optional_string_def invalid_def split: option.splits pyval.splits)
    (cases io; auto simp: optional_int_def invalid_def split: option.splits pyval.splits)

lemma clone_event_object_Inr [simp]:
  "clone_event_object v = Inr w \<longleftrightarrow> w = v \<and> json_object v"
proof (cases "clone_json_object v")
  case (Inl x)
  then have "\<not> json_object v" by (metis clone_json_object_Inr sum.distinct(1))
  moreover have "clone_event_object v \<noteq> Inr w"
    using Inl clone_json_object_errors [OF Inl] by (auto simp: clone_event_object_def)
  ultimately show ?thesis by simp
next
  case (Inr u)
  then have "u = v" "json_object v" by simp_all
  with Inr show ?thesis unfolding clone_event_object_def Inr by auto
qed

lemma controller_Inr [simp]:
  "parse_controller p n False = Inr c \<longleftrightarrow> controller_denotes p c"
  "parse_controller p n True = Inr c \<longleftrightarrow> c \<noteq> None \<and> controller_denotes p c"
  by (cases c; auto simp: parse_controller_def controller_denotes_def rbind_eq_Inr option_case_Inr
      controller_of_Some split: option.splits)+

lemma required_controller_Inr [simp]:
  "required_controller p n = Inr c \<longleftrightarrow> controller_denotes p (Some c)"
  by (auto simp: required_controller_def rbind_eq_Inr option_case_Inr)

lemma coordinates_Inr [simp]:
  "parse_coordinates p n = Inr c \<longleftrightarrow> (\<exists>v. dict_get p ''coordinates'' = Some (PDict v) \<and>
     dict_get v ''column'' = Some (PInt (co_column c)) \<and> dict_get v ''row'' = Some (PInt (co_row c)))"
  by (cases c) (auto simp: parse_coordinates_def rbind_eq_Inr)

lemma title_parameters_Inr [simp]:
  "parse_title_parameters p n = Inr t \<longleftrightarrow> title_parameters_denotes p t"
  by (cases t) (auto simp: parse_title_parameters_def title_parameters_denotes_def rbind_eq_Inr
      option_case_Inr alignment_of_Some Let_def)

lemma device_info_Inr [simp]:
  "parse_device_info d n False = Inr i \<longleftrightarrow>
     (case i of None \<Rightarrow> dict_get d ''deviceInfo'' = None | Some i \<Rightarrow> device_info_denotes d i)"
  "parse_device_info d n True = Inr (Some j) \<longleftrightarrow> device_info_denotes d j"
  "parse_device_info d n True \<noteq> Inr None"
  by (cases i; auto simp: parse_device_info_def device_info_denotes_def rbind_eq_Inr invalid_def)
    (cases j; auto simp: parse_device_info_def device_info_denotes_def rbind_eq_Inr invalid_def)+

lemma action_identity_Inr [simp]:
  "action_identity d n True = Inr (a, c, device) \<longleftrightarrow>
     dict_get d ''action'' = Some (PStr a) \<and> dict_get d ''context'' = Some (PStr c) \<and>
     (\<exists>x. device = Some x \<and> dict_get d ''device'' = Some (PStr x))"
  "action_identity d n False = Inr (a, c, device) \<longleftrightarrow>
     dict_get d ''action'' = Some (PStr a) \<and> dict_get d ''context'' = Some (PStr c) \<and>
     dict_get d ''device'' = map_option PStr device"
  by (auto simp: action_identity_def rbind_eq_Inr)

lemma action_payload_Inr [simp]:
  "action_payload d n = Inr (b, p) \<longleftrightarrow> payload_denotes d p b"
  by (cases b) (auto simp: action_payload_def payload_denotes_def rbind_eq_Inr option_case_Inr
      json_object_def elim: is_dict.elims)

lemma payload_denotes_extend [simp]:
  "payload_denotes d p (action_payload_event.extend b m) = payload_denotes d p b"
  by (simp add: payload_denotes_def action_payload_event.defs)

lemma payload_denotes_truncate [simp]:
  "payload_denotes d p (action_payload_event.truncate r) = payload_denotes d p r"
  by (simp add: payload_denotes_def action_payload_event.defs)


lemma extend_eq:
  "r = action_payload_event.extend b m \<longleftrightarrow>
     b = action_payload_event.truncate r \<and> m = action_payload_event.more r"
  by (cases r) (auto simp: action_payload_event.defs)

text \<open>A record of a concrete class is its base extended by its own fields.\<close>

lemma extended_records:
  "v = action_payload_event.extend (action_payload_event.truncate v)
     (visibility_event.fields (vi_controller v) (vi_is_in_multi_action v) (vi_state v))"
  "rs = action_payload_event.extend (action_payload_event.truncate rs)
     (did_receive_settings_event.fields (rs_is_in_multi_action rs) (rs_controller rs) (rs_state rs))"
  "k = action_payload_event.extend (action_payload_event.truncate k)
     (key_event.fields (ke_is_in_multi_action k) (ke_controller k) (ke_state k) (ke_user_desired_state k))"
  "dp = action_payload_event.extend (action_payload_event.truncate dp)
     (dial_press_event.fields (dp_controller dp))"
  "dr = action_payload_event.extend (action_payload_event.truncate dr)
     (dial_rotate_event.fields (dr_ticks dr) (dr_pressed dr) (dr_controller dr))"
  "tt = action_payload_event.extend (action_payload_event.truncate tt)
     (title_parameters_event.fields (ti_title tt) (ti_parameters tt) (ti_controller tt) (ti_state tt))"
  by (simp_all add: action_payload_event.defs visibility_event.defs did_receive_settings_event.defs
      key_event.defs dial_press_event.defs dial_rotate_event.defs title_parameters_event.defs)

lemma extended_fields [simp]:
  "vi_controller (action_payload_event.extend b (visibility_event.fields c m s)) = c"
  "vi_is_in_multi_action (action_payload_event.extend b (visibility_event.fields c m s)) = m"
  "vi_state (action_payload_event.extend b (visibility_event.fields c m s)) = s"
  "rs_is_in_multi_action (action_payload_event.extend b (did_receive_settings_event.fields m co s)) = m"
  "rs_controller (action_payload_event.extend b (did_receive_settings_event.fields m co s)) = co"
  "rs_state (action_payload_event.extend b (did_receive_settings_event.fields m co s)) = s"
  "ke_is_in_multi_action (action_payload_event.extend b (key_event.fields m co s u)) = m"
  "ke_controller (action_payload_event.extend b (key_event.fields m co s u)) = co"
  "ke_state (action_payload_event.extend b (key_event.fields m co s u)) = s"
  "ke_user_desired_state (action_payload_event.extend b (key_event.fields m co s u)) = u"
  "dp_controller (action_payload_event.extend b (dial_press_event.fields c)) = c"
  "dr_ticks (action_payload_event.extend b (dial_rotate_event.fields i m co)) = i"
  "dr_pressed (action_payload_event.extend b (dial_rotate_event.fields i m co)) = m"
  "dr_controller (action_payload_event.extend b (dial_rotate_event.fields i m co)) = co"
  "ti_title (action_payload_event.extend b (title_parameters_event.fields t tp co s)) = t"
  "ti_parameters (action_payload_event.extend b (title_parameters_event.fields t tp co s)) = tp"
  "ti_controller (action_payload_event.extend b (title_parameters_event.fields t tp co s)) = co"
  "ti_state (action_payload_event.extend b (title_parameters_event.fields t tp co s)) = s"
  by (simp_all add: action_payload_event.defs visibility_event.defs did_receive_settings_event.defs
      key_event.defs dial_press_event.defs dial_rotate_event.defs title_parameters_event.defs)

lemma parse_payload_Inr:
  "rbind (action_payload d n) (\<lambda>(b, p). F b p) = Inr e \<longleftrightarrow>
     (\<exists>b p. payload_denotes d p b \<and> F b p = Inr e)"
  by (auto simp: rbind_eq_Inr)

lemma visibility_Inr:
  "parse_visibility_event C d n = Inr e \<longleftrightarrow> (\<exists>r. e = C r \<and> visibility_denotes d r)"
  unfolding parse_visibility_event_def parse_payload_Inr visibility_denotes_def
  by (auto simp: rbind_eq_Inr)
    (fastforce, metis extended_records(1) payload_denotes_truncate)

lemma key_Inr: "parse_key_event C d n = Inr e \<longleftrightarrow> (\<exists>r. e = C r \<and> key_denotes d r)"
  unfolding parse_key_event_def parse_payload_Inr key_denotes_def
  by (auto simp: rbind_eq_Inr)
    (fastforce, metis extended_records(3) payload_denotes_truncate)

lemma dial_press_Inr:
  "parse_dial_press_event C d n = Inr e \<longleftrightarrow> (\<exists>r. e = C r \<and> dial_press_denotes d r)"
  unfolding parse_dial_press_event_def parse_payload_Inr dial_press_denotes_def
  by (auto simp: rbind_eq_Inr)
    (fastforce, metis extended_records(4) payload_denotes_truncate)

lemma did_receive_settings_Inr:
  "parse_did_receive_settings d n = Inr e \<longleftrightarrow> (\<exists>r. e = DidReceiveSettings r \<and> denotes d e)"
  unfolding parse_did_receive_settings_def parse_payload_Inr
  by (auto simp: rbind_eq_Inr)
    (metis extended_records(2) payload_denotes_truncate)

lemma dial_rotate_Inr:
  "parse_dial_rotate d n = Inr e \<longleftrightarrow> (\<exists>r. e = DialRotate r \<and> denotes d e)"
  unfolding parse_dial_rotate_def parse_payload_Inr
  by (auto simp: rbind_eq_Inr)
    (metis extended_records(5) payload_denotes_truncate)

lemma title_event_Inr:
  "parse_title_parameters_did_change d n = Inr e \<longleftrightarrow>
     (\<exists>r. e = TitleParametersDidChange r \<and> denotes d e)"
  unfolding parse_title_parameters_did_change_def parse_payload_Inr
  by (auto simp: rbind_eq_Inr)
    (metis extended_records(6) payload_denotes_truncate)


lemma inspector_Inr:
  "parse_property_inspector_event C d n = Inr e \<longleftrightarrow> (\<exists>r. e = C r \<and> inspector_denotes d r)"
proof -
  have "(\<exists>r. e = C r \<and> inspector_denotes d r) \<longleftrightarrow>
     (\<exists>a c x. e = C \<lparr>ev_action = a, ev_context = c, ev_device = x\<rparr> \<and>
        inspector_denotes d \<lparr>ev_action = a, ev_context = c, ev_device = x\<rparr>)"
    by (metis device_action_event.cases)
  then show ?thesis
    by (auto simp: parse_property_inspector_event_def rbind_eq_Inr inspector_denotes_def)
qed

lemma application_Inr:
  "parse_application_event C d n = Inr e \<longleftrightarrow> (\<exists>a. e = C a \<and> application_denotes d a)"
  by (auto simp: parse_application_event_def rbind_eq_Inr application_denotes_def)

lemma send_to_plugin_Inr:
  "parse_send_to_plugin d n = Inr e \<longleftrightarrow> (\<exists>r. e = SendToPlugin r \<and> denotes d e)"
proof -
  have "(\<exists>r. e = SendToPlugin r \<and> denotes d e) \<longleftrightarrow>
     (\<exists>a c na v x. e = SendToPlugin \<lparr>ev_action = a, ev_context = c,
        sp_message = \<lparr>pm_name = na, pm_value = v\<rparr>, sp_device = x\<rparr> \<and> denotes d e)"
    by (metis send_to_plugin_event.cases pi_message.cases)
  then show ?thesis
    by (auto simp: parse_send_to_plugin_def rbind_eq_Inr)
qed

lemma global_settings_Inr:
  "parse_did_receive_global_settings d n = Inr e \<longleftrightarrow>
     (\<exists>s. e = DidReceiveGlobalSettings s \<and> denotes d e)"
  by (auto simp: parse_did_receive_global_settings_def rbind_eq_Inr json_object_def
      elim!: is_dict.elims)

lemma device_Inr:
  "parse_device_did_connect d n = Inr e \<longleftrightarrow> (\<exists>x i. e = DeviceDidConnect x i \<and> denotes d e)"
  "parse_device_did_disconnect d n = Inr e \<longleftrightarrow> (\<exists>x i. e = DeviceDidDisconnect x i \<and> denotes d e)"
  by (auto simp: parse_device_did_connect_def parse_device_did_disconnect_def rbind_eq_Inr
      option_case_Inr)

lemmas parser_defs = parse_will_appear_def parse_will_disappear_def parse_key_down_def
  parse_key_up_def parse_touch_tap_def parse_dial_down_def parse_dial_up_def
  parse_property_inspector_did_appear_def parse_property_inspector_did_disappear_def
  parse_application_did_launch_def parse_application_did_terminate_def

lemmas parser_Inr = visibility_Inr key_Inr dial_press_Inr did_receive_settings_Inr dial_rotate_Inr
  title_event_Inr inspector_Inr application_Inr send_to_plugin_Inr global_settings_Inr device_Inr

lemma parser_of_Inr:
  "parser_of t d n = Inr e \<longleftrightarrow> event_type_of e = Some t \<and> denotes d e"
  by (cases t; cases e) (simp_all add: parser_defs parser_Inr parse_system_did_wake_up_def)


section \<open>Where an error points\<close>

fun path_get :: "pyval \<Rightarrow> path \<Rightarrow> pyval option" where
  "path_get v [] = Some v"
| "path_get (PDict d) (Key k # p) = (case dict_get d k of None \<Rightarrow> None | Some v \<Rightarrow> path_get v p)"
| "path_get (PList vs) (Index i # p) = (if i < length vs then path_get (vs ! i) p else None)"
| "path_get _ _ = None"

lemma path_get_append:
  "path_get v (p @ q) = (case path_get v p of None \<Rightarrow> None | Some w \<Rightarrow> path_get w q)"
  by (induction v p rule: path_get.induct) (auto split: option.splits)

lemma option_case_Inl:
  "(case x of None \<Rightarrow> r | Some a \<Rightarrow> f a) = Inl y \<longleftrightarrow>
     x = None \<and> r = Inl y \<or> (\<exists>a. x = Some a \<and> f a = Inl y)"
  by (auto split: option.splits)

text \<open>
  The error of a recognised event: an error about the whole message, or an error that names the
  event and a field of an object of the message, absent exactly when it is reported as missing.
\<close>

definition field_error :: "pyval \<Rightarrow> string option \<Rightarrow> exn \<Rightarrow> bool" where
  "field_error msg n x = (case x of
     InvalidFieldError r en p \<Rightarrow> en = n \<and>
       (\<exists>q k d. p = q @ [Key k] \<and> path_get msg q = Some (PDict d) \<and>
          (r = missing \<longleftrightarrow> dict_get d k = None))
   | MalformedEventError r en p \<Rightarrow> en = None \<and> p = []
   | _ \<Rightarrow> False)"

lemma invalid_located:
  "invalid n (q @ [Key k]) r = Inl x \<Longrightarrow> path_get msg q = Some (PDict d) \<Longrightarrow>
     (r = missing \<longleftrightarrow> dict_get d k = None) \<Longrightarrow> field_error msg n x"
  by (auto simp: invalid_def field_error_def)

lemma required_error:
  "require_string d k en q = Inl x \<Longrightarrow> path_get msg q = Some (PDict d) \<Longrightarrow> field_error msg en x"
  "require_int d k n q = Inl x \<Longrightarrow> path_get msg q = Some (PDict d) \<Longrightarrow> field_error msg (Some n) x"
  "require_bool d k n q = Inl x \<Longrightarrow> path_get msg q = Some (PDict d) \<Longrightarrow> field_error msg (Some n) x"
  "require_object d k n q = Inl x \<Longrightarrow> path_get msg q = Some (PDict d) \<Longrightarrow> field_error msg (Some n) x"
  by (auto simp: require_string_def require_int_def require_bool_def require_object_def
      elim!: invalid_located split: option.splits pyval.splits)

lemma optional_error:
  "optional_string d k n q = Inl x \<Longrightarrow> path_get msg q = Some (PDict d) \<Longrightarrow> field_error msg (Some n) x"
  "optional_int d k n q = Inl x \<Longrightarrow> path_get msg q = Some (PDict d) \<Longrightarrow> field_error msg (Some n) x"
  by (auto simp: optional_string_def optional_int_def
      elim!: invalid_located split: option.splits pyval.splits)

lemma clone_error: "clone_event_object v = Inl x \<Longrightarrow> field_error msg n x"
  by (auto simp: clone_event_object_def field_error_def
      split: sum.splits exn.splits dest: clone_json_object_errors)

lemma controller_error:
  assumes "parse_controller p n b = Inl x" "path_get msg payload_path = Some (PDict p)"
  shows "field_error msg (Some n) x"
proof -
  have bad: "invalid (Some n) (payload_path @ [Key ''controller'']) (UnsupportedController s) = Inl x \<Longrightarrow>
      dict_get p ''controller'' = Some (PStr s) \<Longrightarrow> field_error msg (Some n) x" for s
    by (erule invalid_located [OF _ assms(2)]) simp
  show ?thesis using assms
    by (auto simp: parse_controller_def rbind_eq_Inl rbind_eq_Inr option_case_Inl split: if_splits
        intro: bad required_error optional_error)
qed

lemma required_controller_error:
  "required_controller p n = Inl x \<Longrightarrow> path_get msg payload_path = Some (PDict p) \<Longrightarrow>
     field_error msg (Some n) x"
  by (auto simp: required_controller_def rbind_eq_Inl split: option.splits intro: controller_error)

lemma path_get_step:
  "path_get msg q = Some (PDict d) \<Longrightarrow> dict_get d k = Some v \<Longrightarrow>
     path_get msg (q @ [Key k]) = Some v"
  by (simp add: path_get_append)

lemma coordinates_error:
  assumes "parse_coordinates p n = Inl x" "path_get msg payload_path = Some (PDict p)"
  shows "field_error msg (Some n) x"
  using assms path_get_step [OF assms(2)]
  by (auto simp: parse_coordinates_def rbind_eq_Inl intro: required_error)

lemma title_parameters_error:
  assumes "parse_title_parameters p n = Inl x" "path_get msg payload_path = Some (PDict p)"
  shows "field_error msg (Some n) x"
proof -
  have bad: "invalid (Some n) ((payload_path @ [Key ''titleParameters'']) @ [Key ''titleAlignment''])
        (UnsupportedAlignment s) = Inl x \<Longrightarrow>
      path_get msg (payload_path @ [Key ''titleParameters'']) = Some (PDict v) \<Longrightarrow>
      dict_get v ''titleAlignment'' = Some (PStr s) \<Longrightarrow> field_error msg (Some n) x" for s v
    by (erule invalid_located) auto
  show ?thesis using assms path_get_step [OF assms(2)]
    by (auto simp: parse_title_parameters_def rbind_eq_Inl Let_def option_case_Inl
        intro: bad required_error)
qed

lemma path_get_two:
  "dict_get d k = Some (PDict e) \<Longrightarrow> dict_get e l = Some (PDict f) \<Longrightarrow>
     path_get (PDict d) [Key k, Key l] = Some (PDict f)"
  by simp

lemma device_info_error:
  assumes "parse_device_info d n b = Inl x"
  shows "field_error (PDict d) (Some n) x"
proof -
  have "invalid (Some n) [Key ''deviceInfo''] missing = Inl x \<Longrightarrow>
      dict_get d ''deviceInfo'' = None \<Longrightarrow> field_error (PDict d) (Some n) x"
    by (rule invalid_located [of _ "[]" "''deviceInfo''"]) auto
  then show ?thesis using assms
    by (auto simp: parse_device_info_def rbind_eq_Inl split: if_splits
        intro: required_error path_get_two)
qed

lemma action_identity_error:
  "action_identity d n b = Inl x \<Longrightarrow> field_error (PDict d) (Some n) x"
  by (auto simp: action_identity_def rbind_eq_Inl split: if_splits intro: required_error optional_error)

lemma action_payload_error:
  "action_payload d n = Inl x \<Longrightarrow> field_error (PDict d) (Some n) x"
  by (auto simp: action_payload_def rbind_eq_Inl split: option.splits
      intro: required_error action_identity_error clone_error coordinates_error)

lemma payload_denotes_path:
  "payload_denotes d p b \<Longrightarrow> path_get (PDict d) payload_path = Some (PDict p)"
  by (simp add: payload_denotes_def)

lemmas field_errors = required_error optional_error clone_error controller_error
  required_controller_error title_parameters_error device_info_error action_identity_error
  action_payload_error

lemma parser_of_error:
  "parser_of t d n = Inl x \<Longrightarrow> field_error (PDict d) (Some n) x"
  by (cases t) (auto simp: parser_defs parse_visibility_event_def parse_key_event_def
      parse_dial_press_event_def parse_did_receive_settings_def parse_dial_rotate_def
      parse_title_parameters_did_change_def parse_property_inspector_event_def
      parse_application_event_def parse_send_to_plugin_def parse_did_receive_global_settings_def
      parse_device_did_connect_def parse_device_did_disconnect_def parse_system_did_wake_up_def
      rbind_eq_Inl split: option.splits dest!: payload_denotes_path intro: field_errors)


section \<open>Writing an event\<close>

definition opt_field :: "string \<Rightarrow> pyval option \<Rightarrow> pydict" where
  "opt_field k v = (case v of None \<Rightarrow> [] | Some x \<Rightarrow> [(PStr k, x)])"

definition payload_fields :: "'a action_payload_event_scheme \<Rightarrow> pydict \<Rightarrow> pydict" where
  "payload_fields r extra =
     [(PStr ''action'', PStr (ev_action r)), (PStr ''context'', PStr (ev_context r)),
      (PStr ''device'', PStr (ev_device r)),
      (PStr ''payload'', PDict ([(PStr ''settings'', ev_settings r),
         (PStr ''coordinates'', PDict [(PStr ''column'', PInt (co_column (ev_coordinates r))),
            (PStr ''row'', PInt (co_row (ev_coordinates r)))])] @ extra))]"

definition controller_field :: "controller option \<Rightarrow> pydict" where
  "controller_field c = opt_field ''controller'' (map_option (\<lambda>c. PStr (controller_value c)) c)"

definition visibility_fields :: "visibility_event \<Rightarrow> pydict" where
  "visibility_fields r = payload_fields r (controller_field (Some (vi_controller r))
     @ (PStr ''isInMultiAction'', PBool (vi_is_in_multi_action r))
     # opt_field ''state'' (map_option PInt (vi_state r)))"

definition key_fields :: "key_event \<Rightarrow> pydict" where
  "key_fields r = payload_fields r ((PStr ''isInMultiAction'', PBool (ke_is_in_multi_action r))
     # controller_field (ke_controller r) @ opt_field ''state'' (map_option PInt (ke_state r))
     @ opt_field ''userDesiredState'' (map_option PInt (ke_user_desired_state r)))"

definition device_info_value :: "device_info \<Rightarrow> pyval" where
  "device_info_value i = PDict [(PStr ''name'', PStr (di_name i)), (PStr ''type'', PInt (di_type i)),
     (PStr ''size'', PDict [(PStr ''columns'', PInt (ds_columns (di_size i))),
        (PStr ''rows'', PInt (ds_rows (di_size i)))])]"

definition title_parameters_value :: "title_parameters \<Rightarrow> pyval" where
  "title_parameters_value t = PDict [(PStr ''fontFamily'', PStr (tp_font_family t)),
     (PStr ''fontSize'', PInt (tp_font_size t)), (PStr ''fontStyle'', PStr (tp_font_style t)),
     (PStr ''fontUnderline'', PBool (tp_font_underline t)),
     (PStr ''showTitle'', PBool (tp_show_title t)),
     (PStr ''titleAlignment'', PStr (alignment_value (tp_alignment t))),
     (PStr ''titleColor'', PStr (tp_color t))]"

definition inspector_fields :: "device_action_event \<Rightarrow> pydict" where
  "inspector_fields r = [(PStr ''action'', PStr (ev_action r)),
     (PStr ''context'', PStr (ev_context r)), (PStr ''device'', PStr (ev_device r))]"

definition application_fields :: "string \<Rightarrow> pydict" where
  "application_fields a = [(PStr ''payload'', PDict [(PStr ''application'', PStr a)])]"

fun wire_fields :: "stream_dock_event \<Rightarrow> pydict" where
  "wire_fields (WillAppear r) = visibility_fields r"
| "wire_fields (WillDisappear r) = visibility_fields r"
| "wire_fields (DidReceiveSettings r) = payload_fields r
     ((PStr ''isInMultiAction'', PBool (rs_is_in_multi_action r))
      # controller_field (rs_controller r) @ opt_field ''state'' (map_option PInt (rs_state r)))"
| "wire_fields (TitleParametersDidChange r) = payload_fields r
     ((PStr ''title'', PStr (ti_title r))
      # (PStr ''titleParameters'', title_parameters_value (ti_parameters r))
      # controller_field (ti_controller r) @ opt_field ''state'' (map_option PInt (ti_state r)))"
| "wire_fields (KeyDown r) = key_fields r"
| "wire_fields (KeyUp r) = key_fields r"
| "wire_fields (TouchTap r) = key_fields r"
| "wire_fields (DialDown r) = payload_fields r (controller_field (Some (dp_controller r)))"
| "wire_fields (DialUp r) = payload_fields r (controller_field (Some (dp_controller r)))"
| "wire_fields (DialRotate r) = payload_fields r
     ((PStr ''ticks'', PInt (dr_ticks r)) # (PStr ''pressed'', PBool (dr_pressed r))
      # controller_field (dr_controller r))"
| "wire_fields (PropertyInspectorDidAppear r) = inspector_fields r"
| "wire_fields (PropertyInspectorDidDisappear r) = inspector_fields r"
| "wire_fields (SendToPlugin r) =
     [(PStr ''action'', PStr (ev_action r)), (PStr ''context'', PStr (ev_context r)),
      (PStr ''payload'', pm_value (sp_message r))] @ opt_field ''device'' (map_option PStr (sp_device r))"
| "wire_fields (DidReceiveGlobalSettings s) = [(PStr ''payload'', PDict [(PStr ''settings'', s)])]"
| "wire_fields (DeviceDidConnect x i) =
     [(PStr ''device'', PStr x), (PStr ''deviceInfo'', device_info_value i)]"
| "wire_fields (DeviceDidDisconnect x i) =
     (PStr ''device'', PStr x) # opt_field ''deviceInfo'' (map_option device_info_value i)"
| "wire_fields (ApplicationDidLaunch a) = application_fields a"
| "wire_fields (ApplicationDidTerminate a) = application_fields a"
| "wire_fields SystemDidWakeUp = []"
| "wire_fields (UnknownEvent n v) = []"

fun event_to_wire :: "stream_dock_event \<Rightarrow> pyval" where
  "event_to_wire (UnknownEvent n v) = v"
| "event_to_wire e = PDict ((PStr ''event'', PStr (event_name e)) # wire_fields e)"

text \<open>The events that a message can carry: their JSON parts are JSON objects within the depth limit.\<close>

fun representable :: "stream_dock_event \<Rightarrow> bool" where
  "representable (WillAppear r) = json_object (ev_settings r)"
| "representable (WillDisappear r) = json_object (ev_settings r)"
| "representable (DidReceiveSettings r) = json_object (ev_settings r)"
| "representable (TitleParametersDidChange r) = json_object (ev_settings r)"
| "representable (KeyDown r) = json_object (ev_settings r)"
| "representable (KeyUp r) = json_object (ev_settings r)"
| "representable (TouchTap r) = json_object (ev_settings r)"
| "representable (DialDown r) = json_object (ev_settings r)"
| "representable (DialUp r) = json_object (ev_settings r)"
| "representable (DialRotate r) = json_object (ev_settings r)"
| "representable (SendToPlugin r) = (case pm_value (sp_message r) of
     PDict m \<Rightarrow> json_object (PDict m) \<and> dict_get m ''event'' = map_option PStr (pm_name (sp_message r))
   | _ \<Rightarrow> False)"
| "representable (DidReceiveGlobalSettings s) = json_object s"
| "representable (UnknownEvent n v) = (case v of
     PDict d \<Rightarrow> json_object v \<and> dict_get d ''event'' = Some (PStr n)
        \<and> n \<notin> set (map wire_name all_event_types)
   | _ \<Rightarrow> False)"
| "representable _ = True"

lemma dict_get_append [simp]:
  "dict_get (d @ e) k = (case dict_get d k of None \<Rightarrow> dict_get e k | Some v \<Rightarrow> Some v)"
  by (auto simp: dict_get_def map_add_def split: option.splits)

lemma dict_get_opt_field [simp]:
  "dict_get (opt_field k v) l = (if k = l then v else None)"
  by (simp add: opt_field_def split: option.splits)

lemma payload_fields_denotes [simp]:
  "payload_denotes ((PStr ''event'', n) # payload_fields r extra) p r \<longleftrightarrow>
     json_object (ev_settings r) \<and>
     p = [(PStr ''settings'', ev_settings r),
         (PStr ''coordinates'', PDict [(PStr ''column'', PInt (co_column (ev_coordinates r))),
            (PStr ''row'', PInt (co_row (ev_coordinates r)))])] @ extra"
  by (auto simp: payload_denotes_def payload_fields_def)

lemma wire_denotes:
  assumes "\<not> is_unknown e"
  shows "denotes ((PStr ''event'', n) # wire_fields e) e \<longleftrightarrow> representable e"
  using assms
  by (cases e) (auto simp: visibility_denotes_def visibility_fields_def key_denotes_def key_fields_def
      dial_press_denotes_def controller_denotes_def controller_field_def title_parameters_denotes_def
      title_parameters_value_def inspector_denotes_def inspector_fields_def device_info_denotes_def
      device_info_value_def application_denotes_def application_fields_def
      split: option.splits pyval.splits)

lemma denotes_representable:
  "denotes d e \<Longrightarrow> dict_get d ''event'' = Some (PStr (event_name e)) \<Longrightarrow> representable e"
  by (cases e) (auto simp: visibility_denotes_def key_denotes_def dial_press_denotes_def
      payload_denotes_def event_name_def)

section \<open>Properties\<close>

lemma parses_event_iff:
  "parse_stream_dock_event v allow_unknown = Inr e \<longleftrightarrow>
     (\<exists>d. v = PDict d \<and> dict_get d ''event'' = Some (PStr (event_name e)) \<and> denotes d e \<and>
        (is_unknown e \<longrightarrow> allow_unknown))"
proof (cases "\<exists>d. v = PDict d")
  case False
  then show ?thesis by (auto simp: parse_stream_dock_event_def split: pyval.splits)
next
  case True
  then obtain d where v: "v = PDict d" by blast
  show ?thesis
  proof (cases "\<exists>s. dict_get d ''event'' = Some (PStr s)")
    case False
    then have "require_string d ''event'' None [] \<noteq> Inr s" for s by simp
    then show ?thesis using False v
      by (auto simp: parse_stream_dock_event_def rbind_eq_Inr)
  next
    case True
    then obtain s where s: "dict_get d ''event'' = Some (PStr s)" by blast
    then have r: "require_string d ''event'' None [] = Inr s" by simp
    show ?thesis
    proof (cases "\<exists>t. s = wire_name t")
      case True
      then obtain t where t: "s = wire_name t" by blast
      have "\<not> (is_unknown e \<and> event_name e = wire_name t \<and> denotes d e)"
        by (cases e) (auto simp: event_name_def)
      moreover have "event_type_of e = Some t \<longleftrightarrow> \<not> is_unknown e \<and> event_name e = wire_name t"
        using event_type_of_None [of e] event_name_known [of e]
        by (cases "event_type_of e") auto
      ultimately show ?thesis using s r t v
        by (auto simp: parse_stream_dock_event_def rbind_eq_Inr parser_of_Inr)
    next
      case False
      then have none: "map_of event_codec_registry s = None" by (auto simp: registry_None)
      have "event_name e = s \<longleftrightarrow> (\<exists>w. e = UnknownEvent s w)"
      proof (cases "event_type_of e")
        case None
        then show ?thesis by (cases e) (auto simp: event_name_def)
      next
        case (Some t)
        then show ?thesis using False event_name_known [OF Some] by auto
      qed
      moreover have "denotes d (UnknownEvent s w) \<longleftrightarrow> w = PDict d \<and> json_object (PDict d)" for w
        using False by auto
      ultimately have "event_name e = s \<and> denotes d e \<longleftrightarrow>
          e = UnknownEvent s (PDict d) \<and> json_object (PDict d)"
        by metis
      moreover have "parse_stream_dock_event v allow_unknown = Inr e \<longleftrightarrow>
          allow_unknown \<and> e = UnknownEvent s (PDict d) \<and> json_object (PDict d)"
        using r v none by (auto simp: parse_stream_dock_event_def rbind_eq_Inr)
      moreover have "is_unknown (UnknownEvent s (PDict d))" by simp
      ultimately show ?thesis using s v by (metis dict_get_def option.inject pyval.inject(4,6))
    qed
  qed
qed

text \<open>
  C9. The parser accepts exactly the messages of the protocol: it returns an event if and only if the
  value is an object whose \<open>event\<close> field is the event's wire name and whose fields denote the event,
  and, for an event that no class models, unknown events are allowed.
\<close>

theorem parse_stream_dock_event_iff:
  "parse_stream_dock_event v allow_unknown = Inr e \<longleftrightarrow>
     (\<exists>d. v = PDict d \<and> dict_get d ''event'' = Some (PStr (event_name e)) \<and> denotes d e \<and>
        (is_unknown e \<longrightarrow> allow_unknown))"
  by (rule parses_event_iff)

lemma parse_stream_dock_event_iff_witness:
  "parse_stream_dock_event (PDict [(PStr ''event'', PStr ''applicationDidLaunch''),
     (PStr ''payload'', PDict [(PStr ''application'', PStr ''x'')])]) False
     = Inr (ApplicationDidLaunch ''x'')"
  by (subst parse_stream_dock_event_iff) (simp add: event_name_def application_denotes_def)

text \<open>
  C26. Round trip: writing an event in the protocol's form and parsing it gives the same event back,
  for exactly the events whose JSON parts a message can carry, and every event that the parser
  returns is one of these.
\<close>

theorem event_roundtrip:
  "(parse_stream_dock_event (event_to_wire e) True = Inr e \<longleftrightarrow> representable e) \<and>
   (parse_stream_dock_event v allow_unknown = Inr e \<longrightarrow> representable e)"
proof
  show "parse_stream_dock_event (event_to_wire e) True = Inr e \<longleftrightarrow> representable e"
  proof (cases "is_unknown e")
    case False
    then have "event_to_wire e = PDict ((PStr ''event'', PStr (event_name e)) # wire_fields e)"
      by (cases e) simp_all
    then show ?thesis using wire_denotes [OF False] by (simp add: parses_event_iff False)
  next
    case True
    then obtain n v where "e = UnknownEvent n v" by (cases e) auto
    then show ?thesis
      by (cases v) (auto simp: parses_event_iff event_name_def)
  qed
  show "parse_stream_dock_event v allow_unknown = Inr e \<longrightarrow> representable e"
    by (auto simp: parses_event_iff intro: denotes_representable)
qed

definition demo_press :: dial_press_event where
  "demo_press = \<lparr>ev_action = ''a'', ev_context = ''c'', ev_device = ''d'',
     ev_settings = PDict [(PStr ''n'', PInt 3)], ev_coordinates = \<lparr>co_column = 0, co_row = 1\<rparr>,
     dp_controller = ENCODER\<rparr>"

lemma event_roundtrip_witness:
  "parse_stream_dock_event (event_to_wire (DialDown demo_press)) True = Inr (DialDown demo_press)"
  using event_roundtrip [of "DialDown demo_press" PNone True]
  by (simp add: demo_press_def json_object_def is_json_value_def max_json_depth_def)



text \<open>
  The codec registry is built without an error from the declared descriptors and has exactly one
  descriptor for every event type of the protocol, the one whose parser returns that event's class.
  Building fails if a descriptor is declared twice, is bound to another class's wire name, or is left
  out.
\<close>

theorem registry_complete:
  "build_event_codec_registry event_codec_descriptors = Inr event_codec_registry \<and>
   distinct (map fst event_codec_registry) \<and>
   set (map fst event_codec_registry) = range wire_name \<and>
   (\<forall>(s, c) \<in> set event_codec_registry. cd_wire_name c = s \<and> wire_name (cd_event_class c) = s \<and>
      (\<forall>d n e. cd_parser c d n = Inr e \<longrightarrow> event_type_of e = Some (cd_event_class c))) \<and>
   (\<forall>ds r. build_event_codec_registry ds = Inr r \<longrightarrow>
      distinct (map cd_wire_name ds) \<and> set (map cd_wire_name ds) = range wire_name \<and>
      (\<forall>c \<in> set ds. wire_name (cd_event_class c) = cd_wire_name c))"
proof -
  have built: "register_descriptors ds reg = Inr r \<Longrightarrow>
      map fst r = map fst reg @ map cd_wire_name ds \<and> distinct (map cd_wire_name ds) \<and>
      set (map fst reg) \<inter> set (map cd_wire_name ds) = {} \<and>
      (\<forall>c \<in> set ds. wire_name (cd_event_class c) = cd_wire_name c)" for ds reg r
  proof (induction ds arbitrary: reg)
    case Nil
    then show ?case by simp
  next
    case (Cons d ds)
    then have "cd_wire_name d \<notin> set (map fst reg)" "wire_name (cd_event_class d) = cd_wire_name d"
      and "register_descriptors ds (reg @ [(cd_wire_name d, d)]) = Inr r"
      by (auto split: if_splits simp: map_of_eq_None_iff)
    with Cons.IH [OF this(3)] show ?case by auto
  qed
  have accepted: "distinct (map cd_wire_name ds) \<and> set (map cd_wire_name ds) = range wire_name \<and>
      (\<forall>c \<in> set ds. wire_name (cd_event_class c) = cd_wire_name c)"
    if "build_event_codec_registry ds = Inr r" for ds r
    using that built [of ds "[]"]
    by (auto simp: build_event_codec_registry_def rbind_eq_Inr split: if_splits)
      (metis imageI list.set_map rangeI set_all_event_types)+
  have "event_codec_registry = map (\<lambda>t. (wire_name t,
        \<lparr>cd_wire_name = wire_name t, cd_event_class = t, cd_parser = parser_of t\<rparr>)) all_event_types"
    by (simp add: event_codec_registry_def registry_built)
  note reg = this
  have "map fst event_codec_registry = map wire_name all_event_types"
    unfolding reg by (simp add: comp_def)
  then have "distinct (map fst event_codec_registry)"
    "set (map fst event_codec_registry) = range wire_name"
    using distinct_wire_names by simp_all
  moreover have "build_event_codec_registry event_codec_descriptors = Inr event_codec_registry"
    using registry_built reg by simp
  moreover have "\<forall>(s, c) \<in> set event_codec_registry. cd_wire_name c = s \<and> wire_name (cd_event_class c) = s \<and>
      (\<forall>d n e. cd_parser c d n = Inr e \<longrightarrow> event_type_of e = Some (cd_event_class c))"
    unfolding reg by (auto simp: parser_of_Inr)
  ultimately show ?thesis using accepted by blast
qed

lemma registry_complete_witness:
  "distinct (map cd_wire_name event_codec_descriptors)"
  using registry_complete by blast

end
