(* ===== verification/InboundQueue.thy ===== *)
theory InboundQueue
  imports Events
begin

text \<open>
  The bounded semantic queue of decoded events (messaging/inbound.py), between the reader thread
  and the runtime pump. An operation of the model is one segment of code that runs under the
  queue's condition lock: a call up to its return, its exception or its \<open>wait\<close>, and the code
  after a \<open>wait\<close> up to the next one. Object identity of a queued item (the \<open>is\<close> of the source,
  and the sharing between the deque and \<open>_last_queued_by_context\<close>) is an allocation number.
  \<open>rsz e limit\<close> stands for \<open>retained_size(e, limit)\<close>; \<open>expired\<close> for the clock.
\<close>

section \<open>State\<close>

datatype overflow_policy = DROP_NEWEST | DROP_OLDEST

record queued_event =
  qe_id :: nat
  qe_event :: stream_dock_event
  qe_size :: nat

record inbound_queue =
  iq_queue_limit :: nat
  iq_overflow_policy :: overflow_policy
  iq_coalesce :: bool
  iq_byte_limit :: nat
  iq_queue :: "queued_event list"
  iq_last :: "string \<rightharpoonup> nat"
  iq_next_id :: nat
  iq_accepting :: bool
  iq_in_flight :: nat
  iq_peak_depth :: nat
  iq_submitted :: nat
  iq_enqueued :: nat
  iq_coalesced :: nat
  iq_dequeued :: nat
  iq_acknowledged :: nat
  iq_backpressured :: nat
  iq_dropped_newest :: nat
  iq_dropped_oldest :: nat
  iq_rejected_full :: nat
  iq_rejected_after_shutdown :: nat
  iq_discarded_during_shutdown :: nat
  iq_current_bytes :: int
  iq_peak_bytes :: int
  iq_rejected_oversized :: nat

type_synonym sizer = "stream_dock_event \<Rightarrow> nat \<Rightarrow> nat"

definition new_inbound_queue ::
    "nat \<Rightarrow> overflow_policy \<Rightarrow> bool \<Rightarrow> nat \<Rightarrow> exn + inbound_queue" where
  "new_inbound_queue queue_limit policy coalesce_rotations byte_limit =
     (if queue_limit = 0 then Inl (ValueError ''queue_limit must be a positive integer'')
      else if byte_limit = 0 then Inl (ValueError ''byte_limit must be a positive integer'')
      else Inr \<lparr>iq_queue_limit = queue_limit, iq_overflow_policy = policy,
        iq_coalesce = coalesce_rotations, iq_byte_limit = byte_limit, iq_queue = [],
        iq_last = Map.empty, iq_next_id = 0, iq_accepting = True, iq_in_flight = 0,
        iq_peak_depth = 0, iq_submitted = 0, iq_enqueued = 0, iq_coalesced = 0,
        iq_dequeued = 0, iq_acknowledged = 0, iq_backpressured = 0, iq_dropped_newest = 0,
        iq_dropped_oldest = 0, iq_rejected_full = 0, iq_rejected_after_shutdown = 0,
        iq_discarded_during_shutdown = 0, iq_current_bytes = 0, iq_peak_bytes = 0,
        iq_rejected_oversized = 0\<rparr>)"

section \<open>Operations\<close>

text \<open>\<open>_coalescing_context\<close>: lifecycle and non-action events have none.\<close>

fun coalescing_context :: "stream_dock_event \<Rightarrow> string option" where
  "coalescing_context (WillAppear _) = None"
| "coalescing_context (WillDisappear _) = None"
| "coalescing_context e = action_context e"

definition break_context_coalescing :: "stream_dock_event \<Rightarrow> inbound_queue \<Rightarrow> inbound_queue" where
  "break_context_coalescing e q =
     (case coalescing_context e of
        None \<Rightarrow> q\<lparr>iq_last := Map.empty\<rparr>
      | Some c \<Rightarrow> q\<lparr>iq_last := (iq_last q)(c := None)\<rparr>)"

definition forget_queued_event :: "queued_event \<Rightarrow> inbound_queue \<Rightarrow> inbound_queue" where
  "forget_queued_event queued q =
     (case coalescing_context (qe_event queued) of
        None \<Rightarrow> q
      | Some c \<Rightarrow> if iq_last q c = Some (qe_id queued)
                then q\<lparr>iq_last := (iq_last q)(c := None)\<rparr> else q)"

text \<open>
  The three statements with which both \<open>_receive\<close> and \<open>_drop_queued_rotation\<close> take an item out:
  the deletion, the byte count and \<open>_forget_queued_event\<close>.
\<close>

definition remove_item :: "nat \<Rightarrow> inbound_queue \<Rightarrow> inbound_queue" where
  "remove_item index q =
     (let queued = iq_queue q ! index
      in forget_queued_event queued
           (q\<lparr>iq_queue := del_at index (iq_queue q),
              iq_current_bytes := iq_current_bytes q - int (qe_size queued)\<rparr>))"

text \<open>\<open>_drop_queued_rotation\<close>, \<open>None\<close> for its result \<open>False\<close>.\<close>

definition drop_queued_rotation :: "inbound_queue \<Rightarrow> inbound_queue option" where
  "drop_queued_rotation q =
     (let drop_newest = (iq_overflow_policy q = DROP_NEWEST);
          is_rotation = (\<lambda>i. is_dial_rotate (qe_event i))
      in case (if drop_newest then last_index_where is_rotation (iq_queue q)
               else index_where is_rotation (iq_queue q)) of
           None \<Rightarrow> None
         | Some index \<Rightarrow>
             let q1 = remove_item index q
             in Some (if drop_newest
                      then q1\<lparr>iq_dropped_newest := Suc (iq_dropped_newest q1)\<rparr>
                      else q1\<lparr>iq_dropped_oldest := Suc (iq_dropped_oldest q1)\<rparr>))"

definition compatible_rotations :: "dial_rotate_event \<Rightarrow> dial_rotate_event \<Rightarrow> bool" where
  "compatible_rotations previous event =
     (ev_action previous = ev_action event \<and> ev_device previous = ev_device event
      \<and> ev_coordinates previous = ev_coordinates event \<and> dr_pressed previous = dr_pressed event
      \<and> dr_controller previous = dr_controller event)"

definition merge_rotations :: "dial_rotate_event \<Rightarrow> dial_rotate_event \<Rightarrow> dial_rotate_event" where
  "merge_rotations previous event = event\<lparr>dr_ticks := dr_ticks previous + dr_ticks event\<rparr>"

text \<open>
  \<open>_coalesce\<close>, \<open>None\<close> for its result \<open>False\<close>. The queued object that \<open>_last_queued_by_context\<close>
  holds is found in the deque by its identity; the invariant below says that it is there.
\<close>

definition coalesce :: "sizer \<Rightarrow> stream_dock_event \<Rightarrow> inbound_queue \<Rightarrow> inbound_queue option" where
  "coalesce rsz e q =
     (case e of
        DialRotate event \<Rightarrow>
          if \<not> iq_coalesce q then None
          else (case iq_last q (ev_context event) of
             None \<Rightarrow> None
           | Some ident \<Rightarrow>
               (case index_where (\<lambda>i. qe_id i = ident) (iq_queue q) of
                  None \<Rightarrow> None
                | Some k \<Rightarrow>
                    let queued = iq_queue q ! k in
                    (case qe_event queued of
                       DialRotate previous \<Rightarrow>
                         if \<not> compatible_rotations previous event then None
                         else
                           let replacement = DialRotate (merge_rotations previous event);
                               size = rsz replacement (iq_byte_limit q);
                               replacement_bytes =
                                 iq_current_bytes q - int (qe_size queued) + int size
                           in if int (iq_byte_limit q) < replacement_bytes then None
                              else Some (q\<lparr>iq_queue := (iq_queue q)[k :=
                                       queued\<lparr>qe_event := replacement, qe_size := size\<rparr>],
                                     iq_current_bytes := replacement_bytes,
                                     iq_peak_bytes := max (iq_peak_bytes q) replacement_bytes\<rparr>)
                     | _ \<Rightarrow> None)))
      | _ \<Rightarrow> None)"

definition append_event :: "stream_dock_event \<Rightarrow> nat \<Rightarrow> inbound_queue \<Rightarrow> inbound_queue" where
  "append_event e sz q =
     (let ident = iq_next_id q;
          queue = iq_queue q @ [\<lparr>qe_id = ident, qe_event = e, qe_size = sz\<rparr>];
          bytes = iq_current_bytes q + int sz
      in q\<lparr>iq_queue := queue, iq_next_id := Suc ident,
           iq_current_bytes := bytes, iq_peak_bytes := max (iq_peak_bytes q) bytes,
           iq_last := (case coalescing_context e of
                         None \<Rightarrow> Map.empty
                       | Some c \<Rightarrow> (iq_last q)(c \<mapsto> ident)),
           iq_enqueued := Suc (iq_enqueued q),
           iq_peak_depth := max (iq_peak_depth q) (length queue)\<rparr>)"

definition over_capacity :: "nat \<Rightarrow> inbound_queue \<Rightarrow> bool" where
  "over_capacity sz q =
     (iq_queue_limit q \<le> length (iq_queue q)
      \<or> int (iq_byte_limit q) < iq_current_bytes q + int sz)"

datatype submit_status = Returned bool | Waiting

lemma drop_queued_rotation_length:
  "drop_queued_rotation q = Some q' \<Longrightarrow> length (iq_queue q') < length (iq_queue q)"
  by (auto simp: drop_queued_rotation_def remove_item_def Let_def forget_queued_event_def
      dest!: last_index_where_Some(1) index_where_Some
      split: option.splits if_splits)

text \<open>The \<open>while\<close> loop of \<open>submit\<close>, up to its return or its \<open>wait\<close>.\<close>

function submit_loop ::
    "stream_dock_event \<Rightarrow> nat \<Rightarrow> bool \<Rightarrow> bool \<Rightarrow> inbound_queue \<Rightarrow> inbound_queue \<times> submit_status"
where
  "submit_loop e sz expired backpressured q =
     (if over_capacity sz q then
        (if is_dial_rotate e then
           (if iq_overflow_policy q = DROP_NEWEST then
              (break_context_coalescing e (q\<lparr>iq_dropped_newest := Suc (iq_dropped_newest q)\<rparr>),
               Returned False)
            else (case drop_queued_rotation q of
                Some q' \<Rightarrow> submit_loop e sz expired backpressured q'
              | None \<Rightarrow>
                  (break_context_coalescing e (q\<lparr>iq_dropped_newest := Suc (iq_dropped_newest q)\<rparr>),
                   Returned False)))
         else (case drop_queued_rotation q of
             Some q' \<Rightarrow> submit_loop e sz expired backpressured q'
           | None \<Rightarrow>
               if expired then
                 (break_context_coalescing e (q\<lparr>iq_rejected_full := Suc (iq_rejected_full q)\<rparr>),
                  Returned False)
               else
                 (if backpressured then q else q\<lparr>iq_backpressured := Suc (iq_backpressured q)\<rparr>,
                  Waiting)))
      else (append_event e sz q, Returned True))"
  by pat_completeness auto
termination
  by (relation "measure (\<lambda>(e, sz, expired, backpressured, q). length (iq_queue q))")
    (auto dest: drop_queued_rotation_length)

declare submit_loop.simps [simp del]

text \<open>\<open>submit\<close> from the lock's acquisition to its first \<open>wait\<close> or its return.\<close>

definition submit_begin ::
    "sizer \<Rightarrow> stream_dock_event \<Rightarrow> bool \<Rightarrow> inbound_queue \<Rightarrow> inbound_queue \<times> submit_status" where
  "submit_begin rsz e expired q =
     (let sz = rsz e (iq_byte_limit q);
          q1 = q\<lparr>iq_submitted := Suc (iq_submitted q)\<rparr>
      in if \<not> iq_accepting q1 then
           (q1\<lparr>iq_rejected_after_shutdown := Suc (iq_rejected_after_shutdown q1)\<rparr>, Returned False)
         else if iq_byte_limit q1 < sz then
           (break_context_coalescing e
              (q1\<lparr>iq_rejected_oversized := Suc (iq_rejected_oversized q1)\<rparr>), Returned False)
         else (case coalesce rsz e q1 of
             Some q2 \<Rightarrow> (q2\<lparr>iq_coalesced := Suc (iq_coalesced q2)\<rparr>, Returned True)
           | None \<Rightarrow> submit_loop e sz expired False q1))"

text \<open>\<open>submit\<close> after a \<open>wait\<close>.\<close>

definition submit_resume ::
    "stream_dock_event \<Rightarrow> nat \<Rightarrow> bool \<Rightarrow> inbound_queue \<Rightarrow> inbound_queue \<times> submit_status" where
  "submit_resume e sz expired q =
     (if \<not> iq_accepting q then
        (break_context_coalescing e
           (q\<lparr>iq_rejected_after_shutdown := Suc (iq_rejected_after_shutdown q)\<rparr>), Returned False)
      else submit_loop e sz expired True q)"

text \<open>The whole call: the timeout is validated before the lock is taken.\<close>

definition inbound_submit ::
    "sizer \<Rightarrow> stream_dock_event \<Rightarrow> pyval \<Rightarrow> bool \<Rightarrow> inbound_queue
      \<Rightarrow> exn + inbound_queue \<times> submit_status" where
  "inbound_submit rsz e timeout expired q =
     rbind (validate_timeout ''timeout must be a non-negative number or None'' timeout)
       (\<lambda>t. Inr (submit_begin rsz e (timed_out t expired) q))"

datatype receive_status = Received queued_event | ReceiveRaised exn | ReceiveWaiting

definition take_queued :: "nat \<Rightarrow> inbound_queue \<Rightarrow> inbound_queue" where
  "take_queued index q =
     (let q1 = remove_item index q
      in q1\<lparr>iq_dequeued := Suc (iq_dequeued q1), iq_in_flight := Suc (iq_in_flight q1)\<rparr>)"

type_synonym selector = "(queued_event list \<Rightarrow> int option) option"

text \<open>One pass of \<open>_receive\<close>: on entry and after each \<open>wait\<close>.\<close>

definition receive_attempt ::
    "selector \<Rightarrow> bool \<Rightarrow> inbound_queue \<Rightarrow> inbound_queue \<times> receive_status" where
  "receive_attempt selector expired q =
     (let otherwise = (q, if expired then ReceiveRaised TimeoutError else ReceiveWaiting)
      in if iq_queue q \<noteq> [] then
           (case (case selector of None \<Rightarrow> Some 0 | Some f \<Rightarrow> f (iq_queue q)) of
              Some index \<Rightarrow>
                if \<not> (0 \<le> index \<and> index < int (length (iq_queue q)))
                then (q, ReceiveRaised (ValueError
                        ''selector must return a valid queue index or None''))
                else (take_queued (nat index) q, Received (iq_queue q ! nat index))
            | None \<Rightarrow> otherwise)
         else if \<not> iq_accepting q then (q, ReceiveRaised QueueClosedError)
         else otherwise)"

definition inbound_task_done :: "inbound_queue \<Rightarrow> exn + inbound_queue" where
  "inbound_task_done q =
     (if iq_in_flight q = 0 then Inl (ValueError ''task_done() called too many times'')
      else Inr (q\<lparr>iq_in_flight := iq_in_flight q - 1, iq_acknowledged := Suc (iq_acknowledged q)\<rparr>))"

definition inbound_stop_accepting :: "inbound_queue \<Rightarrow> inbound_queue" where
  "inbound_stop_accepting q = q\<lparr>iq_accepting := False\<rparr>"

text \<open>One pass of \<open>drain\<close>: \<open>Some\<close> its result, \<open>None\<close> when it waits.\<close>

definition inbound_drain_attempt :: "bool \<Rightarrow> inbound_queue \<Rightarrow> bool option" where
  "inbound_drain_attempt expired q =
     (if iq_queue q \<noteq> [] \<or> iq_in_flight q \<noteq> 0 then (if expired then Some False else None)
      else Some True)"

text \<open>The last segment of \<open>shutdown\<close>, after a drain that timed out.\<close>

definition inbound_discard :: "inbound_queue \<Rightarrow> inbound_queue" where
  "inbound_discard q =
     q\<lparr>iq_discarded_during_shutdown := iq_discarded_during_shutdown q + length (iq_queue q),
       iq_queue := [], iq_current_bytes := 0, iq_last := Map.empty\<rparr>"

text \<open>The \<open>dropped\<close> property of \<open>InboundEventQueueMetrics\<close> on a snapshot.\<close>

definition inbound_dropped :: "inbound_queue \<Rightarrow> nat" where
  "inbound_dropped q =
     iq_dropped_newest q + iq_dropped_oldest q + iq_rejected_full q
     + iq_rejected_after_shutdown q + iq_discarded_during_shutdown q + iq_rejected_oversized q"

section \<open>What the primitives do\<close>

definition queue_bytes :: "inbound_queue \<Rightarrow> nat" where
  "queue_bytes q = sum_list (map qe_size (iq_queue q))"

abbreviation rotation_item :: "queued_event \<Rightarrow> bool" where
  "rotation_item i \<equiv> is_dial_rotate (qe_event i)"

abbreviation item_context :: "queued_event \<Rightarrow> string option" where
  "item_context i \<equiv> coalescing_context (qe_event i)"

lemma remove_item_simps [simp]:
  "iq_queue (remove_item k q) = del_at k (iq_queue q)"
  "iq_current_bytes (remove_item k q) = iq_current_bytes q - int (qe_size (iq_queue q ! k))"
  "iq_queue_limit (remove_item k q) = iq_queue_limit q"
  "iq_byte_limit (remove_item k q) = iq_byte_limit q"
  "iq_overflow_policy (remove_item k q) = iq_overflow_policy q"
  "iq_next_id (remove_item k q) = iq_next_id q"
  "iq_accepting (remove_item k q) = iq_accepting q"
  "iq_in_flight (remove_item k q) = iq_in_flight q"
  "iq_peak_depth (remove_item k q) = iq_peak_depth q"
  "iq_peak_bytes (remove_item k q) = iq_peak_bytes q"
  "iq_submitted (remove_item k q) = iq_submitted q"
  "iq_coalesced (remove_item k q) = iq_coalesced q"
  "iq_dequeued (remove_item k q) = iq_dequeued q"
  "iq_acknowledged (remove_item k q) = iq_acknowledged q"
  "iq_dropped_newest (remove_item k q) = iq_dropped_newest q"
  "iq_dropped_oldest (remove_item k q) = iq_dropped_oldest q"
  "iq_rejected_full (remove_item k q) = iq_rejected_full q"
  "iq_rejected_after_shutdown (remove_item k q) = iq_rejected_after_shutdown q"
  "iq_discarded_during_shutdown (remove_item k q) = iq_discarded_during_shutdown q"
  "iq_rejected_oversized (remove_item k q) = iq_rejected_oversized q"
  by (auto simp: remove_item_def forget_queued_event_def Let_def split: option.splits)

lemma iq_last_remove_item:
  "iq_last (remove_item k q) c =
     (if item_context (iq_queue q ! k) = Some c \<and> iq_last q c = Some (qe_id (iq_queue q ! k))
      then None else iq_last q c)"
  by (auto simp: remove_item_def forget_queued_event_def Let_def split: option.splits)

lemma break_simps [simp]:
  "iq_queue (break_context_coalescing e q) = iq_queue q"
  "iq_current_bytes (break_context_coalescing e q) = iq_current_bytes q"
  "iq_queue_limit (break_context_coalescing e q) = iq_queue_limit q"
  "iq_byte_limit (break_context_coalescing e q) = iq_byte_limit q"
  "iq_overflow_policy (break_context_coalescing e q) = iq_overflow_policy q"
  "iq_next_id (break_context_coalescing e q) = iq_next_id q"
  "iq_accepting (break_context_coalescing e q) = iq_accepting q"
  "iq_in_flight (break_context_coalescing e q) = iq_in_flight q"
  "iq_peak_depth (break_context_coalescing e q) = iq_peak_depth q"
  "iq_peak_bytes (break_context_coalescing e q) = iq_peak_bytes q"
  "iq_submitted (break_context_coalescing e q) = iq_submitted q"
  "iq_coalesced (break_context_coalescing e q) = iq_coalesced q"
  "iq_dequeued (break_context_coalescing e q) = iq_dequeued q"
  "iq_acknowledged (break_context_coalescing e q) = iq_acknowledged q"
  "iq_dropped_newest (break_context_coalescing e q) = iq_dropped_newest q"
  "iq_dropped_oldest (break_context_coalescing e q) = iq_dropped_oldest q"
  "iq_rejected_full (break_context_coalescing e q) = iq_rejected_full q"
  "iq_rejected_after_shutdown (break_context_coalescing e q) = iq_rejected_after_shutdown q"
  "iq_discarded_during_shutdown (break_context_coalescing e q) = iq_discarded_during_shutdown q"
  "iq_rejected_oversized (break_context_coalescing e q) = iq_rejected_oversized q"
  by (auto simp: break_context_coalescing_def split: option.splits)

lemma iq_last_break:
  "iq_last (break_context_coalescing e q) c = Some ident \<Longrightarrow> iq_last q c = Some ident"
  by (auto simp: break_context_coalescing_def split: option.splits if_splits)

lemma drop_queued_rotationE:
  assumes "drop_queued_rotation q = Some q'"
  obtains k where "k < length (iq_queue q)" "rotation_item (iq_queue q ! k)"
    "q' = (remove_item k q)\<lparr>iq_dropped_newest := Suc (iq_dropped_newest q)\<rparr>
     \<or> q' = (remove_item k q)\<lparr>iq_dropped_oldest := Suc (iq_dropped_oldest q)\<rparr>"
  using assms
  by (auto simp: drop_queued_rotation_def Let_def
      dest: last_index_where_Some(1,2) index_where_Some split: option.splits if_splits)

lemma drop_queued_rotation_None:
  "drop_queued_rotation q = None \<longleftrightarrow> (\<forall>i \<in> set (iq_queue q). \<not> rotation_item i)"
  by (auto simp: drop_queued_rotation_def Let_def split: option.splits)
    (metis last_index_where_None index_where_None option.distinct(1))+

text \<open>What can be said of every outcome of the loop follows from its four exits.\<close>

lemma submit_loop_rule:
  assumes start: "P q"
    and drop: "\<And>q q'. P q \<Longrightarrow> over_capacity sz q \<Longrightarrow> drop_queued_rotation q = Some q' \<Longrightarrow> P q'"
    and newest: "\<And>q. P q \<Longrightarrow> is_dial_rotate e \<Longrightarrow>
      Q (break_context_coalescing e (q\<lparr>iq_dropped_newest := Suc (iq_dropped_newest q)\<rparr>),
         Returned False)"
    and full: "\<And>q. P q \<Longrightarrow> over_capacity sz q \<Longrightarrow> \<not> is_dial_rotate e \<Longrightarrow>
      \<forall>i \<in> set (iq_queue q). \<not> rotation_item i \<Longrightarrow> expired \<Longrightarrow>
      Q (break_context_coalescing e (q\<lparr>iq_rejected_full := Suc (iq_rejected_full q)\<rparr>),
         Returned False)"
    and waits: "\<And>q. P q \<Longrightarrow> over_capacity sz q \<Longrightarrow> \<not> is_dial_rotate e \<Longrightarrow>
      \<forall>i \<in> set (iq_queue q). \<not> rotation_item i \<Longrightarrow> \<not> expired \<Longrightarrow>
      Q (if backpressured then q else q\<lparr>iq_backpressured := Suc (iq_backpressured q)\<rparr>, Waiting)"
    and accept: "\<And>q. P q \<Longrightarrow> \<not> over_capacity sz q \<Longrightarrow> Q (append_event e sz q, Returned True)"
  shows "Q (submit_loop e sz expired backpressured q)"
  using start
proof (induction "length (iq_queue q)" arbitrary: q rule: less_induct)
  case less
  note unfold = submit_loop.simps [of e sz expired backpressured q]
  show ?case
  proof (cases "over_capacity sz q")
    case False
    then show ?thesis using accept [OF less.prems] by (simp add: unfold)
  next
    case over: True
    show ?thesis
    proof (cases "is_dial_rotate e \<and> iq_overflow_policy q = DROP_NEWEST")
      case True
      then show ?thesis using newest [OF less.prems] over by (simp add: unfold)
    next
      case keep: False
      show ?thesis
      proof (cases "drop_queued_rotation q")
        case None
        then have "\<forall>i \<in> set (iq_queue q). \<not> rotation_item i"
          by (simp add: drop_queued_rotation_None)
        then show ?thesis
          using None keep over newest [OF less.prems] full [OF less.prems over]
            waits [OF less.prems over]
          unfolding unfold by (auto split: if_splits)
      next
        case (Some q')
        from less.hyps [OF drop_queued_rotation_length [OF Some] drop [OF less.prems over Some]]
        show ?thesis using Some keep over unfolding unfold by auto
      qed
    qed
  qed
qed

section \<open>The queue's invariant\<close>

definition bounds_ok :: "inbound_queue \<Rightarrow> bool" where
  "bounds_ok q \<longleftrightarrow>
     length (iq_queue q) \<le> iq_queue_limit q \<and>
     iq_current_bytes q = int (queue_bytes q) \<and>
     iq_current_bytes q \<le> int (iq_byte_limit q) \<and>
     length (iq_queue q) \<le> iq_peak_depth q \<and> iq_peak_depth q \<le> iq_queue_limit q \<and>
     iq_current_bytes q \<le> iq_peak_bytes q \<and> iq_peak_bytes q \<le> int (iq_byte_limit q)"

definition ids_ok :: "inbound_queue \<Rightarrow> bool" where
  "ids_ok q \<longleftrightarrow>
     distinct (map qe_id (iq_queue q)) \<and> (\<forall>i \<in> set (iq_queue q). qe_id i < iq_next_id q)"

text \<open>
  The object kept for a context is queued, belongs to the context, and nothing behind it is of
  that context or breaks coalescing.
\<close>

definition lane_item :: "string \<Rightarrow> queued_event \<Rightarrow> bool" where
  "lane_item c i = (item_context i = None \<or> item_context i = Some c)"

definition last_ok :: "inbound_queue \<Rightarrow> bool" where
  "last_ok q \<longleftrightarrow> (\<forall>c ident. iq_last q c = Some ident \<longrightarrow>
     (\<exists>us i vs. iq_queue q = us @ i # vs \<and> qe_id i = ident \<and> item_context i = Some c \<and>
        (\<forall>j \<in> set vs. \<not> lane_item c j)))"

definition flow_ok :: "inbound_queue \<Rightarrow> bool" where
  "flow_ok q \<longleftrightarrow> iq_dequeued q = iq_in_flight q + iq_acknowledged q"

text \<open>Submissions that have neither returned nor been accounted for.\<close>

definition unsettled :: "inbound_queue \<Rightarrow> int" where
  "unsettled q = int (iq_submitted q)
     - int (iq_coalesced q + iq_dequeued q + length (iq_queue q) + inbound_dropped q)"

definition inbound_ok :: "inbound_queue \<Rightarrow> bool" where
  "inbound_ok q \<longleftrightarrow> bounds_ok q \<and> ids_ok q \<and> last_ok q \<and> flow_ok q"

lemmas inbound_ok_defs = bounds_ok_def ids_ok_def flow_ok_def queue_bytes_def

lemma queue_bytes_del_at:
  "k < length (iq_queue q) \<Longrightarrow>
     sum_list (map qe_size (del_at k (iq_queue q))) = queue_bytes q - qe_size (iq_queue q ! k)"
  "k < length (iq_queue q) \<Longrightarrow> qe_size (iq_queue q ! k) \<le> queue_bytes q"
  by (simp_all add: queue_bytes_def sum_list_del_at [of k "iq_queue q" qe_size])

lemma distinct_map_del_at:
  assumes "distinct (map f xs)" "k < length xs"
  shows "distinct (map f (del_at k xs))"
proof -
  obtain us vs where xs: "xs = us @ xs ! k # vs" and d: "del_at k xs = us @ vs"
    using assms(2) by (metis del_atE)
  have "distinct (map f (us @ xs ! k # vs))" using assms(1) xs by simp
  then show ?thesis unfolding d by auto
qed

lemma last_ok_remove:
  assumes ok: "last_ok q" and ids: "ids_ok q" and k: "k < length (iq_queue q)"
  shows "last_ok (remove_item k q)"
proof -
  obtain as x bs where q: "iq_queue q = as @ x # bs" and d: "del_at k (iq_queue q) = as @ bs"
    and x: "iq_queue q ! k = x"
    using k by (metis del_atE)
  have "\<exists>us i vs. as @ bs = us @ i # vs \<and> qe_id i = ident \<and> item_context i = Some c \<and>
      (\<forall>j \<in> set vs. \<not> lane_item c j)"
    if last: "iq_last (remove_item k q) c = Some ident" for c ident
  proof -
    from last x have l: "iq_last q c = Some ident"
      and ne: "\<not> (item_context x = Some c \<and> ident = qe_id x)"
      by (auto simp: iq_last_remove_item split: if_splits)
    from ok l obtain us i vs where split: "iq_queue q = us @ i # vs" "qe_id i = ident"
        "item_context i = Some c" and vs: "\<forall>j \<in> set vs. \<not> lane_item c j"
      unfolding last_ok_def by blast
    from ne split have "i \<noteq> x" by auto
    from split(1) q have "us @ i # vs = as @ x # bs" by simp
    then consider ws where "us = as @ x # ws" "bs = ws @ i # vs"
      | ws where "as = us @ i # ws" "vs = ws @ x # bs"
      using \<open>i \<noteq> x\<close> by (auto simp: append_eq_append_conv2 Cons_eq_append_conv append_eq_Cons_conv)
    then show ?thesis
    proof cases
      case 1
      then have "as @ bs = (as @ ws) @ i # vs" by simp
      with split vs show ?thesis by blast
    next
      case 2
      then have "as @ bs = us @ i # (ws @ bs)" "\<forall>j \<in> set (ws @ bs). \<not> lane_item c j"
        using vs by auto
      with split show ?thesis by blast
    qed
  qed
  then show ?thesis by (auto simp: last_ok_def d)
qed

lemma inbound_ok_remove:
  assumes "inbound_ok q" "k < length (iq_queue q)"
  shows "bounds_ok (remove_item k q)" "ids_ok (remove_item k q)" "last_ok (remove_item k q)"
    "flow_ok (remove_item k q)"
  using assms queue_bytes_del_at [OF assms(2)] last_ok_remove set_del_at_subset [of k "iq_queue q"]
  by (auto simp: inbound_ok_def inbound_ok_defs distinct_map_del_at)


lemma last_ok_clear: "last_ok (q\<lparr>iq_last := Map.empty\<rparr>)"
  by (simp add: last_ok_def)

lemma last_okI:
  "last_ok q \<Longrightarrow> iq_queue q' = iq_queue q \<Longrightarrow>
     (\<And>c i. iq_last q' c = Some i \<Longrightarrow> iq_last q c = Some i) \<Longrightarrow> last_ok q'"
  unfolding last_ok_def by metis

lemma last_ok_break: "last_ok q \<Longrightarrow> last_ok (break_context_coalescing e q)"
  by (erule last_okI) (auto dest: iq_last_break)

lemma append_simps [simp]:
  "iq_queue (append_event e sz q) =
     iq_queue q @ [\<lparr>qe_id = iq_next_id q, qe_event = e, qe_size = sz\<rparr>]"
  "iq_current_bytes (append_event e sz q) = iq_current_bytes q + int sz"
  "iq_queue_limit (append_event e sz q) = iq_queue_limit q"
  "iq_byte_limit (append_event e sz q) = iq_byte_limit q"
  "iq_next_id (append_event e sz q) = Suc (iq_next_id q)"
  "iq_accepting (append_event e sz q) = iq_accepting q"
  "iq_in_flight (append_event e sz q) = iq_in_flight q"
  "iq_acknowledged (append_event e sz q) = iq_acknowledged q"
  "iq_dequeued (append_event e sz q) = iq_dequeued q"
  "iq_submitted (append_event e sz q) = iq_submitted q"
  "iq_coalesced (append_event e sz q) = iq_coalesced q"
  "inbound_dropped (append_event e sz q) = inbound_dropped q"
  by (simp_all add: append_event_def Let_def inbound_dropped_def)

lemma last_ok_append:
  assumes "last_ok q"
  shows "last_ok (append_event e sz q)"
proof (cases "coalescing_context e")
  case None
  then show ?thesis by (simp add: last_ok_def append_event_def Let_def)
next
  case (Some c)
  let ?new = "\<lparr>qe_id = iq_next_id q, qe_event = e, qe_size = sz\<rparr>"
  have "\<exists>us i vs. iq_queue q @ [?new] = us @ i # vs \<and> qe_id i = ident \<and> item_context i = Some d
      \<and> (\<forall>j \<in> set vs. \<not> lane_item d j)"
    if "iq_last (append_event e sz q) d = Some ident" for d ident
  proof (cases "d = c")
    case True
    then have "ident = iq_next_id q" using that Some by (simp add: append_event_def Let_def)
    then show ?thesis using Some True
      by (intro exI [of _ "iq_queue q"] exI [of _ ?new] exI [of _ "[]"]) simp
  next
    case False
    then have "iq_last q d = Some ident" using that Some by (simp add: append_event_def Let_def)
    then obtain us i vs where "iq_queue q = us @ i # vs" "qe_id i = ident"
        "item_context i = Some d" "\<forall>j \<in> set vs. \<not> lane_item d j"
      using assms unfolding last_ok_def by blast
    moreover have "\<not> lane_item d ?new" using False Some by (simp add: lane_item_def)
    ultimately show ?thesis
      by (intro exI [of _ us] exI [of _ i] exI [of _ "vs @ [?new]"]) auto
  qed
  then show ?thesis by (simp add: last_ok_def)
qed

lemma inbound_ok_append:
  assumes "inbound_ok q" "\<not> over_capacity sz q"
  shows "inbound_ok (append_event e sz q)"
proof -
  have "bounds_ok (append_event e sz q)"
    using assms
    by (auto simp: inbound_ok_def inbound_ok_defs over_capacity_def append_event_def Let_def)
  moreover have "ids_ok (append_event e sz q)" "flow_ok (append_event e sz q)"
    using assms by (auto simp: inbound_ok_def inbound_ok_defs)
  ultimately show ?thesis using assms last_ok_append by (simp add: inbound_ok_def)
qed

text \<open>The counters that an exit without an append changes do not occur in the invariant.\<close>

lemma inbound_ok_counters [simp]:
  "inbound_ok (q\<lparr>iq_dropped_newest := n\<rparr>) = inbound_ok q"
  "inbound_ok (q\<lparr>iq_dropped_oldest := n\<rparr>) = inbound_ok q"
  "inbound_ok (q\<lparr>iq_rejected_full := n\<rparr>) = inbound_ok q"
  "inbound_ok (q\<lparr>iq_rejected_after_shutdown := n\<rparr>) = inbound_ok q"
  "inbound_ok (q\<lparr>iq_rejected_oversized := n\<rparr>) = inbound_ok q"
  "inbound_ok (q\<lparr>iq_backpressured := n\<rparr>) = inbound_ok q"
  "inbound_ok (q\<lparr>iq_submitted := n\<rparr>) = inbound_ok q"
  "inbound_ok (q\<lparr>iq_coalesced := n\<rparr>) = inbound_ok q"
  by (simp_all add: inbound_ok_def inbound_ok_defs last_ok_def)

lemma inbound_ok_break: "inbound_ok q \<Longrightarrow> inbound_ok (break_context_coalescing e q)"
  using last_ok_break by (auto simp: inbound_ok_def inbound_ok_defs)

lemma inbound_ok_remove_item:
  "inbound_ok q \<Longrightarrow> k < length (iq_queue q) \<Longrightarrow> inbound_ok (remove_item k q)"
  using inbound_ok_remove [of q k] unfolding inbound_ok_def by simp

lemma inbound_ok_drop: "inbound_ok q \<Longrightarrow> drop_queued_rotation q = Some q' \<Longrightarrow> inbound_ok q'"
  by (erule drop_queued_rotationE) (auto simp: inbound_ok_remove_item)

lemma submit_loop_ok: "inbound_ok q \<Longrightarrow> inbound_ok (fst (submit_loop e sz x b q))"
  by (rule submit_loop_rule [where P = inbound_ok and Q = "\<lambda>r. inbound_ok (fst r)"])
    (auto simp: inbound_ok_break inbound_ok_append intro: inbound_ok_drop)

subsection \<open>Coalescing\<close>

lemma coalesceE:
  assumes "coalesce rsz e q = Some q'"
  obtains event previous k where "e = DialRotate event" "iq_coalesce q" "k < length (iq_queue q)"
    "iq_last q (ev_context event) = Some (qe_id (iq_queue q ! k))"
    "qe_event (iq_queue q ! k) = DialRotate previous" "compatible_rotations previous event"
    "iq_current_bytes q - int (qe_size (iq_queue q ! k))
       + int (rsz (DialRotate (merge_rotations previous event)) (iq_byte_limit q))
       \<le> int (iq_byte_limit q)"
    "q' = (let size = rsz (DialRotate (merge_rotations previous event)) (iq_byte_limit q);
               bytes = iq_current_bytes q - int (qe_size (iq_queue q ! k)) + int size
           in q\<lparr>iq_queue := (iq_queue q)[k := (iq_queue q ! k)
                 \<lparr>qe_event := DialRotate (merge_rotations previous event), qe_size := size\<rparr>],
               iq_current_bytes := bytes, iq_peak_bytes := max (iq_peak_bytes q) bytes\<rparr>)"
  using assms
  by (auto simp: coalesce_def Let_def split: stream_dock_event.splits if_splits option.splits
      dest!: index_where_Some)

text \<open>The object found is the last one queued for the context, and of that context.\<close>

lemma last_item:
  assumes ok: "last_ok q" "ids_ok q" and last: "iq_last q c = Some (qe_id (iq_queue q ! k))"
    and k: "k < length (iq_queue q)"
  shows "item_context (iq_queue q ! k) = Some c"
    "\<forall>j \<in> set (drop (Suc k) (iq_queue q)). \<not> lane_item c j"
proof -
  from ok(1) last obtain us i vs where q: "iq_queue q = us @ i # vs"
      "qe_id i = qe_id (iq_queue q ! k)" "item_context i = Some c"
      "\<forall>j \<in> set vs. \<not> lane_item c j"
    unfolding last_ok_def by blast
  have "length us = k"
  proof (rule ccontr)
    assume "length us \<noteq> k"
    then have "map qe_id (iq_queue q) ! length us \<noteq> map qe_id (iq_queue q) ! k"
      using ok(2) k q(1) unfolding ids_ok_def by (subst nth_eq_iff_index_eq) auto
    moreover have "map qe_id (iq_queue q) ! length us = map qe_id (iq_queue q) ! k"
      using q(2) k unfolding nth_map [OF k] by (simp add: q(1) nth_append)
    ultimately show False by simp
  qed
  with q show "item_context (iq_queue q ! k) = Some c"
    "\<forall>j \<in> set (drop (Suc k) (iq_queue q)). \<not> lane_item c j" by auto
qed

lemma map_list_update_same:
  "k < length xs \<Longrightarrow> f y = f (xs ! k) \<Longrightarrow> map f (xs[k := y]) = map f xs"
  by (simp add: map_update) (metis list_update_id length_map nth_map)

lemma sum_list_update_nat:
  "k < length xs \<Longrightarrow> sum_list (map f (xs[k := y])) + f (xs ! k) = sum_list (map f xs) + (f y :: nat)"
  by (induction xs arbitrary: k) (auto simp: nth_Cons split: nat.splits)

text \<open>Replacing a queued event by one of the same context keeps the bookkeeping by context.\<close>

lemma last_ok_replace:
  assumes ok: "last_ok q" and "k < length (iq_queue q)" "qe_id y = qe_id (iq_queue q ! k)"
    "item_context y = item_context (iq_queue q ! k)" "iq_queue q' = (iq_queue q)[k := y]"
    "iq_last q' = iq_last q"
  shows "last_ok q'"
proof -
  have "\<exists>us i vs. iq_queue q' = us @ i # vs \<and> qe_id i = ident \<and> item_context i = Some c \<and>
      (\<forall>j \<in> set vs. \<not> lane_item c j)" if "iq_last q' c = Some ident" for c ident
  proof -
    from that assms(6) have "iq_last q c = Some ident" by simp
    with ok obtain us i vs where q: "iq_queue q = us @ i # vs" "qe_id i = ident"
        "item_context i = Some c" "\<forall>j \<in> set vs. \<not> lane_item c j"
      unfolding last_ok_def by blast
    consider "k < length us" | "k = length us" | m where "k = Suc (length us + m)" "m < length vs"
      using assms(2) q(1) by (metis add_Suc_right length_Cons length_append less_SucE
          less_imp_Suc_add nat_add_left_cancel_less not_less_eq linorder_neqE_nat)
    then show ?thesis
    proof cases
      case 1
      then have "iq_queue q' = us[k := y] @ i # vs" using assms(5) q by (simp add: list_update_append)
      with q show ?thesis by blast
    next
      case 2
      then have "iq_queue q' = us @ y # vs" "qe_id y = ident" "item_context y = Some c"
        using assms q by (auto simp: list_update_append)
      with q show ?thesis by blast
    next
      case 3
      then have "iq_queue q' = us @ i # vs[m := y]"
        using assms(5) q by (simp add: list_update_append)
      moreover have "\<not> lane_item c y"
        using assms(4) q 3 by (auto simp: lane_item_def nth_append)
      then have "\<forall>j \<in> set (vs[m := y]). \<not> lane_item c j"
        using q(4) set_update_subset_insert [of vs m y] by blast
      ultimately show ?thesis using q by blast
    qed
  qed
  then show ?thesis by (simp add: last_ok_def)
qed

lemma inbound_ok_coalesce:
  assumes ok: "inbound_ok q" and c: "coalesce rsz e q = Some q'"
  shows "inbound_ok q'"
  using c
proof (rule coalesceE)
  fix event previous k
  assume k: "k < length (iq_queue q)"
    and l: "iq_last q (ev_context event) = Some (qe_id (iq_queue q ! k))"
    and prev: "qe_event (iq_queue q ! k) = DialRotate previous"
    and fits: "iq_current_bytes q - int (qe_size (iq_queue q ! k))
       + int (rsz (DialRotate (merge_rotations previous event)) (iq_byte_limit q))
       \<le> int (iq_byte_limit q)"
    and q': "q' = (let size = rsz (DialRotate (merge_rotations previous event)) (iq_byte_limit q);
               bytes = iq_current_bytes q - int (qe_size (iq_queue q ! k)) + int size
           in q\<lparr>iq_queue := (iq_queue q)[k := (iq_queue q ! k)
                 \<lparr>qe_event := DialRotate (merge_rotations previous event), qe_size := size\<rparr>],
               iq_current_bytes := bytes, iq_peak_bytes := max (iq_peak_bytes q) bytes\<rparr>)"
  let ?y = "(iq_queue q ! k)\<lparr>qe_event := DialRotate (merge_rotations previous event),
     qe_size := rsz (DialRotate (merge_rotations previous event)) (iq_byte_limit q)\<rparr>"
  have ctx: "item_context (iq_queue q ! k) = Some (ev_context event)"
    using last_item [OF _ _ l k] ok by (simp add: inbound_ok_def)
  have "item_context ?y = item_context (iq_queue q ! k)"
    unfolding ctx by (simp add: merge_rotations_def)
  moreover have "iq_queue q' = (iq_queue q)[k := ?y]" "iq_last q' = iq_last q"
    by (simp_all add: q' Let_def)
  ultimately have last: "last_ok q'"
    using last_ok_replace [of q k ?y q'] ok k unfolding inbound_ok_def by simp
  have ids: "map qe_id (iq_queue q') = map qe_id (iq_queue q)"
    using k by (simp add: q' Let_def map_list_update_same)
  then have "qe_id ` set (iq_queue q') = qe_id ` set (iq_queue q)" by (metis set_map)
  moreover have "iq_next_id q' = iq_next_id q" by (simp add: q' Let_def)
  ultimately have "ids_ok q'" using ids ok unfolding inbound_ok_def ids_ok_def
    by (metis (no_types, lifting) imageE image_eqI)
  moreover have "queue_bytes q' + qe_size (iq_queue q ! k) = queue_bytes q + qe_size ?y"
    using sum_list_update_nat [OF k, of qe_size ?y] by (simp add: q' Let_def queue_bytes_def)
  then have "bounds_ok q'"
    using ok fits by (auto simp: q' Let_def inbound_ok_def bounds_ok_def)
  moreover have "flow_ok q'" using ok by (simp add: q' Let_def inbound_ok_def flow_ok_def)
  ultimately show ?thesis using last by (simp add: inbound_ok_def)
qed


section \<open>Accounting\<close>

lemma unsettled_drop: "drop_queued_rotation q = Some q' \<Longrightarrow> unsettled q' = unsettled q"
  by (erule drop_queued_rotationE) (auto simp: unsettled_def inbound_dropped_def)

lemma unsettled_simps [simp]:
  "unsettled (append_event e sz q) = unsettled q - 1"
  "unsettled (break_context_coalescing e q) = unsettled q"
  "unsettled (q\<lparr>iq_dropped_newest := Suc (iq_dropped_newest q)\<rparr>) = unsettled q - 1"
  "unsettled (q\<lparr>iq_rejected_full := Suc (iq_rejected_full q)\<rparr>) = unsettled q - 1"
  "unsettled (q\<lparr>iq_rejected_oversized := Suc (iq_rejected_oversized q)\<rparr>) = unsettled q - 1"
  "unsettled (q\<lparr>iq_rejected_after_shutdown := Suc (iq_rejected_after_shutdown q)\<rparr>) = unsettled q - 1"
  "unsettled (q\<lparr>iq_coalesced := Suc (iq_coalesced q)\<rparr>) = unsettled q - 1"
  "unsettled (q\<lparr>iq_submitted := Suc (iq_submitted q)\<rparr>) = unsettled q + 1"
  "unsettled (q\<lparr>iq_backpressured := n\<rparr>) = unsettled q"
  by (simp_all add: unsettled_def) (simp_all add: inbound_dropped_def)

lemma submit_loop_unsettled:
  "unsettled (fst (submit_loop e sz x b q)) =
     unsettled q - (if snd (submit_loop e sz x b q) = Waiting then 0 else 1)"
  by (rule submit_loop_rule [where P = "\<lambda>r. unsettled r = unsettled q"
        and Q = "\<lambda>r. unsettled (fst r) = unsettled q - (if snd r = Waiting then 0 else 1)"])
    (auto simp: unsettled_drop)

lemma unsettled_coalesce: "coalesce rsz e q = Some q' \<Longrightarrow> unsettled q' = unsettled q"
  by (erule coalesceE) (simp add: unsettled_def inbound_dropped_def Let_def)

lemma submit_begin_unsettled:
  "unsettled (fst (submit_begin rsz e x q)) =
     unsettled q + (if snd (submit_begin rsz e x q) = Waiting then 1 else 0)"
proof -
  let ?q = "q\<lparr>iq_submitted := Suc (iq_submitted q)\<rparr>"
  have "unsettled (?q\<lparr>iq_rejected_after_shutdown := Suc (iq_rejected_after_shutdown ?q)\<rparr>) = unsettled q"
    "unsettled (?q\<lparr>iq_rejected_oversized := Suc (iq_rejected_oversized ?q)\<rparr>) = unsettled q"
    unfolding unsettled_simps by simp_all
  then show ?thesis
    using unsettled_coalesce [of rsz e ?q]
      submit_loop_unsettled [of e "rsz e (iq_byte_limit q)" x False ?q]
    by (auto simp: submit_begin_def Let_def split: option.splits)
qed

lemma submit_resume_unsettled:
  "unsettled (fst (submit_resume e sz x q)) =
     unsettled q - (if snd (submit_resume e sz x q) = Waiting then 0 else 1)"
  using submit_loop_unsettled [of e sz x True q] by (auto simp: submit_resume_def)

lemma submit_begin_ok:
  assumes "inbound_ok q"
  shows "inbound_ok (fst (submit_begin rsz e x q))"
proof -
  have "inbound_ok (q\<lparr>iq_submitted := n\<rparr>)" for n using assms by simp
  from this inbound_ok_coalesce [OF this] show ?thesis
    by (auto simp: submit_begin_def Let_def submit_loop_ok inbound_ok_break split: option.splits)
qed

lemma submit_resume_ok: "inbound_ok q \<Longrightarrow> inbound_ok (fst (submit_resume e sz x q))"
  by (auto simp: submit_resume_def submit_loop_ok inbound_ok_break)

lemma inbound_ok_take:
  assumes "inbound_ok q" "k < length (iq_queue q)"
  shows "inbound_ok (take_queued k q)"
  using inbound_ok_remove_item [OF assms]
  by (simp add: take_queued_def Let_def inbound_ok_def inbound_ok_defs last_ok_def)

lemma receive_cases:
  obtains k where "receive_attempt sel x q = (take_queued k q, Received (iq_queue q ! k))"
      "k < length (iq_queue q)"
    | st where "receive_attempt sel x q = (q, st)" "\<forall>i. st \<noteq> Received i"
proof (cases "iq_queue q = []")
  case True
  then show ?thesis using that(2) by (cases "iq_accepting q"; cases x) (auto simp: receive_attempt_def)
next
  case False
  show ?thesis
  proof (cases "case sel of None \<Rightarrow> Some 0 | Some f \<Rightarrow> f (iq_queue q)")
    case None
    then show ?thesis using False that(2) by (cases x) (auto simp: receive_attempt_def)
  next
    case (Some index)
    show ?thesis
    proof (cases "0 \<le> index \<and> index < int (length (iq_queue q))")
      case True
      then show ?thesis using False Some that(1) [of "nat index"]
        by (auto simp: receive_attempt_def nat_less_iff)
    next
      case out: False
      then show ?thesis using False Some that(2) by (auto simp: receive_attempt_def Let_def)
    qed
  qed
qed

lemma receive_ok: "inbound_ok q \<Longrightarrow> inbound_ok (fst (receive_attempt sel x q))"
  by (rule receive_cases [of sel x q]) (auto simp: inbound_ok_take)

lemma receive_unsettled: "unsettled (fst (receive_attempt sel x q)) = unsettled q"
  by (rule receive_cases [of sel x q])
    (auto simp: take_queued_def Let_def unsettled_def inbound_dropped_def)

section \<open>The queue with its producers\<close>

text \<open>
  Threads interleave at the granularity of the lock. The system state is the queue and the
  \<open>submit\<close> calls that wait, each with its event and size; a step is one segment of one thread.
\<close>

record inbound_system =
  is_queue :: inbound_queue
  is_waiting :: "(stream_dock_event \<times> nat) list"

datatype inbound_op =
    SubmitBegin stream_dock_event bool
  | SubmitResume nat bool
  | Receive selector bool
  | TaskDone
  | StopAccepting
  | Discard

definition set_queue :: "inbound_system \<Rightarrow> inbound_queue \<Rightarrow> inbound_system" where
  "set_queue s q = s\<lparr>is_queue := q\<rparr>"

fun inbound_step :: "sizer \<Rightarrow> inbound_op \<Rightarrow> inbound_system \<Rightarrow> inbound_system" where
  "inbound_step rsz (SubmitBegin e x) s =
     (let (q, st) = submit_begin rsz e x (is_queue s)
      in \<lparr>is_queue = q, is_waiting =
            (if st = Waiting then is_waiting s @ [(e, rsz e (iq_byte_limit (is_queue s)))]
             else is_waiting s)\<rparr>)"
| "inbound_step rsz (SubmitResume k x) s =
     (if k < length (is_waiting s) then
        (let (q, st) = submit_resume (fst (is_waiting s ! k)) (snd (is_waiting s ! k)) x (is_queue s)
         in \<lparr>is_queue = q, is_waiting =
               (if st = Waiting then is_waiting s else del_at k (is_waiting s))\<rparr>)
      else s)"
| "inbound_step rsz (Receive selector x) s = set_queue s (fst (receive_attempt selector x (is_queue s)))"
| "inbound_step rsz TaskDone s =
     (case inbound_task_done (is_queue s) of Inl _ \<Rightarrow> s | Inr q \<Rightarrow> set_queue s q)"
| "inbound_step rsz StopAccepting s = set_queue s (inbound_stop_accepting (is_queue s))"
| "inbound_step rsz Discard s = set_queue s (inbound_discard (is_queue s))"

definition system_ok :: "inbound_system \<Rightarrow> bool" where
  "system_ok s \<longleftrightarrow> inbound_ok (is_queue s) \<and> unsettled (is_queue s) = int (length (is_waiting s))"

definition system_closed :: "inbound_system \<Rightarrow> bool" where
  "system_closed s \<longleftrightarrow> \<not> iq_accepting (is_queue s)"

lemma accepting_loop: "iq_accepting (fst (submit_loop e sz x b q)) = iq_accepting q"
  by (rule submit_loop_rule [where P = "\<lambda>r. iq_accepting r = iq_accepting q"
        and Q = "\<lambda>r. iq_accepting (fst r) = iq_accepting q"])
    (auto elim!: drop_queued_rotationE)

lemma accepting_coalesce: "coalesce rsz e q = Some q' \<Longrightarrow> iq_accepting q' = iq_accepting q"
  by (erule coalesceE) (simp add: Let_def)

lemma accepting_simps [simp]:
  "iq_accepting (fst (submit_begin rsz e x q)) = iq_accepting q"
  "iq_accepting (fst (submit_resume e sz x q)) = iq_accepting q"
  "iq_accepting (fst (receive_attempt sel x q)) = iq_accepting q"
  by (auto simp: submit_begin_def submit_resume_def accepting_loop Let_def
      dest: accepting_coalesce split: option.splits)
    (rule receive_cases [of sel x q], auto simp: take_queued_def Let_def)+

lemma system_ok_step:
  assumes "system_ok s"
  shows "system_ok (inbound_step rsz op s)"
proof (cases op)
  case (SubmitBegin e x)
  then show ?thesis
    using assms by (auto simp: system_ok_def case_prod_beta submit_begin_ok submit_begin_unsettled)
next
  case (SubmitResume k x)
  then show ?thesis using assms
    by (auto simp: system_ok_def case_prod_beta submit_resume_ok submit_resume_unsettled of_nat_diff)
next
  case (Receive sel x)
  then show ?thesis using assms receive_ok receive_unsettled
    by (simp add: system_ok_def set_queue_def)
next
  case TaskDone
  then show ?thesis using assms
    by (auto simp: system_ok_def set_queue_def inbound_task_done_def inbound_ok_def inbound_ok_defs
        last_ok_def unsettled_def inbound_dropped_def)
next
  case StopAccepting
  then show ?thesis using assms
    by (auto simp: system_ok_def set_queue_def inbound_stop_accepting_def inbound_ok_def
        inbound_ok_defs last_ok_def unsettled_def inbound_dropped_def)
next
  case Discard
  then show ?thesis using assms
    by (auto simp: system_ok_def set_queue_def inbound_discard_def inbound_ok_def inbound_ok_defs
        last_ok_def unsettled_def inbound_dropped_def)
qed

lemma system_closed_step: "system_closed s \<Longrightarrow> system_closed (inbound_step rsz op s)"
  by (cases op) (simp_all add: system_closed_def set_queue_def inbound_task_done_def
      inbound_stop_accepting_def inbound_discard_def case_prod_beta)

interpretation inbound: latch_machine "inbound_step rsz" system_ok system_closed for rsz
  by unfold_locales (auto intro: system_ok_step system_closed_step)

definition inbound_initial :: "inbound_queue \<Rightarrow> inbound_system" where
  "inbound_initial q = \<lparr>is_queue = q, is_waiting = []\<rparr>"

lemma new_inbound_ok:
  "new_inbound_queue limit policy flag bytes = Inr q \<Longrightarrow> system_ok (inbound_initial q)"
  by (auto simp: new_inbound_queue_def inbound_initial_def system_ok_def inbound_ok_def
      inbound_ok_defs last_ok_def unsettled_def inbound_dropped_def split: if_splits)


lemma inbound_constants:
  "iq_queue_limit (fst (submit_loop e sz x b q)) = iq_queue_limit q"
  "iq_byte_limit (fst (submit_loop e sz x b q)) = iq_byte_limit q"
  by (rule submit_loop_rule [where P = "\<lambda>r. iq_queue_limit r = iq_queue_limit q"
        and Q = "\<lambda>r. iq_queue_limit (fst r) = iq_queue_limit q"]; auto elim!: drop_queued_rotationE)
    (rule submit_loop_rule [where P = "\<lambda>r. iq_byte_limit r = iq_byte_limit q"
        and Q = "\<lambda>r. iq_byte_limit (fst r) = iq_byte_limit q"]; auto elim!: drop_queued_rotationE)

lemma coalesce_constants:
  "coalesce rsz e q = Some q' \<Longrightarrow> iq_queue_limit q' = iq_queue_limit q \<and> iq_byte_limit q' = iq_byte_limit q"
  by (erule coalesceE) (simp add: Let_def)

lemma limits_simps [simp]:
  "iq_queue_limit (fst (submit_begin rsz e x q)) = iq_queue_limit q"
  "iq_byte_limit (fst (submit_begin rsz e x q)) = iq_byte_limit q"
  "iq_queue_limit (fst (submit_resume e sz x q)) = iq_queue_limit q"
  "iq_byte_limit (fst (submit_resume e sz x q)) = iq_byte_limit q"
  "iq_queue_limit (fst (receive_attempt sel x q)) = iq_queue_limit q"
  "iq_byte_limit (fst (receive_attempt sel x q)) = iq_byte_limit q"
  by (auto simp: submit_begin_def submit_resume_def inbound_constants Let_def
      dest: coalesce_constants split: option.splits)
    (rule receive_cases [of sel x q], auto simp: take_queued_def Let_def)+

definition system_within :: "nat \<Rightarrow> nat \<Rightarrow> inbound_system \<Rightarrow> bool" where
  "system_within limit bytes s \<longleftrightarrow> system_ok s \<and>
     iq_queue_limit (is_queue s) = limit \<and> iq_byte_limit (is_queue s) = bytes"

interpretation inbound_limits: invariant_machine "inbound_step rsz" "system_within limit bytes"
  for rsz limit bytes
proof unfold_locales
  fix s op assume "system_within limit bytes s"
  then show "system_within limit bytes (inbound_step rsz op s)"
    using system_ok_step [of s rsz op]
    by (cases op) (auto simp: system_within_def set_queue_def inbound_task_done_def
        inbound_stop_accepting_def inbound_discard_def case_prod_beta)
qed

section \<open>Lossless events\<close>

text \<open>The queued events that are not dial rotations, oldest first.\<close>

definition lossless :: "inbound_queue \<Rightarrow> stream_dock_event list" where
  "lossless q = map qe_event (filter (\<lambda>i. \<not> rotation_item i) (iq_queue q))"

definition lossless_bytes :: "inbound_queue \<Rightarrow> nat" where
  "lossless_bytes q = sum_list (map qe_size (filter (\<lambda>i. \<not> rotation_item i) (iq_queue q)))"

lemma lossless_remove:
  assumes "k < length (iq_queue q)" "rotation_item (iq_queue q ! k)"
  shows "lossless (remove_item k q) = lossless q" "lossless_bytes (remove_item k q) = lossless_bytes q"
  using assms by (simp_all add: lossless_def lossless_bytes_def filter_del_at)

lemma lossless_drop:
  "drop_queued_rotation q = Some q' \<Longrightarrow> lossless q' = lossless q \<and> lossless_bytes q' = lossless_bytes q"
  by (erule drop_queued_rotationE) (auto simp: lossless_def lossless_bytes_def filter_del_at)

lemma lossless_simps [simp]:
  "lossless (break_context_coalescing e q) = lossless q"
  "lossless (append_event e sz q) = lossless q @ (if is_dial_rotate e then [] else [e])"
  by (simp_all add: lossless_def)

lemma lossless_loop:
  "lossless (fst (submit_loop e sz x b q)) =
     lossless q @ (if snd (submit_loop e sz x b q) = Returned True \<and> \<not> is_dial_rotate e
                   then [e] else [])"
  by (rule submit_loop_rule [where P = "\<lambda>r. lossless r = lossless q"
        and Q = "\<lambda>r. lossless (fst r) = lossless q @
           (if snd r = Returned True \<and> \<not> is_dial_rotate e then [e] else [])"])
    (auto simp: lossless_drop, auto simp: lossless_def)

lemma lossless_coalesce:
  "coalesce rsz e q = Some q' \<Longrightarrow> lossless q' = lossless q \<and> is_dial_rotate e"
  by (erule coalesceE) (simp add: Let_def lossless_def filter_list_update)

lemma lossless_submit:
  "lossless (fst (submit_begin rsz e x q)) =
     lossless q @ (if snd (submit_begin rsz e x q) = Returned True \<and> \<not> is_dial_rotate e
                   then [e] else [])"
  "lossless (fst (submit_resume e sz x q)) =
     lossless q @ (if snd (submit_resume e sz x q) = Returned True \<and> \<not> is_dial_rotate e
                   then [e] else [])"
proof -
  have [simp]: "lossless (q\<lparr>iq_submitted := n\<rparr>) = lossless q"
    "lossless (q\<lparr>iq_submitted := n, iq_rejected_after_shutdown := m\<rparr>) = lossless q"
    "lossless (q\<lparr>iq_submitted := n, iq_rejected_oversized := m\<rparr>) = lossless q"
    "lossless (q\<lparr>iq_rejected_after_shutdown := m\<rparr>) = lossless q"
    "lossless (r\<lparr>iq_coalesced := m\<rparr>) = lossless r" for n m r
    by (simp_all add: lossless_def)
  show "lossless (fst (submit_begin rsz e x q)) =
     lossless q @ (if snd (submit_begin rsz e x q) = Returned True \<and> \<not> is_dial_rotate e
                   then [e] else [])"
    using lossless_coalesce [of rsz e "q\<lparr>iq_submitted := Suc (iq_submitted q)\<rparr>"]
    by (auto simp: submit_begin_def Let_def lossless_loop split: option.splits)
  show "lossless (fst (submit_resume e sz x q)) =
     lossless q @ (if snd (submit_resume e sz x q) = Returned True \<and> \<not> is_dial_rotate e
                   then [e] else [])"
    by (auto simp: submit_resume_def lossless_loop)
qed

text \<open>What one step accepts from a producer and hands to a consumer, rotations left out.\<close>

fun step_accepts :: "sizer \<Rightarrow> inbound_op \<Rightarrow> inbound_system \<Rightarrow> stream_dock_event list" where
  "step_accepts rsz (SubmitBegin e x) s =
     (if snd (submit_begin rsz e x (is_queue s)) = Returned True \<and> \<not> is_dial_rotate e
      then [e] else [])"
| "step_accepts rsz (SubmitResume k x) s =
     (if k < length (is_waiting s) \<and> \<not> is_dial_rotate (fst (is_waiting s ! k)) \<and>
         snd (submit_resume (fst (is_waiting s ! k)) (snd (is_waiting s ! k)) x (is_queue s))
           = Returned True
      then [fst (is_waiting s ! k)] else [])"
| "step_accepts rsz _ s = []"

fun step_delivers :: "inbound_op \<Rightarrow> inbound_system \<Rightarrow> stream_dock_event list" where
  "step_delivers (Receive selector x) s =
     (case snd (receive_attempt selector x (is_queue s)) of
        Received i \<Rightarrow> if rotation_item i then [] else [qe_event i]
      | _ \<Rightarrow> [])"
| "step_delivers _ s = []"

fun accepted_events :: "sizer \<Rightarrow> inbound_op list \<Rightarrow> inbound_system \<Rightarrow> stream_dock_event list" where
  "accepted_events rsz [] s = []"
| "accepted_events rsz (op # ops) s =
     step_accepts rsz op s @ accepted_events rsz ops (inbound_step rsz op s)"

fun delivered_events :: "sizer \<Rightarrow> inbound_op list \<Rightarrow> inbound_system \<Rightarrow> stream_dock_event list" where
  "delivered_events rsz [] s = []"
| "delivered_events rsz (op # ops) s =
     step_delivers op s @ delivered_events rsz ops (inbound_step rsz op s)"

text \<open>Consumers that use \<open>receive\<close>, before the queue is discarded.\<close>

fun plain_op :: "inbound_op \<Rightarrow> bool" where
  "plain_op (Receive selector x) = (selector = None)"
| "plain_op Discard = False"
| "plain_op _ = True"

lemma lossless_step:
  assumes "plain_op op"
  shows "lossless (is_queue s) @ step_accepts rsz op s =
     step_delivers op s @ lossless (is_queue (inbound_step rsz op s))"
proof (cases op)
  case (Receive sel x)
  show ?thesis
  proof (cases "iq_queue (is_queue s)")
    case Nil
    then show ?thesis using Receive assms by (auto simp: receive_attempt_def set_queue_def lossless_def)
  next
    case (Cons i rest)
    then show ?thesis using Receive assms
      by (simp add: receive_attempt_def set_queue_def lossless_def take_queued_def Let_def del_at_def)
  qed
qed (use assms in \<open>auto simp: case_prod_beta lossless_submit set_queue_def inbound_task_done_def
      inbound_stop_accepting_def, auto simp: lossless_def\<close>)


section \<open>Properties\<close>

definition demo_rotation :: "int \<Rightarrow> dial_rotate_event" where
  "demo_rotation ticks = \<lparr>ev_action = ''a'', ev_context = ''c'', ev_device = ''d'',
     ev_settings = PDict [], ev_coordinates = \<lparr>co_column = 0, co_row = 0\<rparr>, dr_ticks = ticks, dr_pressed = False,
     dr_controller = None\<rparr>"

definition demo_queue :: inbound_queue where
  "demo_queue = (case new_inbound_queue 2 DROP_OLDEST True 8 of Inr q \<Rightarrow> q)"

definition demo_ops :: "inbound_op list" where
  "demo_ops = [SubmitBegin (DialRotate (demo_rotation 1)) True,
     SubmitBegin (DialRotate (demo_rotation 2)) True, SubmitBegin SystemDidWakeUp True,
     SubmitBegin (ApplicationDidLaunch ''x'') False, SubmitBegin SystemDidWakeUp False,
     Receive None True, SubmitResume 0 False]"

lemma demo_new: "new_inbound_queue 2 DROP_OLDEST True 8 = Inr demo_queue"
  by (simp add: demo_queue_def new_inbound_queue_def)

text \<open>
  C18. From a new queue, after any interleaving of submissions, wake-ups, receives, task
  acknowledgements, closing and discarding: the depth is within the configured limit, the byte
  count is exactly the sum of the sizes of the queued items and within the byte limit, and the
  high-water marks are within the limits and not below the current values.
\<close>

theorem inbound_queue_bounded:
  assumes "new_inbound_queue limit policy flag bytes = Inr q"
  defines "r \<equiv> \<lambda>rsz ops. is_queue (fold (inbound_step rsz) ops (inbound_initial q))"
  shows "length (iq_queue (r rsz ops)) \<le> iq_peak_depth (r rsz ops) \<and>
    iq_peak_depth (r rsz ops) \<le> limit \<and>
    iq_current_bytes (r rsz ops) = int (sum_list (map qe_size (iq_queue (r rsz ops)))) \<and>
    iq_current_bytes (r rsz ops) \<le> iq_peak_bytes (r rsz ops) \<and>
    iq_peak_bytes (r rsz ops) \<le> int bytes"
proof -
  have "system_within limit bytes (inbound_initial q)"
    using new_inbound_ok [OF assms(1)] assms(1)
    by (auto simp: system_within_def inbound_initial_def new_inbound_queue_def split: if_splits)
  from inbound_limits.inv_run [OF this, of rsz ops] show ?thesis
    by (simp add: r_def system_within_def system_ok_def inbound_ok_def bounds_ok_def queue_bytes_def)
qed

lemma inbound_queue_bounded_witness:
  "length (iq_queue (is_queue (fold (inbound_step (\<lambda>_ _. 3)) demo_ops (inbound_initial demo_queue)))) \<le> 2"
  using inbound_queue_bounded [OF demo_new, of "\<lambda>_ _. 3" demo_ops] by linarith

text \<open>
  C17. No submission is lost from the accounting: at every moment each submitted event is either
  held by a \<open>submit\<close> call that waits, merged into a queued rotation, queued, handed to a consumer,
  or counted by exactly one of the drop, rejection and discard counters; and each event handed
  out is in flight or acknowledged.
\<close>

theorem inbound_queue_accounts:
  assumes "new_inbound_queue limit policy flag bytes = Inr q"
    and "s = fold (inbound_step rsz) ops (inbound_initial q)"
  shows "iq_submitted (is_queue s) =
      length (is_waiting s) + iq_coalesced (is_queue s) + length (iq_queue (is_queue s))
      + iq_dequeued (is_queue s) + inbound_dropped (is_queue s) \<and>
    iq_dequeued (is_queue s) = iq_in_flight (is_queue s) + iq_acknowledged (is_queue s)"
  using inbound.inv_run [OF new_inbound_ok [OF assms(1)], of rsz ops] assms(2)
  by (auto simp: system_ok_def inbound_ok_def flow_ok_def unsettled_def)

lemma inbound_queue_accounts_witness:
  "let s = fold (inbound_step (\<lambda>_ _. 3)) demo_ops (inbound_initial demo_queue)
   in iq_submitted (is_queue s) = length (is_waiting s) + iq_coalesced (is_queue s)
     + length (iq_queue (is_queue s)) + iq_dequeued (is_queue s) + inbound_dropped (is_queue s)"
  using inbound_queue_accounts [OF demo_new refl, of "\<lambda>_ _. 3" demo_ops] unfolding Let_def by blast



text \<open>
  Coalescing replaces exactly one queued rotation, in place: the last queued event of the same
  context, with no later lifecycle event of any context behind it. The replacement carries the sum of
  the two tick counts and the newest event's other fields; every other item is unchanged.
\<close>

theorem coalesce_merges_last_of_lane:
  assumes "inbound_ok q" "coalesce rsz e q = Some q'"
  shows "\<exists>us i vs old new. e = DialRotate new \<and> qe_event i = DialRotate old \<and>
    ev_context old = ev_context new \<and> compatible_rotations old new \<and>
    iq_queue q = us @ i # vs \<and>
    map qe_event (iq_queue q') = map qe_event us
      @ DialRotate (new\<lparr>dr_ticks := dr_ticks old + dr_ticks new\<rparr>) # map qe_event vs \<and>
    (\<forall>j \<in> set vs. \<not> lane_item (ev_context new) j)"
  using assms(2)
proof (rule coalesceE)
  fix event previous k
  assume e: "e = DialRotate event" and k: "k < length (iq_queue q)"
    and l: "iq_last q (ev_context event) = Some (qe_id (iq_queue q ! k))"
    and prev: "qe_event (iq_queue q ! k) = DialRotate previous"
    and compat: "compatible_rotations previous event"
    and q': "q' = (let size = rsz (DialRotate (merge_rotations previous event)) (iq_byte_limit q);
               bytes = iq_current_bytes q - int (qe_size (iq_queue q ! k)) + int size
           in q\<lparr>iq_queue := (iq_queue q)[k := (iq_queue q ! k)
                 \<lparr>qe_event := DialRotate (merge_rotations previous event), qe_size := size\<rparr>],
               iq_current_bytes := bytes, iq_peak_bytes := max (iq_peak_bytes q) bytes\<rparr>)"
  have ok: "last_ok q" "ids_ok q" using assms(1) by (simp_all add: inbound_ok_def)
  have ctx: "ev_context previous = ev_context event"
    using last_item(1) [OF ok l k] prev by simp
  have split: "iq_queue q = take k (iq_queue q) @ iq_queue q ! k # drop (Suc k) (iq_queue q)"
    using k by (rule split_at)
  have "map qe_event (iq_queue q') = map qe_event (take k (iq_queue q))
      @ DialRotate (merge_rotations previous event) # map qe_event (drop (Suc k) (iq_queue q))"
    using k by (simp add: q' Let_def upd_conv_take_nth_drop)
  then show ?thesis
    using e prev ctx compat split last_item(2) [OF ok l k] unfolding merge_rotations_def by blast
qed

lemma coalesce_merges_last_of_lane_witness:
  "\<exists>q. map qe_event (iq_queue q) = [DialRotate (demo_rotation 3)] \<and>
     coalesce (\<lambda>_ _. 3) (DialRotate (demo_rotation 2))
       (append_event (DialRotate (demo_rotation 1)) 3 demo_queue) = Some q"
proof -
  let ?p = "append_event (DialRotate (demo_rotation 1)) 3 demo_queue"
  have ok: "inbound_ok ?p"
    using new_inbound_ok [OF demo_new]
    by (intro inbound_ok_append)
      (simp_all add: system_ok_def inbound_initial_def over_capacity_def demo_queue_def
        new_inbound_queue_def)
  obtain q where q: "coalesce (\<lambda>_ _. 3) (DialRotate (demo_rotation 2)) ?p = Some q"
    by (simp add: coalesce_def append_event_def demo_queue_def new_inbound_queue_def
        demo_rotation_def compatible_rotations_def Let_def)
  from coalesce_merges_last_of_lane [OF ok q] obtain us i vs old new where
    w: "DialRotate (demo_rotation 2) = DialRotate new" "qe_event i = DialRotate old"
      "iq_queue ?p = us @ i # vs"
      "map qe_event (iq_queue q) = map qe_event us
        @ DialRotate (new\<lparr>dr_ticks := dr_ticks old + dr_ticks new\<rparr>) # map qe_event vs"
    by blast
  have "iq_queue ?p = [\<lparr>qe_id = 0, qe_event = DialRotate (demo_rotation 1), qe_size = 3\<rparr>]"
    by (simp add: demo_queue_def new_inbound_queue_def)
  with w(3) have "us = [] \<and> vs = [] \<and> i = \<lparr>qe_id = 0, qe_event = DialRotate (demo_rotation 1), qe_size = 3\<rparr>"
    by (simp add: append_eq_Cons_conv Cons_eq_append_conv)
  with w q show ?thesis by (auto simp: demo_rotation_def)
qed

text \<open>
  Rotations never hold up a lossless event: when the queue accepts and the queued lossless
  items leave room for the event within both limits, \<open>submit\<close> takes it at once, whatever the number
  of queued rotations and whatever the timeout.
\<close>

theorem lossless_submit_immediate:
  assumes ok: "inbound_ok q" and "iq_accepting q" and e: "\<not> is_dial_rotate e"
    and room: "length (lossless q) < iq_queue_limit q"
      "lossless_bytes q + rsz e (iq_byte_limit q) \<le> iq_byte_limit q"
  shows "snd (submit_begin rsz e expired q) = Returned True"
proof -
  let ?q = "q\<lparr>iq_submitted := Suc (iq_submitted q)\<rparr>" and ?sz = "rsz e (iq_byte_limit q)"
  let ?P = "\<lambda>r. inbound_ok r \<and> lossless r = lossless q \<and> lossless_bytes r = lossless_bytes q
     \<and> iq_queue_limit r = iq_queue_limit q \<and> iq_byte_limit r = iq_byte_limit q"
  have full: False if "?P r" "over_capacity ?sz r" "\<forall>i \<in> set (iq_queue r). \<not> rotation_item i" for r
  proof -
    from that(3) have "filter (\<lambda>i. \<not> rotation_item i) (iq_queue r) = iq_queue r" by simp
    then have "length (iq_queue r) = length (lossless r)" "queue_bytes r = lossless_bytes r"
      by (simp_all add: lossless_def lossless_bytes_def queue_bytes_def)
    with that room show False
      by (auto simp: over_capacity_def inbound_ok_def bounds_ok_def)
  qed
  have keep: "?P q'" if "?P r" "drop_queued_rotation r = Some q'" for r q'
    using that inbound_ok_drop [of r q'] lossless_drop [of r q'] by (auto elim!: drop_queued_rotationE)
  have "snd (submit_loop e ?sz expired False ?q) = Returned True"
  proof (rule submit_loop_rule [where P = ?P and Q = "\<lambda>r. snd r = Returned True"])
    show "?P ?q" using ok by (simp add: lossless_def lossless_bytes_def)
    show "?P q'" if "?P r" "drop_queued_rotation r = Some q'" for r q' using keep that by blast
  qed (use e in simp, (drule (2) full, simp)+, simp)
  moreover have "coalesce rsz e ?q = None" using e lossless_coalesce [of rsz e ?q] by fastforce
  ultimately show ?thesis using assms by (simp add: submit_begin_def Let_def)
qed

lemma lossless_submit_immediate_witness:
  "snd (submit_begin (\<lambda>_ _. 3) SystemDidWakeUp False
     (append_event (DialRotate (demo_rotation 1)) 7 demo_queue)) = Returned True"
proof (rule lossless_submit_immediate)
  show "inbound_ok (append_event (DialRotate (demo_rotation 1)) 7 demo_queue)"
    using new_inbound_ok [OF demo_new]
    by (intro inbound_ok_append)
      (simp_all add: system_ok_def inbound_initial_def over_capacity_def demo_queue_def
        new_inbound_queue_def)
qed (simp_all add: demo_queue_def new_inbound_queue_def lossless_def lossless_bytes_def)

text \<open>
  Closing is final: once \<open>stop_accepting\<close> has run, after any further operations every
  submission, new or resumed, is refused with its event counted as rejected and the queued
  items left alone, and a receiver that finds the queue empty is told that it is closed.
\<close>

theorem inbound_closed_for_good:
  assumes "system_ok s" "s' = fold (inbound_step rsz) (StopAccepting # ops) s"
  shows "snd (submit_begin rsz e x (is_queue s')) = Returned False \<and>
    iq_queue (fst (submit_begin rsz e x (is_queue s'))) = iq_queue (is_queue s') \<and>
    snd (submit_resume e sz x (is_queue s')) = Returned False \<and>
    iq_queue (fst (submit_resume e sz x (is_queue s'))) = iq_queue (is_queue s') \<and>
    inbound_dropped (fst (submit_resume e sz x (is_queue s'))) = Suc (inbound_dropped (is_queue s')) \<and>
    (iq_queue (is_queue s') = [] \<longrightarrow>
       snd (receive_attempt sel x (is_queue s')) = ReceiveRaised QueueClosedError)"
proof -
  have "system_closed (inbound_step rsz StopAccepting s)"
    by (simp add: system_closed_def set_queue_def inbound_stop_accepting_def)
  from inbound.latched_run [OF system_ok_step [OF assms(1)] this, of rsz ops]
  have "\<not> iq_accepting (is_queue s')" using assms(2) by (simp add: system_closed_def)
  then show ?thesis
    by (simp add: submit_begin_def submit_resume_def receive_attempt_def Let_def inbound_dropped_def)
qed

lemma inbound_closed_for_good_witness:
  "snd (submit_begin (\<lambda>_ _. 3) SystemDidWakeUp False
     (is_queue (fold (inbound_step (\<lambda>_ _. 3)) (StopAccepting # demo_ops)
        (inbound_initial demo_queue)))) = Returned False"
  using inbound_closed_for_good [OF new_inbound_ok [OF demo_new] refl] by blast

end
