(* ===== verification/BufferLimits.thy ===== *)
theory BufferLimits
  imports SdkPrelude
begin

text \<open>
  transport/buffer_limits.py: the two bounded measurements that the queues rely on. \<open>utf8_size\<close>
  works on code points. \<open>retained_size\<close> walks a graph of objects: an object is an index into the
  heap, with the size that \<open>getsizeof\<close> reports, whether it is a scalar (a leaf without an iterator)
  and the objects that \<open>_children\<close> yields for it; what these are is Python's object model.
\<close>

section \<open>UTF-8 size\<close>

type_synonym codepoints = "nat list"

definition utf8_len :: "nat \<Rightarrow> nat" where
  "utf8_len cp = (if cp < 128 then 1 else if cp < 2048 then 2 else if cp < 65536 then 3 else 4)"

definition encoded_len :: "codepoints \<Rightarrow> nat" where
  "encoded_len t = sum_list (map utf8_len t)"

function utf8_scan :: "codepoints \<Rightarrow> nat \<Rightarrow> nat \<Rightarrow> nat" where
  "utf8_scan t sz limit =
     (if t = [] then sz
      else let sz' = sz + encoded_len (take 4096 t)
           in if limit < sz' then sz' else utf8_scan (drop 4096 t) sz' limit)"
  by pat_completeness auto
termination by (relation "measure (\<lambda>(t, sz, limit). length t)") auto

declare utf8_scan.simps [simp del]

definition utf8_size :: "codepoints \<Rightarrow> nat \<Rightarrow> nat" where
  "utf8_size t limit = (if limit < length t then limit + 1 else utf8_scan t 0 limit)"

lemma encoded_len_append [simp]: "encoded_len (s @ t) = encoded_len s + encoded_len t"
  by (simp add: encoded_len_def)

lemma encoded_len_ge: "length t \<le> encoded_len t"
  by (induction t) (auto simp: encoded_len_def utf8_len_def)

lemma utf8_scan_spec:
  "sz \<le> limit \<Longrightarrow>
     (if sz + encoded_len t \<le> limit then utf8_scan t sz limit = sz + encoded_len t
      else limit < utf8_scan t sz limit)"
proof (induction t sz limit rule: utf8_scan.induct)
  case (1 t sz limit)
  have len: "encoded_len t = encoded_len (take 4096 t) + encoded_len (drop 4096 t)"
    by (metis append_take_drop_id encoded_len_append)
  show ?case
  proof (cases "t = [] \<or> limit < sz + encoded_len (take 4096 t)")
    case True
    then show ?thesis using 1(2) len by (subst (1 2) utf8_scan.simps) (auto simp: encoded_len_def)
  next
    case False
    then show ?thesis using 1(1) [OF _ refl] len by (subst (1 2) utf8_scan.simps) (auto simp: Let_def)
  qed
qed

section \<open>Retained size\<close>

record heap_object =
  ho_size :: nat
  ho_scalar :: bool
  ho_children :: "nat list"

type_synonym heap = "heap_object list"

text \<open>
  The traversal: a stack of iterators, the objects seen and the size so far. An index outside
  the heap is no object and is skipped.
\<close>

function retained_scan :: "heap \<Rightarrow> nat \<Rightarrow> nat list list \<Rightarrow> nat set \<Rightarrow> nat \<Rightarrow> nat" where
  "retained_scan h limit [] seen sz = sz"
| "retained_scan h limit ([] # pending) seen sz = retained_scan h limit pending seen sz"
| "retained_scan h limit ((i # is) # pending) seen sz =
     (if i \<in> seen \<or> length h \<le> i then retained_scan h limit (is # pending) seen sz
      else
        let seen' = insert i seen; sz' = sz + ho_size (h ! i)
        in if limit < sz' then sz'
           else if ho_scalar (h ! i) then retained_scan h limit (is # pending) seen' sz'
           else retained_scan h limit (ho_children (h ! i) # is # pending) seen' sz')"
  by pat_completeness auto
lemma card_unseen:
  fixes seen :: "nat set"
  assumes "\<not> (i \<in> seen \<or> n \<le> i)"
  shows "card ({..<n} - insert i seen) < card ({..<n} - seen)"
proof (rule psubset_card_mono)
  show "finite ({..<n} - seen)" by simp
  have "i \<in> {..<n} - seen" "i \<notin> {..<n} - insert i seen" using assms by simp_all
  then show "{..<n} - insert i seen \<subset> {..<n} - seen" by blast
qed

termination retained_scan
proof (relation "inv_image (less_than <*lex*> less_than)
    (\<lambda>(h, limit, pending, seen, sz). (card ({..<length h} - seen), sum_list (map Suc (map length pending))))")
  fix h :: heap and limit i :: nat and "is" pending seen sz seen' sz'
  assume i: "\<not> (i \<in> seen \<or> length h \<le> i)" and seen': "seen' = insert i seen"
  have card: "card ({..<length h} - seen') < card ({..<length h} - seen)"
    unfolding seen' by (rule card_unseen [OF i])
  show "((h, limit, is # pending, seen', sz'), h, limit, (i # is) # pending, seen, sz)
      \<in> inv_image (less_than <*lex*> less_than) (\<lambda>(h, limit, pending, seen, sz).
          (card ({..<length h} - seen), sum_list (map Suc (map length pending))))"
    using card by (simp only: in_inv_image case_prod_conv in_lex_prod less_than_iff simp_thms)
  show "((h, limit, ho_children (h ! i) # is # pending, seen', sz'), h, limit, (i # is) # pending, seen, sz)
      \<in> inv_image (less_than <*lex*> less_than) (\<lambda>(h, limit, pending, seen, sz).
          (card ({..<length h} - seen), sum_list (map Suc (map length pending))))"
    using card by (simp only: in_inv_image case_prod_conv in_lex_prod less_than_iff simp_thms)
qed auto

definition retained_size :: "heap \<Rightarrow> nat \<Rightarrow> nat \<Rightarrow> nat" where
  "retained_size h i limit = retained_scan h limit [[i]] {} 0"

text \<open>The objects reachable from one, through those that are not scalars.\<close>

inductive_set reachable :: "heap \<Rightarrow> nat \<Rightarrow> nat set" for h i where
  here: "i < length h \<Longrightarrow> i \<in> reachable h i"
| child: "j \<in> reachable h i \<Longrightarrow> \<not> ho_scalar (h ! j) \<Longrightarrow> k \<in> set (ho_children (h ! j)) \<Longrightarrow>
    k < length h \<Longrightarrow> k \<in> reachable h i"

definition reachable_bytes :: "heap \<Rightarrow> nat \<Rightarrow> nat" where
  "reachable_bytes h i = (\<Sum>j \<in> reachable h i. ho_size (h ! j))"

lemma reachable_bound: "reachable h i \<subseteq> {..<length h}"
proof
  fix j assume "j \<in> reachable h i"
  then show "j \<in> {..<length h}" by induction auto
qed

lemma reachable_finite: "finite (reachable h i)"
  using reachable_bound by (rule finite_subset) simp

definition scan_inv :: "heap \<Rightarrow> nat \<Rightarrow> nat list list \<Rightarrow> nat set \<Rightarrow> nat \<Rightarrow> bool" where
  "scan_inv h i pending seen sz \<longleftrightarrow>
     seen \<subseteq> reachable h i \<and>
     (\<forall>js \<in> set pending. \<forall>j \<in> set js. j < length h \<longrightarrow> j \<in> reachable h i) \<and>
     sz = (\<Sum>j \<in> seen. ho_size (h ! j)) \<and>
     (i < length h \<longrightarrow> i \<in> seen \<union> \<Union> (set (map set pending))) \<and>
     (\<forall>j \<in> seen. \<not> ho_scalar (h ! j) \<longrightarrow>
        (\<forall>k \<in> set (ho_children (h ! j)). k < length h \<longrightarrow> k \<in> seen \<union> \<Union> (set (map set pending))))"

lemma scan_inv_done:
  assumes "scan_inv h i [] seen sz"
  shows "sz = reachable_bytes h i"
proof -
  have "j \<in> seen" if "j \<in> reachable h i" for j
    using that assms by induction (auto simp: scan_inv_def)
  then have "seen = reachable h i" using assms by (auto simp: scan_inv_def)
  then show ?thesis using assms by (simp add: scan_inv_def reachable_bytes_def)
qed

lemma scan_inv_visit:
  assumes inv: "scan_inv h i ((j # js) # pending) seen sz" and j: "j \<notin> seen" "j < length h"
  shows "insert j seen \<subseteq> reachable h i"
    "sz + ho_size (h ! j) = (\<Sum>k \<in> insert j seen. ho_size (h ! k))"
    "ho_scalar (h ! j) \<Longrightarrow> scan_inv h i (js # pending) (insert j seen) (sz + ho_size (h ! j))"
    "\<not> ho_scalar (h ! j) \<Longrightarrow>
       scan_inv h i (ho_children (h ! j) # js # pending) (insert j seen) (sz + ho_size (h ! j))"
proof -
  have fin: "finite seen" using inv reachable_finite finite_subset unfolding scan_inv_def by blast
  have jr: "j \<in> reachable h i" using inv j by (auto simp: scan_inv_def)
  then show 1: "insert j seen \<subseteq> reachable h i" using inv by (auto simp: scan_inv_def)
  show 2: "sz + ho_size (h ! j) = (\<Sum>k \<in> insert j seen. ho_size (h ! k))"
    using inv fin j by (simp add: scan_inv_def)
  show "scan_inv h i (js # pending) (insert j seen) (sz + ho_size (h ! j))" if "ho_scalar (h ! j)"
    using inv 1 2 that unfolding scan_inv_def by (auto 0 3)
  have "k \<in> reachable h i" if "k \<in> set (ho_children (h ! j))" "\<not> ho_scalar (h ! j)" "k < length h" for k
    using that by (auto intro: reachable.child [OF jr])
  then show "scan_inv h i (ho_children (h ! j) # js # pending) (insert j seen) (sz + ho_size (h ! j))"
    if "\<not> ho_scalar (h ! j)"
    using inv 1 2 that unfolding scan_inv_def by (auto 0 3)
qed

lemma retained_scan_spec:
  "scan_inv h i pending seen sz \<Longrightarrow> sz \<le> limit \<Longrightarrow>
     (if reachable_bytes h i \<le> limit then retained_scan h limit pending seen sz = reachable_bytes h i
      else limit < retained_scan h limit pending seen sz)"
proof (induction h limit pending seen sz rule: retained_scan.induct)
  case (1 h limit seen sz)
  then show ?case using scan_inv_done by auto
next
  case (2 h limit pending seen sz)
  then have "scan_inv h i pending seen sz" by (auto simp: scan_inv_def)
  with 2 show ?case by simp
next
  case (3 h limit j js pending seen sz)
  show ?case
  proof (cases "j \<in> seen \<or> length h \<le> j")
    case True
    then have "scan_inv h i (js # pending) seen sz" using 3(4) unfolding scan_inv_def by (auto 0 3)
    then show ?thesis using 3(1) [OF True] 3(5) True by simp
  next
    case False
    note visit = scan_inv_visit [OF 3(4)]
    show ?thesis
    proof (cases "limit < sz + ho_size (h ! j)")
      case True
      have "sz + ho_size (h ! j) \<le> reachable_bytes h i"
        using visit(1,2) False unfolding reachable_bytes_def
        by (auto intro!: sum_mono2 reachable_finite)
      then show ?thesis using True False by (simp add: Let_def)
    next
      case fits: False
      show ?thesis
      proof (cases "ho_scalar (h ! j)")
        case True
        from 3(2) [OF False refl refl fits True] show ?thesis
          using visit(3) False fits True by (simp add: Let_def)
      next
        case inner: False
        from 3(3) [OF False refl refl fits inner] show ?thesis
          using visit(4) False fits inner by (simp add: Let_def)
      qed
    qed
  qed
qed

section \<open>Properties\<close>

text \<open>
  The early exits of \<open>utf8_size\<close> never change the verdict: the result is the exact number of UTF-8
  bytes whenever that is within the limit, and above the limit exactly when that is.
\<close>

theorem utf8_size_exact:
  "(if encoded_len t \<le> limit then utf8_size t limit = encoded_len t else limit < utf8_size t limit)"
  using utf8_scan_spec [of 0 limit t] encoded_len_ge [of t] by (auto simp: utf8_size_def)

text \<open>
  C31. \<open>retained_size\<close> counts every reachable object exactly once, cycles and sharing included: the
  traversal ends, its result is the sum of the sizes of the reachable objects whenever that is
  within the limit, and above the limit exactly when that is.
\<close>

theorem retained_size_exact:
  "(if reachable_bytes h i \<le> limit then retained_size h i limit = reachable_bytes h i
    else limit < retained_size h i limit)"
proof -
  have "scan_inv h i [[i]] {} 0" by (auto simp: scan_inv_def intro: reachable.here)
  from retained_scan_spec [OF this le0, of limit] show ?thesis
    unfolding retained_size_def .
qed

end
