(* ===== verification/TransportQueue.thy ===== *)
theory TransportQueue
  imports PyValues BufferLimits
begin

text \<open>
  The bounded queues of the transport layer (transport/queues.py) and their completion receipts
  (transport/frames.py). \<open>transport_queue\<close> is \<open>_BoundedTransportQueue\<close> over any item type; an
  operation is one segment of code that runs under the queue's condition lock, as in theory
  InboundQueue. The call \<open>_reject_item\<close> is the second part of a result, the error the item was
  rejected with; theory section Raw outbound frames gives it its effect on the frame's receipt.
  Item sizes (\<open>item_size\<close>) are arguments of the bounded queue.
\<close>

section \<open>The bounded queue\<close>

record 'a transport_queue =
  tq_queue_limit :: nat
  tq_byte_limit :: nat
  tq_max_message_bytes :: nat
  tq_queue :: "('a \<times> nat) list"
  tq_accepting :: bool
  tq_peak_depth :: nat
  tq_submitted :: nat
  tq_enqueued :: nat
  tq_dequeued :: nat
  tq_backpressured :: nat
  tq_rejected_full :: nat
  tq_rejected_after_shutdown :: nat
  tq_discarded_during_shutdown :: nat
  tq_current_bytes :: int
  tq_peak_bytes :: int
  tq_rejected_oversized :: nat

definition new_transport_queue :: "nat \<Rightarrow> nat \<Rightarrow> nat \<Rightarrow> exn + 'a transport_queue" where
  "new_transport_queue queue_limit byte_limit max_message_bytes =
     (if queue_limit = 0 then Inl (ValueError ''queue_limit must be a positive integer'')
      else Inr \<lparr>tq_queue_limit = queue_limit, tq_byte_limit = byte_limit,
        tq_max_message_bytes = min max_message_bytes byte_limit, tq_queue = [],
        tq_accepting = True, tq_peak_depth = 0, tq_submitted = 0, tq_enqueued = 0,
        tq_dequeued = 0, tq_backpressured = 0, tq_rejected_full = 0,
        tq_rejected_after_shutdown = 0, tq_discarded_during_shutdown = 0,
        tq_current_bytes = 0, tq_peak_bytes = 0, tq_rejected_oversized = 0\<rparr>)"

datatype tq_status = Submitted bool | SubmitWaiting

type_synonym 'a tq_result = "'a transport_queue \<times> tq_status \<times> exn option"

definition tq_over_capacity :: "nat \<Rightarrow> 'a transport_queue \<Rightarrow> bool" where
  "tq_over_capacity sz q =
     (tq_queue_limit q \<le> length (tq_queue q)
      \<or> tq_byte_limit q \<noteq> 0 \<and> int (tq_byte_limit q) < tq_current_bytes q + int sz)"

definition tq_append :: "'a \<Rightarrow> nat \<Rightarrow> 'a transport_queue \<Rightarrow> 'a transport_queue" where
  "tq_append item sz q =
     (let queue = tq_queue q @ [(item, sz)]; bytes = tq_current_bytes q + int sz
      in q\<lparr>tq_queue := queue, tq_current_bytes := bytes,
           tq_peak_bytes := max (tq_peak_bytes q) bytes, tq_enqueued := Suc (tq_enqueued q),
           tq_peak_depth := max (tq_peak_depth q) (length queue)\<rparr>)"

text \<open>
  The loop of \<open>submit\<close> from its test on: nothing in it frees capacity, so it runs at most once
  between two waits. \<open>cancelled\<close> is what the callback \<open>cancelled()\<close> answers, \<open>False\<close> without one.
\<close>

definition tq_submit_loop ::
    "'a \<Rightarrow> nat \<Rightarrow> bool \<Rightarrow> bool \<Rightarrow> bool \<Rightarrow> 'a transport_queue \<Rightarrow> 'a tq_result" where
  "tq_submit_loop item sz cancelled expired backpressured q =
     (if tq_over_capacity sz q then
        (if cancelled then (q, Submitted False, None)
         else if expired then
           (q\<lparr>tq_rejected_full := Suc (tq_rejected_full q)\<rparr>, Submitted False, Some QueueFullError)
         else
           (if backpressured then q else q\<lparr>tq_backpressured := Suc (tq_backpressured q)\<rparr>,
            SubmitWaiting, None))
      else if cancelled then (q, Submitted False, None)
      else (tq_append item sz q, Submitted True, None))"

definition tq_submit_begin ::
    "'a \<Rightarrow> nat \<Rightarrow> bool \<Rightarrow> bool \<Rightarrow> 'a transport_queue \<Rightarrow> 'a tq_result" where
  "tq_submit_begin item sz cancelled expired q =
     (let q1 = q\<lparr>tq_submitted := Suc (tq_submitted q)\<rparr>
      in if \<not> tq_accepting q1 then
           (q1\<lparr>tq_rejected_after_shutdown := Suc (tq_rejected_after_shutdown q1)\<rparr>,
            Submitted False, Some QueueClosedError)
         else if tq_max_message_bytes q1 < sz then
           (q1\<lparr>tq_rejected_oversized := Suc (tq_rejected_oversized q1)\<rparr>,
            Submitted False, Some MessageTooLargeError)
         else tq_submit_loop item sz cancelled expired False q1)"

definition tq_submit_resume ::
    "'a \<Rightarrow> nat \<Rightarrow> bool \<Rightarrow> bool \<Rightarrow> 'a transport_queue \<Rightarrow> 'a tq_result" where
  "tq_submit_resume item sz cancelled expired q =
     (if \<not> tq_accepting q then
        (q\<lparr>tq_rejected_after_shutdown := Suc (tq_rejected_after_shutdown q)\<rparr>,
         Submitted False, Some QueueClosedError)
      else tq_submit_loop item sz cancelled expired True q)"

datatype 'a tq_receive_status = TQReceived 'a | TQRaised exn | TQWaiting

definition tq_receive_attempt ::
    "bool \<Rightarrow> 'a transport_queue \<Rightarrow> 'a transport_queue \<times> 'a tq_receive_status" where
  "tq_receive_attempt expired q =
     (case tq_queue q of
        [] \<Rightarrow> (q, if \<not> tq_accepting q then TQRaised QueueClosedError
                else if expired then TQRaised TimeoutError else TQWaiting)
      | (item, sz) # rest \<Rightarrow>
          (q\<lparr>tq_queue := rest, tq_current_bytes := tq_current_bytes q - int sz,
             tq_dequeued := Suc (tq_dequeued q)\<rparr>, TQReceived item))"

definition tq_stop_accepting :: "'a transport_queue \<Rightarrow> 'a transport_queue" where
  "tq_stop_accepting q = q\<lparr>tq_accepting := False\<rparr>"

text \<open>\<open>discard\<close>: the item is found by identity; an item is queued at most once.\<close>

definition tq_discard :: "'a \<Rightarrow> 'a transport_queue \<Rightarrow> 'a transport_queue" where
  "tq_discard item q =
     (case index_where (\<lambda>entry. fst entry = item) (tq_queue q) of
        None \<Rightarrow> q
      | Some k \<Rightarrow> q\<lparr>tq_queue := del_at k (tq_queue q),
                  tq_current_bytes := tq_current_bytes q - int (snd (tq_queue q ! k))\<rparr>)"

definition tq_drain_attempt :: "bool \<Rightarrow> 'a transport_queue \<Rightarrow> bool option" where
  "tq_drain_attempt expired q =
     (if tq_queue q \<noteq> [] then (if expired then Some False else None) else Some True)"

text \<open>The locked part of \<open>shutdown\<close> after a drain that timed out, and the items it discarded.\<close>

definition tq_shutdown_clear :: "'a transport_queue \<Rightarrow> 'a transport_queue \<times> 'a list" where
  "tq_shutdown_clear q =
     (q\<lparr>tq_discarded_during_shutdown := tq_discarded_during_shutdown q + length (tq_queue q),
        tq_queue := [], tq_current_bytes := 0\<rparr>, map fst (tq_queue q))"

section \<open>The three queues\<close>

definition new_raw_queue :: "pyval \<Rightarrow> pyval \<Rightarrow> pyval \<Rightarrow> exn + 'a transport_queue" where
  "new_raw_queue queue_limit byte_limit max_message_bytes =
     rbind (positive_limit ''byte_limit'' byte_limit) (\<lambda>b.
     rbind (positive_limit ''max_message_bytes'' max_message_bytes) (\<lambda>m.
     rbind (positive_limit ''queue_limit'' queue_limit) (\<lambda>l.
       new_transport_queue l b m)))"

definition new_session_event_queue :: "pyval \<Rightarrow> exn + 'a transport_queue" where
  "new_session_event_queue queue_limit =
     rbind (positive_limit ''queue_limit'' queue_limit) (\<lambda>l. new_transport_queue l 0 0)"

text \<open>\<open>submit\<close> of the queue of text frames and of the queue of session events, whose items have no size.\<close>

definition raw_inbound_submit ::
    "codepoints \<Rightarrow> bool \<Rightarrow> codepoints transport_queue \<Rightarrow> codepoints tq_result" where
  "raw_inbound_submit frame expired q =
     tq_submit_begin frame (utf8_size frame (tq_max_message_bytes q)) False expired q"

definition session_submit :: "'a \<Rightarrow> bool \<Rightarrow> 'a transport_queue \<Rightarrow> 'a tq_result" where
  "session_submit event expired q = tq_submit_begin event 0 False expired q"

section \<open>Invariant\<close>

definition tq_ok :: "'a transport_queue \<Rightarrow> bool" where
  "tq_ok q \<longleftrightarrow>
     length (tq_queue q) \<le> tq_peak_depth q \<and> tq_peak_depth q \<le> tq_queue_limit q \<and>
     tq_current_bytes q = int (sum_list (map snd (tq_queue q))) \<and>
     tq_current_bytes q \<le> tq_peak_bytes q \<and> tq_peak_bytes q \<le> int (tq_byte_limit q) \<and>
     tq_max_message_bytes q \<le> tq_byte_limit q \<and>
     (\<forall>x \<in> set (tq_queue q). snd x \<le> tq_max_message_bytes q)"

lemma tq_ok_new: "new_transport_queue l b m = Inr q \<Longrightarrow> tq_ok q"
  by (auto simp: new_transport_queue_def tq_ok_def split: if_splits)

lemma tq_ok_append:
  "tq_ok q \<Longrightarrow> \<not> tq_over_capacity sz q \<Longrightarrow> sz \<le> tq_max_message_bytes q \<Longrightarrow> tq_ok (tq_append item sz q)"
  by (auto simp: tq_ok_def tq_over_capacity_def tq_append_def Let_def)

lemma tq_ok_counters [simp]:
  "tq_ok (q\<lparr>tq_submitted := n\<rparr>) = tq_ok q" "tq_ok (q\<lparr>tq_rejected_full := n\<rparr>) = tq_ok q"
  "tq_ok (q\<lparr>tq_rejected_after_shutdown := n\<rparr>) = tq_ok q"
  "tq_ok (q\<lparr>tq_rejected_oversized := n\<rparr>) = tq_ok q"
  "tq_ok (q\<lparr>tq_backpressured := n\<rparr>) = tq_ok q" "tq_ok (q\<lparr>tq_accepting := b\<rparr>) = tq_ok q"
  by (simp_all add: tq_ok_def)

lemma tq_stop_ok [simp]: "tq_ok (tq_stop_accepting q) = tq_ok q"
  by (simp add: tq_stop_accepting_def)

lemma tq_submit_ok:
  "tq_ok q \<Longrightarrow> sz \<le> tq_max_message_bytes q \<Longrightarrow> tq_ok (fst (tq_submit_loop item sz c x b q))"
  "tq_ok q \<Longrightarrow> tq_ok (fst (tq_submit_begin item sz c x q))"
  "tq_ok q \<Longrightarrow> sz \<le> tq_max_message_bytes q \<Longrightarrow> tq_ok (fst (tq_submit_resume item sz c x q))"
  by (auto simp: tq_submit_loop_def tq_submit_begin_def tq_submit_resume_def Let_def tq_ok_append)

lemma tq_receive_ok: "tq_ok q \<Longrightarrow> tq_ok (fst (tq_receive_attempt x q))"
  by (auto simp: tq_receive_attempt_def tq_ok_def split: list.splits)

lemma tq_discard_ok:
  assumes "tq_ok q"
  shows "tq_ok (tq_discard item q)"
proof (cases "index_where (\<lambda>entry. fst entry = item) (tq_queue q)")
  case None
  then show ?thesis using assms unfolding tq_discard_def None by simp
next
  case (Some k)
  then have k: "k < length (tq_queue q)" by (simp add: index_where_Some)
  show ?thesis using assms Some sum_list_del_at [OF k, of snd] k set_del_at_subset [of k "tq_queue q"]
    by (auto simp: tq_discard_def tq_ok_def)
qed

lemma tq_clear_ok: "tq_ok q \<Longrightarrow> tq_ok (fst (tq_shutdown_clear q))"
  by (auto simp: tq_shutdown_clear_def tq_ok_def)

section \<open>The queue with its producers\<close>

record 'a transport_system =
  ts_queue :: "'a transport_queue"
  ts_waiting :: "('a \<times> nat) list"

datatype 'a transport_op =
    TSubmit 'a nat bool bool
  | TResume nat bool bool
  | TReceive bool
  | TStop
  | TDiscard 'a
  | TClear

text \<open>
  The items that a queue accepts, hands to a consumer or discards in one step, and the number of
  \<open>submit\<close> calls that return with the item cancelled: the code counts these nowhere.
\<close>

fun transport_step :: "'a transport_op \<Rightarrow> 'a transport_system \<Rightarrow> 'a transport_system" where
  "transport_step (TSubmit item sz c x) s =
     (let (q, st, r) = tq_submit_begin item sz c x (ts_queue s)
      in \<lparr>ts_queue = q, ts_waiting =
            (if st = SubmitWaiting then ts_waiting s @ [(item, sz)] else ts_waiting s)\<rparr>)"
| "transport_step (TResume k c x) s =
     (if k < length (ts_waiting s) then
        (let (q, st, r) = tq_submit_resume (fst (ts_waiting s ! k)) (snd (ts_waiting s ! k)) c x (ts_queue s)
         in \<lparr>ts_queue = q, ts_waiting =
               (if st = SubmitWaiting then ts_waiting s else del_at k (ts_waiting s))\<rparr>)
      else s)"
| "transport_step (TReceive x) s = s\<lparr>ts_queue := fst (tq_receive_attempt x (ts_queue s))\<rparr>"
| "transport_step TStop s = s\<lparr>ts_queue := tq_stop_accepting (ts_queue s)\<rparr>"
| "transport_step (TDiscard item) s = s\<lparr>ts_queue := tq_discard item (ts_queue s)\<rparr>"
| "transport_step TClear s = s\<lparr>ts_queue := fst (tq_shutdown_clear (ts_queue s))\<rparr>"

definition tq_limits :: "'a transport_queue \<Rightarrow> nat \<times> nat \<times> nat" where
  "tq_limits q = (tq_queue_limit q, tq_byte_limit q, tq_max_message_bytes q)"

definition transport_ok :: "nat \<times> nat \<times> nat \<Rightarrow> 'a transport_system \<Rightarrow> bool" where
  "transport_ok lims s \<longleftrightarrow> tq_ok (ts_queue s) \<and> tq_limits (ts_queue s) = lims \<and>
     (\<forall>w \<in> set (ts_waiting s). snd w \<le> tq_max_message_bytes (ts_queue s))"

definition transport_closed :: "'a transport_system \<Rightarrow> bool" where
  "transport_closed s \<longleftrightarrow> \<not> tq_accepting (ts_queue s)"

lemma tq_limits_ops [simp]:
  "tq_limits (fst (tq_submit_loop item sz c x b q)) = tq_limits q"
  "tq_limits (fst (tq_submit_begin item sz c x q)) = tq_limits q"
  "tq_limits (fst (tq_submit_resume item sz c x q)) = tq_limits q"
  "tq_limits (fst (tq_receive_attempt x q)) = tq_limits q"
  "tq_limits (tq_stop_accepting q) = tq_limits q"
  "tq_limits (tq_discard item q) = tq_limits q"
  "tq_limits (fst (tq_shutdown_clear q)) = tq_limits q"
  by (auto simp: tq_limits_def tq_submit_loop_def tq_submit_begin_def tq_submit_resume_def
      tq_receive_attempt_def tq_stop_accepting_def tq_discard_def tq_shutdown_clear_def
      tq_append_def Let_def split: list.splits option.splits)

lemma tq_accepting_ops [simp]:
  "tq_accepting (fst (tq_submit_loop item sz c x b q)) = tq_accepting q"
  "tq_accepting (fst (tq_submit_begin item sz c x q)) = tq_accepting q"
  "tq_accepting (fst (tq_submit_resume item sz c x q)) = tq_accepting q"
  "tq_accepting (fst (tq_receive_attempt x q)) = tq_accepting q"
  "\<not> tq_accepting (tq_stop_accepting q)"
  "tq_accepting (tq_discard item q) = tq_accepting q"
  "tq_accepting (fst (tq_shutdown_clear q)) = tq_accepting q"
  by (auto simp: tq_submit_loop_def tq_submit_begin_def tq_submit_resume_def
      tq_receive_attempt_def tq_stop_accepting_def tq_discard_def tq_shutdown_clear_def
      tq_append_def Let_def split: list.splits option.splits)

lemma tq_waiting_size:
  "fst (snd (tq_submit_begin item sz c x q)) = SubmitWaiting \<Longrightarrow> sz \<le> tq_max_message_bytes q"
  by (auto simp: tq_submit_begin_def Let_def split: if_splits)

lemma max_message_limits: "tq_limits q = (l, b, m) \<Longrightarrow> tq_max_message_bytes q = m"
  by (simp add: tq_limits_def)

lemma transport_ok_step:
  assumes "transport_ok lims s"
  shows "transport_ok lims (transport_step op s)"
proof -
  obtain l b m where lims: "lims = (l, b, m)" by (cases lims)
  have m: "tq_limits q = lims \<Longrightarrow> tq_max_message_bytes q = m" for q :: "'a transport_queue"
    using lims by (simp add: tq_limits_def)
  show ?thesis
  proof (cases op)
    case (TSubmit item sz c x)
    then show ?thesis using assms tq_waiting_size [of item sz c x "ts_queue s"]
      by (auto simp: transport_ok_def case_prod_beta Let_def tq_submit_ok m)
  next
    case (TResume k c x)
    then show ?thesis using assms
      by (auto simp: transport_ok_def case_prod_beta Let_def tq_submit_ok m dest!: in_set_del_at)
  qed (use assms in \<open>auto simp: transport_ok_def tq_receive_ok tq_discard_ok tq_clear_ok m\<close>)
qed

lemma transport_closed_step:
  "transport_closed s \<Longrightarrow> transport_closed (transport_step op s)"
  by (cases op) (simp_all add: transport_closed_def case_prod_beta Let_def)

interpretation transport: latch_machine transport_step "transport_ok lims" transport_closed for lims
  by unfold_locales (auto intro: transport_ok_step transport_closed_step)


section \<open>Order of delivery\<close>

fun transport_accepts :: "'a transport_op \<Rightarrow> 'a transport_system \<Rightarrow> 'a list" where
  "transport_accepts (TSubmit item sz c x) s =
     (if fst (snd (tq_submit_begin item sz c x (ts_queue s))) = Submitted True then [item] else [])"
| "transport_accepts (TResume k c x) s =
     (if k < length (ts_waiting s) \<and>
         fst (snd (tq_submit_resume (fst (ts_waiting s ! k)) (snd (ts_waiting s ! k)) c x (ts_queue s)))
           = Submitted True
      then [fst (ts_waiting s ! k)] else [])"
| "transport_accepts _ s = []"

fun transport_delivers :: "'a transport_op \<Rightarrow> 'a transport_system \<Rightarrow> 'a list" where
  "transport_delivers (TReceive x) s =
     (case snd (tq_receive_attempt x (ts_queue s)) of TQReceived item \<Rightarrow> [item] | _ \<Rightarrow> [])"
| "transport_delivers _ s = []"

fun transport_removes :: "'a transport_op \<Rightarrow> bool" where
  "transport_removes (TDiscard item) = True"
| "transport_removes TClear = True"
| "transport_removes _ = False"

fun transport_log ::
    "('a transport_op \<Rightarrow> 'a transport_system \<Rightarrow> 'a list) \<Rightarrow> 'a transport_op list
      \<Rightarrow> 'a transport_system \<Rightarrow> 'a list" where
  "transport_log f [] s = []"
| "transport_log f (op # ops) s = f op s @ transport_log f ops (transport_step op s)"

abbreviation queued_items :: "'a transport_system \<Rightarrow> 'a list" where
  "queued_items s \<equiv> map fst (tq_queue (ts_queue s))"

lemma queued_submit:
  "map fst (tq_queue (fst (tq_submit_begin item sz c x q))) = map fst (tq_queue q) @
     (if fst (snd (tq_submit_begin item sz c x q)) = Submitted True then [item] else [])"
  "map fst (tq_queue (fst (tq_submit_resume item sz c x q))) = map fst (tq_queue q) @
     (if fst (snd (tq_submit_resume item sz c x q)) = Submitted True then [item] else [])"
  by (auto simp: tq_submit_begin_def tq_submit_resume_def tq_submit_loop_def tq_append_def Let_def)

lemma transport_log_step:
  "\<not> transport_removes op \<Longrightarrow>
     queued_items s @ transport_accepts op s = transport_delivers op s @ queued_items (transport_step op s)"
  by (cases op) (auto simp: case_prod_beta Let_def queued_submit tq_receive_attempt_def
      tq_stop_accepting_def split: list.splits)

section \<open>Completion receipts\<close>

record outbound_frame =
  fr_payload :: string
  fr_receipt :: nat

text \<open>
  A callback of a receipt: the two that \<open>RawOutboundQueue.submit\<close> registers, and any other
  (the writer's, whose effect is on the command and not on the queue).
\<close>

datatype receipt_callback = WakeProducers | DiscardFrame outbound_frame | OtherCallback nat

record receipt =
  rc_claimed :: bool
  rc_done :: bool
  rc_error :: "exn option"
  rc_callbacks :: "receipt_callback list"

definition new_receipt :: receipt where
  "new_receipt = \<lparr>rc_claimed = False, rc_done = False, rc_error = None, rc_callbacks = []\<rparr>"

definition receipt_claim :: "receipt \<Rightarrow> exn + receipt" where
  "receipt_claim r =
     (if rc_done r then Inl (ValueError ''TransportReceipt must be pending'')
      else if rc_claimed r then Inl (ValueError ''TransportReceipt is already owned'')
      else Inr (r\<lparr>rc_claimed := True\<rparr>))"

text \<open>\<open>_finish\<close> under the lock; the callbacks it then invokes are the second part.\<close>

definition receipt_finish :: "exn option \<Rightarrow> receipt \<Rightarrow> exn + receipt \<times> receipt_callback list" where
  "receipt_finish err r =
     (if rc_done r then Inl InvalidStateError
      else Inr (r\<lparr>rc_done := True, rc_error := err, rc_callbacks := []\<rparr>, rc_callbacks r))"

text \<open>\<open>_add_done_callback\<close>: the second part is the callback to invoke at once.\<close>

definition receipt_add_callback :: "receipt_callback \<Rightarrow> receipt \<Rightarrow> receipt \<times> receipt_callback list" where
  "receipt_add_callback callback r =
     (if \<not> rc_done r then (r\<lparr>rc_callbacks := rc_callbacks r @ [callback]\<rparr>, []) else (r, [callback]))"

text \<open>One pass of \<open>_wait\<close>: \<open>None\<close> while it waits.\<close>

definition receipt_wait :: "bool \<Rightarrow> receipt \<Rightarrow> (exn + exn option) option" where
  "receipt_wait expired r =
     (if rc_done r then Some (Inr (rc_error r)) else if expired then Some (Inl TimeoutError) else None)"

section \<open>Raw outbound frames\<close>

text \<open>
  \<open>RawOutboundQueue\<close>: the queue of frames and the receipts. A receipt is claimed by one
  submission, so a frame is queued at most once and is identified with its fields.
\<close>

record raw_outbound =
  ro_queue :: "outbound_frame transport_queue"
  ro_receipts :: "nat \<Rightarrow> receipt"

definition put_receipt :: "nat \<Rightarrow> receipt \<Rightarrow> raw_outbound \<Rightarrow> raw_outbound" where
  "put_receipt i r s = s\<lparr>ro_receipts := (ro_receipts s)(i := r)\<rparr>"

fun run_callback :: "exn option \<Rightarrow> receipt_callback \<Rightarrow> raw_outbound \<Rightarrow> raw_outbound" where
  "run_callback err WakeProducers s = s"
| "run_callback err (DiscardFrame f) s =
     (if err \<noteq> None then s\<lparr>ro_queue := tq_discard f (ro_queue s)\<rparr> else s)"
| "run_callback err (OtherCallback n) s = s"

definition ro_finish :: "nat \<Rightarrow> exn option \<Rightarrow> raw_outbound \<Rightarrow> exn + raw_outbound" where
  "ro_finish i err s =
     rbind (receipt_finish err (ro_receipts s i)) (\<lambda>(r, callbacks).
       Inr (fold (run_callback err) callbacks (put_receipt i r s)))"

definition ro_add_callback :: "nat \<Rightarrow> receipt_callback \<Rightarrow> raw_outbound \<Rightarrow> raw_outbound" where
  "ro_add_callback i callback s =
     (let (r, now) = receipt_add_callback callback (ro_receipts s i)
      in fold (run_callback (rc_error r)) now (put_receipt i r s))"

text \<open>\<open>submit\<close> up to the queue's lock: the claim and the callback that wakes producers.\<close>

definition ro_claim :: "outbound_frame \<Rightarrow> raw_outbound \<Rightarrow> exn + raw_outbound" where
  "ro_claim f s =
     rbind (receipt_claim (ro_receipts s (fr_receipt f))) (\<lambda>r.
       Inr (ro_add_callback (fr_receipt f) WakeProducers (put_receipt (fr_receipt f) r s)))"

text \<open>
  The queue's segments with \<open>_fail_frame\<close> as \<open>_reject\<close>, which runs under the queue's lock: it may
  itself raise, and then the queue's counters have been updated already.
\<close>

definition ro_settle ::
    "outbound_frame \<Rightarrow> outbound_frame tq_result \<Rightarrow> raw_outbound \<Rightarrow> raw_outbound \<times> (exn + tq_status)" where
  "ro_settle f res s =
     (let (q, st, rejection) = res; s1 = s\<lparr>ro_queue := q\<rparr>
      in case rejection of
           None \<Rightarrow> (s1, Inr st)
         | Some e \<Rightarrow> (case ro_finish (fr_receipt f) (Some e) s1 of
               Inl x \<Rightarrow> (s1, Inl x)
             | Inr s2 \<Rightarrow> (s2, Inr st)))"

definition ro_submit_begin ::
    "outbound_frame \<Rightarrow> nat \<Rightarrow> bool \<Rightarrow> raw_outbound \<Rightarrow> raw_outbound \<times> (exn + tq_status)" where
  "ro_submit_begin f sz expired s =
     ro_settle f (tq_submit_begin f sz (rc_done (ro_receipts s (fr_receipt f))) expired (ro_queue s)) s"

definition ro_submit_resume ::
    "outbound_frame \<Rightarrow> nat \<Rightarrow> bool \<Rightarrow> raw_outbound \<Rightarrow> raw_outbound \<times> (exn + tq_status)" where
  "ro_submit_resume f sz expired s =
     ro_settle f (tq_submit_resume f sz (rc_done (ro_receipts s (fr_receipt f))) expired (ro_queue s)) s"

text \<open>The last step of an accepted \<open>submit\<close>.\<close>

definition ro_attach :: "outbound_frame \<Rightarrow> raw_outbound \<Rightarrow> raw_outbound" where
  "ro_attach f s = ro_add_callback (fr_receipt f) (DiscardFrame f) s"

definition ro_receive :: "bool \<Rightarrow> raw_outbound \<Rightarrow> raw_outbound \<times> outbound_frame tq_receive_status" where
  "ro_receive expired s =
     (let (q, st) = tq_receive_attempt expired (ro_queue s) in (s\<lparr>ro_queue := q\<rparr>, st))"

definition ro_stop_accepting :: "raw_outbound \<Rightarrow> raw_outbound" where
  "ro_stop_accepting s = s\<lparr>ro_queue := tq_stop_accepting (ro_queue s)\<rparr>"

definition ro_shutdown_clear :: "raw_outbound \<Rightarrow> raw_outbound \<times> outbound_frame list" where
  "ro_shutdown_clear s =
     (let (q, frames) = tq_shutdown_clear (ro_queue s) in (s\<lparr>ro_queue := q\<rparr>, frames))"

text \<open>The loop at the end of \<open>shutdown\<close>, outside the queue's lock: an exception ends it.\<close>

fun ro_reject_discarded :: "outbound_frame list \<Rightarrow> raw_outbound \<Rightarrow> raw_outbound \<times> exn option" where
  "ro_reject_discarded [] s = (s, None)"
| "ro_reject_discarded (f # fs) s =
     (case ro_finish (fr_receipt f) (Some QueueClosedError) s of
        Inl x \<Rightarrow> (s, Some x)
      | Inr s' \<Rightarrow> ro_reject_discarded fs s')"

datatype raw_op =
    RClaim outbound_frame
  | RSubmitBegin outbound_frame nat bool
  | RSubmitResume outbound_frame nat bool
  | RAttach outbound_frame
  | RReceive bool
  | RFinish nat "exn option"
  | RAddCallback nat receipt_callback
  | RStop
  | RClear
  | RRejectDiscarded "outbound_frame list"

fun raw_step :: "raw_op \<Rightarrow> raw_outbound \<Rightarrow> raw_outbound" where
  "raw_step (RClaim f) s = (case ro_claim f s of Inl _ \<Rightarrow> s | Inr s' \<Rightarrow> s')"
| "raw_step (RSubmitBegin f sz x) s = fst (ro_submit_begin f sz x s)"
| "raw_step (RSubmitResume f sz x) s = fst (ro_submit_resume f sz x s)"
| "raw_step (RAttach f) s = ro_attach f s"
| "raw_step (RReceive x) s = fst (ro_receive x s)"
| "raw_step (RFinish i err) s = (case ro_finish i err s of Inl _ \<Rightarrow> s | Inr s' \<Rightarrow> s')"
| "raw_step (RAddCallback i c) s = ro_add_callback i c s"
| "raw_step RStop s = ro_stop_accepting s"
| "raw_step RClear s = fst (ro_shutdown_clear s)"
| "raw_step (RRejectDiscarded fs) s = fst (ro_reject_discarded fs s)"

lemma run_callback_receipts [simp]: "ro_receipts (run_callback err c s) = ro_receipts s"
  by (cases c) auto

lemma run_callbacks_receipts [simp]:
  "ro_receipts (fold (run_callback err) cs s) = ro_receipts s"
  by (induction cs arbitrary: s) auto

definition settled :: "nat \<Rightarrow> exn option \<Rightarrow> raw_outbound \<Rightarrow> bool" where
  "settled i err s \<longleftrightarrow> rc_done (ro_receipts s i) \<and> rc_error (ro_receipts s i) = err"

lemma settled_finish:
  "ro_finish j e s = Inr s' \<Longrightarrow>
     settled i err s' \<longleftrightarrow> (if i = j then err = e \<and> \<not> rc_done (ro_receipts s i) else settled i err s)"
  by (auto simp: ro_finish_def receipt_finish_def rbind_eq_Inr settled_def put_receipt_def
      split: if_splits)

lemma settled_finish_mono: "ro_finish j e s = Inr s' \<Longrightarrow> settled i err s \<Longrightarrow> settled i err s'"
  using settled_finish by (auto simp: settled_def ro_finish_def receipt_finish_def)

lemma settled_add_callback: "settled i err s \<Longrightarrow> settled i err (ro_add_callback j c s)"
  by (auto simp: ro_add_callback_def receipt_add_callback_def settled_def put_receipt_def Let_def
      split: prod.splits if_splits)

lemma settled_queue [simp]: "settled i err (s\<lparr>ro_queue := q\<rparr>) = settled i err s"
  by (simp add: settled_def)

lemma settled_settle: "settled i err s \<Longrightarrow> settled i err (fst (ro_settle f res s))"
  by (auto simp: ro_settle_def Let_def settled_finish_mono split: prod.splits option.splits sum.splits)

lemma settled_reject: "settled i err s \<Longrightarrow> settled i err (fst (ro_reject_discarded fs s))"
proof (induction fs arbitrary: s)
  case (Cons f fs)
  then show ?case by (auto dest: settled_finish_mono split: sum.splits)
qed simp

lemma settled_step: "settled i err s \<Longrightarrow> settled i err (raw_step op s)"
proof (cases op)
  case (RClaim f)
  assume s: "settled i err s"
  show ?thesis
  proof (cases "ro_claim f s")
    case (Inr s')
    then have "settled i err (put_receipt (fr_receipt f) r s)"
      if "receipt_claim (ro_receipts s (fr_receipt f)) = Inr r" for r
      using s that by (auto simp: settled_def put_receipt_def receipt_claim_def split: if_splits)
    then show ?thesis using Inr RClaim
      by (auto simp: ro_claim_def rbind_eq_Inr settled_add_callback)
  qed (use RClaim s in simp)
qed (auto simp: ro_submit_begin_def ro_submit_resume_def settled_settle ro_attach_def
      settled_add_callback ro_receive_def ro_stop_accepting_def ro_shutdown_clear_def settled_reject
      case_prod_beta settled_finish_mono split: sum.splits)

interpretation receipts: latch_machine raw_step "\<lambda>_. True" "settled i err" for i err
  by unfold_locales (auto intro: settled_step)


section \<open>Properties\<close>

definition demo_transport :: "string transport_queue" where
  "demo_transport = (case new_transport_queue 2 10 8 of Inr q \<Rightarrow> q)"

lemma demo_transport_new: "new_transport_queue 2 10 8 = Inr demo_transport"
  by (simp add: demo_transport_def new_transport_queue_def)

definition demo_transport_ops :: "string transport_op list" where
  "demo_transport_ops = [TSubmit ''a'' 4 False False, TSubmit ''b'' 5 False False,
     TSubmit ''c'' 3 False False, TReceive False, TResume 0 False False, TSubmit ''d'' 9 False True]"

text \<open>
  From a new transport queue, after any interleaving of submissions, wake-ups, receives, discards
  of single items, closing and clearing: depth and high-water mark are within the queue limit, the
  byte count is the exact sum of the queued sizes and within the byte limit, and no queued item
  is larger than the message limit or the byte limit.
\<close>

theorem transport_queue_bounded:
  assumes "new_transport_queue limit bytes max_message = Inr q"
    and "r = ts_queue (fold transport_step ops \<lparr>ts_queue = q, ts_waiting = []\<rparr>)"
  shows "length (tq_queue r) \<le> tq_peak_depth r \<and> tq_peak_depth r \<le> limit \<and>
    tq_current_bytes r = int (sum_list (map snd (tq_queue r))) \<and>
    tq_current_bytes r \<le> tq_peak_bytes r \<and> tq_peak_bytes r \<le> int bytes \<and>
    (\<forall>(item, sz) \<in> set (tq_queue r). sz \<le> min max_message bytes)"
proof -
  have "transport_ok (limit, bytes, min max_message bytes) \<lparr>ts_queue = q, ts_waiting = []\<rparr>"
    using assms(1) tq_ok_new [OF assms(1)]
    by (auto simp: transport_ok_def tq_limits_def new_transport_queue_def split: if_splits)
  from transport.inv_run [OF this, of ops] show ?thesis
    by (auto simp: assms(2) transport_ok_def tq_ok_def tq_limits_def)
qed

lemma transport_queue_bounded_witness:
  "tq_current_bytes (ts_queue (fold transport_step demo_transport_ops
     \<lparr>ts_queue = demo_transport, ts_waiting = []\<rparr>)) \<le> 10"
  using transport_queue_bounded [OF demo_transport_new refl, of demo_transport_ops] by linarith

text \<open>
  Transport queues deliver in order and lose nothing on their own: as long as no item is discarded
  and the queue is not cleared, the items accepted are, in order, those delivered followed by those
  queued.
\<close>

theorem transport_fifo:
  assumes "\<forall>op \<in> set ops. \<not> transport_removes op"
  shows "queued_items s @ transport_log transport_accepts ops s =
    transport_log transport_delivers ops s @ queued_items (fold transport_step ops s)"
  using assms
proof (induction ops arbitrary: s)
  case (Cons op ops)
  let ?s = "transport_step op s"
  have "queued_items s @ transport_log transport_accepts (op # ops) s =
      (queued_items s @ transport_accepts op s) @ transport_log transport_accepts ops ?s" by simp
  also have "\<dots> = transport_delivers op s @ (queued_items ?s @ transport_log transport_accepts ops ?s)"
    using Cons.prems transport_log_step [of op s] by simp
  also have "\<dots> = transport_log transport_delivers (op # ops) s
      @ queued_items (fold transport_step (op # ops) s)"
    using Cons.IH [of ?s] Cons.prems by simp
  finally show ?case .
qed simp

lemma transport_fifo_witness:
  "transport_log transport_accepts demo_transport_ops \<lparr>ts_queue = demo_transport, ts_waiting = []\<rparr> =
    transport_log transport_delivers demo_transport_ops \<lparr>ts_queue = demo_transport, ts_waiting = []\<rparr>
    @ queued_items (fold transport_step demo_transport_ops \<lparr>ts_queue = demo_transport, ts_waiting = []\<rparr>)"
proof -
  have "queued_items \<lparr>ts_queue = demo_transport, ts_waiting = []\<rparr> = []"
    by (simp add: demo_transport_def new_transport_queue_def)
  moreover have "\<forall>op \<in> set demo_transport_ops. \<not> transport_removes op"
    by (simp add: demo_transport_ops_def)
  ultimately show ?thesis
    using transport_fifo [of demo_transport_ops "\<lparr>ts_queue = demo_transport, ts_waiting = []\<rparr>"]
    by (simp only: append_Nil)
qed

text \<open>
  C30. A receipt settles once: after it has been finished, whatever the queue, the connector and the
  writer do, it stays finished with the same outcome, and every further attempt to finish it raises.
\<close>

theorem receipt_settles_once:
  assumes "ro_finish i err s = Inr s'"
  shows "settled i err (fold raw_step ops s') \<and> ro_finish i e (fold raw_step ops s') = Inl InvalidStateError"
proof -
  have "settled i err s'"
    using settled_finish [OF assms, of i err] assms
    by (auto simp: ro_finish_def receipt_finish_def split: if_splits)
  from receipts.latched_run [OF TrueI this, of ops] show ?thesis
    by (simp add: ro_finish_def receipt_finish_def settled_def)
qed

definition demo_frame :: "nat \<Rightarrow> outbound_frame" where
  "demo_frame n = \<lparr>fr_payload = ''x'', fr_receipt = n\<rparr>"

definition demo_raw :: raw_outbound where
  "demo_raw = \<lparr>ro_queue = (case new_transport_queue 2 10 8 of Inr q \<Rightarrow> q),
     ro_receipts = (\<lambda>_. new_receipt)\<rparr>"

lemma receipt_settles_once_witness:
  "settled 0 None (fold raw_step [RFinish 0 (Some QueueClosedError), RClear] (case ro_finish 0 None demo_raw of Inr s \<Rightarrow> s))"
proof -
  obtain s where s: "ro_finish 0 None demo_raw = Inr s"
    by (auto simp: ro_finish_def receipt_finish_def demo_raw_def new_receipt_def)
  from receipt_settles_once [OF this] show ?thesis unfolding s sum.case by blast
qed

lemma tq_discard_items: "map fst (tq_queue (tq_discard f q)) = remove1 f (map fst (tq_queue q))"
proof -
  have "map fst (case index_where (\<lambda>e. fst e = f) xs of None \<Rightarrow> xs | Some k \<Rightarrow> del_at k xs) =
      remove1 f (map fst xs)" for xs :: "('a \<times> nat) list"
  proof (induction xs)
    case (Cons x xs)
    then show ?case
      by (cases "index_where (\<lambda>e. fst e = f) xs") (simp_all add: del_at_def del: index_where_None)
  qed simp
  from this [of "tq_queue q"] show ?thesis
    by (cases "index_where (\<lambda>e. fst e = f) (tq_queue q)") (simp_all add: tq_discard_def del: index_where_None)
qed

lemma run_callbacks_queue:
  assumes "tq_ok (ro_queue s)" "distinct (map fst (tq_queue (ro_queue s)))"
  shows "tq_ok (ro_queue (fold (run_callback (Some e)) cs s)) \<and>
    map fst (tq_queue (ro_queue (fold (run_callback (Some e)) cs s))) =
      filter (\<lambda>f. DiscardFrame f \<notin> set cs) (map fst (tq_queue (ro_queue s)))"
  using assms
proof (induction cs arbitrary: s)
  case (Cons c cs)
  show ?case
  proof (cases c)
    case (DiscardFrame f)
    let ?s = "run_callback (Some e) c s"
    have "tq_ok (ro_queue ?s)" "map fst (tq_queue (ro_queue ?s)) = remove1 f (map fst (tq_queue (ro_queue s)))"
      using Cons.prems DiscardFrame by (simp_all add: tq_discard_ok tq_discard_items)
    moreover from this have "map fst (tq_queue (ro_queue ?s)) =
        filter (\<lambda>g. g \<noteq> f) (map fst (tq_queue (ro_queue s)))"
      using Cons.prems(2) by (simp add: distinct_remove1_removeAll removeAll_filter_not_eq eq_commute)
    ultimately show ?thesis using Cons.IH [of ?s] Cons.prems(2) DiscardFrame
      by (auto simp: filter_filter intro!: filter_cong)
  qed (use Cons in simp_all)
qed simp

text \<open>
  A frame whose receipt fails while the frame is queued frees its capacity at once: the frame
  leaves the queue, the byte count stays exact, and the other frames keep their order.
\<close>

theorem failed_frame_frees_capacity:
  assumes "tq_ok (ro_queue s)" "distinct (map fst (tq_queue (ro_queue s)))"
    and "\<forall>g. DiscardFrame g \<in> set (rc_callbacks (ro_receipts s (fr_receipt f))) \<longleftrightarrow> g = f"
    and "ro_finish (fr_receipt f) (Some e) s = Inr s'"
  shows "map fst (tq_queue (ro_queue s')) = filter (\<lambda>g. g \<noteq> f) (map fst (tq_queue (ro_queue s))) \<and>
    tq_current_bytes (ro_queue s') = int (sum_list (map snd (tq_queue (ro_queue s'))))"
proof -
  let ?cs = "rc_callbacks (ro_receipts s (fr_receipt f))"
  obtain r where "s' = fold (run_callback (Some e)) ?cs (put_receipt (fr_receipt f) r s)"
    using assms(4) by (auto simp: ro_finish_def receipt_finish_def rbind_eq_Inr split: if_splits)
  moreover have "ro_queue (put_receipt (fr_receipt f) r s) = ro_queue s"
    by (simp add: put_receipt_def)
  ultimately show ?thesis
    using run_callbacks_queue [of "put_receipt (fr_receipt f) r s" e ?cs] assms(1,2,3)
    by (simp add: tq_ok_def)
qed

definition demo_queued :: raw_outbound where
  "demo_queued = fold raw_step [RClaim (demo_frame 0), RAddCallback 0 (OtherCallback 7),
     RSubmitBegin (demo_frame 0) 3 False, RAttach (demo_frame 0)] demo_raw"

lemma demo_queued_facts:
  "tq_queue (ro_queue demo_queued) = [(demo_frame 0, 3)]" "tq_ok (ro_queue demo_queued)"
  "rc_callbacks (ro_receipts demo_queued 0) =
     [WakeProducers, OtherCallback 7, DiscardFrame (demo_frame 0)]"
  "\<not> rc_done (ro_receipts demo_queued 0)"
  by (simp_all add: demo_queued_def demo_raw_def demo_frame_def new_transport_queue_def ro_claim_def
      receipt_claim_def new_receipt_def ro_add_callback_def receipt_add_callback_def put_receipt_def
      ro_submit_begin_def ro_settle_def tq_submit_begin_def tq_submit_loop_def tq_over_capacity_def
      tq_append_def ro_attach_def Let_def tq_ok_def)

lemma failed_frame_frees_capacity_witness:
  "case ro_finish 0 (Some TimeoutError) demo_queued of
     Inr s \<Rightarrow> tq_queue (ro_queue s) = [] | Inl _ \<Rightarrow> False"
proof -
  obtain s where s: "ro_finish (fr_receipt (demo_frame 0)) (Some TimeoutError) demo_queued = Inr s"
    using demo_queued_facts(4) by (simp add: ro_finish_def receipt_finish_def demo_frame_def)
  have "map fst (tq_queue (ro_queue s)) = []"
    using failed_frame_frees_capacity [OF _ _ _ s] demo_queued_facts by (simp add: demo_frame_def)
  with s show ?thesis by (simp add: demo_frame_def)
qed

definition frame_pending :: "raw_outbound \<Rightarrow> outbound_frame \<Rightarrow> bool" where
  "frame_pending s f = (\<not> rc_done (ro_receipts s (fr_receipt f)))"

text \<open>
  What the rejection loop of \<open>shutdown\<close> does: it settles, as closed, exactly the discarded frames
  before the first one whose receipt has been finished meanwhile. If there is such a frame, the loop
  ends with \<open>InvalidStateError\<close> and the receipts from that frame on are left as they were; only
  otherwise every discarded frame is settled and no exception is raised.
\<close>

theorem raw_shutdown_rejects:
  assumes "distinct (map fr_receipt frames)"
  shows "(\<forall>f \<in> set (takeWhile (frame_pending s) frames).
       settled (fr_receipt f) (Some QueueClosedError) (fst (ro_reject_discarded frames s))) \<and>
    (\<forall>f \<in> set (dropWhile (frame_pending s) frames).
       ro_receipts (fst (ro_reject_discarded frames s)) (fr_receipt f) = ro_receipts s (fr_receipt f)) \<and>
    snd (ro_reject_discarded frames s) =
      (if \<forall>f \<in> set frames. frame_pending s f then None else Some InvalidStateError)"
  using assms unfolding frame_pending_def
proof (induction frames arbitrary: s)
  case Nil
  then show ?case by simp
next
  case (Cons f fs)
  show ?case
  proof (cases "rc_done (ro_receipts s (fr_receipt f))")
    case True
    then show ?thesis by (simp add: ro_finish_def receipt_finish_def)
  next
    case False
    then obtain s' where s': "ro_finish (fr_receipt f) (Some QueueClosedError) s = Inr s'"
      by (simp add: ro_finish_def receipt_finish_def)
    have other: "ro_receipts s' j = ro_receipts s j" if "j \<noteq> fr_receipt f" for j
      using s' that by (auto simp: ro_finish_def receipt_finish_def rbind_eq_Inr put_receipt_def
          split: if_splits)
    then have same: "ro_receipts s' (fr_receipt g) = ro_receipts s (fr_receipt g)" if "g \<in> set fs" for g
      using Cons.prems that by (metis distinct.simps(2) image_eqI list.set_map list.simps(9))
    have "settled (fr_receipt f) (Some QueueClosedError) s'"
      using settled_finish [OF s'] False by simp
    then have "settled (fr_receipt f) (Some QueueClosedError) (fst (ro_reject_discarded fs s'))"
      by (rule settled_reject)
    moreover have "takeWhile (\<lambda>f. \<not> rc_done (ro_receipts s' (fr_receipt f))) fs =
        takeWhile (\<lambda>f. \<not> rc_done (ro_receipts s (fr_receipt f))) fs"
      "dropWhile (\<lambda>f. \<not> rc_done (ro_receipts s' (fr_receipt f))) fs =
        dropWhile (\<lambda>f. \<not> rc_done (ro_receipts s (fr_receipt f))) fs"
      using same by (auto intro: takeWhile_cong dropWhile_cong)
    ultimately show ?thesis
      using Cons.IH [of s'] Cons.prems s' False same by (auto dest: set_dropWhileD)
  qed
qed

lemma raw_shutdown_rejects_witness:
  "snd (ro_reject_discarded [demo_frame 0, demo_frame 1, demo_frame 2]
     (raw_step (RFinish 1 (Some CommandCancelledError)) demo_raw)) = Some InvalidStateError"
  using raw_shutdown_rejects [of "[demo_frame 0, demo_frame 1, demo_frame 2]"
      "raw_step (RFinish 1 (Some CommandCancelledError)) demo_raw"]
  by (simp add: demo_frame_def demo_raw_def ro_finish_def receipt_finish_def new_receipt_def
      put_receipt_def frame_pending_def)

end
