(* ===== verification/Commands.thy ===== *)
theory Commands
  imports PyValues
begin

text \<open>
  The outbound commands of commands.py: one constructor per command class, their wire envelopes
  (\<open>to_wire\<close>) and the validation that precedes serialization (\<open>to_validated_wire\<close>). A payload is
  the current content of the command's mutable \<open>OwnedJsonPayload\<close>, which need not be valid any
  more when the command is sent. \<open>CustomCommand\<close> is a subclass that an application defines, with
  the value its \<open>to_wire\<close> returns. \<open>coalescing_key\<close> is the one of messaging/outbound.py.
\<close>

section \<open>Commands\<close>

datatype command =
    RegisterPluginCommand string string
  | SendToPropertyInspectorCommand string string pyval
  | SetStateCommand string int
  | SetTitleCommand string string int "int option"
  | SetSettingsCommand string pyval
  | GetSettingsCommand string
  | SetImageCommand string string int "int option"
  | ShowOkCommand string
  | ShowAlertCommand string
  | OpenUrlCommand string
  | LogMessageCommand string
  | SetGlobalSettingsCommand string pyval
  | GetGlobalSettingsCommand string
  | CustomCommand pyval

text \<open>
  \<open>OwnedJsonPayload(value)\<close>. A value that is not a dict goes through \<open>dict(value)\<close> first;
  that conversion of other iterables of pairs is left out, so such a value is rejected here.
\<close>

definition owned_json_payload :: "pyval \<Rightarrow> exn + pyval" where
  "owned_json_payload value =
     (if \<not> is_dict value then Inl (ValueError ''expected a JSON object'') else clone_json_object value)"

text \<open>The constructors with a payload translate a validation error, except a depth error.\<close>

definition reword :: "string \<Rightarrow> exn + 'a \<Rightarrow> exn + 'a" where
  "reword message r = (case r of
     Inr v \<Rightarrow> Inr v
   | Inl JsonDepthError \<Rightarrow> Inl JsonDepthError
   | Inl (ValueError _) \<Rightarrow> Inl (ValueError message)
   | Inl e \<Rightarrow> Inl e)"

definition py_string :: "string \<Rightarrow> pyval \<Rightarrow> exn + string" where
  "py_string message v = (case v of PStr s \<Rightarrow> Inr s | _ \<Rightarrow> Inl (ValueError message))"

definition send_to_property_inspector_command :: "pyval \<Rightarrow> pyval \<Rightarrow> pyval \<Rightarrow> exn + command" where
  "send_to_property_inspector_command action ctx payload =
     rbind (reword ''payload must be a finite JSON object'' (owned_json_payload payload)) (\<lambda>owned.
     rbind (py_string ''action must be a string'' action) (\<lambda>a.
     rbind (py_string ''context must be a string'' ctx) (\<lambda>c.
       Inr (SendToPropertyInspectorCommand a c owned))))"

definition set_settings_command :: "pyval \<Rightarrow> pyval \<Rightarrow> exn + command" where
  "set_settings_command ctx settings =
     rbind (reword ''settings must be a finite JSON object'' (owned_json_payload settings)) (\<lambda>owned.
     rbind (py_string ''context must be a string'' ctx) (\<lambda>c.
       Inr (SetSettingsCommand c owned)))"

definition set_global_settings_command :: "pyval \<Rightarrow> pyval \<Rightarrow> exn + command" where
  "set_global_settings_command ctx settings =
     rbind (reword ''settings must be a finite JSON object'' (owned_json_payload settings)) (\<lambda>owned.
     rbind (py_string ''context must be a string'' ctx) (\<lambda>c.
       Inr (SetGlobalSettingsCommand c owned)))"

section \<open>Wire envelopes\<close>

definition text_field :: "string \<Rightarrow> string \<Rightarrow> pyval \<times> pyval" where
  "text_field k s = (PStr k, PStr s)"

definition state_field :: "int option \<Rightarrow> pydict" where
  "state_field st = (case st of None \<Rightarrow> [] | Some n \<Rightarrow> [(PStr ''state'', PInt n)])"

fun to_wire :: "command \<Rightarrow> pyval" where
  "to_wire (RegisterPluginCommand event uuid) =
     PDict [text_field ''event'' event, text_field ''uuid'' uuid]"
| "to_wire (SendToPropertyInspectorCommand action ctx payload) =
     PDict [text_field ''event'' ''sendToPropertyInspector'', text_field ''action'' action,
       text_field ''context'' ctx, (PStr ''payload'', payload)]"
| "to_wire (SetStateCommand ctx state) =
     PDict [text_field ''event'' ''setState'', text_field ''context'' ctx,
       (PStr ''payload'', PDict [(PStr ''state'', PInt state)])]"
| "to_wire (SetTitleCommand ctx title target state) =
     PDict [text_field ''event'' ''setTitle'', text_field ''context'' ctx,
       (PStr ''payload'', PDict ([text_field ''title'' title, (PStr ''target'', PInt target)]
          @ state_field state))]"
| "to_wire (SetSettingsCommand ctx settings) =
     PDict [text_field ''event'' ''setSettings'', text_field ''context'' ctx,
       (PStr ''payload'', settings)]"
| "to_wire (GetSettingsCommand ctx) =
     PDict [text_field ''event'' ''getSettings'', text_field ''context'' ctx]"
| "to_wire (SetImageCommand ctx img target state) =
     PDict [text_field ''event'' ''setImage'', text_field ''context'' ctx,
       (PStr ''payload'', PDict ([text_field ''image'' img, (PStr ''target'', PInt target)]
          @ state_field state))]"
| "to_wire (ShowOkCommand ctx) = PDict [text_field ''event'' ''showOk'', text_field ''context'' ctx]"
| "to_wire (ShowAlertCommand ctx) =
     PDict [text_field ''event'' ''showAlert'', text_field ''context'' ctx]"
| "to_wire (OpenUrlCommand url) =
     PDict [text_field ''event'' ''openUrl'', (PStr ''payload'', PDict [text_field ''url'' url])]"
| "to_wire (LogMessageCommand msg) =
     PDict [text_field ''event'' ''logMessage'', (PStr ''payload'', PDict [text_field ''message'' msg])]"
| "to_wire (SetGlobalSettingsCommand ctx settings) =
     PDict [text_field ''event'' ''setGlobalSettings'', text_field ''context'' ctx,
       (PStr ''payload'', settings)]"
| "to_wire (GetGlobalSettingsCommand ctx) =
     PDict [text_field ''event'' ''getGlobalSettings'', text_field ''context'' ctx]"
| "to_wire (CustomCommand v) = v"

abbreviation non_json :: string where
  "non_json \<equiv> ''Stream Dock command contains a non-JSON value''"

text \<open>
  \<open>ValidatedWireMessage.from_owned_payload\<close>: the payload alone is validated and copied; the
  routing fields are strings by the types of the commands.
\<close>

definition from_owned_payload :: "pyval \<Rightarrow> (string \<times> string) list \<Rightarrow> exn + pyval" where
  "from_owned_payload payload routing =
     rbind (reword non_json (clone_json_object payload)) (\<lambda>snapshot.
       Inr (PDict (map (\<lambda>(k, s). text_field k s) routing @ [(PStr ''payload'', snapshot)])))"

fun to_validated_wire :: "command \<Rightarrow> exn + pyval" where
  "to_validated_wire (SendToPropertyInspectorCommand action ctx payload) =
     from_owned_payload payload
       [(''event'', ''sendToPropertyInspector''), (''action'', action), (''context'', ctx)]"
| "to_validated_wire (SetSettingsCommand ctx settings) =
     from_owned_payload settings [(''event'', ''setSettings''), (''context'', ctx)]"
| "to_validated_wire (SetGlobalSettingsCommand ctx settings) =
     from_owned_payload settings [(''event'', ''setGlobalSettings''), (''context'', ctx)]"
| "to_validated_wire c = reword non_json (clone_json_object (to_wire c))"

section \<open>Coalescing keys\<close>

datatype coalescing_class = KSetState | KSetTitle | KSetImage | KSetSettings | KSetGlobalSettings

fun coalescing_key :: "command \<Rightarrow> (coalescing_class \<times> string \<times> int \<times> int option) option" where
  "coalescing_key (SetStateCommand ctx state) = Some (KSetState, ctx, 0, None)"
| "coalescing_key (SetTitleCommand ctx title target state) = Some (KSetTitle, ctx, target, state)"
| "coalescing_key (SetImageCommand ctx img target state) = Some (KSetImage, ctx, target, state)"
| "coalescing_key (SetSettingsCommand ctx settings) = Some (KSetSettings, ctx, 0, None)"
| "coalescing_key (SetGlobalSettingsCommand ctx settings) = Some (KSetGlobalSettings, ctx, 0, None)"
| "coalescing_key _ = None"

section \<open>Properties\<close>

fun has_payload :: "command \<Rightarrow> bool" where
  "has_payload (SendToPropertyInspectorCommand _ _ _) = True"
| "has_payload (SetSettingsCommand _ _) = True"
| "has_payload (SetGlobalSettingsCommand _ _) = True"
| "has_payload _ = False"

fun payload_of :: "command \<Rightarrow> pyval" where
  "payload_of (SendToPropertyInspectorCommand _ _ p) = p"
| "payload_of (SetSettingsCommand _ p) = p"
| "payload_of (SetGlobalSettingsCommand _ p) = p"
| "payload_of _ = PNone"

lemma reword_Inr [simp]: "reword m r = Inr v \<longleftrightarrow> r = Inr v"
  by (auto simp: reword_def split: sum.splits exn.splits)

lemma reword_clone_Inl:
  "reword m (clone_json_object v) = Inl x \<Longrightarrow> x = JsonDepthError \<or> x = ValueError m"
  by (auto simp: reword_def dest: clone_json_object_errors split: sum.splits exn.splits)

lemma from_owned_payload_Inr [simp]:
  "from_owned_payload p routing = Inr w \<longleftrightarrow>
     json_object p \<and> w = PDict (map (\<lambda>(k, s). text_field k s) routing @ [(PStr ''payload'', p)])"
  by (auto simp: from_owned_payload_def rbind_eq_Inr)

text \<open>A chain of nested objects, \<open>n\<close> of them around an integer.\<close>

fun nested :: "nat \<Rightarrow> pyval" where
  "nested 0 = PInt 1"
| "nested (Suc n) = PDict [(PStr ''a'', nested n)]"

lemma nested_json: "is_json_value_at d (nested n) \<longleftrightarrow> n = 0 \<or> n + d \<le> max_json_depth"
  by (induction n arbitrary: d) auto

text \<open>
  What is sent is what \<open>to_wire\<close> describes: validation never changes a command's envelope. It
  succeeds exactly when the command's own payload, or, for a command without one, the whole
  envelope, is a JSON object within the depth limit, and a failure is a depth error or the one
  fixed value error.
\<close>

theorem validated_wire_is_wire:
  "(to_validated_wire c = Inr w \<longleftrightarrow>
      w = to_wire c \<and> json_object (if has_payload c then payload_of c else to_wire c)) \<and>
   (to_validated_wire c = Inl x \<longrightarrow> x = JsonDepthError \<or> x = ValueError non_json)"
  by (cases c) (auto simp: text_field_def from_owned_payload_def rbind_eq_Inl rbind_eq_Inr
      dest: reword_clone_Inl)

lemma validated_wire_is_wire_witness:
  "to_validated_wire (SetTitleCommand ''c'' ''hi'' 0 (Some 1)) =
     Inr (PDict [text_field ''event'' ''setTitle'', text_field ''context'' ''c'',
       (PStr ''payload'', PDict [text_field ''title'' ''hi'', (PStr ''target'', PInt 0),
          (PStr ''state'', PInt 1)])])"
  by (subst validated_wire_is_wire [THEN conjunct1])
    (simp add: text_field_def state_field_def json_object_def is_json_value_def max_json_depth_def)

text \<open>
  A command whose payload is nested to the limit of 64 containers is validated although its
  complete envelope, one container deeper, is not a JSON value within that limit: the two
  validation paths of the command layer differ by one level.
\<close>

theorem payload_envelope_exceeds_depth:
  "to_validated_wire (SetSettingsCommand ctx (nested n)) =
       Inr (to_wire (SetSettingsCommand ctx (nested n))) \<and>
     \<not> is_json_value (to_wire (SetSettingsCommand ctx (nested n))) \<and>
     to_validated_wire (CustomCommand (to_wire (SetSettingsCommand ctx (nested n)))) = Inl JsonDepthError
   \<longleftrightarrow> n = max_json_depth"
proof -
  have wire: "is_json_value_at 0 (to_wire (SetSettingsCommand ctx (nested n))) \<longleftrightarrow>
      n = 0 \<or> Suc n \<le> max_json_depth"
    by (simp add: text_field_def nested_json max_json_depth_def)
  have deep: "clone_json_value d (nested n) = Inl JsonDepthError" if "max_json_depth < n + d" "d \<le> max_json_depth" for d
    using that by (induction n arbitrary: d) (auto simp: max_json_depth_def)
  have obj: "json_object (nested n) \<longleftrightarrow> 0 < n \<and> n \<le> max_json_depth"
    by (cases n) (auto simp: json_object_def is_json_value_def nested_json)
  have "to_validated_wire (CustomCommand (to_wire (SetSettingsCommand ctx (nested n)))) = Inl JsonDepthError"
    if "n = max_json_depth"
    using deep [of 1] that
    by (simp add: reword_def clone_json_object_def text_field_def max_json_depth_def)
  then show ?thesis using wire obj
    by (auto simp: text_field_def is_json_value_def max_json_depth_def)
qed

lemma payload_envelope_exceeds_depth_witness:
  "\<not> is_json_value (to_wire (SetSettingsCommand ''c'' (nested 64)))"
  using payload_envelope_exceeds_depth [of "''c''" 64] by (simp only: max_json_depth_def) simp

end
