(* ===== verification/Completion.thy ===== *)
theory Completion
  imports PyValues
begin

text \<open>
  completion.py: the completion state that the handles of one outbound command share. A step is
  one segment under the control's lock, or the publication of the outcome in the future that
  follows it outside the lock; between the two the command is \<open>terminal\<close> but not yet \<open>done\<close>.
  Time is the reading \<open>now\<close> of the monotonic clock. An abort hook, and the future that a
  persistence handle delegates its cancellation to, are identified by numbers.
\<close>

section \<open>State\<close>

record command_control =
  cc_deadline :: "rat option"
  cc_terminal :: bool
  cc_sending :: bool
  cc_abort :: "nat option"
  cc_cancel :: "nat option"
  cc_outcome :: "exn option option" \<comment> \<open>the result of the future, once published\<close>

definition validate_deadline :: "pyval \<Rightarrow> exn + rat option" where
  "validate_deadline deadline =
     (let message = ''deadline must be a finite monotonic timestamp or None'' in
      case deadline of
        PNone \<Rightarrow> Inr None
      | PInt n \<Rightarrow> (case py_float_of_int n of None \<Rightarrow> Inl OverflowError | Some f \<Rightarrow> Inr (Some f))
      | PFloat (FFinite r) \<Rightarrow> Inr (Some r)
      | _ \<Rightarrow> Inl (ValueError message))"

definition new_control :: "rat option \<Rightarrow> command_control" where
  "new_control deadline = \<lparr>cc_deadline = deadline, cc_terminal = False, cc_sending = False,
     cc_abort = None, cc_cancel = None, cc_outcome = None\<rparr>"

definition deadline_passed :: "rat \<Rightarrow> command_control \<Rightarrow> bool" where
  "deadline_passed now c = (case cc_deadline c of None \<Rightarrow> False | Some d \<Rightarrow> d \<le> now)"

section \<open>Operations\<close>

text \<open>
  The locked part of \<open>_finish\<close>: the error that will be published, and the abort hook to call
  before that.
\<close>

definition control_finish ::
    "exn option \<Rightarrow> rat \<Rightarrow> command_control \<Rightarrow> exn + command_control \<times> exn option \<times> nat option" where
  "control_finish err now c =
     (if cc_terminal c then Inl InvalidStateError
      else
        let err' = (if deadline_passed now c then Some CommandDeadlineExceededError else err);
            abort = (if err' = Some CommandDeadlineExceededError then cc_abort c else None)
        in Inr (c\<lparr>cc_terminal := True, cc_abort := None, cc_cancel := None\<rparr>, err', abort))"

text \<open>\<open>_expire\<close> is \<open>_finish\<close> with the deadline error and \<open>InvalidStateError\<close> swallowed.\<close>

definition control_expire ::
    "rat \<Rightarrow> command_control \<Rightarrow> command_control \<times> (exn option \<times> nat option) option" where
  "control_expire now c =
     (case control_finish (Some CommandDeadlineExceededError) now c of
        Inl _ \<Rightarrow> (c, None)
      | Inr (c', err, abort) \<Rightarrow> (c', Some (err, abort)))"

text \<open>The locked part of \<open>cancel\<close>.\<close>

datatype cancel_result = NotCancelled | Delegated nat | Cancelled

definition control_cancel :: "command_control \<Rightarrow> command_control \<times> cancel_result" where
  "control_cancel c =
     (if cc_terminal c \<or> cc_sending c then (c, NotCancelled)
      else (case cc_cancel c of
          Some d \<Rightarrow> (c, Delegated d)
        | None \<Rightarrow> (c\<lparr>cc_terminal := True\<rparr>, Cancelled)))"

definition control_delegate_cancel :: "nat \<Rightarrow> command_control \<Rightarrow> command_control" where
  "control_delegate_cancel d c = c\<lparr>cc_cancel := Some d\<rparr>"

text \<open>\<open>_start_send\<close> up to its return, or to the expiry it turns into.\<close>

datatype start_result = SendStarted | SendRefused | SendExpired

definition control_start_send :: "nat \<Rightarrow> rat \<Rightarrow> command_control \<Rightarrow> command_control \<times> start_result" where
  "control_start_send abort now c =
     (if cc_terminal c then (c, SendRefused)
      else if \<not> deadline_passed now c then
        (c\<lparr>cc_sending := True, cc_abort := Some abort\<rparr>, SendStarted)
      else (c, SendExpired))"

text \<open>\<open>set_result\<close> and \<open>set_exception\<close> of the future, which raise when it is already done.\<close>

definition control_publish :: "exn option \<Rightarrow> command_control \<Rightarrow> exn + command_control" where
  "control_publish err c =
     (if cc_outcome c \<noteq> None then Inl InvalidStateError else Inr (c\<lparr>cc_outcome := Some err\<rparr>))"

definition command_done :: "command_control \<Rightarrow> bool" where
  "command_done c = (cc_outcome c \<noteq> None)"

text \<open>\<open>cancelled\<close>: the type of the exception decides.\<close>

definition command_cancelled :: "command_control \<Rightarrow> bool" where
  "command_cancelled c = (cc_outcome c = Some (Some CommandCancelledError))"

text \<open>
  One pass of \<open>exception(timeout)\<close>: \<open>depth\<close> is the thread's callback depth, \<open>zero\<close> says that
  the timeout is 0 and \<open>expired\<close> that it has run out; \<open>None\<close> while it waits.
\<close>

definition command_exception ::
    "nat \<Rightarrow> bool \<Rightarrow> bool \<Rightarrow> command_control \<Rightarrow> (exn + exn option) option" where
  "command_exception depth zero expired c =
     (if \<not> zero \<and> \<not> command_done c \<and> 0 < depth then Some (Inl CommandReentrancyError)
      else case cc_outcome c of
          Some err \<Rightarrow> Some (Inr err)
        | None \<Rightarrow> if zero \<or> expired then Some (Inl TimeoutError) else None)"

definition command_wait :: "nat \<Rightarrow> bool \<Rightarrow> bool \<Rightarrow> command_control \<Rightarrow> (exn + bool) option" where
  "command_wait depth zero expired c =
     (case command_exception depth zero expired c of
        None \<Rightarrow> None
      | Some (Inr _) \<Rightarrow> Some (Inr True)
      | Some (Inl TimeoutError) \<Rightarrow> Some (Inr False)
      | Some (Inl e) \<Rightarrow> Some (Inl e))"

definition command_result :: "nat \<Rightarrow> bool \<Rightarrow> bool \<Rightarrow> command_control \<Rightarrow> (exn + unit) option" where
  "command_result depth zero expired c =
     (case command_exception depth zero expired c of
        None \<Rightarrow> None
      | Some (Inl e) \<Rightarrow> Some (Inl e)
      | Some (Inr None) \<Rightarrow> Some (Inr ())
      | Some (Inr (Some e)) \<Rightarrow> Some (Inl e))"

section \<open>One command and its threads\<close>

text \<open>
  The control with the publications that threads owe it and the abort hooks called so far. A step
  whose segment ends the command leaves its publication to a later step of the same thread.
\<close>

record command_system =
  cs_control :: command_control
  cs_owed :: "exn option list"
  cs_aborts :: "nat list"

datatype command_op =
    Finish "exn option" rat
  | Expire rat
  | Cancel
  | StartSend nat rat
  | Publish nat

definition owe :: "exn option \<Rightarrow> nat option \<Rightarrow> command_system \<Rightarrow> command_system" where
  "owe err abort s =
     s\<lparr>cs_owed := cs_owed s @ [err],
       cs_aborts := cs_aborts s @ (case abort of None \<Rightarrow> [] | Some a \<Rightarrow> [a])\<rparr>"

definition expire_step :: "rat \<Rightarrow> command_system \<Rightarrow> command_system" where
  "expire_step now s =
     (case control_expire now (cs_control s) of
        (c, None) \<Rightarrow> s
      | (c, Some (err, abort)) \<Rightarrow> owe err abort (s\<lparr>cs_control := c\<rparr>))"

fun command_step :: "command_op \<Rightarrow> command_system \<Rightarrow> command_system" where
  "command_step (Finish err now) s =
     (case control_finish err now (cs_control s) of
        Inl _ \<Rightarrow> s
      | Inr (c, err', abort) \<Rightarrow> owe err' abort (s\<lparr>cs_control := c\<rparr>))"
| "command_step (Expire now) s = expire_step now s"
| "command_step Cancel s =
     (case control_cancel (cs_control s) of
        (c, Cancelled) \<Rightarrow> owe (Some CommandCancelledError) None (s\<lparr>cs_control := c\<rparr>)
      | (c, _) \<Rightarrow> s\<lparr>cs_control := c\<rparr>)"
| "command_step (StartSend a now) s =
     (case control_start_send a now (cs_control s) of
        (c, SendExpired) \<Rightarrow> expire_step now (s\<lparr>cs_control := c\<rparr>)
      | (c, _) \<Rightarrow> s\<lparr>cs_control := c\<rparr>)"
| "command_step (Publish k) s =
     (if k < length (cs_owed s) then
        (case control_publish (cs_owed s ! k) (cs_control s) of
           Inl _ \<Rightarrow> s\<lparr>cs_owed := del_at k (cs_owed s)\<rparr>
         | Inr c \<Rightarrow> s\<lparr>cs_control := c, cs_owed := del_at k (cs_owed s)\<rparr>)
      else s)"

text \<open>
  At most one publication is owed or made: a terminal command has exactly one, a command that is
  not terminal none. Hence no publication ever fails. At most one hook is called.
\<close>

definition command_ok :: "command_system \<Rightarrow> bool" where
  "command_ok s \<longleftrightarrow> (let c = cs_control s in
     length (cs_owed s) + (if cc_outcome c = None then 0 else 1) = (if cc_terminal c then 1 else 0) \<and>
     length (cs_aborts s) + (if cc_abort c = None then 0 else 1) \<le> 1 \<and>
     (cc_abort c \<noteq> None \<longrightarrow> cc_sending c \<and> \<not> cc_terminal c) \<and>
     (cs_aborts s \<noteq> [] \<longrightarrow> cc_terminal c \<and> cc_sending c \<and>
        (cs_owed s = [Some CommandDeadlineExceededError] \<or>
         cc_outcome c = Some (Some CommandDeadlineExceededError))))"

lemma command_ok_step: "command_ok s \<Longrightarrow> command_ok (command_step op s)"
proof -
  assume ok: "command_ok s"
  have expire: "command_ok (expire_step now s)" for now
    using ok by (auto simp: command_ok_def expire_step_def control_expire_def control_finish_def owe_def Let_def
        split: sum.splits option.splits if_splits)
  have refused: "fst (control_start_send a now c) = c"
    if "snd (control_start_send a now c) \<noteq> SendStarted" for a now c
    using that by (auto simp: control_start_send_def split: if_splits)
  show ?thesis
  proof (cases op)
    case (Finish err now)
    then show ?thesis using ok
      by (auto simp: command_ok_def control_finish_def owe_def Let_def split: option.splits if_splits)
  next
    case (Expire now)
    then show ?thesis using expire by simp
  next
    case Cancel
    then show ?thesis using ok
      by (auto simp: command_ok_def control_cancel_def owe_def Let_def split: option.splits if_splits)
  next
    case (StartSend a now)
    show ?thesis
    proof (cases "control_start_send a now (cs_control s)")
      case (Pair c r)
      show ?thesis
      proof (cases r)
        case SendStarted
        then show ?thesis using ok StartSend Pair
          by (auto simp: command_ok_def control_start_send_def Let_def split: if_splits)
      next
        case SendRefused
        then show ?thesis using ok StartSend Pair refused [of a now "cs_control s"] by simp
      next
        case SendExpired
        then show ?thesis using StartSend Pair refused [of a now "cs_control s"] expire [of now] by simp
      qed
    qed
  next
    case (Publish k)
    then show ?thesis using ok
      by (auto simp: command_ok_def control_publish_def Let_def split: if_splits)
  qed
qed


definition command_outcome_is :: "exn option \<Rightarrow> command_system \<Rightarrow> bool" where
  "command_outcome_is err s \<longleftrightarrow>
     cc_terminal (cs_control s) \<and> (cs_owed s = [err] \<or> cc_outcome (cs_control s) = Some err)"

definition command_terminal :: "command_system \<Rightarrow> bool" where
  "command_terminal s \<longleftrightarrow> cc_terminal (cs_control s)"

definition command_sending :: "command_system \<Rightarrow> bool" where
  "command_sending s \<longleftrightarrow> cc_sending (cs_control s)"

lemmas control_defs = control_finish_def control_expire_def control_cancel_def
  control_start_send_def control_publish_def expire_step_def owe_def

lemma command_terminal_step: "command_terminal s \<Longrightarrow> command_terminal (command_step op s)"
  by (cases op) (auto simp: command_terminal_def control_defs Let_def split: option.splits)

lemma command_sending_step: "command_sending s \<Longrightarrow> command_sending (command_step op s)"
  by (cases op) (auto simp: command_sending_def control_defs Let_def split: option.splits)

lemma command_outcome_step:
  "command_ok s \<Longrightarrow> command_outcome_is err s \<Longrightarrow> command_outcome_is err (command_step op s)"
  by (cases op) (auto simp: command_ok_def command_outcome_is_def control_defs Let_def del_at_def
      split: option.splits if_splits)

interpretation command: invariant_machine command_step command_ok
  by unfold_locales (rule command_ok_step)

interpretation terminal: latch_machine command_step command_ok command_terminal
  by unfold_locales (rule command_terminal_step)

interpretation sending: latch_machine command_step command_ok command_sending
  by unfold_locales (rule command_sending_step)

interpretation outcome: latch_machine command_step command_ok "command_outcome_is err" for err
  by unfold_locales (rule command_outcome_step)

definition new_command :: "rat option \<Rightarrow> command_system" where
  "new_command deadline = \<lparr>cs_control = new_control deadline, cs_owed = [], cs_aborts = []\<rparr>"

lemma new_command_ok: "command_ok (new_command deadline)"
  by (simp add: new_command_def command_ok_def new_control_def)

section \<open>Properties\<close>

text \<open>
  C8. A command has one outcome: after any interleaving of completions, expiries, cancellations, send
  attempts and publications, a terminal command has published its outcome or owes exactly one
  publication, and that publication cannot fail; the outcome it ends with is the one decided when
  it became terminal, whatever happens later. The abort hook of a send runs at most once, and
  only for a command that ends with the deadline error.
\<close>

theorem command_settles_once:
  assumes "s = fold command_step ops (new_command deadline)"
  shows "length (cs_owed s) + (if command_done (cs_control s) then 1 else 0)
      = (if cc_terminal (cs_control s) then 1 else 0) \<and>
    (\<forall>err \<in> set (cs_owed s). \<exists>c. control_publish err (cs_control s) = Inr c) \<and>
    (command_outcome_is err s \<longrightarrow> command_outcome_is err (fold command_step later s)) \<and>
    length (cs_aborts s) \<le> 1 \<and>
    (cs_aborts s \<noteq> [] \<longrightarrow> command_outcome_is (Some CommandDeadlineExceededError) s)"
proof -
  have ok: "command_ok s" unfolding assms by (rule command.inv_run [OF new_command_ok])
  have "command_outcome_is err s \<longrightarrow> command_outcome_is err (fold command_step later s)"
    using outcome.latched_run [OF ok] by blast
  moreover have "\<exists>c. control_publish e (cs_control s) = Inr c" if "e \<in> set (cs_owed s)" for e
    using ok that by (cases "cs_owed s") (auto simp: command_ok_def control_publish_def Let_def split: if_splits)
  ultimately show ?thesis using ok
    by (auto simp: command_ok_def command_done_def command_outcome_is_def Let_def split: if_splits)
qed

lemma command_settles_once_witness:
  "command_outcome_is (Some CommandCancelledError)
     (fold command_step [Finish None 3, StartSend 1 4, Publish 0, Cancel]
        (fold command_step [Cancel] (new_command (Some 9))))"
proof -
  have "command_outcome_is (Some CommandCancelledError) (fold command_step [Cancel] (new_command (Some 9)))"
    by (simp add: command_outcome_is_def new_command_def new_control_def control_cancel_def owe_def)
  then show ?thesis using command_settles_once [OF refl] by blast
qed

text \<open>
  C7. Cancellation and sending exclude each other: after a successful \<open>cancel\<close> no later attempt starts a
  send, and after a started send no later \<open>cancel\<close> succeeds.
\<close>

theorem cancel_excludes_send:
  assumes "command_ok s"
  shows "(snd (control_cancel (cs_control s)) = Cancelled \<longrightarrow>
      snd (control_start_send a now (cs_control (fold command_step (Cancel # ops) s))) = SendRefused) \<and>
    (snd (control_start_send a now (cs_control s)) = SendStarted \<longrightarrow>
      snd (control_cancel (cs_control (fold command_step (StartSend a now # ops) s))) = NotCancelled)"
proof (intro conjI impI)
  assume "snd (control_cancel (cs_control s)) = Cancelled"
  then have "command_terminal (command_step Cancel s)"
    by (auto simp: command_terminal_def control_cancel_def owe_def split: if_splits option.splits)
  from terminal.latched_run [OF command_ok_step [OF assms] this, of ops]
  show "snd (control_start_send a now (cs_control (fold command_step (Cancel # ops) s))) = SendRefused"
    by (simp add: command_terminal_def control_start_send_def)
next
  assume "snd (control_start_send a now (cs_control s)) = SendStarted"
  then have "command_sending (command_step (StartSend a now) s)"
    by (auto simp: command_sending_def control_start_send_def split: if_splits)
  from sending.latched_run [OF command_ok_step [OF assms] this, of ops]
  show "snd (control_cancel (cs_control (fold command_step (StartSend a now # ops) s))) = NotCancelled"
    by (simp add: command_sending_def control_cancel_def)
qed

lemma cancel_excludes_send_witness:
  "snd (control_cancel (cs_control (fold command_step [StartSend 1 4] (new_command (Some 9))))) = NotCancelled"
proof -
  have "snd (control_start_send 1 4 (cs_control (new_command (Some 9)))) = SendStarted"
    by (simp add: new_command_def new_control_def control_start_send_def deadline_passed_def)
  with cancel_excludes_send [OF new_command_ok] show ?thesis by blast
qed

text \<open>
  The deadline wins: a command that is finished at or after its deadline, successfully or not, ends
  with the deadline error for every later observer, and the hook of a send that has begun is called.
\<close>

theorem deadline_wins:
  assumes "command_ok s" "\<not> cc_terminal (cs_control s)" "deadline_passed now (cs_control s)"
  shows "command_outcome_is (Some CommandDeadlineExceededError)
      (fold command_step (Finish err now # ops) s) \<and>
    cs_aborts (command_step (Finish err now) s)
      = (case cc_abort (cs_control s) of None \<Rightarrow> [] | Some a \<Rightarrow> [a])"
proof -
  let ?s = "command_step (Finish err now) s"
  have "cs_owed s = []" "cs_aborts s = []"
    using assms(1,2) by (auto simp: command_ok_def Let_def split: if_splits)
  then have "command_outcome_is (Some CommandDeadlineExceededError) ?s"
    "cs_aborts ?s = (case cc_abort (cs_control s) of None \<Rightarrow> [] | Some a \<Rightarrow> [a])"
    using assms(2,3) by (simp_all add: command_outcome_is_def control_finish_def owe_def)
  with outcome.latched_run [OF command_ok_step [OF assms(1)], of _ "Finish err now" ops]
  show ?thesis by simp
qed

lemma deadline_wins_witness:
  "cs_aborts (command_step (Finish None 9) (command_step (StartSend 5 4) (new_command (Some 9)))) = [5]"
proof -
  let ?s = "command_step (StartSend 5 4) (new_command (Some 9))"
  have c: "cs_control ?s = \<lparr>cc_deadline = Some 9, cc_terminal = False, cc_sending = True,
      cc_abort = Some 5, cc_cancel = None, cc_outcome = None\<rparr>"
    by (simp add: new_command_def new_control_def control_start_send_def deadline_passed_def)
  then show ?thesis
    using deadline_wins [OF command_ok_step [OF new_command_ok], of "StartSend 5 4" "Some 9" 9 None "[]"]
    by (simp add: deadline_passed_def)
qed

end
