(* ===== verification/OutboundQueue.thy ===== *)
theory OutboundQueue
  imports Commands Completion
begin

text \<open>
  messaging/outbound.py: the bounded FIFO of accepted commands, its coalescing and its deadline
  watcher, and the sink that is open only while the writer runs. A command's completion is a
  number; the operations take what they read of its control. \<open>rsz c limit\<close> stands for
  \<open>retained_size(c, limit)\<close>. A segment runs under the queue's condition lock.
\<close>

section \<open>State\<close>

record queued_command =
  qc_command :: command
  qc_completion :: nat
  qc_size :: nat
  qc_deadline :: "rat option"

text \<open>
  \<open>oq_queued\<close> holds the keys of \<open>_queued\<close> (its values are the queue's entries), \<open>oq_deadlines\<close> the
  dict in insertion order, \<open>oq_watcher\<close> whether the deadline thread runs.
\<close>

record outbound_queue =
  oq_queue_limit :: nat
  oq_coalesce :: bool
  oq_byte_limit :: nat
  oq_queue :: "queued_command list"
  oq_queued :: "nat list"
  oq_deadlines :: "(nat \<times> rat) list"
  oq_watcher :: bool
  oq_accepting :: bool
  oq_peak_depth :: nat
  oq_submitted :: nat
  oq_enqueued :: nat
  oq_coalesced :: nat
  oq_dequeued :: nat
  oq_rejected_full :: nat
  oq_rejected_after_shutdown :: nat
  oq_discarded_during_shutdown :: nat
  oq_current_bytes :: int
  oq_peak_bytes :: int
  oq_rejected_oversized :: nat
  oq_next_completion :: nat

definition new_outbound_queue :: "nat \<Rightarrow> bool \<Rightarrow> nat \<Rightarrow> exn + outbound_queue" where
  "new_outbound_queue queue_limit coalesce_commands byte_limit =
     (if queue_limit = 0 then Inl (ValueError ''queue_limit must be a positive integer'')
      else if byte_limit = 0 then Inl (ValueError ''byte_limit must be a positive integer'')
      else Inr \<lparr>oq_queue_limit = queue_limit, oq_coalesce = coalesce_commands,
        oq_byte_limit = byte_limit, oq_queue = [], oq_queued = [], oq_deadlines = [],
        oq_watcher = False, oq_accepting = True, oq_peak_depth = 0, oq_submitted = 0,
        oq_enqueued = 0, oq_coalesced = 0, oq_dequeued = 0, oq_rejected_full = 0,
        oq_rejected_after_shutdown = 0, oq_discarded_during_shutdown = 0, oq_current_bytes = 0,
        oq_peak_bytes = 0, oq_rejected_oversized = 0, oq_next_completion = 0\<rparr>)"

section \<open>Operations\<close>

text \<open>\<open>_coalesce\<close>; \<open>terminal\<close> is the \<open>terminal\<close> flag of the last command's control.\<close>

definition coalesce_command ::
    "command \<Rightarrow> nat \<Rightarrow> bool \<Rightarrow> outbound_queue \<Rightarrow> (outbound_queue \<times> nat) option" where
  "coalesce_command c sz terminal q =
     (if \<not> oq_coalesce q \<or> oq_queue q = [] then None
      else
        let queued = last (oq_queue q);
            replacement_bytes = oq_current_bytes q - int (qc_size queued) + int sz
        in if qc_deadline queued \<noteq> None then None
           else if coalescing_key c = None \<or> coalescing_key c \<noteq> coalescing_key (qc_command queued)
           then None
           else if int (oq_byte_limit q) < replacement_bytes then None
           else if terminal then None
           else Some (q\<lparr>oq_queue := butlast (oq_queue q) @ [queued\<lparr>qc_command := c, qc_size := sz\<rparr>],
                  oq_current_bytes := replacement_bytes,
                  oq_peak_bytes := max (oq_peak_bytes q) replacement_bytes\<rparr>, qc_completion queued))"

text \<open>
  The acceptance of a command as \<open>completion\<close>, the last number handed out. The writes to the fields
  that a failed start of the thread undoes are made after it here.
\<close>

definition enqueue_command ::
    "command \<Rightarrow> nat \<Rightarrow> rat option \<Rightarrow> outbound_queue \<Rightarrow> outbound_queue \<times> (exn + nat)" where
  "enqueue_command c sz deadline q =
     (let completion = oq_next_completion q - 1;
          queue = oq_queue q @ [\<lparr>qc_command = c, qc_completion = completion,
                qc_size = sz, qc_deadline = deadline\<rparr>];
          bytes = oq_current_bytes q + int sz
      in (q\<lparr>oq_queue := queue, oq_queued := oq_queued q @ [completion],
            oq_deadlines := oq_deadlines q
              @ (case deadline of None \<Rightarrow> [] | Some d \<Rightarrow> [(completion, d)]),
            oq_watcher := oq_watcher q \<or> deadline \<noteq> None,
            oq_current_bytes := bytes, oq_peak_bytes := max (oq_peak_bytes q) bytes,
            oq_enqueued := Suc (oq_enqueued q),
            oq_peak_depth := max (oq_peak_depth q) (length queue)\<rparr>,
          Inr completion))"

text \<open>
  \<open>send_async\<close> after the validation of the deadline. \<open>thread_starts\<close>: whether the deadline thread can
  be started, when it has to be.
\<close>

definition send_locked ::
    "(command \<Rightarrow> nat \<Rightarrow> nat) \<Rightarrow> command \<Rightarrow> rat option \<Rightarrow> bool \<Rightarrow> bool \<Rightarrow> outbound_queue
      \<Rightarrow> outbound_queue \<times> (exn + nat)" where
  "send_locked rsz c deadline terminal thread_starts q0 =
     (let q = q0\<lparr>oq_submitted := Suc (oq_submitted q0)\<rparr>; sz = rsz c (oq_byte_limit q) in
      if \<not> oq_accepting q then
        (q\<lparr>oq_rejected_after_shutdown := Suc (oq_rejected_after_shutdown q)\<rparr>, Inl QueueClosedError)
      else if oq_byte_limit q < sz then
        (q\<lparr>oq_rejected_oversized := Suc (oq_rejected_oversized q)\<rparr>, Inl QueueFullError)
      else (case (if deadline = None then coalesce_command c sz terminal q else None) of
          Some (q', completion) \<Rightarrow> (q'\<lparr>oq_coalesced := Suc (oq_coalesced q')\<rparr>, Inr completion)
        | None \<Rightarrow>
            if oq_queue_limit q \<le> length (oq_queue q)
               \<or> int (oq_byte_limit q) < oq_current_bytes q + int sz
            then (q\<lparr>oq_rejected_full := Suc (oq_rejected_full q)\<rparr>, Inl QueueFullError)
            else
              let q1 = q\<lparr>oq_next_completion := Suc (oq_next_completion q)\<rparr>
              in if deadline \<noteq> None \<and> \<not> oq_watcher q \<and> \<not> thread_starts
                 then (q1, Inl (RuntimeError ''can't start new thread''))
                 else enqueue_command c sz deadline q1))"

definition send_async ::
    "(command \<Rightarrow> nat \<Rightarrow> nat) \<Rightarrow> command \<Rightarrow> pyval \<Rightarrow> bool \<Rightarrow> bool \<Rightarrow> outbound_queue
      \<Rightarrow> outbound_queue \<times> (exn + nat)" where
  "send_async rsz c deadline terminal thread_starts q =
     (case validate_deadline deadline of
        Inl e \<Rightarrow> (q, Inl e)
      | Inr d \<Rightarrow> send_locked rsz c d terminal thread_starts q)"

datatype outbound_receive = Command queued_command | OutboundRaised exn | OutboundWaiting

definition outbound_receive_attempt :: "bool \<Rightarrow> outbound_queue \<Rightarrow> outbound_queue \<times> outbound_receive" where
  "outbound_receive_attempt expired q =
     (case oq_queue q of
        [] \<Rightarrow> (q, if \<not> oq_accepting q then OutboundRaised QueueClosedError
                else if expired then OutboundRaised TimeoutError else OutboundWaiting)
      | queued # rest \<Rightarrow>
          (q\<lparr>oq_queue := rest, oq_queued := remove1 (qc_completion queued) (oq_queued q),
             oq_current_bytes := oq_current_bytes q - int (qc_size queued),
             oq_dequeued := Suc (oq_dequeued q)\<rparr>, Command queued))"

text \<open>\<open>_command_finished\<close>, the callback of every enqueued command's completion.\<close>

definition command_finished :: "nat \<Rightarrow> outbound_queue \<Rightarrow> outbound_queue" where
  "command_finished completion q =
     (let q1 = (if completion \<in> set (oq_queued q) then
            (case index_where (\<lambda>i. qc_completion i = completion) (oq_queue q) of
               None \<Rightarrow> q\<lparr>oq_queued := remove1 completion (oq_queued q)\<rparr>
             | Some k \<Rightarrow> q\<lparr>oq_queued := remove1 completion (oq_queued q),
                   oq_queue := del_at k (oq_queue q),
                   oq_current_bytes := oq_current_bytes q - int (qc_size (oq_queue q ! k))\<rparr>)
          else q)
      in q1\<lparr>oq_deadlines := filter (\<lambda>(i, d). i \<noteq> completion) (oq_deadlines q1)\<rparr>)"

text \<open>One pass of \<open>_watch_deadlines\<close>: the command to expire outside the lock, the end, or a wait.\<close>

datatype watch_result = WatchEnds | WatchWaits | WatchExpires nat

fun earliest :: "(nat \<times> rat) list \<Rightarrow> nat \<times> rat" where
  "earliest [x] = x"
| "earliest (x # y # xs) = (let m = earliest (y # xs) in if snd m < snd x then m else x)"
| "earliest [] = (0, 0)"

definition watch_deadlines :: "rat \<Rightarrow> outbound_queue \<Rightarrow> outbound_queue \<times> watch_result" where
  "watch_deadlines now q =
     (if oq_deadlines q = [] then (q\<lparr>oq_watcher := False\<rparr>, WatchEnds)
      else let (completion, deadline) = earliest (oq_deadlines q)
           in if now < deadline then (q, WatchWaits)
              else (q\<lparr>oq_deadlines := filter (\<lambda>(i, d). i \<noteq> completion) (oq_deadlines q)\<rparr>,
                    WatchExpires completion))"

definition outbound_stop_accepting :: "outbound_queue \<Rightarrow> outbound_queue" where
  "outbound_stop_accepting q = q\<lparr>oq_accepting := False\<rparr>"

definition outbound_drain_attempt :: "bool \<Rightarrow> outbound_queue \<Rightarrow> bool option" where
  "outbound_drain_attempt expired q =
     (if oq_queue q \<noteq> [] then (if expired then Some False else None) else Some True)"

definition outbound_shutdown_clear :: "outbound_queue \<Rightarrow> outbound_queue \<times> nat list" where
  "outbound_shutdown_clear q =
     (q\<lparr>oq_discarded_during_shutdown := oq_discarded_during_shutdown q + length (oq_queue q),
        oq_queue := [],
        oq_queued := fold remove1 (map qc_completion (oq_queue q)) (oq_queued q),
        oq_current_bytes := 0\<rparr>, map qc_completion (oq_queue q))"

section \<open>The sink that waits for the writer\<close>

datatype sink_state = SinkCreated | SinkStarting | SinkReady | SinkStopping | SinkClosed

definition sink_begin_starting :: "sink_state \<Rightarrow> sink_state" where
  "sink_begin_starting s = (if s = SinkCreated then SinkStarting else s)"

definition sink_mark_ready :: "sink_state \<Rightarrow> sink_state" where
  "sink_mark_ready s = (if s = SinkStarting then SinkReady else s)"

definition sink_begin_stopping :: "sink_state \<Rightarrow> sink_state" where
  "sink_begin_stopping s = (if s \<noteq> SinkClosed then SinkStopping else s)"

definition sink_mark_closed :: "sink_state \<Rightarrow> sink_state" where
  "sink_mark_closed s = SinkClosed"

text \<open>\<open>send_async\<close> of the sink: the queue is reached in every state but the first two.\<close>

definition sink_send_async ::
    "(command \<Rightarrow> nat \<Rightarrow> nat) \<Rightarrow> command \<Rightarrow> pyval \<Rightarrow> bool \<Rightarrow> bool \<Rightarrow> sink_state \<Rightarrow> outbound_queue
      \<Rightarrow> outbound_queue \<times> (exn + nat)" where
  "sink_send_async rsz c deadline terminal thread_starts state q =
     (if state = SinkCreated \<or> state = SinkStarting then (q, Inl CommandBusNotReadyError)
      else send_async rsz c deadline terminal thread_starts q)"

section \<open>Invariant\<close>

definition outbound_ok :: "nat \<Rightarrow> nat \<Rightarrow> outbound_queue \<Rightarrow> bool" where
  "outbound_ok limit bytes q \<longleftrightarrow>
     oq_queue_limit q = limit \<and> oq_byte_limit q = bytes \<and>
     length (oq_queue q) \<le> oq_peak_depth q \<and> oq_peak_depth q \<le> limit \<and>
     oq_current_bytes q = int (sum_list (map qc_size (oq_queue q))) \<and>
     oq_current_bytes q \<le> oq_peak_bytes q \<and> oq_peak_bytes q \<le> int bytes \<and>
     oq_queued q = map qc_completion (oq_queue q) \<and> distinct (map qc_completion (oq_queue q)) \<and>
     distinct (map fst (oq_deadlines q)) \<and>
     (\<forall>i \<in> set (oq_queue q). qc_completion i < oq_next_completion q) \<and>
     (\<forall>(i, d) \<in> set (oq_deadlines q). i < oq_next_completion q)"

lemma coalesce_commandE:
  assumes "coalesce_command c sz terminal q = Some (q', completion)"
  obtains us i key where "oq_queue q = us @ [i]" "qc_deadline i = None" "\<not> terminal" "oq_coalesce q"
    "coalescing_key c = Some key" "coalescing_key (qc_command i) = Some key"
    "oq_current_bytes q - int (qc_size i) + int sz \<le> int (oq_byte_limit q)"
    "completion = qc_completion i"
    "q' = (let b = oq_current_bytes q - int (qc_size i) + int sz
           in q\<lparr>oq_queue := us @ [i\<lparr>qc_command := c, qc_size := sz\<rparr>], oq_current_bytes := b,
                oq_peak_bytes := max (oq_peak_bytes q) b\<rparr>)"
proof (cases "oq_queue q" rule: rev_cases)
  case Nil
  then show ?thesis using assms by (simp add: coalesce_command_def)
next
  case (snoc us i)
  obtain k where k: "coalescing_key c = Some k"
    using assms snoc by (cases "coalescing_key c") (auto simp: coalesce_command_def Let_def split: if_splits)
  from assms snoc k have "oq_coalesce q" "qc_deadline i = None" "\<not> terminal"
    and "coalescing_key (qc_command i) = Some k"
    and "oq_current_bytes q - int (qc_size i) + int sz \<le> int (oq_byte_limit q)"
    and "completion = qc_completion i"
    and "q' = (let b = oq_current_bytes q - int (qc_size i) + int sz
           in q\<lparr>oq_queue := us @ [i\<lparr>qc_command := c, qc_size := sz\<rparr>], oq_current_bytes := b,
                oq_peak_bytes := max (oq_peak_bytes q) b\<rparr>)"
    by (auto simp: coalesce_command_def Let_def split: if_splits)
  then show ?thesis using snoc k that by simp
qed

lemma outbound_ok_coalesce:
  assumes "outbound_ok l b q" "coalesce_command c sz terminal q = Some (q', completion)"
  shows "outbound_ok l b q'"
  using assms(2) by (rule coalesce_commandE) (use assms(1) in \<open>auto simp: outbound_ok_def Let_def\<close>)

lemma outbound_ok_counters:
  "outbound_ok l b (q\<lparr>oq_rejected_after_shutdown := n\<rparr>) = outbound_ok l b q"
  "outbound_ok l b (q\<lparr>oq_rejected_oversized := n\<rparr>) = outbound_ok l b q"
  "outbound_ok l b (q\<lparr>oq_rejected_full := n\<rparr>) = outbound_ok l b q"
  "outbound_ok l b (q\<lparr>oq_coalesced := n\<rparr>) = outbound_ok l b q"
  by (simp_all add: outbound_ok_def)

lemma outbound_ok_send:
  assumes ok: "outbound_ok l b q"
  shows "outbound_ok l b (fst (send_locked rsz c deadline terminal starts q))"
proof -
  let ?q = "q\<lparr>oq_submitted := Suc (oq_submitted q)\<rparr>"
  have ok1: "outbound_ok l b ?q" using ok by (simp add: outbound_ok_def)
  have coal: "outbound_ok l b (q'\<lparr>oq_coalesced := n\<rparr>)"
    if "coalesce_command c sz terminal ?q = Some (q', d)" for sz q' d n
    using outbound_ok_coalesce [OF ok1 that] by (simp add: outbound_ok_def)
  have "\<forall>i \<in> set (oq_queue q). qc_completion i < Suc (oq_next_completion q)"
    "\<forall>(i, d) \<in> set (oq_deadlines q). i < Suc (oq_next_completion q)"
    using ok by (auto simp: outbound_ok_def less_Suc_eq)
  moreover have "oq_next_completion q \<notin> qc_completion ` set (oq_queue q)" "oq_next_completion q \<notin> fst ` set (oq_deadlines q)"
    using ok by (auto simp: outbound_ok_def)
  ultimately have enqueue: "outbound_ok l b (fst (enqueue_command c sz d q1))"
    if "\<not> (l \<le> length (oq_queue q) \<or> int b < oq_current_bytes q + int sz)"
      and "q1 = ?q\<lparr>oq_next_completion := Suc (oq_next_completion q)\<rparr>" for sz d q1
    using that ok by (cases d) (auto simp: outbound_ok_def enqueue_command_def Let_def)
  have "outbound_ok l b (?q\<lparr>oq_next_completion := Suc (oq_next_completion q)\<rparr>)"
    using ok by (auto simp: outbound_ok_def less_Suc_eq)
  moreover have lims: "oq_queue_limit q = l" "oq_byte_limit q = b" using ok by (auto simp: outbound_ok_def)
  ultimately show ?thesis using ok1 coal enqueue
    by (auto simp: send_locked_def Let_def outbound_ok_counters split: option.splits)
qed


lemma outbound_ok_receive:
  "outbound_ok l b q \<Longrightarrow> outbound_ok l b (fst (outbound_receive_attempt x q))"
  by (auto simp: outbound_receive_attempt_def outbound_ok_def split: list.splits)

lemma del_at_map: "map f (del_at k xs) = del_at k (map f xs)"
  by (simp add: del_at_def take_map drop_map)

lemma remove1_first:
  "index_where (\<lambda>i. f i = c) xs = Some k \<Longrightarrow> remove1 c (map f xs) = del_at k (map f xs)"
proof (induction xs arbitrary: k)
  case (Cons x xs)
  show ?case
  proof (cases "f x = c")
    case True
    then show ?thesis using Cons.prems by (auto simp: del_at_def)
  next
    case False
    with Cons.prems obtain j where "index_where (\<lambda>i. f i = c) xs = Some j" "k = Suc j" by auto
    with Cons.IH False show ?thesis by (simp add: del_at_def)
  qed
qed simp

lemma filter_unique:
  "distinct (map f xs) \<Longrightarrow> index_where (\<lambda>i. f i = c) xs = Some k \<Longrightarrow>
     del_at k xs = filter (\<lambda>i. f i \<noteq> c) xs"
proof (induction xs arbitrary: k)
  case (Cons x xs)
  show ?case
  proof (cases "f x = c")
    case True
    then have "\<forall>i \<in> set xs. f i \<noteq> c" using Cons.prems(1)
      by (metis distinct.simps(2) image_eqI list.set_map list.simps(9))
    then show ?thesis using Cons.prems True by (auto simp: del_at_def filter_id_conv)
  next
    case False
    with Cons.prems obtain j where "index_where (\<lambda>i. f i = c) xs = Some j" "k = Suc j" by auto
    with Cons False show ?thesis by (simp add: del_at_def)
  qed
qed simp

lemma command_finished_queue:
  assumes "outbound_ok l b q"
  shows "oq_queue (command_finished completion q) =
      filter (\<lambda>i. qc_completion i \<noteq> completion) (oq_queue q)"
    "outbound_ok l b (command_finished completion q)"
    "oq_deadlines (command_finished completion q) = filter (\<lambda>(i, d). i \<noteq> completion) (oq_deadlines q)"
proof -
  let ?f = "\<lambda>i. qc_completion i = completion"
  have queued: "oq_queued q = map qc_completion (oq_queue q)" and
    dist: "distinct (map qc_completion (oq_queue q))"
    using assms by (auto simp: outbound_ok_def)
  have dl: "distinct (map fst (filter P (oq_deadlines q)))" for P
    using assms by (auto simp: outbound_ok_def distinct_map_filter)
  show "oq_deadlines (command_finished completion q) = filter (\<lambda>(i, d). i \<noteq> completion) (oq_deadlines q)"
    by (auto simp: command_finished_def Let_def split: option.splits)
  show "oq_queue (command_finished completion q) =
      filter (\<lambda>i. qc_completion i \<noteq> completion) (oq_queue q)"
    "outbound_ok l b (command_finished completion q)"
  proof (atomize (full), cases "index_where ?f (oq_queue q)")
    case None
    then have none: "\<forall>i \<in> set (oq_queue q). qc_completion i \<noteq> completion" by simp
    then have "completion \<notin> set (oq_queued q)" by (auto simp: queued)
    with none assms dl show "oq_queue (command_finished completion q) =
        filter (\<lambda>i. qc_completion i \<noteq> completion) (oq_queue q) \<and>
      outbound_ok l b (command_finished completion q)"
      by (auto simp: command_finished_def Let_def outbound_ok_def filter_id_conv)
  next
    case (Some k)
    note k = index_where_Some [OF Some]
    then have "completion \<in> set (oq_queued q)" using queued by (metis image_eqI list.set_map nth_mem)
    moreover have "sum_list (map qc_size (oq_queue q)) =
        sum_list (map qc_size (del_at k (oq_queue q))) + qc_size (oq_queue q ! k)"
      using k by (intro sum_list_del_at) simp
    moreover have "distinct (map qc_completion (filter P (oq_queue q)))" for P
      using dist by (rule distinct_map_filter)
    ultimately show "oq_queue (command_finished completion q) =
        filter (\<lambda>i. qc_completion i \<noteq> completion) (oq_queue q) \<and>
      outbound_ok l b (command_finished completion q)"
      using assms k dl remove1_first [OF Some] filter_unique [OF dist Some]
      by (auto simp: command_finished_def Let_def outbound_ok_def Some queued simp flip: del_at_map
          intro: le_trans [OF length_filter_le])
  qed
qed

lemma outbound_ok_watch: "outbound_ok l b q \<Longrightarrow> outbound_ok l b (fst (watch_deadlines now q))"
  by (auto simp: watch_deadlines_def outbound_ok_def Let_def distinct_map_filter split: prod.splits)

lemma fold_remove1_self: "fold remove1 xs xs = []"
  by (induction xs) auto

lemma outbound_ok_clear: "outbound_ok l b q \<Longrightarrow> outbound_ok l b (fst (outbound_shutdown_clear q))"
  by (auto simp: outbound_shutdown_clear_def outbound_ok_def fold_remove1_self)

section \<open>The queue and its threads\<close>

datatype outbound_op =
    OSend command "rat option" bool bool
  | OReceive bool
  | OFinished nat
  | OWatch rat
  | OStop
  | OClear

fun outbound_step :: "(command \<Rightarrow> nat \<Rightarrow> nat) \<Rightarrow> outbound_op \<Rightarrow> outbound_queue \<Rightarrow> outbound_queue" where
  "outbound_step rsz (OSend c d terminal starts) q = fst (send_locked rsz c d terminal starts q)"
| "outbound_step rsz (OReceive x) q = fst (outbound_receive_attempt x q)"
| "outbound_step rsz (OFinished i) q = command_finished i q"
| "outbound_step rsz (OWatch now) q = fst (watch_deadlines now q)"
| "outbound_step rsz OStop q = outbound_stop_accepting q"
| "outbound_step rsz OClear q = fst (outbound_shutdown_clear q)"

definition outbound_closed :: "outbound_queue \<Rightarrow> bool" where
  "outbound_closed q \<longleftrightarrow> \<not> oq_accepting q"

lemma outbound_ok_step: "outbound_ok l b q \<Longrightarrow> outbound_ok l b (outbound_step rsz op q)"
proof (cases op)
  case OStop
  assume "outbound_ok l b q"
  then show ?thesis using OStop by (simp add: outbound_stop_accepting_def outbound_ok_def)
qed (simp_all add: outbound_ok_send outbound_ok_receive command_finished_queue outbound_ok_watch
      outbound_ok_clear)

lemma coalesce_accepting:
  "coalesce_command c sz terminal q = Some (q', i) \<Longrightarrow> oq_accepting q' = oq_accepting q"
  by (erule coalesce_commandE) (simp add: Let_def)

lemma outbound_closed_step: "outbound_closed q \<Longrightarrow> outbound_closed (outbound_step rsz op q)"
  by (cases op) (auto simp: outbound_closed_def send_locked_def enqueue_command_def
      outbound_receive_attempt_def command_finished_def watch_deadlines_def outbound_stop_accepting_def
      outbound_shutdown_clear_def Let_def dest: coalesce_accepting
      split: option.splits list.splits prod.splits)

interpretation outbound: latch_machine "outbound_step rsz" "outbound_ok l b" outbound_closed for rsz l b
  by unfold_locales (auto intro: outbound_ok_step outbound_closed_step)

lemma new_outbound_ok: "new_outbound_queue l f b = Inr q \<Longrightarrow> outbound_ok l b q"
  by (auto simp: new_outbound_queue_def outbound_ok_def split: if_splits)

definition submissions_counted :: "outbound_queue \<Rightarrow> bool" where
  "submissions_counted q \<longleftrightarrow>
     oq_submitted q = oq_enqueued q + oq_coalesced q + oq_rejected_full q
       + oq_rejected_after_shutdown q + oq_rejected_oversized q \<and>
     oq_dequeued q + length (oq_queue q) + oq_discarded_during_shutdown q \<le> oq_enqueued q"

fun thread_can_start :: "outbound_op \<Rightarrow> bool" where
  "thread_can_start (OSend c d terminal starts) = starts"
| "thread_can_start _ = True"

lemma submissions_counted_step:
  assumes "submissions_counted q" "thread_can_start op"
  shows "submissions_counted (outbound_step rsz op q)"
proof (cases op)
  case (OSend c d terminal starts)
  let ?q = "q\<lparr>oq_submitted := Suc (oq_submitted q)\<rparr>"
  have "submissions_counted (q'\<lparr>oq_coalesced := Suc (oq_coalesced q')\<rparr>)"
    if "coalesce_command c sz terminal ?q = Some (q', i)" for sz q' i
    using that by (rule coalesce_commandE)
      (use assms in \<open>auto simp: submissions_counted_def Let_def\<close>)
  then show ?thesis using assms OSend
    by (auto simp: send_locked_def enqueue_command_def Let_def submissions_counted_def split: option.splits)
next
  case (OFinished i)
  have "length (oq_queue (command_finished i q)) \<le> length (oq_queue q)"
    by (auto simp: command_finished_def Let_def del_at_def split: option.splits)
  moreover have "oq_submitted (command_finished i q) = oq_submitted q"
    "oq_enqueued (command_finished i q) = oq_enqueued q"
    "oq_coalesced (command_finished i q) = oq_coalesced q"
    "oq_dequeued (command_finished i q) = oq_dequeued q"
    "oq_rejected_full (command_finished i q) = oq_rejected_full q"
    "oq_rejected_after_shutdown (command_finished i q) = oq_rejected_after_shutdown q"
    "oq_rejected_oversized (command_finished i q) = oq_rejected_oversized q"
    "oq_discarded_during_shutdown (command_finished i q) = oq_discarded_during_shutdown q"
    by (simp_all add: command_finished_def Let_def split: option.splits)
  ultimately show ?thesis using assms OFinished by (simp add: submissions_counted_def)
qed (use assms in \<open>auto simp: outbound_receive_attempt_def watch_deadlines_def
      outbound_stop_accepting_def outbound_shutdown_clear_def Let_def submissions_counted_def
      split: list.splits prod.splits\<close>)


section \<open>Properties\<close>

definition demo_outbound :: outbound_queue where
  "demo_outbound = (case new_outbound_queue 2 True 8 of Inr q \<Rightarrow> q)"

lemma demo_outbound_new: "new_outbound_queue 2 True 8 = Inr demo_outbound"
  by (simp add: demo_outbound_def new_outbound_queue_def)

definition demo_outbound_ops :: "outbound_op list" where
  "demo_outbound_ops = [OSend (SetStateCommand ''c'' 1) None False True,
     OSend (SetStateCommand ''c'' 2) None False True, OSend (ShowOkCommand ''c'') (Some 5) False True,
     OSend (ShowAlertCommand ''c'') None False True, OFinished 1, OWatch 6, OReceive False]"

text \<open>
  C28. From a new outbound queue, after any interleaving of submissions, receives, completions, deadline
  watches, closing and clearing: depth and high-water mark are within the limit, the byte count is
  the exact sum of the queued sizes and within the byte limit, every queued command has its own
  completion, and the index of queued completions lists exactly those of the queue.
\<close>

theorem outbound_queue_bounded:
  assumes "new_outbound_queue limit flag bytes = Inr q"
    and "r = fold (outbound_step rsz) ops q"
  shows "length (oq_queue r) \<le> oq_peak_depth r \<and> oq_peak_depth r \<le> limit \<and>
    oq_current_bytes r = int (sum_list (map qc_size (oq_queue r))) \<and>
    oq_current_bytes r \<le> oq_peak_bytes r \<and> oq_peak_bytes r \<le> int bytes \<and>
    distinct (map qc_completion (oq_queue r)) \<and> oq_queued r = map qc_completion (oq_queue r)"
  using outbound.inv_run [OF new_outbound_ok [OF assms(1)], of rsz ops] assms(2)
  by (auto simp: outbound_ok_def)

lemma outbound_queue_bounded_witness:
  "oq_peak_depth (fold (outbound_step (\<lambda>_ _. 3)) demo_outbound_ops demo_outbound) \<le> 2"
  using outbound_queue_bounded [OF demo_outbound_new refl] by blast

text \<open>
  Every submission has exactly one fate that is counted: enqueued, coalesced, rejected as full, as
  oversized or after shutdown; and the commands received, still queued or discarded never exceed
  those enqueued.
\<close>

theorem outbound_submissions_counted:
  assumes "new_outbound_queue limit flag bytes = Inr q" "\<forall>op \<in> set ops. thread_can_start op"
  shows "submissions_counted (fold (outbound_step rsz) ops q)"
proof -
  have "submissions_counted q"
    using assms(1) by (auto simp: new_outbound_queue_def submissions_counted_def split: if_splits)
  with assms(2) show ?thesis
    by (induction ops arbitrary: q) (auto intro: submissions_counted_step)
qed

lemma outbound_submissions_counted_witness:
  "submissions_counted (fold (outbound_step (\<lambda>_ _. 3)) demo_outbound_ops demo_outbound)"
  by (rule outbound_submissions_counted [OF demo_outbound_new]) (simp add: demo_outbound_ops_def)



text \<open>
  A command that ends while it is queued, by cancellation or by its deadline, is withdrawn: it is
  never received afterwards, its bytes are released, the other commands keep their order, and its
  deadline is no longer watched.
\<close>

theorem finished_command_withdrawn:
  assumes "outbound_ok limit bytes q" "q' = command_finished i q"
  shows "oq_queue q' = filter (\<lambda>c. qc_completion c \<noteq> i) (oq_queue q) \<and>
    oq_current_bytes q' = int (sum_list (map qc_size (oq_queue q'))) \<and>
    oq_deadlines q' = filter (\<lambda>(j, d). j \<noteq> i) (oq_deadlines q)"
  using command_finished_queue [OF assms(1), of i] assms(2) by (simp add: outbound_ok_def)

lemma finished_command_withdrawn_witness:
  "oq_queue (command_finished 0
     (fst (send_locked (\<lambda>_ _. 3) (ShowOkCommand ''c'') (Some 5) False True demo_outbound))) = []"
proof -
  let ?q = "fst (send_locked (\<lambda>_ _. 3) (ShowOkCommand ''c'') (Some 5) False True demo_outbound)"
  have "outbound_ok 2 8 ?q"
    by (rule outbound_ok_send [OF new_outbound_ok [OF demo_outbound_new]])
  from finished_command_withdrawn [OF this refl, of 0] show ?thesis
    by (simp add: send_locked_def enqueue_command_def demo_outbound_def new_outbound_queue_def Let_def)
qed

text \<open>The commands that the watcher expires in consecutive passes at one time.\<close>

function watch_run :: "rat \<Rightarrow> outbound_queue \<Rightarrow> nat list" where
  "watch_run now q =
     (case watch_deadlines now q of
        (q', WatchExpires i) \<Rightarrow> i # watch_run now q'
      | _ \<Rightarrow> [])"
  by pat_completeness auto

lemma earliest_least:
  "xs \<noteq> [] \<Longrightarrow> earliest xs \<in> set xs \<and> (\<forall>x \<in> set xs. snd (earliest xs) \<le> snd x)"
  by (induction xs rule: earliest.induct) (auto simp: Let_def)

termination watch_run
proof (relation "measure (\<lambda>(now, q). length (oq_deadlines q))")
  show "wf (measure (\<lambda>(now :: rat, q). length (oq_deadlines q)))" by simp
next
  fix now q q' r i
  assume "(q', r) = watch_deadlines now q" "r = WatchExpires i"
  then have ne: "oq_deadlines q \<noteq> []" and i: "i = fst (earliest (oq_deadlines q))"
    and q': "oq_deadlines q' = filter (\<lambda>(j, d). j \<noteq> i) (oq_deadlines q)"
    by (auto simp: watch_deadlines_def Let_def split: if_splits prod.splits)
  have "length (filter (\<lambda>(j, d). j \<noteq> i) (oq_deadlines q)) < length (oq_deadlines q)"
    using earliest_least [OF ne] i by (intro length_filter_less) auto
  then show "((now, q'), now, q) \<in> measure (\<lambda>(now, q). length (oq_deadlines q))" by (simp add: q')
qed

declare watch_run.simps [simp del]

text \<open>
  The deadline watcher expires exactly the commands that are due: its consecutive passes at one time
  end, and the commands expired are those whose deadline has been reached, each once.
\<close>

theorem watch_expires_due:
  assumes "outbound_ok limit bytes q"
  shows "set (watch_run now q) = {i. \<exists>d. (i, d) \<in> set (oq_deadlines q) \<and> d \<le> now} \<and>
    distinct (watch_run now q)"
  using assms
proof (induction now q rule: watch_run.induct)
  case (1 now q)
  show ?case
  proof (cases "watch_deadlines now q")
    case (Pair q' r)
    show ?thesis
    proof (cases r)
      case (WatchExpires i)
      let ?e = "earliest (oq_deadlines q)"
      have e: "i = fst ?e" "snd ?e \<le> now" "oq_deadlines q \<noteq> []"
        and q': "oq_deadlines q' = filter (\<lambda>(j, d). j \<noteq> i) (oq_deadlines q)"
        using Pair WatchExpires by (auto simp: watch_deadlines_def Let_def split: if_splits prod.splits)
      have "outbound_ok limit bytes q'" using outbound_ok_watch [OF 1(2), of now] Pair by simp
      with 1(1) [OF Pair [symmetric] WatchExpires] have IH:
        "set (watch_run now q') = {j. \<exists>d. (j, d) \<in> set (oq_deadlines q') \<and> d \<le> now}"
        "distinct (watch_run now q')" by blast+
      have "(i, snd ?e) \<in> set (oq_deadlines q)" using earliest_least [OF e(3)] e(1) by simp
      then have "{j. \<exists>d. (j, d) \<in> set (oq_deadlines q) \<and> d \<le> now} =
          insert i {j. \<exists>d. (j, d) \<in> set (oq_deadlines q') \<and> d \<le> now}"
        using e(2) q' by auto
      then show ?thesis using IH q' Pair WatchExpires by (subst (1 2) watch_run.simps) auto
    next
      case WatchWaits
      then have "oq_deadlines q \<noteq> []" "now < snd (earliest (oq_deadlines q))"
        using Pair by (auto simp: watch_deadlines_def Let_def split: if_splits prod.splits)
      then have "\<not> d \<le> now" if "(i, d) \<in> set (oq_deadlines q)" for i d
        using earliest_least that by fastforce
      then show ?thesis using Pair WatchWaits by (subst (1 2) watch_run.simps) auto
    next
      case WatchEnds
      then have "oq_deadlines q = []"
        using Pair by (auto simp: watch_deadlines_def Let_def split: if_splits prod.splits)
      then show ?thesis using Pair WatchEnds by (subst (1 2) watch_run.simps) auto
    qed
  qed
qed

lemma watch_expires_due_witness:
  "set (watch_run 6 (fst (send_locked (\<lambda>_ _. 3) (ShowOkCommand ''c'') (Some 5) False True demo_outbound))) = {0}"
proof -
  let ?q = "fst (send_locked (\<lambda>_ _. 3) (ShowOkCommand ''c'') (Some 5) False True demo_outbound)"
  have "outbound_ok 2 8 ?q"
    by (rule outbound_ok_send [OF new_outbound_ok [OF demo_outbound_new]])
  from watch_expires_due [OF this, of 6] show ?thesis
    by (simp add: send_locked_def enqueue_command_def demo_outbound_def new_outbound_queue_def Let_def)
qed

datatype sink_op = BeginStarting | MarkReady | BeginStopping | MarkClosed

fun sink_step :: "sink_op \<Rightarrow> sink_state \<Rightarrow> sink_state" where
  "sink_step BeginStarting = sink_begin_starting"
| "sink_step MarkReady = sink_mark_ready"
| "sink_step BeginStopping = sink_begin_stopping"
| "sink_step MarkClosed = sink_mark_closed"

text \<open>The calls so far have made the writer ready: a start, and its confirmation later.\<close>

definition made_ready :: "sink_op list \<Rightarrow> bool" where
  "made_ready ops \<longleftrightarrow> (\<exists>us vs. ops = us @ vs \<and> BeginStarting \<in> set us \<and> MarkReady \<in> set vs)"

definition shutting :: "sink_op list \<Rightarrow> bool" where
  "shutting ops \<longleftrightarrow> BeginStopping \<in> set ops \<or> MarkClosed \<in> set ops"

lemma made_ready_snoc:
  "made_ready (ops @ [x]) \<longleftrightarrow> made_ready ops \<or> x = MarkReady \<and> BeginStarting \<in> set ops"
proof
  assume "made_ready (ops @ [x])"
  then obtain us vs where "ops @ [x] = us @ vs" "BeginStarting \<in> set us" "MarkReady \<in> set vs"
    unfolding made_ready_def by blast
  then show "made_ready ops \<or> x = MarkReady \<and> BeginStarting \<in> set ops"
    by (cases vs rule: rev_cases) (auto simp: made_ready_def)
next
  assume "made_ready ops \<or> x = MarkReady \<and> BeginStarting \<in> set ops"
  then show "made_ready (ops @ [x])"
  proof
    assume "made_ready ops"
    then obtain us vs where "ops = us @ vs" "BeginStarting \<in> set us" "MarkReady \<in> set vs"
      unfolding made_ready_def by blast
    then have "ops @ [x] = us @ (vs @ [x])" "MarkReady \<in> set (vs @ [x])" by auto
    then show ?thesis unfolding made_ready_def using \<open>BeginStarting \<in> set us\<close> by blast
  next
    assume "x = MarkReady \<and> BeginStarting \<in> set ops"
    then show ?thesis unfolding made_ready_def by (intro exI [of _ ops] exI [of _ "[x]"]) simp
  qed
qed

lemma sink_history:
  "fold sink_step ops SinkCreated =
     (if MarkClosed \<in> set ops then SinkClosed
      else if BeginStopping \<in> set ops then SinkStopping
      else if made_ready ops then SinkReady
      else if BeginStarting \<in> set ops then SinkStarting else SinkCreated)"
proof (induction ops rule: rev_induct)
  case Nil
  then show ?case by (simp add: made_ready_def)
next
  case (snoc x ops)
  have "made_ready ops \<Longrightarrow> BeginStarting \<in> set ops" by (auto simp: made_ready_def)
  with snoc show ?case
    by (cases x) (auto simp: made_ready_snoc sink_begin_starting_def sink_mark_ready_def
        sink_begin_stopping_def sink_mark_closed_def)
qed

text \<open>
  The sink forwards a submission to the queue, after any history of lifecycle calls, exactly when the
  writer has been made ready or shutdown has begun: a sink that begins to stop forwards
  submissions even if its writer was never started. Otherwise it refuses and leaves the queue alone.
\<close>

theorem sink_forwards_iff:
  "sink_send_async rsz c d terminal starts (fold sink_step ops SinkCreated) q =
     (if made_ready ops \<or> shutting ops then send_async rsz c d terminal starts q
      else (q, Inl CommandBusNotReadyError))"
  by (auto simp: sink_history sink_send_async_def shutting_def)

end
