(* ===== verification/Lifecycle.thy ===== *)
theory Lifecycle
  imports PyValues "HOL-Library.AList" "HOL-Library.Char_ord" "HOL-Library.List_Lexorder"
begin

text \<open>
  runtime/models.py: the runtime and session lifecycles as transition graphs, and the outcome of a
  dispatch; lifecycle.py: the shutdown state that every stage shares (one deadline, the workers,
  the pending cleanup, the failures and the first failure). Every method of the shutdown state runs
  under its lock, so each is one operation; \<open>now\<close> is what it reads from the clock.
\<close>

section \<open>Lifecycle graphs\<close>

datatype runtime_state = RtNew | RtStarting | RtRunning | RtStopping | RtStopped | RtFailed

definition runtime_terminal :: "runtime_state \<Rightarrow> bool" where
  "runtime_terminal s = (s \<in> {RtStopped, RtFailed})"

datatype session_state = WaitingConnected | Initializing | Ready | Disconnected | SessionFailed

definition session_terminal :: "session_state \<Rightarrow> bool" where
  "session_terminal s = (s \<in> {Disconnected, SessionFailed})"

fun runtime_transitions :: "runtime_state \<Rightarrow> runtime_state set" where
  "runtime_transitions RtNew = {RtStarting, RtStopped}"
| "runtime_transitions RtStarting = {RtRunning, RtStopping, RtFailed}"
| "runtime_transitions RtRunning = {RtStopping, RtFailed}"
| "runtime_transitions RtStopping = {RtStopped, RtFailed}"
| "runtime_transitions RtStopped = {}"
| "runtime_transitions RtFailed = {}"

fun session_transitions :: "session_state \<Rightarrow> session_state set" where
  "session_transitions WaitingConnected = {Initializing}"
| "session_transitions Initializing = {Ready, SessionFailed}"
| "session_transitions Ready = {Disconnected}"
| "session_transitions Disconnected = {}"
| "session_transitions SessionFailed = {}"

text \<open>The error keeps the states \<open>current\<close> and \<open>target\<close>.\<close>

datatype 's invalid_transition = InvalidTransition 's 's

definition transition_runtime_state ::
    "runtime_state \<Rightarrow> runtime_state \<Rightarrow> runtime_state invalid_transition + runtime_state" where
  "transition_runtime_state current target =
     (if target \<notin> runtime_transitions current then Inl (InvalidTransition current target)
      else Inr target)"

definition transition_session_state ::
    "session_state \<Rightarrow> session_state \<Rightarrow> session_state invalid_transition + session_state" where
  "transition_session_state current target =
     (if target \<notin> session_transitions current then Inl (InvalidTransition current target)
      else Inr target)"

datatype dispatch_outcome = Handled | Ignored | CallbackFailed | DiscardedDuringShutdown

datatype dispatch_result = DispatchResult (dres_outcome: dispatch_outcome) (dres_error: "exn option")

text \<open>The states entered when transitions are requested in turn; a refused request changes nothing.\<close>

fun entered :: "('s \<Rightarrow> 's \<Rightarrow> 'e + 's) \<Rightarrow> 's \<Rightarrow> 's list \<Rightarrow> 's list" where
  "entered tr s [] = []"
| "entered tr s (t # ts) =
     (case tr s t of Inl _ \<Rightarrow> entered tr s ts | Inr s' \<Rightarrow> s' # entered tr s' ts)"

text \<open>
  A lifecycle is a graph with a rank that every transition lowers. Clients get that no state is
  entered twice and how many transitions there can be.
\<close>

locale lifecycle_graph =
  fixes tr :: "'s \<Rightarrow> 's \<Rightarrow> 'e + 's" and rank :: "'s \<Rightarrow> nat"
  assumes tr_rank: "tr s t = Inr u \<Longrightarrow> rank u < rank s"
begin

lemma entered_rank: "u \<in> set (entered tr s ts) \<Longrightarrow> rank u < rank s"
  by (induction ts arbitrary: s) (auto split: sum.splits dest: tr_rank less_trans)

lemma entered_distinct: "distinct (s # entered tr s ts)"
proof (induction ts arbitrary: s)
  case (Cons t ts)
  show ?case
    using Cons [of s] Cons tr_rank [of s t] entered_rank
    by (cases "tr s t") (auto dest: less_asym)
qed simp

lemma entered_length: "length (entered tr s ts) \<le> rank s"
proof (induction ts arbitrary: s)
  case (Cons t ts)
  show ?case
  proof (cases "tr s t")
    case (Inr u)
    then have "rank u < rank s" by (rule tr_rank)
    with Cons [of u] Inr show ?thesis by simp
  qed (simp add: Cons)
qed simp

lemma entered_not_last:
  assumes "u \<in> set (butlast (s # entered tr s ts))"
  shows "\<exists>t v. tr u t = Inr v"
  using assms
proof (induction ts arbitrary: s)
  case (Cons t ts)
  show ?case
  proof (cases "tr s t")
    case (Inl e)
    with Cons show ?thesis by simp
  next
    case (Inr v)
    with Cons.prems have "u = s \<or> u \<in> set (butlast (v # entered tr v ts))"
      by (auto split: if_splits)
    then show ?thesis using Inr Cons.IH [of v] by blast
  qed
qed simp

end

fun runtime_rank :: "runtime_state \<Rightarrow> nat" where
  "runtime_rank RtNew = 4"
| "runtime_rank RtStarting = 3"
| "runtime_rank RtRunning = 2"
| "runtime_rank RtStopping = 1"
| "runtime_rank _ = 0"

fun session_rank :: "session_state \<Rightarrow> nat" where
  "session_rank WaitingConnected = 3"
| "session_rank Initializing = 2"
| "session_rank Ready = 1"
| "session_rank _ = 0"

lemma runtime_transitions_rank: "u \<in> runtime_transitions s \<Longrightarrow> runtime_rank u < runtime_rank s"
  by (cases s) auto

lemma session_transitions_rank: "u \<in> session_transitions s \<Longrightarrow> session_rank u < session_rank s"
  by (cases s) auto

interpretation runtime_graph: lifecycle_graph transition_runtime_state runtime_rank
  by unfold_locales (auto simp: transition_runtime_state_def runtime_transitions_rank split: if_splits)

interpretation session_graph: lifecycle_graph transition_session_state session_rank
  by unfold_locales (auto simp: transition_session_state_def session_transitions_rank split: if_splits)

lemma runtime_terminal_iff: "runtime_terminal s \<longleftrightarrow> runtime_transitions s = {}"
  by (cases s) (simp_all add: runtime_terminal_def)

lemma session_terminal_iff: "session_terminal s \<longleftrightarrow> session_transitions s = {}"
  by (cases s) (simp_all add: session_terminal_def)

text \<open>
  Single run: whatever transitions are requested of a new runtime and of a new session, each state
  is entered at most once, at most four respectively three transitions are accepted, and a terminal
  state is left by none.
\<close>

theorem lifecycles_single_run:
  "distinct (RtNew # entered transition_runtime_state RtNew ts) \<and>
   length (entered transition_runtime_state RtNew ts) \<le> 4 \<and>
   (\<forall>s \<in> set (butlast (RtNew # entered transition_runtime_state RtNew ts)). \<not> runtime_terminal s) \<and>
   distinct (WaitingConnected # entered transition_session_state WaitingConnected us) \<and>
   length (entered transition_session_state WaitingConnected us) \<le> 3 \<and>
   (\<forall>s \<in> set (butlast (WaitingConnected # entered transition_session_state WaitingConnected us)).
      \<not> session_terminal s)"
proof -
  have "\<not> runtime_terminal s" if "s \<in> set (butlast (RtNew # entered transition_runtime_state RtNew ts))" for s
    using runtime_graph.entered_not_last [OF that]
    by (auto simp: transition_runtime_state_def runtime_terminal_iff split: if_splits)
  moreover have "\<not> session_terminal s"
    if "s \<in> set (butlast (WaitingConnected # entered transition_session_state WaitingConnected us))" for s
    using session_graph.entered_not_last [OF that]
    by (auto simp: transition_session_state_def session_terminal_iff split: if_splits)
  ultimately show ?thesis
    using runtime_graph.entered_distinct [of RtNew ts] runtime_graph.entered_length [of RtNew ts]
      session_graph.entered_distinct [of WaitingConnected us]
      session_graph.entered_length [of WaitingConnected us] by auto
qed

lemma lifecycles_single_run_witness:
  "\<not> runtime_terminal RtStarting \<and> entered transition_runtime_state RtNew [RtRunning, RtStarting, RtFailed,
     RtStopped] = [RtStarting, RtFailed]"
  using lifecycles_single_run [of "[RtRunning, RtStarting, RtFailed, RtStopped]" "[]"]
  by (simp add: transition_runtime_state_def)

section \<open>Shutdown state\<close>

text \<open>An exception object: its identity and its class name.\<close>

record failure_object =
  fo_id :: nat
  fo_type :: string

record shutdown_failure =
  sf_stage :: string
  sf_error :: failure_object

text \<open>
  \<open>sh_notes\<close>: the notes that this state has added to the primary failure, each a failure whose stage
  and class the note's text names.
\<close>

record shutdown_state =
  sh_requested :: bool
  sh_timeout :: "rat option"
  sh_deadline :: "rat option"
  sh_workers :: "(string \<times> bool) list"
  sh_pending :: "string set"
  sh_failures :: "shutdown_failure list"
  sh_timeouts :: "string list"
  sh_primary :: "failure_object option"
  sh_notes :: "shutdown_failure list"

definition new_shutdown_state :: "rat option \<Rightarrow> shutdown_state" where
  "new_shutdown_state timeout =
     \<lparr>sh_requested = False, sh_timeout = timeout, sh_deadline = None, sh_workers = [],
      sh_pending = {}, sh_failures = [], sh_timeouts = [], sh_primary = None, sh_notes = []\<rparr>"

definition set_primary_failure :: "failure_object \<Rightarrow> shutdown_state \<Rightarrow> shutdown_state" where
  "set_primary_failure e s =
     (if sh_primary s = None then s\<lparr>sh_primary := Some e, sh_notes := sh_failures s\<rparr> else s)"

definition shutdown_begin :: "rat \<Rightarrow> shutdown_state \<Rightarrow> shutdown_state" where
  "shutdown_begin now s =
     (if \<not> sh_requested s then
        s\<lparr>sh_deadline := (case sh_timeout s of None \<Rightarrow> sh_deadline s | Some t \<Rightarrow> Some (now + t)),
          sh_requested := True\<rparr>
      else s)"

definition shutdown_remaining :: "rat option \<Rightarrow> rat \<Rightarrow> shutdown_state \<Rightarrow> rat option" where
  "shutdown_remaining limit now s =
     (let remaining = map_option (\<lambda>d. max 0 (d - now)) (sh_deadline s) in
      case limit of
        None \<Rightarrow> remaining
      | Some l \<Rightarrow> (case remaining of None \<Rightarrow> Some l | Some r \<Rightarrow> Some (min l r)))"

definition shutdown_worker :: "string \<Rightarrow> bool \<Rightarrow> shutdown_state \<Rightarrow> shutdown_state" where
  "shutdown_worker stage stopped s = s\<lparr>sh_workers := AList.update stage stopped (sh_workers s)\<rparr>"

definition shutdown_pending :: "string \<Rightarrow> bool \<Rightarrow> shutdown_state \<Rightarrow> shutdown_state" where
  "shutdown_pending stage active s =
     s\<lparr>sh_pending := (if active then insert stage (sh_pending s) else sh_pending s - {stage})\<rparr>"

definition shutdown_failed :: "string \<Rightarrow> failure_object \<Rightarrow> shutdown_state \<Rightarrow> shutdown_state" where
  "shutdown_failed stage e s =
     (let f = \<lparr>sf_stage = stage, sf_error = e\<rparr> in
      s\<lparr>sh_failures := sh_failures s @ [f],
        sh_notes := (if sh_primary s \<noteq> None then sh_notes s @ [f] else sh_notes s)\<rparr>)"

definition shutdown_timed_out :: "string \<Rightarrow> shutdown_state \<Rightarrow> shutdown_state" where
  "shutdown_timed_out stage s =
     (if stage \<notin> set (sh_timeouts s) then s\<lparr>sh_timeouts := sh_timeouts s @ [stage]\<rparr> else s)"

record shutdown_outcome =
  so_complete :: bool
  so_workers_stopped :: bool
  so_unfinished_callbacks :: nat
  so_pending_cleanup :: "string list"
  so_cleanup_failures :: "shutdown_failure list"
  so_timed_out_stages :: "string list"
  so_callback_timeouts :: nat
  so_discarded_events :: nat
  so_discarded_commands :: nat
  so_primary_failure :: "failure_object option"

definition shutdown_successful :: "shutdown_outcome \<Rightarrow> bool" where
  "shutdown_successful r =
     (so_complete r \<and> so_cleanup_failures r = [] \<and> so_timed_out_stages r = []
      \<and> so_primary_failure r = None)"

definition shutdown_snapshot ::
    "nat \<Rightarrow> nat \<Rightarrow> nat \<Rightarrow> nat \<Rightarrow> shutdown_state \<Rightarrow> shutdown_outcome option" where
  "shutdown_snapshot unfinished timeouts events commands s =
     (if \<not> sh_requested s then None
      else let workers_stopped = list_all snd (sh_workers s) in
        Some \<lparr>so_complete = workers_stopped \<and> sh_pending s = {} \<and> unfinished = 0,
          so_workers_stopped = workers_stopped, so_unfinished_callbacks = unfinished,
          so_pending_cleanup = sorted_list_of_set (sh_pending s),
          so_cleanup_failures = sh_failures s, so_timed_out_stages = sh_timeouts s,
          so_callback_timeouts = timeouts, so_discarded_events = events,
          so_discarded_commands = commands, so_primary_failure = sh_primary s\<rparr>)"

section \<open>Histories\<close>

datatype shutdown_op =
    ShBegin rat
  | ShPrimary failure_object
  | ShWorker string bool
  | ShPending string bool
  | ShFailed string failure_object
  | ShTimedOut string

fun shutdown_step :: "shutdown_op \<Rightarrow> shutdown_state \<Rightarrow> shutdown_state" where
  "shutdown_step (ShBegin now) = shutdown_begin now"
| "shutdown_step (ShPrimary e) = set_primary_failure e"
| "shutdown_step (ShWorker stage stopped) = shutdown_worker stage stopped"
| "shutdown_step (ShPending stage active) = shutdown_pending stage active"
| "shutdown_step (ShFailed stage e) = shutdown_failed stage e"
| "shutdown_step (ShTimedOut stage) = shutdown_timed_out stage"

definition shutdown_run :: "rat option \<Rightarrow> shutdown_op list \<Rightarrow> shutdown_state" where
  "shutdown_run timeout ops = fold shutdown_step ops (new_shutdown_state timeout)"

text \<open>What a history says, independently of the state: the first begin and the first failure ...\<close>

fun first_begin :: "shutdown_op list \<Rightarrow> rat option" where
  "first_begin [] = None"
| "first_begin (ShBegin now # ops) = Some now"
| "first_begin (_ # ops) = first_begin ops"

fun first_primary :: "shutdown_op list \<Rightarrow> failure_object option" where
  "first_primary [] = None"
| "first_primary (ShPrimary e # ops) = Some e"
| "first_primary (_ # ops) = first_primary ops"

fun reported_failures :: "shutdown_op list \<Rightarrow> shutdown_failure list" where
  "reported_failures [] = []"
| "reported_failures (ShFailed stage e # ops) = \<lparr>sf_stage = stage, sf_error = e\<rparr> # reported_failures ops"
| "reported_failures (_ # ops) = reported_failures ops"

text \<open>... and the last report about a worker or about a pending cleanup.\<close>

fun worker_report :: "shutdown_op \<Rightarrow> (string \<times> bool) option" where
  "worker_report (ShWorker stage stopped) = Some (stage, stopped)"
| "worker_report _ = None"

fun pending_report :: "shutdown_op \<Rightarrow> (string \<times> bool) option" where
  "pending_report (ShPending stage active) = Some (stage, active)"
| "pending_report _ = None"

definition last_report :: "(shutdown_op \<Rightarrow> (string \<times> bool) option) \<Rightarrow> shutdown_op list \<Rightarrow> string \<Rightarrow> bool option" where
  "last_report rep ops stage =
     fold (\<lambda>x r. case rep x of
         Some (st, b) \<Rightarrow> if st = stage then Some b else r
       | None \<Rightarrow> r) ops None"

lemma last_report_simps [simp]:
  "last_report rep [] stage = None"
  "last_report rep (ops @ [x]) stage =
     (case rep x of
        Some (st, b) \<Rightarrow> if st = stage then Some b else last_report rep ops stage
      | None \<Rightarrow> last_report rep ops stage)"
  by (simp_all add: last_report_def split: option.splits)

lemma first_begin_snoc:
  "first_begin (ops @ [x]) = (case first_begin ops of Some t \<Rightarrow> Some t | None \<Rightarrow> first_begin [x])"
  by (induction ops rule: first_begin.induct) auto

lemma first_primary_snoc:
  "first_primary (ops @ [x]) = (case first_primary ops of Some t \<Rightarrow> Some t | None \<Rightarrow> first_primary [x])"
  by (induction ops rule: first_primary.induct) auto

lemma reported_failures_snoc:
  "reported_failures (ops @ [x]) = reported_failures ops @ reported_failures [x]"
  by (induction ops rule: reported_failures.induct) auto

lemmas snoc_histories = first_begin_snoc first_primary_snoc reported_failures_snoc

lemmas shutdown_ops = set_primary_failure_def shutdown_begin_def shutdown_worker_def
  shutdown_pending_def shutdown_failed_def shutdown_timed_out_def

text \<open>The state is a function of the history.\<close>

definition shutdown_history :: "rat option \<Rightarrow> shutdown_op list \<Rightarrow> shutdown_state \<Rightarrow> bool" where
  "shutdown_history timeout ops s \<longleftrightarrow>
     sh_timeout s = timeout \<and> sh_requested s = (first_begin ops \<noteq> None) \<and>
     sh_deadline s = (case (timeout, first_begin ops) of (Some t, Some t0) \<Rightarrow> Some (t0 + t) | _ \<Rightarrow> None) \<and>
     sh_primary s = first_primary ops \<and> sh_failures s = reported_failures ops \<and>
     sh_notes s = (if first_primary ops = None then [] else reported_failures ops) \<and>
     map_of (sh_workers s) = last_report worker_report ops \<and> distinct (map fst (sh_workers s)) \<and>
     sh_pending s = {stage. last_report pending_report ops stage = Some True} \<and>
     set (sh_timeouts s) = {stage. ShTimedOut stage \<in> set ops} \<and> distinct (sh_timeouts s)"

lemma shutdown_history_snoc:
  assumes "shutdown_history timeout ops s"
  shows "shutdown_history timeout (ops @ [x]) (shutdown_step x s)"
proof (cases x)
  case (ShBegin now)
  with assms show ?thesis
    by (auto simp: shutdown_history_def shutdown_ops snoc_histories split: option.splits)
next
  case (ShPrimary e)
  with assms show ?thesis
    by (auto simp: shutdown_history_def shutdown_ops snoc_histories split: option.splits)
next
  case (ShWorker stage stopped)
  with assms show ?thesis
    by (auto simp: shutdown_history_def shutdown_ops snoc_histories update_conv distinct_update
        fun_eq_iff split: option.splits)
next
  case (ShPending stage active)
  with assms show ?thesis
    by (auto simp: shutdown_history_def shutdown_ops snoc_histories split: option.splits)
next
  case (ShFailed stage e)
  with assms show ?thesis
    by (auto simp: shutdown_history_def shutdown_ops snoc_histories Let_def split: option.splits)
next
  case (ShTimedOut stage)
  with assms show ?thesis
    by (auto simp: shutdown_history_def shutdown_ops snoc_histories split: option.splits)
qed

lemma shutdown_history_run: "shutdown_history timeout ops (shutdown_run timeout ops)"
  unfolding shutdown_run_def
proof (induction ops rule: rev_induct)
  case Nil
  show ?case
    by (auto simp: shutdown_history_def new_shutdown_state_def fun_eq_iff split: option.splits)
next
  case (snoc x ops)
  then show ?case using shutdown_history_snoc [of timeout ops _ x] by simp
qed

text \<open>
  One budget: after any history, every stage that asks is left with what remains of the interval
  that began at the first begin, never more than its own limit, and never a negative time. Later
  begins do not extend it; before the first one, or without a timeout, only the limit counts.
\<close>

theorem shutdown_budget_shared:
  "shutdown_remaining limit now (shutdown_run timeout ops) =
     (case (timeout, first_begin ops) of
        (Some t, Some t0) \<Rightarrow> Some (let r = max 0 (t0 + t - now) in
            case limit of None \<Rightarrow> r | Some l \<Rightarrow> min l r)
      | _ \<Rightarrow> limit)"
  using shutdown_history_run [of timeout ops]
  by (auto simp: shutdown_history_def shutdown_remaining_def Let_def split: option.splits)

lemma finite_pending_step: "finite (sh_pending s) \<Longrightarrow> finite (sh_pending (shutdown_step x s))"
  by (cases x) (auto simp: shutdown_ops Let_def)

lemma finite_pending_run: "finite (sh_pending (shutdown_run timeout ops))"
  unfolding shutdown_run_def
  by (induction ops rule: rev_induct) (simp_all add: new_shutdown_state_def finite_pending_step)

text \<open>
  C32. The outcome of a shutdown reports its history: there is none before the first begin; the workers
  count as stopped when the last report of each says so; the pending cleanup is what was last
  reported active; every failure is kept, in order, the first primary failure wins and carries a
  note for every cleanup failure, earlier or later; and it is successful exactly when nothing of
  this kind happened and no callback is unfinished.
\<close>

theorem shutdown_outcome_reports_history:
  "case shutdown_snapshot unfinished timeouts events commands (shutdown_run timeout ops) of
     None \<Rightarrow> first_begin ops = None
   | Some r \<Rightarrow> first_begin ops \<noteq> None \<and>
       so_workers_stopped r = (\<nexists>stage. last_report worker_report ops stage = Some False) \<and>
       set (so_pending_cleanup r) = {stage. last_report pending_report ops stage = Some True} \<and>
       so_cleanup_failures r = reported_failures ops \<and> so_primary_failure r = first_primary ops \<and>
       sh_notes (shutdown_run timeout ops) =
         (if first_primary ops = None then [] else reported_failures ops) \<and>
       shutdown_successful r =
         (unfinished = 0 \<and> (\<nexists>stage. last_report worker_report ops stage = Some False) \<and>
          (\<nexists>stage. last_report pending_report ops stage = Some True) \<and>
          reported_failures ops = [] \<and> (\<nexists>stage. ShTimedOut stage \<in> set ops) \<and>
          first_primary ops = None)"
proof -
  let ?s = "shutdown_run timeout ops"
  have H: "shutdown_history timeout ops ?s" by (rule shutdown_history_run)
  have workers: "list_all snd (sh_workers ?s) \<longleftrightarrow> (\<nexists>stage. last_report worker_report ops stage = Some False)"
  proof -
    have "(stage, b) \<in> set (sh_workers ?s) \<longleftrightarrow> last_report worker_report ops stage = Some b" for stage b
      using H map_of_eq_Some_iff [of "sh_workers ?s" stage b] by (simp add: shutdown_history_def)
    moreover have "list_all snd (sh_workers ?s) \<longleftrightarrow> (\<nexists>stage. (stage, False) \<in> set (sh_workers ?s))"
      by (auto simp: list_all_iff) (metis (full_types))
    ultimately show ?thesis by simp
  qed
  have pending: "set (sorted_list_of_set (sh_pending ?s)) = {stage. last_report pending_report ops stage = Some True}"
    using H finite_pending_run [of timeout ops] by (simp add: shutdown_history_def)
  have "sh_timeouts ?s = [] \<longleftrightarrow> (\<nexists>stage. ShTimedOut stage \<in> set ops)"
    using H by (auto simp: shutdown_history_def simp flip: set_empty)
  moreover have "sh_pending ?s = {} \<longleftrightarrow> (\<nexists>stage. last_report pending_report ops stage = Some True)"
    using H by (auto simp: shutdown_history_def)
  moreover have "sh_requested ?s = (first_begin ops \<noteq> None)" "sh_primary ?s = first_primary ops"
    "sh_failures ?s = reported_failures ops"
    "sh_notes ?s = (if first_primary ops = None then [] else reported_failures ops)"
    using H unfolding shutdown_history_def by blast+
  ultimately show ?thesis
    unfolding shutdown_snapshot_def shutdown_successful_def Let_def workers
    by (cases "first_begin ops") (auto simp: pending simp del: set_sorted_list_of_set)
qed

end
