(* ===== verification/Routes.thy ===== *)
theory Routes
  imports Events "HOL-Library.Char_ord" "HOL-Library.List_Lexorder"
begin

text \<open>
  runtime/routes.py: the routing policy of typed events, its validated registry, the default table,
  and the global-barrier test of scheduler.py that reads it. The classes of the callback interfaces
  are given by the names that are callable on them.
\<close>

section \<open>Routes\<close>

datatype event_scope = ActionScope | BroadcastScope | PluginScope

datatype dispatch_ordering = ContextOrdering | GlobalBarrier

datatype transition = NoTransition | CreateAction | RemoveAction | UpdateActionSettings
  | UpdateActionTitle | UpdateGlobalSettings

text \<open>
  An event class: a concrete class of events.py, a subclass of one, the unknown-event class, another
  subclass of \<open>StreamDockEvent\<close> without an event type (the flag tells whether of \<open>ActionEvent\<close>), or an
  object that is no event class.
\<close>

datatype event_class =
    EventClass event_type
  | EventSubclass event_type nat
  | UnknownEventClass
  | UntypedEventClass bool nat
  | NoEventClass nat

fun class_event_type :: "event_class \<Rightarrow> event_type option" where
  "class_event_type (EventClass t) = Some t"
| "class_event_type (EventSubclass t _) = Some t"
| "class_event_type _ = None"

fun is_action_class :: "event_class \<Rightarrow> bool" where
  "is_action_class (EventClass t) = (t \<in> set action_event_types)"
| "is_action_class (EventSubclass t _) = (t \<in> set action_event_types)"
| "is_action_class (UntypedEventClass a _) = a"
| "is_action_class _ = False"

record route =
  rt_class :: event_class
  rt_scope :: event_scope
  rt_ordering :: dispatch_ordering
  rt_callback :: string
  rt_transition :: transition
  rt_plugin_callback :: "string option"

definition rt_wire_name :: "route \<Rightarrow> string" where
  "rt_wire_name r = (case class_event_type (rt_class r) of Some t \<Rightarrow> wire_name t | None \<Rightarrow> '''')"

datatype route_error =
    NotAnEventClass
  | UnknownEventRouted
  | NoKnownEventType event_class
  | InvalidScope string event_scope
  | EmptyCallback
  | MissingCallback string event_scope string
  | PluginCallbackOutsideBroadcast string
  | EmptyPluginCallback
  | MissingPluginCallback string string
  | DuplicateClass event_class
  | DuplicateWireName string
  | RegistryMismatch "string list" "string list"
  | RouteMismatch string event_class event_class
  | NoRuntimeRoute event_class

section \<open>Registry\<close>

definition validate_route :: "(string \<Rightarrow> bool) \<Rightarrow> (string \<Rightarrow> bool) \<Rightarrow> route \<Rightarrow> route_error + unit" where
  "validate_route action_api plugin_api r =
     (let is_action = is_action_class (rt_class r);
          callback_api = (if rt_scope r = PluginScope then plugin_api else action_api)
      in case rt_class r of
        NoEventClass _ \<Rightarrow> Inl NotAnEventClass
      | UnknownEventClass \<Rightarrow> Inl UnknownEventRouted
      | UntypedEventClass _ _ \<Rightarrow> Inl (NoKnownEventType (rt_class r))
      | _ \<Rightarrow>
          if rt_scope r = ActionScope \<and> \<not> is_action then Inl (InvalidScope (rt_wire_name r) (rt_scope r))
          else if rt_scope r \<noteq> ActionScope \<and> is_action
          then Inl (InvalidScope (rt_wire_name r) (rt_scope r))
          else if rt_callback r = [] then Inl EmptyCallback
          else if \<not> callback_api (rt_callback r)
          then Inl (MissingCallback (rt_wire_name r) (rt_scope r) (rt_callback r))
          else if rt_scope r \<noteq> BroadcastScope \<and> rt_plugin_callback r \<noteq> None
          then Inl (PluginCallbackOutsideBroadcast (rt_wire_name r))
          else (case rt_plugin_callback r of
              None \<Rightarrow> Inr ()
            | Some c \<Rightarrow>
                if c = [] then Inl EmptyPluginCallback
                else if \<not> plugin_api c then Inl (MissingPluginCallback (rt_wire_name r) c)
                else Inr ()))"

record registry =
  reg_by_event_class :: "(event_class \<times> route) list"
  reg_by_wire_name :: "(string \<times> route) list"
  reg_routes :: "route list"

definition register_route ::
    "(string \<Rightarrow> bool) \<Rightarrow> (string \<Rightarrow> bool) \<Rightarrow> route \<Rightarrow> registry \<Rightarrow> route_error + registry" where
  "register_route action_api plugin_api r reg =
     rbind (validate_route action_api plugin_api r) (\<lambda>_.
       if map_of (reg_by_event_class reg) (rt_class r) \<noteq> None then Inl (DuplicateClass (rt_class r))
       else if map_of (reg_by_wire_name reg) (rt_wire_name r) \<noteq> None
       then Inl (DuplicateWireName (rt_wire_name r))
       else Inr \<lparr>reg_by_event_class = reg_by_event_class reg @ [(rt_class r, r)],
              reg_by_wire_name = reg_by_wire_name reg @ [(rt_wire_name r, r)],
              reg_routes = reg_routes reg @ [r]\<rparr>)"

fun register_routes ::
    "(string \<Rightarrow> bool) \<Rightarrow> (string \<Rightarrow> bool) \<Rightarrow> route list \<Rightarrow> registry \<Rightarrow> route_error + registry" where
  "register_routes action_api plugin_api [] reg = Inr reg"
| "register_routes action_api plugin_api (r # rs) reg =
     rbind (register_route action_api plugin_api r reg) (register_routes action_api plugin_api rs)"

definition new_registry :: "(string \<Rightarrow> bool) \<Rightarrow> (string \<Rightarrow> bool) \<Rightarrow> route list \<Rightarrow> route_error + registry" where
  "new_registry action_api plugin_api routes =
     rbind (register_routes action_api plugin_api routes
              \<lparr>reg_by_event_class = [], reg_by_wire_name = [], reg_routes = []\<rparr>) (\<lambda>reg.
       let expected = map wire_name all_event_types; actual = map fst (reg_by_wire_name reg);
           missing = sort (filter (\<lambda>n. n \<notin> set actual) expected);
           extra = sort (filter (\<lambda>n. n \<notin> set expected) actual)
       in if missing \<noteq> [] \<or> extra \<noteq> [] then Inl (RegistryMismatch missing extra) else Inr reg)"

text \<open>\<open>route_for\<close>, by the class and the name of the event.\<close>

definition route_for_class :: "registry \<Rightarrow> event_class \<Rightarrow> string \<Rightarrow> route_error + route option" where
  "route_for_class reg cls name =
     (if cls = UnknownEventClass then Inr None
      else case map_of (reg_by_event_class reg) cls of
        Some r \<Rightarrow> Inr (Some r)
      | None \<Rightarrow> (case map_of (reg_by_wire_name reg) name of
            Some r \<Rightarrow> Inl (RouteMismatch name (rt_class r) cls)
          | None \<Rightarrow> Inl (NoRuntimeRoute cls)))"

definition class_of_event :: "stream_dock_event \<Rightarrow> event_class" where
  "class_of_event e = (case event_type_of e of Some t \<Rightarrow> EventClass t | None \<Rightarrow> UnknownEventClass)"

definition route_for :: "registry \<Rightarrow> stream_dock_event \<Rightarrow> route_error + route option" where
  "route_for reg e = route_for_class reg (class_of_event e) (event_name e)"

section \<open>The default table\<close>

definition action_route :: "event_type \<Rightarrow> dispatch_ordering \<Rightarrow> string \<Rightarrow> transition \<Rightarrow> route" where
  "action_route t order callback tr =
     \<lparr>rt_class = EventClass t, rt_scope = ActionScope, rt_ordering = order, rt_callback = callback,
      rt_transition = tr, rt_plugin_callback = None\<rparr>"

definition broadcast_route :: "event_type \<Rightarrow> string \<Rightarrow> transition \<Rightarrow> route" where
  "broadcast_route t callback tr =
     \<lparr>rt_class = EventClass t, rt_scope = BroadcastScope, rt_ordering = GlobalBarrier,
      rt_callback = callback, rt_transition = tr, rt_plugin_callback = Some callback\<rparr>"

definition default_routes :: "route list" where
  "default_routes =
     [action_route WILL_APPEAR GlobalBarrier ''on_will_appear'' CreateAction,
      action_route WILL_DISAPPEAR GlobalBarrier ''on_will_disappear'' RemoveAction,
      action_route DID_RECEIVE_SETTINGS ContextOrdering ''on_did_receive_settings'' UpdateActionSettings,
      action_route TITLE_PARAMETERS_DID_CHANGE ContextOrdering ''on_title_parameters_did_change''
        UpdateActionTitle,
      action_route KEY_DOWN ContextOrdering ''on_key_down'' NoTransition,
      action_route KEY_UP ContextOrdering ''on_key_up'' NoTransition,
      action_route TOUCH_TAP ContextOrdering ''on_touch_tap'' NoTransition,
      action_route DIAL_DOWN ContextOrdering ''on_dial_down'' NoTransition,
      action_route DIAL_UP ContextOrdering ''on_dial_up'' NoTransition,
      action_route DIAL_ROTATE ContextOrdering ''on_dial_rotate'' NoTransition,
      action_route PROPERTY_INSPECTOR_DID_APPEAR ContextOrdering ''on_property_inspector_did_appear''
        NoTransition,
      action_route PROPERTY_INSPECTOR_DID_DISAPPEAR ContextOrdering
        ''on_property_inspector_did_disappear'' NoTransition,
      action_route SEND_TO_PLUGIN ContextOrdering ''on_send_to_plugin'' NoTransition,
      broadcast_route DID_RECEIVE_GLOBAL_SETTINGS ''on_did_receive_global_settings''
        UpdateGlobalSettings,
      broadcast_route DEVICE_DID_CONNECT ''on_device_did_connect'' NoTransition,
      broadcast_route DEVICE_DID_DISCONNECT ''on_device_did_disconnect'' NoTransition,
      broadcast_route APPLICATION_DID_LAUNCH ''on_application_did_launch'' NoTransition,
      broadcast_route APPLICATION_DID_TERMINATE ''on_application_did_terminate'' NoTransition,
      broadcast_route SYSTEM_DID_WAKE_UP ''on_system_did_wake_up'' NoTransition]"

text \<open>The methods of \<open>RuntimeActionCallbacks\<close> and of \<open>Plugin\<close>.\<close>

definition broadcast_callbacks :: "string list" where
  "broadcast_callbacks =
     [''on_did_receive_global_settings'', ''on_device_did_connect'', ''on_device_did_disconnect'',
      ''on_application_did_launch'', ''on_application_did_terminate'', ''on_system_did_wake_up'']"

definition runtime_action_callbacks :: "string list" where
  "runtime_action_callbacks =
     [''update_settings_from_wire'', ''on_will_appear'', ''on_will_disappear'',
      ''on_did_receive_settings'', ''on_title_parameters_did_change'', ''on_key_down'', ''on_key_up'',
      ''on_touch_tap'', ''on_dial_down'', ''on_dial_up'', ''on_dial_rotate'',
      ''on_property_inspector_did_appear'', ''on_property_inspector_did_disappear'',
      ''on_send_to_plugin''] @ broadcast_callbacks"

definition plugin_callbacks :: "string list" where
  "plugin_callbacks = [''on_ready'', ''on_stop''] @ broadcast_callbacks @ [''on_unhandled_event'']"

definition runtime_event_registry :: "route_error + registry" where
  "runtime_event_registry =
     new_registry (\<lambda>c. c \<in> set runtime_action_callbacks) (\<lambda>c. c \<in> set plugin_callbacks) default_routes"

text \<open>\<open>_is_global_barrier\<close>: an event whose route lookup raises is no barrier.\<close>

definition is_global_barrier :: "stream_dock_event \<Rightarrow> bool" where
  "is_global_barrier e =
     (if is_unknown e then True
      else case rbind runtime_event_registry (\<lambda>reg. route_for reg e) of
        Inr (Some r) \<Rightarrow> rt_ordering r = GlobalBarrier
      | _ \<Rightarrow> False)"

section \<open>Accepted registries\<close>

lemma rt_wire_name_known:
  "class_event_type (rt_class r) = Some t \<Longrightarrow> rt_wire_name r = wire_name t"
  by (simp add: rt_wire_name_def)

lemma validate_routeD:
  assumes "validate_route action_api plugin_api r = Inr u"
  shows "\<exists>t. class_event_type (rt_class r) = Some t"
    and "rt_scope r = ActionScope \<longleftrightarrow> is_action_class (rt_class r)"
    and "rt_scope r = PluginScope \<Longrightarrow> plugin_api (rt_callback r)"
    and "rt_scope r \<noteq> PluginScope \<Longrightarrow> action_api (rt_callback r)"
    and "rt_plugin_callback r = Some c \<Longrightarrow> plugin_api c \<and> rt_scope r = BroadcastScope"
  using assms
  by (auto simp: validate_route_def Let_def split: event_class.splits if_splits option.splits)

text \<open>What a registry under construction guarantees.\<close>

definition registry_ok :: "(string \<Rightarrow> bool) \<Rightarrow> (string \<Rightarrow> bool) \<Rightarrow> registry \<Rightarrow> bool" where
  "registry_ok action_api plugin_api reg \<longleftrightarrow>
     reg_by_event_class reg = map (\<lambda>r. (rt_class r, r)) (reg_routes reg) \<and>
     reg_by_wire_name reg = map (\<lambda>r. (rt_wire_name r, r)) (reg_routes reg) \<and>
     distinct (map rt_class (reg_routes reg)) \<and> distinct (map rt_wire_name (reg_routes reg)) \<and>
     (\<forall>r \<in> set (reg_routes reg). \<exists>u. validate_route action_api plugin_api r = Inr u)"

lemma map_of_keyed_None: "map_of (map (\<lambda>r. (f r, r)) rs) k = None \<longleftrightarrow> k \<notin> f ` set rs"
  by (simp add: map_of_eq_None_iff image_image)

lemma map_of_keyed_Some:
  "distinct (map f rs) \<Longrightarrow> map_of (map (\<lambda>r. (f r, r)) rs) k = Some r \<longleftrightarrow> r \<in> set rs \<and> f r = k"
  by (subst map_of_eq_Some_iff) (auto simp: comp_def)

lemma registry_ok_register:
  assumes "registry_ok action_api plugin_api reg" "register_route action_api plugin_api r reg = Inr reg'"
  shows "registry_ok action_api plugin_api reg'"
  using assms
  by (auto simp: registry_ok_def register_route_def rbind_eq_Inr map_of_keyed_None
      split: if_splits simp del: map_map)

lemma registry_ok_register_all:
  "registry_ok a p reg \<Longrightarrow> register_routes a p rs reg = Inr reg' \<Longrightarrow> registry_ok a p reg'"
  by (induction rs arbitrary: reg) (auto simp: rbind_eq_Inr intro: registry_ok_register)

lemma new_registry_ok:
  assumes "new_registry a p routes = Inr reg"
  shows "registry_ok a p reg" "rt_wire_name ` set (reg_routes reg) = range wire_name"
proof -
  let ?empty = "\<lparr>reg_by_event_class = [], reg_by_wire_name = [], reg_routes = []\<rparr>"
  have reg: "register_routes a p routes ?empty = Inr reg"
    and all: "\<forall>t. wire_name t \<in> set (map fst (reg_by_wire_name reg))"
    using assms by (auto simp: new_registry_def rbind_eq_Inr Let_def filter_empty_conv split: if_splits
        dest: arg_cong [where f = length])
  show ok: "registry_ok a p reg"
    by (rule registry_ok_register_all [OF _ reg]) (simp add: registry_ok_def)
  show "rt_wire_name ` set (reg_routes reg) = range wire_name"
  proof (intro equalityI subsetI)
    fix n assume "n \<in> rt_wire_name ` set (reg_routes reg)"
    then obtain r where "r \<in> set (reg_routes reg)" "n = rt_wire_name r" by blast
    then show "n \<in> range wire_name"
      using ok validate_routeD(1) rt_wire_name_known unfolding registry_ok_def by (metis rangeI)
  next
    fix n assume "n \<in> range wire_name"
    then show "n \<in> rt_wire_name ` set (reg_routes reg)"
      using all ok by (auto simp: registry_ok_def image_image)
  qed
qed


section \<open>The default registry\<close>

definition default_registry :: registry where
  "default_registry =
     \<lparr>reg_by_event_class = map (\<lambda>r. (rt_class r, r)) default_routes,
      reg_by_wire_name = map (\<lambda>r. (rt_wire_name r, r)) default_routes, reg_routes = default_routes\<rparr>"

lemma default_registry_built: "runtime_event_registry = Inr default_registry"
  by code_simp

definition default_route :: "event_type \<Rightarrow> route" where
  "default_route t = the (map_of (map (\<lambda>r. (rt_class r, r)) default_routes) (EventClass t))"

lemma default_route_map:
  "map_of (map (\<lambda>r. (rt_class r, r)) default_routes) (EventClass t) = Some (default_route t)"
  by (cases t) (simp_all add: default_route_def default_routes_def action_route_def broadcast_route_def)

lemma route_for_default:
  "rbind runtime_event_registry (\<lambda>reg. route_for reg e) =
     Inr (map_option default_route (event_type_of e))"
  by (cases "event_type_of e")
     (simp_all add: default_registry_built default_registry_def route_for_def route_for_class_def
        class_of_event_def default_route_map)

lemma default_route_ordering:
  "rt_ordering (default_route t) = GlobalBarrier \<longleftrightarrow>
     t \<notin> set action_event_types \<or> t = WILL_APPEAR \<or> t = WILL_DISAPPEAR"
  by (cases t) (simp_all add: default_route_def default_routes_def action_route_def broadcast_route_def
      action_event_types_def)

lemma default_route_scope:
  "rt_scope (default_route t) = (if t \<in> set action_event_types then ActionScope else BroadcastScope)"
  by (cases t) (simp_all add: default_route_def default_routes_def action_route_def broadcast_route_def
      action_event_types_def)

lemma is_global_barrier_type:
  "is_global_barrier e \<longleftrightarrow> (case event_type_of e of None \<Rightarrow> True
     | Some t \<Rightarrow> t \<notin> set action_event_types \<or> t = WILL_APPEAR \<or> t = WILL_DISAPPEAR)"
  unfolding is_global_barrier_def route_for_default
  by (auto simp: default_route_ordering event_type_of_None [symmetric] split: option.splits)

lemma action_context_None:
  "action_context e = None \<longleftrightarrow> (case event_type_of e of None \<Rightarrow> True | Some t \<Rightarrow> t \<notin> set action_event_types)"
  using as_action_event_iff [of e] by (auto simp: action_context_def split: option.splits)

text \<open>
  The default table is accepted, and under it the scheduler's barrier test holds exactly for the
  events that touch more than one action: those without an action context, unknown ones included, and
  the appearance and disappearance of an action.
\<close>

theorem global_barrier_iff:
  "runtime_event_registry = Inr default_registry \<and>
   is_global_barrier e =
     (action_context e = None \<or> event_type_of e \<in> {Some WILL_APPEAR, Some WILL_DISAPPEAR})"
  by (cases "event_type_of e")
     (auto simp: is_global_barrier_type action_context_None default_registry_built)

lemma context_event_has_context: "\<not> is_global_barrier e \<Longrightarrow> action_context e \<noteq> None"
  by (auto simp: is_global_barrier_type action_context_None split: option.splits)


end
