(* ===== verification/KeyedScheduler.thy ===== *)
theory KeyedScheduler
  imports Lifecycle Routes
begin

text \<open>
  runtime/keyed_scheduler.py: the worker pool that runs the callbacks of different action contexts
  concurrently between global barriers. One definition per segment under the scheduler's
  condition lock; a thread is a number, \<open>now\<close> the clock, \<open>rsz e limit\<close> stands for
  \<open>retained_size(e, limit)\<close>. Theory KeyedSystem puts the segments of all threads together.
\<close>

section \<open>State\<close>

record work =
  wk_token :: nat
  wk_event :: stream_dock_event
  wk_completion :: nat
  wk_context :: "string option"
  wk_barrier :: bool
  wk_size :: nat
  wk_submitted_at :: rat

text \<open>\<open>ks_admission_wakeup\<close> is the attached callback, \<open>ks_active\<close> the dict \<open>_active_by_thread\<close>.\<close>

record keyed_scheduler =
  ks_worker_count :: nat
  ks_pending_limit :: nat
  ks_pending_byte_limit :: nat
  ks_pending_bytes :: int
  ks_peak_pending_bytes :: int
  ks_rejected_oversized :: nat
  ks_context_work_limit :: nat
  ks_pending :: "work list"
  ks_pending_by_context :: "string \<rightharpoonup> nat"
  ks_selection_backpressured :: bool
  ks_admission_wakeup :: "nat option"
  ks_terminalizing :: nat
  ks_workers :: "nat list"
  ks_live_workers :: nat
  ks_active_contexts :: "string set"
  ks_active :: "(nat \<times> work) list"
  ks_barrier_active :: bool
  ks_started :: bool
  ks_accepting :: bool
  ks_stopped :: bool
  ks_accepted :: nat
  ks_completed :: nat
  ks_peak_pending :: nat
  ks_peak_active :: nat
  ks_barriers_processed :: nat
  ks_peak_barrier_wait :: rat
  ks_callback_failures :: nat
  ks_callback_timeouts :: nat
  ks_discarded_during_shutdown :: nat
  ks_admission_backpressure :: nat
  ks_internal_token :: nat
  ks_timed_out_tokens :: "nat set"

definition new_keyed_scheduler :: "pyval \<Rightarrow> pyval \<Rightarrow> pyval \<Rightarrow> exn + keyed_scheduler" where
  "new_keyed_scheduler worker_count pending_limit pending_byte_limit =
     rbind (positive_limit ''worker_count'' worker_count) (\<lambda>workers.
     rbind (positive_limit ''pending_limit'' pending_limit) (\<lambda>limit.
     rbind (positive_limit ''pending_byte_limit'' pending_byte_limit) (\<lambda>bytes.
       Inr \<lparr>ks_worker_count = workers, ks_pending_limit = limit, ks_pending_byte_limit = bytes,
         ks_pending_bytes = 0, ks_peak_pending_bytes = 0, ks_rejected_oversized = 0,
         ks_context_work_limit = max 1 (limit div workers), ks_pending = [],
         ks_pending_by_context = Map.empty, ks_selection_backpressured = False,
         ks_admission_wakeup = None, ks_terminalizing = 0, ks_workers = [], ks_live_workers = 0,
         ks_active_contexts = {}, ks_active = [], ks_barrier_active = False, ks_started = False,
         ks_accepting = True, ks_stopped = False, ks_accepted = 0, ks_completed = 0,
         ks_peak_pending = 0, ks_peak_active = 0, ks_barriers_processed = 0,
         ks_peak_barrier_wait = 0, ks_callback_failures = 0, ks_callback_timeouts = 0,
         ks_discarded_during_shutdown = 0, ks_admission_backpressure = 0, ks_internal_token = 0,
         ks_timed_out_tokens = {}\<rparr>)))"

section \<open>Start\<close>

datatype start_result = AlreadyStarted | StartRaises exn | StartWorkers "nat list"

definition ks_start :: "keyed_scheduler \<Rightarrow> keyed_scheduler \<times> start_result" where
  "ks_start s =
     (if ks_started s \<and> \<not> ks_stopped s then (s, AlreadyStarted)
      else if \<not> ks_accepting s \<or> ks_stopped s
      then (s, StartRaises (LifecycleError ''scheduler has already been stopped''))
      else let workers = [0..<ks_worker_count s] in
        (s\<lparr>ks_started := True, ks_workers := workers\<rparr>, StartWorkers workers))"

text \<open>Before each thread is started, and when its start raises.\<close>

definition ks_launch :: "keyed_scheduler \<Rightarrow> keyed_scheduler" where
  "ks_launch s = s\<lparr>ks_live_workers := Suc (ks_live_workers s)\<rparr>"

definition ks_launch_failed :: "keyed_scheduler \<Rightarrow> keyed_scheduler" where
  "ks_launch_failed s = s\<lparr>ks_live_workers := ks_live_workers s - 1\<rparr>"

definition ks_start_failed :: "nat \<Rightarrow> keyed_scheduler \<Rightarrow> keyed_scheduler" where
  "ks_start_failed started_count s =
     s\<lparr>ks_workers := take started_count (ks_workers s), ks_accepting := False,
       ks_stopped := ks_stopped s \<or> ks_live_workers s = 0\<rparr>"

section \<open>Admission\<close>

text \<open>What a completion is finished with.\<close>

datatype completion_value = CompletionResult dispatch_result | CompletionError exn

definition discarded_result :: completion_value where
  "discarded_result = CompletionResult (DispatchResult DiscardedDuringShutdown None)"

datatype submit_outcome = Admitted | Finished completion_value | SubmitRaises exn | SubmitWaits

definition ks_full :: "nat \<Rightarrow> keyed_scheduler \<Rightarrow> bool" where
  "ks_full sz s =
     (ks_pending_limit s \<le> length (ks_pending s)
      \<or> int (ks_pending_byte_limit s) < ks_pending_bytes s + int sz)"

definition ks_append ::
    "rat \<Rightarrow> stream_dock_event \<Rightarrow> nat \<Rightarrow> nat \<Rightarrow> keyed_scheduler \<Rightarrow> keyed_scheduler" where
  "ks_append now e sz completion s =
     (let barrier = (is_global_barrier e \<or> action_context e = None);
          ctx = (if barrier then None else action_context e);
          token = Suc (ks_internal_token s);
          pending = ks_pending s @ [\<lparr>wk_token = token, wk_event = e, wk_completion = completion,
              wk_context = ctx, wk_barrier = barrier, wk_size = sz,
              wk_submitted_at = (if barrier then now else 0)\<rparr>];
          bytes = ks_pending_bytes s + int sz
      in s\<lparr>ks_internal_token := token, ks_pending := pending, ks_accepted := Suc (ks_accepted s),
           ks_pending_bytes := bytes, ks_peak_pending_bytes := max (ks_peak_pending_bytes s) bytes,
           ks_pending_by_context := (case ctx of
               None \<Rightarrow> ks_pending_by_context s
             | Some c \<Rightarrow> (ks_pending_by_context s)(c \<mapsto>
                 (case ks_pending_by_context s c of None \<Rightarrow> 0 | Some n \<Rightarrow> n) + 1)),
           ks_peak_pending := max (ks_peak_pending s) (length pending)\<rparr>)"

definition ks_discard_submission :: "keyed_scheduler \<Rightarrow> keyed_scheduler \<times> submit_outcome" where
  "ks_discard_submission s =
     (s\<lparr>ks_discarded_during_shutdown := Suc (ks_discarded_during_shutdown s)\<rparr>,
      Finished discarded_result)"

definition ks_submit_begin ::
    "rat \<Rightarrow> stream_dock_event \<Rightarrow> nat \<Rightarrow> nat \<Rightarrow> keyed_scheduler \<Rightarrow> keyed_scheduler \<times> submit_outcome" where
  "ks_submit_begin now e sz completion s =
     (if sz = 0 then (s, SubmitRaises (ValueError ''event size must be a positive integer''))
      else if \<not> ks_accepting s then ks_discard_submission s
      else if \<not> ks_started s
      then (s, SubmitRaises (LifecycleError ''scheduler has not been started''))
      else if ks_pending_byte_limit s < sz then
        (s\<lparr>ks_rejected_oversized := Suc (ks_rejected_oversized s)\<rparr>,
         Finished (CompletionError (ValueError ''Event exceeds scheduler byte limit'')))
      else if ks_full sz s then
        (s\<lparr>ks_admission_backpressure := Suc (ks_admission_backpressure s)\<rparr>, SubmitWaits)
      else (ks_append now e sz completion s, Admitted))"

definition ks_submit_resume ::
    "rat \<Rightarrow> stream_dock_event \<Rightarrow> nat \<Rightarrow> nat \<Rightarrow> keyed_scheduler \<Rightarrow> keyed_scheduler \<times> submit_outcome" where
  "ks_submit_resume now e sz completion s =
     (if \<not> ks_accepting s then ks_discard_submission s
      else if ks_full sz s then (s, SubmitWaits)
      else (ks_append now e sz completion s, Admitted))"

text \<open>\<open>submit\<close> measures the event itself.\<close>

definition ks_submit ::
    "(stream_dock_event \<Rightarrow> nat \<Rightarrow> nat) \<Rightarrow> rat \<Rightarrow> stream_dock_event \<Rightarrow> nat \<Rightarrow> keyed_scheduler
      \<Rightarrow> keyed_scheduler \<times> submit_outcome" where
  "ks_submit rsz now e completion s =
     ks_submit_begin now e (rsz e (ks_pending_byte_limit s)) completion s"

section \<open>Selection by the source\<close>

definition can_admit_bytes :: "keyed_scheduler \<Rightarrow> nat \<Rightarrow> bool" where
  "can_admit_bytes s sz =
     (ks_pending_byte_limit s < sz \<or> ks_pending_bytes s + int sz \<le> int (ks_pending_byte_limit s))"

definition context_work :: "keyed_scheduler \<Rightarrow> string \<Rightarrow> nat" where
  "context_work s c =
     (case ks_pending_by_context s c of None \<Rightarrow> 0 | Some n \<Rightarrow> n)
     + (if c \<in> ks_active_contexts s then 1 else 0)"

definition measured :: "(stream_dock_event \<Rightarrow> nat \<Rightarrow> nat) \<Rightarrow> keyed_scheduler \<Rightarrow> stream_dock_event \<Rightarrow> nat \<Rightarrow> nat" where
  "measured rsz s e sz = (if sz = 0 then rsz e (ks_pending_byte_limit s) else sz)"

fun select_scan ::
    "(stream_dock_event \<Rightarrow> nat \<Rightarrow> nat) \<Rightarrow> keyed_scheduler \<Rightarrow> nat \<Rightarrow> string set
      \<Rightarrow> (stream_dock_event \<times> nat) list \<Rightarrow> nat option" where
  "select_scan rsz s index deferred [] = None"
| "select_scan rsz s index deferred ((e, sz) # items) =
     (case action_context e of
        None \<Rightarrow> if index = 0 \<and> can_admit_bytes s (measured rsz s e sz) then Some index else None
      | Some c \<Rightarrow>
          if is_global_barrier e then
            (if index = 0 \<and> can_admit_bytes s (measured rsz s e sz) then Some index else None)
          else if c \<in> deferred then select_scan rsz s (Suc index) deferred items
          else if context_work s c < ks_context_work_limit s then
            (if can_admit_bytes s (measured rsz s e sz) then Some index
             else select_scan rsz s (Suc index) (insert c deferred) items)
          else select_scan rsz s (Suc index) deferred items)"

definition ks_select_sized_event ::
    "(stream_dock_event \<Rightarrow> nat \<Rightarrow> nat) \<Rightarrow> (stream_dock_event \<times> nat) list \<Rightarrow> keyed_scheduler
      \<Rightarrow> keyed_scheduler \<times> (exn + nat option)" where
  "ks_select_sized_event rsz items s =
     (if \<not> ks_accepting s then (s, Inr (Some 0))
      else if \<not> ks_started s
      then (s, Inl (LifecycleError ''scheduler has not been started''))
      else case (if length (ks_pending s) < ks_pending_limit s then select_scan rsz s 0 {} items
                 else None) of
        Some i \<Rightarrow> (s\<lparr>ks_selection_backpressured := False\<rparr>, Inr (Some i))
      | None \<Rightarrow>
          (if \<not> ks_selection_backpressured s
           then s\<lparr>ks_admission_backpressure := Suc (ks_admission_backpressure s),
                  ks_selection_backpressured := True\<rparr>
           else s, Inr None))"

definition ks_select_event ::
    "(stream_dock_event \<Rightarrow> nat \<Rightarrow> nat) \<Rightarrow> stream_dock_event list \<Rightarrow> keyed_scheduler
      \<Rightarrow> keyed_scheduler \<times> (exn + nat option)" where
  "ks_select_event rsz es s = ks_select_sized_event rsz (map (\<lambda>e. (e, 0)) es) s"

definition ks_set_admission_wakeup :: "nat \<Rightarrow> keyed_scheduler \<Rightarrow> keyed_scheduler" where
  "ks_set_admission_wakeup callback s = s\<lparr>ks_admission_wakeup := Some callback\<rparr>"

section \<open>Workers\<close>

text \<open>The scan of \<open>_take_internal_work\<close>; \<open>busy\<close>: some callback is active.\<close>

fun take_scan :: "bool \<Rightarrow> string set \<Rightarrow> nat \<Rightarrow> work list \<Rightarrow> nat option" where
  "take_scan busy active index [] = None"
| "take_scan busy active index (w # ws) =
     (if wk_barrier w then (if index \<noteq> 0 \<or> busy then None else Some index)
      else if the (wk_context w) \<in> active then take_scan busy active (Suc index) ws
      else Some index)"

definition ks_take_at :: "rat \<Rightarrow> nat \<Rightarrow> nat \<Rightarrow> keyed_scheduler \<Rightarrow> keyed_scheduler" where
  "ks_take_at now thread i s =
     (let w = ks_pending s ! i; active = AList.update thread w (ks_active s) in
      s\<lparr>ks_barrier_active := ks_barrier_active s \<or> wk_barrier w,
        ks_peak_barrier_wait := (if wk_barrier w
            then max (ks_peak_barrier_wait s) (now - wk_submitted_at w) else ks_peak_barrier_wait s),
        ks_active_contexts := (if wk_barrier w then ks_active_contexts s
            else insert (the (wk_context w)) (ks_active_contexts s)),
        ks_pending := del_at i (ks_pending s),
        ks_pending_bytes := ks_pending_bytes s - int (wk_size w),
        ks_pending_by_context := (case wk_context w of
            None \<Rightarrow> ks_pending_by_context s
          | Some c \<Rightarrow> let remaining = the (ks_pending_by_context s c) - 1 in
              (ks_pending_by_context s)(c := (if remaining \<noteq> 0 then Some remaining else None))),
        ks_active := active, ks_peak_active := max (ks_peak_active s) (length active)\<rparr>)"

definition ks_take :: "rat \<Rightarrow> nat \<Rightarrow> keyed_scheduler \<Rightarrow> keyed_scheduler \<times> work option" where
  "ks_take now thread s =
     (if ks_barrier_active s then (s, None)
      else case take_scan (ks_active s \<noteq> []) (ks_active_contexts s) 0 (ks_pending s) of
        None \<Rightarrow> (s, None)
      | Some i \<Rightarrow> (ks_take_at now thread i s, Some (ks_pending s ! i)))"

text \<open>A worker whose scan found nothing ends when nothing can come any more.\<close>

definition ks_worker_may_exit :: "keyed_scheduler \<Rightarrow> bool" where
  "ks_worker_may_exit s = (\<not> ks_accepting s \<and> ks_pending s = [])"

text \<open>The segment after a callback, with what the work's completion was finished with.\<close>

definition ks_finish :: "nat \<Rightarrow> work \<Rightarrow> completion_value \<Rightarrow> keyed_scheduler \<Rightarrow> keyed_scheduler" where
  "ks_finish thread w value s =
     s\<lparr>ks_completed := Suc (ks_completed s),
       ks_barriers_processed := (if wk_barrier w then Suc (ks_barriers_processed s)
          else ks_barriers_processed s),
       ks_barrier_active := (if wk_barrier w then False else ks_barrier_active s),
       ks_active_contexts := (if wk_barrier w then ks_active_contexts s
          else ks_active_contexts s - {the (wk_context w)}),
       ks_callback_failures := (case value of
           CompletionResult r \<Rightarrow> (if dres_outcome r = CallbackFailed
             then Suc (ks_callback_failures s) else ks_callback_failures s)
         | CompletionError _ \<Rightarrow> ks_callback_failures s),
       ks_active := AList.delete thread (ks_active s)\<rparr>"

definition ks_worker_end :: "keyed_scheduler \<Rightarrow> keyed_scheduler" where
  "ks_worker_end s =
     s\<lparr>ks_live_workers := ks_live_workers s - 1,
       ks_stopped := ks_stopped s \<or> ks_live_workers s - 1 = 0\<rparr>"

section \<open>Stop, drain and discard\<close>

definition ks_stop_accepting :: "keyed_scheduler \<Rightarrow> keyed_scheduler" where
  "ks_stop_accepting s =
     s\<lparr>ks_accepting := False,
       ks_stopped := ks_stopped s \<or> \<not> ks_started s \<or> ks_live_workers s = 0\<rparr>"

definition ks_is_drained :: "keyed_scheduler \<Rightarrow> bool" where
  "ks_is_drained s = (ks_pending s = [] \<and> ks_active s = [] \<and> ks_terminalizing s = 0)"

definition ks_drain_attempt :: "bool \<Rightarrow> keyed_scheduler \<Rightarrow> keyed_scheduler \<times> bool option" where
  "ks_drain_attempt expired s =
     (if ks_is_drained s then (s, Some True)
      else if \<not> expired then (s, None)
      else let timed_out = filter (\<lambda>w. wk_token w \<notin> ks_timed_out_tokens s) (map snd (ks_active s)) in
        (s\<lparr>ks_timed_out_tokens := ks_timed_out_tokens s \<union> set (map wk_token timed_out),
           ks_callback_timeouts := ks_callback_timeouts s + length timed_out\<rparr>, Some False))"

definition ks_discard_begin :: "rat \<Rightarrow> keyed_scheduler \<Rightarrow> keyed_scheduler \<times> work list" where
  "ks_discard_begin now s =
     (let discarded = ks_pending s in
      (s\<lparr>ks_peak_barrier_wait := fold (\<lambda>w m. if wk_barrier w then max m (now - wk_submitted_at w) else m)
           discarded (ks_peak_barrier_wait s),
         ks_pending := [], ks_pending_bytes := 0, ks_pending_by_context := Map.empty,
         ks_terminalizing := ks_terminalizing s + length discarded,
         ks_discarded_during_shutdown := ks_discarded_during_shutdown s + length discarded\<rparr>,
       discarded))"

text \<open>After the completion of one discarded work was finished.\<close>

definition ks_discard_one :: "keyed_scheduler \<Rightarrow> keyed_scheduler" where
  "ks_discard_one s =
     s\<lparr>ks_terminalizing := ks_terminalizing s - 1, ks_completed := Suc (ks_completed s)\<rparr>"

definition ks_is_dispatch_thread :: "nat \<Rightarrow> keyed_scheduler \<Rightarrow> bool" where
  "ks_is_dispatch_thread thread s = (thread \<in> set (ks_workers s))"

text \<open>The start of \<open>stop\<close>: whether it returns at once because a callback called it.\<close>

definition ks_stop_begin :: "nat \<Rightarrow> keyed_scheduler \<Rightarrow> keyed_scheduler \<times> bool" where
  "ks_stop_begin caller s = (ks_stop_accepting s, ks_is_dispatch_thread caller s)"

section \<open>Size accounting\<close>

definition count_context :: "string \<Rightarrow> work list \<Rightarrow> nat" where
  "count_context c ws = length (filter (\<lambda>w. wk_context w = Some c) ws)"

lemma count_context_simps [simp]:
  "count_context c [] = 0"
  "count_context c (ws @ vs) = count_context c ws + count_context c vs"
  "count_context c (w # ws) = (if wk_context w = Some c then 1 else 0) + count_context c ws"
  by (simp_all add: count_context_def)

definition ks_sized :: "nat \<Rightarrow> nat \<Rightarrow> keyed_scheduler \<Rightarrow> bool" where
  "ks_sized limit bytes s \<longleftrightarrow>
     ks_pending_limit s = limit \<and> ks_pending_byte_limit s = bytes \<and>
     length (ks_pending s) \<le> ks_peak_pending s \<and> ks_peak_pending s \<le> limit \<and>
     ks_pending_bytes s = int (sum_list (map wk_size (ks_pending s))) \<and>
     ks_pending_bytes s \<le> ks_peak_pending_bytes s \<and> ks_peak_pending_bytes s \<le> int bytes \<and>
     (\<forall>c. ks_pending_by_context s c =
        (if count_context c (ks_pending s) = 0 then None else Some (count_context c (ks_pending s))))"

lemma count_context_del_at:
  assumes "i < length ws"
  shows "count_context c ws = (if wk_context (ws ! i) = Some c then 1 else 0) + count_context c (del_at i ws)"
  by (rule del_atE [OF assms]) (metis count_context_simps(2,3) add.left_commute)

lemma take_scan_Some:
  "take_scan busy active k ws = Some i \<Longrightarrow>
     k \<le> i \<and> i - k < length ws \<and>
     (if wk_barrier (ws ! (i - k)) then i = 0 \<and> \<not> busy else the (wk_context (ws ! (i - k))) \<notin> active) \<and>
     (\<forall>j < i - k. \<not> wk_barrier (ws ! j) \<and> the (wk_context (ws ! j)) \<in> active)"
proof (induction ws arbitrary: k)
  case (Cons w ws)
  show ?case
  proof (cases "wk_barrier w \<or> the (wk_context w) \<notin> active")
    case True
    with Cons.prems show ?thesis by (auto split: if_splits)
  next
    case False
    with Cons.prems have "take_scan busy active (Suc k) ws = Some i" by simp
    from Cons.IH [OF this] have IH: "Suc k \<le> i" "i - Suc k < length ws"
      "if wk_barrier (ws ! (i - Suc k)) then i = 0 \<and> \<not> busy else the (wk_context (ws ! (i - Suc k))) \<notin> active"
      "\<forall>j < i - Suc k. \<not> wk_barrier (ws ! j) \<and> the (wk_context (ws ! j)) \<in> active" by blast+
    then have "i - k = Suc (i - Suc k)" by simp
    with IH False show ?thesis by (auto simp: nth_Cons split: nat.splits)
  qed
qed simp

lemma take_scan_None:
  "take_scan busy active k ws = None \<Longrightarrow> i < length ws \<Longrightarrow>
     \<exists>j \<le> i. wk_barrier (ws ! j) \<and> (k + j \<noteq> 0 \<or> busy) \<or>
       j = i \<and> \<not> wk_barrier (ws ! i) \<and> the (wk_context (ws ! i)) \<in> active"
proof (induction ws arbitrary: k i)
  case (Cons w ws)
  show ?case
  proof (cases "wk_barrier w")
    case True
    with Cons.prems show ?thesis by (intro exI [of _ 0]) (auto split: if_splits)
  next
    case False
    with Cons.prems have w: "the (wk_context w) \<in> active" "take_scan busy active (Suc k) ws = None"
      by (auto split: if_splits)
    show ?thesis
    proof (cases i)
      case 0
      with False w show ?thesis by auto
    next
      case (Suc i')
      with Cons.prems have "i' < length ws" by simp
      from Cons.IH [OF w(2) this] obtain j where "j \<le> i'"
        "wk_barrier (ws ! j) \<and> (Suc k + j \<noteq> 0 \<or> busy) \<or>
           j = i' \<and> \<not> wk_barrier (ws ! i') \<and> the (wk_context (ws ! i')) \<in> active" by blast
      then show ?thesis using Suc by (intro exI [of _ "Suc j"]) auto
    qed
  qed
qed simp

lemma ks_sized_append:
  assumes "ks_sized l b s" "\<not> ks_full sz s"
  shows "ks_sized l b (ks_append now e sz completion s)"
  using assms
  by (auto simp: ks_sized_def ks_full_def ks_append_def Let_def split: option.splits if_splits)

lemma ks_sized_take_at:
  assumes "ks_sized l b s" "i < length (ks_pending s)"
  shows "ks_sized l b (ks_take_at now thread i s)"
proof -
  let ?ws = "ks_pending s"
  have "sum_list (map wk_size ?ws) = sum_list (map wk_size (del_at i ?ws)) + wk_size (?ws ! i)"
    using assms(2) by (rule sum_list_del_at)
  moreover have "count_context c ?ws =
      (if wk_context (?ws ! i) = Some c then 1 else 0) + count_context c (del_at i ?ws)" for c
    using assms(2) by (rule count_context_del_at)
  ultimately show ?thesis
    using assms by (auto simp: ks_sized_def ks_take_at_def Let_def split: option.splits)
qed

lemma ks_sized_take:
  assumes "ks_sized l b s"
  shows "ks_sized l b (fst (ks_take now thread s))"
  using assms ks_sized_take_at [OF assms] take_scan_Some [of _ _ 0 "ks_pending s"]
  by (auto simp: ks_take_def split: option.splits)

lemma ks_sized_submit:
  assumes "ks_sized l b s"
  shows "ks_sized l b (fst (ks_submit_begin now e sz completion s))"
    and "ks_sized l b (fst (ks_submit_resume now e sz completion s))"
  using assms ks_sized_append [OF assms]
  by (simp_all add: ks_submit_begin_def ks_submit_resume_def ks_discard_submission_def)
     (simp_all add: ks_sized_def)

lemma ks_sized_others:
  assumes "ks_sized l b s"
  shows "ks_sized l b (fst (ks_select_sized_event rsz items s))" "ks_sized l b (fst (ks_start s))"
    "ks_sized l b (ks_launch s)" "ks_sized l b (ks_launch_failed s)" "ks_sized l b (ks_start_failed n s)"
    "ks_sized l b (ks_set_admission_wakeup n s)" "ks_sized l b (ks_finish thread w value s)"
    "ks_sized l b (ks_worker_end s)" "ks_sized l b (ks_stop_accepting s)"
    "ks_sized l b (fst (ks_drain_attempt x s))" "ks_sized l b (fst (ks_discard_begin now s))"
    "ks_sized l b (ks_discard_one s)"
  using assms
  by (auto simp: ks_sized_def ks_select_sized_event_def ks_start_def ks_launch_def ks_launch_failed_def
      ks_start_failed_def ks_set_admission_wakeup_def ks_finish_def ks_worker_end_def ks_stop_accepting_def
      ks_drain_attempt_def ks_discard_begin_def ks_discard_one_def Let_def split: option.splits)

end
