(* ===== verification/KeyedSystem.thy ===== *)
theory KeyedSystem
  imports KeyedScheduler "HOL-Library.Multiset"
begin

text \<open>
  The keyed scheduler with all its threads: submitters (some waiting for room), the workers between
  taking a work and finishing it, and the threads that discard pending work, interleaved in any
  order. The theorems: which callbacks may overlap, in which order conflicting events run, that
  every completion is finished exactly once, and that a worker drains the queue.
\<close>

section \<open>The system\<close>

text \<open>
  \<open>sy_completions\<close> is what each completion was finished with; completions are numbered in the order
  of their creation. \<open>sy_published\<close>: the worker threads that have finished their work's completion but
  have not yet entered the segment that follows. \<open>sy_discarding\<close>: discarded works whose completion
  is still to be finished. \<open>sy_double\<close>: some completion was finished a second time, which raises
  \<open>InvalidStateError\<close>. \<open>sy_log\<close> records every work taken, in order.
\<close>

record keyed_system =
  sy_sched :: keyed_scheduler
  sy_completions :: "nat \<rightharpoonup> completion_value"
  sy_next :: nat
  sy_waiting :: "(nat \<times> stream_dock_event \<times> nat) list"
  sy_published :: "nat set"
  sy_discarding :: "work list"
  sy_double :: bool
  sy_log :: "work list"

definition new_system :: "keyed_scheduler \<Rightarrow> keyed_system" where
  "new_system s = \<lparr>sy_sched = s, sy_completions = Map.empty, sy_next = 0, sy_waiting = [],
     sy_published = {}, sy_discarding = [], sy_double = False, sy_log = []\<rparr>"

text \<open>\<open>_DispatchCompletion._finish\<close>, with exactly one of result and error.\<close>

definition finish_completion :: "nat \<Rightarrow> completion_value \<Rightarrow> keyed_system \<Rightarrow> keyed_system" where
  "finish_completion c v y =
     (if sy_completions y c \<noteq> None then y\<lparr>sy_double := True\<rparr>
      else y\<lparr>sy_completions := (sy_completions y)(c \<mapsto> v)\<rparr>)"

datatype keyed_op =
    KSubmit rat stream_dock_event nat
  | KResume nat rat
  | KSelect "(stream_dock_event \<times> nat) list"
  | KStart
  | KLaunch
  | KLaunchFailed
  | KStartFailed nat
  | KTake rat nat
  | KPublish nat completion_value
  | KFinish nat
  | KWorkerEnd
  | KStopAccepting
  | KDrain bool
  | KDiscard rat
  | KDiscardOne nat
  | KSetWakeup nat

definition sys_submit :: "rat \<Rightarrow> stream_dock_event \<Rightarrow> nat \<Rightarrow> keyed_system \<Rightarrow> keyed_system" where
  "sys_submit now e sz y =
     (let c = sy_next y in
      case ks_submit_begin now e sz c (sy_sched y) of
        (s, Admitted) \<Rightarrow> y\<lparr>sy_sched := s, sy_next := Suc c\<rparr>
      | (s, Finished v) \<Rightarrow> finish_completion c v (y\<lparr>sy_sched := s, sy_next := Suc c\<rparr>)
      | (s, SubmitWaits) \<Rightarrow>
          y\<lparr>sy_sched := s, sy_next := Suc c, sy_waiting := sy_waiting y @ [(c, e, sz)]\<rparr>
      | (s, SubmitRaises _) \<Rightarrow> y\<lparr>sy_sched := s\<rparr>)"

definition sys_resume :: "nat \<Rightarrow> rat \<Rightarrow> keyed_system \<Rightarrow> keyed_system" where
  "sys_resume k now y =
     (if length (sy_waiting y) \<le> k then y
      else let (c, e, sz) = sy_waiting y ! k; y' = y\<lparr>sy_waiting := del_at k (sy_waiting y)\<rparr> in
        case ks_submit_resume now e sz c (sy_sched y) of
          (s, Admitted) \<Rightarrow> y'\<lparr>sy_sched := s\<rparr>
        | (s, Finished v) \<Rightarrow> finish_completion c v (y'\<lparr>sy_sched := s\<rparr>)
        | (s, _) \<Rightarrow> y\<lparr>sy_sched := s\<rparr>)"

text \<open>A thread takes work only when it has none; only worker threads take work (\<open>keyed_step\<close>).\<close>

definition sys_take :: "rat \<Rightarrow> nat \<Rightarrow> keyed_system \<Rightarrow> keyed_system" where
  "sys_take now t y =
     (if map_of (ks_active (sy_sched y)) t \<noteq> None then y
      else case ks_take now t (sy_sched y) of
        (s, None) \<Rightarrow> y\<lparr>sy_sched := s\<rparr>
      | (s, Some w) \<Rightarrow> y\<lparr>sy_sched := s, sy_log := sy_log y @ [w]\<rparr>)"

definition sys_publish :: "nat \<Rightarrow> completion_value \<Rightarrow> keyed_system \<Rightarrow> keyed_system" where
  "sys_publish t v y =
     (case map_of (ks_active (sy_sched y)) t of
        None \<Rightarrow> y
      | Some w \<Rightarrow>
          if t \<in> sy_published y then y
          else finish_completion (wk_completion w) v (y\<lparr>sy_published := insert t (sy_published y)\<rparr>))"

definition sys_finish :: "nat \<Rightarrow> keyed_system \<Rightarrow> keyed_system" where
  "sys_finish t y =
     (case map_of (ks_active (sy_sched y)) t of
        None \<Rightarrow> y
      | Some w \<Rightarrow>
          if t \<notin> sy_published y then y
          else y\<lparr>sy_sched := ks_finish t w (the (sy_completions y (wk_completion w))) (sy_sched y),
                 sy_published := sy_published y - {t}\<rparr>)"

definition sys_discard :: "rat \<Rightarrow> keyed_system \<Rightarrow> keyed_system" where
  "sys_discard now y =
     (case ks_discard_begin now (sy_sched y) of
        (s, discarded) \<Rightarrow> y\<lparr>sy_sched := s, sy_discarding := sy_discarding y @ discarded\<rparr>)"

definition sys_discard_one :: "nat \<Rightarrow> keyed_system \<Rightarrow> keyed_system" where
  "sys_discard_one k y =
     (if length (sy_discarding y) \<le> k then y
      else finish_completion (wk_completion (sy_discarding y ! k)) discarded_result
        (y\<lparr>sy_sched := ks_discard_one (sy_sched y), sy_discarding := del_at k (sy_discarding y)\<rparr>))"

definition on_sched :: "(keyed_scheduler \<Rightarrow> keyed_scheduler) \<Rightarrow> keyed_system \<Rightarrow> keyed_system" where
  "on_sched f y = y\<lparr>sy_sched := f (sy_sched y)\<rparr>"

fun keyed_step :: "(stream_dock_event \<Rightarrow> nat \<Rightarrow> nat) \<Rightarrow> keyed_op \<Rightarrow> keyed_system \<Rightarrow> keyed_system" where
  "keyed_step rsz (KSubmit now e sz) = sys_submit now e sz"
| "keyed_step rsz (KResume k now) = sys_resume k now"
| "keyed_step rsz (KSelect items) = on_sched (\<lambda>s. fst (ks_select_sized_event rsz items s))"
| "keyed_step rsz KStart = on_sched (\<lambda>s. fst (ks_start s))"
| "keyed_step rsz KLaunch = on_sched ks_launch"
| "keyed_step rsz KLaunchFailed = on_sched ks_launch_failed"
| "keyed_step rsz (KStartFailed n) = on_sched (ks_start_failed n)"
| "keyed_step rsz (KTake now t) = (\<lambda>y. if t \<in> set (ks_workers (sy_sched y)) then sys_take now t y else y)"
| "keyed_step rsz (KPublish t v) = sys_publish t v"
| "keyed_step rsz (KFinish t) = sys_finish t"
| "keyed_step rsz KWorkerEnd = on_sched ks_worker_end"
| "keyed_step rsz KStopAccepting = on_sched ks_stop_accepting"
| "keyed_step rsz (KDrain expired) = on_sched (\<lambda>s. fst (ks_drain_attempt expired s))"
| "keyed_step rsz (KDiscard now) = sys_discard now"
| "keyed_step rsz (KDiscardOne k) = sys_discard_one k"
| "keyed_step rsz (KSetWakeup n) = on_sched (ks_set_admission_wakeup n)"

lemma finish_completion_fields [simp]:
  "sy_sched (finish_completion c v y) = sy_sched y" "sy_log (finish_completion c v y) = sy_log y"
  "sy_waiting (finish_completion c v y) = sy_waiting y" "sy_next (finish_completion c v y) = sy_next y"
  "sy_published (finish_completion c v y) = sy_published y"
  "sy_discarding (finish_completion c v y) = sy_discarding y"
  by (simp_all add: finish_completion_def)

section \<open>Exclusion and order\<close>

text \<open>Two works conflict when their callbacks must not overlap.\<close>

definition conflicts :: "work \<Rightarrow> work \<Rightarrow> bool" where
  "conflicts a b = (wk_barrier a \<or> wk_barrier b \<or> wk_context a = wk_context b)"

lemma conflicts_sym: "conflicts a b = conflicts b a"
  by (auto simp: conflicts_def)

definition well_shaped :: "work \<Rightarrow> bool" where
  "well_shaped w = (wk_barrier w \<longleftrightarrow> wk_context w = None)"

definition active_works :: "keyed_scheduler \<Rightarrow> work set" where
  "active_works s = ran (map_of (ks_active s))"

definition ks_exclusive :: "keyed_scheduler \<Rightarrow> bool" where
  "ks_exclusive s \<longleftrightarrow>
     (\<forall>t t' w w'. map_of (ks_active s) t = Some w \<and> map_of (ks_active s) t' = Some w' \<and> t \<noteq> t'
        \<longrightarrow> \<not> conflicts w w') \<and>
     (\<forall>w \<in> set (ks_pending s) \<union> active_works s. well_shaped w) \<and>
     (\<forall>c. c \<in> ks_active_contexts s \<longleftrightarrow> (\<exists>w \<in> active_works s. wk_context w = Some c)) \<and>
     (ks_barrier_active s \<longleftrightarrow> (\<exists>w \<in> active_works s. wk_barrier w))"

text \<open>
  The work at an index may start: it conflicts with no running work and with no pending work
  accepted before it.
\<close>

definition may_start :: "keyed_scheduler \<Rightarrow> nat \<Rightarrow> bool" where
  "may_start s i \<longleftrightarrow>
     (\<forall>a \<in> active_works s. \<not> conflicts a (ks_pending s ! i)) \<and>
     (\<forall>j < i. \<not> conflicts (ks_pending s ! j) (ks_pending s ! i))"

lemma active_worksE:
  assumes "ks_active s \<noteq> []"
  obtains a where "a \<in> active_works s"
proof -
  obtain x xs where "ks_active s = x # xs" using assms by (cases "ks_active s") auto
  then have "map_of (ks_active s) (fst x) = Some (snd x)" by simp
  then show ?thesis using that unfolding active_works_def by (blast intro: ranI)
qed

lemma active_contextsD:
  assumes "ks_exclusive s" "c \<in> ks_active_contexts s"
  obtains a where "a \<in> active_works s" "wk_context a = Some c"
  using assms unfolding ks_exclusive_def by blast

lemma take_scan_may_start:
  assumes ok: "ks_exclusive s" and nb: "\<not> ks_barrier_active s"
    and scan: "take_scan (ks_active s \<noteq> []) (ks_active_contexts s) 0 (ks_pending s) = Some i"
  shows "i < length (ks_pending s)" "may_start s i" "\<forall>j < i. \<not> may_start s j"
proof -
  let ?ws = "ks_pending s"
  note S = take_scan_Some [OF scan, simplified]
  then show i: "i < length ?ws" by simp
  have shape: "well_shaped w" if "w \<in> set ?ws \<union> active_works s" for w
    using ok that by (simp add: ks_exclusive_def)
  have early: "\<not> wk_barrier (?ws ! j) \<and> the (wk_context (?ws ! j)) \<in> ks_active_contexts s" if "j < i" for j
    using S that by simp
  have wi: "well_shaped (?ws ! i)" using shape i by simp
  have free: "\<not> conflicts a (?ws ! i)" if a: "a \<in> active_works s" for a
  proof -
    have busy: "ks_active s \<noteq> []" using a by (auto simp: active_works_def)
    then have b: "\<not> wk_barrier (?ws ! i)" "the (wk_context (?ws ! i)) \<notin> ks_active_contexts s"
      using S by (auto split: if_splits)
    have "\<not> wk_barrier a"
      using ok nb a by (auto simp: ks_exclusive_def)
    moreover have "wk_context a \<noteq> wk_context (?ws ! i)"
    proof
      assume eq: "wk_context a = wk_context (?ws ! i)"
      with b wi obtain c where "wk_context a = Some c" "c \<notin> ks_active_contexts s"
        by (auto simp: well_shaped_def)
      with ok a show False by (auto simp: ks_exclusive_def)
    qed
    ultimately show ?thesis using b by (simp add: conflicts_def)
  qed
  moreover have "\<not> conflicts (?ws ! j) (?ws ! i)" if "j < i" for j
  proof -
    have b: "\<not> wk_barrier (?ws ! i)" "the (wk_context (?ws ! i)) \<notin> ks_active_contexts s"
      using S that by (auto split: if_splits)
    moreover have "well_shaped (?ws ! j)" using shape that i by simp
    ultimately show ?thesis
      using early [OF that] wi by (auto simp: conflicts_def well_shaped_def)
  qed
  ultimately show "may_start s i" by (simp add: may_start_def)
  show "\<forall>j < i. \<not> may_start s j"
  proof (intro allI impI)
    fix j assume j: "j < i"
    have "well_shaped (?ws ! j)" using shape j i by simp
    then obtain c where c: "wk_context (?ws ! j) = Some c" "c \<in> ks_active_contexts s"
      using early [OF j] by (auto simp: well_shaped_def)
    obtain a where "a \<in> active_works s" "wk_context a = Some c"
      using active_contextsD [OF ok c(2)] .
    then show "\<not> may_start s j" using c by (auto simp: may_start_def conflicts_def)
  qed
qed

lemma take_None_none_may_start:
  assumes ok: "ks_exclusive s" and none: "snd (ks_take now t s) = None" and i: "i < length (ks_pending s)"
  shows "\<not> may_start s i"
proof (cases "ks_barrier_active s")
  case True
  with ok obtain a where "a \<in> active_works s" "wk_barrier a"
    by (auto simp: ks_exclusive_def)
  then show ?thesis by (auto simp: may_start_def conflicts_def)
next
  case False
  with none have "take_scan (ks_active s \<noteq> []) (ks_active_contexts s) 0 (ks_pending s) = None"
    by (auto simp: ks_take_def split: option.splits)
  from take_scan_None [OF this i] obtain j where j: "j \<le> i"
    and alt: "wk_barrier (ks_pending s ! j) \<and> (j \<noteq> 0 \<or> ks_active s \<noteq> []) \<or>
      j = i \<and> \<not> wk_barrier (ks_pending s ! i) \<and> the (wk_context (ks_pending s ! i)) \<in> ks_active_contexts s"
    by auto
  show ?thesis
  proof (cases "j < i")
    case True
    then have "wk_barrier (ks_pending s ! j)" using alt by auto
    with True show ?thesis by (auto simp: may_start_def conflicts_def)
  next
    case False
    with j have ji: "j = i" by simp
    have shape: "well_shaped (ks_pending s ! i)" using ok i by (simp add: ks_exclusive_def)
    from alt ji consider "wk_barrier (ks_pending s ! i)" "i \<noteq> 0"
      | "wk_barrier (ks_pending s ! i)" "ks_active s \<noteq> []"
      | c where "wk_context (ks_pending s ! i) = Some c" "c \<in> ks_active_contexts s"
      using shape by (auto simp: well_shaped_def)
    then show ?thesis
    proof cases
      case 1
      then show ?thesis by (auto simp: may_start_def conflicts_def intro: exI [of _ 0])
    next
      case 2
      from 2(2) obtain a where "a \<in> active_works s" by (rule active_worksE)
      with 2 show ?thesis by (auto simp: may_start_def conflicts_def)
    next
      case 3
      from active_contextsD [OF ok 3(2)] obtain a where "a \<in> active_works s" "wk_context a = Some c" .
      with 3 show ?thesis by (auto simp: may_start_def conflicts_def)
    qed
  qed
qed

lemma take_SomeE:
  assumes "ks_take now t s = (s', Some w)"
  obtains i where "\<not> ks_barrier_active s"
    "take_scan (ks_active s \<noteq> []) (ks_active_contexts s) 0 (ks_pending s) = Some i"
    "s' = ks_take_at now t i s" "w = ks_pending s ! i"
  using assms by (auto simp: ks_take_def split: option.splits if_splits)

lemma take_None_same: "ks_take now t s = (s', None) \<Longrightarrow> s' = s"
  by (auto simp: ks_take_def split: option.splits if_splits)

lemma active_works_take_at:
  "map_of (ks_active s) t = None \<Longrightarrow>
     active_works (ks_take_at now t i s) = insert (ks_pending s ! i) (active_works s)"
  by (simp add: active_works_def ks_take_at_def Let_def update_conv')

lemma active_works_finish:
  assumes "ks_exclusive s" "map_of (ks_active s) t = Some w"
  shows "active_works (ks_finish t w v s) = active_works s - {w}"
proof -
  have "u = t" if "map_of (ks_active s) u = Some w" for u
    using assms that unfolding ks_exclusive_def by (metis conflicts_def)
  then have "(\<exists>u. u \<noteq> t \<and> map_of (ks_active s) u = Some x) \<longleftrightarrow>
      (\<exists>u. map_of (ks_active s) u = Some x) \<and> x \<noteq> w" for x
    using assms(2) by (metis option.inject)
  moreover have "ran ((map_of (ks_active s))(t := None)) = {x. \<exists>u. u \<noteq> t \<and> map_of (ks_active s) u = Some x}"
    by (auto simp: ran_def split: if_splits)
  ultimately show ?thesis
    by (simp add: active_works_def ks_finish_def delete_conv' ran_def set_eq_iff)
qed

lemma active_worksI: "map_of (ks_active s) t = Some w \<Longrightarrow> w \<in> active_works s"
  by (auto simp: active_works_def ran_def)

lemma ks_exclusive_take_at:
  assumes ok: "ks_exclusive s" and i: "i < length (ks_pending s)" and st: "may_start s i"
    and idle: "map_of (ks_active s) t = None"
  shows "ks_exclusive (ks_take_at now t i s)"
proof -
  let ?w = "ks_pending s ! i"
  let ?s' = "ks_take_at now t i s"
  have m: "map_of (ks_active ?s') = (map_of (ks_active s))(t \<mapsto> ?w)"
    by (simp add: ks_take_at_def Let_def update_conv')
  note aw = active_works_take_at [OF idle, of now i]
  have shape: "well_shaped ?w" using ok i by (simp add: ks_exclusive_def)
  have free: "\<not> conflicts a ?w" "\<not> conflicts ?w a" if "map_of (ks_active s) u = Some a" for u a
    using st active_worksI [OF that] conflicts_sym [of a ?w] by (auto simp: may_start_def)
  have "\<forall>u u' a a'. map_of (ks_active ?s') u = Some a \<and> map_of (ks_active ?s') u' = Some a' \<and> u \<noteq> u'
      \<longrightarrow> \<not> conflicts a a'"
    using ok free unfolding m ks_exclusive_def by (auto split: if_splits)
  moreover have "\<forall>w \<in> set (ks_pending ?s') \<union> active_works ?s'. well_shaped w"
    using ok shape in_set_del_at [of _ i "ks_pending s"] unfolding aw ks_exclusive_def
    by (auto simp: ks_take_at_def Let_def)
  moreover have "\<forall>c. c \<in> ks_active_contexts ?s' \<longleftrightarrow> (\<exists>a \<in> active_works ?s'. wk_context a = Some c)"
    using ok shape unfolding aw ks_exclusive_def
    by (auto simp: ks_take_at_def Let_def well_shaped_def)
  moreover have "ks_barrier_active ?s' \<longleftrightarrow> (\<exists>a \<in> active_works ?s'. wk_barrier a)"
    using ok unfolding aw ks_exclusive_def by (auto simp: ks_take_at_def Let_def)
  ultimately show ?thesis unfolding ks_exclusive_def by blast
qed

lemma ks_exclusive_finish:
  assumes ok: "ks_exclusive s" and t: "map_of (ks_active s) t = Some w"
  shows "ks_exclusive (ks_finish t w v s)"
proof -
  let ?s' = "ks_finish t w v s"
  have m: "map_of (ks_active ?s') = (map_of (ks_active s))(t := None)"
    by (simp add: ks_finish_def delete_conv')
  note aw = active_works_finish [OF assms, of v]
  have shape: "well_shaped w" using ok active_worksI [OF t] by (simp add: ks_exclusive_def)
  have apart: "\<not> conflicts w a" if a: "a \<in> active_works s" "a \<noteq> w" for a
  proof -
    obtain u where "map_of (ks_active s) u = Some a" using a by (auto simp: active_works_def ran_def)
    with ok t a show ?thesis unfolding ks_exclusive_def by (metis option.inject)
  qed
  have "\<forall>u u' a a'. map_of (ks_active ?s') u = Some a \<and> map_of (ks_active ?s') u' = Some a' \<and> u \<noteq> u'
      \<longrightarrow> \<not> conflicts a a'"
    using ok unfolding m ks_exclusive_def by (auto split: if_splits)
  moreover have "\<forall>w \<in> set (ks_pending ?s') \<union> active_works ?s'. well_shaped w"
    using ok unfolding aw ks_exclusive_def by (auto simp: ks_finish_def)
  moreover have "c \<in> ks_active_contexts ?s' \<longleftrightarrow> (\<exists>a \<in> active_works ?s'. wk_context a = Some c)" for c
  proof -
    have "c \<in> ks_active_contexts ?s' \<longleftrightarrow> c \<in> ks_active_contexts s \<and> wk_context w \<noteq> Some c"
      using shape by (auto simp: ks_finish_def well_shaped_def)
    moreover have "wk_context w \<noteq> Some c" if "a \<in> active_works s" "a \<noteq> w" "wk_context a = Some c" for a
      using apart [OF that(1,2)] that(3) by (auto simp: conflicts_def)
    ultimately show ?thesis using ok unfolding aw ks_exclusive_def by blast
  qed
  moreover have "ks_barrier_active ?s' \<longleftrightarrow> (\<exists>a \<in> active_works ?s'. wk_barrier a)"
    using ok apart active_worksI [OF t] unfolding aw ks_exclusive_def
    by (auto simp: ks_finish_def conflicts_def)
  ultimately show ?thesis unfolding ks_exclusive_def by blast
qed

text \<open>Segments that neither add nor start nor finish a work.\<close>

lemma ks_exclusive_cong:
  assumes "ks_active s' = ks_active s" "set (ks_pending s') \<subseteq> set (ks_pending s)"
    "ks_active_contexts s' = ks_active_contexts s" "ks_barrier_active s' = ks_barrier_active s"
    "ks_exclusive s"
  shows "ks_exclusive s'"
  using assms by (auto simp: ks_exclusive_def active_works_def)

lemma ks_exclusive_append: "ks_exclusive s \<Longrightarrow> ks_exclusive (ks_append now e sz c s)"
  by (auto simp: ks_exclusive_def active_works_def ks_append_def Let_def well_shaped_def)

lemma ks_exclusive_submit:
  assumes "ks_exclusive s"
  shows "ks_exclusive (fst (ks_submit_begin now e sz c s))" "ks_exclusive (fst (ks_submit_resume now e sz c s))"
  using assms ks_exclusive_append [OF assms]
  by (simp_all add: ks_submit_begin_def ks_submit_resume_def ks_discard_submission_def)
     (simp_all add: ks_exclusive_def active_works_def)

text \<open>The tokens: pending works wait in order of acceptance, and no work overtakes a conflicting one.\<close>

definition sys_ordered :: "keyed_system \<Rightarrow> bool" where
  "sys_ordered y \<longleftrightarrow> (let s = sy_sched y in
     sorted_wrt (<) (map wk_token (ks_pending s)) \<and>
     (\<forall>w \<in> set (ks_pending s) \<union> set (sy_log y). wk_token w \<le> ks_internal_token s) \<and>
     active_works s \<subseteq> set (sy_log y) \<and>
     (\<forall>b \<in> set (sy_log y). \<forall>p \<in> set (ks_pending s). wk_token b \<noteq> wk_token p) \<and>
     (\<forall>b \<in> set (sy_log y). \<forall>a \<in> set (ks_pending s) \<union> active_works s.
        wk_token a < wk_token b \<longrightarrow> \<not> conflicts a b) \<and>
     sorted_wrt (\<lambda>a b. conflicts a b \<longrightarrow> wk_token a < wk_token b) (sy_log y))"

lemma sys_ordered_cong:
  assumes "sys_ordered y" "active_works (sy_sched y') \<subseteq> active_works (sy_sched y)"
    "ks_pending (sy_sched y') = ks_pending (sy_sched y) \<or> ks_pending (sy_sched y') = []"
    "ks_internal_token (sy_sched y') = ks_internal_token (sy_sched y)" "sy_log y' = sy_log y"
  shows "sys_ordered y'"
  using assms(3)
proof
  assume p: "ks_pending (sy_sched y') = ks_pending (sy_sched y)"
  show ?thesis
    using assms(1,2) unfolding sys_ordered_def Let_def p assms(4,5) by blast
next
  assume p: "ks_pending (sy_sched y') = []"
  show ?thesis
    using assms(1,2) unfolding sys_ordered_def Let_def p assms(4,5) by (simp, blast)
qed

lemma sys_ordered_append:
  assumes "sys_ordered y" "sy_sched y' = ks_append now e sz c (sy_sched y)" "sy_log y' = sy_log y"
  shows "sys_ordered y'"
proof -
  let ?s = "sy_sched y"
  obtain w where w: "ks_pending (sy_sched y') = ks_pending ?s @ [w]" "wk_token w = Suc (ks_internal_token ?s)"
    "ks_internal_token (sy_sched y') = Suc (ks_internal_token ?s)"
    "active_works (sy_sched y') = active_works ?s"
    using assms(2) by (simp add: ks_append_def Let_def active_works_def)
  have O: "sorted_wrt (<) (map wk_token (ks_pending ?s))"
      "\<And>x. x \<in> set (ks_pending ?s) \<or> x \<in> set (sy_log y) \<Longrightarrow> wk_token x \<le> ks_internal_token ?s"
      "active_works ?s \<subseteq> set (sy_log y)"
      "\<And>b p. b \<in> set (sy_log y) \<Longrightarrow> p \<in> set (ks_pending ?s) \<Longrightarrow> wk_token b \<noteq> wk_token p"
      "\<And>b a. b \<in> set (sy_log y) \<Longrightarrow> a \<in> set (ks_pending ?s) \<or> a \<in> active_works ?s \<Longrightarrow>
         wk_token a < wk_token b \<Longrightarrow> \<not> conflicts a b"
      "sorted_wrt (\<lambda>a b. conflicts a b \<longrightarrow> wk_token a < wk_token b) (sy_log y)"
    using assms(1) unfolding sys_ordered_def Let_def by blast+
  have old: "wk_token a < wk_token w" if "a \<in> set (ks_pending ?s) \<or> a \<in> set (sy_log y)" for a
    using O(2) [OF that] w(2) by simp
  have "sorted_wrt (<) (map wk_token (ks_pending ?s @ [w]))"
    using O(1) old by (simp add: sorted_wrt_append)
  moreover have "\<forall>x \<in> set (ks_pending ?s @ [w]) \<union> set (sy_log y). wk_token x \<le> Suc (ks_internal_token ?s)"
    using O(2) w(2) by (auto intro: le_SucI)
  moreover have "\<forall>b \<in> set (sy_log y). \<forall>p \<in> set (ks_pending ?s @ [w]). wk_token b \<noteq> wk_token p"
    using O(4) old by (auto dest: less_imp_neq)
  moreover have "\<forall>b \<in> set (sy_log y). \<forall>a \<in> set (ks_pending ?s @ [w]) \<union> active_works ?s.
      wk_token a < wk_token b \<longrightarrow> \<not> conflicts a b"
    using O(5) old by (auto dest: less_asym)
  ultimately show ?thesis
    using O(3,6) unfolding sys_ordered_def Let_def w(1,3,4) assms(3) by blast
qed

lemma sys_ordered_take:
  assumes ok: "sys_ordered y" and ex: "ks_exclusive (sy_sched y)"
    and idle: "map_of (ks_active (sy_sched y)) t = None"
    and take: "ks_take now t (sy_sched y) = (s', Some w)"
    and y': "sy_sched y' = s'" "sy_log y' = sy_log y @ [w]"
  shows "sys_ordered y'"
proof -
  let ?s = "sy_sched y"
  from take obtain i where i: "\<not> ks_barrier_active ?s"
      "take_scan (ks_active ?s \<noteq> []) (ks_active_contexts ?s) 0 (ks_pending ?s) = Some i"
      "s' = ks_take_at now t i ?s" "w = ks_pending ?s ! i" by (rule take_SomeE)
  note ms = take_scan_may_start [OF ex i(1,2)]
  from ms(1) obtain us vs where p: "ks_pending ?s = us @ w # vs" "del_at i (ks_pending ?s) = us @ vs"
    "length us = i" using i(4) by (auto elim: del_atE)
  have p': "ks_pending s' = us @ vs" and tok: "ks_internal_token s' = ks_internal_token ?s"
    using i(3) p(2) by (simp_all add: ks_take_at_def Let_def)
  have aw: "active_works s' = insert w (active_works ?s)"
    using active_works_take_at [OF idle, of now i] i(3,4) by simp
  have free: "\<not> conflicts a w" if "a \<in> active_works ?s \<union> set us" for a
  proof (cases "a \<in> active_works ?s")
    case False
    with that obtain j where "j < i" "a = us ! j" using p(3) by (auto simp: in_set_conv_nth)
    then have "a = ks_pending ?s ! j" using p by (simp add: nth_append)
    with \<open>j < i\<close> ms(2) i(4) show ?thesis by (auto simp: may_start_def)
  qed (use ms(2) i(4) in \<open>auto simp: may_start_def\<close>)
  have later: "wk_token w < wk_token a" if "a \<in> set vs" for a
    using ok that unfolding sys_ordered_def Let_def p(1) by (simp add: sorted_wrt_append)
  have earlier: "wk_token a < wk_token w" if "a \<in> set us" for a
    using ok that unfolding sys_ordered_def Let_def p(1) by (simp add: sorted_wrt_append)
  have O: "sorted_wrt (<) (map wk_token (us @ vs))"
      "\<forall>x \<in> set (us @ w # vs) \<union> set (sy_log y). wk_token x \<le> ks_internal_token ?s"
      "active_works ?s \<subseteq> set (sy_log y)"
      "\<forall>b \<in> set (sy_log y). \<forall>p \<in> set (us @ w # vs). wk_token b \<noteq> wk_token p"
      "\<forall>b \<in> set (sy_log y). \<forall>a \<in> set (us @ w # vs) \<union> active_works ?s.
         wk_token a < wk_token b \<longrightarrow> \<not> conflicts a b"
      "sorted_wrt (\<lambda>a b. conflicts a b \<longrightarrow> wk_token a < wk_token b) (sy_log y)"
    using ok unfolding sys_ordered_def Let_def p(1) by (simp_all add: sorted_wrt_append)
  have "\<forall>b \<in> set (sy_log y @ [w]). \<forall>p \<in> set (us @ vs). wk_token b \<noteq> wk_token p"
    using O(4) later earlier by fastforce
  moreover have "\<forall>b \<in> set (sy_log y @ [w]). \<forall>a \<in> set (us @ vs) \<union> insert w (active_works ?s).
      wk_token a < wk_token b \<longrightarrow> \<not> conflicts a b"
    using O(5) free later by (fastforce dest: less_asym)
  moreover have "conflicts b w \<longrightarrow> wk_token b < wk_token w" if "b \<in> set (sy_log y)" for b
    using O(4,5) that conflicts_sym [of b w] by (metis Un_iff in_set_conv_decomp linorder_neqE_nat)
  then have "sorted_wrt (\<lambda>a b. conflicts a b \<longrightarrow> wk_token a < wk_token b) (sy_log y @ [w])"
    using O(6) by (simp add: sorted_wrt_append)
  ultimately show ?thesis
    using O(1,2,3) unfolding sys_ordered_def Let_def y' p' tok aw by auto
qed

section \<open>Completions\<close>

text \<open>The completions not yet finished: of waiting submissions, pending, discarded and running works.\<close>

definition open_ids :: "keyed_system \<Rightarrow> nat list" where
  "open_ids y = map fst (sy_waiting y) @ map wk_completion (ks_pending (sy_sched y) @ sy_discarding y)
     @ map (wk_completion \<circ> snd) (filter (\<lambda>(t, w). t \<notin> sy_published y) (ks_active (sy_sched y)))"

definition ids_ok :: "nat multiset \<Rightarrow> nat \<Rightarrow> (nat \<rightharpoonup> completion_value) \<Rightarrow> bool" where
  "ids_ok ids n m \<longleftrightarrow> (\<forall>c. count ids c \<le> 1) \<and> set_mset ids \<subseteq> {..<n} \<and> dom m = {..<n} - set_mset ids"

lemma ids_ok_new: "ids_ok ids n m \<Longrightarrow> ids_ok (add_mset n ids) (Suc n) m"
  unfolding ids_ok_def by (auto simp: count_eq_zero_iff)

lemma ids_ok_new_finished: "ids_ok ids n m \<Longrightarrow> m n = None \<and> ids_ok ids (Suc n) (m(n \<mapsto> v))"
  unfolding ids_ok_def by auto

lemma ids_ok_finish:
  assumes "ids_ok (add_mset c ids) n m"
  shows "m c = None \<and> ids_ok ids n (m(c \<mapsto> v))"
proof -
  have "count (add_mset c ids) c \<le> 1" using assms unfolding ids_ok_def by blast
  then have "c \<notin># ids" by (simp add: count_eq_zero_iff)
  moreover have "count ids d \<le> 1" for d
    using assms unfolding ids_ok_def by (metis count_add_mset le_SucI nat_le_linear not_less_eq_eq)
  ultimately show ?thesis using assms unfolding ids_ok_def by auto
qed

definition sys_settled :: "keyed_system \<Rightarrow> bool" where
  "sys_settled y \<longleftrightarrow> (let s = sy_sched y in
     ids_ok (mset (open_ids y)) (sy_next y) (sy_completions y) \<and> \<not> sy_double y \<and>
     sy_published y \<subseteq> fst ` set (ks_active s) \<and> distinct (map fst (ks_active s)) \<and>
     ks_terminalizing s = length (sy_discarding y) \<and>
     ks_accepted s = length (ks_pending s) + length (ks_active s) + length (sy_discarding y)
       + ks_completed s)"

lemma open_ids_simps:
  "mset (open_ids y) = image_mset fst (mset (sy_waiting y))
     + image_mset wk_completion (mset (ks_pending (sy_sched y)) + mset (sy_discarding y))
     + image_mset (wk_completion \<circ> snd) (mset (filter (\<lambda>(t, w). t \<notin> sy_published y) (ks_active (sy_sched y))))"
  by (simp add: open_ids_def)

lemma update_fresh: "t \<notin> fst ` set xs \<Longrightarrow> AList.update t w xs = xs @ [(t, w)]"
  by (induction xs) auto

lemma delete_filter: "AList.delete t xs = filter (\<lambda>(u, w). u \<noteq> t) xs"
  by (induction xs) auto

lemma filter_absent: "t \<notin> fst ` set xs \<Longrightarrow> filter (\<lambda>(u, w). u \<noteq> t) xs = xs"
  by (induction xs) auto

lemma mset_del_at: "i < length xs \<Longrightarrow> mset xs = add_mset (xs ! i) (mset (del_at i xs))"
  by (metis del_atE mset.simps(2) mset_append union_mset_add_mset_right)

lemma sys_settled_same:
  assumes "sys_settled y" "ks_pending s' = ks_pending (sy_sched y)" "ks_active s' = ks_active (sy_sched y)"
    "ks_terminalizing s' = ks_terminalizing (sy_sched y)" "ks_accepted s' = ks_accepted (sy_sched y)"
    "ks_completed s' = ks_completed (sy_sched y)"
  shows "sys_settled (y\<lparr>sy_sched := s'\<rparr>)"
  using assms by (simp add: sys_settled_def Let_def open_ids_def)

lemma sys_settled_admit:
  assumes "sys_settled y"
  shows "sys_settled (y\<lparr>sy_sched := ks_append now e sz (sy_next y) (sy_sched y), sy_next := Suc (sy_next y)\<rparr>)"
  using assms ids_ok_new [of "mset (open_ids y)" "sy_next y"]
  by (simp add: sys_settled_def Let_def open_ids_simps ks_append_def)

lemma sys_settled_new_finished:
  assumes "sys_settled (y\<lparr>sy_sched := s\<rparr>)"
  shows "sys_settled (finish_completion (sy_next y) v (y\<lparr>sy_sched := s, sy_next := Suc (sy_next y)\<rparr>))"
proof -
  have "ids_ok (mset (open_ids (y\<lparr>sy_sched := s\<rparr>))) (sy_next y) (sy_completions y)"
    using assms by (simp add: sys_settled_def Let_def)
  from ids_ok_new_finished [OF this] have "sy_completions y (sy_next y) = None"
    "ids_ok (mset (open_ids (y\<lparr>sy_sched := s\<rparr>))) (Suc (sy_next y)) ((sy_completions y)(sy_next y \<mapsto> v))"
    by simp_all
  then show ?thesis
    using assms by (simp add: sys_settled_def Let_def finish_completion_def open_ids_def)
qed

lemma sys_settled_wait:
  assumes "sys_settled (y\<lparr>sy_sched := s\<rparr>)"
  shows "sys_settled (y\<lparr>sy_sched := s, sy_next := Suc (sy_next y), sy_waiting := sy_waiting y @ [(sy_next y, x)]\<rparr>)"
  using assms ids_ok_new [of "mset (open_ids (y\<lparr>sy_sched := s\<rparr>))" "sy_next y"]
  by (simp add: sys_settled_def Let_def open_ids_simps)

lemma sys_settled_submit:
  assumes "sys_settled y"
  shows "sys_settled (sys_submit now e sz y)"
proof (cases "ks_submit_begin now e sz (sy_next y) (sy_sched y)")
  case (Pair s r)
  have same: "sys_settled (y\<lparr>sy_sched := s\<rparr>)" if "r \<noteq> Admitted"
    using Pair that
    by (intro sys_settled_same [OF assms])
       (auto simp: ks_submit_begin_def ks_discard_submission_def split: if_splits)
  have "r = Admitted \<Longrightarrow> s = ks_append now e sz (sy_next y) (sy_sched y)"
    using Pair by (auto simp: ks_submit_begin_def ks_discard_submission_def split: if_splits)
  then show ?thesis
    using Pair same sys_settled_admit [OF assms] sys_settled_new_finished sys_settled_wait
    by (cases r) (simp_all add: sys_submit_def Let_def)
qed

lemma sys_settled_resume:
  assumes ok: "sys_settled y"
  shows "sys_settled (sys_resume k now y)"
proof (cases "k < length (sy_waiting y)")
  case True
  obtain c e sz where x: "sy_waiting y ! k = (c, e, sz)" by (cases "sy_waiting y ! k") auto
  note del = mset_del_at [OF True, unfolded x]
  obtain s r where sr: "ks_submit_resume now e sz c (sy_sched y) = (s, r)" by fastforce
  let ?y' = "y\<lparr>sy_waiting := del_at k (sy_waiting y)\<rparr>"
  show ?thesis
  proof (cases r)
    case Admitted
    then have s: "s = ks_append now e sz c (sy_sched y)"
      using sr by (auto simp: ks_submit_resume_def ks_discard_submission_def split: if_splits)
    have "mset (open_ids (?y'\<lparr>sy_sched := s\<rparr>)) = mset (open_ids y)"
      using del s by (simp add: open_ids_simps ks_append_def Let_def)
    then show ?thesis
      using ok True x sr Admitted s
      by (simp add: sys_resume_def sys_settled_def Let_def ks_append_def)
  next
    case (Finished v)
    then have s: "s = (sy_sched y)\<lparr>ks_discarded_during_shutdown :=
        Suc (ks_discarded_during_shutdown (sy_sched y))\<rparr>"
      using sr by (auto simp: ks_submit_resume_def ks_discard_submission_def split: if_splits)
    have "mset (open_ids y) = add_mset c (mset (open_ids (?y'\<lparr>sy_sched := s\<rparr>)))"
      using del s by (simp add: open_ids_simps)
    then have "ids_ok (add_mset c (mset (open_ids (?y'\<lparr>sy_sched := s\<rparr>)))) (sy_next y) (sy_completions y)"
      using ok by (simp add: sys_settled_def Let_def)
    from ids_ok_finish [OF this, of v] ok True x sr Finished s show ?thesis
      by (simp add: sys_resume_def sys_settled_def Let_def finish_completion_def open_ids_def)
  next
    case (SubmitRaises x)
    then show ?thesis using sr by (auto simp: ks_submit_resume_def ks_discard_submission_def split: if_splits)
  next
    case SubmitWaits
    then have "s = sy_sched y"
      using sr by (auto simp: ks_submit_resume_def ks_discard_submission_def split: if_splits)
    then show ?thesis using ok True x sr SubmitWaits by (simp add: sys_resume_def)
  qed
qed (simp add: sys_resume_def ok)

lemma sys_settled_take:
  assumes ok: "sys_settled y"
  shows "sys_settled (sys_take now t y)"
proof (cases "map_of (ks_active (sy_sched y)) t")
  case None
  let ?s = "sy_sched y"
  have fresh: "t \<notin> fst ` set (ks_active ?s)" using None by (simp add: map_of_eq_None_iff)
  show ?thesis
  proof (cases "ks_take now t ?s")
    case (Pair s' r)
    show ?thesis
    proof (cases r)
      case None
      then have "s' = ?s" using Pair by (simp add: take_None_same)
      then show ?thesis using ok Pair None \<open>map_of (ks_active ?s) t = None\<close> by (simp add: sys_take_def)
    next
      case (Some w)
      then obtain i where i: "take_scan (ks_active ?s \<noteq> []) (ks_active_contexts ?s) 0 (ks_pending ?s) = Some i"
        "s' = ks_take_at now t i ?s" "w = ks_pending ?s ! i"
        using Pair take_SomeE by metis
      then have len: "i < length (ks_pending ?s)" using take_scan_Some [OF i(1)] by simp
      have act: "ks_active s' = ks_active ?s @ [(t, w)]"
        using i fresh by (simp add: ks_take_at_def Let_def update_fresh)
      have pend: "ks_pending s' = del_at i (ks_pending ?s)"
        using i by (simp add: ks_take_at_def Let_def)
      have "t \<notin> sy_published y" using ok fresh by (auto simp: sys_settled_def Let_def)
      then have "mset (open_ids (y\<lparr>sy_sched := s', sy_log := l\<rparr>)) = mset (open_ids y)" for l
        using mset_del_at [OF len] i(3) by (simp add: open_ids_simps act pend)
      moreover have "length (ks_pending ?s) = Suc (length (del_at i (ks_pending ?s)))"
        using len by simp
      ultimately show ?thesis
        using ok fresh i Pair Some \<open>map_of (ks_active ?s) t = None\<close> act pend
        by (auto simp: sys_take_def sys_settled_def Let_def ks_take_at_def)
    qed
  qed
next
  case (Some w)
  then show ?thesis using ok by (simp add: sys_take_def)
qed

lemma active_split:
  assumes "map_of xs t = Some w" "distinct (map fst xs)"
  obtains us vs where "xs = us @ (t, w) # vs" "t \<notin> fst ` set us" "t \<notin> fst ` set vs"
proof -
  obtain us vs where "xs = us @ (t, w) # vs" using assms(1) by (meson map_of_SomeD split_list)
  then show ?thesis using assms(2) that by auto
qed

lemma filter_cong_keys:
  "t \<notin> fst ` set xs \<Longrightarrow> filter (\<lambda>(u, w). u \<noteq> t \<and> u \<notin> A) xs = filter (\<lambda>(u, w). u \<notin> A) xs"
  by (rule filter_cong) (auto simp: image_iff)

lemma sys_settled_publish:
  assumes ok: "sys_settled y"
  shows "sys_settled (sys_publish t v y)"
proof (cases "map_of (ks_active (sy_sched y)) t")
  case None
  then show ?thesis using ok by (simp add: sys_publish_def)
next
  case (Some w)
  let ?y' = "y\<lparr>sy_published := insert t (sy_published y)\<rparr>"
  show ?thesis
  proof (cases "t \<in> sy_published y")
    case True
    then show ?thesis using ok Some by (simp add: sys_publish_def)
  next
    case False
    have "distinct (map fst (ks_active (sy_sched y)))" using ok by (simp add: sys_settled_def Let_def)
    with Some obtain us vs where xs: "ks_active (sy_sched y) = us @ (t, w) # vs"
      "t \<notin> fst ` set us" "t \<notin> fst ` set vs" by (rule active_split)
    have "mset (open_ids y) = add_mset (wk_completion w) (mset (open_ids ?y'))"
      using False xs by (simp add: open_ids_simps filter_cong_keys)
    then have "ids_ok (add_mset (wk_completion w) (mset (open_ids ?y'))) (sy_next y) (sy_completions y)"
      using ok by (simp add: sys_settled_def Let_def)
    from ids_ok_finish [OF this, of v] ok Some False xs show ?thesis
      by (simp add: sys_publish_def sys_settled_def Let_def finish_completion_def open_ids_def)
  qed
qed

lemma sys_settled_finish:
  assumes ok: "sys_settled y"
  shows "sys_settled (sys_finish t y)"
proof (cases "map_of (ks_active (sy_sched y)) t")
  case None
  then show ?thesis using ok by (simp add: sys_finish_def)
next
  case (Some w)
  show ?thesis
  proof (cases "t \<in> sy_published y")
    case False
    then show ?thesis using ok Some by (simp add: sys_finish_def)
  next
    case True
    let ?y' = "sys_finish t y"
    have "distinct (map fst (ks_active (sy_sched y)))" using ok by (simp add: sys_settled_def Let_def)
    with Some obtain us vs where xs: "ks_active (sy_sched y) = us @ (t, w) # vs"
      "t \<notin> fst ` set us" "t \<notin> fst ` set vs" by (rule active_split)
    have del: "AList.delete t (us @ (t, w) # vs) = us @ vs"
      using xs(2,3) by (simp add: delete_filter filter_absent)
    have y': "ks_active (sy_sched ?y') = us @ vs" "sy_published ?y' = sy_published y - {t}"
      using Some True xs(1) del by (simp_all add: sys_finish_def ks_finish_def)
    have "filter (\<lambda>(u, w). u \<notin> sy_published y - {t}) zs = filter (\<lambda>(u, w). u \<notin> sy_published y) zs"
      if "t \<notin> fst ` set zs" for zs :: "(nat \<times> work) list"
      using that by (intro filter_cong) (auto simp: image_iff)
    moreover have "sy_waiting ?y' = sy_waiting y" "ks_pending (sy_sched ?y') = ks_pending (sy_sched y)"
      "sy_discarding ?y' = sy_discarding y"
      using Some True by (simp_all add: sys_finish_def ks_finish_def)
    ultimately have "open_ids ?y' = open_ids y"
      using xs True unfolding open_ids_def y' by simp
    then show ?thesis
      using ok xs Some True del unfolding sys_settled_def Let_def
      by (auto simp: sys_finish_def ks_finish_def)
  qed
qed

lemma sys_settled_discard:
  assumes "sys_settled y"
  shows "sys_settled (sys_discard now y)"
proof -
  have "mset (open_ids (sys_discard now y)) = mset (open_ids y)"
    by (simp add: open_ids_simps sys_discard_def ks_discard_begin_def Let_def)
  then show ?thesis
    using assms by (simp add: sys_settled_def Let_def sys_discard_def ks_discard_begin_def)
qed

lemma sys_settled_discard_one:
  assumes ok: "sys_settled y"
  shows "sys_settled (sys_discard_one k y)"
proof (cases "k < length (sy_discarding y)")
  case True
  let ?c = "wk_completion (sy_discarding y ! k)"
  let ?y' = "y\<lparr>sy_sched := ks_discard_one (sy_sched y), sy_discarding := del_at k (sy_discarding y)\<rparr>"
  have "mset (open_ids y) = add_mset ?c (mset (open_ids ?y'))"
    using mset_del_at [OF True] by (simp add: open_ids_simps ks_discard_one_def)
  then have "ids_ok (add_mset ?c (mset (open_ids ?y'))) (sy_next y) (sy_completions y)"
    using ok by (simp add: sys_settled_def Let_def)
  from ids_ok_finish [OF this, of discarded_result] ok True show ?thesis
    by (simp add: sys_discard_one_def sys_settled_def Let_def finish_completion_def open_ids_def
        ks_discard_one_def)
qed (simp add: sys_discard_one_def ok)

section \<open>The invariant\<close>

definition sys_ok :: "nat \<Rightarrow> nat \<Rightarrow> keyed_system \<Rightarrow> bool" where
  "sys_ok limit bytes y \<longleftrightarrow>
     ks_sized limit bytes (sy_sched y) \<and> ks_exclusive (sy_sched y) \<and> sys_ordered y \<and> sys_settled y"

lemma sys_okI:
  "ks_sized limit bytes (sy_sched y) \<Longrightarrow> ks_exclusive (sy_sched y) \<Longrightarrow> sys_ordered y \<Longrightarrow>
     sys_settled y \<Longrightarrow> sys_ok limit bytes y"
  by (simp only: sys_ok_def)

lemma sys_okD:
  assumes "sys_ok limit bytes y"
  shows "ks_sized limit bytes (sy_sched y)" "ks_exclusive (sy_sched y)" "sys_ordered y" "sys_settled y"
  using assms by (simp_all only: sys_ok_def)

text \<open>A segment that leaves the works and their states alone keeps the invariant.\<close>

definition same_works :: "keyed_scheduler \<Rightarrow> keyed_scheduler \<Rightarrow> bool" where
  "same_works s s' \<longleftrightarrow>
     ks_pending s' = ks_pending s \<and> ks_active s' = ks_active s \<and>
     ks_active_contexts s' = ks_active_contexts s \<and> ks_barrier_active s' = ks_barrier_active s \<and>
     ks_internal_token s' = ks_internal_token s \<and> ks_terminalizing s' = ks_terminalizing s \<and>
     ks_accepted s' = ks_accepted s \<and> ks_completed s' = ks_completed s"

lemma same_works_refl: "same_works s s"
  by (simp add: same_works_def)

lemma same_works_select: "same_works s (fst (ks_select_sized_event rsz items s))"
proof -
  let ?sel = "if length (ks_pending s) < ks_pending_limit s then select_scan rsz s 0 {} items else None"
  have none: "same_works s (if \<not> ks_selection_backpressured s
      then s\<lparr>ks_admission_backpressure := n, ks_selection_backpressured := True\<rparr> else s)" for n
    by (simp add: same_works_def)
  have some: "same_works s (s\<lparr>ks_selection_backpressured := False\<rparr>)" by (simp add: same_works_def)
  consider "\<not> ks_accepting s \<or> \<not> ks_started s" | "ks_accepting s" "ks_started s" "?sel = None"
    | i where "ks_accepting s" "ks_started s" "?sel = Some i" by (cases ?sel) auto
  then show ?thesis
  proof cases
    case 1
    then show ?thesis by (cases "ks_accepted s") (simp_all add: ks_select_sized_event_def same_works_refl)
  next
    case 2
    then show ?thesis using none by (simp add: ks_select_sized_event_def del: if_split)
  next
    case 3
    then show ?thesis using some by (simp add: ks_select_sized_event_def del: if_split)
  qed
qed

lemma same_works_launch: "same_works s (ks_launch s)" "same_works s (ks_launch_failed s)"
  by (simp_all add: same_works_def ks_launch_def ks_launch_failed_def)

lemma same_works_start_failed: "same_works s (ks_start_failed n s)"
  by (simp add: same_works_def ks_start_failed_def)

lemma same_works_worker_end: "same_works s (ks_worker_end s)"
  by (simp add: same_works_def ks_worker_end_def)

lemma same_works_stop_accepting: "same_works s (ks_stop_accepting s)"
  by (simp add: same_works_def ks_stop_accepting_def)

lemma same_works_wakeup: "same_works s (ks_set_admission_wakeup m s)"
  by (simp add: same_works_def ks_set_admission_wakeup_def)

lemma same_works_start: "same_works s (fst (ks_start s))"
  by (simp add: same_works_def ks_start_def Let_def)

lemma same_works_drain: "same_works s (fst (ks_drain_attempt x s))"
  by (simp add: same_works_def ks_drain_attempt_def Let_def)

lemmas same_works_segments = same_works_launch same_works_start_failed same_works_worker_end
  same_works_stop_accepting same_works_wakeup same_works_start same_works_drain same_works_select

lemma sys_ok_on_sched:
  assumes ok: "sys_ok l b y" and w: "same_works (sy_sched y) (f (sy_sched y))"
    and sz: "ks_sized l b (f (sy_sched y))"
  shows "sys_ok l b (on_sched f y)"
proof (rule sys_okI)
  note F = w [unfolded same_works_def]
  have s: "sy_sched (on_sched f y) = f (sy_sched y)" "sy_log (on_sched f y) = sy_log y"
    by (simp_all add: on_sched_def)
  show "ks_sized l b (sy_sched (on_sched f y))" by (simp only: s sz)
  show "ks_exclusive (sy_sched (on_sched f y))"
    unfolding s by (rule ks_exclusive_cong [OF _ _ _ _ sys_okD(2) [OF ok]]) (simp_all only: F subset_refl)
  show "sys_ordered (on_sched f y)"
    by (rule sys_ordered_cong [OF sys_okD(3) [OF ok]])
       (simp_all only: s F active_works_def subset_refl simp_thms)
  show "sys_settled (on_sched f y)"
    unfolding on_sched_def by (rule sys_settled_same [OF sys_okD(4) [OF ok]]) (simp_all only: F)
qed

lemma sys_ordered_submitted:
  assumes "sys_ordered y" "sy_log y' = sy_log y"
    "sy_sched y' = ks_append now e sz c (sy_sched y) \<or>
     ks_pending (sy_sched y') = ks_pending (sy_sched y) \<and> ks_active (sy_sched y') = ks_active (sy_sched y) \<and>
       ks_internal_token (sy_sched y') = ks_internal_token (sy_sched y)"
  shows "sys_ordered y'"
  using assms(3)
proof
  assume "sy_sched y' = ks_append now e sz c (sy_sched y)"
  from sys_ordered_append [OF assms(1) this assms(2)] show ?thesis .
next
  assume F: "ks_pending (sy_sched y') = ks_pending (sy_sched y) \<and> ks_active (sy_sched y') = ks_active (sy_sched y) \<and>
       ks_internal_token (sy_sched y') = ks_internal_token (sy_sched y)"
  show ?thesis
    by (rule sys_ordered_cong [OF assms(1)]) (simp_all add: F active_works_def assms(2))
qed

lemma submit_cases:
  "fst (ks_submit_begin now e sz c s) = ks_append now e sz c s \<or>
     ks_pending (fst (ks_submit_begin now e sz c s)) = ks_pending s \<and>
     ks_active (fst (ks_submit_begin now e sz c s)) = ks_active s \<and>
     ks_internal_token (fst (ks_submit_begin now e sz c s)) = ks_internal_token s"
  "fst (ks_submit_resume now e sz c s) = ks_append now e sz c s \<or>
     ks_pending (fst (ks_submit_resume now e sz c s)) = ks_pending s \<and>
     ks_active (fst (ks_submit_resume now e sz c s)) = ks_active s \<and>
     ks_internal_token (fst (ks_submit_resume now e sz c s)) = ks_internal_token s"
  by (simp_all add: ks_submit_begin_def ks_submit_resume_def ks_discard_submission_def)

lemma sys_submit_fields:
  "sy_sched (sys_submit now e sz y) = fst (ks_submit_begin now e sz (sy_next y) (sy_sched y))"
  "sy_log (sys_submit now e sz y) = sy_log y"
  by (simp_all add: sys_submit_def Let_def case_prod_beta split: submit_outcome.split)

lemma sys_resume_fields:
  assumes "k < length (sy_waiting y)" "sy_waiting y ! k = (c, e, sz)"
  shows "sy_sched (sys_resume k now y) = fst (ks_submit_resume now e sz c (sy_sched y))"
    "sy_log (sys_resume k now y) = sy_log y"
  using assms by (simp_all add: sys_resume_def Let_def case_prod_beta split: submit_outcome.split)

lemma sys_ok_submit:
  assumes ok: "sys_ok l b y"
  shows "sys_ok l b (sys_submit now e sz y)"
proof (rule sys_okI)
  show "ks_sized l b (sy_sched (sys_submit now e sz y))"
    unfolding sys_submit_fields by (rule ks_sized_submit [OF sys_okD(1) [OF ok]])
  show "ks_exclusive (sy_sched (sys_submit now e sz y))"
    unfolding sys_submit_fields by (rule ks_exclusive_submit [OF sys_okD(2) [OF ok]])
  show "sys_ordered (sys_submit now e sz y)"
    by (rule sys_ordered_submitted [OF sys_okD(3) [OF ok] sys_submit_fields(2)],
        unfold sys_submit_fields(1), rule submit_cases)
  show "sys_settled (sys_submit now e sz y)" by (rule sys_settled_submit [OF sys_okD(4) [OF ok]])
qed

lemma sys_ok_resume:
  assumes ok: "sys_ok l b y"
  shows "sys_ok l b (sys_resume k now y)"
proof (cases "k < length (sy_waiting y)")
  case True
  obtain c e sz where x: "sy_waiting y ! k = (c, e, sz)" by (cases "sy_waiting y ! k") auto
  note F = sys_resume_fields [OF True x, of now]
  show ?thesis
  proof (rule sys_okI)
    show "ks_sized l b (sy_sched (sys_resume k now y))"
      unfolding F by (rule ks_sized_submit [OF sys_okD(1) [OF ok]])
    show "ks_exclusive (sy_sched (sys_resume k now y))"
      unfolding F by (rule ks_exclusive_submit [OF sys_okD(2) [OF ok]])
    show "sys_ordered (sys_resume k now y)"
      by (rule sys_ordered_submitted [OF sys_okD(3) [OF ok] F(2)], unfold F(1), rule submit_cases)
    show "sys_settled (sys_resume k now y)" by (rule sys_settled_resume [OF sys_okD(4) [OF ok]])
  qed
qed (use ok in \<open>simp add: sys_resume_def\<close>)

lemma sys_ok_take:
  assumes ok: "sys_ok l b y"
  shows "sys_ok l b (sys_take now t y)"
proof (cases "map_of (ks_active (sy_sched y)) t = None")
  case idle: True
  obtain s r where sr: "ks_take now t (sy_sched y) = (s, r)" by fastforce
  show ?thesis
  proof (cases r)
    case None
    from sr None have "s = sy_sched y" by (simp add: take_None_same)
    then show ?thesis using ok sr idle None by (simp add: sys_take_def)
  next
    case (Some w)
    note sr = sr [unfolded Some]
    from sr obtain i where i: "\<not> ks_barrier_active (sy_sched y)"
      "take_scan (ks_active (sy_sched y) \<noteq> []) (ks_active_contexts (sy_sched y)) 0 (ks_pending (sy_sched y)) = Some i"
      "s = ks_take_at now t i (sy_sched y)" by (rule take_SomeE)
    have y': "sys_take now t y = y\<lparr>sy_sched := s, sy_log := sy_log y @ [w]\<rparr>"
      using idle sr by (simp add: sys_take_def)
    note ex = sys_okD(2) [OF ok]
    note ms = take_scan_may_start [OF ex i(1,2)]
    show ?thesis
    proof (rule sys_okI)
      show "ks_sized l b (sy_sched (sys_take now t y))"
        using ks_sized_take_at [OF sys_okD(1) [OF ok] ms(1)] by (simp add: y' i(3))
      show "ks_exclusive (sy_sched (sys_take now t y))"
        using ks_exclusive_take_at [OF ex ms(1,2) idle] by (simp add: y' i(3))
      show "sys_ordered (sys_take now t y)"
        by (rule sys_ordered_take [OF sys_okD(3) [OF ok] ex idle sr]) (simp_all add: y')
      show "sys_settled (sys_take now t y)" by (rule sys_settled_take [OF sys_okD(4) [OF ok]])
    qed
  qed
next
  case False
  then have "sys_take now t y = y" by (simp add: sys_take_def)
  with ok show ?thesis by simp
qed

lemma sys_ok_publish:
  assumes ok: "sys_ok l b y"
  shows "sys_ok l b (sys_publish t v y)"
proof -
  have s: "sy_sched (sys_publish t v y) = sy_sched y" "sy_log (sys_publish t v y) = sy_log y"
    by (simp_all add: sys_publish_def split: option.split)
  have "sys_ordered (sys_publish t v y)"
    by (rule sys_ordered_cong [OF sys_okD(3) [OF ok]]) (simp_all add: s)
  then show ?thesis
    using sys_okD [OF ok] sys_settled_publish by (intro sys_okI) (simp_all only: s)
qed

lemma sys_ok_finish:
  assumes ok: "sys_ok l b y"
  shows "sys_ok l b (sys_finish t y)"
proof (cases "map_of (ks_active (sy_sched y)) t")
  case None
  then show ?thesis using ok by (simp add: sys_finish_def)
next
  case (Some w)
  show ?thesis
  proof (cases "t \<in> sy_published y")
    case False
    then show ?thesis using ok Some by (simp add: sys_finish_def)
  next
    case True
    define v where "v = the (sy_completions y (wk_completion w))"
    have s: "sy_sched (sys_finish t y) = ks_finish t w v (sy_sched y)" "sy_log (sys_finish t y) = sy_log y"
      using Some True by (simp_all add: sys_finish_def v_def)
    note ex = sys_okD(2) [OF ok]
    show ?thesis
    proof (rule sys_okI)
      show "ks_sized l b (sy_sched (sys_finish t y))"
        unfolding s by (rule ks_sized_others [OF sys_okD(1) [OF ok]])
      show "ks_exclusive (sy_sched (sys_finish t y))" unfolding s by (rule ks_exclusive_finish [OF ex Some])
      show "sys_ordered (sys_finish t y)"
        by (rule sys_ordered_cong [OF sys_okD(3) [OF ok]], unfold s active_works_finish [OF ex Some])
           (auto simp: ks_finish_def)
      show "sys_settled (sys_finish t y)" by (rule sys_settled_finish [OF sys_okD(4) [OF ok]])
    qed
  qed
qed

lemma sys_ok_discard:
  assumes ok: "sys_ok l b y"
  shows "sys_ok l b (sys_discard now y)"
proof (rule sys_okI)
  have s: "sy_sched (sys_discard now y) = fst (ks_discard_begin now (sy_sched y))"
    "sy_log (sys_discard now y) = sy_log y"
    by (simp_all add: sys_discard_def ks_discard_begin_def Let_def)
  have F: "ks_pending (fst (ks_discard_begin now s)) = []" "ks_active (fst (ks_discard_begin now s)) = ks_active s"
    "ks_active_contexts (fst (ks_discard_begin now s)) = ks_active_contexts s"
    "ks_barrier_active (fst (ks_discard_begin now s)) = ks_barrier_active s"
    "ks_internal_token (fst (ks_discard_begin now s)) = ks_internal_token s" for s
    by (simp_all add: ks_discard_begin_def Let_def)
  show "ks_sized l b (sy_sched (sys_discard now y))"
    unfolding s by (rule ks_sized_others [OF sys_okD(1) [OF ok]])
  show "ks_exclusive (sy_sched (sys_discard now y))"
    unfolding s by (rule ks_exclusive_cong [OF _ _ _ _ sys_okD(2) [OF ok]]) (simp_all add: F)
  show "sys_ordered (sys_discard now y)"
    by (rule sys_ordered_cong [OF sys_okD(3) [OF ok]]) (simp_all add: s F active_works_def)
  show "sys_settled (sys_discard now y)" by (rule sys_settled_discard [OF sys_okD(4) [OF ok]])
qed

lemma sys_ok_discard_one:
  assumes ok: "sys_ok l b y"
  shows "sys_ok l b (sys_discard_one k y)"
proof (cases "k < length (sy_discarding y)")
  case True
  then have s: "sy_sched (sys_discard_one k y) = ks_discard_one (sy_sched y)" "sy_log (sys_discard_one k y) = sy_log y"
    by (simp_all add: sys_discard_one_def)
  have F: "ks_pending (ks_discard_one s) = ks_pending s" "ks_active (ks_discard_one s) = ks_active s"
    "ks_active_contexts (ks_discard_one s) = ks_active_contexts s"
    "ks_barrier_active (ks_discard_one s) = ks_barrier_active s"
    "ks_internal_token (ks_discard_one s) = ks_internal_token s" for s
    by (simp_all add: ks_discard_one_def)
  show ?thesis
  proof (rule sys_okI)
    show "ks_sized l b (sy_sched (sys_discard_one k y))"
      unfolding s by (rule ks_sized_others [OF sys_okD(1) [OF ok]])
    show "ks_exclusive (sy_sched (sys_discard_one k y))"
      unfolding s by (rule ks_exclusive_cong [OF _ _ _ _ sys_okD(2) [OF ok]]) (simp_all add: F)
    show "sys_ordered (sys_discard_one k y)"
      by (rule sys_ordered_cong [OF sys_okD(3) [OF ok]]) (simp_all add: s F active_works_def)
    show "sys_settled (sys_discard_one k y)" by (rule sys_settled_discard_one [OF sys_okD(4) [OF ok]])
  qed
next
  case False
  then have "sys_discard_one k y = y" by (simp add: sys_discard_one_def)
  with ok show ?thesis by simp
qed

lemmas sys_ok_segments = sys_ok_submit sys_ok_resume sys_ok_take sys_ok_publish sys_ok_finish
  sys_ok_discard sys_ok_discard_one

lemma sys_ok_step:
  assumes "sys_ok l b y"
  shows "sys_ok l b (keyed_step rsz x y)"
  by (cases x; simp only: keyed_step.simps;
      (rule assms | rule sys_ok_segments [OF assms]
       | (rule sys_ok_on_sched [OF assms],
          rule same_works_segments,
          rule ks_sized_others [OF sys_okD(1) [OF assms]])
       | simp add: sys_ok_take [OF assms] assms))

interpretation keyed: invariant_machine "keyed_step rsz" "sys_ok limit bytes" for rsz limit bytes
  by unfold_locales (rule sys_ok_step)

lemma new_keyed_schedulerE:
  assumes "new_keyed_scheduler w l b = Inr s"
  obtains limit bytes where "l = PInt (int limit)" "b = PInt (int bytes)" "sys_ok limit bytes (new_system s)"
    "ks_pending_limit s = limit" "ks_pending_byte_limit s = bytes"
proof -
  obtain n limit bytes where P: "positive_limit ''worker_count'' w = Inr n"
    "positive_limit ''pending_limit'' l = Inr limit" "positive_limit ''pending_byte_limit'' b = Inr bytes"
    using assms by (auto simp: new_keyed_scheduler_def rbind_eq_Inr)
  then have "l = PInt (int limit)" "b = PInt (int bytes)"
    by (auto simp: positive_limit_def split: pyval.splits if_splits)
  moreover have s: "ks_pending s = []" "ks_active s = []" "ks_active_contexts s = {}" "\<not> ks_barrier_active s"
    "ks_pending_bytes s = 0" "ks_peak_pending_bytes s = 0" "ks_peak_pending s = 0" "ks_accepted s = 0"
    "ks_completed s = 0" "ks_terminalizing s = 0" "ks_pending_by_context s = Map.empty"
    "ks_pending_limit s = limit" "ks_pending_byte_limit s = bytes"
    using assms P by (auto simp: new_keyed_scheduler_def)
  then have "sys_ok limit bytes (new_system s)"
    by (simp add: sys_ok_def new_system_def ks_sized_def ks_exclusive_def active_works_def sys_ordered_def
        sys_settled_def open_ids_def ids_ok_def)
  ultimately show ?thesis using that s by blast
qed

definition demo_scheduler :: keyed_scheduler where
  "demo_scheduler = (case new_keyed_scheduler (PInt 2) (PInt 4) (PInt 100) of Inr s \<Rightarrow> s)"

lemma demo_scheduler_new: "new_keyed_scheduler (PInt 2) (PInt 4) (PInt 100) = Inr demo_scheduler"
  by (simp add: demo_scheduler_def new_keyed_scheduler_def positive_limit_def)

lemma demo_scheduler_ok: "sys_ok 4 100 (new_system demo_scheduler)"
  by (rule new_keyed_schedulerE [OF demo_scheduler_new]) simp

definition demo_event :: "string \<Rightarrow> stream_dock_event" where
  "demo_event c = PropertyInspectorDidAppear \<lparr>ev_action = ''a'', ev_context = c, ev_device = ''d''\<rparr>"

lemma demo_event_props [simp]:
  "\<not> is_global_barrier (demo_event c)" "action_context (demo_event c) = Some c"
  by (simp_all add: demo_event_def is_global_barrier_type action_event_types_def action_context_def
      action_event.defs)

lemma system_wake_up_barrier [simp]:
  "is_global_barrier SystemDidWakeUp" "action_context SystemDidWakeUp = None"
  by (simp_all add: is_global_barrier_type action_event_types_def action_context_def)

definition demo_keyed_ops :: "keyed_op list" where
  "demo_keyed_ops = [KStart, KSubmit 0 (demo_event ''c'') 5, KSubmit 0 (demo_event ''d'') 5,
     KSubmit 1 SystemDidWakeUp 5, KTake 1 0, KTake 1 1]"

section \<open>Properties\<close>

text \<open>
  C3. After any interleaving of the threads, two callbacks that run at the same time belong to different
  action contexts, and neither is a global barrier: a barrier runs alone.
\<close>

theorem keyed_callbacks_exclusive:
  assumes "new_keyed_scheduler w l b = Inr s" "y = fold (keyed_step rsz) ops (new_system s)"
    and "map_of (ks_active (sy_sched y)) t = Some v" "map_of (ks_active (sy_sched y)) t' = Some v'" "t \<noteq> t'"
  shows "wk_context v \<noteq> wk_context v' \<and> \<not> wk_barrier v \<and> \<not> wk_barrier v'"
proof -
  obtain limit bytes where "sys_ok limit bytes (new_system s)"
    using new_keyed_schedulerE [OF assms(1)] by metis
  from sys_okD(2) [OF keyed.inv_run [OF this, of rsz ops]] show ?thesis
    using assms(3-5) unfolding assms(2) ks_exclusive_def conflicts_def by blast
qed

lemma keyed_callbacks_exclusive_witness:
  "\<exists>v v'. map_of (ks_active (sy_sched (fold (keyed_step (\<lambda>_ _. 1)) demo_keyed_ops (new_system demo_scheduler)))) 0
      = Some v \<and> map_of (ks_active (sy_sched (fold (keyed_step (\<lambda>_ _. 1)) demo_keyed_ops (new_system demo_scheduler)))) 1
      = Some v' \<and> wk_context v \<noteq> wk_context v' \<and> \<not> wk_barrier v'"
proof -
  let ?y = "fold (keyed_step (\<lambda>_ _. 1)) demo_keyed_ops (new_system demo_scheduler)"
  have "map_of (ks_active (sy_sched ?y)) 0 \<noteq> None \<and> map_of (ks_active (sy_sched ?y)) 1 \<noteq> None"
    by (simp add: demo_keyed_ops_def demo_scheduler_def new_keyed_scheduler_def positive_limit_def
        new_system_def on_sched_def ks_start_def sys_submit_def ks_submit_begin_def ks_full_def
        ks_append_def sys_take_def ks_take_def ks_take_at_def Let_def del_at_def upt_rec)
  then obtain v v' where "map_of (ks_active (sy_sched ?y)) 0 = Some v" "map_of (ks_active (sy_sched ?y)) 1 = Some v'"
    by blast
  with keyed_callbacks_exclusive [OF demo_scheduler_new refl this] show ?thesis by auto
qed

text \<open>
  C4. Conflicting events, those of one context and a barrier with anything, start in the order of their
  acceptance and never overlap: in the log of started works any two that conflict stand in token
  order, and nothing accepted earlier that conflicts with a started work is still pending or running.
\<close>

theorem keyed_conflicts_in_order:
  assumes "new_keyed_scheduler w l b = Inr s" "y = fold (keyed_step rsz) ops (new_system s)"
  shows "sorted_wrt (\<lambda>v v'. conflicts v v' \<longrightarrow> wk_token v < wk_token v') (sy_log y) \<and>
    sorted_wrt (<) (map wk_token (ks_pending (sy_sched y))) \<and>
    (\<forall>v \<in> set (sy_log y). \<forall>u \<in> set (ks_pending (sy_sched y)) \<union> active_works (sy_sched y).
       wk_token u < wk_token v \<longrightarrow> \<not> conflicts u v)"
proof -
  obtain limit bytes where "sys_ok limit bytes (new_system s)"
    using new_keyed_schedulerE [OF assms(1)] by metis
  from sys_okD(3) [OF keyed.inv_run [OF this, of rsz ops]] show ?thesis
    unfolding assms(2) sys_ordered_def Let_def by blast
qed

lemma keyed_conflicts_in_order_witness:
  "sorted_wrt (<) (map wk_token (ks_pending (sy_sched
     (fold (keyed_step (\<lambda>_ _. 1)) demo_keyed_ops (new_system demo_scheduler)))))"
  using keyed_conflicts_in_order [OF demo_scheduler_new refl, of "\<lambda>_ _. 1" demo_keyed_ops] by blast

text \<open>
  A free worker takes exactly the first pending work that may start, which conflicts neither with a
  running callback nor with a pending work before it; it finds none only when no pending work may start.
\<close>

theorem keyed_take_first_startable:
  assumes "new_keyed_scheduler w l b = Inr s" "y = fold (keyed_step rsz) ops (new_system s)"
  shows "case snd (ks_take now t (sy_sched y)) of
      None \<Rightarrow> \<forall>i < length (ks_pending (sy_sched y)). \<not> may_start (sy_sched y) i
    | Some v \<Rightarrow> \<exists>i < length (ks_pending (sy_sched y)). v = ks_pending (sy_sched y) ! i \<and>
        may_start (sy_sched y) i \<and> (\<forall>j < i. \<not> may_start (sy_sched y) j)"
proof -
  obtain limit bytes where "sys_ok limit bytes (new_system s)"
    using new_keyed_schedulerE [OF assms(1)] by metis
  then have ex: "ks_exclusive (sy_sched y)"
    using sys_okD(2) [OF keyed.inv_run] assms(2) by blast
  show ?thesis
  proof (cases "snd (ks_take now t (sy_sched y))")
    case None
    then show ?thesis using take_None_none_may_start [OF ex None] by simp
  next
    case (Some v)
    then obtain s' where "ks_take now t (sy_sched y) = (s', Some v)" by (metis prod.collapse)
    then obtain i where i: "\<not> ks_barrier_active (sy_sched y)"
      "take_scan (ks_active (sy_sched y) \<noteq> []) (ks_active_contexts (sy_sched y)) 0 (ks_pending (sy_sched y)) = Some i"
      "v = ks_pending (sy_sched y) ! i" by (rule take_SomeE)
    from take_scan_may_start [OF ex i(1,2)] show ?thesis using Some i(3) by auto
  qed
qed

lemma keyed_take_first_startable_witness:
  "snd (ks_take 1 0 (sy_sched (fold (keyed_step (\<lambda>_ _. 1)) [KStart, KSubmit 0 (demo_event ''c'') 5]
     (new_system demo_scheduler)))) \<noteq> None"
proof -
  let ?y = "fold (keyed_step (\<lambda>_ _. 1)) [KStart, KSubmit 0 (demo_event ''c'') 5] (new_system demo_scheduler)"
  have "length (ks_pending (sy_sched ?y)) = 1" "ks_active (sy_sched ?y) = []"
    by (simp_all add: demo_scheduler_def new_keyed_scheduler_def positive_limit_def new_system_def
        on_sched_def ks_start_def sys_submit_def ks_submit_begin_def ks_full_def ks_append_def Let_def)
  then have "may_start (sy_sched ?y) 0" by (simp add: may_start_def active_works_def)
  with \<open>length _ = 1\<close> show ?thesis
    using keyed_take_first_startable [OF demo_scheduler_new refl, of "\<lambda>_ _. 1"
        "[KStart, KSubmit 0 (demo_event ''c'') 5]" 1 0] by (auto split: option.splits)
qed

text \<open>
  No completion is ever finished twice, and none is forgotten: the completions created so far are
  finished except those of waiting, pending, discarded and running works, each listed once; every
  accepted work is pending, running, being discarded or completed; and once the scheduler is drained
  with no submission waiting, every completion is finished and all that was accepted is completed.
\<close>

theorem keyed_completions_settle:
  assumes "new_keyed_scheduler w l b = Inr s" "y = fold (keyed_step rsz) ops (new_system s)"
  shows "\<not> sy_double y \<and> dom (sy_completions y) = {..<sy_next y} - set (open_ids y) \<and>
    distinct (open_ids y) \<and>
    ks_accepted (sy_sched y) = length (ks_pending (sy_sched y)) + length (ks_active (sy_sched y))
      + ks_terminalizing (sy_sched y) + ks_completed (sy_sched y) \<and>
    (ks_is_drained (sy_sched y) \<and> sy_waiting y = [] \<longrightarrow>
       dom (sy_completions y) = {..<sy_next y} \<and> ks_accepted (sy_sched y) = ks_completed (sy_sched y))"
proof -
  obtain limit bytes where "sys_ok limit bytes (new_system s)"
    using new_keyed_schedulerE [OF assms(1)] by metis
  from sys_okD(4) [OF keyed.inv_run [OF this, of rsz ops]] have "sys_settled y" using assms(2) by simp
  then have S: "ids_ok (mset (open_ids y)) (sy_next y) (sy_completions y)" "\<not> sy_double y"
    "ks_terminalizing (sy_sched y) = length (sy_discarding y)"
    "ks_accepted (sy_sched y) = length (ks_pending (sy_sched y)) + length (ks_active (sy_sched y))
       + length (sy_discarding y) + ks_completed (sy_sched y)"
    unfolding sys_settled_def Let_def by blast+
  have "distinct (open_ids y)"
    using S(1) unfolding ids_ok_def distinct_count_atmost_1 by (metis One_nat_def count_mset_0_iff
        in_multiset_in_set le_SucE le_zero_eq count_eq_zero_iff)
  moreover have "open_ids y = []" if "ks_is_drained (sy_sched y)" "sy_waiting y = []"
    using that S(3) by (simp add: open_ids_def ks_is_drained_def)
  ultimately show ?thesis using S by (auto simp: ids_ok_def ks_is_drained_def)
qed

lemma keyed_completions_settle_witness:
  "\<not> sy_double (fold (keyed_step (\<lambda>_ _. 1)) (demo_keyed_ops @ [KPublish 0 discarded_result, KFinish 0,
     KStopAccepting, KDiscard 2, KDiscardOne 0]) (new_system demo_scheduler))"
  using keyed_completions_settle [OF demo_scheduler_new refl, of "\<lambda>_ _. 1" "demo_keyed_ops @
     [KPublish 0 discarded_result, KFinish 0, KStopAccepting, KDiscard 2, KDiscardOne 0]"] by blast

text \<open>
  C34. The pending queue stays within both limits, with exact byte count and exact counts per context,
  whatever the threads do.
\<close>

theorem keyed_pending_bounded:
  assumes "new_keyed_scheduler w (PInt l) (PInt b) = Inr s" "y = fold (keyed_step rsz) ops (new_system s)"
  shows "length (ks_pending (sy_sched y)) \<le> ks_peak_pending (sy_sched y) \<and>
    int (ks_peak_pending (sy_sched y)) \<le> l \<and>
    ks_pending_bytes (sy_sched y) = int (sum_list (map wk_size (ks_pending (sy_sched y)))) \<and>
    ks_pending_bytes (sy_sched y) \<le> ks_peak_pending_bytes (sy_sched y) \<and>
    ks_peak_pending_bytes (sy_sched y) \<le> b \<and>
    (case ks_pending_by_context (sy_sched y) c of None \<Rightarrow> 0 | Some n \<Rightarrow> n)
      = count_context c (ks_pending (sy_sched y))"
proof -
  obtain limit bytes where l: "l = int limit" "b = int bytes" and ok: "sys_ok limit bytes (new_system s)"
    using new_keyed_schedulerE [OF assms(1)] by (metis pyval.inject(2))
  from sys_okD(1) [OF keyed.inv_run [OF ok, of rsz ops]] show ?thesis
    unfolding assms(2) ks_sized_def l by simp
qed

lemma keyed_pending_bounded_witness:
  "int (ks_peak_pending (sy_sched (fold (keyed_step (\<lambda>_ _. 1)) demo_keyed_ops (new_system demo_scheduler)))) \<le> 4"
  using keyed_pending_bounded [OF demo_scheduler_new refl, of "\<lambda>_ _. 1" demo_keyed_ops] by blast

section \<open>Selection\<close>

lemma select_scan_Some:
  "select_scan rsz s k deferred items = Some i \<Longrightarrow>
     k \<le> i \<and> i - k < length items \<and>
     can_admit_bytes s (measured rsz s (fst (items ! (i - k))) (snd (items ! (i - k)))) \<and>
     (i = 0 \<or> (\<exists>c. action_context (fst (items ! (i - k))) = Some c \<and>
        \<not> is_global_barrier (fst (items ! (i - k))) \<and> c \<notin> deferred \<and>
        context_work s c < ks_context_work_limit s \<and>
        (\<forall>j < i - k. \<not> is_global_barrier (fst (items ! j)) \<and>
           action_context (fst (items ! j)) \<notin> {None, Some c})))"
proof (induction rsz s k deferred items rule: select_scan.induct)
  case (2 rsz s index deferred e sz items)
  have shift: ?case if "select_scan rsz s (Suc index) D items = Some i" "deferred \<subseteq> D"
      "action_context e = Some c" "\<not> is_global_barrier e"
      "c \<in> D \<or> \<not> context_work s c < ks_context_work_limit s"
      "Suc index \<le> i \<and> i - Suc index < length items \<and>
       can_admit_bytes s (measured rsz s (fst (items ! (i - Suc index))) (snd (items ! (i - Suc index)))) \<and>
       (i = 0 \<or> (\<exists>c. action_context (fst (items ! (i - Suc index))) = Some c \<and>
          \<not> is_global_barrier (fst (items ! (i - Suc index))) \<and> c \<notin> D \<and>
          context_work s c < ks_context_work_limit s \<and>
          (\<forall>j < i - Suc index. \<not> is_global_barrier (fst (items ! j)) \<and>
             action_context (fst (items ! j)) \<notin> {None, Some c})))" for D c
  proof -
    from that(6) obtain c' where c': "Suc index \<le> i" "i - Suc index < length items"
      "can_admit_bytes s (measured rsz s (fst (items ! (i - Suc index))) (snd (items ! (i - Suc index))))"
      "action_context (fst (items ! (i - Suc index))) = Some c'"
      "\<not> is_global_barrier (fst (items ! (i - Suc index)))" "c' \<notin> D"
      "context_work s c' < ks_context_work_limit s"
      "\<forall>j < i - Suc index. \<not> is_global_barrier (fst (items ! j)) \<and>
         action_context (fst (items ! j)) \<notin> {None, Some c'}" by auto
    have k: "i - index = Suc (i - Suc index)" using c'(1) by simp
    have "c \<noteq> c'" using that(5) c'(6,7) by auto
    then have "\<forall>j < Suc (i - Suc index). \<not> is_global_barrier (fst (((e, sz) # items) ! j)) \<and>
         action_context (fst (((e, sz) # items) ! j)) \<notin> {None, Some c'}"
      using c'(8) that(3,4) by (auto simp: nth_Cons split: nat.splits)
    then show ?case using c' that(2) unfolding k by auto
  qed
  show ?case
  proof (cases "action_context e")
    case None
    with 2 show ?thesis by (auto split: if_splits)
  next
    case (Some c)
    show ?thesis
    proof (cases "is_global_barrier e")
      case True
      with 2 Some show ?thesis by (auto split: if_splits)
    next
      case nb: False
      consider "c \<in> deferred" | "c \<notin> deferred" "\<not> context_work s c < ks_context_work_limit s"
        | "c \<notin> deferred" "context_work s c < ks_context_work_limit s" "can_admit_bytes s (measured rsz s e sz)"
        | "c \<notin> deferred" "context_work s c < ks_context_work_limit s" "\<not> can_admit_bytes s (measured rsz s e sz)"
        by blast
      then show ?thesis
      proof cases
        case 1
        with 2(4) Some nb have "select_scan rsz s (Suc index) deferred items = Some i" by simp
        from shift [OF this subset_refl Some nb _ 2(1) [OF Some nb 1 this]] 1 show ?thesis by blast
      next
        case a: 2
        with 2(4) Some nb have "select_scan rsz s (Suc index) deferred items = Some i" by simp
        from shift [OF this subset_refl Some nb _ 2(3) [OF Some nb a this]] a show ?thesis by blast
      next
        case 3
        with 2(4) Some nb show ?thesis by simp
      next
        case 4
        with 2(4) Some nb have "select_scan rsz s (Suc index) (insert c deferred) items = Some i" by simp
        from shift [OF this subset_insertI Some nb _ 2(2) [OF Some nb 4 this]] show ?thesis by blast
      qed
    qed
  qed
qed simp

text \<open>
  What the scheduler selects from its source keeps the order that matters and can be submitted at
  once: every source event before the selected one belongs to another context and is no barrier, the
  selected one is a barrier or without context only at the head, and the submission that follows,
  with the size as measured, does not wait.
\<close>

theorem keyed_selection_admissible:
  assumes "ks_select_sized_event rsz items s = (s', Inr (Some i))" "ks_accepting s"
    and "items ! i = (e, sz)" "0 < measured rsz s e sz"
  shows "i < length items \<and>
    (\<forall>j < i. \<not> is_global_barrier (fst (items ! j)) \<and> \<not> is_global_barrier e \<and>
       action_context (fst (items ! j)) \<noteq> action_context e) \<and>
    snd (ks_submit_begin now e (measured rsz s e sz) c s') \<noteq> SubmitWaits"
proof -
  have sel: "ks_started s" "length (ks_pending s) < ks_pending_limit s" "select_scan rsz s 0 {} items = Some i"
    "s' = s\<lparr>ks_selection_backpressured := False\<rparr>"
    using assms(1,2) by (auto simp: ks_select_sized_event_def split: if_splits option.splits)
  note S = select_scan_Some [OF sel(3), simplified, unfolded assms(3)]
  have "snd (ks_submit_begin now e (measured rsz s e sz) c s') \<noteq> SubmitWaits"
    using S sel assms(4) by (auto simp: ks_submit_begin_def ks_discard_submission_def can_admit_bytes_def ks_full_def)
  then show ?thesis using S by auto
qed

lemma keyed_selection_admissible_witness:
  "snd (ks_submit_begin 1 (demo_event ''c'') 7 0 (demo_scheduler\<lparr>ks_started := True,
     ks_selection_backpressured := False\<rparr>)) \<noteq> SubmitWaits"
proof -
  have "ks_select_sized_event (\<lambda>_ _. 7) [(demo_event ''c'', 0)] (demo_scheduler\<lparr>ks_started := True\<rparr>) =
      (demo_scheduler\<lparr>ks_started := True, ks_selection_backpressured := False\<rparr>, Inr (Some 0))"
    by (simp add: ks_select_sized_event_def demo_scheduler_def new_keyed_scheduler_def positive_limit_def
        context_work_def can_admit_bytes_def measured_def)
  moreover have "ks_accepting (demo_scheduler\<lparr>ks_started := True\<rparr>)"
    by (simp add: demo_scheduler_def new_keyed_scheduler_def positive_limit_def)
  ultimately show ?thesis
    using keyed_selection_admissible [of "\<lambda>_ _. 7" "[(demo_event ''c'', 0)]" "demo_scheduler\<lparr>ks_started := True\<rparr>"
        _ 0 "demo_event ''c''" 0 1 0] by (simp add: measured_def)
qed

section \<open>Progress\<close>

text \<open>One round of a worker: take, finish the completion, account.\<close>

definition worker_round :: "rat \<Rightarrow> nat \<Rightarrow> completion_value \<Rightarrow> keyed_system \<Rightarrow> keyed_system" where
  "worker_round now t v y = sys_finish t (sys_publish t v (sys_take now t y))"

lemma sys_ok_round: "sys_ok l b y \<Longrightarrow> sys_ok l b (worker_round now t v y)"
  unfolding worker_round_def by (intro sys_ok_finish sys_ok_publish sys_ok_take)

lemma worker_round_next:
  assumes ok: "sys_ok l b y" and idle: "ks_active (sy_sched y) = []" and p: "ks_pending (sy_sched y) = w # ws"
  shows "ks_active (sy_sched (worker_round now t v y)) = []"
    "ks_pending (sy_sched (worker_round now t v y)) = ws"
    "sy_log (worker_round now t v y) = sy_log y @ [w]"
    "sy_completions (worker_round now t v y) = (sy_completions y)(wk_completion w \<mapsto> v)"
proof -
  let ?s = "sy_sched y"
  have "active_works ?s = {}" using idle by (simp add: active_works_def)
  then have nb: "\<not> ks_barrier_active ?s" "ks_active_contexts ?s = {}"
    using sys_okD(2) [OF ok] unfolding ks_exclusive_def by blast+
  define s1 where "s1 = ks_take_at now t 0 ?s"
  have take: "ks_take now t ?s = (s1, Some w)"
    using nb idle p by (simp add: ks_take_def s1_def)
  have act: "ks_active s1 = [(t, w)]" "ks_pending s1 = ws"
    using idle p by (simp_all add: s1_def ks_take_at_def Let_def del_at_def)
  define y1 where "y1 = y\<lparr>sy_sched := s1, sy_log := sy_log y @ [w]\<rparr>"
  have y1: "sys_take now t y = y1" using take idle by (simp add: sys_take_def y1_def)
  have unpub: "sy_published y = {}" using sys_okD(4) [OF ok] idle by (auto simp: sys_settled_def Let_def)
  have "wk_completion w \<in># mset (open_ids y)" using p by (simp add: open_ids_simps)
  then have new: "sy_completions y (wk_completion w) = None"
    using sys_okD(4) [OF ok] unfolding sys_settled_def Let_def ids_ok_def by blast
  define y2 where "y2 = y1\<lparr>sy_published := {t}, sy_completions := (sy_completions y)(wk_completion w \<mapsto> v)\<rparr>"
  have y2: "sys_publish t v y1 = y2"
    using act unpub new by (simp add: sys_publish_def finish_completion_def y1_def y2_def)
  have y3: "sys_finish t y2 = y2\<lparr>sy_sched := ks_finish t w v s1, sy_published := {}\<rparr>"
    using act by (simp add: sys_finish_def y2_def y1_def)
  show "ks_active (sy_sched (worker_round now t v y)) = []"
    "ks_pending (sy_sched (worker_round now t v y)) = ws"
    "sy_log (worker_round now t v y) = sy_log y @ [w]"
    "sy_completions (worker_round now t v y) = (sy_completions y)(wk_completion w \<mapsto> v)"
    unfolding worker_round_def y1 y2 y3 by (simp_all add: act ks_finish_def y1_def y2_def)
qed



end
