(* ===== verification/SequentialScheduler.thy ===== *)
theory SequentialScheduler
  imports KeyedScheduler
begin

text \<open>
  The reference scheduler of runtime/scheduler.py, which runs one callback at a time in the thread
  of the submitter. \<open>sq_lock\<close> is the dispatch lock, held from the admission to the accounting of one
  event; the other segments run under the condition lock.
\<close>

record seq_scheduler =
  sq_lock :: bool
  sq_started :: bool
  sq_accepting :: bool
  sq_stopped :: bool
  sq_active_thread :: "nat option"
  sq_active_event_name :: "string option"
  sq_active_context :: "string option"
  sq_accepted :: nat
  sq_completed :: nat
  sq_current_active :: nat
  sq_peak_active :: nat
  sq_active_contexts :: nat
  sq_barriers_processed :: nat
  sq_callback_failures :: nat
  sq_callback_timeouts :: nat
  sq_discarded_during_shutdown :: nat
  sq_admission_backpressure :: nat
  sq_active_token :: nat
  sq_timed_out_token :: nat

definition new_seq_scheduler :: seq_scheduler where
  "new_seq_scheduler =
     \<lparr>sq_lock = False, sq_started = False, sq_accepting = True, sq_stopped = False,
      sq_active_thread = None, sq_active_event_name = None, sq_active_context = None,
      sq_accepted = 0, sq_completed = 0, sq_current_active = 0, sq_peak_active = 0,
      sq_active_contexts = 0, sq_barriers_processed = 0, sq_callback_failures = 0,
      sq_callback_timeouts = 0, sq_discarded_during_shutdown = 0, sq_admission_backpressure = 0,
      sq_active_token = 0, sq_timed_out_token = 0\<rparr>"

definition sq_start :: "seq_scheduler \<Rightarrow> seq_scheduler \<times> exn option" where
  "sq_start s =
     (if sq_started s \<and> \<not> sq_stopped s then (s, None)
      else if \<not> sq_accepting s \<or> sq_stopped s
      then (s, Some (LifecycleError ''scheduler has already been stopped''))
      else (s\<lparr>sq_started := True\<rparr>, None))"

text \<open>The first try to take the dispatch lock failed.\<close>

definition sq_contend :: "seq_scheduler \<Rightarrow> seq_scheduler" where
  "sq_contend s = s\<lparr>sq_admission_backpressure := Suc (sq_admission_backpressure s)\<rparr>"

text \<open>\<open>submit\<close> up to the callback: \<open>Admitted\<close> means that the callback runs next, with the lock held.\<close>

definition sq_admit :: "nat \<Rightarrow> stream_dock_event \<Rightarrow> seq_scheduler \<Rightarrow> seq_scheduler \<times> submit_outcome" where
  "sq_admit thread e s =
     (if \<not> sq_accepting s then
        (s\<lparr>sq_discarded_during_shutdown := Suc (sq_discarded_during_shutdown s)\<rparr>,
         Finished discarded_result)
      else if \<not> sq_started s
      then (s, SubmitRaises (LifecycleError ''scheduler has not been started''))
      else
        (s\<lparr>sq_lock := True, sq_accepted := Suc (sq_accepted s), sq_current_active := 1,
           sq_active_token := Suc (sq_active_token s), sq_peak_active := max (sq_peak_active s) 1,
           sq_active_contexts := (if \<not> is_global_barrier e \<and> as_action_event e \<noteq> None then 1 else 0),
           sq_active_thread := Some thread, sq_active_event_name := Some (event_name e),
           sq_active_context := action_context e\<rparr>, Admitted))"

text \<open>The segment after the callback, with what the completion was finished with.\<close>

definition sq_complete :: "stream_dock_event \<Rightarrow> completion_value \<Rightarrow> seq_scheduler \<Rightarrow> seq_scheduler" where
  "sq_complete e value s =
     s\<lparr>sq_completed := Suc (sq_completed s),
       sq_barriers_processed := (if is_global_barrier e then Suc (sq_barriers_processed s)
          else sq_barriers_processed s),
       sq_callback_failures := (case value of
           CompletionResult r \<Rightarrow> (if dres_outcome r = CallbackFailed
             then Suc (sq_callback_failures s) else sq_callback_failures s)
         | CompletionError _ \<Rightarrow> sq_callback_failures s),
       sq_current_active := 0, sq_active_contexts := 0, sq_active_thread := None,
       sq_active_event_name := None, sq_active_context := None,
       sq_stopped := sq_stopped s \<or> \<not> sq_accepting s, sq_lock := False\<rparr>"

definition sq_stop_accepting :: "seq_scheduler \<Rightarrow> seq_scheduler" where
  "sq_stop_accepting s =
     s\<lparr>sq_accepting := False, sq_stopped := sq_stopped s \<or> sq_current_active s = 0\<rparr>"

definition sq_drain_attempt :: "bool \<Rightarrow> seq_scheduler \<Rightarrow> seq_scheduler \<times> bool option" where
  "sq_drain_attempt expired s =
     (if sq_current_active s = 0 then (s, Some True)
      else if \<not> expired then (s, None)
      else if sq_timed_out_token s \<noteq> sq_active_token s then
        (s\<lparr>sq_callback_timeouts := Suc (sq_callback_timeouts s),
           sq_timed_out_token := sq_active_token s\<rparr>, Some False)
      else (s, Some False))"

definition sq_is_dispatch_thread :: "nat \<Rightarrow> seq_scheduler \<Rightarrow> bool" where
  "sq_is_dispatch_thread caller s = (sq_active_thread s = Some caller)"

text \<open>\<open>stop\<close> up to the wait, with the test whether it returns at once.\<close>

definition sq_stop_begin :: "nat \<Rightarrow> seq_scheduler \<Rightarrow> seq_scheduler \<times> bool" where
  "sq_stop_begin caller s = (sq_stop_accepting s, sq_is_dispatch_thread caller s)"

section \<open>Histories\<close>

datatype seq_op =
    SqStart
  | SqSubmit nat stream_dock_event
  | SqComplete completion_value
  | SqStopAccepting
  | SqDrain bool

text \<open>
  The running event is part of the state: its submitter holds the dispatch lock, so that another
  submission is only counted as backpressure until the lock is free. \<open>history\<close>: the events started.
\<close>

type_synonym seq_system = "seq_scheduler \<times> stream_dock_event option \<times> stream_dock_event list"

fun seq_step :: "seq_op \<Rightarrow> seq_system \<Rightarrow> seq_system" where
  "seq_step SqStart (s, running, history) = (fst (sq_start s), running, history)"
| "seq_step (SqSubmit t e) (s, running, history) =
     (if sq_lock s then (sq_contend s, running, history)
      else case sq_admit t e s of
        (s', Admitted) \<Rightarrow> (s', Some e, history @ [e])
      | (s', _) \<Rightarrow> (s', running, history))"
| "seq_step (SqComplete v) (s, running, history) =
     (case running of None \<Rightarrow> (s, running, history) | Some e \<Rightarrow> (sq_complete e v s, None, history))"
| "seq_step SqStopAccepting (s, running, history) = (sq_stop_accepting s, running, history)"
| "seq_step (SqDrain expired) (s, running, history) = (fst (sq_drain_attempt expired s), running, history)"

definition seq_ok :: "seq_system \<Rightarrow> bool" where
  "seq_ok = (\<lambda>(s, running, history).
     (sq_lock s \<longleftrightarrow> running \<noteq> None) \<and> sq_current_active s = (if running = None then 0 else 1) \<and>
     sq_accepted s = sq_completed s + sq_current_active s \<and> length history = sq_accepted s \<and>
     sq_active_token s = sq_accepted s \<and> sq_timed_out_token s \<le> sq_active_token s \<and>
     sq_peak_active s \<le> 1 \<and> sq_callback_timeouts s \<le> sq_timed_out_token s \<and>
     (\<not> sq_accepting s \<longrightarrow> sq_stopped s = (running = None)) \<and> (sq_accepting s \<longrightarrow> \<not> sq_stopped s))"

lemma seq_ok_step: "seq_ok y \<Longrightarrow> seq_ok (seq_step x y)"
  by (cases "(x, y)" rule: seq_step.cases)
     (auto simp: seq_ok_def sq_start_def sq_contend_def sq_admit_def sq_complete_def sq_stop_accepting_def
        sq_drain_attempt_def split: option.splits if_splits)

interpretation sequential: invariant_machine seq_step seq_ok
  by unfold_locales (rule seq_ok_step)

text \<open>
  The reference scheduler runs one callback at a time: at every moment at most one event is active,
  every accepted event but that one is completed, each callback is reported as timed out at most once,
  and when admission is closed the scheduler is stopped exactly when nothing runs.
\<close>

theorem sequential_one_at_a_time:
  assumes "(s, running, history) = fold seq_step ops (new_seq_scheduler, None, [])"
  shows "sq_current_active s = (if running = None then 0 else 1) \<and>
    sq_accepted s = sq_completed s + sq_current_active s \<and> length history = sq_accepted s \<and>
    sq_callback_timeouts s \<le> sq_accepted s \<and>
    (\<not> sq_accepting s \<longrightarrow> sq_stopped s = (sq_current_active s = 0))"
proof -
  have "seq_ok (new_seq_scheduler, None, [])" by (simp add: seq_ok_def new_seq_scheduler_def)
  from sequential.inv_run [OF this, of ops] have "seq_ok (s, running, history)" by (simp add: assms)
  then show ?thesis by (auto simp: seq_ok_def)
qed

lemma sequential_one_at_a_time_witness:
  "\<exists>s history. fold seq_step [SqStart, SqSubmit 1 SystemDidWakeUp, SqSubmit 2 SystemDidWakeUp, SqStopAccepting]
     (new_seq_scheduler, None, []) = (s, Some SystemDidWakeUp, history) \<and> sq_accepted s = 1 \<and> \<not> sq_stopped s"
proof -
  obtain s history where run: "fold seq_step [SqStart, SqSubmit 1 SystemDidWakeUp, SqSubmit 2 SystemDidWakeUp,
      SqStopAccepting] (new_seq_scheduler, None, []) = (s, Some SystemDidWakeUp, history)"
    "\<not> sq_accepting s" "sq_completed s = 0"
    by (simp add: sq_start_def new_seq_scheduler_def sq_admit_def sq_contend_def sq_stop_accepting_def)
  show ?thesis
    using sequential_one_at_a_time [OF run(1) [symmetric]] run by auto
qed

end
