(* ===== verification/Codecs.thy ===== *)
theory Codecs
  imports PyValues
begin

text \<open>
  codecs.py: conversion between JSON objects and values of the plugin, with the validation, the
  isolation and the normalisation of errors around the plugin's own functions. Those functions are
  parameters: a decoder or an encoder is any function with an exception or a value as result. A
  value of the plugin is an arbitrary Python value. \<open>str_of e\<close> is \<open>str(e) or type(e).__name__\<close>, the
  text of the exception, which its class decides.
\<close>

type_synonym converter = "pyval \<Rightarrow> exn + pyval"

text \<open>
  \<open>JsonCodec\<close>: the two classes of the SDK, whose exact type the helpers test for, and any other class
  (a subclass of those two included) with its two methods.
\<close>

datatype codec =
    FunctionalJsonCodec converter converter
  | JsonObjectCodec
  | PluginCodec converter converter

definition depth_text :: string where
  "depth_text = ''JSON nesting depth exceeds maximum of 64 containers''"

definition copy_json_object :: "bool \<Rightarrow> pyval \<Rightarrow> exn + pyval" where
  "copy_json_object decoding value =
     (let error_type = (if decoding then JsonCodecDecodeError else JsonCodecEncodeError) in
      case clone_json_object value of
        Inr v \<Rightarrow> Inr v
      | Inl JsonDepthError \<Rightarrow> Inl (error_type depth_text None [])
      | Inl (ValueError _) \<Rightarrow> Inl (error_type ''expected a JSON object'' None [])
      | Inl e \<Rightarrow> Inl e)"

text \<open>The handlers around a call of plugin code.\<close>

definition guarded :: "(exn \<Rightarrow> string) \<Rightarrow> bool \<Rightarrow> exn + pyval \<Rightarrow> exn + pyval" where
  "guarded str_of decoding r =
     (let error_type = (if decoding then JsonCodecDecodeError else JsonCodecEncodeError) in
      case r of
        Inr v \<Rightarrow> Inr v
      | Inl e \<Rightarrow> if is_codec_error e then Inl e
                else if is_type_error e \<or> is_value_error e then Inl (error_type (str_of e) None [])
                else Inl e)"

definition functional_decode :: "(exn \<Rightarrow> string) \<Rightarrow> converter \<Rightarrow> converter" where
  "functional_decode str_of decoder value = guarded str_of True (rbind (copy_json_object True value) decoder)"

definition functional_encode :: "(exn \<Rightarrow> string) \<Rightarrow> converter \<Rightarrow> converter" where
  "functional_encode str_of encoder value =
     rbind (guarded str_of False (encoder value)) (copy_json_object False)"

text \<open>\<open>codec.decode\<close> and \<open>codec.encode\<close>.\<close>

fun codec_decode :: "(exn \<Rightarrow> string) \<Rightarrow> codec \<Rightarrow> converter" where
  "codec_decode str_of (FunctionalJsonCodec decoder encoder) = functional_decode str_of decoder"
| "codec_decode str_of JsonObjectCodec = copy_json_object True"
| "codec_decode str_of (PluginCodec decode encode) = decode"

fun codec_encode :: "(exn \<Rightarrow> string) \<Rightarrow> codec \<Rightarrow> converter" where
  "codec_encode str_of (FunctionalJsonCodec decoder encoder) = functional_encode str_of encoder"
| "codec_encode str_of JsonObjectCodec = copy_json_object False"
| "codec_encode str_of (PluginCodec decode encode) = encode"

fun is_sdk_codec :: "codec \<Rightarrow> bool" where
  "is_sdk_codec (PluginCodec _ _) = False"
| "is_sdk_codec _ = True"

definition decode_with_codec :: "(exn \<Rightarrow> string) \<Rightarrow> pyval \<Rightarrow> codec \<Rightarrow> exn + pyval" where
  "decode_with_codec str_of value codec =
     guarded str_of True
       (if is_sdk_codec codec then codec_decode str_of codec value
        else rbind (copy_json_object True value) (codec_decode str_of codec))"

definition encode_with_codec :: "(exn \<Rightarrow> string) \<Rightarrow> pyval \<Rightarrow> codec \<Rightarrow> exn + pyval" where
  "encode_with_codec str_of value codec =
     rbind (guarded str_of False (codec_encode str_of codec value)) (\<lambda>encoded.
       if is_sdk_codec codec then Inr encoded else copy_json_object False encoded)"

text \<open>
  \<open>_encode_with_codec_source\<close>: the encoder's own result, cloned and validated once into a snapshot
  that a command owns (its value here).
\<close>

fun raw_encode :: "(exn \<Rightarrow> string) \<Rightarrow> codec \<Rightarrow> converter" where
  "raw_encode str_of (FunctionalJsonCodec decoder encoder) value = encoder value"
| "raw_encode str_of JsonObjectCodec value = Inr value"
| "raw_encode str_of (PluginCodec decode encode) value = encode value"

definition encode_with_codec_source :: "(exn \<Rightarrow> string) \<Rightarrow> pyval \<Rightarrow> codec \<Rightarrow> exn + pyval" where
  "encode_with_codec_source str_of value codec =
     rbind (guarded str_of False (raw_encode str_of codec value)) (\<lambda>encoded.
       case clone_json_object encoded of
         Inr v \<Rightarrow> Inr v
       | Inl JsonDepthError \<Rightarrow> Inl (JsonCodecEncodeError depth_text None [])
       | Inl (ValueError _) \<Rightarrow> Inl (JsonCodecEncodeError ''expected a JSON object'' None [])
       | Inl e \<Rightarrow> Inl e)"

text \<open>\<open>_decode_isolated_with_codec\<close>, and \<open>_decode_owned_with_codec\<close> on the isolated copy.\<close>

fun raw_decode :: "(exn \<Rightarrow> string) \<Rightarrow> codec \<Rightarrow> converter" where
  "raw_decode str_of (FunctionalJsonCodec decoder encoder) isolated = decoder isolated"
| "raw_decode str_of JsonObjectCodec isolated = Inr isolated"
| "raw_decode str_of (PluginCodec decode encode) isolated = decode isolated"

definition decode_isolated_with_codec :: "(exn \<Rightarrow> string) \<Rightarrow> pyval \<Rightarrow> codec \<Rightarrow> exn + pyval" where
  "decode_isolated_with_codec str_of isolated codec = guarded str_of True (raw_decode str_of codec isolated)"

definition decode_owned_with_codec :: "(exn \<Rightarrow> string) \<Rightarrow> pyval \<Rightarrow> codec \<Rightarrow> exn + pyval" where
  "decode_owned_with_codec str_of payload codec = decode_isolated_with_codec str_of payload codec"

section \<open>Properties\<close>

lemma copy_json_object_Inr [simp]:
  "copy_json_object decoding v = Inr w \<longleftrightarrow> w = v \<and> json_object v"
proof -
  have "copy_json_object decoding v = Inr w \<longleftrightarrow> clone_json_object v = Inr w"
    by (cases "clone_json_object v") (auto simp: copy_json_object_def Let_def split: exn.split simp del: clone_json_object_Inr)
  then show ?thesis by simp
qed

lemma copy_json_object_valid [simp]: "json_object v \<Longrightarrow> copy_json_object decoding v = Inr v"
  by simp

lemma copy_json_object_Inl: "copy_json_object decoding v = Inl e \<Longrightarrow> is_codec_error e"
  by (cases "clone_json_object v")
     (auto simp: copy_json_object_def Let_def dest!: clone_json_object_errors split: if_splits)

lemma guarded_Inr [simp]: "guarded str_of decoding r = Inr v \<longleftrightarrow> r = Inr v"
  by (cases r) (auto simp: guarded_def Let_def)

lemma guarded_value [simp]: "guarded str_of decoding (Inr v) = Inr v"
  by simp

lemma guarded_Inl:
  "guarded str_of decoding r = Inl e \<Longrightarrow>
     is_codec_error e \<or> r = Inl e \<and> \<not> is_type_error e \<and> \<not> is_value_error e"
  by (cases r) (auto simp: guarded_def Let_def split: if_splits)

lemma guarded_codec_error [simp]: "is_codec_error e \<Longrightarrow> guarded str_of decoding (Inl e) = Inl e"
  by (simp add: guarded_def Let_def)

lemma guarded_copy [simp]: "guarded str_of decoding (copy_json_object d v) = copy_json_object d v"
  by (cases "copy_json_object d v") (auto dest: copy_json_object_Inl)

lemma guarded_idem [simp]: "guarded str_of d (guarded str_of d r) = guarded str_of d r"
  by (cases r) (auto simp: guarded_def Let_def)

lemma encode_source_copy:
  "encode_with_codec_source str_of v c =
     rbind (guarded str_of False (raw_encode str_of c v)) (copy_json_object False)"
  by (simp add: encode_with_codec_source_def copy_json_object_def [abs_def] Let_def)

text \<open>What a codec helper may raise: a codec error, or an exception that is no type and no value error.\<close>

definition codec_failure :: "exn \<Rightarrow> bool" where
  "codec_failure e = (is_codec_error e \<or> \<not> (is_type_error e \<or> is_value_error e))"

text \<open>
  Whatever the plugin's functions do, a codec helper never lets a type error, a value error or a
  protocol error of theirs through: it raises a codec error, or the exception of the plugin's code when
  that is of another kind; and what an encoder yields is a valid JSON object within the depth limit.
\<close>

theorem codec_helpers_normalise:
  "(case decode_with_codec str_of v c of
      Inl e \<Rightarrow> codec_failure e | Inr _ \<Rightarrow> json_object v) \<and>
   (case encode_with_codec str_of v c of
      Inl e \<Rightarrow> codec_failure e | Inr w \<Rightarrow> json_object w) \<and>
   (case encode_with_codec_source str_of v c of
      Inl e \<Rightarrow> codec_failure e | Inr w \<Rightarrow> json_object w)"
proof (intro conjI)
  have "codec_failure e" if "decode_with_codec str_of v c = Inl e" for e
    using that by (auto simp: decode_with_codec_def codec_failure_def dest: guarded_Inl)
  moreover have "json_object v" if "decode_with_codec str_of v c = Inr w" for w
    using that by (cases c) (auto simp: decode_with_codec_def functional_decode_def rbind_eq_Inr)
  ultimately show "case decode_with_codec str_of v c of
      Inl e \<Rightarrow> codec_failure e | Inr _ \<Rightarrow> json_object v"
    by (auto split: sum.split)
  have "codec_failure e" if "encode_with_codec str_of v c = Inl e" for e
    using that by (auto simp: encode_with_codec_def rbind_eq_Inl codec_failure_def split: if_splits
        dest: guarded_Inl copy_json_object_Inl)
  moreover have "json_object w" if "encode_with_codec str_of v c = Inr w" for w
    using that by (cases c) (auto simp: encode_with_codec_def functional_encode_def rbind_eq_Inr)
  ultimately show "case encode_with_codec str_of v c of
      Inl e \<Rightarrow> codec_failure e | Inr w \<Rightarrow> json_object w"
    by (auto split: sum.split)
  have "codec_failure e"
    if "encode_with_codec_source str_of v c = Inl e" for e
    using that by (auto simp: encode_source_copy rbind_eq_Inl codec_failure_def dest: guarded_Inl copy_json_object_Inl)
  moreover have "json_object w" if "encode_with_codec_source str_of v c = Inr w" for w
    using that by (auto simp: encode_source_copy rbind_eq_Inr)
  ultimately show "case encode_with_codec_source str_of v c of
      Inl e \<Rightarrow> codec_failure e | Inr w \<Rightarrow> json_object w"
    by (auto split: sum.split)
qed

text \<open>
  The path that encodes into an owned command snapshot agrees with the public helper, and decoding
  an owned snapshot agrees with decoding the same object from the wire: the copies that the owned
  paths save never change a result.
\<close>

theorem owned_codec_paths_agree:
  "encode_with_codec_source str_of v c = encode_with_codec str_of v c \<and>
   (json_object v \<longrightarrow> decode_owned_with_codec str_of v c = decode_with_codec str_of v c)"
proof
  have g: "guarded str_of False (rbind (guarded str_of False r) (copy_json_object False)) =
      rbind (guarded str_of False r) (copy_json_object False)" for r
  proof (cases "guarded str_of False r")
    case (Inl e)
    then show ?thesis by (metis guarded_idem rbind_simps(1))
  qed simp
  have "rbind (x :: exn + pyval) Inr = x" for x by (cases x) simp_all
  then show "encode_with_codec_source str_of v c = encode_with_codec str_of v c"
    unfolding encode_source_copy by (cases c) (simp_all add: encode_with_codec_def functional_encode_def g)
  show "json_object v \<longrightarrow> decode_owned_with_codec str_of v c = decode_with_codec str_of v c"
  proof
    assume "json_object v"
    then have "copy_json_object True v = Inr v" by simp
    then show "decode_owned_with_codec str_of v c = decode_with_codec str_of v c"
      by (cases c) (simp_all add: decode_owned_with_codec_def decode_isolated_with_codec_def
          decode_with_codec_def functional_decode_def)
  qed
qed

lemma owned_codec_paths_agree_witness:
  "decode_owned_with_codec (\<lambda>_. ''e'') (PDict [(PStr ''k'', PInt 1)]) JsonObjectCodec =
     decode_with_codec (\<lambda>_. ''e'') (PDict [(PStr ''k'', PInt 1)]) JsonObjectCodec"
proof -
  have "json_object (PDict [(PStr ''k'', PInt 1)])"
    by (simp add: json_object_def is_json_value_def max_json_depth_def)
  then show ?thesis using owned_codec_paths_agree by blast
qed

end
