(* ===== verification/GlobalSettings.thy ===== *)
theory GlobalSettings
  imports Commands Codecs Completion
begin

text \<open>
  runtime/global_settings.py: the plugin-wide settings, the write transactions that replace them
  (one thread at a time, reentrant), and the asynchronous write that stays pending after its
  transaction until its command has been sent. Segments run under the state lock; the write
  lock is a reentrant lock of the standard library, modelled by its owner and count.
\<close>

section \<open>State and segments\<close>

record gs_state =
  gs_context :: string
  gs_owner :: "nat option"
  gs_count :: nat
  gs_depth :: nat
  gs_pending :: "nat option"
  gs_settings :: pyval
  gs_loaded :: bool

definition new_gs_state :: "string \<Rightarrow> exn + gs_state" where
  "new_gs_state ctx =
     (if blank ctx then Inl (ValueError ''context must be a non-empty string'')
      else Inr \<lparr>gs_context = ctx, gs_owner = None, gs_count = 0, gs_depth = 0, gs_pending = None,
        gs_settings = PDict [], gs_loaded = False\<rparr>)"

definition gs_replace :: "pyval \<Rightarrow> gs_state \<Rightarrow> gs_state" where
  "gs_replace source s = s\<lparr>gs_settings := source, gs_loaded := True\<rparr>"

definition gs_release :: "gs_state \<Rightarrow> gs_state" where
  "gs_release s = s\<lparr>gs_count := gs_count s - 1,
     gs_owner := (if gs_count s - 1 = 0 then None else gs_owner s)\<rparr>"

text \<open>
  The ways an attempt to begin a transaction ends: inside it, with an error, without the write lock,
  or holding the write lock and waiting for the pending asynchronous write.
\<close>

datatype begin_result = Entered | BeginRaises exn | WaitsForLock | WaitsForPending

definition gs_enter :: "gs_state \<Rightarrow> gs_state" where
  "gs_enter s = s\<lparr>gs_depth := Suc (gs_depth s)\<rparr>"

text \<open>\<open>_wait_for_pending\<close> with the write lock held; the first test is made once, before the loop.\<close>

definition gs_wait_loop :: "bool \<Rightarrow> gs_state \<Rightarrow> gs_state \<times> begin_result" where
  "gs_wait_loop expired s =
     (if gs_pending s = None then (gs_enter s, Entered)
      else if expired then (gs_release s, BeginRaises CommandDeadlineExceededError)
      else (s, WaitsForPending))"

definition gs_wait_for_pending :: "bool \<Rightarrow> gs_state \<Rightarrow> gs_state \<times> begin_result" where
  "gs_wait_for_pending expired s =
     (if gs_depth s \<noteq> 0 \<and> gs_pending s \<noteq> None then (gs_release s, BeginRaises SettingsBusyError)
      else gs_wait_loop expired s)"

definition gs_require_idle :: "gs_state \<Rightarrow> bool" where
  "gs_require_idle s = (gs_pending s = None \<and> gs_depth s = 0)"

text \<open>
  \<open>_write_transaction\<close> up to its body. \<open>expired\<close>: a deadline is given and has passed (for the lock,
  that its timed acquisition failed).
\<close>

definition gs_begin :: "nat \<Rightarrow> bool \<Rightarrow> bool \<Rightarrow> gs_state \<Rightarrow> gs_state \<times> begin_result" where
  "gs_begin t blocking expired s =
     (if gs_owner s = None \<or> gs_owner s = Some t then
        let s1 = s\<lparr>gs_owner := Some t, gs_count := Suc (gs_count s)\<rparr> in
        if blocking then gs_wait_for_pending expired s1
        else if gs_require_idle s1 then (gs_enter s1, Entered)
        else (gs_release s1, BeginRaises SettingsBusyError)
      else if \<not> blocking then (s, BeginRaises SettingsBusyError)
      else if expired then (s, BeginRaises CommandDeadlineExceededError)
      else (s, WaitsForLock))"

definition gs_leave :: "gs_state \<Rightarrow> gs_state" where
  "gs_leave s = gs_release (s\<lparr>gs_depth := gs_depth s - 1\<rparr>)"

definition gs_set_pending :: "nat \<Rightarrow> gs_state \<Rightarrow> gs_state" where
  "gs_set_pending c s = s\<lparr>gs_pending := Some c\<rparr>"

definition gs_clear_pending :: "gs_state \<Rightarrow> gs_state" where
  "gs_clear_pending s = s\<lparr>gs_pending := None\<rparr>"

text \<open>\<open>_complete_async\<close>: the callback of the sent command, before it finishes the completion.\<close>

definition gs_complete_async :: "exn option \<Rightarrow> pyval \<Rightarrow> gs_state \<Rightarrow> gs_state" where
  "gs_complete_async error source s =
     gs_clear_pending (if error = None then gs_replace source s else s)"

section \<open>Operations\<close>

text \<open>
  The body of a synchronous write: what the transaction sends, and the replacement once it is
  sent. \<open>send c\<close> is the failure of the sender, if any.
\<close>

definition gs_send_and_replace :: "(command \<Rightarrow> exn option) \<Rightarrow> command \<Rightarrow> gs_state \<Rightarrow> gs_state \<times> exn option" where
  "gs_send_and_replace send c s =
     (case send c of
        Some e \<Rightarrow> (s, Some e)
      | None \<Rightarrow> (case c of
            SetGlobalSettingsCommand _ v \<Rightarrow>
              (case clone_json_object v of
                 Inr source \<Rightarrow> (gs_replace source s, None)
               | Inl e \<Rightarrow> (s, Some e))
          | _ \<Rightarrow> (s, None)))"

text \<open>The command of each kind of write: a raw value, a draft that is edited, a typed value.\<close>

definition set_command :: "pyval \<Rightarrow> gs_state \<Rightarrow> exn + command" where
  "set_command settings s = set_global_settings_command (PStr (gs_context s)) settings"

definition update_command :: "converter \<Rightarrow> gs_state \<Rightarrow> exn + command" where
  "update_command edit s =
     rbind (edit (gs_settings s)) (\<lambda>draft. set_global_settings_command (PStr (gs_context s)) draft)"

definition typed_command :: "(exn \<Rightarrow> string) \<Rightarrow> pyval \<Rightarrow> codec \<Rightarrow> gs_state \<Rightarrow> exn + command" where
  "typed_command str_of settings codec s =
     rbind (encode_with_codec_source str_of settings codec)
       (\<lambda>v. Inr (SetGlobalSettingsCommand (gs_context s) v))"

text \<open>
  A synchronous write (\<open>update\<close>, \<open>set\<close>, \<open>set_typed\<close>) of a thread that enters at once and is not
  interleaved with itself. \<open>in_callback\<close>: called inside a completion callback.
\<close>

definition gs_write ::
    "nat \<Rightarrow> bool \<Rightarrow> (gs_state \<Rightarrow> exn + command) \<Rightarrow> (command \<Rightarrow> exn option) \<Rightarrow> gs_state
      \<Rightarrow> gs_state \<times> exn option" where
  "gs_write t in_callback prepare send s =
     (if in_callback then (s, Some CommandReentrancyError)
      else case gs_begin t True True s of
        (s1, Entered) \<Rightarrow>
          (case prepare s1 of
             Inl e \<Rightarrow> (gs_leave s1, Some e)
           | Inr c \<Rightarrow> (case gs_send_and_replace send c s1 of (s2, r) \<Rightarrow> (gs_leave s2, r)))
      | (s1, BeginRaises e) \<Rightarrow> (s1, Some e)
      | (s1, _) \<Rightarrow> (s1, Some CommandDeadlineExceededError))"

text \<open>
  \<open>receive\<close>: an incoming value replaces the settings in a transaction of its own. \<open>ReceiveWaits\<close>: the
  thread has to wait for the write lock or for the pending write.
\<close>

datatype receive_result = Received pyval | ReceiveRaises exn | ReceiveWaits

definition gs_receive :: "nat \<Rightarrow> pyval \<Rightarrow> gs_state \<Rightarrow> gs_state \<times> receive_result" where
  "gs_receive t settings s =
     (case clone_json_object settings of
        Inl e \<Rightarrow> (s, ReceiveRaises e)
      | Inr source \<Rightarrow>
          (case gs_begin t True False s of
             (s1, Entered) \<Rightarrow> (gs_leave (gs_replace source s1), Received source)
           | (s1, BeginRaises e) \<Rightarrow> (s1, ReceiveRaises e)
           | (s1, _) \<Rightarrow> (s1, ReceiveWaits)))"

text \<open>
  \<open>_persist_async\<close>: \<open>c\<close> numbers the completion, \<open>send_async\<close> is the failure of the submission, if
  any. The result is the source that the completion of the command commits.
\<close>

definition gs_persist_async ::
    "nat \<Rightarrow> nat \<Rightarrow> (gs_state \<Rightarrow> exn + command) \<Rightarrow> (command \<Rightarrow> exn option) \<Rightarrow> gs_state
      \<Rightarrow> gs_state \<times> (exn + pyval)" where
  "gs_persist_async t c prepare send_async s =
     (case gs_begin t False False s of
        (s1, Entered) \<Rightarrow>
          (case prepare s1 of
             Inl e \<Rightarrow> (gs_leave s1, Inl e)
           | Inr command \<Rightarrow>
               (case (case command of SetGlobalSettingsCommand _ v \<Rightarrow> clone_json_object v
                                    | _ \<Rightarrow> Inr (PDict [])) of
                  Inl e \<Rightarrow> (gs_leave s1, Inl e)
                | Inr source \<Rightarrow>
                    (case send_async command of
                       Some e \<Rightarrow> (gs_leave (gs_clear_pending (gs_set_pending c s1)), Inl e)
                     | None \<Rightarrow> (gs_leave (gs_set_pending c s1), Inr source))))
      | (s1, BeginRaises e) \<Rightarrow> (s1, Inl e)
      | (s1, _) \<Rightarrow> (s1, Inl SettingsBusyError))"

text \<open>\<open>new_event\<close>, and \<open>new_replay_event\<close> of the coordinator.\<close>

definition gs_new_event :: "pyval option \<Rightarrow> gs_state \<Rightarrow> pyval" where
  "gs_new_event source s = (case source of Some v \<Rightarrow> v | None \<Rightarrow> gs_settings s)"

definition gs_new_replay_event :: "gs_state \<Rightarrow> pyval option" where
  "gs_new_replay_event s = (if \<not> gs_loaded s then None else Some (gs_new_event None s))"

section \<open>Transactions of concurrent threads\<close>

text \<open>
  The frames of a thread, innermost first: waiting for the pending write with the lock held, or inside a
  transaction that was begun blocking or not. \<open>gp_outstanding\<close>: the asynchronous writes whose
  command was accepted and has not completed yet. The relation has one rule for each segment of the
  operations above; a thread that waits takes no other step, and an asynchronous write marks
  itself as pending and submits once.
\<close>

datatype frame = WaitingFrame | InsideFrame bool

record gs_system =
  gp_state :: gs_state
  gp_stacks :: "nat \<Rightarrow> frame list"
  gp_outstanding :: "(nat \<times> pyval) set"

definition push :: "nat \<Rightarrow> frame \<Rightarrow> gs_state \<Rightarrow> gs_system \<Rightarrow> gs_system" where
  "push t f s p = p\<lparr>gp_state := s, gp_stacks := (gp_stacks p)(t := f # gp_stacks p t)\<rparr>"

definition set_stack :: "nat \<Rightarrow> frame list \<Rightarrow> gs_state \<Rightarrow> gs_system \<Rightarrow> gs_system" where
  "set_stack t fs s p = p\<lparr>gp_state := s, gp_stacks := (gp_stacks p)(t := fs)\<rparr>"

inductive gs_step :: "gs_system \<Rightarrow> gs_system \<Rightarrow> bool" where
  begin_enters: "gs_begin t blocking expired (gp_state p) = (s, Entered) \<Longrightarrow>
     WaitingFrame \<notin> set (gp_stacks p t) \<Longrightarrow> gs_step p (push t (InsideFrame blocking) s p)"
| begin_waits: "gs_begin t blocking expired (gp_state p) = (s, WaitsForPending) \<Longrightarrow>
     WaitingFrame \<notin> set (gp_stacks p t) \<Longrightarrow> gs_step p (push t WaitingFrame s p)"
| begin_raises: "gs_begin t blocking expired (gp_state p) = (s, BeginRaises e) \<Longrightarrow>
     WaitingFrame \<notin> set (gp_stacks p t) \<Longrightarrow> gs_step p (p\<lparr>gp_state := s\<rparr>)"
| wait_enters: "gp_stacks p t = WaitingFrame # fs \<Longrightarrow>
     gs_wait_loop expired (gp_state p) = (s, Entered) \<Longrightarrow>
     gs_step p (set_stack t (InsideFrame True # fs) s p)"
| wait_raises: "gp_stacks p t = WaitingFrame # fs \<Longrightarrow>
     gs_wait_loop expired (gp_state p) = (s, BeginRaises e) \<Longrightarrow> gs_step p (set_stack t fs s p)"
| commits: "gp_stacks p t = InsideFrame True # fs \<Longrightarrow>
     gs_step p (p\<lparr>gp_state := gs_replace source (gp_state p)\<rparr>)"
| leaves: "gp_stacks p t = InsideFrame b # fs \<Longrightarrow>
     gs_step p (set_stack t fs (gs_leave (gp_state p)) p)"
| marks: "gp_stacks p t = InsideFrame False # fs \<Longrightarrow> gs_pending (gp_state p) = None \<Longrightarrow>
     gs_step p (p\<lparr>gp_state := gs_set_pending c (gp_state p)\<rparr>)"
| submits: "gp_stacks p t = InsideFrame False # fs \<Longrightarrow> gs_pending (gp_state p) = Some c \<Longrightarrow>
     gp_outstanding p = {} \<Longrightarrow> gs_step p (p\<lparr>gp_outstanding := {(c, source)}\<rparr>)"
| submit_fails: "gp_stacks p t = InsideFrame False # fs \<Longrightarrow> gs_pending (gp_state p) = Some c \<Longrightarrow>
     gp_outstanding p = {} \<Longrightarrow> gs_step p (p\<lparr>gp_state := gs_clear_pending (gp_state p)\<rparr>)"
| completes: "(c, source) \<in> gp_outstanding p \<Longrightarrow>
     gs_step p (p\<lparr>gp_state := gs_complete_async error source (gp_state p),
       gp_outstanding := gp_outstanding p - {(c, source)}\<rparr>)"

inductive gs_reachable :: "string \<Rightarrow> gs_system \<Rightarrow> bool" for ctx where
  gs_start: "new_gs_state ctx = Inr s \<Longrightarrow>
     gs_reachable ctx \<lparr>gp_state = s, gp_stacks = (\<lambda>_. []), gp_outstanding = {}\<rparr>"
| gs_next: "gs_reachable ctx p \<Longrightarrow> gs_step p q \<Longrightarrow> gs_reachable ctx q"

inductive_cases gs_stepE [consumes 1, case_names begin_enters begin_waits begin_raises wait_enters
  wait_raises commits leaves marks submits submit_fails completes]: "gs_step p q"

fun inside :: "frame \<Rightarrow> bool" where
  "inside (InsideFrame _) = True"
| "inside WaitingFrame = False"

text \<open>
  The invariant: only the owner of the write lock has frames, the counts are exact, a waiting thread has no
  transaction open, and while an asynchronous write is pending no blocking transaction is open.
\<close>

definition gs_ok :: "gs_system \<Rightarrow> bool" where
  "gs_ok p \<longleftrightarrow> (let s = gp_state p in
     (case gs_owner s of
        None \<Rightarrow> (\<forall>t. gp_stacks p t = []) \<and> gs_count s = 0 \<and> gs_depth s = 0
      | Some t \<Rightarrow> gp_stacks p t \<noteq> [] \<and> (\<forall>u. u \<noteq> t \<longrightarrow> gp_stacks p u = []) \<and>
          gs_count s = length (gp_stacks p t) \<and>
          gs_depth s = length (filter inside (gp_stacks p t)) \<and>
          (WaitingFrame \<in> set (gp_stacks p t) \<longrightarrow> gp_stacks p t = [WaitingFrame]) \<and>
          InsideFrame False \<notin> set (butlast (gp_stacks p t)) \<and>
          (gs_pending s \<noteq> None \<longrightarrow> gp_stacks p t \<in> {[WaitingFrame], [InsideFrame False]})) \<and>
     (\<forall>c source. (c, source) \<in> gp_outstanding p \<longrightarrow> gs_pending s = Some c) \<and>
     (\<forall>c source d source'. (c, source) \<in> gp_outstanding p \<and> (d, source') \<in> gp_outstanding p \<longrightarrow>
        source = source'))"

lemma gs_begin_Entered:
  "gs_begin t blocking expired s = (s', Entered) \<Longrightarrow>
     (gs_owner s = None \<or> gs_owner s = Some t) \<and> gs_pending s = None \<and> (\<not> blocking \<longrightarrow> gs_depth s = 0) \<and>
     s' = s\<lparr>gs_owner := Some t, gs_count := Suc (gs_count s), gs_depth := Suc (gs_depth s)\<rparr>"
  by (auto simp: gs_begin_def Let_def gs_wait_for_pending_def gs_wait_loop_def gs_require_idle_def gs_enter_def
      split: if_splits)

lemma gs_begin_WaitsForPending:
  "gs_begin t blocking expired s = (s', WaitsForPending) \<Longrightarrow>
     (gs_owner s = None \<or> gs_owner s = Some t) \<and> gs_pending s \<noteq> None \<and> gs_depth s = 0 \<and>
     s' = s\<lparr>gs_owner := Some t, gs_count := Suc (gs_count s)\<rparr>"
  by (auto simp: gs_begin_def Let_def gs_wait_for_pending_def gs_wait_loop_def split: if_splits)

lemma gs_begin_raises:
  "gs_begin t blocking expired s = (s', BeginRaises e) \<Longrightarrow> (gs_owner s = None \<longleftrightarrow> gs_count s = 0) \<Longrightarrow> s' = s"
  by (cases s) (auto simp: gs_begin_def Let_def gs_wait_for_pending_def gs_wait_loop_def gs_release_def
      split: if_splits)

lemma gs_ok_owned:
  assumes "gs_ok p" "gp_stacks p t = f # fs"
  shows "gs_owner (gp_state p) = Some t" "\<forall>u. u \<noteq> t \<longrightarrow> gp_stacks p u = []"
    "gs_count (gp_state p) = length (f # fs)" "gs_depth (gp_state p) = length (filter inside (f # fs))"
    "WaitingFrame \<in> set (f # fs) \<longrightarrow> f # fs = [WaitingFrame]" "InsideFrame False \<notin> set (butlast (f # fs))"
    "gs_pending (gp_state p) \<noteq> None \<longrightarrow> f # fs \<in> {[WaitingFrame], [InsideFrame False]}"
proof -
  show o: "gs_owner (gp_state p) = Some t"
  proof (cases "gs_owner (gp_state p)")
    case None
    then show ?thesis using assms by (simp add: gs_ok_def Let_def)
  next
    case (Some a)
    then have "\<forall>u. u \<noteq> a \<longrightarrow> gp_stacks p u = []" using assms(1) by (simp add: gs_ok_def Let_def)
    then have "a = t" using assms(2) by (metis list.distinct(1))
    with Some show ?thesis by simp
  qed
  show "\<forall>u. u \<noteq> t \<longrightarrow> gp_stacks p u = []"
    "gs_count (gp_state p) = length (f # fs)" "gs_depth (gp_state p) = length (filter inside (f # fs))"
    "WaitingFrame \<in> set (f # fs) \<longrightarrow> f # fs = [WaitingFrame]" "InsideFrame False \<notin> set (butlast (f # fs))"
    "gs_pending (gp_state p) \<noteq> None \<longrightarrow> f # fs \<in> {[WaitingFrame], [InsideFrame False]}"
    using assms(1) unfolding gs_ok_def Let_def o assms(2) [symmetric] by simp_all
qed

lemma gs_ok_free:
  assumes "gs_ok p" "gs_owner (gp_state p) = None \<or> gs_owner (gp_state p) = Some t"
  shows "\<forall>u. u \<noteq> t \<longrightarrow> gp_stacks p u = []" "gs_count (gp_state p) = length (gp_stacks p t)"
    "gs_depth (gp_state p) = length (filter inside (gp_stacks p t))"
    "InsideFrame False \<notin> set (butlast (gp_stacks p t))"
  using assms by (auto simp: gs_ok_def Let_def)

text \<open>The invariant of a state whose write lock a thread owns, by the thread's frames.\<close>

lemma gs_okI:
  assumes "gs_owner (gp_state q) = Some t" "gp_stacks q t = f # fs" "\<forall>u. u \<noteq> t \<longrightarrow> gp_stacks q u = []"
    "gs_count (gp_state q) = length (f # fs)" "gs_depth (gp_state q) = length (filter inside (f # fs))"
    "WaitingFrame \<in> set (f # fs) \<longrightarrow> f # fs = [WaitingFrame]" "InsideFrame False \<notin> set (butlast (f # fs))"
    "gs_pending (gp_state q) \<noteq> None \<longrightarrow> f # fs \<in> {[WaitingFrame], [InsideFrame False]}"
    "\<forall>c source. (c, source) \<in> gp_outstanding q \<longrightarrow> gs_pending (gp_state q) = Some c"
    "\<forall>c source d source'. (c, source) \<in> gp_outstanding q \<and> (d, source') \<in> gp_outstanding q \<longrightarrow> source = source'"
  shows "gs_ok q"
  unfolding gs_ok_def Let_def assms(1) option.case assms(2)
  by (intro conjI list.distinct(2)) (use assms(3-) in \<open>simp_all only: simp_thms\<close>)

lemma gs_ok_outstanding:
  "gs_ok p \<Longrightarrow> \<forall>c source. (c, source) \<in> gp_outstanding p \<longrightarrow> gs_pending (gp_state p) = Some c"
  "gs_ok p \<Longrightarrow> \<forall>c source d source'. (c, source) \<in> gp_outstanding p \<and> (d, source') \<in> gp_outstanding p
     \<longrightarrow> source = source'"
  by (auto simp: gs_ok_def Let_def)

lemma gs_ok_one:
  assumes "gs_ok p" "(c, source) \<in> gp_outstanding p"
  shows "gp_outstanding p = {(c, source)}"
proof -
  have "x = (c, source)" if "x \<in> gp_outstanding p" for x
  proof (cases x)
    case (Pair d source')
    then have "gs_pending (gp_state p) = Some d" "gs_pending (gp_state p) = Some c" "source = source'"
      using that assms gs_ok_outstanding [OF assms(1)] by blast+
    with Pair show ?thesis by simp
  qed
  with assms(2) show ?thesis by blast
qed

lemma no_inside_no_frames:
  assumes "WaitingFrame \<notin> set fs" "length (filter inside fs) = 0"
  shows "fs = []"
proof (cases fs)
  case (Cons f gs)
  with assms show ?thesis by (cases f) simp_all
qed simp

lemma gs_ok_leave:
  assumes ok: "gs_ok p" and st: "gp_stacks p t = f # fs"
    and s: "gs_owner s = (if fs = [] then None else Some t)" "gs_count s = length fs"
      "gs_depth s = length (filter inside fs)" "gs_pending s = gs_pending (gp_state p)"
  shows "gs_ok (set_stack t fs s p)"
proof (cases fs)
  case Nil
  note O = gs_ok_owned [OF ok st]
  have "\<forall>u. ((gp_stacks p)(t := [])) u = []" using O(2) by simp
  then show ?thesis
    using s Nil gs_ok_outstanding [OF ok] by (simp add: gs_ok_def Let_def set_stack_def)
next
  case (Cons g gs)
  note O = gs_ok_owned [OF ok st]
  have ng: "WaitingFrame \<notin> set fs" "gs_pending s = None" "InsideFrame False \<notin> set (butlast fs)"
    using O(5-7) Cons s(4) by (auto split: if_splits)
  show ?thesis
    by (rule gs_okI [of _ t g gs])
       (use s Cons O(2) ng gs_ok_outstanding [OF ok] in \<open>simp_all add: set_stack_def\<close>)
qed

lemma gs_ok_unpend:
  assumes "gs_ok p" "gp_stacks q = gp_stacks p" "gs_owner (gp_state q) = gs_owner (gp_state p)"
    "gs_count (gp_state q) = gs_count (gp_state p)" "gs_depth (gp_state q) = gs_depth (gp_state p)"
    "gs_pending (gp_state q) = None" "gp_outstanding q = {}"
  shows "gs_ok q"
  using assms(1) unfolding gs_ok_def Let_def assms(2-)
  by (cases "gs_owner (gp_state p)") simp_all

lemma gs_ok_step:
  assumes ok: "gs_ok p" and step: "gs_step p q"
  shows "gs_ok q"
  using step
proof (cases rule: gs_stepE)
  case (begin_enters t blocking expired s)
  note B = gs_begin_Entered [OF begin_enters(2)]
  note F = gs_ok_free [OF ok conjunct1 [OF B]]
  have nested: "blocking \<or> gp_stacks p t = []"
    using B F(3) no_inside_no_frames [OF begin_enters(3)] by auto
  have "InsideFrame False \<notin> set (butlast (InsideFrame blocking # gp_stacks p t))"
    using nested F(4) by (cases "gp_stacks p t") auto
  then show ?thesis unfolding begin_enters(1)
    by (intro gs_okI [of _ t "InsideFrame blocking" "gp_stacks p t"])
       (use B F(1-3) begin_enters(3) gs_ok_outstanding [OF ok] in \<open>simp_all add: push_def\<close>)
next
  case (begin_waits t blocking expired s)
  note B = gs_begin_WaitsForPending [OF begin_waits(2)]
  note F = gs_ok_free [OF ok conjunct1 [OF B]]
  have "gp_stacks p t = []"
    using B F(3) no_inside_no_frames [OF begin_waits(3)] by auto
  then show ?thesis unfolding begin_waits(1)
    by (intro gs_okI [of _ t WaitingFrame "[]"])
       (use B F(1-3) gs_ok_outstanding [OF ok] in \<open>simp_all add: push_def\<close>)
next
  case (begin_raises t blocking expired s e)
  have "gs_owner (gp_state p) = None \<longleftrightarrow> gs_count (gp_state p) = 0"
    using ok by (cases "gs_owner (gp_state p)") (auto simp: gs_ok_def Let_def)
  from gs_begin_raises [OF begin_raises(2) this] have "q = p" by (simp add: begin_raises(1))
  with ok show ?thesis by simp
next
  case (wait_enters t fs expired s)
  note O = gs_ok_owned [OF ok wait_enters(2)]
  have fs: "fs = []" using O(5) by simp
  have "s = gs_enter (gp_state p) \<and> gs_pending (gp_state p) = None"
    using wait_enters(3) by (simp add: gs_wait_loop_def split: if_split_asm)
  note s = conjunct1 [OF this] conjunct2 [OF this] fs
  show ?thesis unfolding wait_enters(1)
    by (rule gs_okI [of _ t "InsideFrame True" fs])
       (use s O(1-4) gs_ok_outstanding [OF ok] in \<open>simp_all add: set_stack_def gs_enter_def\<close>)
next
  case (wait_raises t fs expired s e)
  note O = gs_ok_owned [OF ok wait_raises(2)]
  have fs: "fs = []" using O(5) by simp
  have "s = gs_release (gp_state p)"
    using wait_raises(3) by (simp add: gs_wait_loop_def split: if_split_asm)
  note s = this fs
  show ?thesis unfolding wait_raises(1)
    by (rule gs_ok_leave [OF ok wait_raises(2)]) (use s O(1-4) in \<open>simp_all add: gs_release_def\<close>)
next
  case (commits t fs source)
  note O = gs_ok_owned [OF ok commits(2)]
  show ?thesis unfolding commits(1)
    by (rule gs_okI [of _ t "InsideFrame True" fs])
       (use O commits(2) gs_ok_outstanding [OF ok] in \<open>simp_all add: gs_replace_def\<close>)
next
  case (leaves t b fs)
  note O = gs_ok_owned [OF ok leaves(2)]
  show ?thesis unfolding leaves(1)
    by (rule gs_ok_leave [OF ok leaves(2)]) (use O(1-4) in \<open>simp_all add: gs_leave_def gs_release_def\<close>)
next
  case (marks t fs c)
  note O = gs_ok_owned [OF ok marks(2)]
  have "fs = []" using O(6) by (cases fs) auto
  then show ?thesis unfolding marks(1)
    by (intro gs_okI [of _ t "InsideFrame False" fs])
       (use O marks gs_ok_outstanding [OF ok] in \<open>simp_all add: gs_set_pending_def\<close>)
next
  case (submits t fs c source)
  note O = gs_ok_owned [OF ok submits(2)]
  show ?thesis unfolding submits(1)
    by (rule gs_okI [of _ t "InsideFrame False" fs]) (use O submits in simp_all)
next
  case (submit_fails t fs c)
  note O = gs_ok_owned [OF ok submit_fails(2)]
  show ?thesis unfolding submit_fails(1)
    by (rule gs_okI [of _ t "InsideFrame False" fs]) (use O submit_fails in \<open>simp_all add: gs_clear_pending_def\<close>)
next
  case (completes c source error)
  have one: "gp_outstanding p - {(c, source)} = {}"
    using gs_ok_one [OF ok completes(2)] by simp
  have same: "gs_owner (gs_complete_async error source s) = gs_owner s"
    "gs_count (gs_complete_async error source s) = gs_count s"
    "gs_depth (gs_complete_async error source s) = gs_depth s"
    "gs_pending (gs_complete_async error source s) = None" for s
    by (simp_all add: gs_complete_async_def gs_clear_pending_def gs_replace_def)
  show ?thesis
    unfolding completes(1) one
    by (rule gs_ok_unpend [OF ok]) (simp_all add: same)
qed

lemma gs_reachable_ok: "gs_reachable ctx p \<Longrightarrow> gs_ok p"
proof (induction rule: gs_reachable.induct)
  case (gs_start s)
  then show ?case by (auto simp: gs_ok_def new_gs_state_def split: if_splits)
next
  case (gs_next p q)
  then show ?case using gs_ok_step by blast
qed


definition demo_gs :: gs_state where
  "demo_gs = (case new_gs_state ''uuid'' of Inr s \<Rightarrow> s)"

lemma demo_gs_new: "new_gs_state ''uuid'' = Inr demo_gs"
  by (simp add: demo_gs_def new_gs_state_def blank_iff py_space_def Let_def)


lemma clone_json_valid: "json_object v \<Longrightarrow> clone_json_object v = Inr v"
  by simp

text \<open>
  A synchronous write is all or nothing: if it raises, for whatever reason (an invalid value, an edit or a
  codec that fails, the sender), the state is exactly what it was, lock included; if it returns, the
  settings are those of the command that was sent, they count as loaded, and nothing else has changed.
\<close>

theorem gs_write_all_or_nothing:
  assumes "gs_owner s = None" "gs_count s = 0" "gs_depth s = 0"
    and "gs_write t in_callback prepare send s = (s', r)"
  shows "case r of
      Some e \<Rightarrow> s' = s
    | None \<Rightarrow> \<not> in_callback \<and> gs_pending s = None \<and>
        (\<exists>c. prepare (s\<lparr>gs_owner := Some t, gs_count := 1, gs_depth := 1\<rparr>) = Inr c \<and> send c = None \<and>
           (case c of SetGlobalSettingsCommand _ v \<Rightarrow> json_object v \<and> s' = gs_replace v s | _ \<Rightarrow> s' = s))"
proof -
  define s1 where "s1 = s\<lparr>gs_owner := Some t, gs_count := 1, gs_depth := 1\<rparr>"
  have undo: "gs_leave s1 = s" "gs_leave (gs_replace v s1) = gs_replace v s" for v
    using assms(1-3) by (simp_all add: s1_def gs_leave_def gs_release_def gs_replace_def)
  have "case r of
      Some e \<Rightarrow> s' = s
    | None \<Rightarrow> \<not> in_callback \<and> gs_pending s = None \<and>
        (\<exists>c. prepare s1 = Inr c \<and> send c = None \<and>
           (case c of SetGlobalSettingsCommand _ v \<Rightarrow> json_object v \<and> s' = gs_replace v s | _ \<Rightarrow> s' = s))"
  proof (cases "in_callback \<or> gs_pending s \<noteq> None")
    case True
    then show ?thesis
      using assms by (auto simp: gs_write_def gs_begin_def Let_def gs_wait_for_pending_def gs_wait_loop_def
          gs_release_def split: if_splits)
  next
    case False
    then have "gs_begin t True True s = (s1, Entered)"
      using assms(1-3) by (simp add: gs_begin_def Let_def gs_wait_for_pending_def gs_wait_loop_def gs_enter_def s1_def)
    with False assms(4) have w: "(case prepare s1 of Inl e \<Rightarrow> (gs_leave s1, Some e)
        | Inr c \<Rightarrow> (case gs_send_and_replace send c s1 of (s2, r) \<Rightarrow> (gs_leave s2, r))) = (s', r)"
      by (simp add: gs_write_def)
    show ?thesis
    proof (cases "prepare s1")
      case (Inl e)
      then show ?thesis using w by (auto simp: undo)
    next
      case (Inr c)
      have sent: "case snd (gs_send_and_replace send c s1) of
          Some e \<Rightarrow> gs_leave (fst (gs_send_and_replace send c s1)) = s
        | None \<Rightarrow> send c = None \<and> (case c of SetGlobalSettingsCommand _ v \<Rightarrow>
            json_object v \<and> gs_leave (fst (gs_send_and_replace send c s1)) = gs_replace v s
            | _ \<Rightarrow> gs_leave (fst (gs_send_and_replace send c s1)) = s)"
        by (cases "send c"; cases c) (simp_all add: gs_send_and_replace_def undo clone_json_valid split: sum.split)
      show ?thesis
      proof (cases "gs_send_and_replace send c s1")
        case (Pair s2 q)
        with w Inr have sq: "s' = gs_leave s2" "r = q" by simp_all
        show ?thesis
          using sent [unfolded Pair fst_conv snd_conv] Inr False unfolding sq by (cases q) simp_all
      qed
    qed
  qed
  then show ?thesis unfolding s1_def .
qed

lemma gs_write_all_or_nothing_witness:
  "\<exists>s'. gs_write 1 False (set_command (PDict [(PStr ''k'', PInt 1)])) (\<lambda>_. None) demo_gs = (s', None) \<and>
     gs_settings s' = PDict [(PStr ''k'', PInt 1)]"
proof -
  obtain s' where w: "gs_write 1 False (set_command (PDict [(PStr ''k'', PInt 1)])) (\<lambda>_. None) demo_gs = (s', None)"
    by (simp add: gs_write_def gs_begin_def Let_def gs_wait_for_pending_def gs_wait_loop_def gs_enter_def
        demo_gs_def new_gs_state_def blank_iff py_space_def set_command_def set_global_settings_command_def
        owned_json_payload_def reword_def clone_json_object_def max_json_depth_def py_string_def
        gs_send_and_replace_def)
  have "gs_owner demo_gs = None" "gs_count demo_gs = 0" "gs_depth demo_gs = 0"
    by (simp_all add: demo_gs_def new_gs_state_def blank_iff py_space_def Let_def)
  from gs_write_all_or_nothing [OF this w] w show ?thesis
    by (auto simp: set_command_def set_global_settings_command_def owned_json_payload_def reword_def
        clone_json_object_def max_json_depth_def py_string_def gs_replace_def demo_gs_def new_gs_state_def
        blank_iff py_space_def Let_def)
qed

end
