(* ===== verification/Router.thy ===== *)
theory Router
  imports Routes Lifecycle GlobalSettings
begin

text \<open>
  runtime/actions.py and runtime/router.py: the ownership of action objects by context, the
  transitions that events cause before their callback, broadcasts to all active actions, the plugin's
  callbacks, and the result of a dispatch.

  Application code is a parameter: \<open>app calls c g\<close> is what the call \<open>c\<close> does after the calls
  \<open>calls\<close> were made, given the global settings \<open>g\<close>, which it may write: the settings afterwards and the
  exception it raises, if any. \<open>factory\<close> stands for the action factory in the same way. The callback
  monitor only measures time and is left out, and so are logging and error reporting.
\<close>

section \<open>State\<close>

record action_object =
  ao_id :: nat
  ao_action :: string
  ao_context :: string

text \<open>The calls of application code that a dispatch makes.\<close>

datatype call =
    CreateCall string string pyval
  | ActionCall action_object string "stream_dock_event option"
  | UpdateSettingsCall action_object pyval
  | UpdateTitleCall action_object string title_parameters
  | PluginCall string stream_dock_event

type_synonym application = "call list \<Rightarrow> call \<Rightarrow> gs_state \<Rightarrow> gs_state \<times> exn option"
type_synonym factory = "call list \<Rightarrow> string \<Rightarrow> string \<Rightarrow> pyval \<Rightarrow> exn + action_object option"

record router =
  ro_actions :: "(string \<times> action_object) list"
  ro_settings :: gs_state
  ro_calls :: "call list"
  ro_created :: nat
  ro_removed :: nat
  ro_duplicate_appearances :: nat
  ro_unknown_uuids :: nat
  ro_missing_contexts :: nat
  ro_broadcasts :: nat
  ro_broadcast_targets :: nat
  ro_broadcast_failures :: nat
  ro_appearance_rollbacks :: nat
  ro_settings_updates :: nat
  ro_settings_update_failures :: nat
  ro_title_updates :: nat
  ro_global_settings_updates :: nat
  ro_global_settings_replays :: nat
  ro_known_events :: nat
  ro_unknown_events :: nat
  ro_plugin_delivered :: nat
  ro_plugin_failures :: nat

definition new_router :: "gs_state \<Rightarrow> router" where
  "new_router g =
     \<lparr>ro_actions = [], ro_settings = g, ro_calls = [], ro_created = 0, ro_removed = 0,
      ro_duplicate_appearances = 0, ro_unknown_uuids = 0, ro_missing_contexts = 0, ro_broadcasts = 0,
      ro_broadcast_targets = 0, ro_broadcast_failures = 0, ro_appearance_rollbacks = 0,
      ro_settings_updates = 0, ro_settings_update_failures = 0, ro_title_updates = 0,
      ro_global_settings_updates = 0, ro_global_settings_replays = 0, ro_known_events = 0,
      ro_unknown_events = 0, ro_plugin_delivered = 0, ro_plugin_failures = 0\<rparr>"

text \<open>
  What a dispatch raises: an error of the registry, an exception, or nothing at all because the thread
  waits for another settings write.
\<close>

datatype dispatch_error = RouteError route_error | Raised exn | Blocked

type_synonym dispatched = "router \<times> (dispatch_error + dispatch_result)"

definition invoke :: "application \<Rightarrow> call \<Rightarrow> router \<Rightarrow> router \<times> exn option" where
  "invoke app c r =
     (case app (ro_calls r) c (ro_settings r) of
        (g, e) \<Rightarrow> (r\<lparr>ro_settings := g, ro_calls := ro_calls r @ [c]\<rparr>, e))"

text \<open>\<open>except Exception\<close> around an invocation: a failed callback, or an exception that passes through.\<close>

definition callback_result :: "exn option \<Rightarrow> dispatch_error + dispatch_result" where
  "callback_result e =
     (case e of
        None \<Rightarrow> Inr (DispatchResult Handled None)
      | Some x \<Rightarrow> if is_exception x then Inr (DispatchResult CallbackFailed (Some x)) else Inl (Raised x))"

section \<open>Action contexts\<close>

definition located_codec_error :: "string \<Rightarrow> exn \<Rightarrow> exn" where
  "located_codec_error name e =
     (case e of
        JsonCodecDecodeError reason _ path \<Rightarrow>
          JsonCodecDecodeError reason (Some name) (Key ''payload'' # Key ''settings'' # path)
      | _ \<Rightarrow> e)"

definition contexts_create :: "factory \<Rightarrow> visibility_event \<Rightarrow> router \<Rightarrow> router \<times> (exn + action_object option)" where
  "contexts_create factory v r =
     (if map_of (ro_actions r) (ev_context v) \<noteq> None then
        (r\<lparr>ro_duplicate_appearances := Suc (ro_duplicate_appearances r)\<rparr>, Inr None)
      else case clone_json_object (ev_settings v) of
        Inl e \<Rightarrow> (r, Inl (located_codec_error ''willAppear'' e))
      | Inr settings \<Rightarrow>
          let r1 = r\<lparr>ro_calls := ro_calls r @ [CreateCall (ev_action v) (ev_context v) settings]\<rparr> in
          (case factory (ro_calls r) (ev_action v) (ev_context v) settings of
             Inl e \<Rightarrow> (r1, Inl (located_codec_error ''willAppear'' e))
           | Inr None \<Rightarrow> (r1\<lparr>ro_unknown_uuids := Suc (ro_unknown_uuids r1)\<rparr>, Inr None)
           | Inr (Some a) \<Rightarrow>
               if ao_action a \<noteq> ev_action v \<or> ao_context a \<noteq> ev_context v
               then (r1, Inl RuntimeActionIdentityError)
               else (r1\<lparr>ro_actions := ro_actions r1 @ [(ev_context v, a)],
                        ro_created := Suc (ro_created r1)\<rparr>, Inr (Some a))))"

definition contexts_get :: "string \<Rightarrow> router \<Rightarrow> action_object option" where
  "contexts_get c r = map_of (ro_actions r) c"

definition contexts_remove :: "string \<Rightarrow> action_object option \<Rightarrow> router \<Rightarrow> router \<times> action_object option" where
  "contexts_remove c expected r =
     (case map_of (ro_actions r) c of
        None \<Rightarrow> (r, None)
      | Some a \<Rightarrow>
          if (case expected of None \<Rightarrow> False | Some x \<Rightarrow> ao_id a \<noteq> ao_id x) then (r, None)
          else (r\<lparr>ro_actions := AList.delete c (ro_actions r), ro_removed := Suc (ro_removed r)\<rparr>, Some a))"

definition contexts_snapshot :: "router \<Rightarrow> action_object list" where
  "contexts_snapshot r = map snd (ro_actions r)"

definition contexts_clear :: "router \<Rightarrow> router \<times> action_object list" where
  "contexts_clear r =
     (r\<lparr>ro_actions := [], ro_removed := ro_removed r + length (ro_actions r)\<rparr>, contexts_snapshot r)"

section \<open>Broadcasts\<close>

text \<open>\<open>isinstance(event, route.event_class)\<close>; the events of the model are of the concrete classes.\<close>

definition route_accepts :: "route \<Rightarrow> stream_dock_event \<Rightarrow> bool" where
  "route_accepts rt e = (rt_class rt = class_of_event e)"

definition broadcast_valid :: "route \<Rightarrow> stream_dock_event \<Rightarrow> bool" where
  "broadcast_valid rt e = (rt_scope rt = BroadcastScope \<and> route_accepts rt e)"

definition dispatch_one ::
    "application \<Rightarrow> action_object \<Rightarrow> stream_dock_event \<Rightarrow> route \<Rightarrow> router \<Rightarrow> dispatched" where
  "dispatch_one app a e rt r =
     (if \<not> broadcast_valid rt e then (r, Inl (Raised (RuntimeEventDispatchError ''route'')))
      else case invoke app (ActionCall a (rt_callback rt) (Some e)) r of
        (r1, None) \<Rightarrow> (r1, Inr (DispatchResult Handled None))
      | (r1, Some x) \<Rightarrow>
          if is_exception x then
            (r1\<lparr>ro_broadcast_failures := Suc (ro_broadcast_failures r1)\<rparr>,
             Inr (DispatchResult CallbackFailed (Some x)))
          else (r1, Inl (Raised x)))"

text \<open>The loop over the snapshot; \<open>next_event r\<close> is the event for the next target.\<close>

fun broadcast_loop ::
    "application \<Rightarrow> (router \<Rightarrow> stream_dock_event) \<Rightarrow> route \<Rightarrow> action_object list \<Rightarrow> exn option
      \<Rightarrow> router \<Rightarrow> dispatched" where
  "broadcast_loop app next_event rt [] first_error r =
     (r, Inr (case first_error of
         None \<Rightarrow> DispatchResult Handled None
       | Some x \<Rightarrow> DispatchResult CallbackFailed (Some x)))"
| "broadcast_loop app next_event rt (a # targets) first_error r =
     (case dispatch_one app a (next_event r) rt r of
        (r1, Inl x) \<Rightarrow> (r1, Inl x)
      | (r1, Inr result) \<Rightarrow>
          broadcast_loop app next_event rt targets
            (if dres_error result \<noteq> None \<and> first_error = None then dres_error result else first_error) r1)"

definition broadcast ::
    "application \<Rightarrow> stream_dock_event \<Rightarrow> route \<Rightarrow> (router \<Rightarrow> stream_dock_event) option \<Rightarrow> router \<Rightarrow> dispatched" where
  "broadcast app e rt event_factory r =
     (if \<not> broadcast_valid rt e then (r, Inl (Raised (RuntimeEventDispatchError ''route'')))
      else
        let targets = contexts_snapshot r;
            r1 = r\<lparr>ro_broadcasts := Suc (ro_broadcasts r),
                   ro_broadcast_targets := ro_broadcast_targets r + length targets\<rparr>
        in broadcast_loop app (case event_factory of None \<Rightarrow> \<lambda>_. e | Some f \<Rightarrow> f) rt targets None r1)"

section \<open>Action events\<close>

definition invoke_action :: "application \<Rightarrow> action_object \<Rightarrow> stream_dock_event \<Rightarrow> route \<Rightarrow> router \<Rightarrow> dispatched" where
  "invoke_action app a e rt r =
     (case invoke app (ActionCall a (rt_callback rt) (Some e)) r of (r1, x) \<Rightarrow> (r1, callback_result x))"

definition missing_context :: "router \<Rightarrow> dispatched" where
  "missing_context r =
     (r\<lparr>ro_missing_contexts := Suc (ro_missing_contexts r)\<rparr>, Inr (DispatchResult Ignored None))"

text \<open>The part of \<open>_create\<close> after a failed appearance: removal and the notification of the action.\<close>

definition rollback_appearance ::
    "application \<Rightarrow> string \<Rightarrow> action_object \<Rightarrow> dispatch_result \<Rightarrow> router \<Rightarrow> dispatched" where
  "rollback_appearance app c a result r =
     (let r1 = (case contexts_remove c (Some a) r of
          (r', None) \<Rightarrow> r'
        | (r', Some _) \<Rightarrow> r'\<lparr>ro_appearance_rollbacks := Suc (ro_appearance_rollbacks r')\<rparr>)
      in case invoke app (ActionCall a ''on_will_disappear'' None) r1 of
        (r2, Some x) \<Rightarrow> (r2, if is_exception x then Inr result else Inl (Raised x))
      | (r2, None) \<Rightarrow> (r2, Inr result))"

definition replay_event :: "router \<Rightarrow> router \<times> stream_dock_event option" where
  "replay_event r =
     (case gs_new_replay_event (ro_settings r) of
        None \<Rightarrow> (r, None)
      | Some v \<Rightarrow> (r\<lparr>ro_global_settings_replays := Suc (ro_global_settings_replays r)\<rparr>,
                 Some (DidReceiveGlobalSettings v)))"

definition create_action ::
    "application \<Rightarrow> factory \<Rightarrow> route option \<Rightarrow> stream_dock_event \<Rightarrow> route \<Rightarrow> router \<Rightarrow> dispatched" where
  "create_action app factory gs_route e rt r =
     (case e of
        WillAppear v \<Rightarrow>
          (case contexts_create factory v r of
             (r1, Inl x) \<Rightarrow>
               (r1, if x = RuntimeActionIdentityError \<or> \<not> is_exception x then Inl (Raised x)
                    else Inr (DispatchResult CallbackFailed (Some x)))
           | (r1, Inr None) \<Rightarrow> (r1, Inr (DispatchResult Ignored None))
           | (r1, Inr (Some a)) \<Rightarrow>
               (case invoke_action app a e rt r1 of
                  (r2, Inl x) \<Rightarrow> (r2, Inl x)
                | (r2, Inr result) \<Rightarrow>
                    if dres_error result \<noteq> None then rollback_appearance app (ev_context v) a result r2
                    else (case replay_event r2 of
                        (r3, Some replay) \<Rightarrow>
                          (case gs_route of
                             Some grt \<Rightarrow> dispatch_one app a replay grt r3
                           | None \<Rightarrow> (r3, Inr result))
                      | (r3, None) \<Rightarrow> (r3, Inr result))))
      | _ \<Rightarrow> (r, Inl (Raised (RuntimeEventDispatchError ''CREATE_ACTION requires WillAppearEvent''))))"

definition remove_action :: "application \<Rightarrow> stream_dock_event \<Rightarrow> route \<Rightarrow> router \<Rightarrow> dispatched" where
  "remove_action app e rt r =
     (case e of
        WillDisappear v \<Rightarrow>
          (case contexts_remove (ev_context v) None r of
             (r1, None) \<Rightarrow> missing_context r1
           | (r1, Some a) \<Rightarrow> invoke_action app a e rt r1)
      | _ \<Rightarrow> (r, Inl (Raised (RuntimeEventDispatchError ''REMOVE_ACTION requires WillDisappearEvent''))))"

definition update_settings :: "application \<Rightarrow> stream_dock_event \<Rightarrow> route \<Rightarrow> router \<Rightarrow> dispatched" where
  "update_settings app e rt r =
     (case e of
        DidReceiveSettings v \<Rightarrow>
          (case contexts_get (ev_context v) r of
             None \<Rightarrow> missing_context r
           | Some a \<Rightarrow>
               (case invoke app (UpdateSettingsCall a (ev_settings v)) r of
                  (r1, Some x) \<Rightarrow>
                    if is_exception x then
                      (r1\<lparr>ro_settings_update_failures := Suc (ro_settings_update_failures r1)\<rparr>,
                       Inr (DispatchResult CallbackFailed (Some (located_codec_error ''didReceiveSettings'' x))))
                    else (r1, Inl (Raised x))
                | (r1, None) \<Rightarrow>
                    invoke_action app a e rt (r1\<lparr>ro_settings_updates := Suc (ro_settings_updates r1)\<rparr>)))
      | _ \<Rightarrow> (r, Inl (Raised (RuntimeEventDispatchError
                ''UPDATE_ACTION_SETTINGS requires DidReceiveSettingsEvent''))))"

definition update_title :: "application \<Rightarrow> stream_dock_event \<Rightarrow> route \<Rightarrow> router \<Rightarrow> dispatched" where
  "update_title app e rt r =
     (case e of
        TitleParametersDidChange v \<Rightarrow>
          (case contexts_get (ev_context v) r of
             None \<Rightarrow> missing_context r
           | Some a \<Rightarrow>
               (case invoke app (UpdateTitleCall a (ti_title v) (ti_parameters v)) r of
                  (r1, Some x) \<Rightarrow> (r1, callback_result (Some x))
                | (r1, None) \<Rightarrow>
                    invoke_action app a e rt (r1\<lparr>ro_title_updates := Suc (ro_title_updates r1)\<rparr>)))
      | _ \<Rightarrow> (r, Inl (Raised (RuntimeEventDispatchError
                ''UPDATE_ACTION_TITLE requires TitleParametersDidChangeEvent''))))"

definition dispatch_current :: "application \<Rightarrow> stream_dock_event \<Rightarrow> route \<Rightarrow> router \<Rightarrow> dispatched" where
  "dispatch_current app e rt r =
     (case Option.bind (action_context e) (\<lambda>c. contexts_get c r) of
        None \<Rightarrow> missing_context r
      | Some a \<Rightarrow> invoke_action app a e rt r)"

definition dispatch_action ::
    "application \<Rightarrow> factory \<Rightarrow> route option \<Rightarrow> stream_dock_event \<Rightarrow> route \<Rightarrow> router \<Rightarrow> dispatched" where
  "dispatch_action app factory gs_route e rt r =
     (if rt_scope rt \<noteq> ActionScope then (r, Inl (Raised (RuntimeEventDispatchError ''not action-scoped'')))
      else if \<not> route_accepts rt e \<or> as_action_event e = None
      then (r, Inl (Raised (RuntimeEventDispatchError ''cannot dispatch'')))
      else case rt_transition rt of
        CreateAction \<Rightarrow> create_action app factory gs_route e rt r
      | RemoveAction \<Rightarrow> remove_action app e rt r
      | UpdateActionSettings \<Rightarrow> update_settings app e rt r
      | UpdateActionTitle \<Rightarrow> update_title app e rt r
      | NoTransition \<Rightarrow> dispatch_current app e rt r
      | UpdateGlobalSettings \<Rightarrow> (r, Inl (Raised (RuntimeEventDispatchError ''unsupported action transition''))))"

section \<open>The router\<close>

definition dispatch_plugin :: "application \<Rightarrow> stream_dock_event \<Rightarrow> string option \<Rightarrow> router \<Rightarrow> dispatched" where
  "dispatch_plugin app e callback r =
     (case callback of
        None \<Rightarrow> (r, Inr (DispatchResult Handled None))
      | Some c \<Rightarrow>
          (case invoke app (PluginCall c e) (r\<lparr>ro_plugin_delivered := Suc (ro_plugin_delivered r)\<rparr>) of
             (r1, None) \<Rightarrow> (r1, Inr (DispatchResult Handled None))
           | (r1, Some x) \<Rightarrow>
               if is_exception x then
                 (r1\<lparr>ro_plugin_failures := Suc (ro_plugin_failures r1)\<rparr>,
                  Inr (DispatchResult CallbackFailed (Some x)))
               else (r1, Inl (Raised x))))"

fun aggregate_results :: "dispatch_result list \<Rightarrow> dispatch_result" where
  "aggregate_results [] = DispatchResult Handled None"
| "aggregate_results (result # results) =
     (if dres_outcome result = CallbackFailed then result else aggregate_results results)"

text \<open>
  \<open>receive\<close> of the coordinator by the dispatching thread \<open>t\<close>. \<open>await g\<close> is the settings state when
  the thread has got its turn, which other threads may have changed from \<open>g\<close> meanwhile.
\<close>

definition receive_settings ::
    "nat \<Rightarrow> (gs_state \<Rightarrow> gs_state) \<Rightarrow> pyval \<Rightarrow> router \<Rightarrow> router \<times> (dispatch_error + pyval)" where
  "receive_settings t await v r =
     (case gs_receive t v (await (ro_settings r)) of
        (g, Received source) \<Rightarrow>
          (r\<lparr>ro_settings := g, ro_global_settings_updates := Suc (ro_global_settings_updates r)\<rparr>, Inr source)
      | (g, ReceiveRaises x) \<Rightarrow> (r\<lparr>ro_settings := g\<rparr>, Inl (Raised x))
      | (g, ReceiveWaits) \<Rightarrow> (r\<lparr>ro_settings := g\<rparr>, Inl Blocked))"

definition new_settings_event :: "pyval \<Rightarrow> router \<Rightarrow> stream_dock_event" where
  "new_settings_event source r = DidReceiveGlobalSettings (gs_new_event (Some source) (ro_settings r))"

text \<open>The broadcast of an event after its delivery to the plugin.\<close>

definition broadcast_after_plugin ::
    "application \<Rightarrow> stream_dock_event \<Rightarrow> stream_dock_event \<Rightarrow> route \<Rightarrow> (router \<Rightarrow> stream_dock_event) option
      \<Rightarrow> router \<Rightarrow> dispatched" where
  "broadcast_after_plugin app plugin_event e rt event_factory r =
     (case dispatch_plugin app plugin_event (rt_plugin_callback rt) r of
        (r1, Inl x) \<Rightarrow> (r1, Inl x)
      | (r1, Inr plugin_result) \<Rightarrow>
          (case broadcast app e rt event_factory r1 of
             (r2, Inl x) \<Rightarrow> (r2, Inl x)
           | (r2, Inr action_result) \<Rightarrow> (r2, Inr (aggregate_results [plugin_result, action_result]))))"

definition dispatch_broadcast ::
    "application \<Rightarrow> nat \<Rightarrow> (gs_state \<Rightarrow> gs_state) \<Rightarrow> stream_dock_event \<Rightarrow> route \<Rightarrow> router \<Rightarrow> dispatched" where
  "dispatch_broadcast app t await e rt r =
     (if rt_transition rt = UpdateGlobalSettings then
        (case e of
           DidReceiveGlobalSettings v \<Rightarrow>
             (case receive_settings t await v r of
                (r1, Inl x) \<Rightarrow> (r1, Inl x)
              | (r1, Inr source) \<Rightarrow>
                  broadcast_after_plugin app (new_settings_event source r1) e rt
                    (Some (new_settings_event source)) r1)
         | _ \<Rightarrow> (r, Inl (Raised (RuntimeEventDispatchError
                   ''UPDATE_GLOBAL_SETTINGS requires DidReceiveGlobalSettingsEvent''))))
      else if rt_transition rt \<noteq> NoTransition
      then (r, Inl (Raised (RuntimeEventDispatchError ''unsupported broadcast transition'')))
      else broadcast_after_plugin app e e rt None r)"

definition dispatch_to_plugin ::
    "application \<Rightarrow> nat \<Rightarrow> (gs_state \<Rightarrow> gs_state) \<Rightarrow> stream_dock_event \<Rightarrow> route \<Rightarrow> router \<Rightarrow> dispatched" where
  "dispatch_to_plugin app t await e rt r =
     (if rt_transition rt = UpdateGlobalSettings then
        (case e of
           DidReceiveGlobalSettings v \<Rightarrow>
             (case receive_settings t await v r of
                (r1, Inl x) \<Rightarrow> (r1, Inl x)
              | (r1, Inr source) \<Rightarrow>
                  dispatch_plugin app (new_settings_event source r1) (Some (rt_callback rt)) r1)
         | _ \<Rightarrow> (r, Inl (Raised (RuntimeEventDispatchError
                   ''UPDATE_GLOBAL_SETTINGS requires DidReceiveGlobalSettingsEvent''))))
      else if rt_transition rt \<noteq> NoTransition
      then (r, Inl (Raised (RuntimeEventDispatchError ''unsupported plugin transition'')))
      else dispatch_plugin app e (Some (rt_callback rt)) r)"

text \<open>The route that replays the global settings to a late action: only a broadcast one.\<close>

definition settings_route :: "registry \<Rightarrow> route option" where
  "settings_route reg =
     (case map_of (reg_by_wire_name reg) (wire_name DID_RECEIVE_GLOBAL_SETTINGS) of
        Some rt \<Rightarrow> if rt_scope rt = BroadcastScope then Some rt else None
      | None \<Rightarrow> None)"

definition dispatch_unknown :: "application \<Rightarrow> stream_dock_event \<Rightarrow> router \<Rightarrow> dispatched" where
  "dispatch_unknown app e r =
     (if \<not> is_unknown e then (r, Inl (Raised (RuntimeEventDispatchError ''known event has no runtime route'')))
      else case invoke app (PluginCall ''on_unhandled_event'' e)
          (r\<lparr>ro_unknown_events := Suc (ro_unknown_events r)\<rparr>) of
        (r1, x) \<Rightarrow> (r1, callback_result x))"

definition dispatch ::
    "application \<Rightarrow> factory \<Rightarrow> nat \<Rightarrow> (gs_state \<Rightarrow> gs_state) \<Rightarrow> registry \<Rightarrow> stream_dock_event \<Rightarrow> router
      \<Rightarrow> dispatched" where
  "dispatch app factory t await reg e r =
     (case route_for reg e of
        Inl x \<Rightarrow> (r, Inl (RouteError x))
      | Inr None \<Rightarrow> dispatch_unknown app e r
      | Inr (Some rt) \<Rightarrow>
          let r1 = r\<lparr>ro_known_events := Suc (ro_known_events r)\<rparr> in
          (case rt_scope rt of
             ActionScope \<Rightarrow> dispatch_action app factory (settings_route reg) e rt r1
           | BroadcastScope \<Rightarrow> dispatch_broadcast app t await e rt r1
           | PluginScope \<Rightarrow> dispatch_to_plugin app t await e rt r1))"

fun dispatch_all ::
    "application \<Rightarrow> factory \<Rightarrow> (gs_state \<Rightarrow> gs_state) \<Rightarrow> registry \<Rightarrow> (nat \<times> stream_dock_event) list \<Rightarrow> router
      \<Rightarrow> router" where
  "dispatch_all app factory await reg [] r = r"
| "dispatch_all app factory await reg ((t, e) # es) r =
     dispatch_all app factory await reg es (fst (dispatch app factory t await reg e r))"

section \<open>Ownership of actions\<close>

text \<open>
  Each context owns at most one action, which carries that context and was made by the factory for it,
  a callback is only made on such an action, and the counters account for every action.
\<close>

definition made_by_factory :: "call list \<Rightarrow> action_object \<Rightarrow> bool" where
  "made_by_factory calls a \<longleftrightarrow>
     (\<exists>settings. CreateCall (ao_action a) (ao_context a) settings \<in> set calls)"

fun call_target :: "call \<Rightarrow> action_object option" where
  "call_target (ActionCall a _ _) = Some a"
| "call_target (UpdateSettingsCall a _) = Some a"
| "call_target (UpdateTitleCall a _ _) = Some a"
| "call_target _ = None"

definition contexts_ok :: "router \<Rightarrow> bool" where
  "contexts_ok r \<longleftrightarrow>
     distinct (map fst (ro_actions r)) \<and>
     (\<forall>(c, a) \<in> set (ro_actions r). ao_context a = c \<and> made_by_factory (ro_calls r) a) \<and>
     (\<forall>c a. c \<in> set (ro_calls r) \<longrightarrow> call_target c = Some a \<longrightarrow> made_by_factory (ro_calls r) a) \<and>
     ro_created r = ro_removed r + length (ro_actions r)"

text \<open>The part of the state that the invariant reads.\<close>

definition same_actions :: "router \<Rightarrow> router \<Rightarrow> bool" where
  "same_actions r r' \<longleftrightarrow>
     ro_actions r' = ro_actions r \<and> ro_created r' = ro_created r \<and> ro_removed r' = ro_removed r"

lemma same_actions_ok:
  "contexts_ok r \<Longrightarrow> same_actions r r' \<Longrightarrow> ro_calls r' = ro_calls r \<Longrightarrow> contexts_ok r'"
  by (simp add: contexts_ok_def same_actions_def)

lemma made_by_factory_append: "made_by_factory calls a \<Longrightarrow> made_by_factory (calls @ later) a"
  by (auto simp: made_by_factory_def)

lemma contexts_ok_call:
  assumes "contexts_ok r" "same_actions r r'" "ro_calls r' = ro_calls r @ [c]"
    and "\<And>a. call_target c = Some a \<Longrightarrow> made_by_factory (ro_calls r) a"
  shows "contexts_ok r'"
  using assms by (fastforce simp: contexts_ok_def same_actions_def intro: made_by_factory_append)

lemma invoke_fields:
  assumes "invoke app c r = (r', x)"
  shows "same_actions r r'" "ro_calls r' = ro_calls r @ [c]"
    "app (ro_calls r) c (ro_settings r) = (ro_settings r', x)"
  using assms by (auto simp: invoke_def same_actions_def split: prod.splits)

lemma contexts_ok_invoke:
  "contexts_ok r \<Longrightarrow> invoke app c r = (r', x) \<Longrightarrow>
     (\<And>a. call_target c = Some a \<Longrightarrow> made_by_factory (ro_calls r) a) \<Longrightarrow> contexts_ok r'"
  using contexts_ok_call invoke_fields by metis

lemma contexts_ok_update [simp]:
  "contexts_ok (r\<lparr>ro_duplicate_appearances := n\<rparr>) = contexts_ok r"
  "contexts_ok (r\<lparr>ro_unknown_uuids := n\<rparr>) = contexts_ok r"
  "contexts_ok (r\<lparr>ro_missing_contexts := n\<rparr>) = contexts_ok r"
  "contexts_ok (r\<lparr>ro_broadcasts := n\<rparr>) = contexts_ok r"
  "contexts_ok (r\<lparr>ro_broadcast_targets := n\<rparr>) = contexts_ok r"
  "contexts_ok (r\<lparr>ro_broadcast_failures := n\<rparr>) = contexts_ok r"
  "contexts_ok (r\<lparr>ro_appearance_rollbacks := n\<rparr>) = contexts_ok r"
  "contexts_ok (r\<lparr>ro_settings_updates := n\<rparr>) = contexts_ok r"
  "contexts_ok (r\<lparr>ro_settings_update_failures := n\<rparr>) = contexts_ok r"
  "contexts_ok (r\<lparr>ro_title_updates := n\<rparr>) = contexts_ok r"
  "contexts_ok (r\<lparr>ro_global_settings_updates := n\<rparr>) = contexts_ok r"
  "contexts_ok (r\<lparr>ro_global_settings_replays := n\<rparr>) = contexts_ok r"
  "contexts_ok (r\<lparr>ro_known_events := n\<rparr>) = contexts_ok r"
  "contexts_ok (r\<lparr>ro_unknown_events := n\<rparr>) = contexts_ok r"
  "contexts_ok (r\<lparr>ro_plugin_delivered := n\<rparr>) = contexts_ok r"
  "contexts_ok (r\<lparr>ro_plugin_failures := n\<rparr>) = contexts_ok r"
  "contexts_ok (r\<lparr>ro_settings := g\<rparr>) = contexts_ok r"
  by (simp_all add: contexts_ok_def)

lemma active_made:
  "contexts_ok r \<Longrightarrow> map_of (ro_actions r) c = Some a \<Longrightarrow> made_by_factory (ro_calls r) a"
  unfolding contexts_ok_def by (auto dest!: map_of_SomeD)

lemma snapshot_made:
  "contexts_ok r \<Longrightarrow> a \<in> set (contexts_snapshot r) \<Longrightarrow> made_by_factory (ro_calls r) a"
  unfolding contexts_ok_def contexts_snapshot_def by auto

lemma contexts_ok_create:
  assumes ok: "contexts_ok r" and create: "contexts_create factory v r = (r', x)"
  shows "contexts_ok r' \<and> (\<forall>a. x = Inr (Some a) \<longrightarrow> made_by_factory (ro_calls r') a)"
proof -
  have call: "contexts_ok (r\<lparr>ro_calls := ro_calls r @ [CreateCall (ev_action v) (ev_context v) s]\<rparr>)" for s
    by (rule contexts_ok_call [OF ok, where c = "CreateCall (ev_action v) (ev_context v) s"])
       (simp_all add: same_actions_def)
  have add: "contexts_ok (r\<lparr>ro_calls := calls, ro_actions := ro_actions r @ [(c, a)],
        ro_created := Suc (ro_created r)\<rparr>)"
    if "contexts_ok (r\<lparr>ro_calls := calls\<rparr>)" "map_of (ro_actions r) c = None" "ao_context a = c"
      "made_by_factory calls a" for calls c a
    using that by (auto simp: contexts_ok_def map_of_eq_None_iff)
  show ?thesis
    using create call ok
    by (auto simp: contexts_create_def Let_def made_by_factory_def intro!: add
        split: if_splits sum.splits option.splits prod.splits)
qed

lemma length_delete_Suc:
  "distinct (map fst xs) \<Longrightarrow> map_of xs c = Some a \<Longrightarrow> length xs = Suc (length (AList.delete c xs))"
  by (induction xs) (auto simp: map_of_eq_None_iff delete_notin_dom dest: map_of_SomeD)

lemma contexts_ok_remove:
  assumes ok: "contexts_ok r" and remove: "contexts_remove c expected r = (r', x)"
  shows "contexts_ok r' \<and> ro_calls r' = ro_calls r \<and> (\<forall>a. x = Some a \<longrightarrow> made_by_factory (ro_calls r') a)"
proof -
  have "contexts_ok (r\<lparr>ro_actions := AList.delete c (ro_actions r), ro_removed := Suc (ro_removed r)\<rparr>)"
    if "map_of (ro_actions r) c = Some a" for a
    using ok that length_delete_Suc [of "ro_actions r" c a]
    by (auto simp: contexts_ok_def AList.distinct_delete)
       (auto simp: AList.delete_eq)
  with remove ok active_made [OF ok] show ?thesis
    by (auto simp: contexts_remove_def split: option.splits if_splits)
qed


lemma dispatch_one_fields:
  assumes "dispatch_one app a e rt r = (r', x)"
  shows "r' = r \<or> (\<exists>r1 y. invoke app (ActionCall a (rt_callback rt) (Some e)) r = (r1, y) \<and>
      (r' = r1 \<or> r' = r1\<lparr>ro_broadcast_failures := Suc (ro_broadcast_failures r1)\<rparr>))"
  using assms
  by (cases "invoke app (ActionCall a (rt_callback rt) (Some e)) r")
     (auto simp: dispatch_one_def split: if_splits option.splits)

lemma contexts_ok_dispatch_one:
  assumes "contexts_ok r" "made_by_factory (ro_calls r) a" "dispatch_one app a e rt r = (r', x)"
  shows "contexts_ok r' \<and> (\<exists>more. ro_calls r' = ro_calls r @ more)"
proof (cases "r' = r")
  case False
  then obtain r1 y where call: "invoke app (ActionCall a (rt_callback rt) (Some e)) r = (r1, y)"
    and r': "r' = r1 \<or> r' = r1\<lparr>ro_broadcast_failures := Suc (ro_broadcast_failures r1)\<rparr>"
    using dispatch_one_fields [OF assms(3)] by blast
  have "contexts_ok r1" by (rule contexts_ok_invoke [OF assms(1) call]) (use assms(2) in auto)
  with invoke_fields(2) [OF call] r' show ?thesis by auto
qed (use assms in simp)

lemma contexts_ok_broadcast_loop:
  assumes "contexts_ok r" "\<forall>a \<in> set targets. made_by_factory (ro_calls r) a"
    and "broadcast_loop app next_event rt targets err r = (r', x)"
  shows "contexts_ok r'"
  using assms
proof (induction targets arbitrary: err r)
  case (Cons a targets)
  obtain r1 y where one: "dispatch_one app a (next_event r) rt r = (r1, y)" by fastforce
  have ok1: "contexts_ok r1" using Cons.prems one contexts_ok_dispatch_one by auto
  have "\<forall>b \<in> set targets. made_by_factory (ro_calls r1) b"
    using Cons.prems contexts_ok_dispatch_one [OF _ _ one] made_by_factory_append by fastforce
  with Cons one ok1 show ?case by (cases y) fastforce+
qed simp

lemma contexts_ok_broadcast:
  assumes "contexts_ok r" "broadcast app e rt f r = (r', x)"
  shows "contexts_ok r'"
proof (cases "broadcast_valid rt e")
  case True
  show ?thesis
    by (rule contexts_ok_broadcast_loop
          [of "r\<lparr>ro_broadcasts := Suc (ro_broadcasts r),
               ro_broadcast_targets := ro_broadcast_targets r + length (contexts_snapshot r)\<rparr>"])
       (use True assms snapshot_made in \<open>auto simp: broadcast_def Let_def\<close>)
qed (use assms in \<open>auto simp: broadcast_def\<close>)

lemma contexts_ok_invoke_action:
  assumes "contexts_ok r" "made_by_factory (ro_calls r) a" "invoke_action app a e rt r = (r', x)"
  shows "contexts_ok r' \<and> same_actions r r' \<and> made_by_factory (ro_calls r') a"
proof -
  obtain y where "invoke app (ActionCall a (rt_callback rt) (Some e)) r = (r', y)"
    using assms(3) by (auto simp: invoke_action_def split: prod.splits)
  with assms(1,2) contexts_ok_invoke [OF assms(1) this] invoke_fields [OF this] show ?thesis
    by (auto intro: made_by_factory_append)
qed

lemma contexts_ok_rollback:
  assumes "contexts_ok r" "made_by_factory (ro_calls r) a"
    "rollback_appearance app c a result r = (r', x)"
  shows "contexts_ok r'"
proof -
  obtain r1 y where remove: "contexts_remove c (Some a) r = (r1, y)" by fastforce
  let ?r2 = "case y of None \<Rightarrow> r1 | Some _ \<Rightarrow> r1\<lparr>ro_appearance_rollbacks := Suc (ro_appearance_rollbacks r1)\<rparr>"
  have ok: "contexts_ok ?r2" "ro_calls ?r2 = ro_calls r"
    using contexts_ok_remove [OF assms(1) remove] by (auto split: option.splits)
  obtain z where "invoke app (ActionCall a ''on_will_disappear'' None) ?r2 = (r', z)"
    using assms(3) remove by (auto simp: rollback_appearance_def Let_def split: prod.splits option.splits)
  from contexts_ok_invoke [OF ok(1) this] show ?thesis using assms(2) ok(2) by auto
qed

lemma contexts_ok_replay: "contexts_ok r \<Longrightarrow> replay_event r = (r', x) \<Longrightarrow> contexts_ok r' \<and> ro_calls r' = ro_calls r"
  by (auto simp: replay_event_def split: option.splits)

lemma contexts_ok_create_action:
  assumes "contexts_ok r" "create_action app factory gs_route e rt r = (r', x)"
  shows "contexts_ok r'"
proof (cases "\<exists>v. e = WillAppear v")
  case True
  then obtain v where e: "e = WillAppear v" by blast
  obtain r1 y where create: "contexts_create factory v r = (r1, y)" by fastforce
  note made = contexts_ok_create [OF assms(1) create]
  show ?thesis
  proof (cases "\<exists>a. y = Inr (Some a)")
    case True
    then obtain a where y: "y = Inr (Some a)" by blast
    obtain r2 z where act: "invoke_action app a e rt r1 = (r2, z)" by fastforce
    have ok2: "contexts_ok r2" "made_by_factory (ro_calls r2) a"
      using contexts_ok_invoke_action [OF _ _ act] made y by auto
    obtain r3 u where replay: "replay_event r2 = (r3, u)" by fastforce
    show ?thesis
      using assms(2) ok2 contexts_ok_rollback [OF ok2] contexts_ok_replay [OF ok2(1) replay]
        contexts_ok_dispatch_one
      by (fastforce simp: create_action_def e create y act [unfolded e] replay
          split: sum.splits if_splits option.splits)
  qed (use assms(2) made in \<open>auto simp: create_action_def e create split: sum.splits option.splits\<close>)
qed (use assms in \<open>cases e; auto simp: create_action_def\<close>)


lemma contexts_ok_current:
  assumes "contexts_ok r" "contexts_get c r = Some a" "invoke_action app a e rt r = (r', x)"
  shows "contexts_ok r'"
  using contexts_ok_invoke_action [OF assms(1) _ assms(3)] active_made [OF assms(1)] assms(2)
  by (auto simp: contexts_get_def)

lemma contexts_ok_missing: "contexts_ok r \<Longrightarrow> contexts_ok (fst (missing_context r))"
  by (simp add: missing_context_def)

lemma contexts_ok_remove_action:
  assumes "contexts_ok r" "remove_action app e rt r = (r', x)"
  shows "contexts_ok r'"
proof (cases e)
  case (WillDisappear v)
  obtain r1 y where remove: "contexts_remove (ev_context v) None r = (r1, y)" by fastforce
  note ok = contexts_ok_remove [OF assms(1) remove]
  show ?thesis
  proof (cases y)
    case (Some a)
    then show ?thesis
      using assms(2) ok contexts_ok_invoke_action [of r1 a app e rt r' x]
      by (auto simp: remove_action_def WillDisappear remove)
  qed (use assms(2) ok in \<open>auto simp: remove_action_def WillDisappear remove missing_context_def\<close>)
qed (use assms in \<open>auto simp: remove_action_def\<close>)

text \<open>The two updates of an action share their form: a call that fails, or a counter and the callback.\<close>

lemma contexts_ok_then_invoke:
  assumes ok: "contexts_ok r" and get: "contexts_get c r = Some a"
    and call: "invoke app d r = (r1, y)" and target: "\<And>b. call_target d = Some b \<Longrightarrow> b = a"
  shows "contexts_ok r1" "made_by_factory (ro_calls r1) a"
proof -
  have made: "made_by_factory (ro_calls r) a" using get active_made [OF ok] by (simp add: contexts_get_def)
  show "contexts_ok r1" by (rule contexts_ok_invoke [OF ok call]) (use made target in auto)
  show "made_by_factory (ro_calls r1) a"
    using made invoke_fields(2) [OF call] by (simp add: made_by_factory_append)
qed

lemma contexts_ok_update_settings:
  assumes "contexts_ok r" "update_settings app e rt r = (r', x)"
  shows "contexts_ok r'"
proof (cases e)
  case (DidReceiveSettings v)
  show ?thesis
  proof (cases "contexts_get (ev_context v) r")
    case (Some a)
    obtain r1 y where call: "invoke app (UpdateSettingsCall a (ev_settings v)) r = (r1, y)" by fastforce
    have ok: "contexts_ok r1" "made_by_factory (ro_calls r1) a"
      using contexts_ok_then_invoke [OF assms(1) Some call] by auto
    show ?thesis
      using assms(2) ok contexts_ok_invoke_action [of "r1\<lparr>ro_settings_updates := Suc (ro_settings_updates r1)\<rparr>" a]
      by (auto simp: update_settings_def DidReceiveSettings Some call split: option.splits if_splits)
  qed (use assms in \<open>auto simp: update_settings_def DidReceiveSettings missing_context_def\<close>)
qed (use assms in \<open>auto simp: update_settings_def\<close>)

lemma contexts_ok_update_title:
  assumes "contexts_ok r" "update_title app e rt r = (r', x)"
  shows "contexts_ok r'"
proof (cases e)
  case (TitleParametersDidChange v)
  show ?thesis
  proof (cases "contexts_get (ev_context v) r")
    case (Some a)
    obtain r1 y where call: "invoke app (UpdateTitleCall a (ti_title v) (ti_parameters v)) r = (r1, y)"
      by fastforce
    have ok: "contexts_ok r1" "made_by_factory (ro_calls r1) a"
      using contexts_ok_then_invoke [OF assms(1) Some call] by auto
    show ?thesis
      using assms(2) ok contexts_ok_invoke_action [of "r1\<lparr>ro_title_updates := Suc (ro_title_updates r1)\<rparr>" a]
      by (auto simp: update_title_def TitleParametersDidChange Some call split: option.splits)
  qed (use assms in \<open>auto simp: update_title_def TitleParametersDidChange missing_context_def\<close>)
qed (use assms in \<open>auto simp: update_title_def\<close>)

lemma contexts_ok_dispatch_current:
  assumes "contexts_ok r" "dispatch_current app e rt r = (r', x)"
  shows "contexts_ok r'"
  using assms contexts_ok_current
  by (auto simp: dispatch_current_def missing_context_def split: option.splits bind_splits)

lemmas contexts_ok_operations =
  contexts_ok_create_action contexts_ok_remove_action contexts_ok_update_settings
  contexts_ok_update_title contexts_ok_dispatch_current

lemma contexts_ok_dispatch_action:
  assumes "contexts_ok r" "dispatch_action app factory gs_route e rt r = (r', x)"
  shows "contexts_ok r'"
  using assms contexts_ok_operations [OF assms(1)]
  by (auto simp: dispatch_action_def split: if_splits transition.splits)

lemma contexts_ok_dispatch_plugin:
  assumes "contexts_ok r" "dispatch_plugin app e c r = (r', x)"
  shows "contexts_ok r'"
proof (cases c)
  case (Some d)
  let ?r = "r\<lparr>ro_plugin_delivered := Suc (ro_plugin_delivered r)\<rparr>"
  obtain r1 y where call: "invoke app (PluginCall d e) ?r = (r1, y)" by fastforce
  have "contexts_ok r1" by (rule contexts_ok_invoke [OF _ call]) (use assms(1) in auto)
  then show ?thesis
    using assms(2) by (auto simp: dispatch_plugin_def Some call split: option.splits if_splits)
qed (use assms in \<open>auto simp: dispatch_plugin_def\<close>)

lemma contexts_ok_receive_settings:
  "contexts_ok r \<Longrightarrow> receive_settings t await v r = (r', x) \<Longrightarrow> contexts_ok r'"
  by (auto simp: receive_settings_def split: prod.splits receive_result.splits)

lemma contexts_ok_broadcast_after_plugin:
  assumes "contexts_ok r" "broadcast_after_plugin app pe e rt f r = (r', x)"
  shows "contexts_ok r'"
proof -
  obtain r1 y where plugin: "dispatch_plugin app pe (rt_plugin_callback rt) r = (r1, y)" by fastforce
  obtain r2 z where actions: "broadcast app e rt f r1 = (r2, z)" by fastforce
  have ok1: "contexts_ok r1" by (rule contexts_ok_dispatch_plugin [OF assms(1) plugin])
  show ?thesis
    using assms(2) ok1 contexts_ok_broadcast [OF ok1 actions]
    by (auto simp: broadcast_after_plugin_def plugin actions split: sum.splits)
qed

lemma contexts_ok_dispatch_broadcast:
  assumes "contexts_ok r" "dispatch_broadcast app t await e rt r = (r', x)"
  shows "contexts_ok r'"
proof -
  have "contexts_ok r1"
    if "receive_settings t await v r = (r1, y)" for v r1 y
    by (rule contexts_ok_receive_settings [OF assms(1) that])
  then show ?thesis
    using assms contexts_ok_broadcast_after_plugin
    by (auto simp: dispatch_broadcast_def split: if_splits prod.splits sum.splits stream_dock_event.splits)
       blast+
qed

lemma contexts_ok_dispatch_to_plugin:
  assumes "contexts_ok r" "dispatch_to_plugin app t await e rt r = (r', x)"
  shows "contexts_ok r'"
proof -
  have "contexts_ok r1"
    if "receive_settings t await v r = (r1, y)" for v r1 y
    by (rule contexts_ok_receive_settings [OF assms(1) that])
  then show ?thesis
    using assms contexts_ok_dispatch_plugin
    by (auto simp: dispatch_to_plugin_def split: if_splits prod.splits sum.splits stream_dock_event.splits)
       blast+
qed

lemma contexts_ok_dispatch:
  assumes "contexts_ok r"
  shows "contexts_ok (fst (dispatch app factory t await reg e r))"
proof -
  let ?r = "r\<lparr>ro_known_events := Suc (ro_known_events r)\<rparr>"
  have ok: "contexts_ok ?r" using assms by simp
  have unknown: "contexts_ok (fst (dispatch_unknown app e r))"
    using contexts_ok_invoke [of "r\<lparr>ro_unknown_events := Suc (ro_unknown_events r)\<rparr>" app
        "PluginCall ''on_unhandled_event'' e"] assms
    by (auto simp: dispatch_unknown_def split: prod.splits)
  have "contexts_ok (fst (dispatch_action app factory gs_route e rt ?r))"
    "contexts_ok (fst (dispatch_broadcast app t await e rt ?r))"
    "contexts_ok (fst (dispatch_to_plugin app t await e rt ?r))" for rt gs_route
    using contexts_ok_dispatch_action [OF ok] contexts_ok_dispatch_broadcast [OF ok]
      contexts_ok_dispatch_to_plugin [OF ok] by (metis prod.collapse)+
  with assms unknown show ?thesis
    by (simp add: dispatch_def Let_def split: sum.splits option.splits event_scope.splits)
qed

text \<open>
  C15. Whatever the application and the factory do and in whatever order events come, after any
  sequence of dispatches every context owns at most one action, each owned action carries its context
  and was made by the factory for it, every callback was made on an action of the factory, and the
  number of created actions is that of the removed and the active ones.
\<close>

theorem contexts_always_ok:
  "contexts_ok (dispatch_all app factory await reg events (new_router g))"
proof -
  have "contexts_ok (dispatch_all app factory await reg events r)" if "contexts_ok r" for r
    using that
    by (induction app factory await reg events r rule: dispatch_all.induct)
       (simp_all add: contexts_ok_dispatch)
  then show ?thesis by (simp add: contexts_ok_def new_router_def)
qed


section \<open>Delivery\<close>

text \<open>The reference of a delivery: the calls in order, each made once, whatever the earlier ones raised.\<close>

fun deliver ::
    "application \<Rightarrow> call list \<Rightarrow> gs_state \<Rightarrow> call list \<Rightarrow> call list \<times> gs_state \<times> exn option list" where
  "deliver app made g [] = (made, g, [])"
| "deliver app made g (c # cs) =
     (case app made c g of (g1, x) \<Rightarrow>
        (case deliver app (made @ [c]) g1 cs of (made', g', xs) \<Rightarrow> (made', g', x # xs)))"

definition first_failure :: "exn option list \<Rightarrow> dispatch_result" where
  "first_failure xs =
     (case List.find (\<lambda>x. x \<noteq> None) xs of
        Some x \<Rightarrow> DispatchResult CallbackFailed x
      | None \<Rightarrow> DispatchResult Handled None)"

text \<open>Application code that raises nothing but subclasses of \<open>Exception\<close>.\<close>

definition ordinary :: "application \<Rightarrow> bool" where
  "ordinary app \<longleftrightarrow> (\<forall>made c g x. snd (app made c g) = Some x \<longrightarrow> is_exception x)"

lemma ordinary_invoke: "ordinary app \<Longrightarrow> invoke app c r = (r', y) \<Longrightarrow> y = Some x \<Longrightarrow> is_exception x"
  unfolding ordinary_def using invoke_fields(3) [of app c r r' y] by (metis snd_conv)

lemma deliver_made: "fst (deliver app made g cs) = made @ cs"
  by (induction app made g cs rule: deliver.induct) (auto split: prod.splits)

text \<open>The state after a delivery, up to the counters.\<close>

definition delivered :: "router \<Rightarrow> call list \<times> gs_state \<times> exn option list \<Rightarrow> router \<Rightarrow> bool" where
  "delivered r d r' \<longleftrightarrow> same_actions r r' \<and> ro_calls r' = fst d \<and> ro_settings r' = fst (snd d)"

lemma broadcast_loop_delivers:
  assumes "ordinary app" "\<And>r. broadcast_valid rt (next_event r)" "\<And>r. next_event r = e"
  shows "\<exists>r'. broadcast_loop app next_event rt targets err r =
      (r', Inr (case err of Some x \<Rightarrow> DispatchResult CallbackFailed (Some x)
        | None \<Rightarrow> first_failure (snd (snd (deliver app (ro_calls r) (ro_settings r)
            (map (\<lambda>a. ActionCall a (rt_callback rt) (Some e)) targets)))))) \<and>
      delivered r (deliver app (ro_calls r) (ro_settings r)
        (map (\<lambda>a. ActionCall a (rt_callback rt) (Some e)) targets)) r'"
proof (induction targets arbitrary: err r)
  case Nil
  show ?case by (auto simp: first_failure_def delivered_def same_actions_def split: option.splits)
next
  case (Cons a targets)
  obtain r1 x where call: "invoke app (ActionCall a (rt_callback rt) (Some e)) r = (r1, x)" by fastforce
  note f = invoke_fields [OF call]
  define r2 where "r2 = (case x of None \<Rightarrow> r1
    | Some _ \<Rightarrow> r1\<lparr>ro_broadcast_failures := Suc (ro_broadcast_failures r1)\<rparr>)"
  have one: "dispatch_one app a e rt r =
      (r2, Inr (DispatchResult (if x = None then Handled else CallbackFailed) x))"
    using assms ordinary_invoke [OF assms(1) call]
    by (auto simp: dispatch_one_def call r2_def split: option.splits)
  have r2: "same_actions r r2" "ro_calls r2 = ro_calls r @ [ActionCall a (rt_callback rt) (Some e)]"
    "ro_settings r2 = ro_settings r1"
    using f by (auto simp: r2_def same_actions_def split: option.splits)
  show ?case
    using Cons.IH [of "if x \<noteq> None \<and> err = None then x else err" r2] r2 f(3)
    by (auto simp: assms(3) one first_failure_def delivered_def same_actions_def
        split: prod.splits option.splits)
qed

lemma broadcast_delivers:
  assumes "ordinary app" "broadcast_valid rt e"
    and "case f of None \<Rightarrow> True | Some g \<Rightarrow> (\<forall>r. g r = e')" "f = None \<Longrightarrow> e' = e" "broadcast_valid rt e'"
  shows "\<exists>r'. broadcast app e rt f r =
      (r', Inr (first_failure (snd (snd (deliver app (ro_calls r) (ro_settings r)
         (map (\<lambda>a. ActionCall a (rt_callback rt) (Some e')) (contexts_snapshot r))))))) \<and>
      delivered r (deliver app (ro_calls r) (ro_settings r)
         (map (\<lambda>a. ActionCall a (rt_callback rt) (Some e')) (contexts_snapshot r))) r'"
proof -
  let ?f = "case f of None \<Rightarrow> \<lambda>_. e | Some f \<Rightarrow> f"
  let ?r = "r\<lparr>ro_broadcasts := Suc (ro_broadcasts r),
    ro_broadcast_targets := ro_broadcast_targets r + length (contexts_snapshot r)\<rparr>"
  have f: "?f r = e'" for r using assms(3,4) by (cases f) auto
  show ?thesis
    using broadcast_loop_delivers [OF assms(1), of rt ?f e' "contexts_snapshot r" None ?r] f assms(2,5)
    by (auto simp: broadcast_def Let_def delivered_def same_actions_def contexts_snapshot_def)
qed

lemma dispatch_plugin_delivers:
  assumes "ordinary app"
  shows "\<exists>r'. dispatch_plugin app e (Some c) r =
      (r', Inr (first_failure (snd (snd (deliver app (ro_calls r) (ro_settings r) [PluginCall c e]))))) \<and>
      delivered r (deliver app (ro_calls r) (ro_settings r) [PluginCall c e]) r'"
proof -
  let ?r = "r\<lparr>ro_plugin_delivered := Suc (ro_plugin_delivered r)\<rparr>"
  obtain r1 x where call: "invoke app (PluginCall c e) ?r = (r1, x)" by fastforce
  show ?thesis
    using invoke_fields [OF call] ordinary_invoke [OF assms call]
    by (auto simp: dispatch_plugin_def call first_failure_def delivered_def same_actions_def
        split: option.splits prod.splits)
qed

lemma aggregate_first_failure:
  "aggregate_results [first_failure xs, first_failure ys] = first_failure (xs @ ys)"
proof -
  have find_append: "List.find P (xs @ ys) = (case List.find P xs of None \<Rightarrow> List.find P ys | Some x \<Rightarrow> Some x)"
    for P :: "exn option \<Rightarrow> bool" by (induction xs) auto
  show ?thesis by (simp add: first_failure_def find_append split: option.splits)
qed

lemma deliver_append:
  "deliver app made g (cs @ ds) =
     (case deliver app made g cs of (made1, g1, xs) \<Rightarrow>
        (case deliver app made1 g1 ds of (made2, g2, ys) \<Rightarrow> (made2, g2, xs @ ys)))"
  by (induction app made g cs rule: deliver.induct) (auto split: prod.splits)

definition broadcast_calls :: "string \<Rightarrow> stream_dock_event \<Rightarrow> router \<Rightarrow> call list" where
  "broadcast_calls c e r = PluginCall c e # map (\<lambda>a. ActionCall a c (Some e)) (contexts_snapshot r)"

lemma broadcast_after_plugin_delivers:
  assumes "ordinary app" "broadcast_valid rt e" "rt_plugin_callback rt = Some (rt_callback rt)"
    and "case f of None \<Rightarrow> True | Some g \<Rightarrow> (\<forall>r. g r = e')" "f = None \<Longrightarrow> e' = e" "broadcast_valid rt e'"
  shows "\<exists>r'. broadcast_after_plugin app e' e rt f r =
      (r', Inr (first_failure (snd (snd (deliver app (ro_calls r) (ro_settings r)
         (broadcast_calls (rt_callback rt) e' r)))))) \<and>
      delivered r (deliver app (ro_calls r) (ro_settings r) (broadcast_calls (rt_callback rt) e' r)) r'"
proof -
  obtain r1 where plugin: "dispatch_plugin app e' (Some (rt_callback rt)) r =
        (r1, Inr (first_failure (snd (snd (deliver app (ro_calls r) (ro_settings r)
          [PluginCall (rt_callback rt) e'])))))"
    and r1: "delivered r (deliver app (ro_calls r) (ro_settings r) [PluginCall (rt_callback rt) e']) r1"
    using dispatch_plugin_delivers [OF assms(1)] by blast
  have snapshot: "contexts_snapshot r1 = contexts_snapshot r"
    using r1 by (simp add: delivered_def same_actions_def contexts_snapshot_def)
  obtain r2 where actions: "broadcast app e rt f r1 =
      (r2, Inr (first_failure (snd (snd (deliver app (ro_calls r1) (ro_settings r1)
         (map (\<lambda>a. ActionCall a (rt_callback rt) (Some e')) (contexts_snapshot r)))))))"
    and r2: "delivered r1 (deliver app (ro_calls r1) (ro_settings r1)
         (map (\<lambda>a. ActionCall a (rt_callback rt) (Some e')) (contexts_snapshot r))) r2"
    using broadcast_delivers [OF assms(1,2,4,5,6), of r1] unfolding snapshot by blast
  have "deliver app (ro_calls r) (ro_settings r) (broadcast_calls (rt_callback rt) e' r) =
      (case deliver app (ro_calls r) (ro_settings r) [PluginCall (rt_callback rt) e'] of (m, g, xs) \<Rightarrow>
         (case deliver app m g (map (\<lambda>a. ActionCall a (rt_callback rt) (Some e')) (contexts_snapshot r)) of
            (m2, g2, ys) \<Rightarrow> (m2, g2, xs @ ys)))"
    unfolding broadcast_calls_def by (subst deliver_append [symmetric]) simp
  then show ?thesis
    using r1 r2 unfolding broadcast_after_plugin_def assms(3) plugin
    by (auto simp: actions aggregate_first_failure delivered_def same_actions_def
        simp del: aggregate_results.simps deliver.simps split: prod.splits)
qed


section \<open>Dispatch with the default routes\<close>

lemma default_route_for:
  "route_for default_registry e = Inr (map_option default_route (event_type_of e))"
  using route_for_default [of e] by (simp add: default_registry_built)

lemma default_route_fields:
  "rt_class (default_route t) = EventClass t"
  "rt_transition (default_route t) =
     (case t of WILL_APPEAR \<Rightarrow> CreateAction | WILL_DISAPPEAR \<Rightarrow> RemoveAction
      | DID_RECEIVE_SETTINGS \<Rightarrow> UpdateActionSettings
      | TITLE_PARAMETERS_DID_CHANGE \<Rightarrow> UpdateActionTitle
      | DID_RECEIVE_GLOBAL_SETTINGS \<Rightarrow> UpdateGlobalSettings | _ \<Rightarrow> NoTransition)"
  "rt_plugin_callback (default_route t) =
     (if t \<in> set action_event_types then None else Some (rt_callback (default_route t)))"
  by (cases t, simp_all add: default_route_def default_routes_def action_route_def broadcast_route_def
      action_event_types_def)+

lemma default_route_broadcast:
  assumes "t \<notin> set action_event_types"
  shows "rt_scope (default_route t) = BroadcastScope" "rt_class (default_route t) = EventClass t"
    "rt_plugin_callback (default_route t) = Some (rt_callback (default_route t))"
    "rt_transition (default_route t) =
       (if t = DID_RECEIVE_GLOBAL_SETTINGS then UpdateGlobalSettings else NoTransition)"
proof -
  show "rt_transition (default_route t) =
       (if t = DID_RECEIVE_GLOBAL_SETTINGS then UpdateGlobalSettings else NoTransition)"
    unfolding default_route_fields using assms by (cases t) (simp_all add: action_event_types_def)
qed (simp_all add: assms default_route_scope default_route_fields)

lemma default_route_action:
  assumes "t \<in> set action_event_types"
  shows "rt_scope (default_route t) = ActionScope" "rt_class (default_route t) = EventClass t"
    "rt_transition (default_route t) =
       (if t = WILL_APPEAR then CreateAction else if t = WILL_DISAPPEAR then RemoveAction
        else if t = DID_RECEIVE_SETTINGS then UpdateActionSettings
        else if t = TITLE_PARAMETERS_DID_CHANGE then UpdateActionTitle else NoTransition)"
proof -
  show "rt_transition (default_route t) =
       (if t = WILL_APPEAR then CreateAction else if t = WILL_DISAPPEAR then RemoveAction
        else if t = DID_RECEIVE_SETTINGS then UpdateActionSettings
        else if t = TITLE_PARAMETERS_DID_CHANGE then UpdateActionTitle else NoTransition)"
    using assms by (auto simp: action_event_types_def default_route_fields)
qed (simp_all add: assms default_route_scope default_route_fields)

lemma default_settings_route:
  "settings_route default_registry = Some (default_route DID_RECEIVE_GLOBAL_SETTINGS)"
  by code_simp

lemma class_of_event_type: "event_type_of e = Some t \<Longrightarrow> class_of_event e = EventClass t"
  by (simp add: class_of_event_def)

lemma default_broadcast_valid:
  "event_type_of e = Some t \<Longrightarrow> t \<notin> set action_event_types \<Longrightarrow> broadcast_valid (default_route t) e"
  by (simp add: broadcast_valid_def route_accepts_def default_route_broadcast class_of_event_type)

lemma dispatch_broadcast_eq:
  assumes "event_type_of e = Some ty" "ty \<notin> set action_event_types" "ty \<noteq> DID_RECEIVE_GLOBAL_SETTINGS"
  shows "dispatch app factory t await default_registry e r =
      broadcast_after_plugin app e e (default_route ty) None
        (r\<lparr>ro_known_events := Suc (ro_known_events r)\<rparr>)"
  using assms(3) default_route_broadcast [OF assms(2)]
  by (simp add: dispatch_def default_route_for assms(1) dispatch_broadcast_def Let_def)

lemma dispatch_broadcast_delivers:
  assumes "ordinary app" "event_type_of e = Some ty" "ty \<notin> set action_event_types"
  shows "\<exists>r'. broadcast_after_plugin app e e (default_route ty) None r =
      (r', Inr (first_failure (snd (snd (deliver app (ro_calls r) (ro_settings r)
         (broadcast_calls (rt_callback (default_route ty)) e r)))))) \<and>
      delivered r (deliver app (ro_calls r) (ro_settings r)
        (broadcast_calls (rt_callback (default_route ty)) e r)) r'"
  using default_broadcast_valid [OF assms(2,3)]
  by (intro broadcast_after_plugin_delivers [OF assms(1)])
     (simp_all add: default_route_broadcast [OF assms(3)])

lemma dispatch_settings_eq:
  assumes "gs_receive t v (await (ro_settings r)) = (g, Received source)"
  shows "dispatch app factory t await default_registry (DidReceiveGlobalSettings v) r =
      broadcast_after_plugin app (DidReceiveGlobalSettings source) (DidReceiveGlobalSettings v)
        (default_route DID_RECEIVE_GLOBAL_SETTINGS) (Some (new_settings_event source))
        (r\<lparr>ro_known_events := Suc (ro_known_events r), ro_settings := g,
          ro_global_settings_updates := Suc (ro_global_settings_updates r)\<rparr>)"
proof -
  have "DID_RECEIVE_GLOBAL_SETTINGS \<notin> set action_event_types" by (simp add: action_event_types_def)
  note rt = default_route_broadcast [OF this]
  show ?thesis
    by (simp add: dispatch_def default_route_for rt dispatch_broadcast_def Let_def receive_settings_def
        assms new_settings_event_def gs_new_event_def)
qed

lemma dispatch_settings_delivers:
  fixes r v source
  defines "e \<equiv> DidReceiveGlobalSettings source"
  assumes "ordinary app"
  shows "\<exists>r'. broadcast_after_plugin app e (DidReceiveGlobalSettings v)
      (default_route DID_RECEIVE_GLOBAL_SETTINGS) (Some (new_settings_event source)) r =
      (r', Inr (first_failure (snd (snd (deliver app (ro_calls r) (ro_settings r)
         (broadcast_calls ''on_did_receive_global_settings'' e r)))))) \<and>
      delivered r (deliver app (ro_calls r) (ro_settings r)
         (broadcast_calls ''on_did_receive_global_settings'' e r)) r'"
proof -
  let ?rt = "default_route DID_RECEIVE_GLOBAL_SETTINGS"
  have ty: "DID_RECEIVE_GLOBAL_SETTINGS \<notin> set action_event_types" by (simp add: action_event_types_def)
  have cb: "rt_callback ?rt = ''on_did_receive_global_settings''" by code_simp
  have valid: "broadcast_valid ?rt (DidReceiveGlobalSettings w)" for w
    by (rule default_broadcast_valid [OF _ ty]) simp
  have "new_settings_event source r1 = e" for r1
    by (simp add: new_settings_event_def gs_new_event_def e_def)
  then show ?thesis
    unfolding cb [symmetric] e_def
    by (intro broadcast_after_plugin_delivers [OF assms(2) valid])
       (simp_all add: default_route_broadcast [OF ty] valid e_def)
qed

text \<open>
  C14. An event of the device, of the monitored applications or of the system reaches the plugin first and
  then every active action in the order of their appearance, each exactly once, whatever the callbacks
  before it raised; the result of the dispatch is the first failure, in that order.
\<close>

theorem broadcast_reaches_all:
  assumes "ordinary app" and type: "event_type_of e = Some ty"
    and "ty \<notin> set action_event_types" "ty \<noteq> DID_RECEIVE_GLOBAL_SETTINGS"
  shows "case dispatch app factory t await default_registry e r of (r', result) \<Rightarrow>
    case deliver app (ro_calls r) (ro_settings r)
        (broadcast_calls (rt_callback (default_route ty)) e r) of (made, g, raised) \<Rightarrow>
      ro_calls r' = made \<and> ro_settings r' = g \<and> ro_actions r' = ro_actions r \<and>
      result = Inr (first_failure raised)"
  unfolding dispatch_broadcast_eq [OF assms(2-4)]
  using dispatch_broadcast_delivers [OF assms(1-3), of "r\<lparr>ro_known_events := Suc (ro_known_events r)\<rparr>"]
  by (auto simp: delivered_def same_actions_def broadcast_calls_def contexts_snapshot_def
      simp del: deliver.simps split: prod.splits)

text \<open>
  A received value of the global settings is stored before any callback runs, and the plugin and then
  every active action gets an event that carries exactly that value, even when a callback writes the
  settings meanwhile.
\<close>

theorem settings_event_reaches_all:
  assumes "ordinary app" and receive: "gs_receive t v (await (ro_settings r)) = (g0, Received source)"
  shows "case dispatch app factory t await default_registry (DidReceiveGlobalSettings v) r of (r', result) \<Rightarrow>
    case deliver app (ro_calls r) g0
        (broadcast_calls ''on_did_receive_global_settings'' (DidReceiveGlobalSettings source) r)
      of (made, g, raised) \<Rightarrow>
      gs_settings g0 = source \<and> gs_loaded g0 \<and> source = v \<and>
      ro_calls r' = made \<and> ro_settings r' = g \<and> ro_actions r' = ro_actions r \<and>
      result = Inr (first_failure raised)"
proof -
  have "gs_settings g0 = source \<and> gs_loaded g0 \<and> source = v"
    using receive by (auto simp: gs_receive_def gs_leave_def gs_release_def gs_replace_def
        split: sum.splits prod.splits begin_result.splits)
  then show ?thesis
    unfolding dispatch_settings_eq [where await = await and r = r, OF receive]
    using dispatch_settings_delivers [OF assms(1), of source v
        "r\<lparr>ro_known_events := Suc (ro_known_events r), ro_settings := g0,
          ro_global_settings_updates := Suc (ro_global_settings_updates r)\<rparr>"]
    by (auto simp: delivered_def same_actions_def broadcast_calls_def contexts_snapshot_def
        simp del: deliver.simps split: prod.splits)
qed

text \<open>
  C16. An appearance makes the action of its context: when \<open>on_will_appear\<close> fails the action is removed
  again, is told once to disappear, and the failure is the result; otherwise the action stays, and when
  the global settings are known it is given them before any later event.
\<close>

theorem appearance_settled:
  assumes "ordinary app" and new: "contexts_get (ev_context v) r = None"
    and clone: "clone_json_object (ev_settings v) = Inr s"
    and made: "factory (ro_calls r) (ev_action v) (ev_context v) s = Inr (Some a)"
    and identity: "ao_action a = ev_action v" "ao_context a = ev_context v"
  shows "case dispatch app factory t await default_registry (WillAppear v) r of (r', result) \<Rightarrow>
    let calls = ro_calls r @ [CreateCall (ev_action v) (ev_context v) s];
        appear = ActionCall a ''on_will_appear'' (Some (WillAppear v)) in
    case app calls appear (ro_settings r) of
      (g, Some x) \<Rightarrow>
        result = Inr (DispatchResult CallbackFailed (Some x)) \<and> ro_actions r' = ro_actions r \<and>
        ro_calls r' = calls @ [appear, ActionCall a ''on_will_disappear'' None]
    | (g, None) \<Rightarrow>
        ro_actions r' = ro_actions r @ [(ev_context v, a)] \<and>
        (if gs_loaded g then
           let replay = ActionCall a ''on_did_receive_global_settings''
                          (Some (DidReceiveGlobalSettings (gs_settings g))) in
           ro_calls r' = calls @ [appear, replay] \<and>
           result = Inr (first_failure [snd (app (calls @ [appear]) replay g)])
         else ro_calls r' = calls @ [appear] \<and> result = Inr (DispatchResult Handled None))"
proof -
  let ?rt = "default_route WILL_APPEAR"
  let ?grt = "default_route DID_RECEIVE_GLOBAL_SETTINGS"
  have ty: "WILL_APPEAR \<in> set action_event_types" by (simp add: action_event_types_def)
  have cb: "rt_callback ?rt = ''on_will_appear''" "rt_callback ?grt = ''on_did_receive_global_settings''"
    by code_simp+
  note rt = default_route_action [OF ty]
  have valid: "broadcast_valid ?grt (DidReceiveGlobalSettings w)" for w
    by (rule default_broadcast_valid) (simp_all add: action_event_types_def)
  define calls where "calls = ro_calls r @ [CreateCall (ev_action v) (ev_context v) s]"
  define r1 where "r1 = r\<lparr>ro_known_events := Suc (ro_known_events r), ro_calls := calls,
    ro_actions := ro_actions r @ [(ev_context v, a)], ro_created := Suc (ro_created r)\<rparr>"
  define appear where "appear = ActionCall a ''on_will_appear'' (Some (WillAppear v))"
  have fresh: "map_of (ro_actions r) (ev_context v) = None" using new by (simp add: contexts_get_def)
  then have absent: "ev_context v \<notin> fst ` set (ro_actions r)" by (simp add: map_of_eq_None_iff)
  have create: "contexts_create factory v (r\<lparr>ro_known_events := Suc (ro_known_events r)\<rparr>) = (r1, Inr (Some a))"
    using fresh made identity
    by (simp add: contexts_create_def clone made r1_def calls_def Let_def del: clone_json_object_Inr)
  have dispatch: "dispatch app factory t await default_registry (WillAppear v) r =
      create_action app factory (Some ?grt) (WillAppear v) ?rt (r\<lparr>ro_known_events := Suc (ro_known_events r)\<rparr>)"
    by (simp add: dispatch_def default_route_for rt dispatch_action_def Let_def route_accepts_def
        class_of_event_def default_settings_route)
  obtain r2 x where call: "invoke app appear r1 = (r2, x)" by fastforce
  note f = invoke_fields [OF call]
  have r1: "ro_actions r1 = ro_actions r @ [(ev_context v, a)]" "ro_calls r1 = calls"
    "ro_settings r1 = ro_settings r" by (simp_all add: r1_def)
  have act: "invoke_action app a (WillAppear v) ?rt r1 = (r2, callback_result x)"
    using call by (simp add: invoke_action_def cb appear_def)
  have removed: "map_of (ro_actions r2) (ev_context v) = Some a"
    "AList.delete (ev_context v) (ro_actions r2) = ro_actions r"
    using f(1) r1 fresh absent
    by (simp_all add: same_actions_def map_add_def AList.delete_eq filter_id_conv)
       force
  show ?thesis
  proof (cases x)
    case (Some y)
    have exc: "is_exception y" by (rule ordinary_invoke [OF assms(1) call Some])
    obtain r3 z where gone: "invoke app (ActionCall a ''on_will_disappear'' None)
        (r2\<lparr>ro_actions := ro_actions r, ro_removed := Suc (ro_removed r2),
          ro_appearance_rollbacks := Suc (ro_appearance_rollbacks r2)\<rparr>) = (r3, z)" by fastforce
    have "rollback_appearance app (ev_context v) a (DispatchResult CallbackFailed (Some y)) r2 =
        (r3, Inr (DispatchResult CallbackFailed (Some y)))"
      using ordinary_invoke [OF assms(1) gone] removed gone
      by (auto simp: rollback_appearance_def contexts_remove_def split: option.splits)
    then show ?thesis
      using f r1 invoke_fields [OF gone] Some exc
      unfolding dispatch create_action_def
      by (simp add: create act callback_result_def appear_def [symmetric] calls_def [symmetric]
          same_actions_def)
  next
    case None
    show ?thesis
    proof (cases "gs_loaded (ro_settings r2)")
      case True
      let ?e = "DidReceiveGlobalSettings (gs_settings (ro_settings r2))"
      let ?r2 = "r2\<lparr>ro_global_settings_replays := Suc (ro_global_settings_replays r2)\<rparr>"
      obtain r3 z where replay: "invoke app (ActionCall a (rt_callback ?grt) (Some ?e)) ?r2 = (r3, z)"
        by fastforce
      show ?thesis
        using f r1 True None invoke_fields [OF replay] ordinary_invoke [OF assms(1) replay] valid replay
        unfolding dispatch create_action_def
        by (auto simp: create act callback_result_def appear_def [symmetric] calls_def [symmetric] cb
            same_actions_def replay_event_def gs_new_replay_event_def gs_new_event_def dispatch_one_def
            first_failure_def split: option.splits)
    next
      case False
      then show ?thesis
        using f r1 None
        unfolding dispatch create_action_def
        by (simp add: create act callback_result_def appear_def [symmetric] calls_def [symmetric]
            same_actions_def replay_event_def gs_new_replay_event_def)
    qed
  qed
qed


text \<open>
  An action event whose context has no active action, other than an appearance, reaches no code of the
  application and changes nothing but the counters: it is ignored, also after the action disappeared.
\<close>

theorem missing_context_ignored:
  assumes "as_action_event e = Some a" "contexts_get (ev_context a) r = None"
    and "event_type_of e \<noteq> Some WILL_APPEAR"
  shows "dispatch app factory t await default_registry e r =
    (r\<lparr>ro_known_events := Suc (ro_known_events r), ro_missing_contexts := Suc (ro_missing_contexts r)\<rparr>,
     Inr (DispatchResult Ignored None))"
proof -
  obtain ty where ty: "event_type_of e = Some ty" "ty \<in> set action_event_types"
    using as_action_event_iff [of e] assms(1) by auto
  have get: "action_context e = Some (ev_context a)" "map_of (ro_actions r) (ev_context a) = None"
    using assms(1,2) by (simp_all add: action_context_def contexts_get_def)
  have ne: "ty \<noteq> WILL_APPEAR" using assms(3) ty(1) by simp
  have d: "dispatch app factory t await default_registry e r =
      dispatch_action app factory (settings_route default_registry) e (default_route ty)
        (r\<lparr>ro_known_events := Suc (ro_known_events r)\<rparr>)"
    by (simp add: dispatch_def default_route_for ty default_route_action(1) Let_def)
  show ?thesis
    unfolding d using assms(1) ty ne get
    by (cases e)
       (auto simp: default_route_fields default_route_scope dispatch_action_def route_accepts_def
          class_of_event_def remove_action_def contexts_remove_def update_settings_def update_title_def
          dispatch_current_def missing_context_def contexts_get_def action_event.truncate_def)
qed

section \<open>Isolation\<close>

text \<open>A dispatch that returned a result, or failed with an error that \<open>P\<close> allows.\<close>

definition returns :: "(dispatch_error \<Rightarrow> bool) \<Rightarrow> dispatched \<Rightarrow> bool" where
  "returns P d = (case snd d of Inr _ \<Rightarrow> True | Inl x \<Rightarrow> P x)"

definition no_error :: "dispatch_error \<Rightarrow> bool" where
  "no_error x = False"

lemma returns_mono: "returns P d \<Longrightarrow> (\<And>x. P x \<Longrightarrow> Q x) \<Longrightarrow> returns Q d"
  by (auto simp: returns_def split: sum.splits)

lemma returns_Inr [simp]: "returns P (r, Inr x)"
  by (simp add: returns_def)

lemma returns_missing [simp]: "returns P (missing_context r)"
  by (simp add: missing_context_def)

lemma returns_invoke_action:
  assumes "ordinary app" shows "returns P (invoke_action app a e rt r)"
  using ordinary_invoke [OF assms]
  by (auto simp: invoke_action_def callback_result_def split: prod.splits option.splits)

lemma returns_dispatch_one:
  assumes "ordinary app" "broadcast_valid rt e" shows "returns P (dispatch_one app a e rt r)"
  using assms(2) ordinary_invoke [OF assms(1)]
  by (auto simp: dispatch_one_def split: prod.splits option.splits)

lemma returns_rollback:
  assumes "ordinary app" shows "returns P (rollback_appearance app c a result r)"
  using ordinary_invoke [OF assms]
  by (auto simp: rollback_appearance_def Let_def split: prod.splits option.splits)

lemma returns_remove:
  assumes "ordinary app" shows "returns P (remove_action app (WillDisappear v) rt r)"
  using returns_invoke_action [OF assms]
  by (auto simp: remove_action_def split: prod.splits option.splits)

lemma returns_updates:
  assumes "ordinary app"
  shows "returns P (update_settings app (DidReceiveSettings v) rt r)"
    "returns P (update_title app (TitleParametersDidChange w) rt r)"
  using returns_invoke_action [OF assms] ordinary_invoke [OF assms]
  by (auto simp: update_settings_def update_title_def callback_result_def
      split: prod.splits option.splits)

definition ordinary_factory :: "factory \<Rightarrow> bool" where
  "ordinary_factory factory \<longleftrightarrow> (\<forall>made u c s x. factory made u c s = Inl x \<longrightarrow> is_exception x)"

lemma located_exception: "is_exception x \<Longrightarrow> is_exception (located_codec_error n x)"
  by (cases x) (simp_all add: located_codec_error_def)

lemma contexts_create_exception:
  assumes "ordinary_factory factory" "contexts_create factory v r = (r', Inl x)"
  shows "is_exception x"
  using assms
  by (auto simp: contexts_create_def ordinary_factory_def Let_def
      intro!: located_exception dest!: clone_json_object_errors
      split: if_splits sum.splits option.splits)

text \<open>
  Failures of application code stay inside a dispatch: with code that raises only exceptions, and
  the default routes, a dispatch always ends with a result, except that a factory which returns an
  action of another identity is reported for an appearance, and that a settings event whose value cannot be
  stored fails or waits.
\<close>

theorem dispatch_isolates:
  assumes app: "ordinary app" and factory: "ordinary_factory factory"
  shows "case snd (dispatch app factory t await default_registry e r) of
      Inr _ \<Rightarrow> True
    | Inl x \<Rightarrow> x = Raised RuntimeActionIdentityError \<and> event_type_of e = Some WILL_APPEAR \<or>
        (case e of DidReceiveGlobalSettings v \<Rightarrow>
           (case snd (gs_receive t v (await (ro_settings r))) of Received _ \<Rightarrow> False | _ \<Rightarrow> True)
         | _ \<Rightarrow> False)"
proof -
  let ?r = "r\<lparr>ro_known_events := Suc (ro_known_events r)\<rparr>"
  let ?grt = "default_route DID_RECEIVE_GLOBAL_SETTINGS"
  have valid: "broadcast_valid ?grt (DidReceiveGlobalSettings w)" for w
    by (rule default_broadcast_valid) (simp_all add: action_event_types_def)
  have create: "returns (\<lambda>x. x = Raised RuntimeActionIdentityError)
      (create_action app factory (Some ?grt) (WillAppear v) rt r1)" for v rt r1
  proof -
    obtain r2 x where create: "contexts_create factory v r1 = (r2, x)" by fastforce
    show ?thesis
    proof (cases "\<exists>a. x = Inr (Some a)")
      case True
      then obtain a where x: "x = Inr (Some a)" by blast
      obtain r3 y where act: "invoke_action app a (WillAppear v) rt r2 = (r3, Inr y)"
        using returns_invoke_action [OF app, of no_error a "WillAppear v" rt r2]
        by (cases "invoke_action app a (WillAppear v) rt r2")
           (auto simp: returns_def no_error_def split: sum.splits)
      show ?thesis
        using returns_rollback [OF app] returns_dispatch_one [OF app valid]
        by (simp add: create_action_def create x act replay_event_def split: option.splits)
    next
      case False
      then show ?thesis
        using contexts_create_exception [OF factory] create
        by (auto simp: create_action_def returns_def split: sum.splits option.splits)
    qed
  qed
  show ?thesis
  proof (cases "event_type_of e")
    case None
    then have "is_unknown e" by (simp add: event_type_of_None)
    then have "returns no_error (dispatch app factory t await default_registry e r)"
      using ordinary_invoke [OF app]
      by (auto simp: dispatch_def default_route_for None dispatch_unknown_def
          callback_result_def split: prod.splits option.splits)
    then show ?thesis by (auto simp: returns_def no_error_def split: sum.splits)
  next
    case (Some ty)
    show ?thesis
    proof (cases "ty \<in> set action_event_types")
      case True
      have d: "dispatch app factory t await default_registry e r =
          dispatch_action app factory (Some ?grt) e (default_route ty) ?r"
        by (simp add: dispatch_def default_route_for Some default_route_action(1) [OF True] Let_def
            default_settings_route)
      have "returns (\<lambda>x. x = Raised RuntimeActionIdentityError \<and> ty = WILL_APPEAR)
          (dispatch_action app factory (Some ?grt) e (default_route ty) ?r)"
        using Some True create returns_invoke_action [OF app]
        by (cases e)
           (auto simp: default_route_fields default_route_scope dispatch_action_def route_accepts_def
             class_of_event_def returns_remove [OF app] returns_updates [OF app] dispatch_current_def
             action_event_types_def
             split: option.splits)
      then show ?thesis unfolding d Some by (auto simp: returns_def split: sum.splits)
    next
      case False
      show ?thesis
      proof (cases "ty = DID_RECEIVE_GLOBAL_SETTINGS")
        case True
        then obtain v where e: "e = DidReceiveGlobalSettings v" using Some by (cases e) auto
        show ?thesis
        proof (cases "snd (gs_receive t v (await (ro_settings r)))")
          case (Received source)
          then obtain g0 where receive: "gs_receive t v (await (ro_settings r)) = (g0, Received source)"
            by (cases "gs_receive t v (await (ro_settings r))") auto
          note d = dispatch_settings_eq [where await = await and r = r and t = t and v = v, OF receive]
          show ?thesis
            unfolding e d
            using dispatch_settings_delivers [OF app, of source v "r\<lparr>ro_known_events :=
                Suc (ro_known_events r), ro_settings := g0,
                ro_global_settings_updates := Suc (ro_global_settings_updates r)\<rparr>"] by auto
        qed (auto simp: e split: sum.splits)
      next
        case ne: False
        show ?thesis
          unfolding dispatch_broadcast_eq [OF Some False ne]
          using dispatch_broadcast_delivers [OF app Some False, of ?r] by auto
      qed
    qed
  qed
qed


section \<open>Examples\<close>

definition idle_settings :: gs_state where
  "idle_settings =
     \<lparr>gs_context = ''p'', gs_owner = None, gs_count = 0, gs_depth = 0, gs_pending = None,
      gs_settings = PDict [], gs_loaded = False\<rparr>"

definition two_actions :: router where
  "two_actions =
     (new_router idle_settings)\<lparr>ro_actions :=
        [(''c1'', \<lparr>ao_id = 1, ao_action = ''a'', ao_context = ''c1''\<rparr>),
         (''c2'', \<lparr>ao_id = 2, ao_action = ''a'', ao_context = ''c2''\<rparr>)]\<rparr>"

text \<open>An application whose plugin fails in every callback, and one whose actions fail to appear.\<close>

definition failing_plugin :: application where
  "failing_plugin calls c g =
     (g, case c of PluginCall _ _ \<Rightarrow> Some (TypeError ''plugin'') | _ \<Rightarrow> None)"

definition failing_appearance :: application where
  "failing_appearance calls c g =
     (g, case c of ActionCall _ n _ \<Rightarrow> if n = ''on_will_appear'' then Some (TypeError ''action'') else None
         | _ \<Rightarrow> None)"

definition one_factory :: factory where
  "one_factory calls u c s = Inr (Some \<lparr>ao_id = length calls, ao_action = u, ao_context = c\<rparr>)"

lemma ordinary_examples: "ordinary failing_plugin" "ordinary failing_appearance" "ordinary_factory one_factory"
  by (auto simp: ordinary_def ordinary_factory_def failing_plugin_def failing_appearance_def one_factory_def
      split: call.splits if_splits)

definition example_appearance :: visibility_event where
  "example_appearance =
     \<lparr>ev_action = ''a'', ev_context = ''c3'', ev_device = ''d'', ev_settings = PDict [],
      ev_coordinates = \<lparr>co_column = 0, co_row = 0\<rparr>, vi_controller = KEYPAD, vi_is_in_multi_action = False,
      vi_state = None\<rparr>"

theorem broadcast_reaches_all_witness:
  "case dispatch failing_plugin one_factory 0 id default_registry SystemDidWakeUp two_actions of
     (r', result) \<Rightarrow> length (ro_calls r') = 3 \<and>
       result = Inr (DispatchResult CallbackFailed (Some (TypeError ''plugin'')))"
  using broadcast_reaches_all [OF ordinary_examples(1), where e = SystemDidWakeUp and r = two_actions and
      ty = SYSTEM_DID_WAKE_UP and factory = one_factory and t = 0 and await = id]
  by (simp add: action_event_types_def two_actions_def new_router_def broadcast_calls_def
      contexts_snapshot_def failing_plugin_def first_failure_def split: prod.splits)

theorem settings_event_reaches_all_witness:
  "case dispatch failing_plugin one_factory 0 id default_registry
        (DidReceiveGlobalSettings (PDict [(PStr ''k'', PInt 1)])) two_actions of
     (r', result) \<Rightarrow> length (ro_calls r') = 3 \<and> gs_settings (ro_settings r') = PDict [(PStr ''k'', PInt 1)] \<and>
       result = Inr (DispatchResult CallbackFailed (Some (TypeError ''plugin'')))"
proof -
  let ?v = "PDict [(PStr ''k'', PInt 1)]"
  have "json_object ?v" by code_simp
  then have "clone_json_object ?v = Inr ?v" by simp
  then have "gs_receive 0 ?v (id (ro_settings two_actions)) =
      (idle_settings\<lparr>gs_settings := ?v, gs_loaded := True\<rparr>, Received ?v)"
    by (simp del: clone_json_object_Inr add: gs_receive_def gs_begin_def gs_wait_for_pending_def
        gs_wait_loop_def gs_enter_def gs_leave_def gs_release_def gs_replace_def two_actions_def
        new_router_def idle_settings_def Let_def)
  from settings_event_reaches_all [where await = id and r = two_actions, OF ordinary_examples(1) this,
      of one_factory] show ?thesis
    by (simp add: idle_settings_def two_actions_def new_router_def broadcast_calls_def
        contexts_snapshot_def failing_plugin_def first_failure_def split: prod.splits)
qed

theorem appearance_settled_witness:
  "case dispatch failing_appearance one_factory 0 id default_registry (WillAppear example_appearance) two_actions of
     (r', result) \<Rightarrow> ro_actions r' = ro_actions two_actions \<and> length (ro_calls r') = 3 \<and>
       result = Inr (DispatchResult CallbackFailed (Some (TypeError ''action'')))"
proof -
  have "json_object (PDict [])" by code_simp
  then show ?thesis
    using appearance_settled [OF ordinary_examples(2), of example_appearance two_actions "PDict []" one_factory
        "\<lparr>ao_id = 0, ao_action = ''a'', ao_context = ''c3''\<rparr>" 0 id]
    by (simp add: example_appearance_def contexts_get_def two_actions_def new_router_def one_factory_def
        failing_appearance_def split: prod.splits)
qed

theorem missing_context_ignored_witness:
  "snd (dispatch failing_plugin one_factory 0 id default_registry (WillDisappear example_appearance) two_actions) =
     Inr (DispatchResult Ignored None)"
  using missing_context_ignored [of "WillDisappear example_appearance"
      "\<lparr>ev_action = ''a'', ev_context = ''c3''\<rparr>" two_actions failing_plugin one_factory 0 id]
  by (simp add: example_appearance_def action_event.truncate_def contexts_get_def two_actions_def)

theorem dispatch_isolates_witness:
  "case snd (dispatch failing_appearance one_factory 0 id default_registry (WillAppear example_appearance) two_actions)
   of Inr _ \<Rightarrow> True | Inl x \<Rightarrow> x = Raised RuntimeActionIdentityError"
  using dispatch_isolates [OF ordinary_examples(2,3), where e = "WillAppear example_appearance" and
      r = two_actions and t = 0 and await = id]
  by (simp split: sum.splits)

end
