(* ===== verification/Session.thy ===== *)
theory Session
  imports Lifecycle Commands Completion
begin

text \<open>
  runtime/session.py: the readiness gate, a one-way latch, and the coordinator that initialises one
  session. Handlers run one at a time under the event lock; the gate and the state have locks of
  their own, so that gate operations of other threads come between the segments of a handler.
\<close>

section \<open>Readiness gate\<close>

record readiness_gate =
  rg_ready :: bool
  rg_terminal :: bool
  rg_failure :: "exn option"

definition new_readiness_gate :: readiness_gate where
  "new_readiness_gate = \<lparr>rg_ready = False, rg_terminal = False, rg_failure = None\<rparr>"

definition gate_open :: "readiness_gate \<Rightarrow> readiness_gate \<times> exn option" where
  "gate_open g =
     (if rg_ready g then (g, None)
      else if rg_terminal g then (g, Some SessionReadinessStateError)
      else (g\<lparr>rg_ready := True\<rparr>, None))"

definition gate_close :: "readiness_gate \<Rightarrow> readiness_gate" where
  "gate_close g = g\<lparr>rg_terminal := True\<rparr>"

definition gate_fail :: "exn \<Rightarrow> readiness_gate \<Rightarrow> readiness_gate \<times> exn option" where
  "gate_fail e g =
     (if \<not> is_exception e then (g, Some (TypeError ''error must be an Exception''))
      else if rg_ready g \<or> rg_terminal g then (g, None)
      else (g\<lparr>rg_failure := Some e, rg_terminal := True\<rparr>, None))"

text \<open>
  An attempt of \<open>wait\<close>: the readiness when the wait ends, \<open>None\<close> while it goes on. A timeout is given by
  whether it has passed; its validation is that of the other deadlines.
\<close>

definition gate_wait_attempt :: "bool \<Rightarrow> readiness_gate \<Rightarrow> bool option" where
  "gate_wait_attempt expired g =
     (if rg_ready g \<or> rg_terminal g \<or> expired then Some (rg_ready g) else None)"

section \<open>Coordinator\<close>

datatype session_event =
    Connected
  | DisconnectedEvent "int option" "string option"
  | TransportError exn
  | OtherSessionEvent nat

text \<open>
  Where the handler of a connection is: sending the registration, sending the request for the initial
  settings, with the failure recorded but the gate not yet failed, with the session ready but the gate not
  yet open, or, for a disconnect, with the gate not yet closed. The error is what the handler raises.
\<close>

datatype handler_point =
    NoHandler
  | SendingRegistration
  | SendingSettingsRequest
  | FailingGate exn
  | OpeningGate
  | ClosingGate

datatype init_phase = Registration | InitialSettingsRequest

record session =
  se_register_event :: string
  se_plugin_uuid :: string
  se_state :: session_state
  se_gate :: readiness_gate
  se_handler :: handler_point
  se_sent :: "command list"
  se_events_received :: nat
  se_connected :: nat
  se_invalid_transitions :: nat
  se_initialization_started :: nat
  se_initialization_succeeded :: nat
  se_initialization_failed :: nat
  se_registration_failures :: nat
  se_settings_request_failures :: nat
  se_disconnected :: nat
  se_last_close_code :: "int option"
  se_last_close_reason :: "string option"
  se_transport_errors :: nat
  se_source_poll_timeouts :: nat
  se_source_closed :: nat

definition new_session :: "string \<Rightarrow> string \<Rightarrow> exn + session" where
  "new_session register_event plugin_uuid =
     (if blank register_event then Inl (ValueError ''register_event must be a non-empty string'')
      else if blank plugin_uuid then Inl (ValueError ''plugin_uuid must be a non-empty string'')
      else Inr \<lparr>se_register_event = register_event, se_plugin_uuid = plugin_uuid,
        se_state = WaitingConnected, se_gate = new_readiness_gate, se_handler = NoHandler, se_sent = [],
        se_events_received = 0, se_connected = 0, se_invalid_transitions = 0,
        se_initialization_started = 0, se_initialization_succeeded = 0, se_initialization_failed = 0,
        se_registration_failures = 0, se_settings_request_failures = 0, se_disconnected = 0,
        se_last_close_code = None, se_last_close_reason = None, se_transport_errors = 0,
        se_source_poll_timeouts = 0, se_source_closed = 0\<rparr>)"

text \<open>A requested transition that the graph refuses raises and leaves the state.\<close>

definition enter_state :: "session_state \<Rightarrow> session \<Rightarrow> session" where
  "enter_state target s =
     (case transition_session_state (se_state s) target of Inl _ \<Rightarrow> s | Inr t \<Rightarrow> s\<lparr>se_state := t\<rparr>)"

definition invalid_event :: "session \<Rightarrow> session" where
  "invalid_event s = s\<lparr>se_invalid_transitions := Suc (se_invalid_transitions s)\<rparr>"

definition handle_connected_begin :: "session \<Rightarrow> session" where
  "handle_connected_begin s =
     (let s1 = s\<lparr>se_connected := Suc (se_connected s)\<rparr> in
      if se_state s1 \<noteq> WaitingConnected \<or> rg_terminal (se_gate s1) then invalid_event s1
      else (enter_state Initializing s1)\<lparr>se_initialization_started := Suc (se_initialization_started s1),
             se_handler := SendingRegistration\<rparr>)"

definition record_initialization_failure :: "exn \<Rightarrow> init_phase \<Rightarrow> session \<Rightarrow> session" where
  "record_initialization_failure e phase s =
     (let s1 = s\<lparr>se_initialization_failed := Suc (se_initialization_failed s)\<rparr>;
          s2 = (case phase of
              Registration \<Rightarrow> s1\<lparr>se_registration_failures := Suc (se_registration_failures s1)\<rparr>
            | InitialSettingsRequest \<Rightarrow>
                s1\<lparr>se_settings_request_failures := Suc (se_settings_request_failures s1)\<rparr>)
      in (enter_state SessionFailed s2)\<lparr>se_handler := FailingGate e\<rparr>)"

text \<open>The end of a send with its failure, if any; what is no \<open>Exception\<close> leaves the handler at once.\<close>

definition registration_sent :: "exn option \<Rightarrow> session \<Rightarrow> session" where
  "registration_sent failure s =
     (let s1 = s\<lparr>se_sent := se_sent s @ [RegisterPluginCommand (se_register_event s) (se_plugin_uuid s)]\<rparr> in
      case failure of
        None \<Rightarrow> s1\<lparr>se_handler := SendingSettingsRequest\<rparr>
      | Some e \<Rightarrow>
          if is_exception e then record_initialization_failure e Registration s
          else s\<lparr>se_handler := NoHandler\<rparr>)"

definition settings_request_sent :: "exn option \<Rightarrow> session \<Rightarrow> session" where
  "settings_request_sent failure s =
     (case failure of
        None \<Rightarrow>
          (enter_state Ready s)\<lparr>se_sent := se_sent s @ [GetGlobalSettingsCommand (se_plugin_uuid s)],
             se_initialization_succeeded := Suc (se_initialization_succeeded s),
             se_handler := OpeningGate\<rparr>
      | Some e \<Rightarrow>
          if is_exception e then record_initialization_failure e InitialSettingsRequest s
          else s\<lparr>se_handler := NoHandler\<rparr>)"

definition handle_disconnected_begin :: "int option \<Rightarrow> string option \<Rightarrow> session \<Rightarrow> session" where
  "handle_disconnected_begin code reason s =
     (let s1 = s\<lparr>se_disconnected := Suc (se_disconnected s), se_last_close_code := code,
                 se_last_close_reason := reason, se_handler := ClosingGate\<rparr>
      in if se_state s1 = Ready then enter_state Disconnected s1 else invalid_event s1)"

definition handle_transport_error :: "session \<Rightarrow> session" where
  "handle_transport_error s = s\<lparr>se_transport_errors := Suc (se_transport_errors s)\<rparr>"

text \<open>\<open>handle\<close> up to the first operation outside the state lock, when no handler runs.\<close>

definition handle_begin :: "session_event \<Rightarrow> session \<Rightarrow> session" where
  "handle_begin e s =
     (let s1 = s\<lparr>se_events_received := Suc (se_events_received s)\<rparr> in
      case e of
        Connected \<Rightarrow> handle_connected_begin s1
      | DisconnectedEvent code reason \<Rightarrow> handle_disconnected_begin code reason s1
      | TransportError _ \<Rightarrow> handle_transport_error s1
      | OtherSessionEvent _ \<Rightarrow> invalid_event s1)"

text \<open>The last segment of a handler, with the exception that \<open>handle\<close> raises.\<close>

definition handle_end :: "session \<Rightarrow> session \<times> exn option" where
  "handle_end s =
     (let s1 = s\<lparr>se_handler := NoHandler\<rparr> in
      case se_handler s of
        FailingGate e \<Rightarrow> (s1\<lparr>se_gate := fst (gate_fail e (se_gate s))\<rparr>, Some e)
      | OpeningGate \<Rightarrow> (case gate_open (se_gate s) of (g, x) \<Rightarrow> (s1\<lparr>se_gate := g\<rparr>, x))
      | ClosingGate \<Rightarrow> (s1\<lparr>se_gate := gate_close (se_gate s)\<rparr>, None)
      | _ \<Rightarrow> (s, None))"

definition record_source_poll_timeout :: "session \<Rightarrow> session" where
  "record_source_poll_timeout s = s\<lparr>se_source_poll_timeouts := Suc (se_source_poll_timeouts s)\<rparr>"

definition record_source_closed :: "session \<Rightarrow> session" where
  "record_source_closed s =
     s\<lparr>se_source_closed := Suc (se_source_closed s), se_gate := gate_close (se_gate s)\<rparr>"

definition fail_readiness :: "exn \<Rightarrow> session \<Rightarrow> session \<times> exn option" where
  "fail_readiness e s = (case gate_fail e (se_gate s) of (g, x) \<Rightarrow> (s\<lparr>se_gate := g\<rparr>, x))"

section \<open>Histories\<close>

datatype session_op =
    Handle session_event
  | SendEnds "exn option"
  | HandleEnds
  | FailReadiness exn
  | CloseGate
  | SourcePollTimeout
  | SourceClosed

fun session_step :: "session_op \<Rightarrow> session \<Rightarrow> session" where
  "session_step (Handle e) s = (if se_handler s = NoHandler then handle_begin e s else s)"
| "session_step (SendEnds failure) s =
     (case se_handler s of
        SendingRegistration \<Rightarrow> registration_sent failure s
      | SendingSettingsRequest \<Rightarrow> settings_request_sent failure s
      | _ \<Rightarrow> s)"
| "session_step HandleEnds s = fst (handle_end s)"
| "session_step (FailReadiness e) s = fst (fail_readiness e s)"
| "session_step CloseGate s = s\<lparr>se_gate := gate_close (se_gate s)\<rparr>"
| "session_step SourcePollTimeout s = record_source_poll_timeout s"
| "session_step SourceClosed s = record_source_closed s"

text \<open>
  The invariant: the commands sent are those of the point of the initialisation, the gate is open only
  after both were sent, and it has a failure only when it is terminal and not open.
\<close>

definition mandatory_commands :: "session \<Rightarrow> command list" where
  "mandatory_commands s =
     [RegisterPluginCommand (se_register_event s) (se_plugin_uuid s),
      GetGlobalSettingsCommand (se_plugin_uuid s)]"

definition commands_sent_ok :: "session \<Rightarrow> bool" where
  "commands_sent_ok s \<longleftrightarrow>
     (\<exists>n. se_sent s = take n (mandatory_commands s) \<and>
       (se_state s = WaitingConnected \<or> se_handler s = SendingRegistration \<longrightarrow> n = 0) \<and>
       (se_handler s = SendingSettingsRequest \<longrightarrow> n = 1) \<and>
       (se_state s \<in> {Ready, Disconnected} \<longrightarrow> n = 2))"

definition handler_ok :: "session \<Rightarrow> bool" where
  "handler_ok s \<longleftrightarrow>
     (case se_handler s of
        SendingRegistration \<Rightarrow> se_state s = Initializing
      | SendingSettingsRequest \<Rightarrow> se_state s = Initializing
      | FailingGate e \<Rightarrow> se_state s = SessionFailed \<and> is_exception e
      | OpeningGate \<Rightarrow> se_state s = Ready
      | _ \<Rightarrow> True)"

definition gate_ok :: "session \<Rightarrow> bool" where
  "gate_ok s \<longleftrightarrow>
     (rg_ready (se_gate s) \<longrightarrow> se_state s \<in> {Ready, Disconnected}) \<and>
     (rg_failure (se_gate s) \<noteq> None \<longrightarrow> rg_terminal (se_gate s) \<and> \<not> rg_ready (se_gate s))"

definition session_counts_ok :: "session \<Rightarrow> bool" where
  "session_counts_ok s \<longleftrightarrow>
     se_initialization_started s = (if se_state s = WaitingConnected then 0 else 1) \<and>
     se_initialization_succeeded s = (if se_state s \<in> {Ready, Disconnected} then 1 else 0) \<and>
     se_initialization_failed s = (if se_state s = SessionFailed then 1 else 0) \<and>
     se_registration_failures s + se_settings_request_failures s = se_initialization_failed s"

definition session_ok :: "session \<Rightarrow> bool" where
  "session_ok s \<longleftrightarrow> commands_sent_ok s \<and> handler_ok s \<and> gate_ok s \<and> session_counts_ok s"

lemmas session_ok_defs = session_ok_def commands_sent_ok_def handler_ok_def gate_ok_def session_counts_ok_def
  mandatory_commands_def

lemmas session_operation_defs = enter_state_def transition_session_state_def invalid_event_def
  handle_connected_begin_def record_initialization_failure_def registration_sent_def settings_request_sent_def
  handle_disconnected_begin_def handle_transport_error_def handle_begin_def handle_end_def
  record_source_poll_timeout_def record_source_closed_def fail_readiness_def
  gate_open_def gate_close_def gate_fail_def Let_def

lemma session_ok_handle: "session_ok s \<Longrightarrow> se_handler s = NoHandler \<Longrightarrow> session_ok (handle_begin e s)"
  by (cases e; cases "se_state s") (auto simp: session_ok_defs session_operation_defs)

lemma session_ok_sent:
  assumes "session_ok s"
  shows "se_handler s = SendingRegistration \<Longrightarrow> session_ok (registration_sent x s)"
    and "se_handler s = SendingSettingsRequest \<Longrightarrow> session_ok (settings_request_sent x s)"
proof -
  show "session_ok (registration_sent x s)" if "se_handler s = SendingRegistration"
    using assms that by (cases x) (auto simp: session_ok_defs session_operation_defs intro!: exI [of _ 0])
  show "session_ok (settings_request_sent x s)" if "se_handler s = SendingSettingsRequest"
    using assms that by (cases x) (auto simp: session_ok_defs session_operation_defs intro!: exI [of _ 1])
qed


lemma session_ok_end: "session_ok s \<Longrightarrow> session_ok (fst (handle_end s))"
  by (cases "se_handler s") (auto simp: session_ok_defs session_operation_defs)

lemma session_ok_gate_operations:
  assumes "session_ok s"
  shows "session_ok (fst (fail_readiness e s))" "session_ok (s\<lparr>se_gate := gate_close (se_gate s)\<rparr>)"
    "session_ok (record_source_poll_timeout s)" "session_ok (record_source_closed s)"
  using assms by (auto simp: session_ok_defs session_operation_defs split: handler_point.splits)

lemma session_ok_step: "session_ok s \<Longrightarrow> session_ok (session_step x s)"
  by (cases x) (auto simp: session_ok_handle session_ok_sent session_ok_end session_ok_gate_operations
      split: handler_point.splits)

lemma open_gate_step: "rg_ready (se_gate s) \<Longrightarrow> rg_ready (se_gate (session_step x s))"
  by (cases "(x, s)" rule: session_step.cases)
     (auto simp: session_operation_defs split: handler_point.splits session_event.splits option.splits
        init_phase.splits)

interpretation session: latch_machine session_step session_ok "\<lambda>s. rg_ready (se_gate s)"
  by unfold_locales (auto intro: session_ok_step open_gate_step)

lemma new_session_ok: "new_session r u = Inr s \<Longrightarrow> session_ok s"
  by (auto simp: new_session_def session_ok_defs new_readiness_gate_def split: if_splits)

lemma session_names_step:
  "se_register_event (session_step x s) = se_register_event s \<and>
   se_plugin_uuid (session_step x s) = se_plugin_uuid s"
  by (cases "(x, s)" rule: session_step.cases)
     (auto simp: session_operation_defs split: handler_point.splits session_event.splits option.splits
        init_phase.splits)

lemma session_names_run:
  "se_register_event (fold session_step xs s) = se_register_event s \<and>
   se_plugin_uuid (fold session_step xs s) = se_plugin_uuid s"
  by (induction xs arbitrary: s) (simp_all add: session_names_step)

text \<open>
  C19. A session is initialised at most once and in order, whatever events and gate operations come in
  between: the commands sent are a prefix of the registration and the request for the initial settings,
  the readiness gate is open only when both were sent and the session became ready, an open gate has no
  failure, and the counters tell which of the two sends failed.
\<close>

theorem session_ready_after_initialization:
  assumes "new_session register_event plugin_uuid = Inr s0"
    and "s = fold session_step ops s0"
  shows "(\<exists>n. se_sent s = take n [RegisterPluginCommand register_event plugin_uuid,
            GetGlobalSettingsCommand plugin_uuid]) \<and>
    (rg_ready (se_gate s) \<longrightarrow> length (se_sent s) = 2 \<and> se_state s \<in> {Ready, Disconnected} \<and>
       rg_failure (se_gate s) = None) \<and>
    se_initialization_started s \<le> 1 \<and>
    se_registration_failures s + se_settings_request_failures s = (if se_state s = SessionFailed then 1 else 0)"
proof -
  have "session_ok s" unfolding assms(2) by (rule session.inv_run) (rule new_session_ok [OF assms(1)])
  moreover have "mandatory_commands s =
      [RegisterPluginCommand register_event plugin_uuid, GetGlobalSettingsCommand plugin_uuid]"
    using session_names_run [of ops s0] assms by (auto simp: mandatory_commands_def new_session_def split: if_splits)
  ultimately show ?thesis by (auto simp: session_ok_def commands_sent_ok_def gate_ok_def session_counts_ok_def)
qed

text \<open>
  Readiness is never taken back: an open gate stays open under every later event and gate operation,
  closing and failing included, and a waiter on an open or terminal gate returns at once with the
  readiness.
\<close>

theorem readiness_never_revoked:
  assumes "new_session register_event plugin_uuid = Inr s0"
    and "rg_ready (se_gate (fold session_step before s0))"
  shows "rg_ready (se_gate (fold session_step (before @ after) s0)) \<and>
    gate_wait_attempt expired (se_gate (fold session_step (before @ after) s0)) = Some True"
proof -
  have "session_ok (fold session_step before s0)"
    by (rule session.inv_run) (rule new_session_ok [OF assms(1)])
  from session.latched_run [OF this assms(2), of after] show ?thesis by (simp add: gate_wait_attempt_def)
qed

definition example_session :: session where
  "example_session = (case new_session ''registerPlugin'' ''uuid'' of Inr s \<Rightarrow> s | Inl _ \<Rightarrow> undefined)"

lemma example_session: "new_session ''registerPlugin'' ''uuid'' = Inr example_session"
proof -
  have "\<not> blank ''registerPlugin''" "\<not> blank ''uuid''" by code_simp+
  then show ?thesis by (simp add: example_session_def new_session_def)
qed

lemma example_session_opens:
  "rg_ready (se_gate (fold session_step [Handle Connected, SendEnds None, SendEnds None, HandleEnds] example_session))"
proof -
  have "\<not> blank ''registerPlugin''" "\<not> blank ''uuid''" by code_simp+
  then show ?thesis
    by (simp add: example_session_def new_session_def session_operation_defs new_readiness_gate_def)
qed

lemma session_ready_after_initialization_witness:
  "length (se_sent (fold session_step [Handle Connected, SendEnds None, SendEnds None, HandleEnds] example_session)) = 2"
  using session_ready_after_initialization [OF example_session refl,
      of "[Handle Connected, SendEnds None, SendEnds None, HandleEnds]"] example_session_opens by blast

lemma readiness_never_revoked_witness:
  "rg_ready (se_gate (fold session_step ([Handle Connected, SendEnds None, SendEnds None, HandleEnds] @
     [SourceClosed, FailReadiness JsonDepthError]) example_session))"
  using readiness_never_revoked [OF example_session example_session_opens] by blast

text \<open>
  The gate can be closed between the second send and its opening: the session is then ready, its
  initialisation counts as a success, the gate stays closed and the handler of the connection raises.
\<close>

lemma ready_session_with_closed_gate:
  "\<exists>s. s = fold session_step [Handle Connected, SendEnds None, CloseGate, SendEnds None] example_session \<and>
     se_state s = Ready \<and> se_initialization_succeeded s = 1 \<and> \<not> rg_ready (se_gate s) \<and>
     snd (handle_end s) = Some SessionReadinessStateError"
proof -
  have "\<not> blank ''registerPlugin''" "\<not> blank ''uuid''" by code_simp+
  then show ?thesis
    by (simp add: example_session_def new_session_def session_operation_defs new_readiness_gate_def)
qed

end
