(* ===== verification/Reader.thy ===== *)
theory Reader
  imports TransportQueue Events
begin

text \<open>
  messaging/reader.py: the worker that takes frames from the inbound transport queue, decodes them and
  submits the events. The worker's segments, the operations of other threads on it and the queue it reads
  (theory TransportQueue) are the steps of one system. The decoder is a parameter, the sink answers with
  what each submission is given. Log lines and error reports are left out.
\<close>

section \<open>State and operations\<close>

record reader =
  rd_thread :: bool
  rd_started :: bool
  rd_stop_requested :: bool
  rd_stopped :: bool
  rd_source_idle :: bool
  rd_in_flight :: bool
  rd_frames_received :: nat
  rd_decoded :: nat
  rd_submitted :: nat
  rd_rejected :: nat
  rd_protocol_failures :: nat
  rd_unknown_events :: nat
  rd_sink_failures :: nat

definition new_reader :: reader where
  "new_reader =
     \<lparr>rd_thread = False, rd_started = False, rd_stop_requested = False, rd_stopped = False,
      rd_source_idle = False, rd_in_flight = False, rd_frames_received = 0, rd_decoded = 0,
      rd_submitted = 0, rd_rejected = 0, rd_protocol_failures = 0, rd_unknown_events = 0,
      rd_sink_failures = 0\<rparr>"

text \<open>\<open>start\<close>; the last part tells whether a worker has been started, the one before it what is raised.\<close>

definition reader_start :: "bool \<Rightarrow> reader \<Rightarrow> reader \<times> exn option \<times> bool" where
  "reader_start thread_starts r =
     (if rd_started r \<and> \<not> rd_stopped r then (r, None, False)
      else if rd_stopped r \<or> rd_stop_requested r
      then (r, Some (LifecycleError ''Event reader has already been stopped''), False)
      else if thread_starts then (r\<lparr>rd_thread := True, rd_started := True\<rparr>, None, True)
      else (r\<lparr>rd_thread := False, rd_started := False\<rparr>, Some (RuntimeError ''can't start new thread''), False))"

definition reader_drained :: "reader \<Rightarrow> bool" where
  "reader_drained r =
     (if rd_stopped r then \<not> rd_in_flight r
      else rd_started r \<and> rd_source_idle r \<and> \<not> rd_in_flight r)"

definition reader_drain_attempt :: "bool \<Rightarrow> reader \<Rightarrow> bool option" where
  "reader_drain_attempt expired r =
     (if \<not> reader_drained r then (if expired then Some False else None) else Some True)"

text \<open>\<open>stop\<close> up to its calls outside the lock; the flag tells whether the source is then closed.\<close>

definition reader_stop_begin :: "reader \<Rightarrow> reader \<times> bool" where
  "reader_stop_begin r =
     (if rd_stopped r then (r, False)
      else if \<not> rd_thread r
      then (r\<lparr>rd_stop_requested := True, rd_stopped := True, rd_source_idle := True\<rparr>, False)
      else (r\<lparr>rd_stop_requested := True\<rparr>, True))"

text \<open>
  The segments of \<open>_run\<close>: after a timed-out receive with the test whether to return, after the queue's end,
  around a frame, and at the exit.
\<close>

definition reader_timed_out :: "reader \<Rightarrow> reader \<times> bool" where
  "reader_timed_out r = (r\<lparr>rd_source_idle := True\<rparr>, rd_stop_requested r)"

definition reader_source_closed :: "reader \<Rightarrow> reader" where
  "reader_source_closed r = r\<lparr>rd_source_idle := True\<rparr>"

definition reader_frame_begin :: "reader \<Rightarrow> reader" where
  "reader_frame_begin r =
     r\<lparr>rd_source_idle := False, rd_frames_received := Suc (rd_frames_received r), rd_in_flight := True\<rparr>"

definition reader_frame_end :: "reader \<Rightarrow> reader" where
  "reader_frame_end r = r\<lparr>rd_in_flight := False\<rparr>"

definition reader_exit :: "reader \<Rightarrow> reader" where
  "reader_exit r = r\<lparr>rd_stopped := True, rd_source_idle := True, rd_in_flight := False\<rparr>"

text \<open>
  \<open>_process\<close>: the decoder's result, then the sink's. What is no \<open>Exception\<close> ends the worker with a fatal
  error, which is the second part.
\<close>

definition reader_decode :: "exn + stream_dock_event \<Rightarrow> reader \<Rightarrow> reader \<times> exn option" where
  "reader_decode result r =
     (case result of
        Inl e \<Rightarrow>
          if is_exception e then (r\<lparr>rd_protocol_failures := Suc (rd_protocol_failures r)\<rparr>, None)
          else (r, Some e)
      | Inr event \<Rightarrow>
          (r\<lparr>rd_decoded := Suc (rd_decoded r),
             rd_unknown_events := (if is_unknown event then Suc (rd_unknown_events r) else rd_unknown_events r)\<rparr>,
           None))"

definition reader_submit :: "exn + bool \<Rightarrow> reader \<Rightarrow> reader \<times> exn option" where
  "reader_submit result r =
     (case result of
        Inl e \<Rightarrow>
          if is_exception e then (r\<lparr>rd_sink_failures := Suc (rd_sink_failures r)\<rparr>, None) else (r, Some e)
      | Inr accepted \<Rightarrow>
          (if accepted then r\<lparr>rd_submitted := Suc (rd_submitted r)\<rparr>
           else r\<lparr>rd_rejected := Suc (rd_rejected r)\<rparr>, None))"

section \<open>The worker\<close>

text \<open>Where the worker is; a frame or an event is what it is working on.\<close>

datatype reader_point =
    NoReader
  | Receiving
  | Taken codepoints
  | Decoding codepoints
  | Submitting stream_dock_event
  | FrameDone "exn option"
  | Leaving
  | ReaderGone

text \<open>
  \<open>rs_accepted\<close>, \<open>rs_taken\<close> and \<open>rs_offered\<close> record the frames that the queue accepted, those the worker
  took and the events it submitted, in order; \<open>rs_at_stop\<close> the number of frames accepted when the stop was
  requested; \<open>rs_fatal\<close> the errors passed to the fatal-error callback.
\<close>

record reader_system =
  rs_reader :: reader
  rs_source :: "codepoints transport_queue"
  rs_point :: reader_point
  rs_accepted :: "codepoints list"
  rs_taken :: "codepoints list"
  rs_offered :: "stream_dock_event list"
  rs_at_stop :: "nat option"
  rs_fatal :: "exn list"

datatype reader_op =
    ReaderStart bool
  | ReaderStop
  | CloseSource
  | Produce codepoints
  | Poll bool
  | SourceFails exn
  | BeginFrame
  | Decode
  | SubmitEnds "exn + bool"
  | EndFrame
  | Leave

text \<open>After a segment that ends with a fatal error, if any.\<close>

definition after_segment :: "reader_point \<Rightarrow> reader \<times> exn option \<Rightarrow> reader_system \<Rightarrow> reader_system" where
  "after_segment next_point result s =
     s\<lparr>rs_reader := fst result,
       rs_point := (case snd result of None \<Rightarrow> next_point | Some e \<Rightarrow> FrameDone (Some e))\<rparr>"

fun reader_step :: "(codepoints \<Rightarrow> exn + stream_dock_event) \<Rightarrow> reader_op \<Rightarrow> reader_system \<Rightarrow> reader_system" where
  "reader_step decode (ReaderStart thread_starts) s =
     (case reader_start thread_starts (rs_reader s) of
        (r, _, started) \<Rightarrow> s\<lparr>rs_reader := r, rs_point := (if started then Receiving else rs_point s)\<rparr>)"
| "reader_step decode ReaderStop s =
     s\<lparr>rs_reader := fst (reader_stop_begin (rs_reader s)),
       rs_at_stop := (if rs_at_stop s = None \<and> \<not> rd_stopped (rs_reader s) then Some (length (rs_accepted s))
         else rs_at_stop s)\<rparr>"
| "reader_step decode CloseSource s = s\<lparr>rs_source := tq_stop_accepting (rs_source s)\<rparr>"
| "reader_step decode (Produce frame) s =
     (case raw_inbound_submit frame True (rs_source s) of
        (q, Submitted True, _) \<Rightarrow> s\<lparr>rs_source := q, rs_accepted := rs_accepted s @ [frame]\<rparr>
      | (q, _, _) \<Rightarrow> s\<lparr>rs_source := q\<rparr>)"
| "reader_step decode (Poll expired) s =
     (if rs_point s \<noteq> Receiving then s
      else case tq_receive_attempt expired (rs_source s) of
        (q, TQReceived frame) \<Rightarrow>
          s\<lparr>rs_source := q, rs_taken := rs_taken s @ [frame], rs_point := Taken frame\<rparr>
      | (q, TQWaiting) \<Rightarrow> s
      | (q, TQRaised e) \<Rightarrow>
          (if e = TimeoutError then
             (case reader_timed_out (rs_reader s) of
                (r, leave) \<Rightarrow> s\<lparr>rs_reader := r, rs_point := (if leave then Leaving else Receiving)\<rparr>)
           else s\<lparr>rs_reader := reader_source_closed (rs_reader s), rs_point := Leaving\<rparr>))"
| "reader_step decode (SourceFails e) s =
     (if rs_point s = Receiving then s\<lparr>rs_point := Leaving, rs_fatal := rs_fatal s @ [e]\<rparr> else s)"
| "reader_step decode BeginFrame s =
     (case rs_point s of
        Taken frame \<Rightarrow> s\<lparr>rs_reader := reader_frame_begin (rs_reader s), rs_point := Decoding frame\<rparr>
      | _ \<Rightarrow> s)"
| "reader_step decode Decode s =
     (case rs_point s of
        Decoding frame \<Rightarrow>
          after_segment (case decode frame of Inl _ \<Rightarrow> FrameDone None | Inr event \<Rightarrow> Submitting event)
            (reader_decode (decode frame) (rs_reader s)) s
      | _ \<Rightarrow> s)"
| "reader_step decode (SubmitEnds result) s =
     (case rs_point s of
        Submitting event \<Rightarrow>
          (after_segment (FrameDone None) (reader_submit result (rs_reader s)) s)
            \<lparr>rs_offered := rs_offered s @ [event]\<rparr>
      | _ \<Rightarrow> s)"
| "reader_step decode EndFrame s =
     (case rs_point s of
        FrameDone None \<Rightarrow> s\<lparr>rs_reader := reader_frame_end (rs_reader s), rs_point := Receiving\<rparr>
      | FrameDone (Some e) \<Rightarrow>
          s\<lparr>rs_reader := reader_frame_end (rs_reader s), rs_point := Leaving,
            rs_fatal := rs_fatal s @ [e]\<rparr>
      | _ \<Rightarrow> s)"
| "reader_step decode Leave s =
     (if rs_point s = Leaving then s\<lparr>rs_reader := reader_exit (rs_reader s), rs_point := ReaderGone\<rparr> else s)"

definition new_reader_system :: "codepoints transport_queue \<Rightarrow> reader_system" where
  "new_reader_system q =
     \<lparr>rs_reader = new_reader, rs_source = q, rs_point = NoReader, rs_accepted = [], rs_taken = [],
      rs_offered = [], rs_at_stop = None, rs_fatal = []\<rparr>"

text \<open>What the decoder makes of frames, in order, without those it refuses.\<close>

definition decoded_events :: "(codepoints \<Rightarrow> exn + stream_dock_event) \<Rightarrow> codepoints list \<Rightarrow> stream_dock_event list" where
  "decoded_events decode frames = concat (map (\<lambda>f. case decode f of Inl _ \<Rightarrow> [] | Inr e \<Rightarrow> [e]) frames)"

text \<open>The event in hand, and whether a frame is in hand that has not been decoded yet.\<close>

fun pending_events :: "(codepoints \<Rightarrow> exn + stream_dock_event) \<Rightarrow> reader_point \<Rightarrow> stream_dock_event list" where
  "pending_events decode (Taken f) = decoded_events decode [f]"
| "pending_events decode (Decoding f) = decoded_events decode [f]"
| "pending_events decode (Submitting e) = [e]"
| "pending_events decode _ = []"

definition reader_order_ok :: "(codepoints \<Rightarrow> exn + stream_dock_event) \<Rightarrow> reader_system \<Rightarrow> bool" where
  "reader_order_ok decode s \<longleftrightarrow>
     rs_accepted s = rs_taken s @ map fst (tq_queue (rs_source s)) \<and>
     decoded_events decode (rs_taken s) = rs_offered s @ pending_events decode (rs_point s)"

lemma decoded_events_append:
  "decoded_events decode (xs @ ys) = decoded_events decode xs @ decoded_events decode ys"
  by (simp add: decoded_events_def)

lemma decoded_events_Nil [simp]: "decoded_events decode [] = []"
  by (simp add: decoded_events_def)

lemma raw_inbound_submit_queue:
  assumes "raw_inbound_submit frame x q = (q', st, e)"
  shows "map fst (tq_queue q') = map fst (tq_queue q) @ (if st = Submitted True then [frame] else [])"
  using queued_submit(1) [of frame "utf8_size frame (tq_max_message_bytes q)" False x q] assms
  by (simp add: raw_inbound_submit_def)

lemma receive_queue:
  assumes "tq_receive_attempt x q = (q', st)"
  shows "map fst (tq_queue q) = (case st of TQReceived f \<Rightarrow> [f] | _ \<Rightarrow> []) @ map fst (tq_queue q')"
    and "st \<noteq> TQReceived f \<Longrightarrow> tq_queue q = [] \<or> (\<exists>g. st = TQReceived g)"
  using assms by (auto simp: tq_receive_attempt_def split: list.splits prod.splits if_splits)

text \<open>The worker exists once the reader is started, and its point agrees with the flags of the reader.\<close>

fun busy_point :: "reader_point \<Rightarrow> bool" where
  "busy_point (Decoding f) = True"
| "busy_point (Submitting e) = True"
| "busy_point (FrameDone x) = True"
| "busy_point _ = False"

definition reader_point_ok :: "reader_system \<Rightarrow> bool" where
  "reader_point_ok s \<longleftrightarrow> (let r = rs_reader s in
     rd_thread r = rd_started r \<and> (rd_started r \<longleftrightarrow> rs_point s \<noteq> NoReader) \<and>
     rd_in_flight r = busy_point (rs_point s) \<and>
     (rs_point s = ReaderGone \<longrightarrow> rd_stopped r) \<and> (rs_point s \<notin> {ReaderGone, NoReader} \<longrightarrow> \<not> rd_stopped r) \<and>
     (rd_stop_requested r \<longrightarrow> rs_at_stop s \<noteq> None))"

text \<open>Every frame that was taken is counted, as long as no fatal error has cut one off.\<close>

fun at_taken :: "reader_point \<Rightarrow> nat" where
  "at_taken (Taken f) = 1"
| "at_taken _ = 0"

fun at_decoding :: "reader_point \<Rightarrow> nat" where
  "at_decoding (Decoding f) = 1"
| "at_decoding _ = 0"

fun at_submitting :: "reader_point \<Rightarrow> nat" where
  "at_submitting (Submitting f) = 1"
| "at_submitting _ = 0"

fun cut_off :: "reader_point \<Rightarrow> bool" where
  "cut_off (FrameDone (Some e)) = True"
| "cut_off _ = False"

definition reader_counts_ok :: "reader_system \<Rightarrow> bool" where
  "reader_counts_ok s \<longleftrightarrow> (let r = rs_reader s; pt = rs_point s in
     length (rs_taken s) = rd_frames_received r + at_taken pt \<and>
     (rs_fatal s = [] \<and> \<not> cut_off pt \<longrightarrow>
        rd_frames_received r = rd_decoded r + rd_protocol_failures r + at_decoding pt \<and>
        rd_decoded r = rd_submitted r + rd_rejected r + rd_sink_failures r + at_submitting pt))"

text \<open>A worker that left without a fatal error had found the source closed and empty, or empty after the stop.\<close>

definition reader_left_ok :: "reader_system \<Rightarrow> bool" where
  "reader_left_ok s \<longleftrightarrow>
     (rs_point s \<in> {Leaving, ReaderGone} \<and> rs_fatal s = [] \<longrightarrow>
        \<not> tq_accepting (rs_source s) \<and> tq_queue (rs_source s) = [] \<or>
        (\<exists>n. rs_at_stop s = Some n \<and> n \<le> length (rs_taken s))) \<and>
     (case rs_at_stop s of None \<Rightarrow> True | Some n \<Rightarrow> n \<le> length (rs_accepted s))"

definition reader_ok :: "(codepoints \<Rightarrow> exn + stream_dock_event) \<Rightarrow> reader_system \<Rightarrow> bool" where
  "reader_ok decode s \<longleftrightarrow>
     reader_order_ok decode s \<and> reader_point_ok s \<and> reader_counts_ok s \<and> reader_left_ok s"

lemmas reader_segment_defs = after_segment_def reader_decode_def reader_submit_def reader_frame_begin_def
  reader_frame_end_def reader_exit_def reader_timed_out_def reader_source_closed_def tq_stop_accepting_def
  reader_stop_begin_def reader_start_def

lemma reader_order_step:
  assumes "reader_ok decode s" shows "reader_order_ok decode (reader_step decode op s)"
proof -
  have ok: "reader_order_ok decode s" and started: "rd_started (rs_reader s) \<or> rs_point s = NoReader"
    using assms by (auto simp: reader_ok_def reader_point_ok_def Let_def)
  show ?thesis
  proof (cases op)
    case (Produce frame)
    obtain q st e where sub: "raw_inbound_submit frame True (rs_source s) = (q, st, e)" by (metis prod_cases3)
    with raw_inbound_submit_queue [OF sub] Produce ok show ?thesis
      by (cases st) (auto simp: reader_order_ok_def split: bool.splits)
  next
    case (Poll x)
    obtain q st where rec: "tq_receive_attempt x (rs_source s) = (q, st)" by fastforce
    with receive_queue(1) [OF rec] Poll ok show ?thesis
      by (cases st)
         (auto simp: reader_order_ok_def reader_timed_out_def decoded_events_append split: prod.splits)
  next
    case Decode
    with ok show ?thesis
      by (auto simp: reader_order_ok_def after_segment_def reader_decode_def decoded_events_def
          split: reader_point.splits sum.splits option.splits)
  next
    case (ReaderStart b)
    with ok started show ?thesis by (auto simp: reader_order_ok_def reader_start_def split: if_splits)
  qed (use ok in \<open>auto simp: reader_order_ok_def after_segment_def tq_stop_accepting_def
      split: reader_point.splits option.splits prod.splits\<close>)
qed

lemma reader_point_step:
  assumes "reader_ok decode s" shows "reader_point_ok (reader_step decode op s)"
proof -
  have ok: "reader_point_ok s" using assms by (simp add: reader_ok_def)
  show ?thesis
  proof (cases op)
    case (Produce frame)
    then show ?thesis using ok
      by (auto simp: reader_point_ok_def Let_def split: prod.splits tq_status.splits bool.splits)
  next
    case (Poll x)
    then show ?thesis using ok
      by (auto simp: reader_point_ok_def reader_segment_defs Let_def split: prod.splits tq_receive_status.splits)
  qed (use ok in \<open>auto simp: reader_point_ok_def reader_segment_defs Let_def
      split: reader_point.splits option.splits prod.splits sum.splits if_splits\<close>)
qed


lemma reader_counts_step:
  assumes "reader_ok decode s" shows "reader_counts_ok (reader_step decode op s)"
proof -
  have ok: "reader_counts_ok s" and started: "rd_started (rs_reader s) \<or> rs_point s = NoReader"
    using assms by (auto simp: reader_ok_def reader_point_ok_def Let_def)
  show ?thesis
  proof (cases op)
    case (Produce frame)
    then show ?thesis using ok
      by (auto simp: reader_counts_ok_def Let_def split: prod.splits tq_status.splits bool.splits)
  next
    case (Poll x)
    then show ?thesis using ok
      by (auto simp: reader_counts_ok_def reader_segment_defs Let_def split: prod.splits tq_receive_status.splits)
  next
    case (EndFrame)
    then show ?thesis using ok
      by (auto simp: reader_counts_ok_def reader_segment_defs Let_def split: reader_point.splits option.splits)
  qed (use ok started in \<open>auto simp: reader_counts_ok_def reader_segment_defs Let_def
      split: reader_point.splits option.splits prod.splits sum.splits if_splits\<close>)
qed

lemma reader_left_step:
  assumes "reader_ok decode s" shows "reader_left_ok (reader_step decode op s)"
proof -
  have ok: "reader_left_ok s" "reader_order_ok decode s"
    and started: "rd_started (rs_reader s) \<or> rs_point s = NoReader"
    and stop: "rd_stop_requested (rs_reader s) \<longrightarrow> rs_at_stop s \<noteq> None"
    using assms by (auto simp: reader_ok_def reader_point_ok_def Let_def)
  show ?thesis
  proof (cases op)
    case (Produce frame)
    obtain q st e where sub: "raw_inbound_submit frame True (rs_source s) = (q, st, e)" by (metis prod_cases3)
    have "\<not> tq_accepting (rs_source s) \<Longrightarrow> st \<noteq> Submitted True \<and> tq_queue q = tq_queue (rs_source s)"
      "tq_accepting q = tq_accepting (rs_source s)"
      using sub by (auto simp: raw_inbound_submit_def tq_submit_begin_def Let_def tq_submit_loop_def tq_append_def
          split: if_splits)
    with ok(1) Produce sub show ?thesis
      by (cases st) (auto simp: reader_left_ok_def split: bool.splits option.splits)
  next
    case (Poll x)
    obtain q st where rec: "tq_receive_attempt x (rs_source s) = (q, st)" by fastforce
    have "st = TQRaised e \<Longrightarrow> q = rs_source s \<and> tq_queue q = [] \<and> (e = TimeoutError \<or> \<not> tq_accepting q)"
      for e using rec by (auto simp: tq_receive_attempt_def split: list.splits if_splits)
    with ok stop Poll rec show ?thesis
      by (cases st)
         (auto simp: reader_left_ok_def reader_order_ok_def reader_segment_defs split: prod.splits option.splits)
  qed (use ok started in \<open>auto simp: reader_left_ok_def reader_order_ok_def reader_segment_defs Let_def
      split: reader_point.splits option.splits prod.splits sum.splits if_splits\<close>)
qed

lemma reader_ok_step: "reader_ok decode s \<Longrightarrow> reader_ok decode (reader_step decode op s)"
  using reader_order_step reader_point_step reader_counts_step reader_left_step
  unfolding reader_ok_def [of decode "reader_step decode op s"] by blast

interpretation reader: invariant_machine "reader_step decode" "reader_ok decode" for decode
  by unfold_locales (rule reader_ok_step)

lemma new_reader_ok:
  "tq_queue q = [] \<Longrightarrow> reader_ok decode (new_reader_system q)"
  by (simp add: reader_ok_def reader_order_ok_def reader_point_ok_def reader_counts_ok_def reader_left_ok_def
      new_reader_system_def new_reader_def)


section \<open>Properties\<close>

text \<open>
  Events reach the sink in wire order, without loss, duplication or invention: at every moment the
  events submitted are the decodings of a prefix of the accepted frames, refused ones left out, and
  between two frames, as long as no fatal error happened, the counters account for every frame that was
  taken.
\<close>

theorem reader_decodes_in_order:
  assumes "tq_queue q = []" and "s = fold (reader_step decode) ops (new_reader_system q)"
  shows "(\<exists>n. rs_taken s = take n (rs_accepted s)) \<and>
    (\<exists>later. decoded_events decode (rs_taken s) = rs_offered s @ later \<and> length later \<le> 1) \<and>
    (rs_point s = Receiving \<and> rs_fatal s = [] \<longrightarrow> (let r = rs_reader s in
       decoded_events decode (rs_taken s) = rs_offered s \<and> rd_frames_received r = length (rs_taken s) \<and>
       length (rs_taken s) =
         rd_protocol_failures r + rd_submitted r + rd_rejected r + rd_sink_failures r))"
proof -
  have "reader_ok decode s"
    unfolding assms(2) by (rule reader.inv_run) (rule new_reader_ok [OF assms(1)])
  then have order: "rs_accepted s = rs_taken s @ map fst (tq_queue (rs_source s))"
      "decoded_events decode (rs_taken s) = rs_offered s @ pending_events decode (rs_point s)"
    and counts: "reader_counts_ok s"
    by (simp_all add: reader_ok_def reader_order_ok_def)
  have "length (pending_events decode (rs_point s)) \<le> 1"
    by (cases "rs_point s") (auto simp: decoded_events_def split: sum.splits)
  moreover have "rs_taken s = take (length (rs_taken s)) (rs_accepted s)" using order(1) by simp
  ultimately show ?thesis
    using order(2) counts by (auto simp: reader_counts_ok_def Let_def)
qed


text \<open>One round of the worker over a queued frame.\<close>

definition worker_round :: "exn + bool \<Rightarrow> reader_op list" where
  "worker_round result = [Poll True, BeginFrame, Decode, SubmitEnds result, EndFrame]"

definition ordinary_result :: "exn + 'a \<Rightarrow> bool" where
  "ordinary_result r = (case r of Inl e \<Rightarrow> is_exception e | Inr _ \<Rightarrow> True)"

lemma worker_round:
  assumes "rs_point s = Receiving" "tq_queue (rs_source s) = (f, sz) # rest"
    and "ordinary_result (decode f)" "ordinary_result result"
  shows "\<exists>s'. fold (reader_step decode) (worker_round result) s = s' \<and> rs_point s' = Receiving \<and>
    rs_taken s' = rs_taken s @ [f] \<and> tq_queue (rs_source s') = rest \<and> rs_fatal s' = rs_fatal s \<and>
    tq_accepting (rs_source s') = tq_accepting (rs_source s)"
  using assms
  by (cases "decode f"; cases result)
     (auto simp: worker_round_def tq_receive_attempt_def reader_segment_defs ordinary_result_def)

text \<open>
  C23. The worker ends once its queue is closed: from a point between two frames it takes one round per
  queued frame, whatever decoder and sink answer short of a fatal error, and then leaves with
  every frame taken.
\<close>

theorem reader_worker_ends:
  assumes "rs_point s = Receiving" "\<not> tq_accepting (rs_source s)"
    and "length results = length (tq_queue (rs_source s))"
    and "list_all ordinary_result results"
    and "list_all (\<lambda>f. ordinary_result (decode f)) (map fst (tq_queue (rs_source s)))"
  shows "\<exists>s'. fold (reader_step decode) (concat (map worker_round results) @ [Poll True, Leave]) s = s' \<and>
    rs_point s' = ReaderGone \<and> rs_fatal s' = rs_fatal s \<and> rd_stopped (rs_reader s') \<and>
    rs_taken s' = rs_taken s @ map fst (tq_queue (rs_source s))"
  using assms
proof (induction results arbitrary: s)
  case Nil
  then show ?case by (simp add: tq_receive_attempt_def reader_segment_defs)
next
  case (Cons result results)
  obtain f sz rest where queue: "tq_queue (rs_source s) = (f, sz) # rest"
    using Cons.prems(3) by (cases "tq_queue (rs_source s)") auto
  obtain s1 where s1: "fold (reader_step decode) (worker_round result) s = s1" "rs_point s1 = Receiving"
      "rs_taken s1 = rs_taken s @ [f]" "tq_queue (rs_source s1) = rest" "rs_fatal s1 = rs_fatal s"
      "tq_accepting (rs_source s1) = tq_accepting (rs_source s)"
    using worker_round [OF Cons.prems(1) queue, of decode result] Cons.prems(4,5) queue by auto
  obtain s2 where "fold (reader_step decode) (concat (map worker_round results) @ [Poll True, Leave]) s1 = s2"
      "rs_point s2 = ReaderGone" "rs_fatal s2 = rs_fatal s1" "rd_stopped (rs_reader s2)"
      "rs_taken s2 = rs_taken s1 @ map fst rest"
    using Cons.IH [of s1] Cons.prems s1 queue by auto
  then show ?case using s1 queue by simp
qed

section \<open>Examples\<close>

definition example_source :: "codepoints transport_queue" where
  "example_source =
     \<lparr>tq_queue_limit = 2, tq_byte_limit = 9, tq_max_message_bytes = 9, tq_queue = [], tq_accepting = True,
      tq_peak_depth = 0, tq_submitted = 0, tq_enqueued = 0, tq_dequeued = 0, tq_backpressured = 0,
      tq_rejected_full = 0, tq_rejected_after_shutdown = 0, tq_discarded_during_shutdown = 0,
      tq_current_bytes = 0, tq_peak_bytes = 0, tq_rejected_oversized = 0\<rparr>"

definition example_decode :: "codepoints \<Rightarrow> exn + stream_dock_event" where
  "example_decode f = (if f = [] then Inl (ValueError ''invalid JSON'') else Inr SystemDidWakeUp)"

text \<open>Two frames, the first refused by the decoder; then a stop and the worker's last rounds.\<close>

definition example_run :: "reader_op list" where
  "example_run = [ReaderStart True, Produce [], Produce [65], ReaderStop, CloseSource]"

definition example_reader :: reader_system where
  "example_reader = fold (reader_step example_decode) example_run (new_reader_system example_source)"

lemma example_utf8: "utf8_size [] 9 = 0" "utf8_size [65] 9 = 1"
  by code_simp+

lemmas example_submit_defs = raw_inbound_submit_def tq_submit_begin_def tq_submit_loop_def tq_over_capacity_def
  tq_append_def example_utf8 Let_def

lemma example_reader_fields:
  "rs_point example_reader = Receiving" "tq_queue (rs_source example_reader) = [([], 0), ([65], 1)]"
  "\<not> tq_accepting (rs_source example_reader)" "rs_fatal example_reader = []"
  "rs_taken example_reader = []" "rs_at_stop example_reader = Some 2"
  by (simp_all add: example_reader_def example_run_def new_reader_system_def example_source_def new_reader_def
      reader_segment_defs example_submit_defs)

lemma reader_decodes_in_order_witness:
  "rs_offered (fold (reader_step example_decode) (example_run @ worker_round (Inr True) @ worker_round (Inr False))
     (new_reader_system example_source)) = [SystemDidWakeUp]"
proof -
  let ?s = "fold (reader_step example_decode) (example_run @ worker_round (Inr True) @ worker_round (Inr False))
     (new_reader_system example_source)"
  have empty: "tq_queue example_source = []" by (simp add: example_source_def)
  have "rs_point ?s = Receiving \<and> rs_fatal ?s = [] \<and> rs_taken ?s = [[], [65]]"
    using worker_round [OF example_reader_fields(1,2), of example_decode "Inr True"] example_reader_fields
      worker_round [of "fold (reader_step example_decode) (worker_round (Inr True)) example_reader" "[65]" 1 "[]"
        example_decode "Inr False"]
    by (auto simp: ordinary_result_def example_decode_def example_reader_def)
  then show ?thesis
    using reader_decodes_in_order [OF empty refl, of example_decode
        "example_run @ worker_round (Inr True) @ worker_round (Inr False)"]
    by (simp add: Let_def decoded_events_def example_decode_def)
qed

lemma example_reader_ends:
  "rs_point (fold (reader_step example_decode) (concat (map worker_round [Inr True, Inr False]) @ [Poll True, Leave])
     example_reader) = ReaderGone \<and>
   rs_fatal (fold (reader_step example_decode) (concat (map worker_round [Inr True, Inr False]) @ [Poll True, Leave])
     example_reader) = [] \<and>
   rs_at_stop (fold (reader_step example_decode) (concat (map worker_round [Inr True, Inr False]) @ [Poll True, Leave])
     example_reader) = Some 2"
  by (simp add: example_reader_def example_run_def new_reader_system_def example_source_def new_reader_def
      reader_segment_defs example_submit_defs worker_round_def example_decode_def tq_receive_attempt_def)


lemma reader_worker_ends_witness:
  "rs_point (fold (reader_step example_decode)
     (concat (map worker_round [Inr True, Inl (ValueError ''sink'')]) @ [Poll True, Leave]) example_reader) = ReaderGone"
  using reader_worker_ends [of example_reader "[Inr True, Inl (ValueError ''sink'')]" example_decode]
    example_reader_fields
  by (auto simp: ordinary_result_def example_decode_def)

text \<open>
  \<open>drain\<close> rests on the last idle observation of the worker, which a frame accepted later does not
  withdraw: it answers at once that everything is drained although a frame was queued before the call and
  no producer is active any more.
\<close>

lemma reader_drain_overlooks_queued_frame:
  "\<exists>s. s = fold (reader_step example_decode) [ReaderStart True, Poll True, Produce [65]]
       (new_reader_system example_source) \<and>
     reader_drain_attempt False (rs_reader s) = Some True \<and> map fst (tq_queue (rs_source s)) = [[65]]"
  by (simp add: new_reader_system_def example_source_def new_reader_def reader_segment_defs
      example_submit_defs tq_receive_attempt_def reader_drain_attempt_def reader_drained_def)

end
