(* ===== verification/Registration.thy ===== *)
theory Registration
  imports Events
begin

text \<open>
  registration.py: the arguments with which the host launches a plugin, parsed from the decoded
  \<open>-info\<close> value field by field, in the order of evaluation of the source. \<open>info_denotes\<close> is the
  declarative reading of the value, \<open>info_to_wire\<close> writes the metadata in that form.
\<close>

section \<open>Data\<close>

record application_info =
  ai_language :: string
  ai_platform :: string
  ai_platform_version :: string
  ai_version :: string
  ai_font :: "string option"

record colors =
  cl_mouse_over_background :: "string option"
  cl_pressed_background :: "string option"
  cl_pressed_border :: "string option"
  cl_pressed_text :: "string option"
  cl_highlight :: "string option"

record registered_device =
  rv_id :: string
  rv_name :: string
  rv_type :: int
  rv_size :: device_size

record plugin_info =
  pl_uuid :: string
  pl_version :: string

record registration_info =
  ri_application :: application_info
  ri_colors :: colors
  ri_device_pixel_ratio :: pyfloat
  ri_devices :: "registered_device list"
  ri_plugin :: plugin_info

record launch_arguments =
  la_port :: int
  la_plugin_uuid :: string
  la_register_event :: string
  la_info :: registration_info

section \<open>Fields\<close>

definition invalid_info :: "path \<Rightarrow> string \<Rightarrow> exn + 'a" where
  "invalid_info path reason = Inl (InvalidRegistrationInfoError reason path)"

definition info_object :: "pydict \<Rightarrow> string \<Rightarrow> path \<Rightarrow> exn + pydict" where
  "info_object data key path = (case dict_get data key of
     None \<Rightarrow> invalid_info (path @ [Key key]) ''required field is missing''
   | Some (PDict d) \<Rightarrow> Inr d
   | Some _ \<Rightarrow> invalid_info (path @ [Key key]) ''expected object'')"

definition info_array :: "pydict \<Rightarrow> string \<Rightarrow> path \<Rightarrow> exn + pyval list" where
  "info_array data key path = (case dict_get data key of
     None \<Rightarrow> invalid_info (path @ [Key key]) ''required field is missing''
   | Some (PList vs) \<Rightarrow> Inr vs
   | Some _ \<Rightarrow> invalid_info (path @ [Key key]) ''expected array'')"

definition info_string :: "pydict \<Rightarrow> string \<Rightarrow> path \<Rightarrow> bool \<Rightarrow> exn + string" where
  "info_string data key path nonempty = (case dict_get data key of
     None \<Rightarrow> invalid_info (path @ [Key key]) ''required field is missing''
   | Some (PStr s) \<Rightarrow> if nonempty \<and> blank s then invalid_info (path @ [Key key]) ''expected non-empty string''
       else Inr s
   | Some _ \<Rightarrow> invalid_info (path @ [Key key]) ''expected string'')"

definition info_optional_string :: "pydict \<Rightarrow> string \<Rightarrow> path \<Rightarrow> exn + string option" where
  "info_optional_string data key path = (case dict_get data key of
     None \<Rightarrow> Inr None
   | Some (PStr s) \<Rightarrow> Inr (Some s)
   | Some _ \<Rightarrow> invalid_info (path @ [Key key]) ''expected string'')"

definition info_int :: "pydict \<Rightarrow> string \<Rightarrow> path \<Rightarrow> exn + int" where
  "info_int data key path = (case dict_get data key of
     None \<Rightarrow> invalid_info (path @ [Key key]) ''required field is missing''
   | Some (PInt n) \<Rightarrow> Inr n
   | Some _ \<Rightarrow> invalid_info (path @ [Key key]) ''expected integer'')"

text \<open>\<open>number <= 0\<close>, false for a NaN.\<close>

fun nonpositive :: "pyfloat \<Rightarrow> bool" where
  "nonpositive (FFinite r) = (r \<le> 0)"
| "nonpositive FPosInf = False"
| "nonpositive FNegInf = True"
| "nonpositive FNaN = False"

definition positive_number :: "pydict \<Rightarrow> string \<Rightarrow> exn + pyfloat" where
  "positive_number data key = (case dict_get data key of
     None \<Rightarrow> invalid_info [Key key] ''required field is missing''
   | Some v \<Rightarrow>
       rbind (case v of
           PInt n \<Rightarrow> (case py_float_of_int n of None \<Rightarrow> Inl OverflowError | Some r \<Rightarrow> Inr (FFinite r))
         | PFloat f \<Rightarrow> Inr f
         | _ \<Rightarrow> invalid_info [Key key] ''expected number'')
       (\<lambda>number. if nonpositive number then invalid_info [Key key] ''expected positive number''
          else Inr number))"

section \<open>Parts\<close>

definition parse_application :: "pydict \<Rightarrow> exn + application_info" where
  "parse_application data =
     (let path = [Key ''application''] in
      rbind (info_string data ''language'' path False) (\<lambda>language.
      rbind (info_string data ''platform'' path False) (\<lambda>platform.
      rbind (info_string data ''platformVersion'' path False) (\<lambda>platform_version.
      rbind (info_string data ''version'' path False) (\<lambda>version.
      rbind (info_optional_string data ''font'' path) (\<lambda>font.
        Inr \<lparr>ai_language = language, ai_platform = platform, ai_platform_version = platform_version,
             ai_version = version, ai_font = font\<rparr>))))))"

definition parse_colors :: "pydict \<Rightarrow> exn + colors" where
  "parse_colors data =
     (let path = [Key ''colors''] in
      rbind (info_optional_string data ''buttonMouseOverBackgroundColor'' path) (\<lambda>mouse_over.
      rbind (info_optional_string data ''buttonPressedBackgroundColor'' path) (\<lambda>background.
      rbind (info_optional_string data ''buttonPressedBorderColor'' path) (\<lambda>border.
      rbind (info_optional_string data ''buttonPressedTextColor'' path) (\<lambda>label.
      rbind (info_optional_string data ''highlightColor'' path) (\<lambda>highlight.
        Inr \<lparr>cl_mouse_over_background = mouse_over, cl_pressed_background = background,
             cl_pressed_border = border, cl_pressed_text = label, cl_highlight = highlight\<rparr>))))))"

definition parse_device :: "nat \<Rightarrow> string set \<Rightarrow> pyval \<Rightarrow> exn + registered_device" where
  "parse_device index seen_ids v =
     (let path = [Key ''devices'', Index index]; size_path = path @ [Key ''size''] in
      case v of
        PDict data \<Rightarrow>
          rbind (info_object data ''size'' path) (\<lambda>dims.
          rbind (info_int dims ''columns'' size_path) (\<lambda>columns.
          rbind (info_int dims ''rows'' size_path) (\<lambda>rows.
            if columns \<le> 0 then invalid_info (size_path @ [Key ''columns'']) ''expected positive integer''
            else if rows \<le> 0 then invalid_info (size_path @ [Key ''rows'']) ''expected positive integer''
            else
              rbind (info_string data ''id'' path True) (\<lambda>device_id.
                if device_id \<in> seen_ids then invalid_info (path @ [Key ''id'']) ''duplicate device identifier''
                else
                  rbind (info_string data ''name'' path False) (\<lambda>name.
                  rbind (info_int data ''type'' path) (\<lambda>device_type.
                    Inr \<lparr>rv_id = device_id, rv_name = name, rv_type = device_type,
                         rv_size = \<lparr>ds_columns = columns, ds_rows = rows\<rparr>\<rparr>))))))
      | _ \<Rightarrow> invalid_info path ''expected object'')"

fun parse_devices :: "nat \<Rightarrow> string set \<Rightarrow> pyval list \<Rightarrow> exn + registered_device list" where
  "parse_devices index seen_ids [] = Inr []"
| "parse_devices index seen_ids (v # vs) =
     rbind (parse_device index seen_ids v) (\<lambda>device.
     rbind (parse_devices (Suc index) (insert (rv_id device) seen_ids) vs) (\<lambda>devices.
       Inr (device # devices)))"

definition parse_plugin :: "pydict \<Rightarrow> exn + plugin_info" where
  "parse_plugin data =
     rbind (info_string data ''uuid'' [Key ''plugin''] True) (\<lambda>uuid.
     rbind (info_string data ''version'' [Key ''plugin''] False) (\<lambda>version.
       Inr \<lparr>pl_uuid = uuid, pl_version = version\<rparr>))"

definition parse_registration_info :: "pyval \<Rightarrow> exn + registration_info" where
  "parse_registration_info v =
     (if \<not> is_json_value v then Inl (InvalidRegistrationInfoError ''value contains non-JSON data'' [])
      else case v of
        PDict data \<Rightarrow>
          rbind (info_object data ''application'' []) (\<lambda>application_data.
          rbind (parse_application application_data) (\<lambda>application.
          rbind (info_object data ''colors'' []) (\<lambda>colors_data.
          rbind (parse_colors colors_data) (\<lambda>theme.
          rbind (positive_number data ''devicePixelRatio'') (\<lambda>ratio.
          rbind (info_array data ''devices'' []) (\<lambda>device_values.
          rbind (parse_devices 0 {} device_values) (\<lambda>devices.
          rbind (info_object data ''plugin'' []) (\<lambda>plugin_data.
          rbind (parse_plugin plugin_data) (\<lambda>plugin.
            Inr \<lparr>ri_application = application, ri_colors = theme, ri_device_pixel_ratio = ratio,
                 ri_devices = devices, ri_plugin = plugin\<rparr>)))))))))
      | _ \<Rightarrow> Inl (InvalidRegistrationInfoError ''expected registration info object'' []))"

definition parse_plugin_launch_arguments ::
    "pyval \<Rightarrow> pyval \<Rightarrow> pyval \<Rightarrow> pyval \<Rightarrow> exn + launch_arguments" where
  "parse_plugin_launch_arguments port plugin_uuid register_event info =
     rbind (case port of
         PInt n \<Rightarrow> if 1 \<le> n \<and> n \<le> 65535 then Inr n
           else Inl (InvalidPluginLaunchArgumentsError ''expected integer from 1 to 65535'' [Key ''port''])
       | _ \<Rightarrow> Inl (InvalidPluginLaunchArgumentsError ''expected integer from 1 to 65535'' [Key ''port'']))
     (\<lambda>port_number.
     rbind (case plugin_uuid of
         PStr s \<Rightarrow> if blank s
           then Inl (InvalidPluginLaunchArgumentsError ''expected non-empty string'' [Key ''pluginUUID''])
           else Inr s
       | _ \<Rightarrow> Inl (InvalidPluginLaunchArgumentsError ''expected non-empty string'' [Key ''pluginUUID'']))
     (\<lambda>uuid.
     rbind (case register_event of
         PStr s \<Rightarrow> if blank s
           then Inl (InvalidPluginLaunchArgumentsError ''expected non-empty string'' [Key ''registerEvent''])
           else Inr s
       | _ \<Rightarrow> Inl (InvalidPluginLaunchArgumentsError ''expected non-empty string'' [Key ''registerEvent'']))
     (\<lambda>event.
     rbind (parse_registration_info info) (\<lambda>registration.
       Inr \<lparr>la_port = port_number, la_plugin_uuid = uuid, la_register_event = event,
            la_info = registration\<rparr>))))"

section \<open>The declarative reading\<close>

definition string_field :: "pydict \<Rightarrow> string \<Rightarrow> string \<Rightarrow> bool" where
  "string_field d k s = (dict_get d k = Some (PStr s))"

definition optional_field :: "pydict \<Rightarrow> string \<Rightarrow> string option \<Rightarrow> bool" where
  "optional_field d k s = (dict_get d k = map_option PStr s)"

definition application_denotes :: "pydict \<Rightarrow> application_info \<Rightarrow> bool" where
  "application_denotes d a \<longleftrightarrow>
     string_field d ''language'' (ai_language a) \<and> string_field d ''platform'' (ai_platform a) \<and>
     string_field d ''platformVersion'' (ai_platform_version a) \<and> string_field d ''version'' (ai_version a) \<and>
     optional_field d ''font'' (ai_font a)"

definition colors_denotes :: "pydict \<Rightarrow> colors \<Rightarrow> bool" where
  "colors_denotes d c \<longleftrightarrow>
     optional_field d ''buttonMouseOverBackgroundColor'' (cl_mouse_over_background c) \<and>
     optional_field d ''buttonPressedBackgroundColor'' (cl_pressed_background c) \<and>
     optional_field d ''buttonPressedBorderColor'' (cl_pressed_border c) \<and>
     optional_field d ''buttonPressedTextColor'' (cl_pressed_text c) \<and>
     optional_field d ''highlightColor'' (cl_highlight c)"

definition ratio_denotes :: "pyval \<Rightarrow> pyfloat \<Rightarrow> bool" where
  "ratio_denotes v r \<longleftrightarrow>
     (\<exists>x. r = FFinite x \<and> 0 < x \<and> (v = PFloat r \<or> (\<exists>n. v = PInt n \<and> py_float_of_int n = Some x)))"

definition device_denotes :: "pyval \<Rightarrow> registered_device \<Rightarrow> bool" where
  "device_denotes v x \<longleftrightarrow>
     (\<exists>d dims. v = PDict d \<and> string_field d ''id'' (rv_id x) \<and> \<not> blank (rv_id x) \<and>
        string_field d ''name'' (rv_name x) \<and> dict_get d ''type'' = Some (PInt (rv_type x)) \<and>
        dict_get d ''size'' = Some (PDict dims) \<and>
        dict_get dims ''columns'' = Some (PInt (ds_columns (rv_size x))) \<and> 0 < ds_columns (rv_size x) \<and>
        dict_get dims ''rows'' = Some (PInt (ds_rows (rv_size x))) \<and> 0 < ds_rows (rv_size x))"

definition info_denotes :: "pydict \<Rightarrow> registration_info \<Rightarrow> bool" where
  "info_denotes d i \<longleftrightarrow>
     (\<exists>app theme ratio devices plugin.
        dict_get d ''application'' = Some (PDict app) \<and> application_denotes app (ri_application i) \<and>
        dict_get d ''colors'' = Some (PDict theme) \<and> colors_denotes theme (ri_colors i) \<and>
        dict_get d ''devicePixelRatio'' = Some ratio \<and> ratio_denotes ratio (ri_device_pixel_ratio i) \<and>
        dict_get d ''devices'' = Some (PList devices) \<and> list_all2 device_denotes devices (ri_devices i) \<and>
        distinct (map rv_id (ri_devices i)) \<and>
        dict_get d ''plugin'' = Some (PDict plugin) \<and>
        string_field plugin ''uuid'' (pl_uuid (ri_plugin i)) \<and> \<not> blank (pl_uuid (ri_plugin i)) \<and>
        string_field plugin ''version'' (pl_version (ri_plugin i)))"

lemma rbind_InlE:
  assumes "rbind r f = Inl x"
  obtains "r = Inl x" | a where "r = Inr a" "f a = Inl x"
  using assms by (cases r) auto

lemma guard_Inr: "(if b then invalid_info p m else r) = Inr x \<longleftrightarrow> \<not> b \<and> r = Inr x"
  by (simp add: invalid_info_def)

lemma field_Inr:
  "info_object d k p = Inr x \<longleftrightarrow> dict_get d k = Some (PDict x)"
  "info_array d k p = Inr vs \<longleftrightarrow> dict_get d k = Some (PList vs)"
  "info_string d k p b = Inr s \<longleftrightarrow> string_field d k s \<and> (b \<longrightarrow> \<not> blank s)"
  "info_optional_string d k p = Inr t \<longleftrightarrow> optional_field d k t"
  "info_int d k p = Inr n \<longleftrightarrow> dict_get d k = Some (PInt n)"
  by (auto simp: info_object_def info_array_def info_string_def info_optional_string_def info_int_def
      invalid_info_def string_field_def optional_field_def map_option_case
      split: option.splits pyval.splits if_splits)

lemma application_info_Inr: "parse_application d = Inr a \<longleftrightarrow> application_denotes d a"
  by (cases a) (auto simp: parse_application_def application_denotes_def Let_def rbind_eq_Inr field_Inr)

lemma colors_Inr: "parse_colors d = Inr c \<longleftrightarrow> colors_denotes d c"
  by (cases c) (auto simp: parse_colors_def colors_denotes_def Let_def rbind_eq_Inr field_Inr)

lemma plugin_Inr:
  "parse_plugin d = Inr p \<longleftrightarrow> string_field d ''uuid'' (pl_uuid p) \<and> \<not> blank (pl_uuid p) \<and>
     string_field d ''version'' (pl_version p)"
  by (cases p) (auto simp: parse_plugin_def rbind_eq_Inr field_Inr)

lemma device_entry_Inr: "parse_device i seen v = Inr x \<longleftrightarrow> device_denotes v x \<and> rv_id x \<notin> seen"
proof (cases "\<exists>d. v = PDict d")
  case True
  then obtain d where v: "v = PDict d" by blast
  obtain n k t c r where x: "x = \<lparr>rv_id = n, rv_name = k, rv_type = t, rv_size = \<lparr>ds_columns = c, ds_rows = r\<rparr>\<rparr>"
    by (cases x) (metis device_size.cases)
  show ?thesis
    unfolding v x
    by (auto simp: parse_device_def device_denotes_def Let_def rbind_eq_Inr field_Inr invalid_info_def guard_Inr
        split del: if_split)
qed (auto simp: parse_device_def device_denotes_def Let_def invalid_info_def split: pyval.splits)

lemma devices_Inr:
  "parse_devices i seen vs = Inr xs \<longleftrightarrow>
     list_all2 device_denotes vs xs \<and> distinct (map rv_id xs) \<and> set (map rv_id xs) \<inter> seen = {}"
  by (induction vs arbitrary: i seen xs)
     (fastforce simp: rbind_eq_Inr device_entry_Inr list_all2_Cons1)+

lemma ratio_Inr:
  "is_json_value (PDict d) \<Longrightarrow> positive_number d k = Inr r \<longleftrightarrow>
     (\<exists>v. dict_get d k = Some v \<and> ratio_denotes v r)"
proof -
  assume json: "is_json_value (PDict d)"
  have finite: "\<exists>x. f = FFinite x" if "dict_get d k = Some (PFloat f)" for f
    using json map_of_SomeD [of d "PStr k" "PFloat f"] that
    by (cases f) (auto simp: is_json_value_def dict_get_def)
  show ?thesis
  proof (cases "dict_get d k")
    case (Some v)
    then show ?thesis
      using finite
      by (cases v)
         (auto simp: positive_number_def ratio_denotes_def invalid_info_def not_le rbind_eq_Inr guard_Inr
           split: option.splits split del: if_split)
  qed (simp add: positive_number_def invalid_info_def)
qed

lemma parses_info:
  "parse_registration_info v = Inr i \<longleftrightarrow> json_object v \<and> (\<exists>d. v = PDict d \<and> info_denotes d i)"
proof (cases "\<exists>d. v = PDict d \<and> is_json_value v")
  case True
  then obtain d where v: "v = PDict d" and json: "is_json_value (PDict d)" by blast
  show ?thesis
    unfolding v using json
    by (cases i)
       (auto simp: parse_registration_info_def info_denotes_def rbind_eq_Inr field_Inr application_info_Inr colors_Inr
         plugin_Inr devices_Inr ratio_Inr [OF json] json_object_def)
qed (auto simp: parse_registration_info_def json_object_def split: pyval.splits)


section \<open>Properties\<close>

text \<open>
  The parser of the \<open>-info\<close> value accepts exactly its declarative reading: it returns metadata if and
  only if the value is a JSON object whose fields denote that metadata, with distinct device identifiers,
  positive grid sizes and a positive ratio.
\<close>

theorem parse_registration_info_iff:
  "parse_registration_info v = Inr i \<longleftrightarrow> json_object v \<and> (\<exists>d. v = PDict d \<and> info_denotes d i)"
  by (rule parses_info)

fun fields_wire :: "(string \<times> pyval option) list \<Rightarrow> pydict" where
  "fields_wire [] = []"
| "fields_wire ((k, None) # fs) = fields_wire fs"
| "fields_wire ((k, Some v) # fs) = (PStr k, v) # fields_wire fs"

definition device_to_wire :: "registered_device \<Rightarrow> pyval" where
  "device_to_wire x =
     PDict [(PStr ''id'', PStr (rv_id x)), (PStr ''name'', PStr (rv_name x)), (PStr ''type'', PInt (rv_type x)),
       (PStr ''size'', PDict [(PStr ''columns'', PInt (ds_columns (rv_size x))),
          (PStr ''rows'', PInt (ds_rows (rv_size x)))])]"

definition application_wire :: "application_info \<Rightarrow> pydict" where
  "application_wire a = fields_wire
     [(''language'', Some (PStr (ai_language a))), (''platform'', Some (PStr (ai_platform a))),
      (''platformVersion'', Some (PStr (ai_platform_version a))), (''version'', Some (PStr (ai_version a))),
      (''font'', map_option PStr (ai_font a))]"

definition colors_wire :: "colors \<Rightarrow> pydict" where
  "colors_wire c = fields_wire
     [(''buttonMouseOverBackgroundColor'', map_option PStr (cl_mouse_over_background c)),
      (''buttonPressedBackgroundColor'', map_option PStr (cl_pressed_background c)),
      (''buttonPressedBorderColor'', map_option PStr (cl_pressed_border c)),
      (''buttonPressedTextColor'', map_option PStr (cl_pressed_text c)),
      (''highlightColor'', map_option PStr (cl_highlight c))]"

definition info_to_wire :: "registration_info \<Rightarrow> pyval" where
  "info_to_wire i = (let a = ri_application i; c = ri_colors i; p = ri_plugin i in
     PDict [(PStr ''application'', PDict (application_wire a)),
       (PStr ''colors'', PDict (colors_wire c)),
       (PStr ''devicePixelRatio'', PFloat (ri_device_pixel_ratio i)),
       (PStr ''devices'', PList (map device_to_wire (ri_devices i))),
       (PStr ''plugin'', PDict [(PStr ''uuid'', PStr (pl_uuid p)), (PStr ''version'', PStr (pl_version p))])])"

definition info_valid :: "registration_info \<Rightarrow> bool" where
  "info_valid i \<longleftrightarrow>
     (case ri_device_pixel_ratio i of FFinite r \<Rightarrow> 0 < r | _ \<Rightarrow> False) \<and>
     (\<forall>x \<in> set (ri_devices i). \<not> blank (rv_id x) \<and> 0 < ds_columns (rv_size x) \<and> 0 < ds_rows (rv_size x)) \<and>
     distinct (map rv_id (ri_devices i)) \<and> \<not> blank (pl_uuid (ri_plugin i))"

lemma device_wire_denotes:
  "device_denotes (device_to_wire x) x \<longleftrightarrow>
     \<not> blank (rv_id x) \<and> 0 < ds_columns (rv_size x) \<and> 0 < ds_rows (rv_size x)"
  by (auto simp: device_denotes_def device_to_wire_def string_field_def)

lemma denotes_valid: "info_denotes d i \<Longrightarrow> info_valid i"
  by (auto simp: info_denotes_def info_valid_def ratio_denotes_def device_denotes_def list_all2_conv_all_nth
      in_set_conv_nth)

lemma wire_parts: "application_denotes (application_wire a) a" "colors_denotes (colors_wire c) c"
  by (cases "ai_font a"; simp add: application_wire_def application_denotes_def string_field_def optional_field_def)
     (cases "cl_mouse_over_background c"; cases "cl_pressed_background c"; cases "cl_pressed_border c";
       cases "cl_pressed_text c"; cases "cl_highlight c"; simp add: colors_wire_def colors_denotes_def
       optional_field_def)

lemma wire_info_denotes: "info_valid i \<Longrightarrow> \<exists>d. info_to_wire i = PDict d \<and> info_denotes d i"
  unfolding info_to_wire_def Let_def info_denotes_def info_valid_def
  by (auto simp: wire_parts ratio_denotes_def device_wire_denotes list_all2_conv_all_nth string_field_def
      split: pyfloat.splits)

lemma fields_wire_json:
  "(\<forall>(k, v) \<in> set (fields_wire fs). is_str k \<and> is_json_value_at n v) \<longleftrightarrow>
     (\<forall>(k, v) \<in> set fs. case v of None \<Rightarrow> True | Some w \<Rightarrow> is_json_value_at n w)"
  by (induction fs rule: fields_wire.induct) auto

lemma wire_info_json: "info_valid i \<Longrightarrow> json_object (info_to_wire i)"
  by (auto simp: json_object_def is_json_value_def info_to_wire_def Let_def max_json_depth_def fields_wire_json
      application_wire_def colors_wire_def device_to_wire_def info_valid_def option.case_eq_if option.map_sel
      split: pyfloat.splits)

text \<open>
  C36. Round trip of the launch metadata: written in the host's form and parsed it is unchanged, exactly when
  it satisfies the documented constraints, which every parsed value does.
\<close>

theorem registration_roundtrip:
  "(parse_registration_info (info_to_wire i) = Inr i \<longleftrightarrow> info_valid i) \<and>
   (parse_registration_info v = Inr i \<longrightarrow> info_valid i)"
  unfolding parses_info using denotes_valid wire_info_denotes wire_info_json by blast

section \<open>Errors\<close>

text \<open>The value at a path.\<close>

fun walk :: "pyval \<Rightarrow> path \<Rightarrow> pyval option" where
  "walk v [] = Some v"
| "walk (PDict d) (Key k # p) = (case dict_get d k of None \<Rightarrow> None | Some v \<Rightarrow> walk v p)"
| "walk (PList vs) (Index i # p) = (if i < length vs then walk (vs ! i) p else None)"
| "walk _ _ = None"

lemma walk_append: "walk v (p @ q) = Option.bind (walk v p) (\<lambda>w. walk w q)"
  by (induction v p rule: walk.induct) (auto split: option.splits)

text \<open>
  An error that is located: its path leads to a value, or, when the reason says that a field is missing,
  to a key that its object does not have.
\<close>

definition info_error :: "pyval \<Rightarrow> exn \<Rightarrow> bool" where
  "info_error v x \<longleftrightarrow>
     (\<exists>reason p. x = InvalidRegistrationInfoError reason p \<and>
        (if reason = ''required field is missing''
         then \<exists>q k d. p = q @ [Key k] \<and> walk v q = Some (PDict d) \<and> dict_get d k = None
         else walk v p \<noteq> None))"

lemma found_error:
  "walk v p = Some w \<Longrightarrow> m \<noteq> ''required field is missing'' \<Longrightarrow> invalid_info p m = Inl x \<Longrightarrow> info_error v x"
  by (auto simp: invalid_info_def info_error_def)

lemma root_error:
  "reason \<noteq> ''required field is missing'' \<Longrightarrow> info_error v (InvalidRegistrationInfoError reason [])"
  by (simp add: info_error_def)

lemma field_errors:
  assumes "walk v p = Some (PDict d)"
  shows "info_object d k p = Inl x \<Longrightarrow> info_error v x" "info_array d k p = Inl x \<Longrightarrow> info_error v x"
    "info_string d k p b = Inl x \<Longrightarrow> info_error v x" "info_optional_string d k p = Inl x \<Longrightarrow> info_error v x"
    "info_int d k p = Inl x \<Longrightarrow> info_error v x"
proof -
  have absent: "info_error v (InvalidRegistrationInfoError ''required field is missing'' (p @ [Key k]))"
    if "dict_get d k = None"
    using assms that by (auto simp: info_error_def)
  have wrong: "info_error v (InvalidRegistrationInfoError m (p @ [Key k]))"
    if "dict_get d k = Some w" "m \<noteq> ''required field is missing''" for w m
    using assms that by (auto simp: info_error_def walk_append)
  show "info_object d k p = Inl x \<Longrightarrow> info_error v x" "info_array d k p = Inl x \<Longrightarrow> info_error v x"
    "info_string d k p b = Inl x \<Longrightarrow> info_error v x" "info_optional_string d k p = Inl x \<Longrightarrow> info_error v x"
    "info_int d k p = Inl x \<Longrightarrow> info_error v x"
    using absent wrong
    by (auto simp: info_object_def info_array_def info_string_def info_optional_string_def info_int_def
        invalid_info_def split: option.splits pyval.splits if_splits)
qed

lemma application_error:
  "walk v [Key ''application''] = Some (PDict d) \<Longrightarrow> parse_application d = Inl x \<Longrightarrow> info_error v x"
  by (auto simp: parse_application_def Let_def rbind_eq_Inl intro: field_errors)

lemma colors_error:
  "walk v [Key ''colors''] = Some (PDict d) \<Longrightarrow> parse_colors d = Inl x \<Longrightarrow> info_error v x"
  by (auto simp: parse_colors_def Let_def rbind_eq_Inl intro: field_errors)

lemma plugin_error:
  "walk v [Key ''plugin''] = Some (PDict d) \<Longrightarrow> parse_plugin d = Inl x \<Longrightarrow> info_error v x"
  by (auto simp: parse_plugin_def rbind_eq_Inl intro: field_errors)

lemma device_error:
  assumes "walk v [Key ''devices'', Index i] = Some w" and "parse_device i seen w = Inl x"
  shows "info_error v x"
proof (cases "\<exists>d. w = PDict d")
  case False
  then have "invalid_info [Key ''devices'', Index i] ''expected object'' = (Inl x :: exn + registered_device)"
    using assms(2) by (auto simp: parse_device_def Let_def split: pyval.splits)
  then show ?thesis by (rule found_error [OF assms(1), rotated]) simp
next
  case True
  then obtain d where w: "w = PDict d" by blast
  let ?p = "[Key ''devices'', Index i]"
  have walk: "walk v ?p = Some (PDict d)" using assms(1) w by simp
  show ?thesis
  proof (cases "info_object d ''size'' ?p")
    case (Inl y)
    then show ?thesis using assms(2) field_errors(1) [OF walk Inl] by (simp add: parse_device_def w)
  next
    case (Inr dims)
    then have "dict_get d ''size'' = Some (PDict dims)" by (simp add: field_Inr)
    then have walk2: "walk v (?p @ [Key ''size'']) = Some (PDict dims)" using walk by (simp only: walk_append) simp
    have found: "info_error v (InvalidRegistrationInfoError m (q @ [Key k]))"
      if "walk v q = Some (PDict e)" "dict_get e k = Some u" "m \<noteq> ''required field is missing''" for q e k u m
      using that by (auto simp: info_error_def walk_append)
    have "parse_device i seen w = Inl x \<Longrightarrow> info_error v x"
      using Inr field_errors(5) [OF walk2] field_errors(3,5) [OF walk] found [OF walk] found [OF walk2]
      by (auto simp: parse_device_def w Let_def rbind_eq_Inl field_Inr string_field_def invalid_info_def
          split: if_splits)
    with assms(2) show ?thesis by blast
  qed
qed


lemma devices_error:
  assumes "walk v [Key ''devices''] = Some (PList all)" and "parse_devices (length done) seen vs = Inl x"
    and "all = done @ vs"
  shows "info_error v x"
  using assms(2,3)
proof (induction vs arbitrary: "done" seen)
  case (Cons w vs)
  have "walk v ([Key ''devices''] @ [Index (length done)]) = Some w"
    using assms(1) Cons.prems(2) by (simp only: walk_append) simp
  then have "parse_device (length done) s w = Inl x \<Longrightarrow> info_error v x" for s
    by (intro device_error) simp_all
  moreover have "parse_devices (length (done @ [w])) s vs = Inl x \<Longrightarrow> info_error v x" for s
    using Cons.prems(2) by (intro Cons.IH) simp_all
  ultimately show ?case using Cons.prems(1) by (auto simp: rbind_eq_Inl)
qed simp

lemma ratio_error:
  assumes "v = PDict d" and "positive_number d k = Inl x"
  shows "info_error v x \<or> x = OverflowError \<and> (\<exists>n. dict_get d k = Some (PInt n) \<and> py_float_of_int n = None)"
proof (cases "dict_get d k")
  case None
  then have "x = InvalidRegistrationInfoError ''required field is missing'' ([] @ [Key k])"
    using assms(2) by (simp add: positive_number_def invalid_info_def)
  moreover have "walk v [] = Some (PDict d)" using assms(1) by simp
  ultimately show ?thesis using None unfolding info_error_def by metis
next
  case (Some w)
  then have walk: "walk v [Key k] = Some w" using assms(1) by simp
  have error: "info_error v y"
    if "(invalid_info [Key k] m :: exn + pyfloat) = Inl y" "m \<noteq> ''required field is missing''" for m y
    by (rule found_error [OF walk that(2,1)])
  consider "\<exists>n. w = PInt n \<and> py_float_of_int n = None \<and> x = OverflowError"
    | "(invalid_info [Key k] ''expected number'' :: exn + pyfloat) = Inl x"
    | "(invalid_info [Key k] ''expected positive number'' :: exn + pyfloat) = Inl x"
    using assms(2) Some
    by (auto simp: positive_number_def rbind_eq_Inl split: pyval.splits option.splits if_splits)
  then show ?thesis using Some by cases (auto intro: error)
qed

lemma rejected_outright:
  assumes "parse_registration_info v = Inl x" and "\<nexists>d. v = PDict d \<and> is_json_value v"
  shows "x = InvalidRegistrationInfoError ''value contains non-JSON data'' [] \<or>
    x = InvalidRegistrationInfoError ''expected registration info object'' []"
proof (cases "is_json_value v")
  case True
  then have "\<not> is_dict v" using assms(2) by (cases v) simp_all
  then have "parse_registration_info v = Inl (InvalidRegistrationInfoError ''expected registration info object'' [])"
    using True unfolding parse_registration_info_def by (cases v) simp_all
  then show ?thesis using assms(1) by simp
next
  case False
  then have "parse_registration_info v = Inl (InvalidRegistrationInfoError ''value contains non-JSON data'' [])"
    unfolding parse_registration_info_def by (rule if_P)
  then show ?thesis using assms(1) by simp
qed

text \<open>
  Every rejection of the launch metadata is located: the error is the registration error, and its path
  leads to the offending value or to a key that its object does not have; only a ratio that is an integer
  beyond the range of floats raises something else.
\<close>

theorem registration_error_located:
  assumes "parse_registration_info v = Inl x"
  shows "info_error v x \<or>
    x = OverflowError \<and> (\<exists>d n. v = PDict d \<and> dict_get d ''devicePixelRatio'' = Some (PInt n) \<and>
      py_float_of_int n = None)"
proof (cases "\<exists>d. v = PDict d \<and> is_json_value v")
  case False
  then have "x = InvalidRegistrationInfoError ''value contains non-JSON data'' [] \<or>
    x = InvalidRegistrationInfoError ''expected registration info object'' []"
    by (rule rejected_outright [OF assms])
  then have "info_error v x"
    by (elim disjE) (hypsubst, rule root_error, simp)+
  then show ?thesis by (rule disjI1)
next
  case True
  then obtain d where v: "v = PDict d" and json: "\<not> \<not> is_json_value (PDict d)" by blast
  have at: "walk v [] = Some (PDict d)" using v by simp
  have step: "walk v [Key k] = Some w" if "dict_get d k = Some w" for k w using v that by simp
  let ?overflow = "x = OverflowError \<and> (\<exists>d n. v = PDict d \<and> dict_get d ''devicePixelRatio'' = Some (PInt n) \<and>
    py_float_of_int n = None)"
  have ratio: "info_error v x \<or> ?overflow" if "positive_number d ''devicePixelRatio'' = Inl x"
    using ratio_error [OF v that] v by blast
  have devices: "info_error v x" if "info_array d ''devices'' [] = Inr vs" "parse_devices 0 {} vs = Inl x" for vs
    using devices_error [of v vs "[]" "{}" vs x] step that by (simp add: field_Inr)
  have parts: "info_object d ''application'' [] = Inr e \<Longrightarrow> parse_application e = Inl x \<Longrightarrow> info_error v x"
    "info_object d ''colors'' [] = Inr e \<Longrightarrow> parse_colors e = Inl x \<Longrightarrow> info_error v x"
    "info_object d ''plugin'' [] = Inr e \<Longrightarrow> parse_plugin e = Inl x \<Longrightarrow> info_error v x" for e
    by (auto simp: field_Inr dest: step intro: application_error colors_error plugin_error)
  have parsed: "parse_registration_info (PDict d) = Inl x" using assms v by simp
  show ?thesis
    using parsed unfolding parse_registration_info_def if_not_P [OF json] pyval.case
  proof (elim rbind_InlE)
  qed (rule field_errors(1,2) [OF at, THEN disjI1] parts [THEN disjI1] devices [THEN disjI1] ratio, assumption+
      | (drule Inr_not_Inl [THEN notE], assumption) | simp)+
qed

text \<open>
  The launch arguments are accepted exactly when the port is an integer from 1 to 65535, the identifier
  and the event name are not blank and the metadata are accepted; they are passed on unchanged.
\<close>

theorem launch_arguments_iff:
  "(parse_plugin_launch_arguments port plugin_uuid register_event info = Inr a \<longleftrightarrow>
      port = PInt (la_port a) \<and> la_port a \<in> {1..65535} \<and>
      plugin_uuid = PStr (la_plugin_uuid a) \<and> \<not> blank (la_plugin_uuid a) \<and>
      register_event = PStr (la_register_event a) \<and> \<not> blank (la_register_event a) \<and>
      parse_registration_info info = Inr (la_info a))"
  by (cases a)
     (auto simp: parse_plugin_launch_arguments_def rbind_eq_Inr split: pyval.splits if_splits)

section \<open>Examples\<close>

definition example_info :: registration_info where
  "example_info =
     \<lparr>ri_application = \<lparr>ai_language = ''en'', ai_platform = ''windows'', ai_platform_version = ''11'',
        ai_version = ''1'', ai_font = None\<rparr>,
      ri_colors = \<lparr>cl_mouse_over_background = None, cl_pressed_background = None, cl_pressed_border = None,
        cl_pressed_text = None, cl_highlight = Some ''#fff''\<rparr>,
      ri_device_pixel_ratio = FFinite 2,
      ri_devices = [\<lparr>rv_id = ''d'', rv_name = ''deck'', rv_type = 0,
        rv_size = \<lparr>ds_columns = 5, ds_rows = 3\<rparr>\<rparr>],
      ri_plugin = \<lparr>pl_uuid = ''p'', pl_version = ''1.0''\<rparr>\<rparr>"

lemma example_info_valid: "info_valid example_info"
proof -
  have "\<not> blank ''d''" "\<not> blank ''p''" by code_simp+
  then show ?thesis by (simp add: info_valid_def example_info_def)
qed

theorem registration_roundtrip_witness: "parse_registration_info (info_to_wire example_info) = Inr example_info"
  using registration_roundtrip [of example_info PNone] example_info_valid by blast

definition huge_ratio :: pyval where
  "huge_ratio = PDict [(PStr ''application'', PDict (application_wire (ri_application example_info))),
     (PStr ''colors'', PDict []), (PStr ''devicePixelRatio'', PInt (2 ^ 1024)), (PStr ''devices'', PList [])]"

text \<open>A valid JSON object with a huge ratio makes the parser raise an error that it does not document.\<close>

lemma bit_length_power: "bit_length (2 ^ n) = Suc n"
proof (induction n)
  case 0
  have "bit_length 0 = 0" by (simp add: bit_length.simps)
  then show ?case by (simp add: bit_length.simps [of "Suc 0"])
next
  case (Suc n)
  then show ?case by (subst bit_length.simps) simp
qed

lemma huge_float: "py_float_of_int (2 ^ 1024) = None"
proof -
  have n: "nat \<bar>2 ^ 1024 :: int\<bar> = 2 ^ 1024" by (simp add: nat_power_eq)
  show ?thesis
    unfolding py_float_of_int_def Let_def n bit_length_power float_overflow_def by simp
qed

lemma huge_ratio_overflows: "parse_registration_info huge_ratio = Inl OverflowError"
proof -
  have "is_json_value huge_ratio"
    by (simp add: is_json_value_def huge_ratio_def max_json_depth_def application_wire_def example_info_def)
  moreover have "parse_application (application_wire (ri_application example_info)) =
      Inr (ri_application example_info)" by (simp add: application_info_Inr wire_parts)
  moreover have "parse_colors [] = Inr \<lparr>cl_mouse_over_background = None, cl_pressed_background = None,
      cl_pressed_border = None, cl_pressed_text = None, cl_highlight = None\<rparr>"
    by (simp add: colors_Inr colors_denotes_def optional_field_def)
  ultimately show ?thesis
    by (simp only: parse_registration_info_def huge_ratio_def info_object_def positive_number_def huge_float
        dict_get_Cons pyval.case option.case rbind_simps not_True_eq_False if_True if_False char.inject
        list.inject list.distinct simp_thms)
qed

theorem registration_error_located_witness:
  "info_error (PDict []) (InvalidRegistrationInfoError ''required field is missing'' [Key ''application''])"
proof -
  have "parse_registration_info (PDict []) =
      Inl (InvalidRegistrationInfoError ''required field is missing'' [Key ''application''])"
    by (simp add: parse_registration_info_def is_json_value_def max_json_depth_def info_object_def invalid_info_def)
  from registration_error_located [OF this] show ?thesis by simp
qed

end
