(* ===== verification/JsonViews.thy ===== *)
theory JsonViews
  imports PyValues "HOL-Library.AList"
begin

text \<open>
  The copy-on-write views of json_types.py (\<open>_CopyOnWriteOwner\<close>, \<open>_CopyOnWriteJsonDict\<close>,
  \<open>_CopyOnWriteJsonList\<close>): an object store with the plain containers of the validated snapshot, the
  views over them and the owner's table from the identity of a container to its view. A view keeps the
  changes to its own container beside the shared source.

  This theory has the definitions and, for one view and its source, what its entries stand for: the
  contents of the view as an ordinary dict or list, and each operation as the ordinary operation on the
  contents. Theory JsonObjects lifts this to the store with all its views.
\<close>

section \<open>Objects\<close>

datatype atom = ANull | ABool bool | AInt int | AFloat pyfloat | AStr string | ASentinel

datatype jval = Atom atom | Ref nat

datatype container = JDict "(string \<times> jval) list" | JList "jval list"

record cow_dict =
  cd_source :: nat
  cd_only_scalars :: "bool option"
  cd_updated :: "(string \<times> jval) list option"
  cd_added :: "(string \<times> jval) list option"
  cd_deleted :: "string list option"
  cd_cleared :: bool

record cow_list =
  cl_source :: "nat option"
  cl_only_scalars :: "bool option"
  cl_wrapped :: "(nat \<times> jval) list option"
  cl_items :: "jval list" \<comment> \<open>the items of the list object itself\<close>

datatype cell = Plain container | DictView cow_dict | ListView cow_list

text \<open>
  The store (a collected object leaves \<open>None\<close> at its address), the owner's table \<open>_containers\<close>, the
  snapshot's \<open>_container_has_only_scalars\<close>, and the number of calls of \<open>_on_mutation\<close>.
\<close>

record view_state =
  cells :: "cell option list"
  containers :: "(nat \<times> nat) list"
  scalar_map :: "(nat \<times> bool) list"
  notified :: nat

definition cell_at :: "view_state \<Rightarrow> nat \<Rightarrow> cell option" where
  "cell_at s a = (if a < length (cells s) then cells s ! a else None)"

definition put_cell :: "nat \<Rightarrow> cell \<Rightarrow> view_state \<Rightarrow> view_state" where
  "put_cell a c s = s\<lparr>cells := (cells s)[a := Some c]\<rparr>"

text \<open>A new object gets an address that no living object has: the first free one, or a new one.\<close>

definition free_address :: "view_state \<Rightarrow> nat" where
  "free_address s = (case index_where (\<lambda>c. c = None) (cells s) of None \<Rightarrow> length (cells s) | Some a \<Rightarrow> a)"

definition new_cell :: "cell \<Rightarrow> view_state \<Rightarrow> nat \<times> view_state" where
  "new_cell c s = (let a = free_address s in
     (a, if a < length (cells s) then put_cell a c s else s\<lparr>cells := cells s @ [Some c]\<rparr>))"

fun only_scalars :: "container \<Rightarrow> bool" where
  "only_scalars (JDict d) = list_all (\<lambda>(k, v). case v of Ref _ \<Rightarrow> False | Atom _ \<Rightarrow> True) d"
| "only_scalars (JList vs) = list_all (\<lambda>v. case v of Ref _ \<Rightarrow> False | Atom _ \<Rightarrow> True) vs"

section \<open>Cloning into the store\<close>

text \<open>
  The containers that \<open>_clone_json_value\<close> and \<open>_clone_json_dict\<close> create for a value they accept
  (theory PyValues has the validation), with their entries in the map of scalar containers. A container
  that is being filled is seen by nothing else, so it enters the store when its parts are complete.
\<close>

fun key_string :: "pyval \<Rightarrow> string" where
  "key_string (PStr k) = k"
| "key_string _ = ''''"

definition mark :: "bool \<Rightarrow> nat \<Rightarrow> container \<Rightarrow> view_state \<Rightarrow> view_state" where
  "mark b a c s = (if b then s\<lparr>scalar_map := AList.update a (only_scalars c) (scalar_map s)\<rparr> else s)"

text \<open>\<open>d[k] = v\<close> for each pair in turn.\<close>

fun put_all :: "(string \<times> jval) list \<Rightarrow> (string \<times> jval) list \<Rightarrow> (string \<times> jval) list" where
  "put_all [] d = d"
| "put_all ((k, v) # kvs) d = put_all kvs (AList.update k v d)"

fun build_value :: "bool \<Rightarrow> pyval \<Rightarrow> view_state \<Rightarrow> jval \<times> view_state"
  and build_list :: "bool \<Rightarrow> pyval list \<Rightarrow> view_state \<Rightarrow> jval list \<times> view_state"
  and build_items :: "bool \<Rightarrow> pydict \<Rightarrow> view_state \<Rightarrow> (string \<times> jval) list \<times> view_state" where
  "build_value b PNone s = (Atom ANull, s)"
| "build_value b (PBool x) s = (Atom (ABool x), s)"
| "build_value b (PInt n) s = (Atom (AInt n), s)"
| "build_value b (PFloat f) s = (Atom (AFloat f), s)"
| "build_value b (PStr t) s = (Atom (AStr t), s)"
| "build_value b (POther n) s = (Atom ANull, s)"
| "build_value b (PList vs) s =
     (let (ws, s1) = build_list b vs s; (a, s2) = new_cell (Plain (JList ws)) s1
      in (Ref a, mark b a (JList ws) s2))"
| "build_value b (PDict d) s =
     (let (ws, s1) = build_items b d s; e = put_all ws []; (a, s2) = new_cell (Plain (JDict e)) s1
      in (Ref a, mark b a (JDict e) s2))"
| "build_list b [] s = ([], s)"
| "build_list b (v # vs) s =
     (let (w, s1) = build_value b v s; (ws, s2) = build_list b vs s1 in (w # ws, s2))"
| "build_items b [] s = ([], s)"
| "build_items b ((k, v) # d) s =
     (let (w, s1) = build_value b v s; (ws, s2) = build_items b d s1 in ((key_string k, w) # ws, s2))"

definition clone_value :: "bool \<Rightarrow> pyval \<Rightarrow> view_state \<Rightarrow> exn + (jval \<times> view_state)" where
  "clone_value b v s = rbind (clone_json_value 0 v) (\<lambda>w. Inr (build_value b w s))"

section \<open>The owner\<close>

definition new_dict_view :: "nat \<Rightarrow> bool option \<Rightarrow> cow_dict" where
  "new_dict_view source only = \<lparr>cd_source = source, cd_only_scalars = only, cd_updated = None,
     cd_added = None, cd_deleted = None, cd_cleared = False\<rparr>"

definition new_list_view :: "nat \<Rightarrow> bool option \<Rightarrow> cow_list" where
  "new_list_view source only = \<lparr>cl_source = Some source, cl_only_scalars = only, cl_wrapped = None,
     cl_items = [Atom ASentinel]\<rparr>"

fun new_view :: "nat \<Rightarrow> bool option \<Rightarrow> container \<Rightarrow> cell" where
  "new_view a only (JDict _) = DictView (new_dict_view a only)"
| "new_view a only (JList _) = ListView (new_list_view a only)"

definition wrap :: "jval \<Rightarrow> view_state \<Rightarrow> jval \<times> view_state" where
  "wrap v s = (case v of
     Atom _ \<Rightarrow> (v, s)
   | Ref a \<Rightarrow> (case cell_at s a of
       Some (Plain c) \<Rightarrow>
         (case map_of (containers s) a of
            Some w \<Rightarrow> (Ref w, s)
          | None \<Rightarrow> let (w, s') = new_cell (new_view a (map_of (scalar_map s) a) c) s
              in (Ref w, s'\<lparr>containers := AList.update a w (containers s')\<rparr>))
     | _ \<Rightarrow> (v, s)))"

definition changed :: "view_state \<Rightarrow> view_state" where
  "changed s = s\<lparr>notified := Suc (notified s)\<rparr>"

section \<open>Dictionary views\<close>

definition source_items :: "view_state \<Rightarrow> nat \<Rightarrow> (string \<times> jval) list" where
  "source_items s a = (case cell_at s a of Some (Plain (JDict d)) \<Rightarrow> d | _ \<Rightarrow> [])"

definition items_of :: "'a list option \<Rightarrow> 'a list" where
  "items_of x = (case x of None \<Rightarrow> [] | Some xs \<Rightarrow> xs)"

definition has_key :: "string \<Rightarrow> (string \<times> jval) list option \<Rightarrow> bool" where
  "has_key k x = (case x of None \<Rightarrow> False | Some d \<Rightarrow> map_of d k \<noteq> None)"

definition source_key_visible :: "(string \<times> jval) list \<Rightarrow> cow_dict \<Rightarrow> string \<Rightarrow> bool" where
  "source_key_visible src d k =
     (\<not> cd_cleared d \<and> map_of src k \<noteq> None \<and> (case cd_deleted d of None \<Rightarrow> True | Some D \<Rightarrow> k \<notin> set D))"

definition dict_len :: "(string \<times> jval) list \<Rightarrow> cow_dict \<Rightarrow> int" where
  "dict_len src d =
     (if cd_cleared d then 0 else int (length src))
     - (case cd_deleted d of None \<Rightarrow> 0 | Some D \<Rightarrow> int (length D))
     + (case cd_added d of None \<Rightarrow> 0 | Some A \<Rightarrow> int (length A))"

definition dict_iter :: "(string \<times> jval) list \<Rightarrow> cow_dict \<Rightarrow> string list" where
  "dict_iter src d =
     (if cd_cleared d then []
      else filter (\<lambda>k. case cd_deleted d of None \<Rightarrow> True | Some D \<Rightarrow> k \<notin> set D) (map fst src))
     @ (case cd_added d of None \<Rightarrow> [] | Some A \<Rightarrow> map fst A)"

definition dict_reversed :: "(string \<times> jval) list \<Rightarrow> cow_dict \<Rightarrow> string list" where
  "dict_reversed src d =
     (case cd_added d of None \<Rightarrow> [] | Some A \<Rightarrow> rev (map fst A)) @
     (if cd_cleared d then []
      else filter (\<lambda>k. case cd_deleted d of None \<Rightarrow> True | Some D \<Rightarrow> k \<notin> set D) (rev (map fst src)))"

definition dict_contains :: "(string \<times> jval) list \<Rightarrow> cow_dict \<Rightarrow> string \<Rightarrow> bool" where
  "dict_contains src d k = (has_key k (cd_added d) \<or> source_key_visible src d k)"

datatype location = Added | Updated | Source

definition dict_find :: "(string \<times> jval) list \<Rightarrow> cow_dict \<Rightarrow> string \<Rightarrow> (location \<times> jval) option" where
  "dict_find src d k =
     (if has_key k (cd_added d) then map_option (Pair Added) (map_of (items_of (cd_added d)) k)
      else if has_key k (cd_updated d) then map_option (Pair Updated) (map_of (items_of (cd_updated d)) k)
      else if \<not> cd_cleared d \<and> cd_deleted d = None then map_option (Pair Source) (map_of src k)
      else if source_key_visible src d k then map_option (Pair Source) (map_of src k)
      else None)"

definition dict_cache :: "location \<Rightarrow> string \<Rightarrow> jval \<Rightarrow> cow_dict \<Rightarrow> cow_dict" where
  "dict_cache location k v d =
     (if location = Added then d\<lparr>cd_added := Some (AList.update k v (items_of (cd_added d)))\<rparr>
      else d\<lparr>cd_updated := Some (AList.update k v (items_of (cd_updated d)))\<rparr>)"

definition dict_set_cloned :: "(string \<times> jval) list \<Rightarrow> string \<Rightarrow> jval \<Rightarrow> cow_dict \<Rightarrow> cow_dict" where
  "dict_set_cloned src k v d =
     (if has_key k (cd_added d) then d\<lparr>cd_added := Some (AList.update k v (items_of (cd_added d)))\<rparr>
      else if source_key_visible src d k
      then d\<lparr>cd_updated := Some (AList.update k v (items_of (cd_updated d)))\<rparr>
      else d\<lparr>cd_added := Some (AList.update k v (items_of (cd_added d)))\<rparr>)"

definition or_none :: "'a list \<Rightarrow> 'a list option" where
  "or_none xs = (if xs = [] then None else Some xs)"

definition dict_remove :: "(string \<times> jval) list \<Rightarrow> string \<Rightarrow> cow_dict \<Rightarrow> exn + cow_dict" where
  "dict_remove src k d =
     (if has_key k (cd_added d) then Inr (d\<lparr>cd_added := or_none (AList.delete k (items_of (cd_added d)))\<rparr>)
      else if \<not> source_key_visible src d k then Inl (KeyError k)
      else Inr (d\<lparr>cd_updated := (case cd_updated d of None \<Rightarrow> None | Some U \<Rightarrow> or_none (AList.delete k U)),
        cd_deleted := Some (items_of (cd_deleted d) @ [k])\<rparr>))"

definition dict_cleared :: "cow_dict \<Rightarrow> cow_dict" where
  "dict_cleared d = d\<lparr>cd_cleared := True, cd_updated := None, cd_added := None, cd_deleted := None\<rparr>"

section \<open>List views\<close>

definition source_list :: "view_state \<Rightarrow> nat option \<Rightarrow> jval list" where
  "source_list s a = (case a of None \<Rightarrow> []
     | Some p \<Rightarrow> (case cell_at s p of Some (Plain (JList vs)) \<Rightarrow> vs | _ \<Rightarrow> []))"

definition list_len :: "jval list \<Rightarrow> cow_list \<Rightarrow> nat" where
  "list_len src l = (if cl_source l \<noteq> None then length src else length (cl_items l))"

text \<open>An index counted from the end when negative; \<open>None\<close> out of range.\<close>

definition normal_index :: "int \<Rightarrow> nat \<Rightarrow> nat option" where
  "normal_index i n =
     (let j = (if 0 \<le> i then i else int n + i) in if 0 \<le> j \<and> j < int n then Some (nat j) else None)"

definition list_materialize :: "jval list \<Rightarrow> cow_list \<Rightarrow> cow_list" where
  "list_materialize src l =
     (if cl_source l = None then l
      else l\<lparr>cl_items := fold (\<lambda>(i, v) xs. xs[i := v]) (items_of (cl_wrapped l)) src,
             cl_source := None, cl_wrapped := None\<rparr>)"

text \<open>The item at an index, and the view with another item there: the entry in \<open>_wrapped\<close>, or the list item.\<close>

definition list_item :: "jval list \<Rightarrow> cow_list \<Rightarrow> nat \<Rightarrow> jval" where
  "list_item src l i =
     (if cl_source l = None then cl_items l ! i
      else case map_of (items_of (cl_wrapped l)) i of None \<Rightarrow> src ! i | Some v \<Rightarrow> v)"

definition list_put :: "nat \<Rightarrow> jval \<Rightarrow> cow_list \<Rightarrow> cow_list" where
  "list_put i v l =
     (if cl_source l = None then l\<lparr>cl_items := (cl_items l)[i := v]\<rparr>
      else l\<lparr>cl_wrapped := Some (AList.update i v (items_of (cl_wrapped l)))\<rparr>)"

definition list_cleared :: "cow_list \<Rightarrow> cow_list" where
  "list_cleared l = l\<lparr>cl_source := None, cl_wrapped := None, cl_items := []\<rparr>"

text \<open>\<open>list.insert\<close>: an index beyond either end is moved to it.\<close>

definition insert_position :: "int \<Rightarrow> nat \<Rightarrow> nat" where
  "insert_position i n =
     (if 0 \<le> i then min (nat i) n else nat (max 0 (int n + i)))"

definition insert_at :: "nat \<Rightarrow> 'a \<Rightarrow> 'a list \<Rightarrow> 'a list" where
  "insert_at i v xs = take i xs @ v # drop i xs"

definition list_edit :: "(jval list \<Rightarrow> jval list) \<Rightarrow> jval list \<Rightarrow> cow_list \<Rightarrow> cow_list" where
  "list_edit f src l = (let m = list_materialize src l in m\<lparr>cl_items := f (cl_items m)\<rparr>)"

section \<open>Operations\<close>

text \<open>
  The calls on a view: those of the dict class, then those of the list class. Values given to a call are
  Python values, which the view clones.
\<close>

datatype view_op =
    DictGet string
  | DictSet string pyval
  | DictDel string
  | DictClear
  | DictUpdate pydict
  | DictGetOr string atom
  | DictPop string "atom option"
  | DictPopitem
  | DictSetdefault string pyval
  | ListGet int
  | ListSet int pyval
  | ListDel int
  | ListAppend pyval
  | ListExtend "pyval list"
  | ListInsert int pyval
  | ListPop int
  | ListClear
  | ListReverse
  | ListRepeat int

type_synonym result = "exn + jval list"

definition dict_getitem :: "nat \<Rightarrow> string \<Rightarrow> cow_dict \<Rightarrow> view_state \<Rightarrow> result \<times> view_state" where
  "dict_getitem w k d s =
     (case dict_find (source_items s (cd_source d)) d k of
        None \<Rightarrow> (Inl (KeyError k), s)
      | Some (location, v) \<Rightarrow>
          let (v', s1) = wrap v s in
          (Inr [v'], if v' = v then s1 else put_cell w (DictView (dict_cache location k v' d)) s1))"

definition dict_setitem :: "nat \<Rightarrow> string \<Rightarrow> jval \<Rightarrow> cow_dict \<Rightarrow> view_state \<Rightarrow> view_state" where
  "dict_setitem w k v d s = put_cell w (DictView (dict_set_cloned (source_items s (cd_source d)) k v d)) s"

definition dict_delitem :: "nat \<Rightarrow> string \<Rightarrow> cow_dict \<Rightarrow> view_state \<Rightarrow> result \<times> view_state" where
  "dict_delitem w k d s =
     (case dict_remove (source_items s (cd_source d)) k d of
        Inl e \<Rightarrow> (Inl e, s)
      | Inr d' \<Rightarrow> (Inr [], changed (put_cell w (DictView d') s)))"

definition list_getitem :: "nat \<Rightarrow> int \<Rightarrow> cow_list \<Rightarrow> view_state \<Rightarrow> result \<times> view_state" where
  "list_getitem w i l s =
     (let src = source_list s (cl_source l) in
      case normal_index i (list_len src l) of
        None \<Rightarrow> (Inl (IndexError ''list index out of range''), s)
      | Some j \<Rightarrow>
          let v = list_item src l j; (v', s1) = wrap v s in
          (Inr [v'], if v' = v then s1 else put_cell w (ListView (list_put j v' l)) s1))"

text \<open>The view as the call left it, read again between two segments of a call.\<close>

definition dict_view_at :: "view_state \<Rightarrow> nat \<Rightarrow> cow_dict option" where
  "dict_view_at s w = (case cell_at s w of Some (DictView d) \<Rightarrow> Some d | _ \<Rightarrow> None)"

definition list_view_at :: "view_state \<Rightarrow> nat \<Rightarrow> cow_list option" where
  "list_view_at s w = (case cell_at s w of Some (ListView l) \<Rightarrow> Some l | _ \<Rightarrow> None)"

definition on_dict :: "nat \<Rightarrow> (cow_dict \<Rightarrow> view_state \<Rightarrow> result \<times> view_state) \<Rightarrow> view_state \<Rightarrow>
    result \<times> view_state" where
  "on_dict w f s = (case dict_view_at s w of
     None \<Rightarrow> (Inl (TypeError ''not a dictionary view''), s) | Some d \<Rightarrow> f d s)"

definition on_list :: "nat \<Rightarrow> (cow_list \<Rightarrow> view_state \<Rightarrow> result \<times> view_state) \<Rightarrow> view_state \<Rightarrow>
    result \<times> view_state" where
  "on_list w f s = (case list_view_at s w of
     None \<Rightarrow> (Inl (TypeError ''not a list view''), s) | Some l \<Rightarrow> f l s)"

text \<open>Read an item, then delete it: \<open>pop\<close> and \<open>popitem\<close>.\<close>

definition dict_take :: "nat \<Rightarrow> string \<Rightarrow> view_state \<Rightarrow> result \<times> view_state" where
  "dict_take w k s =
     (case on_dict w (dict_getitem w k) s of
        (Inl e, s1) \<Rightarrow> (Inl e, s1)
      | (Inr v, s1) \<Rightarrow>
          (case on_dict w (dict_delitem w k) s1 of (Inl e, s2) \<Rightarrow> (Inl e, s2) | (Inr _, s2) \<Rightarrow> (Inr v, s2)))"

fun set_all :: "nat \<Rightarrow> (string \<times> jval) list \<Rightarrow> view_state \<Rightarrow> view_state" where
  "set_all w [] s = s"
| "set_all w ((k, v) # kvs) s =
     set_all w kvs (case dict_view_at s w of None \<Rightarrow> s | Some d \<Rightarrow> dict_setitem w k v d s)"

definition edit_list :: "nat \<Rightarrow> (jval list \<Rightarrow> jval list) \<Rightarrow> view_state \<Rightarrow> result \<times> view_state" where
  "edit_list w f = on_list w (\<lambda>l s.
     (Inr [], changed (put_cell w (ListView (list_edit f (source_list s (cl_source l)) l)) s)))"

fun clone_all :: "pyval list \<Rightarrow> view_state \<Rightarrow> exn + (jval list \<times> view_state)" where
  "clone_all [] s = Inr ([], s)"
| "clone_all (v # vs) s =
     rbind (clone_value False v s) (\<lambda>(w, s1).
     rbind (clone_all vs s1) (\<lambda>(ws, s2). Inr (w # ws, s2)))"

definition dict_has :: "view_state \<Rightarrow> nat \<Rightarrow> string \<Rightarrow> bool" where
  "dict_has s w k = (case dict_view_at s w of None \<Rightarrow> False
     | Some d \<Rightarrow> dict_contains (source_items s (cd_source d)) d k)"

text \<open>The clones that a call makes of its arguments before it changes the view.\<close>

fun clone_args :: "nat \<Rightarrow> view_op \<Rightarrow> view_state \<Rightarrow> exn + (jval list \<times> view_state)" where
  "clone_args w (DictSet k v) s = clone_all [v] s"
| "clone_args w (DictUpdate d) s =
     rbind (clone_json_value 0 (PDict d)) (\<lambda>_. let (ws, s1) = build_items False d s in Inr (map snd ws, s1))"
| "clone_args w (DictSetdefault k v) s = (if dict_has s w k then Inr ([], s) else clone_all [v] s)"
| "clone_args w (ListSet i v) s = clone_all [v] s"
| "clone_args w (ListAppend v) s = clone_all [v] s"
| "clone_args w (ListExtend vs) s = clone_all vs s"
| "clone_args w (ListInsert i v) s = clone_all [v] s"
| "clone_args w x s = Inr ([], s)"

text \<open>The rest of each call; \<open>vs\<close> are the clones.\<close>

definition dict_clear :: "nat \<Rightarrow> view_state \<Rightarrow> result \<times> view_state" where
  "dict_clear w = on_dict w (\<lambda>d s. (Inr [],
     if dict_len (source_items s (cd_source d)) d \<noteq> 0
     then changed (put_cell w (DictView (dict_cleared d)) s) else s))"

definition dict_update :: "nat \<Rightarrow> pydict \<Rightarrow> jval list \<Rightarrow> view_state \<Rightarrow> result \<times> view_state" where
  "dict_update w d vs = on_dict w (\<lambda>_ s. (Inr [],
     if vs \<noteq> [] then changed (set_all w (zip (map (key_string \<circ> fst) d) vs) s) else s))"

text \<open>The defaults of \<open>get\<close> and \<open>pop\<close> are immutable values, and \<open>None\<close> here for no default of \<open>pop\<close>.\<close>

definition dict_get_or :: "nat \<Rightarrow> string \<Rightarrow> atom \<Rightarrow> view_state \<Rightarrow> result \<times> view_state" where
  "dict_get_or w k dflt = on_dict w (\<lambda>d s.
     if dict_has s w k then dict_getitem w k d s else (Inr [Atom dflt], s))"

definition dict_pop :: "nat \<Rightarrow> string \<Rightarrow> atom option \<Rightarrow> view_state \<Rightarrow> result \<times> view_state" where
  "dict_pop w k dflt = on_dict w (\<lambda>_ s.
     if dict_has s w k then dict_take w k s
     else case dflt of None \<Rightarrow> (Inl (KeyError k), s) | Some x \<Rightarrow> (Inr [Atom x], s))"

definition dict_popitem :: "nat \<Rightarrow> view_state \<Rightarrow> result \<times> view_state" where
  "dict_popitem w = on_dict w (\<lambda>d s. case dict_reversed (source_items s (cd_source d)) d of
     [] \<Rightarrow> (Inl (KeyError ''popitem(): dictionary is empty''), s)
   | k # _ \<Rightarrow> (case dict_take w k s of (Inl e, s1) \<Rightarrow> (Inl e, s1)
       | (Inr v, s1) \<Rightarrow> (Inr (Atom (AStr k) # v), s1)))"

definition dict_setdefault :: "nat \<Rightarrow> string \<Rightarrow> jval list \<Rightarrow> view_state \<Rightarrow> result \<times> view_state" where
  "dict_setdefault w k vs = on_dict w (\<lambda>d s.
     if dict_has s w k then dict_getitem w k d s
     else on_dict w (dict_getitem w k) (changed (dict_setitem w k (hd vs) d s)))"

definition list_setitem :: "nat \<Rightarrow> int \<Rightarrow> jval \<Rightarrow> view_state \<Rightarrow> result \<times> view_state" where
  "list_setitem w i v = on_list w (\<lambda>l s.
     case normal_index i (list_len (source_list s (cl_source l)) l) of
       None \<Rightarrow> (Inl (IndexError ''list assignment index out of range''), s)
     | Some j \<Rightarrow> (Inr [], changed (put_cell w (ListView (list_put j v l)) s)))"

definition list_delitem :: "nat \<Rightarrow> int \<Rightarrow> view_state \<Rightarrow> result \<times> view_state" where
  "list_delitem w i = on_list w (\<lambda>l s.
     let m = list_materialize (source_list s (cl_source l)) l in
     case normal_index i (length (cl_items m)) of
       None \<Rightarrow> (Inl (IndexError ''list assignment index out of range''), put_cell w (ListView m) s)
     | Some j \<Rightarrow> (Inr [], changed (put_cell w (ListView (m\<lparr>cl_items := del_at j (cl_items m)\<rparr>)) s)))"

definition list_append :: "nat \<Rightarrow> jval list \<Rightarrow> view_state \<Rightarrow> result \<times> view_state" where
  "list_append w vs = edit_list w (\<lambda>xs. xs @ vs)"

definition list_extend :: "nat \<Rightarrow> jval list \<Rightarrow> view_state \<Rightarrow> result \<times> view_state" where
  "list_extend w vs s =
     (if vs = [] then on_list w (\<lambda>_ s. (Inr [], s)) s else edit_list w (\<lambda>xs. xs @ vs) s)"

definition list_insert :: "nat \<Rightarrow> int \<Rightarrow> jval \<Rightarrow> view_state \<Rightarrow> result \<times> view_state" where
  "list_insert w i v = edit_list w (\<lambda>xs. insert_at (insert_position i (length xs)) v xs)"

definition list_pop :: "nat \<Rightarrow> int \<Rightarrow> view_state \<Rightarrow> result \<times> view_state" where
  "list_pop w i s =
     (case on_list w (list_getitem w i) s of
        (Inl e, s1) \<Rightarrow> (Inl e, s1)
      | (Inr v, s1) \<Rightarrow>
          (Inr v, snd (edit_list w (\<lambda>xs. case normal_index i (length xs) of
              None \<Rightarrow> xs | Some j \<Rightarrow> del_at j xs) s1)))"

definition list_clear :: "nat \<Rightarrow> view_state \<Rightarrow> result \<times> view_state" where
  "list_clear w = on_list w (\<lambda>l s. (Inr [],
     if list_len (source_list s (cl_source l)) l \<noteq> 0
     then changed (put_cell w (ListView (list_cleared l)) s) else s))"

definition list_reverse :: "nat \<Rightarrow> view_state \<Rightarrow> result \<times> view_state" where
  "list_reverse w = edit_list w rev"

definition list_imul :: "nat \<Rightarrow> int \<Rightarrow> view_state \<Rightarrow> result \<times> view_state" where
  "list_imul w n = edit_list w (\<lambda>xs. concat (replicate (nat n) xs))"

lemmas view_calls = dict_get_or_def dict_clear_def dict_update_def dict_pop_def dict_popitem_def dict_setdefault_def
  list_setitem_def list_delitem_def list_append_def list_extend_def list_insert_def list_pop_def list_clear_def
  list_reverse_def list_imul_def

declare view_calls [simp]

fun apply_view :: "nat \<Rightarrow> view_op \<Rightarrow> jval list \<Rightarrow> view_state \<Rightarrow> result \<times> view_state" where
  "apply_view w (DictGet k) vs s = on_dict w (dict_getitem w k) s"
| "apply_view w (DictSet k v) vs s =
     on_dict w (\<lambda>d s. (Inr [], changed (dict_setitem w k (hd vs) d s))) s"
| "apply_view w (DictDel k) vs s = on_dict w (dict_delitem w k) s"
| "apply_view w DictClear vs s = dict_clear w s"
| "apply_view w (DictUpdate d) vs s = dict_update w d vs s"
| "apply_view w (DictGetOr k dflt) vs s = dict_get_or w k dflt s"
| "apply_view w (DictPop k dflt) vs s = dict_pop w k dflt s"
| "apply_view w DictPopitem vs s = dict_popitem w s"
| "apply_view w (DictSetdefault k v) vs s = dict_setdefault w k vs s"
| "apply_view w (ListGet i) vs s = on_list w (list_getitem w i) s"
| "apply_view w (ListSet i v) vs s = list_setitem w i (hd vs) s"
| "apply_view w (ListDel i) vs s = list_delitem w i s"
| "apply_view w (ListAppend v) vs s = list_append w vs s"
| "apply_view w (ListExtend us) vs s = list_extend w vs s"
| "apply_view w (ListInsert i v) vs s = list_insert w i (hd vs) s"
| "apply_view w (ListPop i) vs s = list_pop w i s"
| "apply_view w ListClear vs s = list_clear w s"
| "apply_view w ListReverse vs s = list_reverse w s"
| "apply_view w (ListRepeat n) vs s = list_imul w n s"

definition view_step :: "nat \<Rightarrow> view_op \<Rightarrow> view_state \<Rightarrow> result \<times> view_state" where
  "view_step w x s = (case clone_args w x s of Inl e \<Rightarrow> (Inl e, s) | Inr (vs, s1) \<Rightarrow> apply_view w x vs s1)"

section \<open>Ordinary containers\<close>

text \<open>
  The same calls on a Python dict or list, as the language defines them: result, new contents and whether
  the call counts as a mutation.
\<close>

fun apply_dict :: "view_op \<Rightarrow> jval list \<Rightarrow> (string \<times> jval) list \<Rightarrow> result \<times> (string \<times> jval) list \<times> bool" where
  "apply_dict (DictGet k) vs d =
     (case map_of d k of None \<Rightarrow> (Inl (KeyError k), d, False) | Some v \<Rightarrow> (Inr [v], d, False))"
| "apply_dict (DictSet k v) vs d = (Inr [], AList.update k (hd vs) d, True)"
| "apply_dict (DictDel k) vs d =
     (if map_of d k = None then (Inl (KeyError k), d, False) else (Inr [], AList.delete k d, True))"
| "apply_dict DictClear vs d = (Inr [], [], d \<noteq> [])"
| "apply_dict (DictUpdate u) vs d =
     (Inr [], put_all (zip (map (key_string \<circ> fst) u) vs) d, vs \<noteq> [])"
| "apply_dict (DictGetOr k dflt) vs d =
     (case map_of d k of None \<Rightarrow> (Inr [Atom dflt], d, False) | Some v \<Rightarrow> (Inr [v], d, False))"
| "apply_dict (DictPop k dflt) vs d =
     (case map_of d k of
        None \<Rightarrow> (case dflt of None \<Rightarrow> Inl (KeyError k) | Some x \<Rightarrow> Inr [Atom x], d, False)
      | Some v \<Rightarrow> (Inr [v], AList.delete k d, True))"
| "apply_dict DictPopitem vs d =
     (if d = [] then (Inl (KeyError ''popitem(): dictionary is empty''), d, False)
      else (Inr [Atom (AStr (fst (last d))), snd (last d)], butlast d, True))"
| "apply_dict (DictSetdefault k v) vs d =
     (case map_of d k of Some v \<Rightarrow> (Inr [v], d, False)
      | None \<Rightarrow> (Inr [hd vs], d @ [(k, hd vs)], True))"
| "apply_dict _ vs d = (Inl (TypeError ''not a list view''), d, False)"

fun apply_list :: "view_op \<Rightarrow> jval list \<Rightarrow> jval list \<Rightarrow> result \<times> jval list \<times> bool" where
  "apply_list (ListGet i) vs xs = (case normal_index i (length xs) of
     None \<Rightarrow> (Inl (IndexError ''list index out of range''), xs, False) | Some j \<Rightarrow> (Inr [xs ! j], xs, False))"
| "apply_list (ListSet i v) vs xs = (case normal_index i (length xs) of
     None \<Rightarrow> (Inl (IndexError ''list assignment index out of range''), xs, False)
   | Some j \<Rightarrow> (Inr [], xs[j := hd vs], True))"
| "apply_list (ListDel i) vs xs = (case normal_index i (length xs) of
     None \<Rightarrow> (Inl (IndexError ''list assignment index out of range''), xs, False)
   | Some j \<Rightarrow> (Inr [], del_at j xs, True))"
| "apply_list (ListAppend v) vs xs = (Inr [], xs @ vs, True)"
| "apply_list (ListExtend us) vs xs = (Inr [], xs @ vs, vs \<noteq> [])"
| "apply_list (ListInsert i v) vs xs = (Inr [], insert_at (insert_position i (length xs)) (hd vs) xs, True)"
| "apply_list (ListPop i) vs xs = (case normal_index i (length xs) of
     None \<Rightarrow> (Inl (IndexError ''list index out of range''), xs, False)
   | Some j \<Rightarrow> (Inr [xs ! j], del_at j xs, True))"
| "apply_list ListClear vs xs = (Inr [], [], xs \<noteq> [])"
| "apply_list ListReverse vs xs = (Inr [], rev xs, True)"
| "apply_list (ListRepeat n) vs xs = (Inr [], concat (replicate (nat n) xs), True)"
| "apply_list _ vs xs = (Inl (TypeError ''not a dictionary view''), xs, False)"

fun apply_plain :: "view_op \<Rightarrow> jval list \<Rightarrow> container \<Rightarrow> result \<times> container \<times> bool" where
  "apply_plain x vs (JDict d) = (case apply_dict x vs d of (r, d', b) \<Rightarrow> (r, JDict d', b))"
| "apply_plain x vs (JList xs) = (case apply_list x vs xs of (r, xs', b) \<Rightarrow> (r, JList xs', b))"

section \<open>Contents of a view\<close>

definition keys_of :: "('k \<times> 'v) list \<Rightarrow> 'k set" where
  "keys_of xs = fst ` set xs"

fun kept :: "(string \<Rightarrow> bool) \<Rightarrow> (string \<times> jval) list \<Rightarrow> (string \<times> jval) list" where
  "kept P [] = []"
| "kept P ((k, v) # d) = (if P k then (k, v) # kept P d else kept P d)"

fun patched :: "(string \<times> jval) list \<Rightarrow> (string \<times> jval) list \<Rightarrow> (string \<times> jval) list" where
  "patched U [] = []"
| "patched U ((k, v) # d) = (k, case map_of U k of None \<Rightarrow> v | Some u \<Rightarrow> u) # patched U d"

definition dict_contents :: "(string \<times> jval) list \<Rightarrow> cow_dict \<Rightarrow> (string \<times> jval) list" where
  "dict_contents src d =
     patched (items_of (cd_updated d)) (kept (source_key_visible src d) src) @ items_of (cd_added d)"

definition dict_inv :: "(string \<times> jval) list \<Rightarrow> cow_dict \<Rightarrow> bool" where
  "dict_inv src d \<longleftrightarrow>
     distinct (map fst src) \<and> distinct (map fst (items_of (cd_added d))) \<and>
     distinct (map fst (items_of (cd_updated d))) \<and>
     keys_of (items_of (cd_added d)) \<inter> {k. source_key_visible src d k} = {} \<and>
     keys_of (items_of (cd_updated d)) \<subseteq> {k. source_key_visible src d k} \<and>
     distinct (items_of (cd_deleted d)) \<and> set (items_of (cd_deleted d)) \<subseteq> keys_of src \<and>
     (cd_cleared d \<longrightarrow> cd_deleted d = None)"

definition list_contents :: "jval list \<Rightarrow> cow_list \<Rightarrow> jval list" where
  "list_contents src l =
     (if cl_source l = None then cl_items l
      else map (list_item src l) [0..<length src])"

definition list_inv :: "jval list \<Rightarrow> cow_list \<Rightarrow> bool" where
  "list_inv src l \<longleftrightarrow>
     (cl_source l \<noteq> None \<longrightarrow> distinct (map fst (items_of (cl_wrapped l))) \<and>
        (\<forall>i \<in> keys_of (items_of (cl_wrapped l)). i < length src))"

lemma keys_simps [simp]:
  "keys_of [] = {}" "keys_of (x # xs) = insert (fst x) (keys_of xs)" "keys_of (xs @ ys) = keys_of xs \<union> keys_of ys"
  "keys_of (AList.update k v ys) = insert k (keys_of ys)" "keys_of (AList.delete k ys) = keys_of ys - {k}"
proof -
  show "keys_of (AList.update k v ys) = insert k (keys_of ys)" by (simp add: keys_of_def dom_update)
  show "keys_of (AList.delete k ys) = keys_of ys - {k}"
    using delete_keys [of k ys] by (metis keys_of_def list.set_map set_removeAll)
qed (auto simp: keys_of_def)

lemma keys_set: "keys_of xs = set (map fst xs)"
  by (simp add: keys_of_def)

lemma key_None: "map_of d k = None \<longleftrightarrow> k \<notin> keys_of d"
  by (simp add: keys_of_def map_of_eq_None_iff)

lemma key_Some: "(\<exists>v. map_of d k = Some v) \<longleftrightarrow> k \<in> keys_of d"
  using key_None [of d k] by auto

lemma items_of_or_none [simp]: "items_of (or_none xs) = xs"
  by (simp add: items_of_def or_none_def)

lemma items_of_simps [simp]: "items_of None = []" "items_of (Some xs) = xs"
  by (simp_all add: items_of_def)

lemma has_key_iff: "has_key k x \<longleftrightarrow> k \<in> keys_of (items_of x)"
  by (cases x) (auto simp: has_key_def key_Some)

lemma visible_iff:
  "source_key_visible src d k \<longleftrightarrow> \<not> cd_cleared d \<and> k \<in> keys_of src \<and> k \<notin> set (items_of (cd_deleted d))"
  by (cases "cd_deleted d") (auto simp: source_key_visible_def key_Some)

lemma visible_update [simp]:
  "source_key_visible src (d\<lparr>cd_added := A\<rparr>) = source_key_visible src d"
  "source_key_visible src (d\<lparr>cd_updated := A\<rparr>) = source_key_visible src d"
  "source_key_visible src (d\<lparr>cd_only_scalars := b\<rparr>) = source_key_visible src d"
  by (simp_all add: source_key_visible_def fun_eq_iff)

lemma map_fst_parts [simp]:
  "map fst (kept P d) = filter P (map fst d)" "map fst (patched U d) = map fst d"
  by (induction d) auto

lemma keys_parts [simp]: "keys_of (kept P d) = {k \<in> keys_of d. P k}" "keys_of (patched U d) = keys_of d"
  by (auto simp: keys_set)

lemma kept_none: "kept (\<lambda>k. False) d = []"
  by (induction d) auto

lemma map_of_kept: "map_of (kept P d) k = (if P k then map_of d k else None)"
  by (induction d) auto

lemma map_of_patched:
  "map_of (patched U d) k =
     (if map_of d k = None then None else case map_of U k of None \<Rightarrow> map_of d k | Some u \<Rightarrow> Some u)"
  by (induction d) (auto split: option.splits)

lemma patched_id: "keys_of U \<inter> keys_of d = {} \<Longrightarrow> patched U d = d"
  by (induction d) (auto simp: key_None [symmetric])

lemma patched_other: "k \<notin> keys_of d \<Longrightarrow> patched (AList.update k v U) d = patched U d"
  by (induction d) (auto simp: update_conv')

lemma update_patched:
  "distinct (map fst d) \<Longrightarrow> k \<in> keys_of d \<Longrightarrow> AList.update k v (patched U d) = patched (AList.update k v U) d"
proof (induction d)
  case (Cons x d)
  obtain k' w where x: "x = (k', w)" by fastforce
  have "k' \<notin> keys_of d" using Cons.prems(1) x by (simp add: keys_set)
  then show ?case using Cons by (auto simp: x update_conv' patched_other)
qed simp

lemma delete_patched:
  "AList.delete k (patched U (kept P d)) = patched (AList.delete k U) (kept (\<lambda>k'. P k' \<and> k' \<noteq> k) d)"
  by (induction d) auto

lemma delete_patched':
  "k \<notin> keys_of U \<Longrightarrow>
   AList.delete k (patched U (kept P d)) = patched U (kept (\<lambda>k'. P k' \<and> k' \<noteq> k) d)"
  by (induction d) auto

lemma update_append:
  "AList.update k v (xs @ ys) =
     (if k \<in> keys_of xs then AList.update k v xs @ ys else xs @ AList.update k v ys)"
  by (induction xs) auto

lemma delete_append: "AList.delete k (xs @ ys) = AList.delete k xs @ AList.delete k ys"
  by (induction xs) auto

lemma delete_absent: "k \<notin> keys_of xs \<Longrightarrow> AList.delete k xs = xs"
  by (simp add: keys_of_def)

lemma keys_dict_contents:
  "map fst (dict_contents src d) =
     filter (source_key_visible src d) (map fst src) @ map fst (items_of (cd_added d))"
  by (simp add: dict_contents_def)

lemma key_in_dict_contents:
  "k \<in> keys_of (dict_contents src d) \<longleftrightarrow> source_key_visible src d k \<or> has_key k (cd_added d)"
  by (auto simp: dict_contents_def has_key_iff visible_iff)

lemma dict_iter_contents: "dict_iter src d = map fst (dict_contents src d)"
proof -
  have "filter (source_key_visible src d) (map fst src) =
      (if cd_cleared d then [] else filter (\<lambda>k. case cd_deleted d of None \<Rightarrow> True | Some D \<Rightarrow> k \<notin> set D) (map fst src))"
    by (auto simp: visible_iff items_of_def keys_set intro!: filter_cong split: option.splits)
  then show ?thesis by (simp add: keys_dict_contents dict_iter_def items_of_def split: option.splits)
qed

lemma dict_reversed_contents: "dict_reversed src d = rev (map fst (dict_contents src d))"
  unfolding dict_iter_contents [symmetric]
  by (simp add: dict_reversed_def dict_iter_def rev_filter [symmetric] split: option.splits)

lemma distinct_dict_contents: "dict_inv src d \<Longrightarrow> distinct (map fst (dict_contents src d))"
  by (auto simp: keys_dict_contents dict_inv_def keys_set simp del: set_map)

lemma dict_contains_contents: "dict_contains src d k \<longleftrightarrow> k \<in> keys_of (dict_contents src d)"
  by (auto simp: dict_contains_def key_in_dict_contents)

lemma dict_len_contents:
  assumes "dict_inv src d"
  shows "dict_len src d = int (length (dict_contents src d))"
proof (cases "cd_cleared d")
  case True
  then have "kept (source_key_visible src d) src = []"
    by (simp add: source_key_visible_def [abs_def] kept_none)
  then show ?thesis using assms True
    by (auto simp: dict_len_def dict_contents_def dict_inv_def items_of_def split: option.splits)
next
  case False
  let ?D = "items_of (cd_deleted d)"
  have D: "distinct ?D" "set ?D \<subseteq> set (map fst src)" "distinct (map fst src)"
    using assms by (auto simp: dict_inv_def keys_set)
  have "length (filter (source_key_visible src d) (map fst src)) = card (set (map fst src) - set ?D)"
    using False D(3)
    by (subst distinct_card [symmetric]) (auto simp: visible_iff keys_of_def intro!: arg_cong [where f = card])
  also have "\<dots> = length src - length ?D"
    using D by (simp add: card_Diff_subset distinct_card del: set_map)
  finally have "length (filter (source_key_visible src d) (map fst src)) = length src - length ?D" .
  moreover have "length ?D \<le> length src"
    using D by (metis card_mono distinct_card length_map List.finite_set)
  ultimately have "length (map fst (dict_contents src d)) = length src - length ?D + length (items_of (cd_added d))"
    unfolding keys_dict_contents by simp
  then show ?thesis
    using False \<open>length ?D \<le> length src\<close> by (auto simp: dict_len_def items_of_def split: option.splits)
qed

lemma map_of_dict_contents:
  assumes "dict_inv src d"
  shows "map_of (dict_contents src d) k =
    (if has_key k (cd_added d) then map_of (items_of (cd_added d)) k
     else if source_key_visible src d k
     then (case map_of (items_of (cd_updated d)) k of None \<Rightarrow> map_of src k | Some u \<Rightarrow> Some u)
     else None)"
proof -
  have "map_of (items_of (cd_added d)) k = None \<longleftrightarrow> \<not> has_key k (cd_added d)"
    by (simp add: has_key_iff key_None)
  moreover have "source_key_visible src d k \<Longrightarrow> map_of src k \<noteq> None"
    by (simp add: source_key_visible_def)
  moreover have "has_key k (cd_added d) \<Longrightarrow> \<not> source_key_visible src d k"
    using assms by (auto simp: dict_inv_def has_key_iff)
  ultimately show ?thesis
    by (cases "has_key k (cd_added d)"; cases "source_key_visible src d k")
      (auto simp: dict_contents_def map_add_def map_of_patched map_of_kept split: option.splits)
qed

lemma dict_find_contents:
  assumes "dict_inv src d"
  shows "map_option snd (dict_find src d k) = map_of (dict_contents src d) k"
proof -
  have updated: "has_key k (cd_updated d) \<Longrightarrow> source_key_visible src d k"
    using assms by (auto simp: dict_inv_def has_key_iff)
  have none: "map_of (items_of (cd_updated d)) k = None \<longleftrightarrow> \<not> has_key k (cd_updated d)"
    by (simp add: has_key_iff key_None)
  have deleted: "\<not> cd_cleared d \<and> cd_deleted d = None \<Longrightarrow> source_key_visible src d k \<longleftrightarrow> map_of src k \<noteq> None"
    by (simp add: source_key_visible_def)
  have pair: "map_option snd (map_option (Pair (x :: location)) y) = y" for x and y :: "jval option"
    by (cases y) simp_all
  show ?thesis
    unfolding map_of_dict_contents [OF assms] dict_find_def
    using updated none deleted by (auto simp: pair split: option.splits)
qed

lemma dict_set_contents:
  assumes "dict_inv src d"
  shows "dict_contents src (dict_set_cloned src k v d) = AList.update k v (dict_contents src d)"
    and "dict_inv src (dict_set_cloned src k v d)"
proof -
  have added: "has_key k (cd_added d) \<Longrightarrow> \<not> source_key_visible src d k"
    using assms by (auto simp: dict_inv_def has_key_iff)
  have "distinct (map fst (kept (source_key_visible src d) src))"
    using assms by (simp add: dict_inv_def)
  then show "dict_contents src (dict_set_cloned src k v d) = AList.update k v (dict_contents src d)"
    using added
    by (auto simp: dict_set_cloned_def dict_contents_def update_append update_patched visible_iff)
  show "dict_inv src (dict_set_cloned src k v d)"
    using assms added
    by (auto simp: dict_inv_def dict_set_cloned_def distinct_update)
qed

lemma dict_cache_set:
  assumes "dict_inv src d" and "dict_find src d k = Some (location, u)"
  shows "dict_cache location k v d = dict_set_cloned src k v d"
proof -
  have "has_key k (cd_updated d) \<Longrightarrow> source_key_visible src d k"
    using assms(1) by (auto simp: dict_inv_def has_key_iff)
  then show ?thesis
    using assms(2)
    by (auto simp: dict_find_def dict_cache_def dict_set_cloned_def source_key_visible_def
        split: if_splits option.splits)
qed

lemma dict_remove_contents:
  assumes "dict_inv src d"
  shows "k \<notin> keys_of (dict_contents src d) \<Longrightarrow> dict_remove src k d = Inl (KeyError k)"
    and "k \<in> keys_of (dict_contents src d) \<Longrightarrow> \<exists>d'. dict_remove src k d = Inr d' \<and>
      dict_contents src d' = AList.delete k (dict_contents src d) \<and> dict_inv src d' \<and> cd_source d' = cd_source d \<and>
      cd_only_scalars d' = cd_only_scalars d"
proof -
  show "k \<notin> keys_of (dict_contents src d) \<Longrightarrow> dict_remove src k d = Inl (KeyError k)"
    by (simp add: key_in_dict_contents dict_remove_def)
  assume k: "k \<in> keys_of (dict_contents src d)"
  show "\<exists>d'. dict_remove src k d = Inr d' \<and> dict_contents src d' = AList.delete k (dict_contents src d) \<and>
      dict_inv src d' \<and> cd_source d' = cd_source d \<and> cd_only_scalars d' = cd_only_scalars d"
  proof (cases "has_key k (cd_added d)")
    case True
    then have "\<not> source_key_visible src d k" using assms by (auto simp: dict_inv_def has_key_iff)
    then have "AList.delete k (patched (items_of (cd_updated d)) (kept (source_key_visible src d) src)) =
        patched (items_of (cd_updated d)) (kept (source_key_visible src d) src)"
      by (simp add: delete_absent)
    then show ?thesis using True assms
      by (auto simp: dict_remove_def dict_contents_def delete_append dict_inv_def distinct_delete)
  next
    case False
    then have visible: "source_key_visible src d k" using k by (simp add: key_in_dict_contents)
    let ?d = "d\<lparr>cd_updated := (case cd_updated d of None \<Rightarrow> None | Some U \<Rightarrow> or_none (AList.delete k U)),
        cd_deleted := Some (items_of (cd_deleted d) @ [k])\<rparr>"
    have U: "items_of (case cd_updated d of None \<Rightarrow> None | Some U \<Rightarrow> or_none (AList.delete k U)) =
        AList.delete k (items_of (cd_updated d))"
      by (simp split: option.splits)
    have visible': "source_key_visible src ?d = (\<lambda>k'. source_key_visible src d k' \<and> k' \<noteq> k)"
      by (auto simp: visible_iff)
    have "dict_contents src ?d = AList.delete k (dict_contents src d)"
      using False
      by (simp add: dict_contents_def visible' U delete_append delete_patched delete_absent has_key_iff)
    moreover have "dict_inv src ?d"
      using assms visible False
      by (auto simp: dict_inv_def visible' U distinct_delete has_key_iff visible_iff)
    ultimately show ?thesis using False visible by (simp add: dict_remove_def)
  qed
qed

lemma dict_cleared_contents: "dict_contents src (dict_cleared d) = []"
proof -
  have "source_key_visible src (dict_cleared d) = (\<lambda>_. False)"
    by (simp add: source_key_visible_def dict_cleared_def fun_eq_iff)
  then have "kept (source_key_visible src (dict_cleared d)) src = []" by (simp only: kept_none)
  then show ?thesis by (simp add: dict_contents_def) (simp add: dict_cleared_def)
qed

lemma dict_cleared_inv: "dict_inv src d \<Longrightarrow> dict_inv src (dict_cleared d)"
  by (simp add: dict_inv_def dict_cleared_def)

lemma length_list_contents: "list_len src l = length (list_contents src l)"
  by (simp add: list_len_def list_contents_def)

lemma nth_list_contents:
  "i < list_len src l \<Longrightarrow> list_contents src l ! i = list_item src l i"
  by (auto simp: list_len_def list_contents_def list_item_def)

lemma list_put_contents:
  assumes "list_inv src l" and "i < list_len src l"
  shows "list_contents src (list_put i v l) = (list_contents src l)[i := v]"
    and "list_inv src (list_put i v l)"
  using assms
  by (auto simp: list_contents_def list_put_def list_inv_def list_len_def list_item_def update_conv' distinct_update
      nth_list_update intro!: nth_equalityI)

lemma fold_item:
  "distinct (map fst kvs) \<Longrightarrow> i < length xs \<Longrightarrow>
   fold (\<lambda>(i, v) xs. xs[i := v]) kvs xs ! i = (case map_of kvs i of None \<Rightarrow> xs ! i | Some v \<Rightarrow> v)"
proof (induction kvs arbitrary: xs)
  case (Cons kv kvs)
  obtain j v where kv: "kv = (j, v)" by fastforce
  with Cons.prems(1) have "j \<notin> keys_of kvs" by (simp add: keys_set)
  then show ?case using Cons kv by (auto simp: key_None [symmetric] nth_list_update split: option.splits)
qed simp

lemma length_fold_item [simp]: "length (fold (\<lambda>(i, v) xs. xs[i := v]) kvs xs) = length xs"
  by (induction kvs arbitrary: xs) auto

lemma list_materialize_contents:
  assumes "list_inv src l"
  shows "list_contents src (list_materialize src l) = list_contents src l"
    and "cl_items (list_materialize src l) = list_contents src l" and "cl_source (list_materialize src l) = None"
proof -
  show source: "cl_source (list_materialize src l) = None" by (simp add: list_materialize_def)
  show items: "cl_items (list_materialize src l) = list_contents src l"
    using assms
    by (auto simp: list_materialize_def list_contents_def list_inv_def list_item_def fold_item intro!: nth_equalityI)
  show "list_contents src (list_materialize src l) = list_contents src l"
    using source items by (simp add: list_contents_def)
qed

lemma list_edit_contents:
  assumes "list_inv src l"
  shows "list_contents src (list_edit f src l) = f (list_contents src l)" and "list_inv src (list_edit f src l)"
  using list_materialize_contents [OF assms]
  by (simp_all add: list_edit_def Let_def list_contents_def list_inv_def)

lemma list_cleared_contents: "list_contents src (list_cleared l) = []" "list_inv src (list_cleared l)"
  by (simp_all add: list_cleared_def list_contents_def list_inv_def)

end
