(* ===== verification/JsonObjects.thy ===== *)
theory JsonObjects
  imports JsonViews
begin

text \<open>
  The copy-on-write views of theory JsonViews in the store. A call on a view is the call on an ordinary
  dict or list, on objects that have the identities of the plain containers, whatever views exist of its
  parts; no plain container is ever written. The owner's table is keyed by \<open>id\<close>; section Collection
  shows what happens when a container is collected and its identity is used again.
\<close>

section \<open>Objects and their identities\<close>

text \<open>
  A view and the container under it are one object of the program, known by the address of the
  container. \<open>object\<close> is the object as the program sees it: an ordinary container of such identities.
\<close>

fun map_value :: "(nat \<Rightarrow> nat) \<Rightarrow> jval \<Rightarrow> jval" where
  "map_value f (Ref a) = Ref (f a)"
| "map_value f (Atom x) = Atom x"

fun map_container :: "(jval \<Rightarrow> jval) \<Rightarrow> container \<Rightarrow> container" where
  "map_container f (JDict d) = JDict (map (\<lambda>(k, v). (k, f v)) d)"
| "map_container f (JList vs) = JList (map f vs)"

definition origin :: "view_state \<Rightarrow> nat \<Rightarrow> nat" where
  "origin s a = (case map_of (map prod.swap (containers s)) a of None \<Rightarrow> a | Some p \<Rightarrow> p)"

abbreviation ident :: "view_state \<Rightarrow> jval \<Rightarrow> jval" where
  "ident s \<equiv> map_value (origin s)"

fun view_contents :: "view_state \<Rightarrow> cell \<Rightarrow> container" where
  "view_contents s (Plain c) = c"
| "view_contents s (DictView d) = JDict (dict_contents (source_items s (cd_source d)) d)"
| "view_contents s (ListView l) = JList (list_contents (source_list s (cl_source l)) l)"

definition views :: "view_state \<Rightarrow> nat set" where
  "views s = snd ` set (containers s)"

definition object :: "view_state \<Rightarrow> nat \<Rightarrow> container option" where
  "object s p =
     (if p \<in> views s then None
      else map_option (map_container (ident s) \<circ> view_contents s)
        (cell_at s (case map_of (containers s) p of None \<Rightarrow> p | Some w \<Rightarrow> w)))"

fun container_values :: "container \<Rightarrow> jval list" where
  "container_values (JDict d) = map snd d"
| "container_values (JList vs) = vs"

fun cell_values :: "cell \<Rightarrow> jval list" where
  "cell_values (Plain c) = container_values c"
| "cell_values (DictView d) = map snd (items_of (cd_updated d) @ items_of (cd_added d))"
| "cell_values (ListView l) = map snd (items_of (cl_wrapped l)) @ cl_items l"

fun live :: "view_state \<Rightarrow> jval \<Rightarrow> bool" where
  "live s (Ref a) = (cell_at s a \<noteq> None)"
| "live s (Atom _) = True"

fun plain :: "view_state \<Rightarrow> jval \<Rightarrow> bool" where
  "plain s (Ref a) = (\<exists>c. cell_at s a = Some (Plain c))"
| "plain s (Atom _) = True"

fun keys_distinct :: "container \<Rightarrow> bool" where
  "keys_distinct (JDict d) = distinct (map fst d)"
| "keys_distinct (JList _) = True"

fun view_over :: "nat \<Rightarrow> container \<Rightarrow> cell \<Rightarrow> bool" where
  "view_over p (JDict src) (DictView d) =
     (cd_source d = p \<and> dict_inv src d \<and> (\<forall>b. cd_only_scalars d = Some b \<longrightarrow> b = only_scalars (JDict src)))"
| "view_over p (JList src) (ListView l) =
     (cl_source l \<in> {None, Some p} \<and> list_inv src l \<and>
      (\<forall>b. cl_only_scalars l = Some b \<longrightarrow> b = only_scalars (JList src)))"
| "view_over p _ _ = False"

text \<open>
  The invariant of an owner. In particular every container that has a view is still there, which the
  owner does not see to once the view of a list has its own items.
\<close>

definition views_ok :: "view_state \<Rightarrow> bool" where
  "views_ok s \<longleftrightarrow>
     distinct (map fst (containers s)) \<and> distinct (map snd (containers s)) \<and>
     (\<forall>p w. map_of (containers s) p = Some w \<longrightarrow>
        (\<exists>c v. cell_at s p = Some (Plain c) \<and> cell_at s w = Some v \<and> view_over p c v)) \<and>
     (\<forall>a v. cell_at s a = Some v \<longrightarrow> a \<in> views s \<or> (\<exists>c. v = Plain c)) \<and>
     (\<forall>a c. cell_at s a = Some (Plain c) \<longrightarrow> keys_distinct c \<and> list_all (plain s) (container_values c)) \<and>
     (\<forall>a v. cell_at s a = Some v \<longrightarrow> list_all (live s) (cell_values v)) \<and>
     (\<forall>a b. map_of (scalar_map s) a = Some b \<longrightarrow> (\<exists>c. cell_at s a = Some (Plain c) \<and> b = only_scalars c))"

definition extends :: "view_state \<Rightarrow> view_state \<Rightarrow> bool" where
  "extends s s' \<longleftrightarrow> (\<forall>a c. cell_at s a = Some c \<longrightarrow> cell_at s' a = Some c)"

lemma new_cellE:
  assumes "new_cell c s = (a, s')"
  shows "cell_at s a = None" and "cell_at s' = (cell_at s)(a := Some c)" and "containers s' = containers s"
    and "scalar_map s' = scalar_map s" and "notified s' = notified s"
proof -
  have free: "cell_at s (free_address s) = None"
    by (auto simp: free_address_def cell_at_def split: option.splits dest: index_where_Some)
  have le: "free_address s \<le> length (cells s)"
    by (auto simp: free_address_def split: option.splits dest: index_where_Some)
  show "cell_at s a = None" using assms free by (simp add: new_cell_def Let_def)
  show "cell_at s' = (cell_at s)(a := Some c)"
    using assms le
    by (auto simp: new_cell_def Let_def put_cell_def cell_at_def fun_eq_iff nth_append nth_list_update
        split: if_splits)
  show "containers s' = containers s" "scalar_map s' = scalar_map s" "notified s' = notified s"
    using assms by (auto simp: new_cell_def Let_def put_cell_def)
qed

lemma cell_at_update [simp]:
  "cell_at (s\<lparr>containers := K\<rparr>) = cell_at s" "cell_at (s\<lparr>scalar_map := M\<rparr>) = cell_at s"
  by (simp_all add: cell_at_def fun_eq_iff)

lemma put_cell_simps [simp]:
  "containers (put_cell a c s) = containers s" "scalar_map (put_cell a c s) = scalar_map s"
  "notified (put_cell a c s) = notified s"
  by (simp_all add: put_cell_def)

lemma cell_put: "cell_at s a \<noteq> None \<Longrightarrow> cell_at (put_cell a c s) = (cell_at s)(a := Some c)"
  by (auto simp: put_cell_def cell_at_def fun_eq_iff nth_list_update split: if_splits)

lemma changed_simps [simp]:
  "cell_at (changed s) = cell_at s" "containers (changed s) = containers s" "scalar_map (changed s) = scalar_map s"
  "notified (changed s) = Suc (notified s)"
  by (simp_all add: changed_def cell_at_def fun_eq_iff)

lemma source_items_eq:
  "source_items s a = (if \<exists>d. cell_at s a = Some (Plain (JDict d))
     then THE d. cell_at s a = Some (Plain (JDict d)) else [])"
  by (auto simp: source_items_def split: option.splits cell.splits container.splits)

lemma source_list_eq:
  "source_list s a = (if \<exists>p vs. a = Some p \<and> cell_at s p = Some (Plain (JList vs))
     then THE vs. cell_at s (the a) = Some (Plain (JList vs)) else [])"
  by (auto simp: source_list_def split: option.splits cell.splits container.splits)

lemma same_sources:
  assumes "\<And>a c. cell_at s' a = Some (Plain c) \<longleftrightarrow> cell_at s a = Some (Plain c)"
  shows "source_items s' = source_items s" "source_list s' = source_list s"
  by (rule ext, simp add: source_items_eq source_list_eq assms cong: conj_cong)+

text \<open>What only depends on the cells and the table.\<close>

lemma same_state:
  assumes "cell_at s' = cell_at s" "containers s' = containers s" "scalar_map s' = scalar_map s"
  shows "object s' = object s" "origin s' = origin s" "views_ok s' = views_ok s" "source_items s' = source_items s"
    "source_list s' = source_list s"
proof -
  show origin: "origin s' = origin s" using assms by (simp add: origin_def fun_eq_iff)
  show si: "source_items s' = source_items s" "source_list s' = source_list s"
    by (rule same_sources, simp only: assms(1))+
  have vc: "view_contents s' = view_contents s"
  proof
    show "view_contents s' c = view_contents s c" for c using si by (cases c) simp_all
  qed
  have views: "views s' = views s" using assms by (simp add: views_def)
  show "object s' = object s"
    unfolding object_def assms(1,2) views origin vc by simp
  have "live s' = live s" "plain s' = plain s"
    by (rule ext, rename_tac v, case_tac v, simp_all add: assms)+
  then show "views_ok s' = views_ok s" using assms views by (simp add: views_ok_def)
qed

lemma views_okD:
  assumes "views_ok s"
  shows "distinct (map fst (containers s))" "distinct (map snd (containers s))"
    "map_of (containers s) p = Some w \<Longrightarrow>
      \<exists>c v. cell_at s p = Some (Plain c) \<and> cell_at s w = Some v \<and> view_over p c v"
    "cell_at s a = Some v \<Longrightarrow> a \<in> views s \<or> (\<exists>c. v = Plain c)"
    "cell_at s a = Some (Plain c) \<Longrightarrow> keys_distinct c \<and> list_all (plain s) (container_values c)"
    "cell_at s a = Some v \<Longrightarrow> list_all (live s) (cell_values v)"
    "map_of (scalar_map s) a = Some b \<Longrightarrow> \<exists>c. cell_at s a = Some (Plain c) \<and> b = only_scalars c"
  using assms unfolding views_ok_def by blast+

lemma views_set: "views s = {w. \<exists>p. (p, w) \<in> set (containers s)}"
  by (force simp: views_def)

lemma views_iff: "views_ok s \<Longrightarrow> w \<in> views s \<longleftrightarrow> (\<exists>p. map_of (containers s) p = Some w)"
  using map_of_eq_Some_iff [OF views_okD(1), of s] by (simp add: views_set)

lemma swap_map_of:
  assumes "distinct (map snd K)"
  shows "map_of (map prod.swap K) w = Some p \<longleftrightarrow> (p, w) \<in> set K"
proof -
  have "distinct (map fst (map prod.swap K))" using assms by (simp add: comp_def)
  then have "map_of (map prod.swap K) w = Some p \<longleftrightarrow> (w, p) \<in> set (map prod.swap K)"
    by (rule map_of_eq_Some_iff)
  also have "\<dots> \<longleftrightarrow> (p, w) \<in> set K" by force
  finally show ?thesis .
qed

lemma origin_view:
  assumes "views_ok s" "map_of (containers s) p = Some w"
  shows "origin s w = p"
proof -
  have "(p, w) \<in> set (containers s)" using assms(2) by (rule map_of_SomeD)
  then have "map_of (map prod.swap (containers s)) w = Some p"
    using swap_map_of [OF views_okD(2) [OF assms(1)]] by blast
  then show ?thesis by (simp add: origin_def)
qed

lemma origin_other: "a \<notin> views s \<Longrightarrow> origin s a = a"
proof -
  assume a: "a \<notin> views s"
  then have "map_of (map prod.swap (containers s)) a = None"
    by (force simp: map_of_eq_None_iff views_set)
  then show ?thesis by (simp add: origin_def)
qed

lemma plain_not_view:
  assumes "views_ok s" "cell_at s a = Some (Plain c)"
  shows "a \<notin> views s"
proof
  assume "a \<in> views s"
  then obtain p where "map_of (containers s) p = Some a" using views_iff [OF assms(1)] by blast
  then obtain c' v where "cell_at s a = Some v" "view_over p c' v"
    using views_okD(3) [OF assms(1)] by blast
  with assms(2) show False by (cases c') auto
qed


text \<open>Changing the view of one container changes that object only.\<close>

lemma put_view:
  assumes ok: "views_ok s" and pw: "map_of (containers s) p = Some w" and p: "cell_at s p = Some (Plain c)"
    and over: "view_over p c v" and refs: "list_all (live s) (cell_values v)"
  defines "s' \<equiv> put_cell w v s"
  shows "views_ok s'" and "object s' = (object s)(p := Some (map_container (ident s) (view_contents s v)))"
    and "origin s' = origin s" and "cell_at s' = (cell_at s)(w := Some v)"
proof -
  obtain v0 where w: "cell_at s w = Some v0" "view_over p c v0"
    using views_okD(3) [OF ok pw] p by auto
  show cells: "cell_at s' = (cell_at s)(w := Some v)" using w(1) by (simp add: s'_def cell_put)
  have not_plain: "cell_at s w \<noteq> Some (Plain d)" "v \<noteq> Plain d" for d
    using w(2) over w(1) by (cases c; auto)+
  have same: "containers s' = containers s" "scalar_map s' = scalar_map s" by (simp_all add: s'_def)
  show origin: "origin s' = origin s" using same by (simp add: origin_def fun_eq_iff)
  have views: "views s' = views s" using same by (simp add: views_def)
  have plain_same: "cell_at s' a = Some (Plain d) \<longleftrightarrow> cell_at s a = Some (Plain d)" for a d
    using cells not_plain by auto
  note sources = same_sources [OF plain_same]
  have contents: "view_contents s' = view_contents s"
  proof
    show "view_contents s' u = view_contents s u" for u using sources by (cases u) simp_all
  qed
  have live_same: "live s' = live s"
  proof
    show "live s' u = live s u" for u using cells w(1) by (cases u) auto
  qed
  have plain_refs: "plain s' = plain s"
  proof
    show "plain s' u = plain s u" for u using plain_same by (cases u) auto
  qed
  show "views_ok s'"
    unfolding views_ok_def same views live_same plain_refs plain_same
  proof (intro conjI allI impI)
    show "distinct (map fst (containers s))" "distinct (map snd (containers s))"
      using views_okD(1,2) [OF ok] by blast+
    show "\<exists>d u. cell_at s q = Some (Plain d) \<and> cell_at s' x = Some u \<and> view_over q d u"
      if "map_of (containers s) q = Some x" for q x
    proof (cases "x = w")
      case True
      then have "q = p" using origin_view [OF ok] that pw by blast
      then show ?thesis using True p over cells by auto
    next
      case False
      then show ?thesis using views_okD(3) [OF ok that] cells by auto
    qed
    show "a \<in> views s \<or> (\<exists>d. u = Plain d)" if "cell_at s' a = Some u" for a u
      using that cells views_okD(4) [OF ok] views_iff [OF ok] pw by (cases "a = w") auto
    show "list_all (live s) (cell_values u)" if "cell_at s' a = Some u" for a u
      using that cells views_okD(6) [OF ok] refs by (cases "a = w") auto
    show "keys_distinct d" "list_all (plain s) (container_values d)" if "cell_at s a = Some (Plain d)" for a d
      using views_okD(5) [OF ok that] by blast+
    show "\<exists>c. cell_at s a = Some (Plain c) \<and> b = only_scalars c" if "map_of (scalar_map s) a = Some b" for a b
      by (rule views_okD(7) [OF ok that])
  qed
  have p_view: "p \<notin> views s" by (rule plain_not_view [OF ok p])
  show "object s' = (object s)(p := Some (map_container (ident s) (view_contents s v)))"
  proof
    fix q
    show "object s' q = ((object s)(p := Some (map_container (ident s) (view_contents s v)))) q"
    proof (cases "q = p")
      case True
      then show ?thesis using pw p_view cells by (simp add: object_def views same contents origin)
    next
      case False
      have "(case map_of (containers s) q of None \<Rightarrow> q | Some w \<Rightarrow> w) \<noteq> w" if "q \<notin> views s"
        using that False origin_view [OF ok pw] origin_view [OF ok, of q w] views_iff [OF ok, of w] pw
        by (auto split: option.splits)
      then show ?thesis using False cells by (auto simp: object_def views same contents origin)
    qed
  qed
qed


text \<open>A new plain container is a new object; the objects that exist are unchanged.\<close>

lemma ident_plain: "views_ok s \<Longrightarrow> plain s v \<Longrightarrow> ident s v = v"
  by (cases v) (auto simp: origin_other plain_not_view)

lemma map_container_id: "list_all (\<lambda>v. f v = v) (container_values c) \<Longrightarrow> map_container f c = c"
  by (cases c) (auto simp: list_all_iff intro!: map_idI)

lemma map_container_cong: "list_all (\<lambda>v. f v = g v) (container_values c) \<Longrightarrow> map_container f c = map_container g c"
  by (cases c) (auto simp: list_all_iff)

lemma extends_refs:
  assumes "extends s s'"
  shows "live s v \<Longrightarrow> live s' v" "plain s v \<Longrightarrow> plain s' v"
  using assms by (cases v; auto simp: extends_def)+

lemma extends_sources:
  assumes "extends s s'" "views_ok s" "map_of (containers s) p = Some w" "cell_at s w = Some v"
  shows "view_contents s' v = view_contents s v"
proof -
  obtain c where "cell_at s p = Some (Plain c)" "view_over p c v"
    using views_okD(3) [OF assms(2,3)] assms(4) by auto
  moreover have "cell_at s' p = Some (Plain c)" using calculation(1) assms(1) by (simp add: extends_def)
  ultimately show ?thesis
    by (cases c; cases v) (auto simp: source_items_def source_list_def list_contents_def)
qed

lemma extends_trans: "extends s s' \<Longrightarrow> extends s' s'' \<Longrightarrow> extends s s''"
  by (auto simp: extends_def)

lemma patched_values: "v \<in> snd ` set (patched U (kept P xs)) \<Longrightarrow> v \<in> snd ` set U \<or> v \<in> snd ` set xs"
proof (induction xs)
  case (Cons x xs)
  obtain k u where x: "x = (k, u)" by fastforce
  have "(case map_of U k of None \<Rightarrow> u | Some u \<Rightarrow> u) \<in> insert u (snd ` set U)"
    by (auto split: option.splits dest: map_of_SomeD intro: rev_image_eqI)
  then show ?case using Cons x by (auto split: if_splits)
qed simp

lemma dict_contents_values:
  "v \<in> snd ` set (dict_contents src d) \<Longrightarrow>
   v \<in> set (cell_values (DictView d)) \<or> v \<in> snd ` set src"
  using patched_values [of v "items_of (cd_updated d)" "source_key_visible src d" src]
  by (simp add: dict_contents_def image_Un) blast

lemma list_contents_values:
  assumes "v \<in> set (list_contents src l)"
  shows "v \<in> set (cell_values (ListView l)) \<or> v \<in> set src"
proof (cases "cl_source l")
  case None
  then show ?thesis using assms by (simp add: list_contents_def)
next
  case (Some p)
  then obtain i where "i < length src" "v = list_item src l i"
    using assms by (auto simp: list_contents_def)
  then show ?thesis using Some
    by (auto simp: list_item_def split: option.splits dest: map_of_SomeD intro: rev_image_eqI)
qed

lemma source_cases:
  "source_items s a = [] \<or> cell_at s a = Some (Plain (JDict (source_items s a)))"
  "source_list s b = [] \<or> (\<exists>p. b = Some p \<and> cell_at s p = Some (Plain (JList (source_list s b))))"
  by (auto simp: source_items_def source_list_def split: option.splits cell.splits container.splits)

lemma source_live:
  assumes "\<And>a c. cell_at s a = Some (Plain c) \<Longrightarrow> list_all P (container_values c)"
  shows "list_all P (map snd (source_items s a)) \<and> list_all P (source_list s b)"
  using source_cases(1) [of s a] source_cases(2) [of s b]
proof (elim disjE exE conjE)
qed (auto dest!: assms)

lemma view_live:
  assumes "views_ok s" "cell_at s a = Some v"
  shows "list_all (live s) (container_values (view_contents s v))"
proof -
  have plain_live: "list_all (live s) (container_values c)" if "cell_at s b = Some (Plain c)" for b c
    using views_okD(6) [OF assms(1) that] by simp
  have sources: "list_all (live s) (map snd (source_items s a)) \<and> list_all (live s) (source_list s b)" for a b
    by (rule source_live) (rule plain_live)
  have own: "list_all (live s) (cell_values v)" by (rule views_okD(6) [OF assms])
  show ?thesis
  proof (cases v)
    case (Plain c)
    then show ?thesis using own by simp
  next
    case (DictView d)
    have "live s u" if u: "u \<in> snd ` set (dict_contents (source_items s (cd_source d)) d)" for u
      using dict_contents_values [OF u] own sources [of "cd_source d"] DictView
      unfolding list_all_iff set_map by blast
    then show ?thesis using DictView by (simp add: list_all_iff)
  next
    case (ListView l)
    have "live s u" if u: "u \<in> set (list_contents (source_list s (cl_source l)) l)" for u
      using list_contents_values [OF u] own sources [of _ "cl_source l"] ListView
      unfolding list_all_iff by blast
    then show ?thesis using ListView by (simp add: list_all_iff)
  qed
qed

lemma new_plain:
  assumes ok: "views_ok s" and new: "new_cell (Plain c) s = (a, s')"
    and c: "keys_distinct c" "list_all (plain s) (container_values c)"
  shows "views_ok s'" "extends s s'" "origin s' = origin s" "object s a = None"
    "object s' = (object s)(a := Some c)" "cell_at s' a = Some (Plain c)" "containers s' = containers s"
    "notified s' = notified s" "scalar_map s' = scalar_map s"
proof -
  note new = new_cellE [OF new]
  show same: "containers s' = containers s" "scalar_map s' = scalar_map s" "notified s' = notified s"
    by (fact new(3), fact new(4), fact new(5))
  show ext: "extends s s'" using new(1,2) by (auto simp: extends_def)
  show origin: "origin s' = origin s" using same by (simp add: origin_def fun_eq_iff)
  show cell: "cell_at s' a = Some (Plain c)" using new(2) by simp
  have views: "views s' = views s" using same by (simp add: views_def)
  have a: "a \<notin> views s" "map_of (containers s) q \<noteq> Some a" "map_of (containers s) a = None" for q
  proof -
    have "map_of (containers s) q \<noteq> Some a" for q using views_okD(3) [OF ok, of q a] new(1) by auto
    then show "map_of (containers s) q \<noteq> Some a" "a \<notin> views s" using views_iff [OF ok] by auto
    show "map_of (containers s) a = None"
      using views_okD(3) [OF ok, of a] new(1) by (cases "map_of (containers s) a") auto
  qed
  note refs = extends_refs [OF ext]
  have live: "list_all (live s) vs \<Longrightarrow> list_all (live s') vs" for vs using refs by (auto simp: list_all_iff)
  have plain: "list_all (plain s) vs \<Longrightarrow> list_all (plain s') vs" for vs using refs by (auto simp: list_all_iff)
  have plain_live: "list_all (plain s) vs \<Longrightarrow> list_all (live s) vs" for vs
  proof -
    have "plain s v \<Longrightarrow> live s v" for v by (cases v) auto
    then show "list_all (plain s) vs \<Longrightarrow> list_all (live s) vs" by (auto simp: list_all_iff)
  qed
  show "views_ok s'"
    unfolding views_ok_def same views
  proof (intro conjI allI impI)
    show "distinct (map fst (containers s))" "distinct (map snd (containers s))"
      using views_okD(1,2) [OF ok] by blast+
    show "\<exists>d u. cell_at s' q = Some (Plain d) \<and> cell_at s' x = Some u \<and> view_over q d u"
      if "map_of (containers s) q = Some x" for q x
      using views_okD(3) [OF ok that] ext unfolding extends_def by blast
    show "b \<in> views s \<or> (\<exists>d. u = Plain d)" if "cell_at s' b = Some u" for b u
      using that new(2) views_okD(4) [OF ok, of b u] by (cases "b = a") auto
    show "keys_distinct d" "list_all (plain s') (container_values d)" if "cell_at s' b = Some (Plain d)" for b d
      using that new(2) views_okD(5) [OF ok, of b d] c plain by (cases "b = a"; auto)+
    show "list_all (live s') (cell_values u)" if "cell_at s' b = Some u" for b u
    proof (cases "b = a")
      case True
      then have "u = Plain c" using that new(2) by simp
      then show ?thesis using live [OF plain_live [OF c(2)]] by simp
    next
      case False
      then show ?thesis using that new(2) live [OF views_okD(6) [OF ok]] by simp
    qed
    show "\<exists>d. cell_at s' b = Some (Plain d) \<and> x = only_scalars d" if "map_of (scalar_map s) b = Some x" for b x
      using views_okD(7) [OF ok that] ext unfolding extends_def by blast
  qed
  show "object s a = None" using a new(1) by (simp add: object_def)
  show "object s' = (object s)(a := Some c)"
  proof
    fix q
    show "object s' q = ((object s)(a := Some c)) q"
    proof (cases "q = a")
      case True
      have "map_container (ident s) c = c"
        using c(2) ident_plain [OF ok] by (intro map_container_id) (auto simp: list_all_iff)
      then show ?thesis using True a cell by (simp add: object_def same views origin)
    next
      case False
      let ?x = "case map_of (containers s) q of None \<Rightarrow> q | Some w \<Rightarrow> w"
      have "?x \<noteq> a" using False a by (auto split: option.splits)
      then have x: "cell_at s' ?x = cell_at s ?x" using new(2) by simp
      have "view_contents s' u = view_contents s u" if "cell_at s ?x = Some u" "q \<notin> views s" for u
        using views_okD(4) [OF ok that(1)]
      proof
        assume "?x \<in> views s"
        then obtain p where "map_of (containers s) p = Some ?x" using views_iff [OF ok] by blast
        then show ?thesis using extends_sources [OF ext ok _ that(1)] by blast
      qed auto
      then show ?thesis using False x unfolding object_def same views origin
        by (cases "cell_at s ?x") (auto simp: x)
    qed
  qed
qed


text \<open>Wrapping a value makes a view where there is none, and changes no object.\<close>

lemma new_view_contents:
  assumes "cell_at s a = Some (Plain c)"
  shows "view_contents s (new_view a b c) = c"
proof -
  have *: "patched [] (kept (\<lambda>k. k \<in> keys_of d) xs) = xs" if "keys_of xs \<subseteq> keys_of d" for d xs :: "(string \<times> jval) list"
    using that by (induction xs) auto
  show "view_contents s (new_view a b c) = c"
  proof (cases c)
    case (JDict d)
    have "source_key_visible d (new_dict_view a b) = (\<lambda>k. k \<in> keys_of d)"
      by (simp add: visible_iff fun_eq_iff new_dict_view_def)
    then show ?thesis using JDict assms * [of d d]
      by (simp add: dict_contents_def source_items_def) (simp add: new_dict_view_def)
  next
    case (JList vs)
    then show ?thesis using assms
      by (auto simp: list_contents_def source_list_def new_list_view_def list_item_def intro!: nth_equalityI)
  qed
qed

lemma new_view_over:
  "keys_distinct c \<Longrightarrow> (\<And>x. b = Some x \<Longrightarrow> x = only_scalars c) \<Longrightarrow> view_over a c (new_view a b c)"
  by (cases c) (auto simp: dict_inv_def list_inv_def new_dict_view_def new_list_view_def)

lemma new_view_live: "list_all (live s) (cell_values (new_view a b c))"
  by (cases c) (simp_all add: new_dict_view_def new_list_view_def)

lemma add_view:
  assumes ok: "views_ok s" and a: "cell_at s a = Some (Plain c)" and none: "map_of (containers s) a = None"
    and new: "new_cell (new_view a (map_of (scalar_map s) a) c) s = (n, s1)"
  defines "s' \<equiv> s1\<lparr>containers := AList.update a n (containers s1)\<rparr>"
  shows "views_ok s'" "extends s s'" "object s' = object s" "notified s' = notified s"
    "\<And>v. live s v \<Longrightarrow> ident s' v = ident s v" "ident s' (Ref n) = Ref a" "map_of (containers s') a = Some n"
    "\<And>p w. map_of (containers s) p = Some w \<Longrightarrow> map_of (containers s') p = Some w"
proof -
  let ?v = "new_view a (map_of (scalar_map s) a) c"
  note new = new_cellE [OF new]
  have cells: "cell_at s' = (cell_at s)(n := Some ?v)" using new(2) by (simp add: s'_def)
  have K: "containers s' = containers s @ [(a, n)]"
  proof -
    have "AList.update a n xs = xs @ [(a, n)]" if "map_of xs a = None" for xs
      using that by (induction xs) (auto split: if_splits)
    then show ?thesis using none by (simp add: s'_def new(3))
  qed
  have M: "scalar_map s' = scalar_map s" by (simp add: s'_def new(4))
  show "notified s' = notified s" by (simp add: s'_def new(5))
  show ext: "extends s s'" using new(1) cells by (auto simp: extends_def)
  have n: "map_of (containers s) q \<noteq> Some n" "n \<notin> views s" "n \<noteq> a" "map_of (containers s) n = None" for q
  proof -
    have *: "map_of (containers s) q \<noteq> Some n" for q using views_okD(3) [OF ok, of q n] new(1) by auto
    then show "map_of (containers s) q \<noteq> Some n" "n \<notin> views s" using views_iff [OF ok] by auto
    show "n \<noteq> a" using new(1) a by auto
    show "map_of (containers s) n = None"
      using views_okD(3) [OF ok, of n] new(1) by (cases "map_of (containers s) n") auto
  qed
  have views: "views s' = insert n (views s)" by (simp add: views_def K)
  have a_view: "a \<notin> views s" by (rule plain_not_view [OF ok a])
  have map: "map_of (containers s') q = (if q = a then Some n else map_of (containers s) q)" for q
    using none by (simp add: K map_add_def split: option.splits)
  then show "map_of (containers s') a = Some n"
    "\<And>p w. map_of (containers s) p = Some w \<Longrightarrow> map_of (containers s') p = Some w" using none by auto
  have only: "x = only_scalars c" if "map_of (scalar_map s) a = Some x" for x
    using views_okD(7) [OF ok that] a by auto
  have plain_cells: "cell_at s' q = Some (Plain d) \<longleftrightarrow> cell_at s q = Some (Plain d)" for q d
    using cells new(1) by (cases c) auto
  note refs = extends_refs [OF ext]
  have live: "list_all (live s) vs \<Longrightarrow> list_all (live s') vs" for vs using refs by (auto simp: list_all_iff)
  have plain: "list_all (plain s) vs \<Longrightarrow> list_all (plain s') vs" for vs using refs by (auto simp: list_all_iff)
  show ok': "views_ok s'"
    unfolding views_ok_def views M plain_cells
  proof (intro conjI allI impI)
    show "distinct (map fst (containers s'))"
      using views_okD(1) [OF ok] none by (auto simp: K map_of_eq_None_iff)
    show "distinct (map snd (containers s'))"
      using views_okD(2) [OF ok] n(2) by (auto simp: K views_def)
    show "\<exists>d u. cell_at s q = Some (Plain d) \<and> cell_at s' x = Some u \<and> view_over q d u"
      if "map_of (containers s') q = Some x" for q x
    proof (cases "q = a")
      case True
      then have "x = n" using that map by simp
      then show ?thesis using True a cells new_view_over [OF _ only] views_okD(5) [OF ok a] by auto
    next
      case False
      then have "map_of (containers s) q = Some x" using that map by simp
      from views_okD(3) [OF ok this] show ?thesis using ext unfolding extends_def by blast
    qed
    show "b \<in> insert n (views s) \<or> (\<exists>d. u = Plain d)" if "cell_at s' b = Some u" for b u
      using that cells views_okD(4) [OF ok, of b u] by (cases "b = n") auto
    show "keys_distinct d" "list_all (plain s') (container_values d)" if "cell_at s b = Some (Plain d)" for b d
      using views_okD(5) [OF ok that] plain by blast+
    show "list_all (live s') (cell_values u)" if "cell_at s' b = Some u" for b u
      using that cells live [OF new_view_live] live [OF views_okD(6) [OF ok, of b u]] by (cases "b = n") auto
    show "\<exists>d. cell_at s b = Some (Plain d) \<and> x = only_scalars d" if "map_of (scalar_map s) b = Some x" for b x
      by (rule views_okD(7) [OF ok that])
  qed
  show ident_n: "ident s' (Ref n) = Ref a" using origin_view [OF ok', of a n] map by simp
  have origin: "origin s' b = origin s b" if "cell_at s b \<noteq> None" for b
  proof (cases "b \<in> views s")
    case True
    then obtain p where p: "map_of (containers s) p = Some b" using views_iff [OF ok] by blast
    then have p': "map_of (containers s') p = Some b" using map none by auto
    show ?thesis using origin_view [OF ok' p'] origin_view [OF ok p] by simp
  next
    case False
    moreover have "b \<noteq> n" using that new(1) by auto
    ultimately show ?thesis using origin_other [of b s] origin_other [of b s'] views by simp
  qed
  then show ident: "\<And>v. live s v \<Longrightarrow> ident s' v = ident s v"
    by (rename_tac v, case_tac v) auto
  show "object s' = object s"
  proof
    fix q
    show "object s' q = object s q"
    proof (cases "q = a")
      case True
      have "view_contents s' ?v = c" using cells a n(3) by (intro new_view_contents) simp
      moreover have "map_container (ident s') c = map_container (ident s) c"
        using ident views_okD(6) [OF ok a] by (intro map_container_cong) (auto simp: list_all_iff)
      ultimately show ?thesis using True a_view a cells n none map by (simp add: object_def views)
    next
      case False
      let ?x = "case map_of (containers s) q of None \<Rightarrow> q | Some w \<Rightarrow> w"
      show ?thesis
      proof (cases "q = n")
        case True
        then show ?thesis using n new(1) by (simp add: object_def views)
      next
        case q: False
        have "?x \<noteq> n" using q n by (auto split: option.splits)
        then have x: "cell_at s' ?x = cell_at s ?x" using cells by simp
        have same: "map_container (ident s') (view_contents s' u) = map_container (ident s) (view_contents s u)"
          if u: "cell_at s ?x = Some u" for u
        proof -
          have "view_contents s' u = view_contents s u"
            using views_okD(4) [OF ok u]
          proof
            assume "?x \<in> views s"
            then obtain p where "map_of (containers s) p = Some ?x" using views_iff [OF ok] by blast
            then show ?thesis using extends_sources [OF ext ok _ u] by blast
          qed auto
          moreover have "list_all (\<lambda>v. ident s' v = ident s v) (container_values (view_contents s u))"
            using view_live [OF ok u] ident by (auto simp: list_all_iff)
          ultimately show ?thesis using map_container_cong by simp
        qed
        show ?thesis
        proof (cases "cell_at s ?x")
          case None
          then show ?thesis using False q x map by (simp add: object_def views)
        next
          case (Some u)
          then show ?thesis using False q x map same by (simp add: object_def views)
        qed
      qed
    qed
  qed
qed

lemma wrap_view:
  assumes ok: "views_ok s" and v: "live s v" and wrap: "wrap v s = (v', s')"
  shows "views_ok s'" "extends s s'" "object s' = object s" "notified s' = notified s"
    "\<And>u. live s u \<Longrightarrow> ident s' u = ident s u" "ident s' v' = ident s v" "live s' v'"
    "\<And>p w. map_of (containers s) p = Some w \<Longrightarrow> map_of (containers s') p = Some w"
proof -
  have refl: "extends s s" by (simp add: extends_def)
  have "views_ok s' \<and> extends s s' \<and> object s' = object s \<and> notified s' = notified s \<and>
    (\<forall>u. live s u \<longrightarrow> ident s' u = ident s u) \<and> ident s' v' = ident s v \<and> live s' v' \<and>
    (\<forall>p w. map_of (containers s) p = Some w \<longrightarrow> map_of (containers s') p = Some w)"
  proof (cases "\<exists>a c. v = Ref a \<and> cell_at s a = Some (Plain c)")
    case False
    then have "v' = v \<and> s' = s" using wrap
      by (auto simp: wrap_def split: jval.splits option.splits cell.splits)
    then show ?thesis using ok v refl by simp
  next
    case True
    then obtain a c where a: "v = Ref a" "cell_at s a = Some (Plain c)" by blast
    have self: "ident s v = v" by (rule ident_plain [OF ok]) (simp add: a)
    show ?thesis
    proof (cases "map_of (containers s) a")
      case (Some w)
      then have "v' = Ref w \<and> s' = s" using wrap a by (simp add: wrap_def)
      moreover have "cell_at s w \<noteq> None" using views_okD(3) [OF ok Some] by auto
      ultimately show ?thesis using ok refl origin_view [OF ok Some] self a by simp
    next
      case None
      obtain n s1 where new: "new_cell (new_view a (map_of (scalar_map s) a) c) s = (n, s1)" by fastforce
      then have v': "v' = Ref n" "s' = s1\<lparr>containers := AList.update a n (containers s1)\<rparr>"
        using wrap a None by (simp_all add: wrap_def)
      have "cell_at s' n \<noteq> None" using new_cellE(2) [OF new] v'(2) by simp
      then show ?thesis using add_view [OF ok a(2) None new] self a(1) unfolding v' by simp
    qed
  qed
  then show "views_ok s'" "extends s s'" "object s' = object s" "notified s' = notified s"
    "\<And>u. live s u \<Longrightarrow> ident s' u = ident s u" "ident s' v' = ident s v" "live s' v'"
    "\<And>p w. map_of (containers s) p = Some w \<Longrightarrow> map_of (containers s') p = Some w" by blast+
qed


text \<open>Cloning adds objects and changes none.\<close>

lemma put_all_distinct: "distinct (map fst d) \<Longrightarrow> distinct (map fst (put_all kvs d))"
  by (induction kvs d rule: put_all.induct) (auto intro: distinct_update)

lemma put_all_values: "snd ` set (put_all kvs d) \<subseteq> snd ` set kvs \<union> snd ` set d"
proof (induction kvs d rule: put_all.induct)
  case (2 k v kvs d)
  have "snd ` set (AList.update k v d) \<subseteq> insert v (snd ` set d)" by (induction d) auto
  then show ?case using 2 by (simp add: image_Un) blast
qed simp

lemma mark_same:
  assumes "views_ok s" "cell_at s a = Some (Plain c)"
  shows "views_ok (mark b a c s)" "object (mark b a c s) = object s" "origin (mark b a c s) = origin s"
    "cell_at (mark b a c s) = cell_at s" "containers (mark b a c s) = containers s" "notified (mark b a c s) = notified s"
proof -
  let ?s = "s\<lparr>scalar_map := AList.update a (only_scalars c) (scalar_map s)\<rparr>"
  have same: "origin ?s = origin s" "views ?s = views s" "live ?s = live s" "plain ?s = plain s"
  proof -
    show "origin ?s = origin s" "views ?s = views s" by (simp_all add: origin_def views_def fun_eq_iff)
    show "live ?s = live s" "plain ?s = plain s" by (rule ext, rename_tac v, case_tac v, simp_all)+
  qed
  have contents: "view_contents ?s = view_contents s"
  proof
    have "source_items ?s = source_items s" "source_list ?s = source_list s" by (rule same_sources, simp)+
    then show "view_contents ?s v = view_contents s v" for v by (cases v) simp_all
  qed
  show "object (mark b a c s) = object s"
    by (simp add: mark_def object_def same contents fun_eq_iff)
  have "views_ok ?s"
    unfolding views_ok_def same cell_at_update
  proof (intro conjI allI impI)
    show "distinct (map fst (containers ?s))" "distinct (map snd (containers ?s))"
      using views_okD(1,2) [OF assms(1)] by simp_all
    show "\<exists>d v. cell_at s p = Some (Plain d) \<and> cell_at s w = Some v \<and> view_over p d v"
      if "map_of (containers ?s) p = Some w" for p w
      using views_okD(3) [OF assms(1), of p w] that by simp
    show "e \<in> views s \<or> (\<exists>d. v = Plain d)" if "cell_at s e = Some v" for e v
      by (rule views_okD(4) [OF assms(1) that])
    show "keys_distinct d" "list_all (plain s) (container_values d)" if "cell_at s e = Some (Plain d)" for e d
      using views_okD(5) [OF assms(1) that] by blast+
    show "list_all (live s) (cell_values v)" if "cell_at s e = Some v" for e v
      by (rule views_okD(6) [OF assms(1) that])
    show "\<exists>d. cell_at s e = Some (Plain d) \<and> x = only_scalars d" if "map_of (scalar_map ?s) e = Some x" for e x
      using that views_okD(7) [OF assms(1), of e x] assms(2) by (cases "e = a") (auto simp: update_conv')
  qed
  then show "views_ok (mark b a c s)" using assms(1) by (simp add: mark_def)
qed (simp_all add: mark_def origin_def fun_eq_iff)

text \<open>A state that has grown by plain containers only.\<close>

definition grown :: "view_state \<Rightarrow> view_state \<Rightarrow> bool" where
  "grown s s' \<longleftrightarrow> views_ok s' \<and> extends s s' \<and> origin s' = origin s \<and> containers s' = containers s \<and>
     notified s' = notified s \<and> (\<forall>p. object s p \<noteq> None \<longrightarrow> object s' p = object s p)"

lemma grown_refl: "views_ok s \<Longrightarrow> grown s s"
  by (simp add: grown_def extends_def)

lemma grown_trans: "grown s s' \<Longrightarrow> grown s' s'' \<Longrightarrow> grown s s''"
  unfolding grown_def using extends_trans by fastforce

lemma grown_new:
  assumes "views_ok s" "new_cell (Plain c) s = (a, s1)" "keys_distinct c" "list_all (plain s) (container_values c)"
  shows "grown s (mark b a c s1)" "plain (mark b a c s1) (Ref a)" "object (mark b a c s1) a = Some c"
proof -
  note new = new_plain [OF assms]
  note marked = mark_same [OF new(1,6), of b]
  show "grown s (mark b a c s1)"
    using new marked unfolding grown_def extends_def by auto
  show "plain (mark b a c s1) (Ref a)" using marked(4) new(6) by simp
  show "object (mark b a c s1) a = Some c" using marked(2) new(5) by simp
qed

lemma build_grown:
  "views_ok s \<Longrightarrow> build_value b v s = (w, s') \<Longrightarrow> grown s s' \<and> plain s' w"
  "views_ok s \<Longrightarrow> build_list b vs s = (ws, s') \<Longrightarrow> grown s s' \<and> list_all (plain s') ws"
  "views_ok s \<Longrightarrow> build_items b d s = (kws, s') \<Longrightarrow> grown s s' \<and> list_all (plain s') (map snd kws)"
proof (induction b v s and b vs s and b d s arbitrary: w s' and ws s' and kws s'
    rule: build_value_build_list_build_items.induct)
  case (7 b vs s)
  obtain ws s1 where l: "build_list b vs s = (ws, s1)" by fastforce
  obtain a s2 where n: "new_cell (Plain (JList ws)) s1 = (a, s2)" by fastforce
  have g: "grown s s1" "list_all (plain s1) ws" using 7(1) [OF 7(2) l] by simp_all
  then have "grown s1 (mark b a (JList ws) s2)" "plain (mark b a (JList ws) s2) (Ref a)"
    using grown_new [OF _ n, of b] by (simp_all add: grown_def)
  then show ?case using 7(3) l n grown_trans [OF g(1)] by auto
next
  case (8 b d s)
  obtain ws s1 where l: "build_items b d s = (ws, s1)" by fastforce
  let ?e = "put_all ws []"
  obtain a s2 where n: "new_cell (Plain (JDict ?e)) s1 = (a, s2)" by fastforce
  have g: "grown s s1" "list_all (plain s1) (map snd ws)" using 8(1) [OF 8(2) l] by simp_all
  have "list_all (plain s1) (map snd ?e)" using g(2) put_all_values [of ws "[]"]
    unfolding list_all_iff set_map by (simp only: list.set image_empty Un_empty_right) blast
  then have "grown s1 (mark b a (JDict ?e) s2)" "plain (mark b a (JDict ?e) s2) (Ref a)"
    using grown_new [OF _ n, of b] g(1) by (simp_all add: grown_def put_all_distinct)
  then show ?case using 8(3) l n grown_trans [OF g(1)] by auto
next
  case (10 b v vs s)
  obtain w s1 where v: "build_value b v s = (w, s1)" by fastforce
  obtain us s2 where l: "build_list b vs s1 = (us, s2)" by fastforce
  have 1: "grown s s1" "plain s1 w" using 10(1) [OF 10(3) v] by simp_all
  then have 2: "grown s1 s2" "list_all (plain s2) us" using 10(2) [OF v [symmetric] refl _ l] by (simp_all add: grown_def)
  have "plain s2 w" using 1(2) 2(1) extends_refs(2) by (auto simp: grown_def)
  then show ?case using 10(4) v l 2 grown_trans [OF 1(1) 2(1)] by auto
next
  case (12 b k v d s)
  obtain w s1 where v: "build_value b v s = (w, s1)" by fastforce
  obtain us s2 where l: "build_items b d s1 = (us, s2)" by fastforce
  have 1: "grown s s1" "plain s1 w" using 12(1) [OF 12(3) v] by simp_all
  then have 2: "grown s1 s2" "list_all (plain s2) (map snd us)" using 12(2) [OF v [symmetric] refl _ l] by (simp_all add: grown_def)
  have "plain s2 w" using 1(2) 2(1) extends_refs(2) by (auto simp: grown_def)
  then show ?case using 12(4) v l 2 grown_trans [OF 1(1) 2(1)] by auto
qed (auto simp: grown_refl)


section \<open>Calls on views are calls on ordinary containers\<close>

abbreviation mapped :: "(jval \<Rightarrow> jval) \<Rightarrow> (string \<times> jval) list \<Rightarrow> (string \<times> jval) list" where
  "mapped f \<equiv> map (\<lambda>(k, v). (k, f v))"

lemma mapped_ops:
  "map_of (mapped f d) k = map_option f (map_of d k)"
  "mapped f (AList.update k v d) = AList.update k (f v) (mapped f d)"
  "mapped f (AList.delete k d) = AList.delete k (mapped f d)"
  by (induction d) auto

text \<open>What a call on the object \<open>p\<close> may do: it replaces the contents of \<open>p\<close>, and \<open>n\<close> calls are notified.\<close>

definition acts :: "view_state \<Rightarrow> nat \<Rightarrow> container \<Rightarrow> nat \<Rightarrow> view_state \<Rightarrow> bool" where
  "acts s p c n s' \<longleftrightarrow>
     views_ok s' \<and> object s' = (object s)(p := Some c) \<and> notified s' = notified s + n \<and>
     (\<forall>v. live s v \<longrightarrow> live s' v \<and> ident s' v = ident s v) \<and>
     (\<forall>q w. map_of (containers s) q = Some w \<longrightarrow> map_of (containers s') q = Some w) \<and>
     (\<forall>a d. cell_at s a = Some (Plain d) \<longrightarrow> cell_at s' a = Some (Plain d))"

lemma acts_trans: "acts s p c n s' \<Longrightarrow> acts s' p c' m s'' \<Longrightarrow> acts s p c' (n + m) s''"
  by (auto simp: acts_def)

lemma acts_refl: "views_ok s \<Longrightarrow> object s p = Some c \<Longrightarrow> acts s p c 0 s"
  by (simp add: acts_def fun_upd_idem)

lemma acts_changed: "acts s p c 0 s' \<Longrightarrow> acts s p c (Suc 0) (changed s')"
proof -
  have same: "live (changed s) = live s" for s by (rule ext, rename_tac v, case_tac v, simp_all)
  note keep = same_state [OF changed_simps(1,2,3)]
  show "acts s p c 0 s' \<Longrightarrow> acts s p c (Suc 0) (changed s')"
    by (simp add: acts_def keep same)
qed

lemma acts_wrap:
  assumes "views_ok s" "live s v" "wrap v s = (v', s')" "object s p = Some c"
  shows "acts s p c 0 s'" "ident s' v' = ident s v" "live s' v'" "cell_at s a = Some u \<Longrightarrow> cell_at s' a = Some u"
proof -
  note w = wrap_view [OF assms(1-3)]
  show "acts s p c 0 s'" using w extends_refs(1) [OF w(2)] assms(4) by (simp add: acts_def fun_upd_idem extends_def)
  show "ident s' v' = ident s v" "live s' v'" "cell_at s a = Some u \<Longrightarrow> cell_at s' a = Some u"
    using w by (simp_all add: extends_def)
qed

lemma acts_put:
  assumes "views_ok s" "map_of (containers s) p = Some w" "cell_at s p = Some (Plain c)" "view_over p c v"
    "list_all (live s) (cell_values v)" "map_container (ident s) (view_contents s v) = c'"
  shows "acts s p c' 0 (put_cell w v s)" "cell_at (put_cell w v s) w = Some v"
proof -
  note put = put_view [OF assms(1-5)]
  obtain v0 where w: "cell_at s w = Some v0" "view_over p c v0"
    using views_okD(3) [OF assms(1,2)] assms(3) by auto
  have "live (put_cell w v s) u" if "live s u" for u using that put(4) by (cases u) auto
  moreover have "cell_at (put_cell w v s) a = Some (Plain d)" if "cell_at s a = Some (Plain d)" for a d
    using that put(4) w by (cases c; cases "a = w") auto
  ultimately show "acts s p c' 0 (put_cell w v s)"
    using put assms(6) by (simp add: acts_def)
  show "cell_at (put_cell w v s) w = Some v" using put(4) by simp
qed

text \<open>The view of an object, by the kind of the object.\<close>

lemma dict_viewE:
  assumes "views_ok s" "map_of (containers s) p = Some w" "object s p = Some (JDict items)"
  obtains src d where "cell_at s p = Some (Plain (JDict src))" "cell_at s w = Some (DictView d)"
    "cd_source d = p" "source_items s p = src" "dict_inv src d" "items = mapped (ident s) (dict_contents src d)"
    "view_over p (JDict src) (DictView d)" "list_all (live s) (cell_values (DictView d))"
proof -
  obtain c v where c: "cell_at s p = Some (Plain c)" "cell_at s w = Some v" "view_over p c v"
    using views_okD(3) [OF assms(1,2)] by blast
  have "p \<notin> views s" by (rule plain_not_view [OF assms(1) c(1)])
  then have contents: "map_container (ident s) (view_contents s v) = JDict items"
    using assms(2,3) c(2) by (simp add: object_def)
  obtain src d where cv: "c = JDict src" "v = DictView d" using c(3) contents by (cases c; cases v) auto
  show ?thesis
  proof (rule that)
    show "cell_at s p = Some (Plain (JDict src))" "cell_at s w = Some (DictView d)" using c cv by simp_all
    show "source_items s p = src" using c(1) cv by (simp add: source_items_def)
    show "cd_source d = p" "dict_inv src d" "view_over p (JDict src) (DictView d)" using c(3) cv by simp_all
    then show "items = mapped (ident s) (dict_contents src d)"
      using contents cv c(1) by (simp add: source_items_def)
    show "list_all (live s) (cell_values (DictView d))" using views_okD(6) [OF assms(1) c(2)] cv by simp
  qed
qed

lemma list_viewE:
  assumes "views_ok s" "map_of (containers s) p = Some w" "object s p = Some (JList items)"
  obtains src l where "cell_at s p = Some (Plain (JList src))" "cell_at s w = Some (ListView l)"
    "cl_source l = None \<or> cl_source l = Some p" "cl_source l = Some p \<Longrightarrow> source_list s (cl_source l) = src"
    "list_inv src l" "items = map (ident s) (list_contents (source_list s (cl_source l)) l)"
    "view_over p (JList src) (ListView l)" "list_all (live s) (cell_values (ListView l))"
proof -
  obtain c v where c: "cell_at s p = Some (Plain c)" "cell_at s w = Some v" "view_over p c v"
    using views_okD(3) [OF assms(1,2)] by blast
  have "p \<notin> views s" by (rule plain_not_view [OF assms(1) c(1)])
  then have contents: "map_container (ident s) (view_contents s v) = JList items"
    using assms(2,3) c(2) by (simp add: object_def)
  obtain src l where cv: "c = JList src" "v = ListView l" using c(3) contents by (cases c; cases v) auto
  show ?thesis
  proof (rule that)
    show "cell_at s p = Some (Plain (JList src))" "cell_at s w = Some (ListView l)" using c cv by simp_all
    show "cl_source l = None \<or> cl_source l = Some p" "list_inv src l" "view_over p (JList src) (ListView l)"
      using c(3) cv by auto
    show "source_list s (cl_source l) = src" if "cl_source l = Some p" using that c(1) cv by (simp add: source_list_def)
    show "items = map (ident s) (list_contents (source_list s (cl_source l)) l)" using contents cv by simp
    show "list_all (live s) (cell_values (ListView l))" using views_okD(6) [OF assms(1) c(2)] cv by simp
  qed
qed

lemma set_cloned_same [simp]:
  "cd_source (dict_set_cloned src k v d) = cd_source d"
  "cd_only_scalars (dict_set_cloned src k v d) = cd_only_scalars d"
  by (simp_all add: dict_set_cloned_def)

lemma update_values: "snd ` set (AList.update k v d) \<subseteq> insert v (snd ` set d)"
  by (induction d) auto

lemma set_cloned_live:
  assumes "list_all P (cell_values (DictView d))" "P v"
  shows "list_all P (cell_values (DictView (dict_set_cloned src k v d)))"
proof -
  have "snd ` set (AList.update k v xs) \<subseteq> insert v (snd ` set xs)" for xs by (rule update_values)
  then have "set (cell_values (DictView (dict_set_cloned src k v d))) \<subseteq> insert v (set (cell_values (DictView d)))"
    by (auto simp: dict_set_cloned_def image_Un)
  then show ?thesis using assms unfolding list_all_iff by blast
qed

lemma dict_set_acts:
  assumes "views_ok s" "map_of (containers s) p = Some w" "object s p = Some (JDict items)"
    "cell_at s w = Some (DictView d)" "live s v"
  shows "acts s p (JDict (AList.update k (ident s v) items)) 0 (dict_setitem w k v d s)"
    "cell_at (dict_setitem w k v d s) w = Some (DictView (dict_set_cloned (source_items s p) k v d))"
proof -
  obtain src where d: "cell_at s p = Some (Plain (JDict src))" "cd_source d = p" "source_items s p = src"
    "dict_inv src d" "items = mapped (ident s) (dict_contents src d)"
    "view_over p (JDict src) (DictView d)" "list_all (live s) (cell_values (DictView d))"
    by (rule dict_viewE [OF assms(1-3)]) (use assms(4) in auto)
  let ?v = "DictView (dict_set_cloned src k v d)"
  have "view_over p (JDict src) ?v" using d dict_set_contents(2) by simp
  moreover have "list_all (live s) (cell_values ?v)" by (rule set_cloned_live [OF d(7) assms(5)])
  moreover have "map_container (ident s) (view_contents s ?v) = JDict (AList.update k (ident s v) items)"
    using d dict_set_contents(1) [OF d(4)] by (simp add: mapped_ops)
  ultimately show "acts s p (JDict (AList.update k (ident s v) items)) 0 (dict_setitem w k v d s)"
    "cell_at (dict_setitem w k v d s) w = Some (DictView (dict_set_cloned (source_items s p) k v d))"
    unfolding dict_setitem_def d(2,3) using acts_put [OF assms(1,2) d(1)] by blast+
qed


definition map_result :: "(jval \<Rightarrow> jval) \<Rightarrow> result \<Rightarrow> result" where
  "map_result f r = map_sum id (map f) r"

lemma map_result_simps [simp]: "map_result f (Inl e) = Inl e" "map_result f (Inr vs) = Inr (map f vs)"
  by (simp_all add: map_result_def)

lemma dict_getitem_acts:
  assumes ok: "views_ok s" and pw: "map_of (containers s) p = Some w" and p: "object s p = Some (JDict items)"
    and w: "cell_at s w = Some (DictView d)" and get: "dict_getitem w k d s = (r, s')"
  shows "acts s p (JDict items) 0 s'"
    and "map_result (ident s') r = (case map_of items k of None \<Rightarrow> Inl (KeyError k) | Some v \<Rightarrow> Inr [v])"
    and "r = Inr vs \<Longrightarrow> list_all (live s') vs" and "\<exists>d'. cell_at s' w = Some (DictView d')"
proof -
  obtain src where d: "cell_at s p = Some (Plain (JDict src))" "cd_source d = p" "source_items s p = src"
    "dict_inv src d" "items = mapped (ident s) (dict_contents src d)"
    "list_all (live s) (cell_values (DictView d))"
    by (rule dict_viewE [OF ok pw p]) (use w in auto)
  have find: "map_option snd (dict_find src d k) = map_of (dict_contents src d) k"
    by (rule dict_find_contents [OF d(4)])
  have "acts s p (JDict items) 0 s' \<and>
    map_result (ident s') r = (case map_of items k of None \<Rightarrow> Inl (KeyError k) | Some v \<Rightarrow> Inr [v]) \<and>
    (\<forall>vs. r = Inr vs \<longrightarrow> list_all (live s') vs) \<and> (\<exists>d'. cell_at s' w = Some (DictView d'))"
  proof (cases "dict_find src d k")
    case None
    then have "r = Inl (KeyError k)" "s' = s" using get d by (simp_all add: dict_getitem_def)
    then show ?thesis using None find d(5) w acts_refl [OF ok p] by (simp add: mapped_ops)
  next
    case (Some lv)
    then obtain location v where lv: "dict_find src d k = Some (location, v)" by fastforce
    obtain v' s1 where wrap: "wrap v s = (v', s1)" by fastforce
    have v: "map_of (dict_contents src d) k = Some v" using find lv by simp
    then have item: "map_of items k = Some (ident s v)" using d(5) by (simp add: mapped_ops)
    have "list_all (live s) (map snd (dict_contents src d))"
      using view_live [OF ok w] d(2,3) by simp
    then have live: "live s v" using v by (fastforce simp: list_all_iff dest: map_of_SomeD)
    note wrapped = acts_wrap [OF ok live wrap p]
    have r: "r = Inr [v']" using get lv wrap d by (auto simp: dict_getitem_def)
    show ?thesis
    proof (cases "v' = v")
      case True
      then have "s' = s1" using get lv wrap d by (auto simp: dict_getitem_def)
      then show ?thesis using wrapped item r w by auto
    next
      case False
      have ok1: "views_ok s1" and pw1: "map_of (containers s1) p = Some w" and p1: "object s1 p = Some (JDict items)"
        using wrapped(1) pw by (simp_all add: acts_def)
      have w1: "cell_at s1 w = Some (DictView d)" by (rule wrapped(4) [OF w])
      have "source_items s1 p = src" using wrapped(4) [OF d(1)] by (simp add: source_items_def)
      then have "s' = dict_setitem w k v' d s1"
        using get lv wrap d False dict_cache_set [OF d(4) lv, of v']
        by (auto simp: dict_getitem_def dict_setitem_def)
      moreover have "AList.update k (ident s1 v') items = items"
        using item wrapped(2) by (simp add: update_triv)
      ultimately have set: "acts s1 p (JDict items) 0 s'" "\<exists>d'. cell_at s' w = Some (DictView d')"
        using dict_set_acts [OF ok1 pw1 p1 w1 wrapped(3), of k] by auto
      have "live s' v'" "ident s' v' = ident s1 v'" using set(1) wrapped(3) by (simp_all add: acts_def)
      then show ?thesis using acts_trans [OF wrapped(1) set(1)] set(2) wrapped(2) item r by simp
    qed
  qed
  then show "acts s p (JDict items) 0 s'"
    "map_result (ident s') r = (case map_of items k of None \<Rightarrow> Inl (KeyError k) | Some v \<Rightarrow> Inr [v])"
    "r = Inr vs \<Longrightarrow> list_all (live s') vs" "\<exists>d'. cell_at s' w = Some (DictView d')" by blast+
qed

lemma keys_mapped [simp]: "keys_of (mapped f d) = keys_of d"
  by (force simp: keys_of_def)

lemma delete_values: "snd ` set (AList.delete k xs) \<subseteq> snd ` set xs"
  by (induction xs) auto

lemma remove_live:
  assumes "dict_remove src k d = Inr d'" "list_all P (cell_values (DictView d))"
  shows "list_all P (cell_values (DictView d'))"
proof -
  have U: "items_of (case cd_updated d of None \<Rightarrow> None | Some U \<Rightarrow> or_none (AList.delete k U)) =
      AList.delete k (items_of (cd_updated d))"
    by (simp split: option.splits)
  have "items_of (cd_updated d') = items_of (cd_updated d) \<and> items_of (cd_added d') = AList.delete k (items_of (cd_added d)) \<or>
    items_of (cd_updated d') = AList.delete k (items_of (cd_updated d)) \<and> items_of (cd_added d') = items_of (cd_added d)"
  proof (cases "has_key k (cd_added d)")
    case True
    then have "d' = d\<lparr>cd_added := or_none (AList.delete k (items_of (cd_added d)))\<rparr>"
      using assms(1) by (simp add: dict_remove_def)
    then show ?thesis by simp
  next
    case False
    then have "d' = d\<lparr>cd_updated := (case cd_updated d of None \<Rightarrow> None | Some U \<Rightarrow> or_none (AList.delete k U)),
        cd_deleted := Some (items_of (cd_deleted d) @ [k])\<rparr>"
      using assms(1) by (cases "source_key_visible src d k") (simp_all add: dict_remove_def)
    then show ?thesis by (simp add: U)
  qed
  then have "set (cell_values (DictView d')) \<subseteq> set (cell_values (DictView d))"
    by (elim disjE conjE)
       (simp_all only: cell_values.simps set_map set_append image_Un, (intro Un_mono subset_refl delete_values)+)
  then show ?thesis using assms(2) unfolding list_all_iff by blast
qed

lemma dict_delitem_acts:
  assumes ok: "views_ok s" and pw: "map_of (containers s) p = Some w" and p: "object s p = Some (JDict items)"
    and w: "cell_at s w = Some (DictView d)" and del: "dict_delitem w k d s = (r, s')"
  shows "map_of items k = None \<Longrightarrow> r = Inl (KeyError k) \<and> s' = s"
    and "map_of items k \<noteq> None \<Longrightarrow> r = Inr [] \<and> acts s p (JDict (AList.delete k items)) 1 s'"
proof -
  obtain src where d: "cell_at s p = Some (Plain (JDict src))" "cd_source d = p" "source_items s p = src"
    "dict_inv src d" "items = mapped (ident s) (dict_contents src d)" "view_over p (JDict src) (DictView d)"
    "list_all (live s) (cell_values (DictView d))"
    by (rule dict_viewE [OF ok pw p]) (use w in auto)
  have key: "map_of items k = None \<longleftrightarrow> k \<notin> keys_of (dict_contents src d)" by (simp add: key_None d(5))
  show "r = Inl (KeyError k) \<and> s' = s" if "map_of items k = None"
    using that key dict_remove_contents(1) [OF d(4)] del d by (simp add: dict_delitem_def)
  assume "map_of items k \<noteq> None"
  then have "k \<in> keys_of (dict_contents src d)" using key by simp
  from dict_remove_contents(2) [OF d(4) this]
  obtain d' where d': "dict_remove src k d = Inr d'" "dict_contents src d' = AList.delete k (dict_contents src d)"
    "dict_inv src d'" "cd_source d' = cd_source d" "cd_only_scalars d' = cd_only_scalars d"
    by blast
  have "acts s p (JDict (AList.delete k items)) 0 (put_cell w (DictView d') s)"
  proof (rule acts_put(1) [OF ok pw d(1)])
    show "view_over p (JDict src) (DictView d')" using d(6) d' by simp
    show "list_all (live s) (cell_values (DictView d'))" by (rule remove_live [OF d'(1) d(7)])
    show "map_container (ident s) (view_contents s (DictView d')) = JDict (AList.delete k items)"
      using d d' by (simp add: mapped_ops)
  qed
  from acts_changed [OF this] show "r = Inr [] \<and> acts s p (JDict (AList.delete k items)) 1 s'"
    using del d d' by (simp add: dict_delitem_def)
qed

lemma set_all_acts:
  assumes "views_ok s" "map_of (containers s) p = Some w" "object s p = Some (JDict items)"
    "list_all (live s) (map snd kvs)"
  shows "acts s p (JDict (put_all (mapped (ident s) kvs) items)) 0 (set_all w kvs s)"
  using assms
proof (induction w kvs s arbitrary: items rule: set_all.induct)
  case (1 w s)
  then show ?case by (simp add: acts_refl)
next
  case (2 w k v kvs s)
  obtain d where w: "cell_at s w = Some (DictView d)"
    by (rule dict_viewE [OF "2.prems"(1-3)]) auto
  let ?s = "dict_setitem w k v d s"
  have set: "acts s p (JDict (AList.update k (ident s v) items)) 0 ?s"
    using "2.prems" w by (intro dict_set_acts) simp_all
  have "list_all (live ?s) (map snd kvs)" using set "2.prems"(4) by (auto simp: acts_def list_all_iff)
  moreover have same: "mapped (ident ?s) kvs = mapped (ident s) kvs"
    using set "2.prems"(4) by (auto simp: acts_def list_all_iff)
  moreover have "views_ok ?s" "map_of (containers ?s) p = Some w"
    "object ?s p = Some (JDict (AList.update k (ident s v) items))"
    using set "2.prems"(2) by (simp_all add: acts_def)
  ultimately have "acts ?s p (JDict (put_all (mapped (ident s) kvs) (AList.update k (ident s v) items))) 0
      (set_all w kvs ?s)"
    using "2.IH" w unfolding same [symmetric] by (simp add: dict_view_at_def)
  from acts_trans [OF set this] show ?case using w by (simp add: dict_view_at_def)
qed


lemma put_list_acts:
  assumes "views_ok s" "map_of (containers s) p = Some w" "cell_at s p = Some (Plain (JList src))"
    "view_over p (JList src) (ListView l)" "list_all (live s) (cell_values (ListView l))"
    "map (ident s) (list_contents (source_list s (cl_source l)) l) = items"
  shows "acts s p (JList items) 0 (put_cell w (ListView l) s)" "cell_at (put_cell w (ListView l) s) w = Some (ListView l)"
  using acts_put [OF assms(1-5)] assms(6) by simp_all

lemma list_put_live:
  "list_all P (cell_values (ListView l)) \<Longrightarrow> P v \<Longrightarrow> list_all P (cell_values (ListView (list_put i v l)))"
proof -
  have "set (cell_values (ListView (list_put i v l))) \<subseteq> insert v (set (cell_values (ListView l)))"
  proof (cases "cl_source l = None")
    case True
    then show ?thesis using set_update_subset_insert [of "cl_items l" i v] by (auto simp: list_put_def)
  next
    case False
    have "snd ` set (AList.update i v xs) \<subseteq> insert v (snd ` set xs)" for xs by (induction xs) auto
    with False show ?thesis by (auto simp: list_put_def)
  qed
  then show "list_all P (cell_values (ListView l)) \<Longrightarrow> P v \<Longrightarrow> list_all P (cell_values (ListView (list_put i v l)))"
    unfolding list_all_iff by blast
qed

lemma list_put_simps [simp]:
  "cl_source (list_put i v l) = cl_source l" "cl_only_scalars (list_put i v l) = cl_only_scalars l"
  by (simp_all add: list_put_def)

lemma list_inv_any: "list_inv src l \<Longrightarrow> source_list s (cl_source l) = src \<or> cl_source l = None \<Longrightarrow>
    list_inv (source_list s (cl_source l)) l"
  by (auto simp: list_inv_def)

lemma view_over_put:
  assumes "view_over p (JList src) (ListView l)" "i < list_len src l"
  shows "view_over p (JList src) (ListView (list_put i v l))"
  using assms list_put_contents(2) [OF _ assms(2)] by auto

lemma list_put_acts:
  assumes ok: "views_ok s" and pw: "map_of (containers s) p = Some w" and p: "object s p = Some (JList items)"
    and w: "cell_at s w = Some (ListView l)" and v: "live s v" and i: "i < length items"
  shows "acts s p (JList (items[i := ident s v])) 0 (put_cell w (ListView (list_put i v l)) s)"
    "cell_at (put_cell w (ListView (list_put i v l)) s) w = Some (ListView (list_put i v l))"
proof -
  obtain src where d: "cell_at s p = Some (Plain (JList src))" "cl_source l = None \<or> cl_source l = Some p"
    "cl_source l = Some p \<Longrightarrow> source_list s (cl_source l) = src" "list_inv src l"
    "items = map (ident s) (list_contents (source_list s (cl_source l)) l)" "view_over p (JList src) (ListView l)"
    "list_all (live s) (cell_values (ListView l))"
    by (rule list_viewE [OF ok pw p]) (use w in auto)
  let ?src = "source_list s (cl_source l)"
  have inv: "list_inv ?src l" using d(2-4) by (intro list_inv_any) auto
  have len: "i < list_len ?src l" using i d(5) by (simp add: length_list_contents)
  then have len': "i < list_len src l" using d(2,3) by (auto simp: list_len_def)
  have "map (ident s) (list_contents ?src (list_put i v l)) = items[i := ident s v]"
    using list_put_contents(1) [OF inv len] d(5) by (simp add: map_update)
  then show "acts s p (JList (items[i := ident s v])) 0 (put_cell w (ListView (list_put i v l)) s)"
    "cell_at (put_cell w (ListView (list_put i v l)) s) w = Some (ListView (list_put i v l))"
    using put_list_acts [OF ok pw d(1) view_over_put [OF d(6) len'] list_put_live [OF d(7) v]] by simp_all
qed

lemma normal_index_less: "normal_index i n = Some j \<Longrightarrow> j < n"
  by (auto simp: normal_index_def Let_def split: if_splits)

lemma list_getitem_acts:
  assumes ok: "views_ok s" and pw: "map_of (containers s) p = Some w" and p: "object s p = Some (JList items)"
    and w: "cell_at s w = Some (ListView l)" and get: "list_getitem w i l s = (r, s')"
  shows "acts s p (JList items) 0 s'"
    and "map_result (ident s') r = (case normal_index i (length items) of
        None \<Rightarrow> Inl (IndexError ''list index out of range'') | Some j \<Rightarrow> Inr [items ! j])"
    and "r = Inr vs \<Longrightarrow> list_all (live s') vs"
proof -
  let ?src = "source_list s (cl_source l)"
  obtain src where d: "items = map (ident s) (list_contents ?src l)" "cell_at s p = Some (Plain (JList src))"
    "cl_source l = None \<or> cl_source l = Some p" "cl_source l = Some p \<Longrightarrow> ?src = src"
    by (rule list_viewE [OF ok pw p]) (use w in auto)
  have len: "list_len ?src l = length items" using d(1) by (simp add: length_list_contents)
  have "acts s p (JList items) 0 s' \<and>
    map_result (ident s') r = (case normal_index i (length items) of
        None \<Rightarrow> Inl (IndexError ''list index out of range'') | Some j \<Rightarrow> Inr [items ! j]) \<and>
    (\<forall>vs. r = Inr vs \<longrightarrow> list_all (live s') vs)"
  proof (cases "normal_index i (length items)")
    case None
    then have "r = Inl (IndexError ''list index out of range'')" "s' = s"
      using get by (simp_all add: list_getitem_def len)
    then show ?thesis using None acts_refl [OF ok p] by simp
  next
    case (Some j)
    then have j: "j < length items" by (rule normal_index_less)
    let ?v = "list_item ?src l j"
    obtain v' s1 where wrap: "wrap ?v s = (v', s1)" by fastforce
    have item: "list_contents ?src l ! j = ?v" using j len by (simp add: nth_list_contents)
    then have ident: "ident s ?v = items ! j" using d(1) j by simp
    have "list_all (live s) (list_contents ?src l)" using view_live [OF ok w] by simp
    then have live: "live s ?v" using item j d(1) by (metis length_map list_all_length)
    note wrapped = acts_wrap [OF ok live wrap p]
    have r: "r = Inr [v']" using get Some wrap by (simp add: list_getitem_def len split: prod.splits)
    show ?thesis
    proof (cases "v' = ?v")
      case True
      then have "s' = s1" using get Some wrap by (simp add: list_getitem_def len split: prod.splits)
      then show ?thesis using wrapped ident r Some by simp
    next
      case False
      have s': "s' = put_cell w (ListView (list_put j v' l)) s1"
        using get Some wrap False by (simp add: list_getitem_def len split: prod.splits)
      have ok1: "views_ok s1" and pw1: "map_of (containers s1) p = Some w" and p1: "object s1 p = Some (JList items)"
        using wrapped(1) pw by (simp_all add: acts_def)
      have put: "acts s1 p (JList (items[j := ident s1 v'])) 0 s'"
        unfolding s' by (rule list_put_acts [OF ok1 pw1 p1 wrapped(4) [OF w] wrapped(3) j])
      moreover have "items[j := ident s1 v'] = items" using wrapped(2) ident by simp
      ultimately have put: "acts s1 p (JList items) 0 s'" by simp
      have "live s' v'" "ident s' v' = ident s1 v'" using put wrapped(3) by (simp_all add: acts_def)
      then show ?thesis using acts_trans [OF wrapped(1) put] wrapped(2) ident r Some by simp
    qed
  qed
  then show "acts s p (JList items) 0 s'"
    "map_result (ident s') r = (case normal_index i (length items) of
        None \<Rightarrow> Inl (IndexError ''list index out of range'') | Some j \<Rightarrow> Inr [items ! j])"
    "r = Inr vs \<Longrightarrow> list_all (live s') vs" by blast+
qed

lemma own_items_acts:
  assumes ok: "views_ok s" and pw: "map_of (containers s) p = Some w" and p: "object s p = Some (JList items)"
    and l: "cl_source l = None" "cl_wrapped l = None" "list_all (live s) (cl_items l)"
      "cell_at s w = Some (ListView l0)" "cl_only_scalars l = cl_only_scalars l0"
  shows "acts s p (JList (map (ident s) (cl_items l))) 0 (put_cell w (ListView l) s)"
proof -
  obtain src where d: "cell_at s p = Some (Plain (JList src))" "view_over p (JList src) (ListView l0)"
    by (rule list_viewE [OF ok pw p]) (use l in auto)
  have "view_over p (JList src) (ListView l)" using d(2) l by (simp add: list_inv_def)
  then show ?thesis using put_list_acts(1) [OF ok pw d(1)] l by (simp add: list_contents_def)
qed

lemma list_edit_acts:
  assumes ok: "views_ok s" and pw: "map_of (containers s) p = Some w" and p: "object s p = Some (JList items)"
    and w: "cell_at s w = Some (ListView l)"
    and sub: "\<And>xs. set (f xs) \<subseteq> set xs \<union> set vs" and live: "list_all (live s) vs"
    and f: "\<And>xs. map (ident s) (f xs) = g (map (ident s) xs)"
  shows "acts s p (JList (g items)) 0 (put_cell w (ListView (list_edit f (source_list s (cl_source l)) l)) s)"
proof -
  obtain src where d: "cell_at s p = Some (Plain (JList src))" "cl_source l = None \<or> cl_source l = Some p"
    "cl_source l = Some p \<Longrightarrow> source_list s (cl_source l) = src" "list_inv src l"
    "items = map (ident s) (list_contents (source_list s (cl_source l)) l)" "view_over p (JList src) (ListView l)"
    "list_all (live s) (cell_values (ListView l))"
    by (rule list_viewE [OF ok pw p]) (use w in auto)
  let ?src = "source_list s (cl_source l)"
  let ?l = "list_edit f ?src l"
  have inv: "list_inv ?src l" using d(2-4) by (intro list_inv_any) auto
  note m = list_materialize_contents [OF inv]
  have m': "cl_wrapped (list_materialize ?src l) = None \<or> cl_source l = None"
    "cl_only_scalars (list_materialize ?src l) = cl_only_scalars l"
    by (simp_all add: list_materialize_def)
  have items: "cl_items ?l = f (list_contents ?src l)" using m by (simp add: list_edit_def Let_def)
  have "list_all (live s) (list_contents ?src l)" using view_live [OF ok w] by simp
  then have live': "list_all (live s) (cl_items ?l)" using sub live unfolding items list_all_iff by blast
  have src0: "cl_source ?l = None" using m by (simp add: list_edit_def Let_def)
  show ?thesis
  proof (rule put_list_acts(1) [OF ok pw d(1)])
    show "view_over p (JList src) (ListView ?l)"
      using d(6) src0 m'(2) by (auto simp: list_inv_def list_edit_def Let_def)
    have "set (map snd (items_of (cl_wrapped ?l))) \<subseteq> set (cell_values (ListView l))"
      using m'(1) by (auto simp: list_edit_def Let_def list_materialize_def)
    then show "list_all (live s) (cell_values (ListView ?l))"
      using live' d(7) unfolding list_all_iff by auto
    show "map (ident s) (list_contents (source_list s (cl_source ?l)) ?l) = g items"
      using src0 items f d(5) by (simp add: list_contents_def)
  qed
qed

lemma edit_list_acts:
  assumes "views_ok s" "map_of (containers s) p = Some w" "object s p = Some (JList items)"
    and "\<And>xs. set (f xs) \<subseteq> set xs \<union> set vs" "list_all (live s) vs"
    and "\<And>xs. map (ident s) (f xs) = g (map (ident s) xs)" and e: "edit_list w f s = (r, s')"
  shows "r = Inr []" "acts s p (JList (g items)) 1 s'"
proof -
  obtain l where w: "cell_at s w = Some (ListView l)" by (rule list_viewE [OF assms(1-3)]) auto
  note acts_changed [OF list_edit_acts [OF assms(1-3) w assms(4-6)]]
  then show "acts s p (JList (g items)) 1 s'" "r = Inr []"
    using w e by (auto simp: edit_list_def on_list_def list_view_at_def)
qed

lemma dict_has_iff:
  assumes "views_ok s" "map_of (containers s) p = Some w" "object s p = Some (JDict items)"
  shows "dict_has s w k \<longleftrightarrow> map_of items k \<noteq> None"
proof -
  obtain src d where d: "cell_at s w = Some (DictView d)" "cd_source d = p" "source_items s p = src"
    "items = mapped (ident s) (dict_contents src d)"
    by (rule dict_viewE [OF assms]) auto
  then show ?thesis
    by (simp add: dict_has_def dict_view_at_def dict_contains_contents key_None)
qed

text \<open>What it means that a call on the view of \<open>p\<close> is the call on an ordinary container.\<close>

definition refines :: "view_state \<Rightarrow> nat \<Rightarrow> view_op \<Rightarrow> jval list \<Rightarrow> container \<Rightarrow> result \<times> view_state \<Rightarrow> bool" where
  "refines s p x vs c rs =
     (case rs of (r, s') \<Rightarrow>
        (case apply_plain x vs c of (r', c', b) \<Rightarrow>
           map_result (ident s') r = r' \<and> acts s p c' (if b then 1 else 0) s'))"

lemma dict_take_acts:
  assumes ok: "views_ok s" and pw: "map_of (containers s) p = Some w" and p: "object s p = Some (JDict items)"
    and k: "map_of items k = Some v" and take: "dict_take w k s = (r, s')"
  shows "map_result (ident s') r = Inr [v]" "acts s p (JDict (AList.delete k items)) 1 s'"
proof -
  obtain d where w: "cell_at s w = Some (DictView d)" by (rule dict_viewE [OF ok pw p]) auto
  obtain r1 s1 where get: "dict_getitem w k d s = (r1, s1)" by fastforce
  note g = dict_getitem_acts [OF ok pw p w get]
  have "map_result (ident s1) r1 = Inr [v]" using g(2) k by simp
  then obtain u where u: "r1 = Inr [u]" "ident s1 u = v" by (cases r1) auto
  obtain d1 where w1: "cell_at s1 w = Some (DictView d1)" using g(4) by blast
  have ok1: "views_ok s1" and pw1: "map_of (containers s1) p = Some w" and p1: "object s1 p = Some (JDict items)"
    using g(1) pw by (simp_all add: acts_def)
  obtain r2 s2 where del: "dict_delitem w k d1 s1 = (r2, s2)" by fastforce
  have d2: "r2 = Inr []" "acts s1 p (JDict (AList.delete k items)) 1 s2"
    using dict_delitem_acts(2) [OF ok1 pw1 p1 w1 del] k by simp_all
  have "s' = s2" "r = Inr [u]"
    using take w w1 get u del d2(1) by (simp_all add: dict_take_def on_dict_def dict_view_at_def)
  moreover have "ident s2 u = ident s1 u" using d2(2) g(3) [OF u(1)] by (simp add: acts_def)
  ultimately show "map_result (ident s') r = Inr [v]" "acts s p (JDict (AList.delete k items)) 1 s'"
    using acts_trans [OF g(1) d2(2)] u by simp_all
qed

lemma plain_ident:
  assumes "views_ok s" "list_all (plain s) vs"
  shows "map (ident s) vs = vs" "list_all (live s) vs"
proof -
  show "map (ident s) vs = vs" using assms by (auto simp: list_all_iff ident_plain intro: map_idI)
  have "plain s v \<Longrightarrow> live s v" for v by (cases v) auto
  then show "list_all (live s) vs" using assms(2) by (auto simp: list_all_iff)
qed


text \<open>One clone for the calls that store one value; \<open>setdefault\<close> clones only when the key is missing.\<close>

fun args_fit :: "view_op \<Rightarrow> container \<Rightarrow> nat \<Rightarrow> bool" where
  "args_fit (DictSet k v) c n = (n = 1)"
| "args_fit (DictSetdefault k v) (JDict d) n = (map_of d k = None \<longrightarrow> n = 1)"
| "args_fit (ListSet i v) c n = (n = 1)"
| "args_fit (ListInsert i v) c n = (n = 1)"
| "args_fit _ c n = True"

lemma last_of_items:
  assumes "distinct (map fst d)" "d \<noteq> []"
  shows "map_of d (fst (last d)) = Some (snd (last d))" "AList.delete (fst (last d)) d = butlast d"
proof -
  obtain e k v where d: "d = e @ [(k, v)]" using assms(2) by (metis append_butlast_last_id prod.collapse)
  then have "k \<notin> keys_of e" using assms(1) by (auto simp: keys_of_def)
  then show "map_of d (fst (last d)) = Some (snd (last d))" "AList.delete (fst (last d)) d = butlast d"
    using d by (auto simp: map_add_def key_None delete_append delete_absent split: option.splits)
      (simp add: key_None [symmetric])
qed

lemma items_distinct:
  assumes "views_ok s" "map_of (containers s) p = Some w" "object s p = Some (JDict items)"
  shows "distinct (map fst items)"
  by (rule dict_viewE [OF assms]) (auto simp: comp_def split_def dest: distinct_dict_contents)

lemma refines_dict:
  assumes ok: "views_ok s" and pw: "map_of (containers s) p = Some w" and p: "object s p = Some (JDict items)"
    and vs: "list_all (plain s) vs" and fit: "args_fit x (JDict items) (length vs)"
  shows "refines s p x vs (JDict items) (apply_view w x vs s)"
proof -
  obtain src d where w: "cell_at s w = Some (DictView d)" "cd_source d = p" "source_items s p = src"
    "dict_inv src d" "items = mapped (ident s) (dict_contents src d)" "cell_at s p = Some (Plain (JDict src))"
    "view_over p (JDict src) (DictView d)" "list_all (live s) (cell_values (DictView d))"
    by (rule dict_viewE [OF ok pw p]) auto
  have view [simp]: "on_dict w f s = f d s" for f using w(1) by (simp add: on_dict_def dict_view_at_def)
  have no_list [simp]: "on_list w f s = (Inl (TypeError ''not a list view''), s)" for f
    using w(1) by (simp add: on_list_def list_view_at_def)
  note refl = acts_refl [OF ok p]
  note args = plain_ident [OF ok vs]
  have set: "acts s p (JDict (AList.update k (hd vs) items)) 1 (changed (dict_setitem w k (hd vs) d s))"
    if "length vs = 1" for k
  proof -
    have live: "live s (hd vs)" and same: "ident s (hd vs) = hd vs" using args that by (cases vs; simp)+
    show ?thesis using acts_changed [OF dict_set_acts(1) [OF ok pw p w(1) live, of k]] same by simp
  qed
  have del: "refines s p (DictDel k) vs (JDict items) (dict_delitem w k d s)" for k
  proof -
    obtain r s' where rs: "dict_delitem w k d s = (r, s')" by fastforce
    show ?thesis using dict_delitem_acts [OF ok pw p w(1) rs] rs refl by (simp add: refines_def)
  qed
  have get: "refines s p (DictGet k) vs (JDict items) (dict_getitem w k d s)" for k
  proof -
    obtain r s' where rs: "dict_getitem w k d s = (r, s')" by fastforce
    show ?thesis using dict_getitem_acts(1,2) [OF ok pw p w(1) rs] rs
      by (simp add: refines_def split: option.splits)
  qed
  show ?thesis
  proof (cases x)
    case (DictGet k)
    then show ?thesis using get by simp
  next
    case (DictSet k v)
    then show ?thesis using set fit by (simp add: refines_def)
  next
    case (DictDel k)
    then show ?thesis using del by simp
  next
    case DictClear
    have "acts s p (JDict []) 0 (put_cell w (DictView (dict_cleared d)) s)"
    proof (rule acts_put(1) [OF ok pw w(6)])
      show "view_over p (JDict src) (DictView (dict_cleared d))"
        using w(7) dict_cleared_inv [OF w(4)] by (simp add: dict_cleared_def)
      show "list_all (live s) (cell_values (DictView (dict_cleared d)))" by (simp add: dict_cleared_def)
    qed (simp add: dict_cleared_contents)
    note cleared = acts_changed [OF this]
    have len: "dict_len src d = int (length items)" using dict_len_contents [OF w(4)] w(5) by simp
    show ?thesis
      using DictClear refl cleared len w(2,3) by (cases "items = []") (simp_all add: refines_def)
  next
    case (DictUpdate u)
    let ?kvs = "zip (map (key_string \<circ> fst) u) vs"
    have sub: "set (map snd ?kvs) \<subseteq> set vs" by (auto dest: set_zip_rightD)
    then have live: "list_all (live s) (map snd ?kvs)" using args(2) unfolding list_all_iff by blast
    have "ident s v = v" if "v \<in> set vs" for v using vs ident_plain [OF ok] that by (simp add: list_all_iff)
    then have "mapped (ident s) ?kvs = ?kvs" using sub by (auto intro!: map_idI)
    then have "acts s p (JDict (put_all ?kvs items)) 1 (changed (set_all w ?kvs s))"
      using acts_changed [OF set_all_acts [OF ok pw p live]] by simp
    then show ?thesis using DictUpdate refl by (simp add: refines_def)
  next
    case (DictGetOr k dflt)
    obtain r s' where rs: "dict_getitem w k d s = (r, s')" by fastforce
    show ?thesis
      using DictGetOr dict_getitem_acts(1,2) [OF ok pw p w(1) rs] rs refl
      by (cases "map_of items k") (simp_all add: refines_def dict_has_iff [OF ok pw p])
  next
    case (DictPop k dflt)
    show ?thesis
    proof (cases "map_of items k")
      case None
      then show ?thesis using DictPop refl
        by (cases dflt) (simp_all add: refines_def dict_has_iff [OF ok pw p])
    next
      case (Some v)
      obtain r s' where rs: "dict_take w k s = (r, s')" by fastforce
      show ?thesis using DictPop Some rs dict_take_acts [OF ok pw p Some rs]
        by (simp add: refines_def dict_has_iff [OF ok pw p])
    qed
  next
    case DictPopitem
    show ?thesis
    proof (cases "items = []")
      case True
      then show ?thesis using DictPopitem refl w by (simp add: refines_def dict_reversed_contents)
    next
      case False
      let ?k = "fst (last items)"
      have rev: "dict_reversed src d = rev (map fst items)"
        unfolding dict_reversed_contents w(5) by (simp add: comp_def split_def)
      then obtain ks where ks: "dict_reversed src d = ?k # ks"
        using False by (metis rev_map last_rev hd_rev list.collapse list.map_disc_iff rev_is_Nil_conv hd_map)
      obtain r s' where rs: "dict_take w ?k s = (r, s')" by fastforce
      note last = last_of_items [OF items_distinct [OF ok pw p] False]
      note t = dict_take_acts [OF ok pw p last(1) rs]
      obtain u where "r = Inr [u]" "ident s' u = snd (last items)" using t(1) by (cases r) auto
      then show ?thesis using DictPopitem False ks rs t(2) last(2) w by (simp add: refines_def)
    qed
  next
    case (DictSetdefault k v)
    show ?thesis
    proof (cases "map_of items k")
      case None
      then have one: "length vs = 1" using fit DictSetdefault by simp
      let ?s = "changed (dict_setitem w k (hd vs) d s)"
      have new: "AList.update k (hd vs) items = items @ [(k, hd vs)]"
      proof -
        have "AList.update k u xs = xs @ [(k, u)]" if "map_of xs k = None" for u :: jval and xs
          using that by (induction xs) (auto split: if_splits)
        then show ?thesis using None by simp
      qed
      note act = set [OF one, of k]
      have ok1: "views_ok ?s" and pw1: "map_of (containers ?s) p = Some w"
        and p1: "object ?s p = Some (JDict (items @ [(k, hd vs)]))"
        using act pw new by (simp_all add: acts_def)
      obtain d1 where w1: "cell_at ?s w = Some (DictView d1)" by (rule dict_viewE [OF ok1 pw1 p1]) auto
      obtain r s' where rs: "dict_getitem w k d1 ?s = (r, s')" by fastforce
      note g = dict_getitem_acts(1,2) [OF ok1 pw1 p1 w1 rs]
      have "map_of (items @ [(k, hd vs)]) k = Some (hd vs)" using None by (simp add: map_add_def)
      then show ?thesis
        using DictSetdefault None rs w1 g(2) acts_trans [OF act g(1)] dict_has_iff [OF ok pw p]
        by (simp add: refines_def on_dict_def dict_view_at_def w(1))
    next
      case (Some u)
      obtain r s' where rs: "dict_getitem w k d s = (r, s')" by fastforce
      show ?thesis using get [of k] Some DictSetdefault rs dict_has_iff [OF ok pw p] by (simp add: refines_def)
    qed
  qed (use refl in \<open>simp_all add: refines_def edit_list_def\<close>)
qed

lemma refines_edit:
  assumes "views_ok s" "map_of (containers s) p = Some w" "object s p = Some (JList items)"
    and "\<And>xs. set (f xs) \<subseteq> set xs \<union> set vs" "list_all (live s) vs"
    and "\<And>xs. map (ident s) (f xs) = g (map (ident s) xs)"
    and "apply_plain x vs (JList items) = (Inr [], JList (g items), True)"
  shows "refines s p x vs (JList items) (edit_list w f s)"
proof -
  obtain r s' where e: "edit_list w f s = (r, s')" by fastforce
  show ?thesis using edit_list_acts [OF assms(1-6) e] e assms(7) by (simp add: refines_def)
qed

lemma normal_index_length [simp]: "normal_index i (length (map f xs)) = normal_index i (length xs)"
  by simp

lemma map_del_at: "map f (del_at j xs) = del_at j (map f xs)"
  by (simp add: del_at_def take_map drop_map)

lemma map_concat_replicate: "map f (concat (replicate n xs)) = concat (replicate n (map f xs))"
  by (induction n) simp_all

lemma set_concat_replicate: "set (concat (replicate n xs)) \<subseteq> set xs"
  by (induction n) auto

lemma refines_list:
  assumes ok: "views_ok s" and pw: "map_of (containers s) p = Some w" and p: "object s p = Some (JList items)"
    and vs: "list_all (plain s) vs" and fit: "args_fit x (JList items) (length vs)"
  shows "refines s p x vs (JList items) (apply_view w x vs s)"
proof -
  obtain src l where w: "cell_at s w = Some (ListView l)" "cl_source l = None \<or> cl_source l = Some p"
    "cl_source l = Some p \<Longrightarrow> source_list s (cl_source l) = src" "list_inv src l"
    "items = map (ident s) (list_contents (source_list s (cl_source l)) l)" "cell_at s p = Some (Plain (JList src))"
    "view_over p (JList src) (ListView l)"
    by (rule list_viewE [OF ok pw p]) auto
  have view [simp]: "on_list w f s = f l s" for f using w(1) by (simp add: on_list_def list_view_at_def)
  have no_dict [simp]: "on_dict w f s = (Inl (TypeError ''not a dictionary view''), s)" for f
    using w(1) by (simp add: on_dict_def dict_view_at_def)
  let ?src = "source_list s (cl_source l)"
  have len: "list_len ?src l = length items" using w(5) by (simp add: length_list_contents)
  note refl = acts_refl [OF ok p]
  note args = plain_ident [OF ok vs]
  note edit = list_edit_acts [OF ok pw p w(1)]
  have id_edit: "list_edit (\<lambda>xs. xs) ?src l = list_materialize ?src l" by (simp add: list_edit_def Let_def)
  have inv: "list_inv ?src l" using w(2-4) by (intro list_inv_any) auto
  have mlen: "length (cl_items (list_materialize ?src l)) = length items"
    using list_materialize_contents(2) [OF inv] w(5) by simp
  have one: "live s (hd vs)" "ident s (hd vs) = hd vs" "set [hd vs] \<subseteq> set vs" if "length vs = 1"
    using args that by (cases vs; simp)+
  show ?thesis
  proof (cases x)
    case (ListGet i)
    obtain r s' where rs: "list_getitem w i l s = (r, s')" by fastforce
    show ?thesis using ListGet list_getitem_acts(1,2) [OF ok pw p w(1) rs] rs
      by (simp add: refines_def split: option.splits)
  next
    case (ListSet i v)
    then have n: "length vs = 1" using fit by simp
    show ?thesis
    proof (cases "normal_index i (length items)")
      case None
      then show ?thesis using ListSet refl len by (simp add: refines_def)
    next
      case (Some j)
      note put = acts_changed [OF list_put_acts(1) [OF ok pw p w(1) one(1) [OF n] normal_index_less [OF Some]]]
      then show ?thesis using ListSet Some len one(2) [OF n] by (simp add: refines_def)
    qed
  next
    case (ListDel i)
    show ?thesis
    proof (cases "normal_index i (length items)")
      case None
      have "acts s p (JList items) 0 (put_cell w (ListView (list_materialize ?src l)) s)"
        using edit [where f = "\<lambda>xs. xs" and g = "\<lambda>xs. xs" and vs = "[]"] by (simp add: id_edit)
      then show ?thesis using None ListDel mlen by (simp add: refines_def Let_def)
    next
      case (Some j)
      let ?m = "list_materialize ?src l"
      have "acts s p (JList (del_at j items)) 0 (put_cell w (ListView (list_edit (del_at j) ?src l)) s)"
        by (rule edit [where vs = "[]"]) (auto simp: map_del_at dest: in_set_del_at)
      from acts_changed [OF this] show ?thesis
        using Some ListDel mlen by (simp add: refines_def Let_def list_edit_def)
    qed
  next
    case (ListAppend v)
    then show ?thesis
      using refines_edit [OF ok pw p, where f = "\<lambda>xs. xs @ vs" and g = "\<lambda>xs. xs @ vs" and vs = vs] args by simp
  next
    case (ListExtend us)
    show ?thesis
    proof (cases "vs = []")
      case True
      then show ?thesis using refl ListExtend by (simp add: refines_def)
    next
      case False
      have "refines s p x vs (JList items) (edit_list w (\<lambda>xs. xs @ vs) s)"
        using ListExtend False args by (intro refines_edit [OF ok pw p, where g = "\<lambda>xs. xs @ vs"]) auto
      then show ?thesis using False ListExtend by simp
    qed
  next
    case (ListInsert i v)
    then have n: "length vs = 1" using fit by simp
    let ?f = "\<lambda>xs. insert_at (insert_position i (length xs)) (hd vs) xs"
    have "set (?f xs) \<subseteq> set xs \<union> set vs" for xs :: "jval list"
      using one(3) [OF n] by (auto simp: insert_at_def dest: in_set_takeD in_set_dropD)
    moreover have "map (ident s) (?f xs) = ?f (map (ident s) xs)" for xs
      using one(2) [OF n] by (simp add: insert_at_def take_map drop_map)
    ultimately show ?thesis
      using refines_edit [OF ok pw p, where f = ?f and g = ?f and vs = vs] args ListInsert by simp
  next
    case (ListPop i)
    obtain r s1 where get: "list_getitem w i l s = (r, s1)" by fastforce
    note g = list_getitem_acts [OF ok pw p w(1) get]
    show ?thesis
    proof (cases "normal_index i (length items)")
      case None
      then have "r = Inl (IndexError ''list index out of range'')" using g(2) by (cases r) auto
      then show ?thesis using None ListPop get g(1) by (simp add: refines_def)
    next
      case (Some j)
      then obtain u where u: "r = Inr [u]" "ident s1 u = items ! j" using g(2) by (cases r) auto
      have ok1: "views_ok s1" and pw1: "map_of (containers s1) p = Some w" and p1: "object s1 p = Some (JList items)"
        using g(1) pw by (simp_all add: acts_def)
      let ?f = "\<lambda>xs. case normal_index i (length xs) of None \<Rightarrow> xs | Some j \<Rightarrow> del_at j xs"
      obtain r2 s2 where e: "edit_list w ?f s1 = (r2, s2)" by fastforce
      have act: "acts s1 p (JList (?f items)) 1 s2"
        by (rule edit_list_acts(2) [OF ok1 pw1 p1 _ _ _ e, where vs = "[]"])
           (auto simp: map_del_at dest: in_set_del_at split: option.splits)
      have "ident s2 u = ident s1 u" using act g(3) [OF u(1)] by (simp add: acts_def)
      then show ?thesis using Some ListPop get e u acts_trans [OF g(1) act] by (simp add: refines_def)
    qed
  next
    case ListClear
    have "acts s p (JList []) 0 (put_cell w (ListView (list_cleared l)) s)"
      using own_items_acts [OF ok pw p, of "list_cleared l" l] w(1) by (simp add: list_cleared_def)
    from acts_changed [OF this] show ?thesis
      using ListClear refl len by (cases "items = []") (simp_all add: refines_def)
  next
    case ListReverse
    then show ?thesis
      using refines_edit [OF ok pw p, where f = rev and g = rev and vs = "[]" and x = ListReverse]
      by (simp add: rev_map refines_def)
  next
    case (ListRepeat n)
    let ?f = "\<lambda>xs. concat (replicate (nat n) xs)"
    have "refines s p x [] (JList items) (edit_list w ?f s)"
      using ListRepeat set_concat_replicate [of "nat n"]
      by (intro refines_edit [OF ok pw p, where g = ?f]) (auto simp: map_concat_replicate)
    then show ?thesis using ListRepeat by (simp add: refines_def)
  qed (use refl in \<open>simp_all add: refines_def\<close>)
qed


section \<open>Clones read as the values cloned\<close>

fun reads :: "view_state \<Rightarrow> pyval \<Rightarrow> jval \<Rightarrow> bool"
  and reads_list :: "view_state \<Rightarrow> pyval list \<Rightarrow> jval list \<Rightarrow> bool"
  and reads_items :: "view_state \<Rightarrow> pydict \<Rightarrow> (string \<times> jval) list \<Rightarrow> bool" where
  "reads s PNone v = (v = Atom ANull)"
| "reads s (PBool b) v = (v = Atom (ABool b))"
| "reads s (PInt n) v = (v = Atom (AInt n))"
| "reads s (PFloat f) v = (v = Atom (AFloat f))"
| "reads s (PStr t) v = (v = Atom (AStr t))"
| "reads s (POther n) v = False"
| "reads s (PList ts) v = (case v of Atom _ \<Rightarrow> False
     | Ref a \<Rightarrow> (case object s a of Some (JList vs) \<Rightarrow> reads_list s ts vs | _ \<Rightarrow> False))"
| "reads s (PDict ts) v = (case v of Atom _ \<Rightarrow> False
     | Ref a \<Rightarrow> (case object s a of Some (JDict vs) \<Rightarrow> reads_items s ts vs | _ \<Rightarrow> False))"
| "reads_list s [] vs = (vs = [])"
| "reads_list s (t # ts) vs = (case vs of [] \<Rightarrow> False | v # vs \<Rightarrow> reads s t v \<and> reads_list s ts vs)"
| "reads_items s [] vs = (vs = [])"
| "reads_items s ((k, t) # ts) vs = (case vs of [] \<Rightarrow> False
     | (k', v) # vs \<Rightarrow> k = PStr k' \<and> reads s t v \<and> reads_items s ts vs)"

text \<open>Every dict of a Python value has distinct keys.\<close>

fun dict_keys_distinct :: "pyval \<Rightarrow> bool" where
  "dict_keys_distinct (PList vs) = (\<forall>v \<in> set vs. dict_keys_distinct v)"
| "dict_keys_distinct (PDict d) = (distinct (map fst d) \<and> (\<forall>(k, v) \<in> set d. dict_keys_distinct v))"
| "dict_keys_distinct _ = True"

lemma reads_grown:
  assumes "\<And>p. object s p \<noteq> None \<Longrightarrow> object s' p = object s p"
  shows "reads s t v \<Longrightarrow> reads s' t v" "reads_list s ts vs \<Longrightarrow> reads_list s' ts vs"
    "reads_items s d kvs \<Longrightarrow> reads_items s' d kvs"
  using assms
proof (induction s t v and s ts vs and s d kvs rule: reads_reads_list_reads_items.induct)
  case (7 s ts v)
  then obtain a vs where "v = Ref a" "object s a = Some (JList vs)" "reads_list s ts vs"
    by (auto split: jval.splits option.splits container.splits)
  then show ?case using 7(1) 7(3) [of a] by (simp add: 7(3))
next
  case (8 s ts v)
  then obtain a vs where "v = Ref a" "object s a = Some (JDict vs)" "reads_items s ts vs"
    by (auto split: jval.splits option.splits container.splits)
  then show ?case using 8(1) 8(3) [of a] by (simp add: 8(3))
qed (auto split: list.splits prod.splits)

lemma clone_all_grown:
  "views_ok s \<Longrightarrow> clone_all ts s = Inr (vs, s') \<Longrightarrow>
   grown s s' \<and> list_all (plain s') vs \<and> length vs = length ts"
proof (induction ts arbitrary: s vs)
  case Nil
  then show ?case by (simp add: grown_refl)
next
  case (Cons t ts)
  obtain w s1 us where w: "clone_value False t s = Inr (w, s1)" "clone_all ts s1 = Inr (us, s')" "vs = w # us"
    using Cons.prems(2) by (auto simp: rbind_eq_Inr)
  then obtain t' where "build_value False t' s = (w, s1)" by (auto simp: clone_value_def rbind_eq_Inr)
  then have g: "grown s s1" "plain s1 w" using build_grown(1) [OF Cons.prems(1)] by blast+
  then have rest: "grown s1 s'" "list_all (plain s') us" "length us = length ts"
    using Cons.IH [OF _ w(2)] by (simp_all add: grown_def)
  have "plain s' w" using rest(1) g(2) extends_refs(2) by (auto simp: grown_def)
  then show ?case using rest w(3) grown_trans [OF g(1) rest(1)] by simp
qed

lemma put_all_distinct_id:
  "distinct (map fst kvs) \<Longrightarrow> keys_of kvs \<inter> keys_of d = {} \<Longrightarrow> put_all kvs d = d @ kvs"
proof (induction kvs d rule: put_all.induct)
  case (2 k v kvs d)
  have "AList.update k v d = d @ [(k, v)]" if "k \<notin> keys_of d"
    using that by (induction d) auto
  moreover have "k \<notin> keys_of kvs" using "2.prems"(1) by (simp add: keys_set)
  ultimately show ?case using 2 by auto
qed simp

lemma reads_items_keys: "reads_items s d kvs \<Longrightarrow> map fst d = map (PStr \<circ> fst) kvs"
  by (induction d arbitrary: kvs) (auto split: list.splits)

lemma build_reads:
  "views_ok s \<Longrightarrow> build_value b v s = (w, s') \<Longrightarrow> is_json_value_at n v \<Longrightarrow> dict_keys_distinct v \<Longrightarrow> reads s' v w"
  "views_ok s \<Longrightarrow> build_list b vs s = (ws, s') \<Longrightarrow> \<forall>v \<in> set vs. is_json_value_at n v \<and> dict_keys_distinct v \<Longrightarrow>
    reads_list s' vs ws"
  "views_ok s \<Longrightarrow> build_items b d s = (kws, s') \<Longrightarrow>
    \<forall>(k, v) \<in> set d. is_str k \<and> is_json_value_at n v \<and> dict_keys_distinct v \<Longrightarrow> reads_items s' d kws"
proof (induction b v s and b vs s and b d s arbitrary: n w s' and n ws s' and n kws s'
    rule: build_value_build_list_build_items.induct)
  case (7 b vs s)
  obtain ws s1 where l: "build_list b vs s = (ws, s1)" by fastforce
  obtain a s2 where n: "new_cell (Plain (JList ws)) s1 = (a, s2)" by fastforce
  have g: "grown s s1" "list_all (plain s1) ws" using build_grown(2) [OF 7(2) l] by simp_all
  then have g1: "grown s1 (mark b a (JList ws) s2)" "object (mark b a (JList ws) s2) a = Some (JList ws)"
    using grown_new [OF _ n, of b] by (simp_all add: grown_def)
  have "reads_list s1 vs ws" using 7(1) [OF 7(2) l, of "Suc n"] 7(4,5) by simp
  then have "reads_list (mark b a (JList ws) s2) vs ws" using g1(1) by (auto simp: grown_def intro: reads_grown)
  then show ?case using 7(3) l n g1(2) by auto
next
  case (8 b d s)
  obtain ws s1 where l: "build_items b d s = (ws, s1)" by fastforce
  let ?e = "put_all ws []"
  obtain a s2 where n: "new_cell (Plain (JDict ?e)) s1 = (a, s2)" by fastforce
  have g: "grown s s1" "list_all (plain s1) (map snd ws)" using build_grown(3) [OF 8(2) l] by simp_all
  have "list_all (plain s1) (map snd ?e)" using g(2) put_all_values [of ws "[]"]
    unfolding list_all_iff set_map by (simp only: list.set image_empty Un_empty_right) blast
  then have g1: "grown s1 (mark b a (JDict ?e) s2)" "object (mark b a (JDict ?e) s2) a = Some (JDict ?e)"
    using grown_new [OF _ n, of b] g(1) by (simp_all add: grown_def put_all_distinct)
  have "\<forall>(k, v) \<in> set d. is_str k \<and> is_json_value_at (Suc n) v \<and> dict_keys_distinct v" using 8(4,5) by auto
  then have r: "reads_items s1 d ws" by (rule 8(1) [OF 8(2) l])
  have "distinct (map fst d)" using 8(5) by simp
  then have "distinct (map (PStr \<circ> fst) ws)" by (simp only: reads_items_keys [OF r])
  then have "distinct (map fst ws)" by (simp add: distinct_map inj_on_def)
  then have e: "?e = ws" using put_all_distinct_id [of ws "[]"] by simp
  have "reads_items (mark b a (JDict ?e) s2) d ?e" using g1(1) r unfolding e by (auto simp: grown_def intro: reads_grown)
  then show ?case using 8(3) l n g1(2) by (auto simp: e)
next
  case (10 b v vs s)
  obtain w s1 where v: "build_value b v s = (w, s1)" by fastforce
  obtain us s2 where l: "build_list b vs s1 = (us, s2)" by fastforce
  have g: "grown s s1" using build_grown(1) [OF 10(3) v] by simp
  then have ok: "views_ok s1" by (simp add: grown_def)
  have "grown s1 s2" using build_grown(2) [OF ok l] by simp
  moreover have "reads s1 v w" using 10(1) [OF 10(3) v, of n] 10(5) by simp
  ultimately have "reads s2 v w" by (auto simp: grown_def intro: reads_grown)
  moreover have "reads_list s2 vs us" using 10(2) [OF v [symmetric] refl ok l, of n] 10(5) by simp
  ultimately show ?case using 10(4) v l by auto
next
  case (12 b k v d s)
  obtain w s1 where v: "build_value b v s = (w, s1)" by fastforce
  obtain us s2 where l: "build_items b d s1 = (us, s2)" by fastforce
  have g: "grown s s1" using build_grown(1) [OF 12(3) v] by simp
  then have ok: "views_ok s1" by (simp add: grown_def)
  have "grown s1 s2" using build_grown(3) [OF ok l] by simp
  moreover have "reads s1 v w" using 12(1) [OF 12(3) v, of n] 12(5) by simp
  ultimately have "reads s2 v w" by (auto simp: grown_def intro: reads_grown)
  moreover have "reads_items s2 d us" using 12(2) [OF v [symmetric] refl ok l, of n] 12(5) by simp
  ultimately show ?case using 12(4,5) v l by (cases k) auto
qed auto


lemma clone_all_reads:
  "views_ok s \<Longrightarrow> clone_all ts s = Inr (vs, s') \<Longrightarrow> list_all dict_keys_distinct ts \<Longrightarrow> reads_list s' ts vs"
proof (induction ts arbitrary: s vs)
  case (Cons t ts)
  obtain w s1 us where w: "clone_value False t s = Inr (w, s1)" "clone_all ts s1 = Inr (us, s')" "vs = w # us"
    using Cons.prems(2) by (auto simp: rbind_eq_Inr)
  then have b: "build_value False t s = (w, s1)" "is_json_value_at 0 t"
    by (auto simp: clone_value_def rbind_eq_Inr clone_json_iff)
  have g: "grown s s1" using build_grown(1) [OF Cons.prems(1) b(1)] by simp
  then have ok: "views_ok s1" by (simp add: grown_def)
  have "reads s1 t w" using build_reads(1) [OF Cons.prems(1) b] Cons.prems(3) by simp
  then have "reads s' t w" using clone_all_grown [OF ok w(2)] by (auto simp: grown_def intro: reads_grown)
  then show ?case using Cons.IH [OF ok w(2)] w(3) Cons.prems(3) by simp
qed simp

lemma reads_items_values: "reads_items s d kvs \<Longrightarrow> reads_list s (map snd d) (map snd kvs)"
  by (induction d arbitrary: kvs) (auto split: list.splits)

section \<open>Construction, queries and iteration\<close>

text \<open>\<open>ValidatedJsonObject(value)\<close> and the first wrapping of its root by a new owner.\<close>

definition empty_store :: view_state where
  "empty_store = \<lparr>cells = [], containers = [], scalar_map = [], notified = 0\<rparr>"

definition copy_on_write_view :: "pyval \<Rightarrow> exn + (jval \<times> view_state)" where
  "copy_on_write_view v =
     (if \<not> is_dict v then Inl (ValueError ''expected a JSON object'')
      else rbind (clone_value True v empty_store) (\<lambda>(r, s). Inr (wrap r s)))"

lemma empty_store_ok: "views_ok empty_store"
  by (simp add: views_ok_def empty_store_def cell_at_def)

lemma copy_on_write_view_ok:
  assumes "copy_on_write_view v = Inr (r, s)"
  shows "views_ok s \<and> (dict_keys_distinct v \<longrightarrow> reads s v (ident s r)) \<and> notified s = 0"
proof -
  obtain r0 s0 where b: "build_value True v empty_store = (r0, s0)" and json: "is_json_value_at 0 v"
    and wrap: "wrap r0 s0 = (r, s)"
  proof -
    obtain r0 s0 where c: "clone_value True v empty_store = Inr (r0, s0)" "wrap r0 s0 = (r, s)"
      using assms by (auto simp: copy_on_write_view_def rbind_eq_Inr split: if_splits)
    moreover from c(1) have "build_value True v empty_store = (r0, s0)" "is_json_value_at 0 v"
      by (auto simp: clone_value_def rbind_eq_Inr clone_json_iff)
    ultimately show ?thesis using that by blast
  qed
  have g: "grown empty_store s0" "plain s0 r0" using build_grown(1) [OF empty_store_ok b] by simp_all
  then have ok: "views_ok s0" "notified s0 = 0" by (simp_all add: grown_def empty_store_def)
  have live: "live s0 r0" using g(2) by (cases r0) auto
  note w = wrap_view [OF ok(1) live wrap]
  have "reads s v (ident s r)" if "dict_keys_distinct v"
    using build_reads(1) [OF empty_store_ok b json that] w(3,6) ident_plain [OF ok(1) g(2)]
    by (auto intro: reads_grown(1) [of s0])
  then show ?thesis using w(1,4) ok(2) by simp
qed

text \<open>Length, membership and iteration in both directions, without touching the view.\<close>

lemma dict_queries:
  assumes "views_ok s" "map_of (containers s) p = Some w" "object s p = Some (JDict items)"
    "cell_at s w = Some (DictView d)"
  shows "dict_len (source_items s (cd_source d)) d = int (length items)"
    "dict_iter (source_items s (cd_source d)) d = map fst items"
    "dict_reversed (source_items s (cd_source d)) d = rev (map fst items)"
    "dict_contains (source_items s (cd_source d)) d k \<longleftrightarrow> k \<in> keys_of items"
proof -
  obtain src where d: "cd_source d = p" "source_items s p = src" "dict_inv src d"
    "items = mapped (ident s) (dict_contents src d)"
    by (rule dict_viewE [OF assms(1-3)]) (use assms(4) in auto)
  have keys: "map fst items = map fst (dict_contents src d)" unfolding d(4) by (simp add: comp_def split_def)
  show "dict_len (source_items s (cd_source d)) d = int (length items)"
    unfolding d(1,2) dict_len_contents [OF d(3)] d(4) by simp
  show "dict_iter (source_items s (cd_source d)) d = map fst items"
    unfolding d(1,2) dict_iter_contents keys ..
  show "dict_reversed (source_items s (cd_source d)) d = rev (map fst items)"
    unfolding d(1,2) dict_reversed_contents keys ..
  show "dict_contains (source_items s (cd_source d)) d k \<longleftrightarrow> k \<in> keys_of items"
    unfolding d(1,2) dict_contains_contents d(4) by simp
qed

text \<open>
  \<open>_has_unchanged_scalar_source\<close>, and the corresponding test of a list's \<open>__iter__\<close>: the items are then taken
  from the source at once. The remembered answer is stored in the view.
\<close>

definition unchanged_scalar_source :: "(string \<times> jval) list \<Rightarrow> cow_dict \<Rightarrow> bool \<times> cow_dict" where
  "unchanged_scalar_source src d =
     (if cd_cleared d \<or> cd_updated d \<noteq> None \<or> cd_added d \<noteq> None \<or> cd_deleted d \<noteq> None then (False, d)
      else case cd_only_scalars d of
        None \<Rightarrow> let b = only_scalars (JDict src) in (b, d\<lparr>cd_only_scalars := Some b\<rparr>)
      | Some b \<Rightarrow> (b, d))"

definition list_scalar_source :: "jval list \<Rightarrow> cow_list \<Rightarrow> bool \<times> cow_list" where
  "list_scalar_source src l =
     (if cl_source l \<noteq> None \<and> cl_wrapped l = None then
        (case cl_only_scalars l of
           None \<Rightarrow> let b = only_scalars (JList src) in (b, l\<lparr>cl_only_scalars := Some b\<rparr>)
         | Some b \<Rightarrow> (b, l))
      else (False, l))"

lemma kept_all: "(\<And>k. k \<in> keys_of xs \<Longrightarrow> P k) \<Longrightarrow> kept P xs = xs"
  by (induction xs) auto

lemma fast_iteration:
  "view_over p (JDict src) (DictView d) \<Longrightarrow> unchanged_scalar_source src d = (True, d') \<Longrightarrow>
     dict_contents src d = src \<and> only_scalars (JDict src) \<and> view_over p (JDict src) (DictView d')"
  "view_over p (JList ls) (ListView l) \<Longrightarrow> list_scalar_source ls l = (True, l') \<Longrightarrow>
     list_contents ls l = ls \<and> only_scalars (JList ls) \<and> view_over p (JList ls) (ListView l')"
proof -
  assume d: "view_over p (JDict src) (DictView d)" "unchanged_scalar_source src d = (True, d')"
  then have parts: "\<not> cd_cleared d" "cd_updated d = None" "cd_added d = None" "cd_deleted d = None"
    "only_scalars (JDict src)" "d' = d \<or> d' = d\<lparr>cd_only_scalars := Some True\<rparr>"
    by (auto simp: unchanged_scalar_source_def Let_def split: if_splits option.splits)
  have "patched [] xs = xs" for xs by (induction xs) auto
  moreover have "kept (source_key_visible src d) src = src" using parts by (intro kept_all) (simp add: visible_iff)
  ultimately have "dict_contents src d = src" using parts by (simp add: dict_contents_def)
  then show "dict_contents src d = src \<and> only_scalars (JDict src) \<and> view_over p (JDict src) (DictView d')"
    using parts d(1) by (auto simp: dict_inv_def)
next
  assume l: "view_over p (JList ls) (ListView l)" "list_scalar_source ls l = (True, l')"
  then have parts: "cl_source l \<noteq> None" "cl_wrapped l = None" "only_scalars (JList ls)"
    "l' = l \<or> l' = l\<lparr>cl_only_scalars := Some True\<rparr>"
    by (auto simp: list_scalar_source_def Let_def split: if_splits option.splits)
  then have "list_contents ls l = ls" by (auto simp: list_contents_def list_item_def intro!: nth_equalityI)
  then show "list_contents ls l = ls \<and> only_scalars (JList ls) \<and> view_over p (JList ls) (ListView l')"
    using parts l(1) by (auto simp: list_inv_def)
qed

section \<open>Properties\<close>

text \<open>The arguments that a call clones.\<close>

fun op_args :: "view_op \<Rightarrow> pyval list" where
  "op_args (DictSet k v) = [v]"
| "op_args (DictUpdate d) = map snd d"
| "op_args (DictSetdefault k v) = [v]"
| "op_args (ListSet i v) = [v]"
| "op_args (ListAppend v) = [v]"
| "op_args (ListExtend vs) = vs"
| "op_args (ListInsert i v) = [v]"
| "op_args _ = []"

lemma clone_args_grown:
  assumes "views_ok s" "clone_args w x s = Inr (vs, s')"
  shows "grown s s' \<and> list_all (plain s') vs"
proof (cases x)
  case (DictUpdate d)
  obtain kvs s1 where b: "build_items False d s = (kvs, s1)" by fastforce
  then show ?thesis using assms(2) DictUpdate build_grown(3) [OF assms(1) b] by (auto simp: rbind_eq_Inr)
qed (use assms in \<open>auto simp: grown_refl dest: clone_all_grown split: if_splits simp del: clone_all.simps\<close>)

lemma clone_args_reads:
  assumes "views_ok s" "clone_args w x s = Inr (vs, s')" "list_all dict_keys_distinct (op_args x)"
    "\<forall>k v. x = DictSetdefault k v \<longrightarrow> \<not> dict_has s w k"
  shows "reads_list s' (op_args x) vs"
proof (cases x)
  case (DictUpdate d)
  obtain kvs s1 where b: "build_items False d s = (kvs, s1)" by fastforce
  then have "\<forall>(k, v) \<in> set d. is_str k \<and> is_json_value_at (Suc 0) v"
    using assms(2) DictUpdate
    by (auto simp: rbind_eq_Inr clone_json_iff simp del: clone_json_value.simps)
  then have "reads_items s1 d kvs"
    using build_reads(3) [OF assms(1) b, of "Suc 0"] assms(3) DictUpdate by (fastforce simp: list_all_iff)
  then show ?thesis using assms(2) DictUpdate b by (auto simp: rbind_eq_Inr dest: reads_items_values)
qed (use assms in \<open>auto dest: clone_all_reads split: if_splits simp del: clone_all.simps reads_list.simps(2)\<close>)

lemma clone_args_fit:
  assumes "views_ok s" "clone_args w x s = Inr (vs, s')" "map_of (containers s) p = Some w" "object s p = Some c"
  shows "args_fit x c (length vs)"
proof (cases x)
  case (DictSetdefault k v)
  then show ?thesis
    using assms(2) clone_all_grown [OF assms(1), of "[v]" vs s'] dict_has_iff [OF assms(1,3), of _ k] assms(4)
    by (cases c) (auto split: if_splits simp del: clone_all.simps)
qed (use assms(1,2) in \<open>auto dest: clone_all_grown simp del: clone_all.simps\<close>)



text \<open>Any sequence of calls, on any addresses that the program holds.\<close>

definition view_call :: "nat \<times> view_op \<Rightarrow> view_state \<Rightarrow> view_state" where
  "view_call wx s = snd (view_step (fst wx) (snd wx) s)"

lemma apply_no_view:
  assumes "w \<notin> views s" "views_ok s"
  shows "snd (apply_view w x vs s) = s"
proof -
  have "dict_view_at s w = None" "list_view_at s w = None"
    using views_okD(4) [OF assms(2), of w] assms(1)
    by (auto simp: dict_view_at_def list_view_at_def split: option.splits cell.splits)
  then show ?thesis by (cases x) (simp_all add: on_dict_def on_list_def edit_list_def)
qed

lemma grown_keeps:
  "grown s s' \<Longrightarrow> cell_at s a = Some c \<Longrightarrow> cell_at s' a = Some c" "grown s s' \<Longrightarrow> views_ok s'"
  by (simp_all add: grown_def extends_def)

lemma view_call_keeps:
  assumes "views_ok s"
  shows "views_ok (view_call wx s) \<and> (cell_at s a = Some (Plain c) \<longrightarrow> cell_at (view_call wx s) a = Some (Plain c))"
proof -
  obtain w x where wx: "wx = (w, x)" by fastforce
  show ?thesis
  proof (cases "clone_args w x s")
    case (Inl e)
    then show ?thesis using assms by (simp add: view_call_def view_step_def wx)
  next
    case (Inr y)
    then obtain vs s1 where a: "clone_args w x s = Inr (vs, s1)" by (cases y) auto
    have g: "grown s s1" "list_all (plain s1) vs" using clone_args_grown [OF assms a] by simp_all
    note keep = grown_keeps [OF g(1)]
    have call: "view_call wx s = snd (apply_view w x vs s1)" using a by (simp add: view_call_def view_step_def wx)
    show ?thesis
    proof (cases "w \<in> views s1")
      case False
      then show ?thesis using call apply_no_view keep by simp
    next
      case True
      then obtain p where p: "map_of (containers s1) p = Some w" using views_iff [OF keep(2)] by blast
      obtain c' v where cv: "cell_at s1 p = Some (Plain c')" "cell_at s1 w = Some v"
        using views_okD(3) [OF keep(2) p] by blast
      then obtain d where d: "object s1 p = Some d"
        using plain_not_view [OF keep(2) cv(1)] p by (simp add: object_def)
      have p0: "map_of (containers s) p = Some w" "views_ok s" using p g(1) assms by (simp_all add: grown_def)
      obtain c0 v0 where "cell_at s p = Some (Plain c0)" "cell_at s w = Some v0"
        using views_okD(3) [OF assms p0(1)] by blast
      then obtain d0 where d0: "object s p = Some d0"
        using plain_not_view [OF assms] p0(1) by (auto simp: object_def)
      then have "d0 = d" using g(1) d by (simp add: grown_def)
      then have fit: "args_fit x d (length vs)" using clone_args_fit [OF assms a p0(1)] d0 by simp
      obtain r s2 where rs: "apply_view w x vs s1 = (r, s2)" by fastforce
      have "refines s1 p x vs d (r, s2)"
      proof (cases d)
        case (JDict items)
        then show ?thesis using refines_dict [OF keep(2) p _ g(2), of items x] d fit rs by simp
      next
        case (JList items)
        then show ?thesis using refines_list [OF keep(2) p _ g(2), of items x] d fit rs by simp
      qed
      then obtain c'' n where "acts s1 p c'' n s2" by (auto simp: refines_def split: prod.splits)
      then show ?thesis using call rs keep by (simp add: acts_def)
    qed
  qed
qed

interpretation views: invariant_machine view_call views_ok
  by unfold_locales (use view_call_keeps in blast)

interpretation source: latch_machine view_call views_ok "\<lambda>s. cell_at s a = Some (Plain c)" for a c
  by unfold_locales (use view_call_keeps in blast)

text \<open>
  C37. Views isolate: whatever is called on the views of an owner, and in whatever order, every container
  of the shared snapshot keeps its contents, so that all other views of it are unaffected.
\<close>

theorem views_never_write_source:
  assumes "copy_on_write_view v = Inr (r, s)" and "cell_at s a = Some (Plain c)"
  shows "views_ok (fold view_call calls s) \<and> cell_at (fold view_call calls s) a = Some (Plain c)"
proof -
  have "views_ok s" using copy_on_write_view_ok [OF assms(1)] by blast
  then show ?thesis using views.inv_run source.latched_run assms(2) by blast
qed

section \<open>Collection\<close>

text \<open>
  A container that nothing refers to is collected. The owner's table does not count: it holds the
  container's identity, and the view of a list forgets its source when it takes its own copy.
\<close>

definition refers :: "nat \<Rightarrow> cell \<Rightarrow> bool" where
  "refers a c = (Ref a \<in> set (cell_values c) \<or>
     (case c of DictView d \<Rightarrow> cd_source d = a | ListView l \<Rightarrow> cl_source l = Some a | Plain _ \<Rightarrow> False))"

definition collect :: "nat \<Rightarrow> view_state \<Rightarrow> view_state" where
  "collect a s =
     (if list_all (\<lambda>x. case x of None \<Rightarrow> True | Some c \<Rightarrow> \<not> refers a c) (cells s)
      then s\<lparr>cells := (cells s)[a := None]\<rparr> else s)"

lemmas view_evals =
  view_call_def view_step_def clone_value_def on_dict_def on_list_def dict_view_at_def list_view_at_def
  dict_getitem_def dict_setitem_def edit_list_def list_edit_def list_materialize_def changed_def put_cell_def
  new_cell_def free_address_def cell_at_def wrap_def source_items_def source_list_def new_dict_view_def
  new_list_view_def dict_find_def dict_set_cloned_def dict_cache_def has_key_def source_key_visible_def
  mark_def Let_def max_json_depth_def

definition empty_view :: view_state where
  "empty_view = \<lparr>cells = [Some (Plain (JDict [])), Some (DictView (new_dict_view 0 (Some True)))],
     containers = [(0, 1)], scalar_map = [(0, True)], notified = 0\<rparr>"

lemma view_of_empty: "copy_on_write_view (PDict []) = Inr (Ref 1, empty_view)"
  by (simp add: copy_on_write_view_def empty_view_def empty_store_def view_evals)

definition stale_calls :: "(nat \<times> view_op) list" where
  "stale_calls = [(1, DictSet ''a'' (PList [PInt 1])), (1, DictGet ''a''), (3, ListAppend (PInt 2))]"

definition appended :: "cell option \<Rightarrow> view_state" where
  "appended x =
     \<lparr>cells = [Some (Plain (JDict [])),
        Some (DictView \<lparr>cd_source = 0, cd_only_scalars = Some True, cd_updated = None,
          cd_added = Some [(''a'', Ref 3)], cd_deleted = None, cd_cleared = False\<rparr>), x,
        Some (ListView \<lparr>cl_source = None, cl_only_scalars = None, cl_wrapped = None,
          cl_items = [Atom (AInt 1), Atom (AInt 2)]\<rparr>)],
      containers = [(0, 1), (2, 3)], scalar_map = [(0, True)], notified = 2\<rparr>"

lemma appended_states:
  "fold view_call stale_calls empty_view = appended (Some (Plain (JList [Atom (AInt 1)])))"
  "collect 2 (appended (Some (Plain (JList [Atom (AInt 1)])))) = appended None"
  by (simp_all add: stale_calls_def empty_view_def appended_def view_evals collect_def refers_def)

text \<open>
  The list assigned to \<open>b\<close> gets the address of the collected source of the list at \<open>a\<close>, and reading \<open>b\<close>
  then gives the view of \<open>a\<close>, with the items 1 and 2: the table still has the old identity.
\<close>

lemma stale_view:
  "case copy_on_write_view (PDict []) of
     Inl e \<Rightarrow> False
   | Inr (r, s) \<Rightarrow>
       let s1 = collect 2 (fold view_call stale_calls s);
           s2 = view_call (1, DictSet ''b'' (PList [PInt 9])) s1
       in r = Ref 1 \<and> cell_at s2 2 = Some (Plain (JList [Atom (AInt 9)])) \<and>
          fst (view_step 1 (DictGet ''a'') s2) = Inr [Ref 3] \<and> fst (view_step 1 (DictGet ''b'') s2) = Inr [Ref 3] \<and>
          object s2 2 = Some (JList [Atom (AInt 1), Atom (AInt 2)])"
proof -
  define s2 where "s2 = view_call (1, DictSet ''b'' (PList [PInt 9])) (appended None)"
  have s2: "s2 =
     \<lparr>cells = [Some (Plain (JDict [])),
        Some (DictView \<lparr>cd_source = 0, cd_only_scalars = Some True, cd_updated = None,
          cd_added = Some [(''a'', Ref 3), (''b'', Ref 2)], cd_deleted = None, cd_cleared = False\<rparr>),
        Some (Plain (JList [Atom (AInt 9)])),
        Some (ListView \<lparr>cl_source = None, cl_only_scalars = None, cl_wrapped = None,
          cl_items = [Atom (AInt 1), Atom (AInt 2)]\<rparr>)],
      containers = [(0, 1), (2, 3)], scalar_map = [(0, True)], notified = 3\<rparr>"
    unfolding s2_def by (simp add: appended_def view_evals)
  have "cell_at s2 2 = Some (Plain (JList [Atom (AInt 9)]))" by (simp add: s2 cell_at_def)
  moreover have "fst (view_step 1 (DictGet ''a'') s2) = Inr [Ref 3]" by (simp add: s2 view_evals)
  moreover have "fst (view_step 1 (DictGet ''b'') s2) = Inr [Ref 3]" by (simp add: s2 view_evals)
  moreover have "object s2 2 = Some (JList [Atom (AInt 1), Atom (AInt 2)])"
    by (simp add: s2 object_def views_def cell_at_def list_contents_def)
  ultimately show ?thesis unfolding view_of_empty sum.case prod.case appended_states Let_def s2_def by blast
qed

section \<open>Witnesses\<close>

lemma views_never_write_source_witness:
  "cell_at (fold view_call stale_calls empty_view) 0 = Some (Plain (JDict []))"
proof -
  have "cell_at empty_view 0 = Some (Plain (JDict []))" by (simp add: empty_view_def cell_at_def)
  from views_never_write_source [OF view_of_empty this, of stale_calls] show ?thesis by blast
qed


end
