(* ===== verification/Writer.thy ===== *)
theory Writer
  imports Completion TransportQueue "HOL-Library.AList"
begin

text \<open>
  messaging/writer.py: the worker that takes accepted commands, encodes them, submits their frames and
  carries the outcome of a frame's receipt back to the command's completion. Completions are the controls
  of theory Completion and receipts those of theory TransportQueue, both by number. What ends a command
  or a receipt is one step together with the callbacks that the writer has registered; the
  callback of the one that is finished by the other finds it finished already and raises no more than the
  \<open>InvalidStateError\<close> that the writer swallows. The worker is modelled by the segments between which other
  threads can end a command or its receipt; the encoder and the frame sink answer as the steps say.
\<close>

section \<open>State\<close>

record writer =
  wr_thread :: bool
  wr_started :: bool
  wr_stop_requested :: bool
  wr_stopped :: bool
  wr_source_idle :: bool
  wr_in_flight :: "nat option"
  wr_pending :: "(nat \<times> nat) list"
  wr_commands_received :: nat
  wr_serialized :: nat
  wr_frames_enqueued :: nat
  wr_serialization_failures :: nat
  wr_raw_outbound_failures :: nat
  wr_completed :: nat
  wr_completion_failures :: nat
  wr_discarded_during_shutdown :: nat

definition new_writer :: writer where
  "new_writer =
     \<lparr>wr_thread = False, wr_started = False, wr_stop_requested = False, wr_stopped = False,
      wr_source_idle = False, wr_in_flight = None, wr_pending = [], wr_commands_received = 0,
      wr_serialized = 0, wr_frames_enqueued = 0, wr_serialization_failures = 0,
      wr_raw_outbound_failures = 0, wr_completed = 0, wr_completion_failures = 0,
      wr_discarded_during_shutdown = 0\<rparr>"

text \<open>
  Where the worker is; the numbers are the completion in hand and the receipt of its frame. \<open>Some e\<close> at
  the end of a command is the \<open>BaseException\<close> that ends the worker.
\<close>

datatype writer_point =
    NoWriter
  | AwaitingCommand
  | TakenCommand nat
  | Processing nat
  | Encoding nat
  | Serialized nat
  | Registered nat nat
  | Submitting nat nat
  | AwaitingSink nat nat
  | CommandDone nat "exn option"
  | WriterLeaving
  | WriterGone

text \<open>
  The writer with the controls and receipts of the program. \<open>ws_receipt_of\<close> tells for which receipt the
  callback \<open>_terminate_receipt\<close> of a completion was registered, \<open>ws_taken\<close> the commands the worker
  took, \<open>ws_frames\<close> the receipts it made with their commands, \<open>ws_next_receipt\<close> the next new receipt,
  \<open>ws_fatal\<close> the errors of the fatal-error callback.
\<close>

record writer_system =
  ws_writer :: writer
  ws_controls :: "nat \<Rightarrow> command_control"
  ws_receipts :: "nat \<Rightarrow> receipt"
  ws_receipt_of :: "nat \<Rightarrow> nat option"
  ws_frames :: "(nat \<times> nat) list"
  ws_next_receipt :: nat
  ws_point :: writer_point
  ws_taken :: "nat list"
  ws_fatal :: "exn list"

section \<open>Completions and receipts\<close>

definition set_control :: "nat \<Rightarrow> command_control \<Rightarrow> writer_system \<Rightarrow> writer_system" where
  "set_control c control s = s\<lparr>ws_controls := (ws_controls s)(c := control)\<rparr>"

text \<open>\<open>_finish\<close> of a receipt and its callback \<open>_complete_receipt\<close> up to the lookup of the completion.\<close>

definition close_receipt :: "nat \<Rightarrow> exn option \<Rightarrow> writer_system \<Rightarrow> (writer_system \<times> nat option) option" where
  "close_receipt r err s =
     (case receipt_finish err (ws_receipts s r) of
        Inl _ \<Rightarrow> None
      | Inr (receipt, _) \<Rightarrow>
          Some (s\<lparr>ws_receipts := (ws_receipts s)(r := receipt),
                  ws_writer := (ws_writer s)\<lparr>wr_pending := AList.delete r (wr_pending (ws_writer s))\<rparr>\<rparr>,
                map_of (wr_pending (ws_writer s)) r))"

text \<open>
  The callback \<open>_terminate_receipt\<close>: for a command that was cancelled or expired. The completion that it would
  finish is the one that has just ended.
\<close>

definition terminate_receipt :: "nat \<Rightarrow> exn option \<Rightarrow> writer_system \<Rightarrow> writer_system" where
  "terminate_receipt c err s =
     (case ws_receipt_of s c of
        None \<Rightarrow> s
      | Some r \<Rightarrow>
          if err \<in> {Some CommandCancelledError, Some CommandDeadlineExceededError}
          then (case close_receipt r err s of None \<Rightarrow> s | Some (s', _) \<Rightarrow> s')
          else s)"

text \<open>The end of a command: \<open>_finish\<close> of its completion, with the callbacks. \<open>None\<close>: it had ended before.\<close>

definition end_command :: "nat \<Rightarrow> exn option \<Rightarrow> rat \<Rightarrow> writer_system \<Rightarrow> writer_system option" where
  "end_command c err now s =
     (case control_finish err now (ws_controls s c) of
        Inl _ \<Rightarrow> None
      | Inr (control, err', abort) \<Rightarrow>
          Some (terminate_receipt c err' (set_control c (control\<lparr>cc_outcome := Some err'\<rparr>) s)))"

definition finish_writer_completion :: "nat \<Rightarrow> exn option \<Rightarrow> rat \<Rightarrow> writer_system \<Rightarrow> writer_system" where
  "finish_writer_completion c err now s =
     (case end_command c err now s of
        None \<Rightarrow> s
      | Some s' \<Rightarrow> s'\<lparr>ws_writer :=
          (if err = None then (ws_writer s')\<lparr>wr_completed := Suc (wr_completed (ws_writer s'))\<rparr>
           else (ws_writer s')\<lparr>wr_completion_failures := Suc (wr_completion_failures (ws_writer s'))\<rparr>)\<rparr>)"

text \<open>\<open>_finish_receipt\<close>, and the same call of the connector: the receipt ends and with it the command.\<close>

definition finish_receipt :: "nat \<Rightarrow> exn option \<Rightarrow> rat \<Rightarrow> writer_system \<Rightarrow> writer_system" where
  "finish_receipt r err now s =
     (case close_receipt r err s of
        None \<Rightarrow> s
      | Some (s', None) \<Rightarrow> s'
      | Some (s', Some c) \<Rightarrow> finish_writer_completion c err now s')"

definition expire_command :: "nat \<Rightarrow> rat \<Rightarrow> writer_system \<Rightarrow> writer_system" where
  "expire_command c now s =
     (case end_command c (Some CommandDeadlineExceededError) now s of None \<Rightarrow> s | Some s' \<Rightarrow> s')"

definition cancel_command :: "nat \<Rightarrow> writer_system \<Rightarrow> writer_system" where
  "cancel_command c s =
     (case control_cancel (ws_controls s c) of
        (control, Cancelled) \<Rightarrow>
          terminate_receipt c (Some CommandCancelledError)
            (set_control c (control\<lparr>cc_outcome := Some (Some CommandCancelledError)\<rparr>) s)
      | (control, _) \<Rightarrow> s)"

text \<open>\<open>_fail_pending_locked\<close>.\<close>

definition writer_stopped_error :: exn where
  "writer_stopped_error = RuntimeError ''Command writer stopped before transport receipt completed''"

fun fail_each :: "(nat \<times> nat) list \<Rightarrow> rat \<Rightarrow> writer_system \<Rightarrow> writer_system" where
  "fail_each [] now s = s"
| "fail_each ((r, c) # pending) now s =
     fail_each pending now
       (finish_writer_completion c (Some writer_stopped_error) now
         (s\<lparr>ws_writer := (ws_writer s)\<lparr>wr_pending := AList.delete r (wr_pending (ws_writer s))\<rparr>\<rparr>))"

definition fail_pending :: "rat \<Rightarrow> writer_system \<Rightarrow> writer_system" where
  "fail_pending now s =
     (let pending = wr_pending (ws_writer s) in
      fail_each pending now
        (s\<lparr>ws_writer := (ws_writer s)\<lparr>wr_discarded_during_shutdown :=
             wr_discarded_during_shutdown (ws_writer s) + length pending\<rparr>\<rparr>))"

section \<open>Lifecycle\<close>

definition writer_start :: "bool \<Rightarrow> writer \<Rightarrow> writer \<times> exn option \<times> bool" where
  "writer_start thread_starts w =
     (if wr_started w \<and> \<not> wr_stopped w then (w, None, False)
      else if wr_stopped w \<or> wr_stop_requested w
      then (w, Some (LifecycleError ''Command writer has already been stopped''), False)
      else if thread_starts then (w\<lparr>wr_thread := True, wr_started := True\<rparr>, None, True)
      else (w\<lparr>wr_thread := False, wr_started := False\<rparr>, Some (RuntimeError ''can't start new thread''), False))"

definition writer_drained :: "writer \<Rightarrow> bool" where
  "writer_drained w =
     (if wr_stopped w then wr_in_flight w = None \<and> wr_pending w = []
      else wr_started w \<and> wr_source_idle w \<and> wr_in_flight w = None \<and> wr_pending w = [])"

definition writer_drain_attempt :: "bool \<Rightarrow> writer \<Rightarrow> bool option" where
  "writer_drain_attempt expired w =
     (if \<not> writer_drained w then (if expired then Some False else None) else Some True)"

text \<open>\<open>stop\<close> up to its calls outside the lock; the flag tells whether the source is then closed.\<close>

definition writer_stop_begin :: "rat \<Rightarrow> writer_system \<Rightarrow> writer_system \<times> bool" where
  "writer_stop_begin now s =
     (let w = ws_writer s in
      if wr_stopped w then (fail_pending now s, False)
      else if \<not> wr_thread w then
        (s\<lparr>ws_writer := w\<lparr>wr_stop_requested := True, wr_stopped := True, wr_source_idle := True\<rparr>\<rparr>, False)
      else (s\<lparr>ws_writer := w\<lparr>wr_stop_requested := True\<rparr>\<rparr>, True))"

section \<open>Segments of the worker\<close>

definition set_writer :: "writer \<Rightarrow> writer_point \<Rightarrow> writer_system \<Rightarrow> writer_system" where
  "set_writer w point s = s\<lparr>ws_writer := w, ws_point := point\<rparr>"

definition writer_timed_out :: "writer_system \<Rightarrow> writer_system" where
  "writer_timed_out s =
     set_writer ((ws_writer s)\<lparr>wr_source_idle := True\<rparr>)
       (if wr_stop_requested (ws_writer s) then WriterLeaving else AwaitingCommand) s"

definition writer_source_closed :: "writer_system \<Rightarrow> writer_system" where
  "writer_source_closed s = set_writer ((ws_writer s)\<lparr>wr_source_idle := True\<rparr>) WriterLeaving s"

text \<open>A failure of the source is reported as it is; a base exception ends the worker as one of a command does.\<close>

definition writer_source_failed :: "exn \<Rightarrow> writer_system \<Rightarrow> writer_system" where
  "writer_source_failed e s =
     (if is_exception e then s\<lparr>ws_point := WriterLeaving, ws_fatal := ws_fatal s @ [e]\<rparr>
      else set_writer ((ws_writer s)\<lparr>wr_stop_requested := True\<rparr>) WriterLeaving
        (s\<lparr>ws_fatal := ws_fatal s @ [RuntimeWorkerError ''Command writer'']\<rparr>))"

definition writer_command_begin :: "nat \<Rightarrow> writer_system \<Rightarrow> writer_system" where
  "writer_command_begin c s =
     set_writer ((ws_writer s)\<lparr>wr_source_idle := False,
         wr_commands_received := Suc (wr_commands_received (ws_writer s)), wr_in_flight := Some c\<rparr>)
       (Processing c) s"

text \<open>\<open>_process\<close>: the first test of the completion.\<close>

definition writer_check :: "nat \<Rightarrow> writer_system \<Rightarrow> writer_system" where
  "writer_check c s =
     s\<lparr>ws_point := (if command_done (ws_controls s c) then CommandDone c None else Encoding c)\<rparr>"

text \<open>The encoding; a base exception of the encoder ends the worker.\<close>

definition count_serialization_failure :: "writer_system \<Rightarrow> writer_system" where
  "count_serialization_failure s = s\<lparr>ws_writer := (ws_writer s)\<lparr>wr_serialization_failures :=
     Suc (wr_serialization_failures (ws_writer s))\<rparr>\<rparr>"

definition writer_encode :: "nat \<Rightarrow> exn option \<Rightarrow> rat \<Rightarrow> writer_system \<Rightarrow> writer_system" where
  "writer_encode c failure now s =
     (case failure of
        Some e \<Rightarrow>
          if is_exception e then
            (finish_writer_completion c (Some e) now (count_serialization_failure s))\<lparr>ws_point := CommandDone c None\<rparr>
          else s\<lparr>ws_point := CommandDone c (Some e)\<rparr>
      | None \<Rightarrow>
          set_writer ((ws_writer s)\<lparr>wr_serialized := Suc (wr_serialized (ws_writer s))\<rparr>) (Serialized c) s)"

text \<open>The second test, the new receipt with its entry, and its callback \<open>_complete_receipt\<close>.\<close>

definition writer_register :: "nat \<Rightarrow> writer_system \<Rightarrow> writer_system" where
  "writer_register c s =
     (if command_done (ws_controls s c) then s\<lparr>ws_point := CommandDone c None\<rparr>
      else
        let r = ws_next_receipt s in
        s\<lparr>ws_next_receipt := Suc r, ws_receipts := (ws_receipts s)(r := new_receipt),
          ws_frames := ws_frames s @ [(r, c)],
          ws_writer := (ws_writer s)\<lparr>wr_pending := wr_pending (ws_writer s) @ [(r, c)]\<rparr>,
          ws_point := Registered c r\<rparr>)"

text \<open>
  The callback \<open>_terminate_receipt\<close> of the completion, which runs at once when the command has ended
  since the test.
\<close>

definition writer_watch :: "nat \<Rightarrow> nat \<Rightarrow> writer_system \<Rightarrow> writer_system" where
  "writer_watch c r s =
     (let s1 = s\<lparr>ws_receipt_of := (ws_receipt_of s)(c := Some r), ws_point := Submitting c r\<rparr> in
      case cc_outcome (ws_controls s c) of None \<Rightarrow> s1 | Some err \<Rightarrow> terminate_receipt c err s1)"

text \<open>The test of the receipt and of the deadline; then the frame is submitted.\<close>

definition writer_submit_begin :: "nat \<Rightarrow> nat \<Rightarrow> rat \<Rightarrow> writer_system \<Rightarrow> writer_system" where
  "writer_submit_begin c r now s =
     (if rc_done (ws_receipts s r) then s\<lparr>ws_point := CommandDone c None\<rparr>
      else if deadline_passed now (ws_controls s c) then
        (let s1 = expire_command c now s;
             err = (case cc_outcome (ws_controls s1 c) of Some e \<Rightarrow> e | None \<Rightarrow> None)
         in (finish_receipt r err now s1)\<lparr>ws_point := CommandDone c None\<rparr>)
      else s\<lparr>ws_point := AwaitingSink c r\<rparr>)"

text \<open>The end of the submission: what the sink returned or raised.\<close>

definition count_raw_failure :: "writer_system \<Rightarrow> writer_system" where
  "count_raw_failure s = s\<lparr>ws_writer := (ws_writer s)\<lparr>wr_raw_outbound_failures :=
     Suc (wr_raw_outbound_failures (ws_writer s))\<rparr>\<rparr>"

definition writer_submit_end :: "nat \<Rightarrow> nat \<Rightarrow> exn + bool \<Rightarrow> rat \<Rightarrow> writer_system \<Rightarrow> writer_system" where
  "writer_submit_end c r result now s =
     (case result of
        Inl e \<Rightarrow>
          if \<not> is_exception e then s\<lparr>ws_point := CommandDone c (Some e)\<rparr>
          else if cc_outcome (ws_controls s c)
              \<in> {Some (Some CommandCancelledError), Some (Some CommandDeadlineExceededError)}
          then s\<lparr>ws_point := CommandDone c None\<rparr>
          else (finish_receipt r (Some e) now (count_raw_failure s))\<lparr>ws_point := CommandDone c None\<rparr>
      | Inr True \<Rightarrow>
          set_writer ((ws_writer s)\<lparr>wr_frames_enqueued := Suc (wr_frames_enqueued (ws_writer s))\<rparr>)
            (CommandDone c None) s
      | Inr False \<Rightarrow>
          (finish_receipt r (Some (RuntimeError ''Raw outbound queue rejected serialized frame'')) now
            (count_raw_failure s))\<lparr>ws_point := CommandDone c None\<rparr>)"

definition writer_command_end :: "nat \<Rightarrow> exn option \<Rightarrow> rat \<Rightarrow> writer_system \<Rightarrow> writer_system" where
  "writer_command_end c fatal now s =
     (case fatal of
        None \<Rightarrow> set_writer ((ws_writer s)\<lparr>wr_in_flight := None\<rparr>) AwaitingCommand s
      | Some e \<Rightarrow>
          (let s1 = finish_writer_completion c (Some (RuntimeWorkerError ''Command writer'')) now s in
           set_writer ((ws_writer s1)\<lparr>wr_in_flight := None, wr_stop_requested := True\<rparr>) WriterLeaving s1)
            \<lparr>ws_fatal := ws_fatal s @ [RuntimeWorkerError ''Command writer'']\<rparr>)"

definition writer_exit :: "rat \<Rightarrow> writer_system \<Rightarrow> writer_system" where
  "writer_exit now s =
     (let s1 = (if wr_stop_requested (ws_writer s) then fail_pending now s else s) in
      set_writer ((ws_writer s1)\<lparr>wr_stopped := True, wr_source_idle := True, wr_in_flight := None\<rparr>) WriterGone s1)"

section \<open>Histories\<close>

text \<open>
  What a poll of the command source gives: a command that the worker has not taken before (the queue
  hands out each completion once, theory OutboundQueue), nothing in time, the end of the queue, or a failure.
\<close>

datatype poll_result = GotCommand nat | GotNothing | GotClosed | GotFailure exn

datatype writer_op =
    WriterStart bool
  | WriterStop rat
  | PollCommand poll_result
  | BeginCommand
  | CheckCommand
  | EncodeCommand "exn option" rat
  | RegisterFrame
  | WatchCommand
  | SubmitFrame rat
  | SinkReturns "exn + bool" rat
  | EndCommand rat
  | ExitWriter rat
  | CancelCommand nat
  | ExpireCommand nat rat
  | StartCommandSend nat nat rat
  | FailCommand nat exn rat
  | ReceiptEnds nat "exn option" rat

fun writer_step :: "writer_op \<Rightarrow> writer_system \<Rightarrow> writer_system" where
  "writer_step (WriterStart thread_starts) s =
     (case writer_start thread_starts (ws_writer s) of
        (w, _, started) \<Rightarrow> set_writer w (if started then AwaitingCommand else ws_point s) s)"
| "writer_step (WriterStop now) s = fst (writer_stop_begin now s)"
| "writer_step (PollCommand result) s =
     (if ws_point s \<noteq> AwaitingCommand then s
      else case result of
        GotCommand c \<Rightarrow>
          if c \<in> set (ws_taken s) then s
          else s\<lparr>ws_taken := ws_taken s @ [c], ws_point := TakenCommand c\<rparr>
      | GotNothing \<Rightarrow> writer_timed_out s
      | GotClosed \<Rightarrow> writer_source_closed s
      | GotFailure e \<Rightarrow> writer_source_failed e s)"
| "writer_step BeginCommand s =
     (case ws_point s of TakenCommand c \<Rightarrow> writer_command_begin c s | _ \<Rightarrow> s)"
| "writer_step CheckCommand s =
     (case ws_point s of Processing c \<Rightarrow> writer_check c s | _ \<Rightarrow> s)"
| "writer_step (EncodeCommand failure now) s =
     (case ws_point s of Encoding c \<Rightarrow> writer_encode c failure now s | _ \<Rightarrow> s)"
| "writer_step RegisterFrame s =
     (case ws_point s of Serialized c \<Rightarrow> writer_register c s | _ \<Rightarrow> s)"
| "writer_step WatchCommand s =
     (case ws_point s of Registered c r \<Rightarrow> writer_watch c r s | _ \<Rightarrow> s)"
| "writer_step (SubmitFrame now) s =
     (case ws_point s of Submitting c r \<Rightarrow> writer_submit_begin c r now s | _ \<Rightarrow> s)"
| "writer_step (SinkReturns result now) s =
     (case ws_point s of AwaitingSink c r \<Rightarrow> writer_submit_end c r result now s | _ \<Rightarrow> s)"
| "writer_step (EndCommand now) s =
     (case ws_point s of CommandDone c fatal \<Rightarrow> writer_command_end c fatal now s | _ \<Rightarrow> s)"
| "writer_step (ExitWriter now) s = (if ws_point s = WriterLeaving then writer_exit now s else s)"
| "writer_step (CancelCommand c) s = cancel_command c s"
| "writer_step (ExpireCommand c now) s = expire_command c now s"
| "writer_step (StartCommandSend c abort now) s =
     (case control_start_send abort now (ws_controls s c) of
        (control, SendStarted) \<Rightarrow> set_control c control s
      | (control, SendRefused) \<Rightarrow> s
      | (control, SendExpired) \<Rightarrow> expire_command c now s)"
| "writer_step (FailCommand c e now) s = (case end_command c (Some e) now s of None \<Rightarrow> s | Some s' \<Rightarrow> s')"
| "writer_step (ReceiptEnds r err now) s = finish_receipt r err now s"


section \<open>Invariant\<close>

definition settled_command :: "writer_system \<Rightarrow> nat \<Rightarrow> bool" where
  "settled_command s c = command_done (ws_controls s c)"

definition awaited :: "writer_system \<Rightarrow> nat \<Rightarrow> bool" where
  "awaited s c \<longleftrightarrow> c \<in> snd ` set (wr_pending (ws_writer s))"

text \<open>
  The tables: a command is terminal exactly when its outcome is published; receipts are made one by one,
  each for one command, the entries that wait are open, and the callback of a command is for a receipt
  of its own; a command that succeeded has a receipt that was confirmed.
\<close>

definition tables_ok :: "writer_system \<Rightarrow> bool" where
  "tables_ok s \<longleftrightarrow>
     (\<forall>c. cc_terminal (ws_controls s c) = settled_command s c) \<and>
     distinct (map fst (ws_frames s)) \<and> (\<forall>(r, c) \<in> set (ws_frames s). r < ws_next_receipt s) \<and>
     distinct (map fst (wr_pending (ws_writer s))) \<and>
     (\<forall>(r, c) \<in> set (wr_pending (ws_writer s)). (r, c) \<in> set (ws_frames s) \<and> \<not> rc_done (ws_receipts s r)) \<and>
     (\<forall>c r. ws_receipt_of s c = Some r \<longrightarrow> (r, c) \<in> set (ws_frames s)) \<and>
     (\<forall>c. cc_outcome (ws_controls s c) = Some None \<longrightarrow>
        (\<exists>r. (r, c) \<in> set (ws_frames s) \<and> rc_done (ws_receipts s r) \<and> rc_error (ws_receipts s r) = None))"

text \<open>What the end of commands and receipts does to the rest.\<close>

definition flags :: "writer \<Rightarrow> bool \<times> bool \<times> bool \<times> bool \<times> bool \<times> nat option" where
  "flags w = (wr_thread w, wr_started w, wr_stop_requested w, wr_stopped w, wr_source_idle w, wr_in_flight w)"

definition advances :: "writer_system \<Rightarrow> writer_system \<Rightarrow> bool" where
  "advances s s' \<longleftrightarrow>
     ws_point s' = ws_point s \<and> ws_taken s' = ws_taken s \<and> ws_frames s' = ws_frames s \<and>
     ws_next_receipt s' = ws_next_receipt s \<and> ws_receipt_of s' = ws_receipt_of s \<and>
     flags (ws_writer s') = flags (ws_writer s) \<and>
     set (wr_pending (ws_writer s')) \<subseteq> set (wr_pending (ws_writer s)) \<and>
     (\<forall>c. settled_command s c \<longrightarrow> ws_controls s' c = ws_controls s c) \<and>
     (\<forall>(r, c) \<in> set (wr_pending (ws_writer s)).
        (r, c) \<in> set (wr_pending (ws_writer s')) \<or> settled_command s' c)"

lemma advances_refl [simp]: "advances s s"
  by (auto simp: advances_def)

lemma advances_trans: "advances s s' \<Longrightarrow> advances s' s'' \<Longrightarrow> advances s s''"
  unfolding advances_def settled_command_def by (simp add: split_beta) (metis subset_trans)

lemma advances_settled: "advances s s' \<Longrightarrow> settled_command s c \<Longrightarrow> settled_command s' c"
  by (auto simp: advances_def settled_command_def)

lemma tables_okD:
  assumes "tables_ok s"
  shows "cc_terminal (ws_controls s c) = settled_command s c" "distinct (map fst (ws_frames s))"
    "(r, c) \<in> set (ws_frames s) \<Longrightarrow> r < ws_next_receipt s" "distinct (map fst (wr_pending (ws_writer s)))"
    "(r, c) \<in> set (wr_pending (ws_writer s)) \<Longrightarrow> (r, c) \<in> set (ws_frames s) \<and> \<not> rc_done (ws_receipts s r)"
    "ws_receipt_of s c = Some r \<Longrightarrow> (r, c) \<in> set (ws_frames s)"
    "cc_outcome (ws_controls s c) = Some None \<Longrightarrow>
      \<exists>r. (r, c) \<in> set (ws_frames s) \<and> rc_done (ws_receipts s r) \<and> rc_error (ws_receipts s r) = None"
  using assms unfolding tables_ok_def by blast+

lemma delete_set: "set (AList.delete k xs) = {(k', v). (k', v) \<in> set xs \<and> k' \<noteq> k}"
  by (induction xs) auto

lemma frame_unique:
  "tables_ok s \<Longrightarrow> (r, c) \<in> set (ws_frames s) \<Longrightarrow> (r, d) \<in> set (ws_frames s) \<Longrightarrow> c = d"
  using tables_okD(2) by (metis eq_key_imp_eq_value)

text \<open>The two steps that change the tables: the end of a command, and the end of a receipt.\<close>

definition drop_receipt :: "nat \<Rightarrow> receipt \<Rightarrow> writer_system \<Rightarrow> writer_system" where
  "drop_receipt r receipt s =
     s\<lparr>ws_receipts := (ws_receipts s)(r := receipt),
       ws_writer := (ws_writer s)\<lparr>wr_pending := AList.delete r (wr_pending (ws_writer s))\<rparr>\<rparr>"

lemma close_receipt_eq:
  "close_receipt r err s =
     (if rc_done (ws_receipts s r) then None
      else Some (drop_receipt r ((ws_receipts s r)\<lparr>rc_done := True, rc_error := err, rc_callbacks := []\<rparr>) s,
        map_of (wr_pending (ws_writer s)) r))"
  by (simp add: close_receipt_def receipt_finish_def drop_receipt_def)

lemma drop_simps [simp]:
  "ws_controls (drop_receipt r x s) = ws_controls s" "ws_point (drop_receipt r x s) = ws_point s"
  "ws_taken (drop_receipt r x s) = ws_taken s" "ws_frames (drop_receipt r x s) = ws_frames s"
  "ws_next_receipt (drop_receipt r x s) = ws_next_receipt s" "ws_receipt_of (drop_receipt r x s) = ws_receipt_of s"
  "ws_receipts (drop_receipt r x s) = (ws_receipts s)(r := x)" "flags (ws_writer (drop_receipt r x s)) = flags (ws_writer s)"
  "wr_pending (ws_writer (drop_receipt r x s)) = AList.delete r (wr_pending (ws_writer s))"
  "settled_command (drop_receipt r x s) c = settled_command s c"
  by (simp_all add: drop_receipt_def flags_def settled_command_def)

lemma drop_tables:
  assumes "tables_ok s" "rc_done x" "rc_done (ws_receipts s r) \<Longrightarrow> x = ws_receipts s r"
  shows "tables_ok (drop_receipt r x s)"
  unfolding tables_ok_def
proof (intro conjI allI impI ballI)
  note t = tables_okD [OF assms(1)]
  show "cc_terminal (ws_controls (drop_receipt r x s) c) = settled_command (drop_receipt r x s) c" for c
    using t(1) by simp
  show "distinct (map fst (ws_frames (drop_receipt r x s)))" using t(2) by simp
  show "case p of (q, c) \<Rightarrow> q < ws_next_receipt (drop_receipt r x s)" if "p \<in> set (ws_frames (drop_receipt r x s))" for p
    using that t(3) by auto
  show "distinct (map fst (wr_pending (ws_writer (drop_receipt r x s))))" using t(4) by (simp add: distinct_delete)
  show "case p of (q, c) \<Rightarrow> (q, c) \<in> set (ws_frames (drop_receipt r x s)) \<and> \<not> rc_done (ws_receipts (drop_receipt r x s) q)"
    if "p \<in> set (wr_pending (ws_writer (drop_receipt r x s)))" for p
    using that t(5) by (auto simp: delete_set)
  show "(q, c) \<in> set (ws_frames (drop_receipt r x s))" if "ws_receipt_of (drop_receipt r x s) c = Some q" for c q
    using that t(6) by simp
  show "\<exists>q. (q, c) \<in> set (ws_frames (drop_receipt r x s)) \<and> rc_done (ws_receipts (drop_receipt r x s) q) \<and>
      rc_error (ws_receipts (drop_receipt r x s) q) = None"
    if outcome: "cc_outcome (ws_controls (drop_receipt r x s) c) = Some None" for c
  proof -
    obtain q where "(q, c) \<in> set (ws_frames s)" "rc_done (ws_receipts s q)" "rc_error (ws_receipts s q) = None"
      using t(7) [of c] outcome unfolding drop_simps by blast
    then show ?thesis using assms(3) by (cases "q = r") auto
  qed
qed

lemma control_tables:
  assumes "tables_ok s" "cc_terminal x" "cc_outcome x \<noteq> None"
    "cc_outcome x = Some None \<Longrightarrow>
      \<exists>r. (r, c) \<in> set (ws_frames s) \<and> rc_done (ws_receipts s r) \<and> rc_error (ws_receipts s r) = None"
  shows "tables_ok (set_control c x s)"
  unfolding tables_ok_def
proof (intro conjI allI impI ballI)
  note t = tables_okD [OF assms(1)]
  show "cc_terminal (ws_controls (set_control c x s) d) = settled_command (set_control c x s) d" for d
    using t(1) assms(2,3) by (simp add: set_control_def settled_command_def command_done_def)
  show "distinct (map fst (ws_frames (set_control c x s)))" "distinct (map fst (wr_pending (ws_writer (set_control c x s))))"
    using t(2,4) by (simp_all add: set_control_def)
  show "case p of (q, d) \<Rightarrow> q < ws_next_receipt (set_control c x s)" if "p \<in> set (ws_frames (set_control c x s))" for p
    using that t(3) by (auto simp: set_control_def)
  show "case p of (q, d) \<Rightarrow> (q, d) \<in> set (ws_frames (set_control c x s)) \<and> \<not> rc_done (ws_receipts (set_control c x s) q)"
    if "p \<in> set (wr_pending (ws_writer (set_control c x s)))" for p
    using that t(5) by (auto simp: set_control_def)
  show "(q, d) \<in> set (ws_frames (set_control c x s))" if "ws_receipt_of (set_control c x s) d = Some q" for d q
    using that t(6) by (simp add: set_control_def)
  show "\<exists>q. (q, d) \<in> set (ws_frames (set_control c x s)) \<and> rc_done (ws_receipts (set_control c x s) q) \<and>
      rc_error (ws_receipts (set_control c x s) q) = None"
    if "cc_outcome (ws_controls (set_control c x s) d) = Some None" for d
    using that t(7) [of d] assms(4) by (cases "d = c") (simp_all add: set_control_def)
qed


lemma advances_drop:
  assumes "\<And>c. (r, c) \<in> set (wr_pending (ws_writer s)) \<Longrightarrow> settled_command s c"
  shows "advances s (drop_receipt r x s)"
  using assms by (auto simp: advances_def delete_set)

lemma terminate_ok:
  assumes "tables_ok s" "settled_command s c"
  shows "tables_ok (terminate_receipt c err s) \<and> advances s (terminate_receipt c err s)"
proof (cases "ws_receipt_of s c")
  case None
  then show ?thesis using assms by (simp add: terminate_receipt_def)
next
  case (Some r)
  have "d = c" if "(r, d) \<in> set (wr_pending (ws_writer s))" for d
    using frame_unique [OF assms(1)] tables_okD(5,6) [OF assms(1)] that Some by blast
  then have adv: "advances s (drop_receipt r x s)" for x using assms(2) by (intro advances_drop) blast
  show ?thesis
  proof (cases "rc_done (ws_receipts s r)")
    case True
    then show ?thesis using Some assms by (simp add: terminate_receipt_def close_receipt_eq)
  next
    case False
    then have "tables_ok (drop_receipt r ((ws_receipts s r)\<lparr>rc_done := True, rc_error := err, rc_callbacks := []\<rparr>) s)"
      by (intro drop_tables [OF assms(1)]) simp_all
    then show ?thesis using Some assms adv False by (simp add: terminate_receipt_def close_receipt_eq)
  qed
qed

lemma advances_control:
  assumes "\<not> settled_command s c" "cc_outcome x \<noteq> None"
  shows "advances s (set_control c x s)" "settled_command (set_control c x s) c"
  using assms by (auto simp: advances_def set_control_def settled_command_def command_done_def)

text \<open>A successful end needs a confirmed receipt.\<close>

definition confirmed :: "writer_system \<Rightarrow> nat \<Rightarrow> bool" where
  "confirmed s c \<longleftrightarrow>
     (\<exists>r. (r, c) \<in> set (ws_frames s) \<and> rc_done (ws_receipts s r) \<and> rc_error (ws_receipts s r) = None)"

lemma end_command_ok:
  assumes ok: "tables_ok s" and conf: "err = None \<Longrightarrow> confirmed s c"
  shows "case end_command c err now s of
      None \<Rightarrow> settled_command s c
    | Some s' \<Rightarrow> tables_ok s' \<and> advances s s' \<and> settled_command s' c"
proof (cases "cc_terminal (ws_controls s c)")
  case True
  then show ?thesis using tables_okD(1) [OF ok] by (simp add: end_command_def control_finish_def)
next
  case False
  then have new: "\<not> settled_command s c" using tables_okD(1) [OF ok] by simp
  define err' where "err' = (if deadline_passed now (ws_controls s c) then Some CommandDeadlineExceededError else err)"
  define x where "x = (ws_controls s c)\<lparr>cc_terminal := True, cc_abort := None, cc_cancel := None, cc_outcome := Some err'\<rparr>"
  have e: "end_command c err now s = Some (terminate_receipt c err' (set_control c x s))"
    using False by (simp add: end_command_def control_finish_def err'_def x_def Let_def)
  have "tables_ok (set_control c x s)"
    using conf by (intro control_tables [OF ok]) (auto simp: x_def err'_def confirmed_def split: if_splits)
  moreover have c: "advances s (set_control c x s)" "settled_command (set_control c x s) c"
    using advances_control [OF new, of x] by (simp_all add: x_def)
  ultimately have "tables_ok (terminate_receipt c err' (set_control c x s))"
    "advances (set_control c x s) (terminate_receipt c err' (set_control c x s))"
    using terminate_ok by blast+
  then show ?thesis unfolding e using c advances_trans advances_settled by auto
qed

lemma tables_same:
  assumes "ws_controls s' = ws_controls s" "ws_frames s' = ws_frames s" "ws_receipts s' = ws_receipts s"
    "ws_next_receipt s' = ws_next_receipt s" "ws_receipt_of s' = ws_receipt_of s"
    "wr_pending (ws_writer s') = wr_pending (ws_writer s)"
  shows "tables_ok s' = tables_ok s"
  unfolding tables_ok_def settled_command_def assms ..

lemma finish_completion_ok:
  assumes "tables_ok s" "err = None \<Longrightarrow> confirmed s c"
  shows "tables_ok (finish_writer_completion c err now s)" "advances s (finish_writer_completion c err now s)"
    "settled_command (finish_writer_completion c err now s) c"
proof -
  have ended: "case end_command c err now s of None \<Rightarrow> settled_command s c
      | Some s' \<Rightarrow> tables_ok s' \<and> advances s s' \<and> settled_command s' c"
    by (rule end_command_ok [OF assms(1)]) (rule assms(2))
  have "tables_ok (finish_writer_completion c err now s) \<and> advances s (finish_writer_completion c err now s) \<and>
    settled_command (finish_writer_completion c err now s) c"
  proof (cases "end_command c err now s")
    case None
    then show ?thesis using ended assms(1) by (simp add: finish_writer_completion_def)
  next
    case (Some s1)
    define s2 where "s2 = finish_writer_completion c err now s"
    have s1: "tables_ok s1" "advances s s1" "settled_command s1 c" using ended Some by simp_all
    have "tables_ok s2 = tables_ok s1"
      by (rule tables_same) (simp_all add: s2_def finish_writer_completion_def Some)
    moreover have "advances s1 s2"
      by (auto simp: advances_def s2_def finish_writer_completion_def Some flags_def)
    ultimately show ?thesis using s1 advances_trans advances_settled unfolding s2_def [symmetric] by blast
  qed
  then show "tables_ok (finish_writer_completion c err now s)" "advances s (finish_writer_completion c err now s)"
    "settled_command (finish_writer_completion c err now s) c" by blast+
qed

lemma advances_through:
  assumes "ws_point s1 = ws_point s" "ws_taken s1 = ws_taken s" "ws_frames s1 = ws_frames s"
    "ws_next_receipt s1 = ws_next_receipt s" "ws_receipt_of s1 = ws_receipt_of s"
    "flags (ws_writer s1) = flags (ws_writer s)" "ws_controls s1 = ws_controls s"
    "wr_pending (ws_writer s1) = AList.delete r (wr_pending (ws_writer s))"
    and s2: "advances s1 s2" and c: "\<And>d. (r, d) \<in> set (wr_pending (ws_writer s)) \<Longrightarrow> settled_command s2 d"
  shows "advances s s2"
proof -
  have "(q, d) \<in> set (wr_pending (ws_writer s2)) \<or> settled_command s2 d"
    if "(q, d) \<in> set (wr_pending (ws_writer s))" for q d
    using that s2 c assms(8) unfolding advances_def by (cases "q = r") (auto simp: delete_set)
  moreover have "set (wr_pending (ws_writer s2)) \<subseteq> set (wr_pending (ws_writer s))"
    using s2 assms(8) by (auto simp: advances_def delete_set)
  ultimately show ?thesis using s2 assms(1-7) by (auto simp: advances_def settled_command_def)
qed

lemma pending_lookup:
  "tables_ok s \<Longrightarrow> (r, d) \<in> set (wr_pending (ws_writer s)) \<longleftrightarrow> map_of (wr_pending (ws_writer s)) r = Some d"
  using tables_okD(4) by (metis map_of_SomeD map_of_is_SomeI)

lemma finish_receipt_ok:
  assumes ok: "tables_ok s"
  shows "tables_ok (finish_receipt r err now s)" "advances s (finish_receipt r err now s)"
    "(r, c) \<in> set (wr_pending (ws_writer s)) \<Longrightarrow> settled_command (finish_receipt r err now s) c"
proof -
  have "tables_ok (finish_receipt r err now s) \<and> advances s (finish_receipt r err now s) \<and>
    (\<forall>c. (r, c) \<in> set (wr_pending (ws_writer s)) \<longrightarrow> settled_command (finish_receipt r err now s) c)"
  proof (cases "rc_done (ws_receipts s r)")
    case True
    then show ?thesis using ok tables_okD(5) [OF ok] by (auto simp: finish_receipt_def close_receipt_eq)
  next
    case False
    define x where "x = (ws_receipts s r)\<lparr>rc_done := True, rc_error := err, rc_callbacks := []\<rparr>"
    have dropped: "tables_ok (drop_receipt r x s)" using False by (intro drop_tables [OF ok]) (simp_all add: x_def)
    show ?thesis
    proof (cases "map_of (wr_pending (ws_writer s)) r")
      case None
      then have none: "(r, c) \<notin> set (wr_pending (ws_writer s))" for c using pending_lookup [OF ok] by simp
      then have "advances s (drop_receipt r x s)" by (intro advances_drop) blast
      then show ?thesis using None none dropped False by (simp add: finish_receipt_def close_receipt_eq x_def)
    next
      case (Some c)
      let ?s = "finish_writer_completion c err now (drop_receipt r x s)"
      have f: "finish_receipt r err now s = ?s" using Some False by (simp add: finish_receipt_def close_receipt_eq x_def)
      have in_pending: "(r, d) \<in> set (wr_pending (ws_writer s)) \<longleftrightarrow> d = c" for d using pending_lookup [OF ok] Some by auto
      have "(r, c) \<in> set (ws_frames s)" using tables_okD(5) [OF ok] in_pending by blast
      then have "err = None \<Longrightarrow> confirmed (drop_receipt r x s) c" by (auto simp: confirmed_def x_def)
      note fin = finish_completion_ok [OF dropped this, where now = now]
      have "advances s ?s" by (rule advances_through [OF _ _ _ _ _ _ _ _ fin(2), of _ r]) (use fin(3) in_pending in auto)
      then show ?thesis using fin in_pending unfolding f by auto
    qed
  qed
  then show "tables_ok (finish_receipt r err now s)" "advances s (finish_receipt r err now s)"
    "(r, c) \<in> set (wr_pending (ws_writer s)) \<Longrightarrow> settled_command (finish_receipt r err now s) c" by blast+
qed


lemma fail_each_ok:
  "tables_ok s \<Longrightarrow> set pending \<subseteq> set (ws_frames s) \<Longrightarrow>
   tables_ok (fail_each pending now s) \<and> advances s (fail_each pending now s) \<and>
   (\<forall>(r, c) \<in> set pending. settled_command (fail_each pending now s) c \<and>
      (r, c) \<notin> set (wr_pending (ws_writer (fail_each pending now s))))"
proof (induction pending now s rule: fail_each.induct)
  case (2 r c pending now s)
  define s1 where "s1 = s\<lparr>ws_writer := (ws_writer s)\<lparr>wr_pending := AList.delete r (wr_pending (ws_writer s))\<rparr>\<rparr>"
  define s2 where "s2 = finish_writer_completion c (Some writer_stopped_error) now s1"
  have t: "tables_ok s" by (rule 2(2))
  have s1: "ws_controls s1 = ws_controls s" "ws_frames s1 = ws_frames s" "ws_receipts s1 = ws_receipts s"
    "ws_next_receipt s1 = ws_next_receipt s" "ws_receipt_of s1 = ws_receipt_of s" "ws_point s1 = ws_point s"
    "ws_taken s1 = ws_taken s" "flags (ws_writer s1) = flags (ws_writer s)"
    "wr_pending (ws_writer s1) = AList.delete r (wr_pending (ws_writer s))"
    by (simp_all add: s1_def flags_def)
  have ok1: "tables_ok s1"
    unfolding tables_ok_def settled_command_def s1
  proof (intro conjI)
    note d = t [unfolded tables_ok_def settled_command_def]
    show "distinct (map fst (AList.delete r (wr_pending (ws_writer s))))" using d by (simp add: distinct_delete)
    show "\<forall>(q, d) \<in> set (AList.delete r (wr_pending (ws_writer s))). (q, d) \<in> set (ws_frames s) \<and> \<not> rc_done (ws_receipts s q)"
      using tables_okD(5) [OF t] by (auto simp: delete_set)
  qed (use t [unfolded tables_ok_def settled_command_def] in blast)+
  have s2: "tables_ok s2" "advances s1 s2" "settled_command s2 c"
    using finish_completion_ok [OF ok1, of "Some writer_stopped_error" c now] unfolding s2_def by simp_all
  have only: "d = c" if "(r, d) \<in> set (wr_pending (ws_writer s))" for d
    using that tables_okD(5) [OF t that] 2(3) frame_unique [OF t] by auto
  have adv: "advances s s2"
    by (rule advances_through [OF s1(6,7,2,4,5,8,1,9) s2(2)]) (use only s2(3) in blast)
  have "set pending \<subseteq> set (ws_frames s2)" using 2(3) s1 s2(2) by (auto simp: advances_def)
  then have rest: "tables_ok (fail_each pending now s2)" "advances s2 (fail_each pending now s2)"
    "\<forall>(r, c) \<in> set pending. settled_command (fail_each pending now s2) c \<and>
      (r, c) \<notin> set (wr_pending (ws_writer (fail_each pending now s2)))"
    using 2(1) s2(1) unfolding s2_def s1_def by blast+
  have "(r, c) \<notin> set (wr_pending (ws_writer s2))" using s2(2) s1(9) by (auto simp: advances_def delete_set)
  then have "(r, c) \<notin> set (wr_pending (ws_writer (fail_each pending now s2)))"
    using rest(2) by (auto simp: advances_def)
  moreover have "settled_command (fail_each pending now s2) c" by (rule advances_settled [OF rest(2) s2(3)])
  moreover have "fail_each ((r, c) # pending) now s = fail_each pending now s2" by (simp add: s2_def s1_def)
  ultimately show ?case using rest advances_trans [OF adv rest(2)] by simp
qed simp

lemma fail_pending_ok:
  assumes "tables_ok s"
  shows "tables_ok (fail_pending now s)" "advances s (fail_pending now s)" "wr_pending (ws_writer (fail_pending now s)) = []"
proof -
  define s1 where "s1 = s\<lparr>ws_writer := (ws_writer s)\<lparr>wr_discarded_during_shutdown :=
    wr_discarded_during_shutdown (ws_writer s) + length (wr_pending (ws_writer s))\<rparr>\<rparr>"
  let ?s = "fail_each (wr_pending (ws_writer s)) now s1"
  have f: "fail_pending now s = ?s" by (simp add: fail_pending_def Let_def s1_def)
  have "tables_ok s1 = tables_ok s" by (rule tables_same) (simp_all add: s1_def)
  moreover have "set (wr_pending (ws_writer s)) \<subseteq> set (ws_frames s1)"
    using tables_okD(5) [OF assms] by (auto simp: s1_def)
  ultimately have e: "tables_ok ?s" "advances s1 ?s"
    "\<forall>(r, c) \<in> set (wr_pending (ws_writer s)). (r, c) \<notin> set (wr_pending (ws_writer ?s))"
    using fail_each_ok [of s1 "wr_pending (ws_writer s)" now] assms by auto
  have "advances s s1" by (auto simp: advances_def s1_def flags_def)
  then have a: "advances s ?s" using e(2) advances_trans by blast
  then have "set (wr_pending (ws_writer ?s)) \<subseteq> set (wr_pending (ws_writer s))" by (simp add: advances_def)
  then have none: False if "x \<in> set (wr_pending (ws_writer ?s))" for x
    using that e(3) by (cases x) blast
  have "set (wr_pending (ws_writer ?s)) = {}"
  proof (rule equals0I)
    show False if "x \<in> set (wr_pending (ws_writer ?s))" for x using none [OF that] .
  qed
  then show "tables_ok (fail_pending now s)" "advances s (fail_pending now s)"
    "wr_pending (ws_writer (fail_pending now s)) = []"
    unfolding f using e a by simp_all
qed

section \<open>No command is lost\<close>

fun in_hand :: "writer_point \<Rightarrow> nat \<Rightarrow> bool" where
  "in_hand (TakenCommand d) c = (c = d)"
| "in_hand (Processing d) c = (c = d)"
| "in_hand (Encoding d) c = (c = d)"
| "in_hand (Serialized d) c = (c = d)"
| "in_hand (CommandDone d (Some _)) c = (c = d)"
| "in_hand _ c = False"

fun registered_ok :: "writer_point \<Rightarrow> writer_system \<Rightarrow> bool" where
  "registered_ok (Registered c r) s =
     ((r, c) \<in> set (ws_frames s) \<and> (settled_command s c \<or> (r, c) \<in> set (wr_pending (ws_writer s))))"
| "registered_ok (Submitting c r) s =
     ((r, c) \<in> set (ws_frames s) \<and> (settled_command s c \<or> (r, c) \<in> set (wr_pending (ws_writer s))))"
| "registered_ok (AwaitingSink c r) s =
     ((r, c) \<in> set (ws_frames s) \<and> (settled_command s c \<or> (r, c) \<in> set (wr_pending (ws_writer s))))"
| "registered_ok _ s = True"

definition writer_inv :: "writer_system \<Rightarrow> bool" where
  "writer_inv s \<longleftrightarrow>
     tables_ok s \<and> (wr_started (ws_writer s) \<longleftrightarrow> ws_point s \<noteq> NoWriter) \<and>
     (ws_point s = NoWriter \<longrightarrow> ws_taken s = [] \<and> wr_pending (ws_writer s) = []) \<and>
     (ws_point s = WriterGone \<longrightarrow> wr_stopped (ws_writer s) \<and>
        (wr_stop_requested (ws_writer s) \<longrightarrow> wr_pending (ws_writer s) = [])) \<and>
     (wr_started (ws_writer s) \<longrightarrow> wr_thread (ws_writer s)) \<and>
     registered_ok (ws_point s) s \<and>
     (\<forall>c \<in> set (ws_taken s). settled_command s c \<or> awaited s c \<or> in_hand (ws_point s) c)"

definition keeps :: "writer_system \<Rightarrow> writer_system \<Rightarrow> bool" where
  "keeps s s' \<longleftrightarrow> ws_taken s' = ws_taken s \<and> (\<forall>c. settled_command s c \<longrightarrow> settled_command s' c) \<and>
     (\<forall>(r, c) \<in> set (wr_pending (ws_writer s)). (r, c) \<in> set (wr_pending (ws_writer s')) \<or> settled_command s' c)"

lemma advances_keeps: "advances s s' \<Longrightarrow> keeps s s'"
  by (auto simp: keeps_def advances_def settled_command_def)

lemma keeps_held:
  assumes "writer_inv s" "keeps s s'" "c \<in> set (ws_taken s')"
  shows "settled_command s' c \<or> awaited s' c \<or> in_hand (ws_point s) c"
  using assms by (fastforce simp: writer_inv_def keeps_def awaited_def image_iff)

lemma advances_inv:
  assumes "writer_inv s" "advances s s'" "tables_ok s'"
  shows "writer_inv s'"
proof -
  have flags: "wr_started (ws_writer s') = wr_started (ws_writer s)" "wr_stopped (ws_writer s') = wr_stopped (ws_writer s)"
    "wr_stop_requested (ws_writer s') = wr_stop_requested (ws_writer s)" "wr_thread (ws_writer s') = wr_thread (ws_writer s)"
    "ws_point s' = ws_point s" "ws_taken s' = ws_taken s"
    using assms(2) by (simp_all add: advances_def flags_def)
  have pending: "wr_pending (ws_writer s) = [] \<Longrightarrow> wr_pending (ws_writer s') = []"
    using assms(2) by (simp add: advances_def)
  have "registered_ok p s \<Longrightarrow> registered_ok p s'" for p
    using assms(2) advances_settled [OF assms(2)] by (cases p) (auto simp: advances_def)
  then show ?thesis
    using assms(1,3) flags pending keeps_held [OF assms(1) advances_keeps [OF assms(2)]]
    by (simp add: writer_inv_def)
qed

text \<open>A segment of the worker: what it must show of the new state.\<close>

lemma moves_inv:
  assumes "writer_inv s" "keeps s s'" "tables_ok s'" "wr_started (ws_writer s')" "wr_thread (ws_writer s')"
    "ws_point s' \<noteq> NoWriter" "ws_point s' \<noteq> WriterGone" "registered_ok (ws_point s') s'"
    "\<And>c. in_hand (ws_point s) c \<Longrightarrow> settled_command s' c \<or> awaited s' c \<or> in_hand (ws_point s') c"
  shows "writer_inv s'"
  using assms keeps_held [OF assms(1,2)] by (auto simp: writer_inv_def)


lemma writer_invD:
  assumes "writer_inv s"
  shows "tables_ok s" "wr_started (ws_writer s) \<longleftrightarrow> ws_point s \<noteq> NoWriter"
    "wr_started (ws_writer s) \<Longrightarrow> wr_thread (ws_writer s)" "registered_ok (ws_point s) s"
    "c \<in> set (ws_taken s) \<Longrightarrow> settled_command s c \<or> awaited s c \<or> in_hand (ws_point s) c"
    "ws_point s = WriterGone \<Longrightarrow> wr_stopped (ws_writer s)"
    "ws_point s = WriterGone \<Longrightarrow> wr_stop_requested (ws_writer s) \<Longrightarrow> wr_pending (ws_writer s) = []"
  using assms by (simp_all add: writer_inv_def)

lemma keeps_refl [simp]: "keeps s s"
  by (auto simp: keeps_def)

lemma keeps_point [simp]: "keeps s (s'\<lparr>ws_point := p\<rparr>) \<longleftrightarrow> keeps s s'"
  by (simp add: keeps_def settled_command_def)

lemma settled_point [simp]:
  "settled_command (s\<lparr>ws_point := p\<rparr>) c = settled_command s c" "awaited (s\<lparr>ws_point := p\<rparr>) c = awaited s c"
  by (simp_all add: settled_command_def awaited_def)

lemma tables_point [simp]: "tables_ok (s\<lparr>ws_point := p\<rparr>) = tables_ok s"
  by (rule tables_same) simp_all

text \<open>A segment that ends with the command settled.\<close>

lemma done_inv:
  assumes inv: "writer_inv s" and adv: "advances s s1" "tables_ok s1" and c: "settled_command s1 c \<or> awaited s1 c"
    and point: "ws_point s \<noteq> NoWriter" "\<And>d. in_hand (ws_point s) d \<Longrightarrow> d = c"
  shows "writer_inv (s1\<lparr>ws_point := CommandDone c None\<rparr>)"
proof (rule moves_inv [OF inv])
  have "wr_started (ws_writer s)" "wr_thread (ws_writer s)" using writer_invD(2,3) [OF inv] point(1) by simp_all
  then show "wr_started (ws_writer (s1\<lparr>ws_point := CommandDone c None\<rparr>))"
    "wr_thread (ws_writer (s1\<lparr>ws_point := CommandDone c None\<rparr>))"
    using adv(1) by (simp_all add: advances_def flags_def)
qed (use adv c point in \<open>auto intro: advances_keeps\<close>)

text \<open>A segment that changes the worker's own data only.\<close>

lemma own_inv:
  assumes inv: "writer_inv s" and same: "ws_controls s' = ws_controls s" "ws_frames s' = ws_frames s"
      "ws_receipts s' = ws_receipts s" "ws_next_receipt s' = ws_next_receipt s" "ws_receipt_of s' = ws_receipt_of s"
      "wr_pending (ws_writer s') = wr_pending (ws_writer s)" "ws_taken s' = ws_taken s"
      "wr_started (ws_writer s') = wr_started (ws_writer s)" "wr_thread (ws_writer s') = wr_thread (ws_writer s)"
    and point: "ws_point s \<noteq> NoWriter" "ws_point s' \<noteq> NoWriter" "ws_point s' \<noteq> WriterGone" "registered_ok (ws_point s') s'"
      "\<And>d. in_hand (ws_point s) d \<Longrightarrow> settled_command s d \<or> awaited s d \<or> in_hand (ws_point s') d"
  shows "writer_inv s'"
proof (rule moves_inv [OF inv])
  have settled: "settled_command s' c = settled_command s c" "awaited s' c = awaited s c" for c
    using same by (simp_all add: settled_command_def awaited_def)
  show "keeps s s'" using same by (auto simp: keeps_def settled)
  show "tables_ok s'" using writer_invD(1) [OF inv] tables_same [OF same(1-6)] by simp
  show "wr_started (ws_writer s')" "wr_thread (ws_writer s')"
    using writer_invD(2,3) [OF inv] point(1) same(8,9) by simp_all
  show "settled_command s' c \<or> awaited s' c \<or> in_hand (ws_point s') c" if "in_hand (ws_point s) c" for c
    using point(5) [OF that] settled by simp
qed (use point in simp_all)

lemma start_inv: "writer_inv s \<Longrightarrow> writer_inv (writer_step (WriterStart b) s)"
proof -
  assume inv: "writer_inv s"
  show ?thesis
  proof (cases "\<not> (wr_started (ws_writer s) \<and> \<not> wr_stopped (ws_writer s)) \<and>
      \<not> (wr_stopped (ws_writer s) \<or> wr_stop_requested (ws_writer s))")
    case False
    then have "writer_step (WriterStart b) s = s" by (auto simp: writer_start_def set_writer_def)
    then show ?thesis using inv by simp
  next
    case True
    then have none: "ws_point s = NoWriter" "\<not> wr_started (ws_writer s)"
      using writer_invD(2) [OF inv] by auto
    define s' where "s' = writer_step (WriterStart b) s"
    have s': "ws_controls s' = ws_controls s" "ws_frames s' = ws_frames s" "ws_receipts s' = ws_receipts s"
      "ws_next_receipt s' = ws_next_receipt s" "ws_receipt_of s' = ws_receipt_of s"
      "wr_pending (ws_writer s') = wr_pending (ws_writer s)" "ws_taken s' = ws_taken s"
      "wr_started (ws_writer s') = b" "wr_thread (ws_writer s') = b" "ws_point s' = (if b then AwaitingCommand else NoWriter)"
      using True none by (simp_all add: s'_def writer_start_def set_writer_def)
    have "tables_ok s'" using writer_invD(1) [OF inv] tables_same [OF s'(1-6)] by simp
    then show ?thesis using inv none s' unfolding s'_def [symmetric] by (simp add: writer_inv_def)
  qed
qed

lemma stop_inv: "writer_inv s \<Longrightarrow> writer_inv (writer_step (WriterStop now) s)"
proof -
  assume inv: "writer_inv s"
  consider "wr_stopped (ws_writer s)" | "\<not> wr_stopped (ws_writer s)" "\<not> wr_thread (ws_writer s)"
    | "\<not> wr_stopped (ws_writer s)" "wr_thread (ws_writer s)" by blast
  then show ?thesis
  proof cases
    case 1
    then have "writer_step (WriterStop now) s = fail_pending now s" by (simp add: writer_stop_begin_def Let_def)
    then show ?thesis using advances_inv [OF inv] fail_pending_ok [OF writer_invD(1) [OF inv]] by simp
  next
    case 2
    then have none: "ws_point s = NoWriter" using writer_invD(2,3) [OF inv] by auto
    define s' where "s' = writer_step (WriterStop now) s"
    have s': "ws_controls s' = ws_controls s" "ws_frames s' = ws_frames s" "ws_receipts s' = ws_receipts s"
      "ws_next_receipt s' = ws_next_receipt s" "ws_receipt_of s' = ws_receipt_of s"
      "wr_pending (ws_writer s') = wr_pending (ws_writer s)" "ws_taken s' = ws_taken s"
      "wr_started (ws_writer s') = wr_started (ws_writer s)" "wr_thread (ws_writer s') = wr_thread (ws_writer s)"
      "ws_point s' = ws_point s"
      using 2 by (simp_all add: s'_def writer_stop_begin_def Let_def)
    have "tables_ok s'" using writer_invD(1) [OF inv] tables_same [OF s'(1-6)] by simp
    then show ?thesis using inv none s' unfolding s'_def [symmetric] by (simp add: writer_inv_def)
  next
    case 3
    then have point: "ws_point s \<noteq> WriterGone" using writer_invD(6) [OF inv] by auto
    define s' where "s' = writer_step (WriterStop now) s"
    have s': "ws_controls s' = ws_controls s" "ws_frames s' = ws_frames s" "ws_receipts s' = ws_receipts s"
      "ws_next_receipt s' = ws_next_receipt s" "ws_receipt_of s' = ws_receipt_of s"
      "wr_pending (ws_writer s') = wr_pending (ws_writer s)" "ws_taken s' = ws_taken s"
      "wr_started (ws_writer s') = wr_started (ws_writer s)" "wr_thread (ws_writer s') = wr_thread (ws_writer s)"
      "ws_point s' = ws_point s"
      using 3 by (simp_all add: s'_def writer_stop_begin_def Let_def)
    have "tables_ok s'" using writer_invD(1) [OF inv] tables_same [OF s'(1-6)] by simp
    moreover have "registered_ok p s' = registered_ok p s" for p
      using s' by (cases p) (simp_all add: settled_command_def)
    moreover have "settled_command s' c = settled_command s c" "awaited s' c = awaited s c" for c
      using s' by (simp_all add: settled_command_def awaited_def)
    ultimately show ?thesis using inv point s' unfolding s'_def [symmetric] by (simp add: writer_inv_def)
  qed
qed


lemma poll_inv: "writer_inv s \<Longrightarrow> writer_inv (writer_step (PollCommand x) s)"
proof -
  assume inv: "writer_inv s"
  show ?thesis
  proof (cases "ws_point s = AwaitingCommand")
    case False
    then show ?thesis using inv by simp
  next
    case True
    show ?thesis
    proof (cases x)
      case (GotCommand c)
      show ?thesis
      proof (cases "c \<in> set (ws_taken s)")
        case False
        define s' where "s' = s\<lparr>ws_taken := ws_taken s @ [c], ws_point := TakenCommand c\<rparr>"
        have "tables_ok s' = tables_ok s" by (rule tables_same) (simp_all add: s'_def)
        moreover have "settled_command s' d = settled_command s d" "awaited s' d = awaited s d" for d
          by (simp_all add: s'_def settled_command_def awaited_def)
        ultimately have "writer_inv s'" using inv True unfolding writer_inv_def by (auto simp: s'_def)
        then show ?thesis using True GotCommand False by (simp add: s'_def)
      qed (use inv True GotCommand in simp)
    next
      case GotNothing
      then show ?thesis using True
        by (intro own_inv [OF inv]) (auto simp: writer_timed_out_def set_writer_def)
    next
      case GotClosed
      then show ?thesis using True
        by (intro own_inv [OF inv]) (auto simp: writer_source_closed_def set_writer_def)
    next
      case (GotFailure e)
      then show ?thesis using True
        by (intro own_inv [OF inv]) (auto simp: writer_source_failed_def set_writer_def)
    qed
  qed
qed

lemma count_same:
  "ws_controls (count_serialization_failure s) = ws_controls s" "ws_controls (count_raw_failure s) = ws_controls s"
  "tables_ok (count_serialization_failure s) = tables_ok s" "tables_ok (count_raw_failure s) = tables_ok s"
  "advances s (count_serialization_failure s)" "advances s (count_raw_failure s)"
proof -
  show "tables_ok (count_serialization_failure s) = tables_ok s" "tables_ok (count_raw_failure s) = tables_ok s"
    by (rule tables_same; simp add: count_serialization_failure_def count_raw_failure_def)+
qed (auto simp: advances_def flags_def count_serialization_failure_def count_raw_failure_def)

lemma begin_inv: "writer_inv s \<Longrightarrow> writer_inv (writer_step BeginCommand s)"
  by (cases "ws_point s")
     (auto intro!: own_inv [of s] simp: writer_command_begin_def set_writer_def)

lemma check_inv: "writer_inv s \<Longrightarrow> writer_inv (writer_step CheckCommand s)"
  by (cases "ws_point s")
     (auto intro!: own_inv [of s] simp: writer_check_def settled_command_def)

lemma encode_inv: "writer_inv s \<Longrightarrow> writer_inv (writer_step (EncodeCommand failure now) s)"
proof -
  assume inv: "writer_inv s"
  show ?thesis
  proof (cases "\<exists>c. ws_point s = Encoding c")
    case False
    then have "writer_step (EncodeCommand failure now) s = s" by (cases "ws_point s") auto
    then show ?thesis using inv by simp
  next
    case True
    then obtain c where c: "ws_point s = Encoding c" by blast
    show ?thesis
    proof (cases "\<exists>e. failure = Some e \<and> is_exception e")
      case True
      then obtain e where e: "failure = Some e" "is_exception e" by blast
      have "tables_ok (count_serialization_failure s)" using writer_invD(1) [OF inv] count_same by simp
      note fin = finish_completion_ok [OF this, of "Some e" c now]
      have "advances s (finish_writer_completion c (Some e) now (count_serialization_failure s))"
        using count_same(5) fin(2) advances_trans by blast
      then show ?thesis using done_inv [OF inv _ fin(1)] fin(3) c e by (simp add: writer_encode_def)
    next
      case False
      then show ?thesis using c
        by (intro own_inv [OF inv]) (auto simp: writer_encode_def set_writer_def split: option.splits)
    qed
  qed
qed

lemma register_inv: "writer_inv s \<Longrightarrow> writer_inv (writer_step RegisterFrame s)"
proof -
  assume inv: "writer_inv s"
  show ?thesis
  proof (cases "\<exists>c. ws_point s = Serialized c")
    case False
    then have "writer_step RegisterFrame s = s" by (cases "ws_point s") auto
    then show ?thesis using inv by simp
  next
    case True
    then obtain c where c: "ws_point s = Serialized c" by blast
    show ?thesis
    proof (cases "command_done (ws_controls s c)")
      case True
      then show ?thesis using c by (intro own_inv [OF inv]) (auto simp: writer_register_def settled_command_def)
    next
      case False
      define s' where "s' = writer_step RegisterFrame s"
      let ?r = "ws_next_receipt s"
      have s': "ws_controls s' = ws_controls s" "ws_frames s' = ws_frames s @ [(?r, c)]"
        "ws_receipts s' = (ws_receipts s)(?r := new_receipt)" "ws_next_receipt s' = Suc ?r"
        "ws_receipt_of s' = ws_receipt_of s" "wr_pending (ws_writer s') = wr_pending (ws_writer s) @ [(?r, c)]"
        "ws_taken s' = ws_taken s" "wr_started (ws_writer s') = wr_started (ws_writer s)"
        "wr_thread (ws_writer s') = wr_thread (ws_writer s)" "ws_point s' = Registered c ?r"
        using c False by (simp_all add: s'_def writer_register_def Let_def)
      note t = tables_okD [OF writer_invD(1) [OF inv]]
      have new: "(?r, d) \<notin> set (ws_frames s)" for d using t(3) by blast
      have "tables_ok s'"
        unfolding tables_ok_def settled_command_def s'
      proof (intro conjI)
        show "\<forall>c. cc_terminal (ws_controls s c) = command_done (ws_controls s c)"
          using t(1) by (simp add: settled_command_def)
        show "distinct (map fst (ws_frames s @ [(?r, c)]))" using t(2) new by (auto simp: image_iff)
        show "\<forall>(r, d) \<in> set (ws_frames s @ [(?r, c)]). r < Suc ?r" using t(3) by fastforce
        have "(?r, d) \<notin> set (wr_pending (ws_writer s))" for d using t(5) new by blast
        then show "distinct (map fst (wr_pending (ws_writer s) @ [(?r, c)]))" using t(4) by (auto simp: image_iff)
        show "\<forall>(r, d) \<in> set (wr_pending (ws_writer s) @ [(?r, c)]). (r, d) \<in> set (ws_frames s @ [(?r, c)]) \<and>
            \<not> rc_done (((ws_receipts s)(?r := new_receipt)) r)"
          using t(5) by (auto simp: new_receipt_def split: if_splits)
        show "\<forall>d r. ws_receipt_of s d = Some r \<longrightarrow> (r, d) \<in> set (ws_frames s @ [(?r, c)])" using t(6) by auto
        show "\<forall>d. cc_outcome (ws_controls s d) = Some None \<longrightarrow> (\<exists>r. (r, d) \<in> set (ws_frames s @ [(?r, c)]) \<and>
            rc_done (((ws_receipts s)(?r := new_receipt)) r) \<and> rc_error (((ws_receipts s)(?r := new_receipt)) r) = None)"
        proof (intro allI impI)
          fix d assume "cc_outcome (ws_controls s d) = Some None"
          then obtain r where "(r, d) \<in> set (ws_frames s)" "rc_done (ws_receipts s r)" "rc_error (ws_receipts s r) = None"
            using t(7) by blast
          moreover from this(1) have "r \<noteq> ?r" using new by blast
          ultimately show "\<exists>r. (r, d) \<in> set (ws_frames s @ [(?r, c)]) \<and>
            rc_done (((ws_receipts s)(?r := new_receipt)) r) \<and> rc_error (((ws_receipts s)(?r := new_receipt)) r) = None"
            by auto
        qed
      qed
      moreover have "keeps s s'" using s' by (auto simp: keeps_def settled_command_def)
      moreover have "wr_started (ws_writer s')" "wr_thread (ws_writer s')"
        using writer_invD(2,3) [OF inv] c s' by simp_all
      moreover have "awaited s' c" using s' by (simp add: awaited_def)
      ultimately have "writer_inv s'" using c s' by (intro moves_inv [OF inv]) auto
      then show ?thesis by (simp add: s'_def)
    qed
  qed
qed

lemma watch_inv: "writer_inv s \<Longrightarrow> writer_inv (writer_step WatchCommand s)"
proof -
  assume inv: "writer_inv s"
  show ?thesis
  proof (cases "\<exists>c r. ws_point s = Registered c r")
    case False
    then have "writer_step WatchCommand s = s" by (cases "ws_point s") auto
    then show ?thesis using inv by simp
  next
    case True
    then obtain c r where c: "ws_point s = Registered c r" by blast
    define s1 where "s1 = s\<lparr>ws_receipt_of := (ws_receipt_of s)(c := Some r), ws_point := Submitting c r\<rparr>"
    have frame: "(r, c) \<in> set (ws_frames s)" using writer_invD(4) [OF inv] c by simp
    have "tables_ok s1"
      using writer_invD(1) [OF inv] frame unfolding tables_ok_def settled_command_def by (simp add: s1_def)
    moreover have "registered_ok (Submitting c r) s1"
      using writer_invD(4) [OF inv] c by (simp add: s1_def settled_command_def)
    ultimately have inv1: "writer_inv s1"
      using writer_invD(2,3) [OF inv] c
      by (intro moves_inv [OF inv]) (auto simp: s1_def keeps_def settled_command_def)
    show ?thesis
    proof (cases "cc_outcome (ws_controls s c)")
      case None
      then show ?thesis using inv1 c by (simp add: writer_watch_def s1_def)
    next
      case (Some err)
      then have "settled_command s1 c" by (simp add: settled_command_def command_done_def s1_def)
      from terminate_ok [OF writer_invD(1) [OF inv1] this, of err]
      have "writer_inv (terminate_receipt c err s1)" using advances_inv [OF inv1] by blast
      then show ?thesis using Some c by (simp add: writer_watch_def s1_def)
    qed
  qed
qed

lemma expire_ok:
  assumes "tables_ok s"
  shows "tables_ok (expire_command c now s)" "advances s (expire_command c now s)" "settled_command (expire_command c now s) c"
proof -
  have "case end_command c (Some CommandDeadlineExceededError) now s of None \<Rightarrow> settled_command s c
      | Some s' \<Rightarrow> tables_ok s' \<and> advances s s' \<and> settled_command s' c"
    by (rule end_command_ok [OF assms]) simp
  then show "tables_ok (expire_command c now s)" "advances s (expire_command c now s)"
    "settled_command (expire_command c now s) c"
    using assms by (auto simp: expire_command_def split: option.splits)
qed

lemma submit_inv: "writer_inv s \<Longrightarrow> writer_inv (writer_step (SubmitFrame now) s)"
proof -
  assume inv: "writer_inv s"
  note t = writer_invD(1) [OF inv]
  show ?thesis
  proof (cases "\<exists>c r. ws_point s = Submitting c r")
    case False
    then have "writer_step (SubmitFrame now) s = s" by (cases "ws_point s") auto
    then show ?thesis using inv by simp
  next
    case True
    then obtain c r where c: "ws_point s = Submitting c r" by blast
    have reg: "(r, c) \<in> set (ws_frames s)" "settled_command s c \<or> (r, c) \<in> set (wr_pending (ws_writer s))"
      using writer_invD(4) [OF inv] c by simp_all
    consider "rc_done (ws_receipts s r)" | "\<not> rc_done (ws_receipts s r)" "deadline_passed now (ws_controls s c)"
      | "\<not> rc_done (ws_receipts s r)" "\<not> deadline_passed now (ws_controls s c)" by blast
    then show ?thesis
    proof cases
      case 1
      then have "settled_command s c" using reg(2) tables_okD(5) [OF t] by blast
      then show ?thesis using done_inv [OF inv advances_refl t] c 1 by (simp add: writer_submit_begin_def)
    next
      case 2
      note e = expire_ok [OF t, of c now]
      let ?err = "case cc_outcome (ws_controls (expire_command c now s) c) of Some e \<Rightarrow> e | None \<Rightarrow> None"
      note f = finish_receipt_ok [OF e(1), where r = r and err = ?err and now = now]
      have "settled_command (finish_receipt r ?err now (expire_command c now s)) c"
        by (rule advances_settled [OF f(2) e(3)])
      then show ?thesis using done_inv [OF inv advances_trans [OF e(2) f(2)] f(1)] c 2
        by (simp add: writer_submit_begin_def Let_def)
    next
      case 3
      then show ?thesis using c reg
        by (intro own_inv [OF inv]) (auto simp: writer_submit_begin_def settled_command_def)
    qed
  qed
qed

lemma sink_inv: "writer_inv s \<Longrightarrow> writer_inv (writer_step (SinkReturns x now) s)"
proof -
  assume inv: "writer_inv s"
  note t = writer_invD(1) [OF inv]
  show ?thesis
  proof (cases "\<exists>c r. ws_point s = AwaitingSink c r")
    case False
    then have "writer_step (SinkReturns x now) s = s" by (cases "ws_point s") auto
    then show ?thesis using inv by simp
  next
    case True
    then obtain c r where c: "ws_point s = AwaitingSink c r" by blast
    have reg: "settled_command s c \<or> (r, c) \<in> set (wr_pending (ws_writer s))"
      using writer_invD(4) [OF inv] c by simp
    have aw: "settled_command s c \<or> awaited s c" using reg by (force simp: awaited_def)
    have finish: "writer_inv ((finish_receipt r (Some e) now (count_raw_failure s))\<lparr>ws_point := CommandDone c None\<rparr>)" for e
    proof -
      have t1: "tables_ok (count_raw_failure s)" using t count_same by simp
      note f = finish_receipt_ok [OF t1, where r = r and err = "Some e" and now = now]
      have a: "advances s (finish_receipt r (Some e) now (count_raw_failure s))"
        using count_same(6) f(2) advances_trans by blast
      have "settled_command (finish_receipt r (Some e) now (count_raw_failure s)) c"
        using reg
      proof
        assume "settled_command s c"
        then show ?thesis by (rule advances_settled [OF a])
      next
        assume "(r, c) \<in> set (wr_pending (ws_writer s))"
        then show ?thesis using f(3) by (simp add: count_raw_failure_def)
      qed
      then show ?thesis using done_inv [OF inv a f(1)] c by simp
    qed
    have same: "writer_inv (s\<lparr>ws_point := CommandDone c None\<rparr>)"
      using done_inv [OF inv advances_refl t aw] c by simp
    show ?thesis
    proof (cases x)
      case (Inl e)
      show ?thesis
      proof (cases "is_exception e")
        case True
        then show ?thesis using finish same c Inl by (simp add: writer_submit_end_def)
      next
        case False
        then show ?thesis using c Inl by (intro own_inv [OF inv]) (auto simp: writer_submit_end_def)
      qed
    next
      case (Inr b)
      show ?thesis
      proof (cases b)
        case True
        then show ?thesis using c Inr aw
          by (intro own_inv [OF inv]) (auto simp: writer_submit_end_def set_writer_def)
      next
        case False
        then show ?thesis using finish c Inr by (simp add: writer_submit_end_def)
      qed
    qed
  qed
qed

lemma end_inv: "writer_inv s \<Longrightarrow> writer_inv (writer_step (EndCommand now) s)"
proof -
  assume inv: "writer_inv s"
  show ?thesis
  proof (cases "\<exists>c fatal. ws_point s = CommandDone c fatal")
    case False
    then have "writer_step (EndCommand now) s = s" by (cases "ws_point s") auto
    then show ?thesis using inv by simp
  next
    case True
    then obtain c fatal where c: "ws_point s = CommandDone c fatal" by blast
    show ?thesis
    proof (cases fatal)
      case None
      then show ?thesis using c
        by (intro own_inv [OF inv]) (auto simp: writer_command_end_def set_writer_def)
    next
      case (Some e)
      define s1 where "s1 = finish_writer_completion c (Some (RuntimeWorkerError ''Command writer'')) now s"
      have f: "tables_ok s1" "advances s s1" "settled_command s1 c"
        using finish_completion_ok [OF writer_invD(1) [OF inv], of "Some (RuntimeWorkerError ''Command writer'')" c now]
        by (simp_all add: s1_def)
      have inv1: "writer_inv s1" by (rule advances_inv [OF inv f(2,1)])
      have p1: "ws_point s1 = CommandDone c fatal" using f(2) c by (simp add: advances_def)
      have "writer_step (EndCommand now) s =
          (set_writer ((ws_writer s1)\<lparr>wr_in_flight := None, wr_stop_requested := True\<rparr>) WriterLeaving s1)
            \<lparr>ws_fatal := ws_fatal s @ [RuntimeWorkerError ''Command writer'']\<rparr>"
        using c Some by (simp add: writer_command_end_def s1_def Let_def)
      then show ?thesis using p1 f(3) Some
        by (intro own_inv [OF inv1]) (auto simp: set_writer_def)
    qed
  qed
qed

lemma exit_inv: "writer_inv s \<Longrightarrow> writer_inv (writer_step (ExitWriter now) s)"
proof -
  assume inv: "writer_inv s"
  show ?thesis
  proof (cases "ws_point s = WriterLeaving")
    case False
    then show ?thesis using inv by simp
  next
    case True
    define s1 where "s1 = (if wr_stop_requested (ws_writer s) then fail_pending now s else s)"
    define s' where "s' = writer_step (ExitWriter now) s"
    have f: "tables_ok s1" "advances s s1" "wr_stop_requested (ws_writer s) \<Longrightarrow> wr_pending (ws_writer s1) = []"
      using fail_pending_ok [OF writer_invD(1) [OF inv], of now] writer_invD(1) [OF inv] by (auto simp: s1_def)
    have inv1: "writer_inv s1" by (rule advances_inv [OF inv f(2,1)])
    have p1: "ws_point s1 = WriterLeaving" "wr_stop_requested (ws_writer s1) = wr_stop_requested (ws_writer s)"
      using f(2) True by (simp_all add: advances_def flags_def)
    have s': "ws_controls s' = ws_controls s1" "ws_frames s' = ws_frames s1" "ws_receipts s' = ws_receipts s1"
      "ws_next_receipt s' = ws_next_receipt s1" "ws_receipt_of s' = ws_receipt_of s1"
      "wr_pending (ws_writer s') = wr_pending (ws_writer s1)" "ws_taken s' = ws_taken s1"
      "wr_started (ws_writer s') = wr_started (ws_writer s1)" "wr_thread (ws_writer s') = wr_thread (ws_writer s1)"
      "wr_stop_requested (ws_writer s') = wr_stop_requested (ws_writer s1)" "wr_stopped (ws_writer s')"
      "ws_point s' = WriterGone"
      using True by (simp_all add: s'_def writer_exit_def Let_def set_writer_def s1_def)
    have "tables_ok s'" using f(1) tables_same [OF s'(1-6)] by simp
    moreover have "settled_command s' c = settled_command s1 c" "awaited s' c = awaited s1 c" for c
      using s' by (simp_all add: settled_command_def awaited_def)
    ultimately have "writer_inv s'" using inv1 p1 s' f(3) by (simp add: writer_inv_def)
    then show ?thesis by (simp add: s'_def)
  qed
qed


lemma outside_inv:
  assumes inv: "writer_inv s"
  shows "writer_inv (writer_step (ExpireCommand c now) s)" "writer_inv (writer_step (FailCommand c e now) s)"
    "writer_inv (writer_step (ReceiptEnds r err now) s)" "writer_inv (writer_step (CancelCommand c) s)"
    "writer_inv (writer_step (StartCommandSend c abort now) s)"
proof -
  note t = writer_invD(1) [OF inv]
  show expire: "writer_inv (writer_step (ExpireCommand c now) s)"
    using expire_ok [OF t] advances_inv [OF inv] by simp
  have "case end_command c (Some e) now s of None \<Rightarrow> settled_command s c
      | Some s' \<Rightarrow> tables_ok s' \<and> advances s s' \<and> settled_command s' c"
    by (rule end_command_ok [OF t]) simp
  then show "writer_inv (writer_step (FailCommand c e now) s)"
    using advances_inv [OF inv] inv by (auto split: option.splits)
  show "writer_inv (writer_step (ReceiptEnds r err now) s)"
    using finish_receipt_ok [OF t] advances_inv [OF inv] by simp
  show "writer_inv (writer_step (CancelCommand c) s)"
  proof (cases "snd (control_cancel (ws_controls s c)) = Cancelled")
    case False
    then have "cancel_command c s = s"
      by (auto simp: cancel_command_def control_cancel_def split: option.splits)
    then show ?thesis using inv by simp
  next
    case True
    then have new: "\<not> cc_terminal (ws_controls s c)" by (auto simp: control_cancel_def split: if_splits)
    define x where "x = (ws_controls s c)\<lparr>cc_terminal := True, cc_outcome := Some (Some CommandCancelledError)\<rparr>"
    have e: "cancel_command c s = terminate_receipt c (Some CommandCancelledError) (set_control c x s)"
      using True by (auto simp: cancel_command_def control_cancel_def x_def split: option.splits if_splits)
    have "tables_ok (set_control c x s)" by (rule control_tables [OF t]) (simp_all add: x_def)
    moreover have "advances s (set_control c x s)" "settled_command (set_control c x s) c"
      using advances_control [of s c x] new tables_okD(1) [OF t] by (simp_all add: x_def)
    ultimately show ?thesis
      using terminate_ok advances_trans advances_inv [OF inv] by (simp add: e)
  qed
  show "writer_inv (writer_step (StartCommandSend c abort now) s)"
  proof (cases "control_start_send abort now (ws_controls s c)")
    case (Pair control result)
    show ?thesis
    proof (cases result)
      case SendStarted
      then have x: "cc_outcome control = cc_outcome (ws_controls s c)" "cc_terminal control = cc_terminal (ws_controls s c)"
        "\<not> cc_terminal (ws_controls s c)"
        using Pair by (auto simp: control_start_send_def split: if_splits)
      have settled: "settled_command (set_control c control s) d = settled_command s d" for d
        using x by (simp add: settled_command_def set_control_def command_done_def)
      have "tables_ok (set_control c control s)"
        unfolding tables_ok_def settled using t [unfolded tables_ok_def] x
        by (simp add: set_control_def)
      moreover have "advances s (set_control c control s)"
        using x(3) tables_okD(1) [OF t] settled by (auto simp: advances_def set_control_def)
      ultimately show ?thesis using advances_inv [OF inv] Pair SendStarted by simp
    next
      case SendRefused
      then show ?thesis using inv Pair by simp
    next
      case SendExpired
      then show ?thesis using expire Pair by simp
    qed
  qed
qed

lemma writer_step_inv: "writer_inv s \<Longrightarrow> writer_inv (writer_step x s)"
  by (cases x) (simp_all only: start_inv stop_inv poll_inv begin_inv check_inv encode_inv register_inv watch_inv
      submit_inv sink_inv end_inv exit_inv outside_inv)

interpretation writer: invariant_machine writer_step writer_inv
  by unfold_locales (rule writer_step_inv)

definition writer_system_start :: "(nat \<Rightarrow> rat option) \<Rightarrow> writer_system" where
  "writer_system_start deadline =
     \<lparr>ws_writer = new_writer, ws_controls = \<lambda>c. new_control (deadline c), ws_receipts = \<lambda>_. new_receipt,
      ws_receipt_of = \<lambda>_. None, ws_frames = [], ws_next_receipt = 0, ws_point = NoWriter, ws_taken = [],
      ws_fatal = []\<rparr>"

lemma initial_inv: "writer_inv (writer_system_start deadline)"
  by (simp add: writer_inv_def tables_ok_def writer_system_start_def settled_command_def command_done_def
      new_control_def new_writer_def)


abbreviation writer_run :: "(nat \<Rightarrow> rat option) \<Rightarrow> writer_op list \<Rightarrow> writer_system" where
  "writer_run deadline ops \<equiv> fold writer_step ops (writer_system_start deadline)"

lemma run_inv: "writer_inv (writer_run deadline ops)"
  by (rule writer.inv_run [OF initial_inv])

text \<open>The command in the worker's hand is the one in flight.\<close>

fun handled :: "writer_point \<Rightarrow> nat option" where
  "handled (Processing c) = Some c"
| "handled (Encoding c) = Some c"
| "handled (Serialized c) = Some c"
| "handled (Registered c r) = Some c"
| "handled (Submitting c r) = Some c"
| "handled (AwaitingSink c r) = Some c"
| "handled (CommandDone c e) = Some c"
| "handled _ = None"

definition flight_ok :: "writer_system \<Rightarrow> bool" where
  "flight_ok s \<longleftrightarrow> (\<forall>c. handled (ws_point s) = Some c \<longrightarrow> wr_in_flight (ws_writer s) = Some c)"

definition still :: "writer_system \<Rightarrow> writer_system \<Rightarrow> bool" where
  "still s s' \<longleftrightarrow> ws_point s' = ws_point s \<and> wr_in_flight (ws_writer s') = wr_in_flight (ws_writer s)"

lemma still_trans: "still s s' \<Longrightarrow> still s' s'' \<Longrightarrow> still s s''"
  by (simp add: still_def)

lemma still_refl: "still s s"
  by (simp add: still_def)

lemma still_drop: "still s (drop_receipt r x s)"
  by (simp add: still_def drop_receipt_def)

lemma still_control: "still s (set_control c y s)"
  by (simp add: still_def set_control_def)

lemma still_terminate: "still s (terminate_receipt c err s)"
  by (simp add: terminate_receipt_def close_receipt_eq still_refl still_drop split: option.split)

lemma still_end: "end_command c err now s = Some s' \<Longrightarrow> still s s'"
  using still_trans [OF still_control still_terminate]
  by (auto simp: end_command_def split: sum.splits)

lemma still_finish: "still s (finish_writer_completion c err now s)"
proof (cases "end_command c err now s")
  case None
  then show ?thesis by (simp add: finish_writer_completion_def still_refl)
next
  case (Some s')
  then show ?thesis using still_end [OF Some] by (simp add: finish_writer_completion_def still_def)
qed

lemma still_receipt: "still s (finish_receipt r err now s)"
  using still_trans [OF still_drop still_finish]
  by (simp add: finish_receipt_def close_receipt_eq still_refl still_drop split: option.split)

lemma still_expire: "still s (expire_command c now s)"
  by (cases "end_command c (Some CommandDeadlineExceededError) now s")
     (simp_all add: expire_command_def still_refl still_end)

lemma still_cancel: "still s (cancel_command c s)"
  using still_trans [OF still_control still_terminate]
  by (simp add: cancel_command_def still_refl split: prod.split cancel_result.split)

lemma still_fail: "still s (fail_pending now s)"
proof -
  have "still s (fail_each pending now s)" for pending s
  proof (induction pending now s rule: fail_each.induct)
    case (2 r c pending now s)
    then show ?case using still_finish [of "s\<lparr>ws_writer := (ws_writer s)\<lparr>wr_pending :=
        AList.delete r (wr_pending (ws_writer s))\<rparr>\<rparr>" c "Some writer_stopped_error" now]
      by (simp add: still_def)
  qed (simp add: still_def)
  then show ?thesis by (simp add: fail_pending_def Let_def still_def)
qed

lemma still_count: "still s (count_raw_failure s)" "still s (count_serialization_failure s)"
  by (simp_all add: still_def count_raw_failure_def count_serialization_failure_def)

lemma flight_still: "flight_ok s \<Longrightarrow> still s s' \<Longrightarrow> flight_ok s'"
  by (simp add: flight_ok_def still_def)

lemma flight_moved:
  "flight_ok s \<Longrightarrow> still s s' \<Longrightarrow> handled p = handled (ws_point s) \<Longrightarrow> flight_ok (s'\<lparr>ws_point := p\<rparr>)"
  by (simp add: flight_ok_def still_def)

lemma flight_step:
  assumes ok: "flight_ok s"
  shows "flight_ok (writer_step x s)"
proof (cases x)
  case (WriterStart b)
  then show ?thesis using ok
    by (auto simp: writer_start_def set_writer_def flight_ok_def)
next
  case (WriterStop now)
  then show ?thesis using ok flight_still [OF ok still_fail]
    by (auto simp: writer_stop_begin_def Let_def) (simp_all add: flight_ok_def)
next
  case (PollCommand r)
  then show ?thesis using ok
    by (auto simp: flight_ok_def writer_timed_out_def writer_source_closed_def writer_source_failed_def set_writer_def
        split: poll_result.splits)
next
  case BeginCommand
  then show ?thesis using ok
    by (cases "ws_point s") (auto simp: flight_ok_def writer_command_begin_def set_writer_def)
next
  case CheckCommand
  then show ?thesis using ok
    by (cases "ws_point s") (auto simp: flight_ok_def writer_check_def)
next
  case (EncodeCommand failure now)
  show ?thesis
  proof (cases "\<exists>c. ws_point s = Encoding c")
    case True
    then obtain c where c: "ws_point s = Encoding c" by blast
    have "flight_ok ((finish_writer_completion c (Some e) now (count_serialization_failure s))\<lparr>ws_point := CommandDone c None\<rparr>)" for e
      by (rule flight_moved [OF ok still_trans [OF still_count(2) still_finish]]) (simp add: c)
    then show ?thesis using EncodeCommand c ok
      by (auto simp: writer_encode_def set_writer_def flight_ok_def split: option.splits)
  next
    case False
    then show ?thesis using ok EncodeCommand by (cases "ws_point s") auto
  qed
next
  case RegisterFrame
  then show ?thesis using ok
    by (cases "ws_point s") (auto simp: flight_ok_def writer_register_def Let_def)
next
  case WatchCommand
  show ?thesis
  proof (cases "\<exists>c r. ws_point s = Registered c r")
    case True
    then obtain c r where c: "ws_point s = Registered c r" by blast
    let ?s = "s\<lparr>ws_receipt_of := (ws_receipt_of s)(c := Some r), ws_point := Submitting c r\<rparr>"
    have "flight_ok ?s" using ok c by (simp add: flight_ok_def)
    then show ?thesis using WatchCommand c flight_still [OF _ still_terminate]
      by (simp add: writer_watch_def Let_def split: option.split)
  next
    case False
    then show ?thesis using ok WatchCommand by (cases "ws_point s") auto
  qed
next
  case (SubmitFrame now)
  show ?thesis
  proof (cases "\<exists>c r. ws_point s = Submitting c r")
    case True
    then obtain c r where c: "ws_point s = Submitting c r" by blast
    have "flight_ok ((finish_receipt r err now (expire_command c now s))\<lparr>ws_point := CommandDone c None\<rparr>)" for err
      by (rule flight_moved [OF ok still_trans [OF still_expire still_receipt]]) (simp add: c)
    moreover have "flight_ok (s\<lparr>ws_point := CommandDone c None\<rparr>)" "flight_ok (s\<lparr>ws_point := AwaitingSink c r\<rparr>)"
      using flight_moved [OF ok still_refl] c by simp_all
    ultimately show ?thesis using SubmitFrame c by (simp add: writer_submit_begin_def Let_def)
  next
    case False
    then show ?thesis using ok SubmitFrame by (cases "ws_point s") auto
  qed
next
  case (SinkReturns result now)
  show ?thesis
  proof (cases "\<exists>c r. ws_point s = AwaitingSink c r")
    case True
    then obtain c r where c: "ws_point s = AwaitingSink c r" by blast
    have "flight_ok ((finish_receipt r e now (count_raw_failure s))\<lparr>ws_point := CommandDone c None\<rparr>)" for e
      by (rule flight_moved [OF ok still_trans [OF still_count(1) still_receipt]]) (simp add: c)
    moreover have "flight_ok (s\<lparr>ws_point := CommandDone c e\<rparr>)" for e
      using flight_moved [OF ok still_refl] c by simp
    moreover have "flight_ok (set_writer ((ws_writer s)\<lparr>wr_frames_enqueued := n\<rparr>) (CommandDone c None) s)" for n
      using ok c by (simp add: flight_ok_def set_writer_def)
    ultimately show ?thesis using SinkReturns c
      by (auto simp: writer_submit_end_def split: sum.splits bool.splits)
  next
    case False
    then show ?thesis using ok SinkReturns by (cases "ws_point s") auto
  qed
next
  case (EndCommand now)
  then show ?thesis using ok
    by (cases "ws_point s") (auto simp: writer_command_end_def flight_ok_def set_writer_def Let_def split: option.splits)
next
  case (ExitWriter now)
  then show ?thesis using ok by (auto simp: writer_exit_def Let_def set_writer_def flight_ok_def)
next
  case (CancelCommand c)
  then show ?thesis using flight_still [OF ok still_cancel] by simp
next
  case (ExpireCommand c now)
  then show ?thesis using flight_still [OF ok still_expire] by simp
next
  case (StartCommandSend c abort now)
  then show ?thesis using ok flight_still [OF ok still_expire] flight_still [OF ok still_control]
    by (auto split: prod.splits start_result.splits)
next
  case (FailCommand c e now)
  then show ?thesis using ok flight_still [OF ok still_end] by (auto split: option.splits)
next
  case (ReceiptEnds r err now)
  then show ?thesis using flight_still [OF ok still_receipt] by simp
qed

interpretation writer_flight: invariant_machine writer_step flight_ok
  by unfold_locales (rule flight_step)

lemma run_flight: "flight_ok (writer_run deadline ops)"
  by (rule writer_flight.inv_run) (simp add: flight_ok_def writer_system_start_def)

section \<open>Properties\<close>


text \<open>
  What \<open>drain\<close> reports: when the writer counts as drained, every command that it took is settled, save
  one that the worker has received but not yet entered as in flight.
\<close>

theorem writer_drained_settled:
  assumes "writer_drained (ws_writer (writer_run deadline ops))" and "c \<in> set (ws_taken (writer_run deadline ops))"
  shows "settled_command (writer_run deadline ops) c \<or> ws_point (writer_run deadline ops) = TakenCommand c"
proof -
  let ?s = "writer_run deadline ops"
  have "wr_in_flight (ws_writer ?s) = None" "wr_pending (ws_writer ?s) = []"
    using assms(1) by (simp_all add: writer_drained_def split: if_splits)
  then have "settled_command ?s c \<or> in_hand (ws_point ?s) c" "handled (ws_point ?s) = None"
    using writer_invD(5) [OF run_inv assms(2)] run_flight [where deadline = deadline and ops = ops]
    by (auto simp: awaited_def flight_ok_def)
  then show ?thesis by (cases "ws_point ?s") auto
qed

text \<open>
  C21. Success is earned: a command is reported as sent only when a frame was made for it and the receipt
  of that frame was confirmed without an error.
\<close>

theorem writer_success_confirmed:
  assumes "cc_outcome (ws_controls (writer_run deadline ops) c) = Some None"
  shows "confirmed (writer_run deadline ops) c"
  using tables_okD(7) [OF writer_invD(1) [OF run_inv] assms] by (simp add: confirmed_def)

section \<open>Witnesses\<close>

definition one_command :: "writer_op list" where
  "one_command = [WriterStart True, PollCommand (GotCommand 0), BeginCommand, CheckCommand, EncodeCommand None 0,
     RegisterFrame, WatchCommand, SubmitFrame 0, SinkReturns (Inr True) 0, EndCommand 0]"

lemmas writer_defs = one_command_def writer_system_start_def new_writer_def writer_start_def set_writer_def
  writer_command_begin_def writer_check_def writer_encode_def writer_register_def writer_watch_def
  writer_submit_begin_def writer_submit_end_def writer_command_end_def writer_source_closed_def writer_timed_out_def
  writer_exit_def command_done_def new_control_def new_receipt_def deadline_passed_def Let_def
  finish_receipt_def close_receipt_def receipt_finish_def finish_writer_completion_def end_command_def
  control_finish_def terminate_receipt_def set_control_def settled_command_def writer_drained_def


lemma writer_drained_settled_witness:
  "settled_command (writer_run (\<lambda>_. None) (one_command @ [ReceiptEnds 0 None 0, PollCommand GotNothing])) 0"
  using writer_drained_settled [where deadline = "\<lambda>_. None"
    and ops = "one_command @ [ReceiptEnds 0 None 0, PollCommand GotNothing]" and c = 0]
  by (simp add: writer_defs)

lemma writer_success_confirmed_witness:
  "confirmed (writer_run (\<lambda>_. None) (one_command @ [ReceiptEnds 0 None 0])) 0"
  by (rule writer_success_confirmed) (simp add: writer_defs)

end
