(* ===== verification/Pumps.thy ===== *)
theory Pumps
  imports InboundQueue Lifecycle
begin

text \<open>
  runtime/pumps.py: the pump that takes events from the inbound queue and gives them to the scheduler. It is
  a worker by segments, as in theory Reader, with the callbacks of the scheduler's threads as steps of their
  own. It is modelled over any source and scheduler, then over the queue of theory InboundQueue. The
  fatal-error observer raises nothing but what the pump swallows. Theory SessionPump has the other pump.
\<close>

section \<open>Event pump\<close>

record event_pump =
  ep_has_gate :: bool
  ep_has_on_ready :: bool
  ep_thread :: bool
  ep_started :: bool
  ep_stop_requested :: bool
  ep_stopped :: bool
  ep_failure :: "exn option"
  ep_events_received :: nat
  ep_events_acknowledged :: nat
  ep_acknowledgement_failures :: nat
  ep_submitted_to_scheduler :: nat
  ep_discarded_during_shutdown :: nat
  ep_source_poll_timeouts :: nat
  ep_source_closed :: nat
  ep_current_owned :: int
  ep_peak_owned :: int

definition new_event_pump :: "bool \<Rightarrow> bool \<Rightarrow> event_pump" where
  "new_event_pump has_gate has_on_ready =
     \<lparr>ep_has_gate = has_gate, ep_has_on_ready = has_on_ready, ep_thread = False, ep_started = False,
      ep_stop_requested = False, ep_stopped = False, ep_failure = None, ep_events_received = 0,
      ep_events_acknowledged = 0, ep_acknowledgement_failures = 0, ep_submitted_to_scheduler = 0,
      ep_discarded_during_shutdown = 0, ep_source_poll_timeouts = 0, ep_source_closed = 0,
      ep_current_owned = 0, ep_peak_owned = 0\<rparr>"

text \<open>\<open>_validate_poll_interval\<close>.\<close>

definition validate_poll_interval :: "pyval \<Rightarrow> exn + rat" where
  "validate_poll_interval v =
     (let message = ''poll_interval must be a positive finite number'' in
      case v of
        PInt n \<Rightarrow> (case py_float_of_int n of
            None \<Rightarrow> Inl OverflowError
          | Some f \<Rightarrow> if n \<le> 0 then Inl (ValueError message) else Inr f)
      | PFloat (FFinite r) \<Rightarrow> if r \<le> 0 then Inl (ValueError message) else Inr r
      | _ \<Rightarrow> Inl (ValueError message))"

definition pump_start :: "bool \<Rightarrow> event_pump \<Rightarrow> event_pump \<times> exn option \<times> bool" where
  "pump_start thread_starts p =
     (if ep_started p \<and> \<not> ep_stopped p then (p, None, False)
      else if ep_stopped p \<or> ep_stop_requested p
      then (p, Some (LifecycleError ''event pump has already been stopped''), False)
      else if thread_starts then (p\<lparr>ep_thread := True, ep_started := True\<rparr>, None, True)
      else (p\<lparr>ep_thread := False, ep_started := False\<rparr>, Some (RuntimeError ''can't start new thread''), False))"

definition pump_request_stop :: "event_pump \<Rightarrow> event_pump" where
  "pump_request_stop p =
     p\<lparr>ep_stop_requested := True, ep_stopped := ep_stopped p \<or> \<not> ep_thread p\<rparr>"

definition pump_drained :: "event_pump \<Rightarrow> bool" where
  "pump_drained p \<longleftrightarrow> ep_stopped p \<and> ep_current_owned p = 0"

definition pump_drain_attempt :: "bool \<Rightarrow> event_pump \<Rightarrow> bool option" where
  "pump_drain_attempt expired p =
     (if pump_drained p then Some True else if expired then Some False else None)"

definition pump_count_timeout :: "event_pump \<Rightarrow> event_pump" where
  "pump_count_timeout p = p\<lparr>ep_source_poll_timeouts := Suc (ep_source_poll_timeouts p)\<rparr>"

definition pump_count_closed :: "event_pump \<Rightarrow> event_pump" where
  "pump_count_closed p = p\<lparr>ep_source_closed := Suc (ep_source_closed p)\<rparr>"

definition take_ownership :: "event_pump \<Rightarrow> event_pump" where
  "take_ownership p =
     (let n = ep_current_owned p + 1 in
      p\<lparr>ep_events_received := Suc (ep_events_received p), ep_current_owned := n,
        ep_peak_owned := max (ep_peak_owned p) n\<rparr>)"

text \<open>The segments of \<open>_finish_owned\<close> on the pump: the count of a discarded event, of the answer of \<open>task_done\<close>, and the release.\<close>

definition pump_count_discarded :: "bool \<Rightarrow> event_pump \<Rightarrow> event_pump" where
  "pump_count_discarded discarded p =
     (if discarded then p\<lparr>ep_discarded_during_shutdown := Suc (ep_discarded_during_shutdown p)\<rparr> else p)"

definition pump_count_answer :: "exn option \<Rightarrow> event_pump \<Rightarrow> event_pump" where
  "pump_count_answer answer p =
     (case answer of
        None \<Rightarrow> p\<lparr>ep_events_acknowledged := Suc (ep_events_acknowledged p)\<rparr>
      | Some e \<Rightarrow>
          if is_exception e then p\<lparr>ep_acknowledgement_failures := Suc (ep_acknowledgement_failures p)\<rparr> else p)"

definition pump_release :: "event_pump \<Rightarrow> event_pump" where
  "pump_release p = p\<lparr>ep_current_owned := ep_current_owned p - 1\<rparr>"

definition pump_exit :: "event_pump \<Rightarrow> event_pump" where
  "pump_exit p = p\<lparr>ep_stopped := True\<rparr>"

text \<open>
  An event that the pump owns, by how far \<open>_finish_owned\<close> has come with it: not claimed, claimed with the error
  that is fatal so far, answered by \<open>task_done\<close>, counted, released, and settled. \<open>Inl\<close> is a base exception
  of \<open>task_done\<close>, which passes on after the release.
\<close>

datatype owned_state =
    OwnedOpen
  | OwnedClaimed "exn option"
  | OwnedAnswered "exn option" "exn option"
  | OwnedCounted "exn + exn option"
  | OwnedReleased "exn + exn option"
  | OwnedSettled "exn option"

text \<open>Where the worker is; the number is the event in hand, the flag whether it returns after finishing it.\<close>

datatype pump_point =
    NoPump
  | AwaitingReady
  | WaitingReady
  | ReadyCheck
  | CallingReady
  | PumpTop
  | PumpReceiving
  | TakenEvent
  | TakenOther
  | OwnedEvent nat
  | CountingSubmit nat
  | SubmittingEvent nat
  | FinishingEvent nat bool
  | PumpFails exn
  | PumpLeaving
  | PumpGone

text \<open>
  \<open>ps_owned\<close>: the events received, by number; \<open>ps_acks\<close>: the calls of \<open>task_done\<close> with the event and the
  answer; \<open>ps_registered\<close>: the events whose completion got the callback; \<open>ps_ready_calls\<close>: the calls of
  \<open>on_ready\<close>; \<open>ps_ready_seen\<close>: the gate was seen open; \<open>ps_at_stop\<close>: the number of events received when
  the stop was first requested; \<open>ps_fatal\<close>: the calls of the fatal-error observer.
\<close>

record pump_system =
  ps_pump :: event_pump
  ps_point :: pump_point
  ps_owned :: "owned_state list"
  ps_acks :: "(nat \<times> exn option) list"
  ps_registered :: "nat list"
  ps_ready_calls :: nat
  ps_ready_seen :: bool
  ps_at_stop :: "nat option"
  ps_fatal :: "exn list"

definition new_pump_system :: "bool \<Rightarrow> bool \<Rightarrow> pump_system" where
  "new_pump_system has_gate has_on_ready =
     \<lparr>ps_pump = new_event_pump has_gate has_on_ready, ps_point = NoPump, ps_owned = [], ps_acks = [],
      ps_registered = [], ps_ready_calls = 0, ps_ready_seen = False, ps_at_stop = None, ps_fatal = []\<rparr>"

definition note_stop :: "pump_system \<Rightarrow> pump_system" where
  "note_stop s = s\<lparr>ps_at_stop := (if ps_at_stop s = None then Some (length (ps_owned s)) else ps_at_stop s)\<rparr>"

text \<open>\<open>_record_fatal\<close>: the first failure stays, and only it is reported.\<close>

definition pump_record_fatal :: "exn \<Rightarrow> pump_system \<Rightarrow> pump_system" where
  "pump_record_fatal e s =
     (if ep_failure (ps_pump s) \<noteq> None then s
      else note_stop (s\<lparr>ps_pump := (ps_pump s)\<lparr>ep_failure := Some e, ep_stop_requested := True\<rparr>,
             ps_fatal := ps_fatal s @ [e]\<rparr>))"

text \<open>The first segment of \<open>_finish_owned\<close>; the flag tells whether there is more to do.\<close>

definition claim_owned :: "nat \<Rightarrow> bool \<Rightarrow> exn option \<Rightarrow> pump_system \<Rightarrow> pump_system \<times> bool" where
  "claim_owned i discarded fatal s =
     (if ps_owned s ! i \<noteq> OwnedOpen then (s, False)
      else (s\<lparr>ps_owned := (ps_owned s)[i := OwnedClaimed fatal],
              ps_pump := pump_count_discarded discarded (ps_pump s)\<rparr>, True))"

text \<open>\<open>_finish_owned\<close> called by the worker, which then returns or goes on.\<close>

definition worker_finish :: "nat \<Rightarrow> bool \<Rightarrow> exn option \<Rightarrow> bool \<Rightarrow> pump_system \<Rightarrow> pump_system" where
  "worker_finish i discarded fatal leave s =
     (case claim_owned i discarded fatal s of
        (s', claimed) \<Rightarrow>
          s'\<lparr>ps_point := (if claimed then FinishingEvent i leave else if leave then PumpLeaving else PumpTop)\<rparr>)"

definition owned_call_done :: "nat \<Rightarrow> exn option \<Rightarrow> pump_system \<Rightarrow> pump_system" where
  "owned_call_done i answer s =
     (case ps_owned s ! i of
        OwnedClaimed fatal \<Rightarrow>
          s\<lparr>ps_owned := (ps_owned s)[i := OwnedAnswered fatal answer], ps_acks := ps_acks s @ [(i, answer)]\<rparr>
      | _ \<Rightarrow> s)"

definition owned_count :: "nat \<Rightarrow> pump_system \<Rightarrow> pump_system" where
  "owned_count i s =
     (case ps_owned s ! i of
        OwnedAnswered fatal answer \<Rightarrow>
          s\<lparr>ps_owned := (ps_owned s)[i := OwnedCounted
               (case answer of
                  None \<Rightarrow> Inr fatal
                | Some e \<Rightarrow> if is_exception e then Inr (if fatal = None then Some e else fatal) else Inl e)],
            ps_pump := pump_count_answer answer (ps_pump s)\<rparr>
      | _ \<Rightarrow> s)"

definition owned_release :: "nat \<Rightarrow> pump_system \<Rightarrow> pump_system" where
  "owned_release i s =
     (case ps_owned s ! i of
        OwnedCounted rest \<Rightarrow>
          s\<lparr>ps_owned := (ps_owned s)[i := OwnedReleased rest], ps_pump := pump_release (ps_pump s)\<rparr>
      | _ \<Rightarrow> s)"

definition owned_report :: "nat \<Rightarrow> pump_system \<Rightarrow> pump_system" where
  "owned_report i s =
     (case ps_owned s ! i of
        OwnedReleased (Inl e) \<Rightarrow> s\<lparr>ps_owned := (ps_owned s)[i := OwnedSettled (Some e)]\<rparr>
      | OwnedReleased (Inr None) \<Rightarrow> s\<lparr>ps_owned := (ps_owned s)[i := OwnedSettled None]\<rparr>
      | OwnedReleased (Inr (Some e)) \<Rightarrow>
          pump_record_fatal e (s\<lparr>ps_owned := (ps_owned s)[i := OwnedSettled None]\<rparr>)
      | _ \<Rightarrow> s)"

text \<open>\<open>_on_dispatch_done\<close> with what the completion gives.\<close>

datatype dispatch_answer = DispatchGave dispatch_result | DispatchGaveOther | DispatchRaised exn

definition on_dispatch_done :: "nat \<Rightarrow> dispatch_answer \<Rightarrow> pump_system \<Rightarrow> pump_system" where
  "on_dispatch_done i answer s =
     (case answer of
        DispatchGave result \<Rightarrow> fst (claim_owned i (dres_outcome result = DiscardedDuringShutdown) None s)
      | DispatchGaveOther \<Rightarrow>
          fst (claim_owned i False (Some (TypeError ''dispatch completion must return DispatchResult'')) s)
      | DispatchRaised e \<Rightarrow> if is_exception e then fst (claim_owned i False (Some e) s) else s)"

datatype pump_received = ReceivedEvent | ReceivedOther | SourceTimedOut | SourceEnded | SourceRaised exn

datatype pump_op =
    PumpStart bool
  | PumpRequestStop
  | PumpCheckStop
  | PumpGateAnswers bool bool bool
  | PumpReadyReturns "exn option"
  | PumpSourceAnswers pump_received
  | PumpOwn
  | PumpCheckStopping
  | PumpCountSubmitted
  | PumpSubmitEnds bool "exn option"
  | PumpResume
  | PumpReportCrash
  | PumpExit
  | DispatchDone nat dispatch_answer
  | TaskDoneAnswers nat "exn option"
  | CountAnswer nat
  | ReleaseOwned nat
  | ReportOwned nat

definition at_point :: "pump_point \<Rightarrow> pump_system \<Rightarrow> pump_system" where
  "at_point pt s = s\<lparr>ps_point := pt\<rparr>"

text \<open>A call of the worker that returns, or raises: an \<open>Exception\<close> no clause handles ends the worker too.\<close>

fun pump_step :: "pump_op \<Rightarrow> pump_system \<Rightarrow> pump_system" where
  "pump_step (PumpStart thread_starts) s =
     (case pump_start thread_starts (ps_pump s) of
        (p, _, started) \<Rightarrow> s\<lparr>ps_pump := p, ps_point :=
          (if \<not> started then ps_point s else if ep_has_gate p then AwaitingReady else ReadyCheck)\<rparr>)"
| "pump_step PumpRequestStop s = note_stop (s\<lparr>ps_pump := pump_request_stop (ps_pump s)\<rparr>)"
| "pump_step PumpCheckStop s =
     (let next_point = (\<lambda>pt. if ep_stop_requested (ps_pump s) then PumpLeaving else pt) in
      case ps_point s of
        AwaitingReady \<Rightarrow> at_point (next_point WaitingReady) s
      | ReadyCheck \<Rightarrow> at_point (next_point (if ep_has_on_ready (ps_pump s) then CallingReady else PumpTop)) s
      | PumpTop \<Rightarrow> at_point (next_point PumpReceiving) s
      | _ \<Rightarrow> s)"
| "pump_step (PumpGateAnswers opened failed ended) s =
     (if ps_point s \<noteq> WaitingReady then s
      else if opened then at_point ReadyCheck (s\<lparr>ps_ready_seen := True\<rparr>)
      else if failed then at_point PumpLeaving s
      else if ended then at_point PumpLeaving s
      else at_point AwaitingReady s)"
| "pump_step (PumpReadyReturns failure) s =
     (if ps_point s \<noteq> CallingReady then s
      else at_point (case failure of None \<Rightarrow> PumpTop | Some e \<Rightarrow> PumpFails e)
        (s\<lparr>ps_ready_calls := Suc (ps_ready_calls s)\<rparr>))"
| "pump_step (PumpSourceAnswers received) s =
     (if ps_point s \<noteq> PumpReceiving then s
      else case received of
        ReceivedEvent \<Rightarrow> at_point TakenEvent s
      | ReceivedOther \<Rightarrow> at_point TakenOther s
      | SourceTimedOut \<Rightarrow> at_point PumpTop (s\<lparr>ps_pump := pump_count_timeout (ps_pump s)\<rparr>)
      | SourceEnded \<Rightarrow> at_point PumpLeaving (s\<lparr>ps_pump := pump_count_closed (ps_pump s)\<rparr>)
      | SourceRaised e \<Rightarrow>
          if is_exception e then at_point PumpLeaving (pump_record_fatal e s) else at_point (PumpFails e) s)"
| "pump_step PumpOwn s =
     (let i = length (ps_owned s);
          s1 = s\<lparr>ps_owned := ps_owned s @ [OwnedOpen], ps_pump := take_ownership (ps_pump s)\<rparr> in
      case ps_point s of
        TakenEvent \<Rightarrow> at_point (OwnedEvent i) s1
      | TakenOther \<Rightarrow>
          worker_finish i False (Some (TypeError ''source returned a non-StreamDockEvent value'')) True s1
      | _ \<Rightarrow> s)"
| "pump_step PumpCheckStopping s =
     (case ps_point s of
        OwnedEvent i \<Rightarrow>
          if ep_stop_requested (ps_pump s) then worker_finish i True None True s
          else at_point (CountingSubmit i) s
      | _ \<Rightarrow> s)"
| "pump_step PumpCountSubmitted s =
     (case ps_point s of
        CountingSubmit i \<Rightarrow>
          at_point (SubmittingEvent i) (s\<lparr>ps_pump := (ps_pump s)\<lparr>ep_submitted_to_scheduler :=
            Suc (ep_submitted_to_scheduler (ps_pump s))\<rparr>\<rparr>)
      | _ \<Rightarrow> s)"
| "pump_step (PumpSubmitEnds registered failure) s =
     (case ps_point s of
        SubmittingEvent i \<Rightarrow>
          (let s1 = (if registered then s\<lparr>ps_registered := ps_registered s @ [i]\<rparr> else s) in
           case failure of
             None \<Rightarrow> at_point PumpTop s1
           | Some e \<Rightarrow>
               if is_exception e then worker_finish i False (Some e) False s1 else at_point (PumpFails e) s1)
      | _ \<Rightarrow> s)"
| "pump_step PumpResume s =
     (case ps_point s of
        FinishingEvent i leave \<Rightarrow>
          (case ps_owned s ! i of
             OwnedSettled None \<Rightarrow> at_point (if leave then PumpLeaving else PumpTop) s
           | OwnedSettled (Some e) \<Rightarrow> at_point (PumpFails e) s
           | _ \<Rightarrow> s)
      | _ \<Rightarrow> s)"
| "pump_step PumpReportCrash s =
     (case ps_point s of
        PumpFails e \<Rightarrow> at_point PumpLeaving (pump_record_fatal (RuntimeWorkerError ''Runtime event pump'') s)
      | _ \<Rightarrow> s)"
| "pump_step PumpExit s =
     (if ps_point s = PumpLeaving then at_point PumpGone (s\<lparr>ps_pump := pump_exit (ps_pump s)\<rparr>) else s)"
| "pump_step (DispatchDone i answer) s =
     (if i \<in> set (ps_registered s) then on_dispatch_done i answer s else s)"
| "pump_step (TaskDoneAnswers i answer) s = (if i < length (ps_owned s) then owned_call_done i answer s else s)"
| "pump_step (CountAnswer i) s = (if i < length (ps_owned s) then owned_count i s else s)"
| "pump_step (ReleaseOwned i) s = (if i < length (ps_owned s) then owned_release i s else s)"
| "pump_step (ReportOwned i) s = (if i < length (ps_owned s) then owned_report i s else s)"

abbreviation pump_run :: "bool \<Rightarrow> bool \<Rightarrow> pump_op list \<Rightarrow> pump_system" where
  "pump_run has_gate has_on_ready ops \<equiv> fold pump_step ops (new_pump_system has_gate has_on_ready)"


section \<open>Invariant of the event pump\<close>

lemma count_update:
  "i < length xs \<Longrightarrow> length (filter P (xs[i := y])) + (if P (xs ! i) then 1 else 0)
     = length (filter P xs) + (if P y then 1 else 0)"
proof (induction xs arbitrary: i)
  case (Cons x xs)
  then show ?case by (cases i) (auto split: if_split)
qed simp

lemma count_moved:
  assumes "i < length xs"
  shows "P (xs ! i) = P y \<Longrightarrow> length (filter P (xs[i := y])) = length (filter P xs)"
    and "\<not> P (xs ! i) \<Longrightarrow> P y \<Longrightarrow> length (filter P (xs[i := y])) = Suc (length (filter P xs))"
    and "P (xs ! i) \<Longrightarrow> \<not> P y \<Longrightarrow> length (filter P xs) = Suc (length (filter P (xs[i := y])))"
  using count_update [OF assms, of P y] by (auto split: if_splits)

fun owned_released :: "owned_state \<Rightarrow> bool" where
  "owned_released (OwnedReleased x) = True"
| "owned_released (OwnedSettled x) = True"
| "owned_released _ = False"

fun owned_answered :: "owned_state \<Rightarrow> bool" where
  "owned_answered OwnedOpen = False"
| "owned_answered (OwnedClaimed x) = False"
| "owned_answered _ = True"

text \<open>Answered and not yet counted, with an answer of a kind.\<close>

fun owned_uncounted :: "(exn option \<Rightarrow> bool) \<Rightarrow> owned_state \<Rightarrow> bool" where
  "owned_uncounted P (OwnedAnswered fatal answer) = P answer"
| "owned_uncounted P _ = False"

fun refused_answer :: "exn option \<Rightarrow> bool" where
  "refused_answer None = False"
| "refused_answer (Some e) = is_exception e"

definition unreleased :: "pump_system \<Rightarrow> nat" where
  "unreleased s = length (filter (\<lambda>x. \<not> owned_released x) (ps_owned s))"

definition unanswered :: "pump_system \<Rightarrow> nat" where
  "unanswered s = length (filter (\<lambda>x. \<not> owned_answered x) (ps_owned s))"

definition owned_ok :: "pump_system \<Rightarrow> bool" where
  "owned_ok s \<longleftrightarrow> (let p = ps_pump s in
     ep_events_received p = length (ps_owned s) \<and> ep_current_owned p = int (unreleased s) \<and>
     ep_current_owned p \<le> ep_peak_owned p \<and>
     distinct (map fst (ps_acks s)) \<and>
     (\<forall>i. i \<in> fst ` set (ps_acks s) \<longleftrightarrow> i < length (ps_owned s) \<and> owned_answered (ps_owned s ! i)) \<and>
     set (ps_registered s) \<subseteq> {..<length (ps_owned s)})"

definition acks_ok :: "pump_system \<Rightarrow> bool" where
  "acks_ok s \<longleftrightarrow> (let p = ps_pump s in
     length (filter (\<lambda>x. snd x = None) (ps_acks s))
       = ep_events_acknowledged p + length (filter (owned_uncounted (\<lambda>a. a = None)) (ps_owned s)) \<and>
     length (filter (\<lambda>x. refused_answer (snd x)) (ps_acks s))
       = ep_acknowledgement_failures p + length (filter (owned_uncounted refused_answer) (ps_owned s)))"

definition fatal_ok :: "pump_system \<Rightarrow> bool" where
  "fatal_ok s \<longleftrightarrow>
     ps_fatal s = (case ep_failure (ps_pump s) of None \<Rightarrow> [] | Some e \<Rightarrow> [e]) \<and>
     (ep_failure (ps_pump s) \<noteq> None \<longrightarrow> ep_stop_requested (ps_pump s))"

fun event_in_hand :: "pump_point \<Rightarrow> nat option" where
  "event_in_hand (OwnedEvent i) = Some i"
| "event_in_hand (CountingSubmit i) = Some i"
| "event_in_hand (SubmittingEvent i) = Some i"
| "event_in_hand (FinishingEvent i leave) = Some i"
| "event_in_hand _ = None"

definition pump_point_ok :: "pump_system \<Rightarrow> bool" where
  "pump_point_ok s \<longleftrightarrow> (let p = ps_pump s; pt = ps_point s in
     ep_thread p = ep_started p \<and> (ep_started p \<longleftrightarrow> pt \<noteq> NoPump) \<and>
     (ep_stopped p \<longrightarrow> pt \<in> {NoPump, PumpGone}) \<and> (pt = PumpGone \<longrightarrow> ep_stopped p) \<and>
     (\<forall>i. event_in_hand pt = Some i \<longrightarrow> i < length (ps_owned s)))"

text \<open>How far the worker has come: waiting for readiness, ready, taking events, leaving.\<close>

fun pump_phase :: "pump_point \<Rightarrow> nat" where
  "pump_phase NoPump = 0"
| "pump_phase AwaitingReady = 0"
| "pump_phase WaitingReady = 0"
| "pump_phase ReadyCheck = 1"
| "pump_phase CallingReady = 1"
| "pump_phase (PumpFails e) = 3"
| "pump_phase PumpLeaving = 3"
| "pump_phase PumpGone = 3"
| "pump_phase _ = 2"

definition ready_ok :: "pump_system \<Rightarrow> bool" where
  "ready_ok s \<longleftrightarrow> (let p = ps_pump s; ph = pump_phase (ps_point s) in
     (ph < 2 \<longrightarrow> ps_owned s = [] \<and> ps_ready_calls s = 0) \<and>
     (ph = 1 \<or> ph = 2 \<or> ps_owned s \<noteq> [] \<longrightarrow> ps_ready_seen s \<or> \<not> ep_has_gate p) \<and>
     (ph = 2 \<or> ps_owned s \<noteq> [] \<longrightarrow> ps_ready_calls s = (if ep_has_on_ready p then 1 else 0)) \<and>
     ps_ready_calls s \<le> (if ep_has_on_ready p then 1 else 0) \<and>
     (ps_point s = CallingReady \<longrightarrow> ep_has_on_ready p))"

definition stop_ok :: "pump_system \<Rightarrow> bool" where
  "stop_ok s \<longleftrightarrow> (ps_at_stop s \<noteq> None \<longleftrightarrow> ep_stop_requested (ps_pump s)) \<and>
     (\<forall>n. ps_at_stop s = Some n \<longrightarrow> n \<le> length (ps_owned s) \<and> length (ps_owned s) \<le> Suc n \<and>
        (ps_point s \<in> {PumpReceiving, TakenEvent, TakenOther} \<longrightarrow> length (ps_owned s) = n))"

definition pump_ok :: "pump_system \<Rightarrow> bool" where
  "pump_ok s \<longleftrightarrow> owned_ok s \<and> acks_ok s \<and> fatal_ok s \<and> pump_point_ok s \<and> ready_ok s \<and> stop_ok s"

text \<open>Unfolding a step: the straight-line segments with their case splits.\<close>

lemmas pump_segment_defs = pump_start_def pump_request_stop_def pump_count_timeout_def pump_count_closed_def
  pump_count_discarded_def pump_exit_def at_point_def note_stop_def pump_record_fatal_def
  claim_owned_def worker_finish_def on_dispatch_done_def Let_def

lemmas pump_splits = pump_point.splits pump_received.splits option.splits owned_state.splits dispatch_answer.splits
  sum.splits if_splits

text \<open>What the segments of \<open>_finish_owned\<close> do, over an event in a known state.\<close>

lemma owned_ok_release:
  assumes "owned_ok s" and "i < length (ps_owned s)"
  shows "owned_ok (owned_release i s)"
proof (cases "ps_owned s ! i")
  case (OwnedCounted x)
  have "unreleased s = Suc (unreleased (s\<lparr>ps_owned := (ps_owned s)[i := OwnedReleased x]\<rparr>))"
    unfolding unreleased_def using assms(2) OwnedCounted by (simp add: count_moved(3))
  then show ?thesis using assms OwnedCounted
    by (auto simp: owned_ok_def owned_release_def pump_release_def unreleased_def Let_def nth_list_update)
qed (use assms in \<open>simp_all add: owned_release_def\<close>)

lemma owned_ok_moved:
  assumes "owned_ok s" and "i < length (ps_owned s)"
    and "owned_released (ps_owned s ! i) = owned_released y"
    and "owned_answered (ps_owned s ! i) = owned_answered y"
  shows "owned_ok (s\<lparr>ps_owned := (ps_owned s)[i := y]\<rparr>)"
  using assms by (auto simp: owned_ok_def unreleased_def Let_def count_moved(1) nth_list_update)

text \<open>Which parts of the state the invariant of the owned events reads.\<close>

lemma owned_ok_cong:
  assumes "owned_ok s" "ps_owned t = ps_owned s" "ps_acks t = ps_acks s" "ps_registered t = ps_registered s"
    "ep_events_received (ps_pump t) = ep_events_received (ps_pump s)"
    "ep_current_owned (ps_pump t) = ep_current_owned (ps_pump s)"
    "ep_peak_owned (ps_pump t) = ep_peak_owned (ps_pump s)"
  shows "owned_ok t"
  using assms by (simp add: owned_ok_def unreleased_def Let_def)

lemma owned_ok_claim:
  assumes "owned_ok s" and "i < length (ps_owned s)"
  shows "owned_ok (fst (claim_owned i d fatal s))"
proof (cases "ps_owned s ! i = OwnedOpen")
  case True
  show ?thesis
    by (rule owned_ok_cong [OF owned_ok_moved [OF assms, where y = "OwnedClaimed fatal"]])
       (simp_all add: True claim_owned_def pump_count_discarded_def)
qed (use assms in \<open>simp add: claim_owned_def\<close>)

lemma owned_ok_called:
  assumes "owned_ok s" and "i < length (ps_owned s)"
  shows "owned_ok (owned_call_done i answer s)"
proof (cases "ps_owned s ! i")
  case (OwnedClaimed x)
  then have "i \<notin> fst ` set (ps_acks s)" using assms by (simp add: owned_ok_def Let_def)
  then show ?thesis using assms OwnedClaimed
    by (auto simp: owned_ok_def owned_call_done_def unreleased_def Let_def count_moved(1) nth_list_update)
qed (use assms in \<open>simp_all add: owned_call_done_def\<close>)

lemma owned_ok_count:
  assumes "owned_ok s" and "i < length (ps_owned s)"
  shows "owned_ok (owned_count i s)"
proof (cases "ps_owned s ! i")
  case (OwnedAnswered fatal answer)
  show ?thesis
    by (rule owned_ok_cong [OF owned_ok_moved [OF assms, where y = "OwnedCounted
               (case answer of
                  None \<Rightarrow> Inr fatal
                | Some e \<Rightarrow> if is_exception e then Inr (if fatal = None then Some e else fatal) else Inl e)"]])
       (simp_all add: OwnedAnswered owned_count_def pump_count_answer_def split: option.split)
qed (use assms in \<open>simp_all add: owned_count_def\<close>)

lemma owned_ok_fatal: "owned_ok (pump_record_fatal e s) = owned_ok s"
  by (simp add: owned_ok_def pump_record_fatal_def note_stop_def unreleased_def Let_def)

lemma owned_ok_report:
  assumes "owned_ok s" and "i < length (ps_owned s)"
  shows "owned_ok (owned_report i s)"
proof (cases "ps_owned s ! i")
  case (OwnedReleased x)
  have "owned_ok (s\<lparr>ps_owned := (ps_owned s)[i := OwnedSettled y]\<rparr>)" for y
    by (rule owned_ok_moved [OF assms]) (simp_all add: OwnedReleased)
  then show ?thesis using OwnedReleased
    by (simp add: owned_report_def owned_ok_fatal split: sum.split option.split)
qed (use assms in \<open>simp_all add: owned_report_def\<close>)

lemma owned_ok_point [simp]: "owned_ok (s\<lparr>ps_point := pt\<rparr>) = owned_ok s" "owned_ok (at_point pt s) = owned_ok s"
  by (simp_all add: owned_ok_def at_point_def unreleased_def Let_def)

lemma owned_ok_finish:
  assumes "owned_ok s" and "i < length (ps_owned s)"
  shows "owned_ok (worker_finish i d fatal leave s)"
  using owned_ok_claim [OF assms, of d fatal] by (simp add: worker_finish_def case_prod_beta)

lemma owned_ok_own:
  assumes "owned_ok s"
  shows "owned_ok (s\<lparr>ps_owned := ps_owned s @ [OwnedOpen], ps_pump := take_ownership (ps_pump s)\<rparr>)"
  using assms by (auto simp: owned_ok_def unreleased_def take_ownership_def Let_def nth_append less_Suc_eq)

lemma owned_ok_dispatch:
  assumes "owned_ok s" and "i < length (ps_owned s)"
  shows "owned_ok (on_dispatch_done i answer s)"
  using assms by (auto simp: on_dispatch_done_def owned_ok_claim split: dispatch_answer.split)

lemma in_hand_less: "pump_point_ok s \<Longrightarrow> event_in_hand (ps_point s) = Some i \<Longrightarrow> i < length (ps_owned s)"
  by (simp add: pump_point_ok_def Let_def)

text \<open>Segments of the worker and of other threads that do not touch the owned events.\<close>

fun quiet_op :: "pump_op \<Rightarrow> bool" where
  "quiet_op (PumpStart b) = True"
| "quiet_op PumpRequestStop = True"
| "quiet_op PumpCheckStop = True"
| "quiet_op (PumpGateAnswers a b c) = True"
| "quiet_op (PumpReadyReturns e) = True"
| "quiet_op PumpCountSubmitted = True"
| "quiet_op (PumpSourceAnswers received) = True"
| "quiet_op PumpResume = True"
| "quiet_op PumpReportCrash = True"
| "quiet_op PumpExit = True"
| "quiet_op _ = False"

definition same_owned :: "pump_system \<Rightarrow> pump_system \<Rightarrow> bool" where
  "same_owned s t \<longleftrightarrow> ps_owned t = ps_owned s \<and> ps_acks t = ps_acks s \<and> ps_registered t = ps_registered s \<and>
     (let p = ps_pump s; q = ps_pump t in
      ep_events_received q = ep_events_received p \<and> ep_current_owned q = ep_current_owned p \<and>
      ep_peak_owned q = ep_peak_owned p \<and> ep_events_acknowledged q = ep_events_acknowledged p \<and>
      ep_acknowledgement_failures q = ep_acknowledgement_failures p)"

lemma same_owned_at [simp]:
  "same_owned s s" "same_owned s (at_point pt t) = same_owned s t" "same_owned s (note_stop t) = same_owned s t"
  "same_owned s (pump_record_fatal e t) = same_owned s t"
  by (simp_all add: same_owned_def at_point_def note_stop_def pump_record_fatal_def Let_def)

lemma quiet_owned: "quiet_op x \<Longrightarrow> same_owned s (pump_step x s)"
proof (cases x)
  case (PumpStart b)
  then show ?thesis by (simp add: same_owned_def pump_start_def Let_def)
next
  case (PumpSourceAnswers received)
  then show ?thesis
    by (cases received) (simp_all add: same_owned_def pump_count_timeout_def pump_count_closed_def at_point_def
        pump_record_fatal_def note_stop_def Let_def)
next
  case PumpResume
  then show ?thesis
    by (simp add: same_owned_def at_point_def split: pump_point.split owned_state.split option.split)
next
  case (PumpReadyReturns e)
  then show ?thesis by (simp add: same_owned_def at_point_def Let_def)
next
  case PumpRequestStop
  then show ?thesis by (simp add: same_owned_def pump_request_stop_def note_stop_def Let_def)
next
  case PumpExit
  then show ?thesis by (simp add: same_owned_def pump_exit_def at_point_def Let_def)
next
  case PumpCountSubmitted
  then show ?thesis by (cases "ps_point s") (simp_all add: same_owned_def at_point_def Let_def)
next
  case (PumpGateAnswers a b c)
  then show ?thesis by (simp add: same_owned_def at_point_def Let_def)
qed (cases "ps_point s"; simp)+

lemma quiet_owned_ok: "quiet_op x \<Longrightarrow> owned_ok s \<Longrightarrow> owned_ok (pump_step x s)"
  using quiet_owned [of x s] owned_ok_cong [of s "pump_step x s"] by (simp add: same_owned_def Let_def)

lemma owned_step:
  assumes ok: "owned_ok s" and point: "pump_point_ok s"
  shows "owned_ok (pump_step x s)"
proof (cases x)
  case PumpOwn
  show ?thesis
    using owned_ok_own [OF ok] owned_ok_finish [OF owned_ok_own [OF ok], of "length (ps_owned s)"] ok PumpOwn
    by (cases "ps_point s") (simp_all add: Let_def)
next
  case PumpCheckStopping
  then show ?thesis using ok in_hand_less [OF point] by (cases "ps_point s") (simp_all add: owned_ok_finish)
next
  case (PumpSubmitEnds registered failure)
  show ?thesis
  proof (cases "\<exists>i. ps_point s = SubmittingEvent i")
    case True
    then obtain i where i: "ps_point s = SubmittingEvent i" by blast
    then have less: "i < length (ps_owned s)" using in_hand_less [OF point] by simp
    let ?s = "if registered then s\<lparr>ps_registered := ps_registered s @ [i]\<rparr> else s"
    have "owned_ok ?s" using ok less by (simp add: owned_ok_def unreleased_def Let_def)
    then show ?thesis using i less PumpSubmitEnds owned_ok_finish [of ?s i]
      by (cases registered) (simp_all add: Let_def split: option.split)
  next
    case False
    then show ?thesis using ok PumpSubmitEnds by (cases "ps_point s") simp_all
  qed
next
  case (DispatchDone i answer)
  have "i \<in> set (ps_registered s) \<Longrightarrow> i < length (ps_owned s)" using ok by (auto simp: owned_ok_def Let_def)
  then show ?thesis using ok DispatchDone owned_ok_dispatch [of s i answer] by simp
qed (use ok quiet_owned_ok [OF _ ok] in \<open>simp_all add: owned_ok_release owned_ok_called owned_ok_count owned_ok_report
    del: pump_step.simps(1-9) pump_step.simps(11-13)\<close>)

lemma acks_ok_moved:
  assumes "acks_ok s" and "i < length (ps_owned s)"
    and "\<And>P. \<not> owned_uncounted P (ps_owned s ! i)" "\<And>P. \<not> owned_uncounted P y"
  shows "acks_ok (s\<lparr>ps_owned := (ps_owned s)[i := y]\<rparr>)"
  using assms by (simp add: acks_ok_def Let_def count_moved(1))

lemma acks_ok_cong:
  assumes "acks_ok s" "ps_owned t = ps_owned s" "ps_acks t = ps_acks s"
    "ep_events_acknowledged (ps_pump t) = ep_events_acknowledged (ps_pump s)"
    "ep_acknowledgement_failures (ps_pump t) = ep_acknowledgement_failures (ps_pump s)"
  shows "acks_ok t"
  using assms by (simp add: acks_ok_def Let_def)

lemma acks_ok_fatal [simp]: "acks_ok (pump_record_fatal e s) = acks_ok s"
  by (simp add: acks_ok_def pump_record_fatal_def note_stop_def Let_def)

lemma acks_ok_point [simp]: "acks_ok (s\<lparr>ps_point := pt\<rparr>) = acks_ok s" "acks_ok (at_point pt s) = acks_ok s"
  by (simp_all add: acks_ok_def at_point_def Let_def)

lemma acks_ok_claim:
  assumes "acks_ok s" and "i < length (ps_owned s)"
  shows "acks_ok (fst (claim_owned i d fatal s))"
proof (cases "ps_owned s ! i = OwnedOpen")
  case True
  show ?thesis
    by (rule acks_ok_cong [OF acks_ok_moved [OF assms, where y = "OwnedClaimed fatal"]])
       (simp_all add: True claim_owned_def pump_count_discarded_def)
qed (use assms in \<open>simp add: claim_owned_def\<close>)

lemma acks_ok_finish:
  assumes "acks_ok s" and "i < length (ps_owned s)"
  shows "acks_ok (worker_finish i d fatal leave s)"
  using acks_ok_claim [OF assms, of d fatal] by (simp add: worker_finish_def case_prod_beta)

lemma acks_ok_called:
  assumes "acks_ok s" and "i < length (ps_owned s)"
  shows "acks_ok (owned_call_done i answer s)"
proof (cases "ps_owned s ! i")
  case (OwnedClaimed fatal)
  then show ?thesis using assms
    by (cases answer) (auto simp: acks_ok_def owned_call_done_def Let_def count_moved(1,2))
qed (use assms in \<open>simp_all add: owned_call_done_def\<close>)

lemma acks_ok_count:
  assumes "acks_ok s" and "i < length (ps_owned s)"
  shows "acks_ok (owned_count i s)"
proof (cases "ps_owned s ! i")
  case (OwnedAnswered fatal answer)
  define x where "x = (case answer of
      None \<Rightarrow> Inr fatal
    | Some e \<Rightarrow> if is_exception e then Inr (if fatal = None then Some e else fatal) else Inl e)"
  have "length (filter (owned_uncounted P) ((ps_owned s)[i := OwnedCounted x])) + (if P answer then 1 else 0) =
      length (filter (owned_uncounted P) (ps_owned s))" for P
    using count_update [OF assms(2), of "owned_uncounted P" "OwnedCounted x"] OwnedAnswered by simp
  from this [of "\<lambda>a. a = None"] this [of refused_answer] assms(1)
  have "acks_ok (s\<lparr>ps_owned := (ps_owned s)[i := OwnedCounted x], ps_pump := pump_count_answer answer (ps_pump s)\<rparr>)"
    by (cases answer) (auto simp: acks_ok_def pump_count_answer_def Let_def)
  then show ?thesis using OwnedAnswered by (simp add: owned_count_def x_def)
qed (use assms in \<open>simp_all add: owned_count_def\<close>)

lemma acks_ok_release:
  assumes "acks_ok s" and "i < length (ps_owned s)"
  shows "acks_ok (owned_release i s)"
proof (cases "ps_owned s ! i")
  case (OwnedCounted x)
  show ?thesis
    by (rule acks_ok_cong [OF acks_ok_moved [OF assms, where y = "OwnedReleased x"]])
       (simp_all add: OwnedCounted owned_release_def pump_release_def)
qed (use assms in \<open>simp_all add: owned_release_def\<close>)

lemma acks_ok_report:
  assumes "acks_ok s" and "i < length (ps_owned s)"
  shows "acks_ok (owned_report i s)"
proof (cases "ps_owned s ! i")
  case (OwnedReleased x)
  have "acks_ok (s\<lparr>ps_owned := (ps_owned s)[i := OwnedSettled y]\<rparr>)" for y
    by (rule acks_ok_moved [OF assms]) (simp_all add: OwnedReleased)
  then show ?thesis using OwnedReleased by (simp add: owned_report_def split: sum.split option.split)
qed (use assms in \<open>simp_all add: owned_report_def\<close>)

lemma acks_ok_own:
  "acks_ok s \<Longrightarrow> acks_ok (s\<lparr>ps_owned := ps_owned s @ [OwnedOpen], ps_pump := take_ownership (ps_pump s)\<rparr>)"
  by (simp add: acks_ok_def take_ownership_def Let_def)

lemma quiet_acks_ok: "quiet_op x \<Longrightarrow> acks_ok s \<Longrightarrow> acks_ok (pump_step x s)"
  using quiet_owned [of x s] acks_ok_cong [of s "pump_step x s"] by (simp add: same_owned_def Let_def)

lemma acks_step:
  assumes ok: "acks_ok s" and owned: "owned_ok s" and point: "pump_point_ok s"
  shows "acks_ok (pump_step x s)"
proof (cases x)
  case PumpOwn
  show ?thesis
    using acks_ok_own [OF ok] acks_ok_finish [OF acks_ok_own [OF ok], of "length (ps_owned s)"] ok PumpOwn
    by (cases "ps_point s") (simp_all add: Let_def)
next
  case PumpCheckStopping
  then show ?thesis using ok in_hand_less [OF point] by (cases "ps_point s") (simp_all add: acks_ok_finish)
next
  case (PumpSubmitEnds registered failure)
  have "acks_ok (s\<lparr>ps_registered := r\<rparr>)" for r using ok by (simp add: acks_ok_def Let_def)
  then show ?thesis using ok in_hand_less [OF point] PumpSubmitEnds
    by (cases "ps_point s"; cases registered) (simp_all add: Let_def acks_ok_finish split: option.split)
next
  case (DispatchDone i answer)
  have "i \<in> set (ps_registered s) \<Longrightarrow> i < length (ps_owned s)" using owned by (auto simp: owned_ok_def Let_def)
  then show ?thesis using ok DispatchDone by (auto simp: on_dispatch_done_def acks_ok_claim split: dispatch_answer.split)
qed (use ok quiet_acks_ok [OF _ ok] in \<open>simp_all add: acks_ok_release acks_ok_called acks_ok_count acks_ok_report
    del: pump_step.simps(1-9) pump_step.simps(11-13)\<close>)

text \<open>What the segments of \<open>_finish_owned\<close> leave alone.\<close>

definition same_rest :: "pump_system \<Rightarrow> pump_system \<Rightarrow> bool" where
  "same_rest s t \<longleftrightarrow>
     length (ps_owned t) = length (ps_owned s) \<and> ps_ready_calls t = ps_ready_calls s \<and>
     ps_ready_seen t = ps_ready_seen s \<and> ps_at_stop t = ps_at_stop s \<and> ps_fatal t = ps_fatal s \<and>
     ps_point t = ps_point s \<and>
     (let p = ps_pump s; q = ps_pump t in
      ep_has_gate q = ep_has_gate p \<and> ep_has_on_ready q = ep_has_on_ready p \<and> ep_thread q = ep_thread p \<and>
      ep_started q = ep_started p \<and> ep_stopped q = ep_stopped p \<and>
      ep_stop_requested q = ep_stop_requested p \<and> ep_failure q = ep_failure p)"

definition rest_ok :: "pump_system \<Rightarrow> bool" where
  "rest_ok s \<longleftrightarrow> fatal_ok s \<and> pump_point_ok s \<and> ready_ok s \<and> stop_ok s"

lemma same_rest_ok:
  assumes "same_rest s t" and "rest_ok s"
  shows "rest_ok t"
proof -
  have "length (ps_owned t) = length (ps_owned s)" using assms(1) by (simp add: same_rest_def)
  then have "(ps_owned t = []) = (ps_owned s = [])" by (metis length_0_conv)
  then show ?thesis using assms
    by (simp add: same_rest_def rest_ok_def fatal_ok_def pump_point_ok_def ready_ok_def stop_ok_def Let_def)
qed

lemma same_rest_refl [simp]: "same_rest s s"
  by (simp add: same_rest_def)

lemma same_rest_owned [simp]:
  "same_rest s (fst (claim_owned i d fatal s))" "same_rest s (owned_call_done i answer s)"
  "same_rest s (owned_count i s)" "same_rest s (owned_release i s)"
  "same_rest s (s\<lparr>ps_owned := (ps_owned s)[i := y]\<rparr>)"
  by (auto simp: same_rest_def claim_owned_def pump_count_discarded_def owned_call_done_def owned_count_def
      pump_count_answer_def owned_release_def pump_release_def Let_def split: owned_state.split option.split)

lemma same_rest_dispatch [simp]: "same_rest s (on_dispatch_done i answer s)"
  by (simp add: on_dispatch_done_def split: dispatch_answer.split)

lemma rest_fatal: "rest_ok s \<Longrightarrow> rest_ok (pump_record_fatal e s)"
  by (auto simp: pump_record_fatal_def note_stop_def rest_ok_def fatal_ok_def pump_point_ok_def ready_ok_def
      stop_ok_def Let_def)

lemma rest_report: "rest_ok s \<Longrightarrow> rest_ok (owned_report i s)"
  using same_rest_ok [OF same_rest_owned(5)] rest_fatal
  by (auto simp: owned_report_def split: owned_state.split sum.split option.split)

text \<open>A step of the worker to another point.\<close>

lemma rest_goto:
  assumes ok: "rest_ok s" and from_pt: "ps_point s \<noteq> NoPump" "ps_point s \<noteq> PumpGone"
    and pt: "pt \<noteq> NoPump" "pt \<noteq> PumpGone"
    and hand: "\<forall>i. event_in_hand pt = Some i \<longrightarrow> i < length (ps_owned s)"
    and early: "pump_phase pt < 2 \<Longrightarrow> ps_owned s = [] \<and> ps_ready_calls s = 0"
    and seen: "pump_phase pt = 1 \<or> pump_phase pt = 2 \<Longrightarrow> ps_ready_seen s \<or> \<not> ep_has_gate (ps_pump s)"
    and called: "pump_phase pt = 2 \<Longrightarrow> ps_ready_calls s = (if ep_has_on_ready (ps_pump s) then 1 else 0)"
    and calling: "pt = CallingReady \<Longrightarrow> ep_has_on_ready (ps_pump s)"
    and taking: "pt \<in> {PumpReceiving, TakenEvent, TakenOther} \<Longrightarrow>
      \<not> ep_stop_requested (ps_pump s) \<or> ps_point s = PumpReceiving"
  shows "rest_ok (s\<lparr>ps_point := pt\<rparr>)"
proof -
  have fatal: "fatal_ok s" and point: "pump_point_ok s" and ready: "ready_ok s" and stop: "stop_ok s"
    using ok by (simp_all add: rest_ok_def)
  have "fatal_ok (s\<lparr>ps_point := pt\<rparr>)" using fatal by (simp add: fatal_ok_def)
  moreover have "pump_point_ok (s\<lparr>ps_point := pt\<rparr>)"
    using point from_pt pt hand by (simp add: pump_point_ok_def Let_def)
  moreover have "ready_ok (s\<lparr>ps_point := pt\<rparr>)"
    using ready early seen called calling by (simp add: ready_ok_def Let_def)
  moreover have "stop_ok (s\<lparr>ps_point := pt\<rparr>)"
    using stop taking by (cases "ps_at_stop s") (auto simp: stop_ok_def)
  ultimately show ?thesis by (simp add: rest_ok_def)
qed

lemma rest_facts:
  assumes "rest_ok s"
  shows "pump_phase (ps_point s) < 2 \<Longrightarrow> ps_owned s = [] \<and> ps_ready_calls s = 0"
    and "pump_phase (ps_point s) \<in> {1, 2} \<Longrightarrow> ps_ready_seen s \<or> \<not> ep_has_gate (ps_pump s)"
    and "pump_phase (ps_point s) = 2 \<Longrightarrow> ps_ready_calls s = (if ep_has_on_ready (ps_pump s) then 1 else 0)"
    and "ps_point s = CallingReady \<Longrightarrow> ep_has_on_ready (ps_pump s)"
    and "event_in_hand (ps_point s) = Some i \<Longrightarrow> i < length (ps_owned s)"
  using assms by (auto simp: rest_ok_def ready_ok_def pump_point_ok_def Let_def)

lemma working_points:
  "pump_phase pt = 2 \<Longrightarrow> pt \<noteq> NoPump \<and> pt \<noteq> CallingReady \<and> pt \<noteq> PumpGone"
  "pump_phase pt = 3 \<Longrightarrow> pt \<noteq> NoPump \<and> pt \<noteq> CallingReady \<and> pt \<notin> {PumpReceiving, TakenEvent, TakenOther}"
  by (cases pt; simp)+

lemma rest_leave:
  "rest_ok s \<Longrightarrow> ps_point s \<noteq> NoPump \<Longrightarrow> ps_point s \<noteq> PumpGone \<Longrightarrow> rest_ok (s\<lparr>ps_point := PumpLeaving\<rparr>)"
  "rest_ok s \<Longrightarrow> ps_point s \<noteq> NoPump \<Longrightarrow> ps_point s \<noteq> PumpGone \<Longrightarrow> rest_ok (s\<lparr>ps_point := PumpFails e\<rparr>)"
  by (rule rest_goto; simp)+

lemma rest_go_on:
  assumes ok: "rest_ok s" and ph: "pump_phase (ps_point s) = 2" and pt: "pump_phase pt = 2"
    and no: "pt \<notin> {PumpReceiving, TakenEvent, TakenOther}"
    and hand: "\<forall>i. event_in_hand pt = Some i \<longrightarrow> i < length (ps_owned s)"
  shows "rest_ok (s\<lparr>ps_point := pt\<rparr>)"
  using working_points(1) [OF ph] working_points(1) [OF pt] rest_facts(2,3) [OF ok] ph pt no hand
  by (intro rest_goto [OF ok]) simp_all

lemma rest_finish:
  assumes ok: "rest_ok s" and i: "i < length (ps_owned s)" and ph: "pump_phase (ps_point s) = 2"
  shows "rest_ok (worker_finish i d fatal leave s)"
proof -
  let ?s = "fst (claim_owned i d fatal s)"
  have s: "same_rest s ?s" by simp
  then have "rest_ok ?s" "pump_phase (ps_point ?s) = 2" "i < length (ps_owned ?s)"
    using i ph same_rest_ok [OF s ok] by (simp_all add: same_rest_def)
  then show ?thesis using working_points(1) [of "ps_point ?s"] rest_go_on [of ?s "FinishingEvent i leave"]
      rest_go_on [of ?s PumpTop] rest_leave(1) [of ?s]
    by (simp add: worker_finish_def case_prod_beta)
qed

lemmas rest_defs = rest_ok_def fatal_ok_def pump_point_ok_def ready_ok_def stop_ok_def Let_def

lemma rest_own:
  assumes ok: "rest_ok s" and pt: "ps_point s \<in> {TakenEvent, TakenOther}"
  shows "rest_ok (s\<lparr>ps_owned := ps_owned s @ [OwnedOpen], ps_pump := take_ownership (ps_pump s),
      ps_point := OwnedEvent (length (ps_owned s))\<rparr>)" (is "rest_ok ?s")
proof -
  have ph: "pump_phase (ps_point s) = 2" using pt by auto
  have "fatal_ok ?s" using ok by (simp add: rest_ok_def fatal_ok_def take_ownership_def Let_def)
  moreover have "pump_point_ok ?s" using ok pt by (auto simp: rest_ok_def pump_point_ok_def take_ownership_def Let_def)
  moreover have "ready_ok ?s"
    using rest_facts(2,3) [OF ok] ph ok by (simp add: rest_ok_def ready_ok_def take_ownership_def Let_def)
  moreover have "stop_ok ?s" using ok pt by (auto simp: rest_ok_def stop_ok_def take_ownership_def Let_def)
  ultimately show ?thesis by (simp add: rest_ok_def)
qed

lemma worker_finish_point: "worker_finish i d f l (s\<lparr>ps_point := pt\<rparr>) = worker_finish i d f l s"
  by (simp add: worker_finish_def claim_owned_def)

lemma rest_count:
  "rest_ok s \<Longrightarrow> rest_ok (s\<lparr>ps_pump := (ps_pump s)\<lparr>ep_submitted_to_scheduler := n\<rparr>\<rparr>)"
  "rest_ok s \<Longrightarrow> rest_ok (s\<lparr>ps_pump := pump_count_timeout (ps_pump s)\<rparr>)"
  "rest_ok s \<Longrightarrow> rest_ok (s\<lparr>ps_pump := pump_count_closed (ps_pump s)\<rparr>)"
  "rest_ok s \<Longrightarrow> rest_ok (s\<lparr>ps_registered := r\<rparr>)"
  by (rule same_rest_ok; simp add: same_rest_def pump_count_timeout_def pump_count_closed_def Let_def)+

lemma running: "rest_ok s \<Longrightarrow> ps_point s \<noteq> NoPump \<Longrightarrow> ps_point s \<noteq> PumpGone \<Longrightarrow> \<not> ep_stopped (ps_pump s)"
  by (auto simp: rest_ok_def pump_point_ok_def Let_def)

lemma rest_start: "rest_ok s \<Longrightarrow> rest_ok (pump_step (PumpStart b) s)"
proof -
  assume ok: "rest_ok s"
  show ?thesis
  proof (cases "ps_point s = NoPump")
    case True
    then have "ps_owned s = []" "ps_ready_calls s = 0" using rest_facts(1) [OF ok] by simp_all
    then show ?thesis using ok True by (auto simp: rest_defs pump_start_def)
  next
    case False
    then have "ep_started (ps_pump s)" using ok by (simp add: rest_ok_def pump_point_ok_def Let_def)
    then have "\<exists>e. pump_start b (ps_pump s) = (ps_pump s, e, False)" by (simp add: pump_start_def)
    then show ?thesis using ok by auto
  qed
qed

lemma rest_request_stop: "rest_ok s \<Longrightarrow> rest_ok (pump_step PumpRequestStop s)"
proof -
  assume ok: "rest_ok s"
  let ?s = "note_stop (s\<lparr>ps_pump := pump_request_stop (ps_pump s)\<rparr>)"
  have "fatal_ok ?s" using ok by (simp add: rest_ok_def fatal_ok_def note_stop_def pump_request_stop_def)
  moreover have "pump_point_ok ?s"
    using ok by (auto simp: rest_ok_def pump_point_ok_def note_stop_def pump_request_stop_def Let_def)
  moreover have "ready_ok ?s" using ok by (simp add: rest_ok_def ready_ok_def note_stop_def pump_request_stop_def Let_def)
  moreover have "stop_ok ?s"
    using ok by (cases "ps_at_stop s") (auto simp: rest_ok_def stop_ok_def note_stop_def pump_request_stop_def)
  ultimately show ?thesis by (simp add: rest_ok_def)
qed

lemma rest_check_stop: "rest_ok s \<Longrightarrow> rest_ok (pump_step PumpCheckStop s)"
  using rest_facts(1-3) [of s] rest_leave(1) [of s]
  by (cases "ps_point s") (auto simp: at_point_def Let_def intro!: rest_goto)

lemma rest_gate: "rest_ok s \<Longrightarrow> rest_ok (pump_step (PumpGateAnswers a b c) s)"
proof -
  assume ok: "rest_ok s"
  show ?thesis
  proof (cases "ps_point s = WaitingReady")
    case True
    note facts = rest_facts(1) [OF ok]
    have "rest_ok (s\<lparr>ps_ready_seen := True\<rparr>)" using ok by (simp add: rest_defs)
    then have "rest_ok (s\<lparr>ps_ready_seen := True, ps_point := ReadyCheck\<rparr>)"
      using facts True rest_goto [of "s\<lparr>ps_ready_seen := True\<rparr>" ReadyCheck] by simp
    moreover have "rest_ok (s\<lparr>ps_point := AwaitingReady\<rparr>)" using facts True ok by (intro rest_goto) simp_all
    ultimately show ?thesis using True ok rest_leave(1) [OF ok] by (simp add: at_point_def)
  qed (use ok in simp)
qed

lemma rest_ready_returns: "rest_ok s \<Longrightarrow> rest_ok (pump_step (PumpReadyReturns e) s)"
proof -
  assume ok: "rest_ok s"
  show ?thesis
  proof (cases "ps_point s = CallingReady")
    case True
    then show ?thesis using ok rest_facts(1,2,4) [OF ok]
      by (cases e) (simp_all add: rest_defs at_point_def)
  qed (use ok in simp)
qed

lemma rest_source:
  assumes ok: "rest_ok s" shows "rest_ok (pump_step (PumpSourceAnswers received) s)"
proof (cases "ps_point s = PumpReceiving")
  case True
  have taken: "rest_ok (s\<lparr>ps_point := TakenEvent\<rparr>)" "rest_ok (s\<lparr>ps_point := TakenOther\<rparr>)"
    using rest_facts(2,3) [OF ok] True by (intro rest_goto ok; simp)+
  have pt: "ps_point (pump_record_fatal e s) = PumpReceiving" for e
    using True by (simp add: pump_record_fatal_def note_stop_def)
  show ?thesis
    using True taken rest_go_on [OF rest_count(2) [OF ok], of PumpTop] rest_leave(1) [OF rest_count(3) [OF ok]]
      rest_leave(1) [OF rest_fatal [OF ok]] rest_leave(2) [OF ok]
    by (cases received) (simp_all add: at_point_def pt)
qed (use ok in simp)

lemma rest_crash: "rest_ok s \<Longrightarrow> rest_ok (pump_step PumpReportCrash s)"
proof -
  assume ok: "rest_ok s"
  have "ps_point (pump_record_fatal e s) = ps_point s" for e by (simp add: pump_record_fatal_def note_stop_def)
  then show ?thesis using ok rest_leave(1) [OF rest_fatal [OF ok]]
    by (cases "ps_point s") (simp_all add: at_point_def)
qed

lemma rest_exit: "rest_ok s \<Longrightarrow> rest_ok (pump_step PumpExit s)"
  by (simp add: rest_defs at_point_def pump_exit_def)

lemma rest_step:
  assumes ok: "rest_ok s" shows "rest_ok (pump_step x s)"
proof (cases x)
  case PumpOwn
  have "rest_ok (worker_finish (length (ps_owned s)) d fatal leave
      (s\<lparr>ps_owned := ps_owned s @ [OwnedOpen], ps_pump := take_ownership (ps_pump s)\<rparr>))"
    if "ps_point s = TakenOther" for d fatal leave
    using rest_finish [OF rest_own [OF ok], of "length (ps_owned s)" d fatal leave] that
      worker_finish_point [where i = "length (ps_owned s)" and d = d and f = fatal and l = leave
        and s = "s\<lparr>ps_owned := ps_owned s @ [OwnedOpen], ps_pump := take_ownership (ps_pump s)\<rparr>"]
    by simp
  then show ?thesis using PumpOwn ok rest_own [OF ok]
    by (cases "ps_point s") (simp_all add: Let_def at_point_def)
next
  case PumpCheckStopping
  have "rest_ok (s\<lparr>ps_point := CountingSubmit i\<rparr>)" if "ps_point s = OwnedEvent i" for i
    using rest_facts(5) [OF ok] that by (intro rest_go_on [OF ok]) simp_all
  then show ?thesis using PumpCheckStopping ok rest_finish [OF ok] rest_facts(5) [OF ok]
    by (cases "ps_point s") (simp_all add: at_point_def)
next
  case PumpCountSubmitted
  have "rest_ok (s\<lparr>ps_pump := (ps_pump s)\<lparr>ep_submitted_to_scheduler := n\<rparr>, ps_point := SubmittingEvent i\<rparr>)"
    if "ps_point s = CountingSubmit i" for i n
    using rest_go_on [OF rest_count(1) [OF ok], where pt = "SubmittingEvent i"] that rest_facts(5) [OF ok] by simp
  then show ?thesis using PumpCountSubmitted ok by (cases "ps_point s") (simp_all add: at_point_def)
next
  case (PumpSubmitEnds registered failure)
  show ?thesis
  proof (cases "\<exists>i. ps_point s = SubmittingEvent i")
    case True
    then obtain i where i: "ps_point s = SubmittingEvent i" by blast
    define t where "t = (if registered then s\<lparr>ps_registered := ps_registered s @ [i]\<rparr> else s)"
    have t: "rest_ok t" "ps_point t = SubmittingEvent i" "i < length (ps_owned t)"
      using ok rest_count(4) [OF ok] i rest_facts(5) [OF ok] by (simp_all add: t_def)
    then show ?thesis
      using i PumpSubmitEnds rest_finish [OF t(1) t(3)] rest_go_on [OF t(1), of PumpTop] rest_leave(2) [OF t(1)]
      by (simp add: t_def [symmetric] at_point_def Let_def split: option.split)
  next
    case False
    then show ?thesis using ok PumpSubmitEnds by (cases "ps_point s") simp_all
  qed
next
  case PumpResume
  show ?thesis
  proof (cases "\<exists>i l. ps_point s = FinishingEvent i l")
    case True
    then show ?thesis using PumpResume ok rest_go_on [OF ok, of PumpTop] rest_leave [OF ok]
      by (auto simp: at_point_def split: owned_state.split option.split)
  next
    case False
    then show ?thesis using ok PumpResume by (cases "ps_point s") simp_all
  qed
next
  case (DispatchDone i answer)
  then show ?thesis using ok same_rest_ok [OF same_rest_dispatch ok] by simp
next
  case (TaskDoneAnswers i answer)
  then show ?thesis using ok same_rest_ok [OF same_rest_owned(2) ok] by simp
next
  case (CountAnswer i)
  then show ?thesis using ok same_rest_ok [OF same_rest_owned(3) ok] by simp
next
  case (ReleaseOwned i)
  then show ?thesis using ok same_rest_ok [OF same_rest_owned(4) ok] by simp
next
  case (ReportOwned i)
  then show ?thesis using ok rest_report [OF ok] by simp
qed (use ok in \<open>simp_all only: rest_start rest_request_stop rest_check_stop rest_gate rest_ready_returns rest_source
    rest_crash rest_exit\<close>)

lemma pump_ok_step: "pump_ok s \<Longrightarrow> pump_ok (pump_step x s)"
  unfolding pump_ok_def using rest_step [of s x] owned_step [of s x] acks_step [of s x]
  by (simp add: rest_ok_def)

interpretation event_pump: invariant_machine pump_step pump_ok
  by unfold_locales (rule pump_ok_step)

lemma new_pump_ok: "pump_ok (new_pump_system has_gate has_on_ready)"
  by (simp add: pump_ok_def owned_ok_def acks_ok_def rest_defs new_pump_system_def new_event_pump_def unreleased_def)

lemma pump_run_ok: "pump_ok (pump_run has_gate has_on_ready ops)"
  by (rule event_pump.inv_run [OF new_pump_ok])


section \<open>The event pump over the inbound queue\<close>

record served_pump =
  sv_pump :: pump_system
  sv_source :: inbound_system

datatype served_op =
    PumpDoes pump_op
  | SourceDoes inbound_op
  | PumpPolls selector bool
  | PumpAcknowledges nat

text \<open>What the pump and other threads do without the queue, and what other threads do to the queue.\<close>

fun pump_alone :: "pump_op \<Rightarrow> bool" where
  "pump_alone (PumpSourceAnswers received) = False"
| "pump_alone (TaskDoneAnswers i answer) = False"
| "pump_alone _ = True"

fun source_alone :: "inbound_op \<Rightarrow> bool" where
  "source_alone (Receive selector expired) = False"
| "source_alone TaskDone = False"
| "source_alone _ = True"

definition poll_answer :: "exn \<Rightarrow> pump_received" where
  "poll_answer e =
     (if e = TimeoutError then SourceTimedOut else if e = QueueClosedError then SourceEnded else SourceRaised e)"

fun served_step :: "sizer \<Rightarrow> served_op \<Rightarrow> served_pump \<Rightarrow> served_pump" where
  "served_step rsz (PumpDoes x) s = (if pump_alone x then s\<lparr>sv_pump := pump_step x (sv_pump s)\<rparr> else s)"
| "served_step rsz (SourceDoes x) s =
     (if source_alone x then s\<lparr>sv_source := inbound_step rsz x (sv_source s)\<rparr> else s)"
| "served_step rsz (PumpPolls selector expired) s =
     (if ps_point (sv_pump s) \<noteq> PumpReceiving then s
      else case receive_attempt selector expired (is_queue (sv_source s)) of
        (q, Received item) \<Rightarrow>
          \<lparr>sv_pump = pump_step (PumpSourceAnswers ReceivedEvent) (sv_pump s), sv_source = set_queue (sv_source s) q\<rparr>
      | (q, ReceiveRaised e) \<Rightarrow>
          \<lparr>sv_pump = pump_step (PumpSourceAnswers (poll_answer e)) (sv_pump s), sv_source = set_queue (sv_source s) q\<rparr>
      | (q, ReceiveWaiting) \<Rightarrow> s)"
| "served_step rsz (PumpAcknowledges i) s =
     (if i < length (ps_owned (sv_pump s)) \<and> (\<exists>fatal. ps_owned (sv_pump s) ! i = OwnedClaimed fatal) then
        (case inbound_task_done (is_queue (sv_source s)) of
           Inl e \<Rightarrow> s\<lparr>sv_pump := pump_step (TaskDoneAnswers i (Some e)) (sv_pump s)\<rparr>
         | Inr q \<Rightarrow>
             \<lparr>sv_pump = pump_step (TaskDoneAnswers i None) (sv_pump s), sv_source = set_queue (sv_source s) q\<rparr>)
      else s)"

definition served_start :: "bool \<Rightarrow> bool \<Rightarrow> inbound_queue \<Rightarrow> served_pump" where
  "served_start has_gate has_on_ready q =
     \<lparr>sv_pump = new_pump_system has_gate has_on_ready, sv_source = inbound_initial q\<rparr>"

abbreviation served_run :: "sizer \<Rightarrow> bool \<Rightarrow> bool \<Rightarrow> inbound_queue \<Rightarrow> served_op list \<Rightarrow> served_pump" where
  "served_run rsz has_gate has_on_ready q ops \<equiv> fold (served_step rsz) ops (served_start has_gate has_on_ready q)"

text \<open>The events that the queue counts as in flight: those not acknowledged, and one that has just been taken.\<close>

definition owed :: "pump_system \<Rightarrow> nat" where
  "owed s = unanswered s + (if ps_point s = TakenEvent then 1 else 0)"

definition kept_owed :: "pump_system \<Rightarrow> pump_system \<Rightarrow> bool" where
  "kept_owed s t \<longleftrightarrow> owed t = owed s \<and> ps_acks t = ps_acks s \<and> (ps_point t = TakenOther \<longrightarrow> ps_point s = TakenOther)"

lemma kept_answered:
  assumes "i < length (ps_owned s)" "owned_answered (ps_owned s ! i) = owned_answered y"
  shows "kept_owed s (s\<lparr>ps_owned := (ps_owned s)[i := y]\<rparr>)"
    and "kept_owed s (s\<lparr>ps_owned := (ps_owned s)[i := y], ps_pump := p\<rparr>)"
  using assms by (simp_all add: kept_owed_def owed_def unanswered_def count_moved(1))

lemma kept_point:
  assumes "kept_owed s t" "ps_point s \<noteq> TakenEvent" "ps_point t \<noteq> TakenEvent" "pt \<noteq> TakenEvent" "pt \<noteq> TakenOther"
  shows "kept_owed s (t\<lparr>ps_point := pt\<rparr>)"
  using assms by (simp add: kept_owed_def owed_def unanswered_def)

lemma kept_refl [simp]: "kept_owed s s"
  by (simp add: kept_owed_def)

lemma fatal_keeps [simp]:
  "ps_owned (pump_record_fatal e s) = ps_owned s" "ps_acks (pump_record_fatal e s) = ps_acks s"
  "ps_point (pump_record_fatal e s) = ps_point s"
  by (simp_all add: pump_record_fatal_def note_stop_def)

lemma kept_fatal: "kept_owed s t \<Longrightarrow> kept_owed s (pump_record_fatal e t)"
  unfolding kept_owed_def owed_def unanswered_def fatal_keeps by assumption

lemma kept_claim:
  assumes "i < length (ps_owned s)"
  shows "kept_owed s (fst (claim_owned i d fatal s))"
  using kept_answered(2) [OF assms] by (simp add: claim_owned_def)

lemma claim_point [simp]: "ps_point (fst (claim_owned i d fatal s)) = ps_point s"
  by (simp add: claim_owned_def)

lemma kept_finish:
  assumes "i < length (ps_owned s)" "ps_point s \<noteq> TakenEvent"
  shows "kept_owed s (worker_finish i d fatal leave s)"
  using kept_point [OF kept_claim [OF assms(1)]] assms(2) by (simp add: worker_finish_def case_prod_beta)

lemma quiet_point:
  assumes "quiet_op x" "pump_alone x" and ok: "rest_ok s"
  shows "ps_point (pump_step x s) = ps_point s \<or>
    ps_point s \<notin> {TakenEvent, TakenOther} \<and> ps_point (pump_step x s) \<notin> {TakenEvent, TakenOther}"
proof (cases x)
  case PumpResume
  then show ?thesis by (cases "ps_point s") (simp_all add: at_point_def split: owned_state.split option.split)
next
  case (PumpReadyReturns e)
  then show ?thesis by (simp add: at_point_def split: option.split)
next
  case PumpRequestStop
  then show ?thesis by (simp add: note_stop_def)
next
  case (PumpGateAnswers a b c)
  then show ?thesis by (simp add: at_point_def)
next
  case PumpExit
  then show ?thesis by (simp add: at_point_def)
next
  case (PumpStart b)
  show ?thesis
  proof (cases "ps_point s = NoPump")
    case True
    then show ?thesis using PumpStart by (simp add: pump_start_def)
  next
    case False
    then have "ep_started (ps_pump s)" using ok by (simp add: rest_ok_def pump_point_ok_def Let_def)
    then show ?thesis using PumpStart by (simp add: pump_start_def)
  qed
qed (use assms in simp_all, (cases "ps_point s"; simp add: at_point_def Let_def)+)

lemma quiet_kept:
  assumes "quiet_op x" "pump_alone x" and ok: "rest_ok s"
  shows "kept_owed s (pump_step x s)"
  using quiet_owned [OF assms(1), of s] quiet_point [OF assms]
  by (auto simp: kept_owed_def owed_def unanswered_def same_owned_def)

lemma alone_kept:
  assumes ok: "pump_ok s" and alone: "pump_alone x" and other: "ps_point s \<noteq> TakenOther"
  shows "kept_owed s (pump_step x s)"
proof -
  have rest: "rest_ok s" and owned: "owned_ok s" using ok by (simp_all add: pump_ok_def rest_ok_def)
  show ?thesis
  proof (cases "quiet_op x")
  case True
  then show ?thesis by (rule quiet_kept [OF _ alone rest])
next
  case False
  show ?thesis
  proof (cases x)
    case PumpOwn
    then show ?thesis using other
      by (cases "ps_point s") (simp_all add: kept_owed_def owed_def unanswered_def at_point_def Let_def)
  next
    case PumpCheckStopping
    then show ?thesis using kept_finish [of _ s] kept_point [OF kept_refl, of s] rest_facts(5) [OF rest]
      by (cases "ps_point s") (simp_all add: at_point_def)
  next
    case (PumpSubmitEnds registered failure)
    show ?thesis
    proof (cases "\<exists>i. ps_point s = SubmittingEvent i")
      case True
      then obtain i where i: "ps_point s = SubmittingEvent i" by blast
      define t where "t = (if registered then s\<lparr>ps_registered := ps_registered s @ [i]\<rparr> else s)"
      have t: "kept_owed s t" "ps_point t = SubmittingEvent i" "i < length (ps_owned t)"
        using i rest_facts(5) [OF rest] by (simp_all add: t_def kept_owed_def owed_def unanswered_def)
      have "kept_owed t u \<Longrightarrow> kept_owed s u" for u using t(1) by (simp add: kept_owed_def)
      then show ?thesis using i t PumpSubmitEnds kept_finish [OF t(3)] kept_point [OF t(1)]
        by (simp add: t_def [symmetric] at_point_def Let_def split: option.split)
    next
      case False
      then show ?thesis using PumpSubmitEnds by (cases "ps_point s") simp_all
    qed
  next
    case (DispatchDone i answer)
    have "i \<in> set (ps_registered s) \<Longrightarrow> i < length (ps_owned s)" using owned by (auto simp: owned_ok_def Let_def)
    then show ?thesis using DispatchDone kept_claim [of i s] by (simp add: on_dispatch_done_def split: dispatch_answer.split)
  next
    case (CountAnswer i)
    then show ?thesis using kept_answered [of i s]
      by (cases "ps_owned s ! i") (simp_all add: owned_count_def)
  next
    case (ReleaseOwned i)
    then show ?thesis using kept_answered [of i s]
      by (cases "ps_owned s ! i") (simp_all add: owned_release_def)
  next
    case (ReportOwned i)
    then show ?thesis using kept_answered(1) [of i s] kept_fatal [of s]
      by (cases "ps_owned s ! i") (simp_all add: owned_report_def split: sum.split option.split)
  qed (use False alone in simp_all)
qed
qed


lemma in_flight_loop: "iq_in_flight (fst (submit_loop e sz x b q)) = iq_in_flight q"
  by (rule submit_loop_rule [where P = "\<lambda>r. iq_in_flight r = iq_in_flight q"
        and Q = "\<lambda>r. iq_in_flight (fst r) = iq_in_flight q"])
    (auto elim!: drop_queued_rotationE)

lemma in_flight_alone:
  "source_alone x \<Longrightarrow> iq_in_flight (is_queue (inbound_step rsz x s)) = iq_in_flight (is_queue s)"
proof (cases x)
  case (SubmitBegin e y)
  have "coalesce rsz e q = Some q' \<Longrightarrow> iq_in_flight q' = iq_in_flight q" for q q'
    by (erule coalesceE) (simp add: Let_def)
  then show ?thesis using SubmitBegin
    by (auto simp: submit_begin_def case_prod_beta Let_def in_flight_loop split: option.split)
next
  case (SubmitResume k y)
  then show ?thesis by (simp add: submit_resume_def case_prod_beta in_flight_loop)
qed (simp_all add: set_queue_def inbound_stop_accepting_def inbound_discard_def)

definition served_ok :: "served_pump \<Rightarrow> bool" where
  "served_ok s \<longleftrightarrow> (let p = sv_pump s in
     pump_ok p \<and> iq_in_flight (is_queue (sv_source s)) = owed p \<and> ps_point p \<noteq> TakenOther \<and>
     (\<forall>x \<in> set (ps_acks p). snd x = None))"

lemma receive_in_flight:
  assumes "receive_attempt sel x q = (q', st)"
  shows "iq_in_flight q' = (case st of Received item \<Rightarrow> Suc (iq_in_flight q) | _ \<Rightarrow> iq_in_flight q)"
  using assms
  by (auto simp: receive_attempt_def take_queued_def Let_def split: if_splits option.splits)

lemma pump_receives:
  "ps_point p = PumpReceiving \<Longrightarrow> ps_acks (pump_step (PumpSourceAnswers r) p) = ps_acks p \<and>
     ps_owned (pump_step (PumpSourceAnswers r) p) = ps_owned p \<and>
     (ps_point (pump_step (PumpSourceAnswers r) p) = TakenEvent \<longleftrightarrow> r = ReceivedEvent) \<and>
     (ps_point (pump_step (PumpSourceAnswers r) p) = TakenOther \<longleftrightarrow> r = ReceivedOther)"
  by (cases r) (simp_all add: at_point_def)

lemma served_ok_step:
  assumes ok: "served_ok s"
  shows "served_ok (served_step rsz x s)"
proof -
  let ?p = "sv_pump s" and ?q = "is_queue (sv_source s)"
  have pump: "pump_ok ?p" and flight: "iq_in_flight ?q = owed ?p" and other: "ps_point ?p \<noteq> TakenOther"
    and acks: "\<forall>x \<in> set (ps_acks ?p). snd x = None"
    using ok by (simp_all add: served_ok_def Let_def)
  note next_ok = pump_ok_step [OF pump]
  show ?thesis
  proof (cases x)
    case (PumpDoes y)
    show ?thesis
    proof (cases "pump_alone y")
      case True
      then show ?thesis using PumpDoes alone_kept [OF pump True other] next_ok [of y] flight other acks
        by (simp add: served_ok_def kept_owed_def Let_def)
    qed (use ok PumpDoes in simp)
  next
    case (SourceDoes y)
    then show ?thesis using ok in_flight_alone [of y rsz "sv_source s"] by (simp add: served_ok_def Let_def)
  next
    case (PumpPolls sel expired)
    show ?thesis
    proof (cases "ps_point ?p = PumpReceiving")
      case True
      obtain q st where rec: "receive_attempt sel expired ?q = (q, st)" by fastforce
      have r: "poll_answer e \<notin> {ReceivedEvent, ReceivedOther}" for e by (simp add: poll_answer_def)
      have keep: "served_ok \<lparr>sv_pump = pump_step (PumpSourceAnswers r) ?p, sv_source = set_queue (sv_source s) q\<rparr>"
        if "iq_in_flight q = iq_in_flight ?q + (if r = ReceivedEvent then 1 else 0)" "r \<noteq> ReceivedOther" for r
        using that pump_receives [OF True, of r] next_ok [of "PumpSourceAnswers r"] flight acks True
        by (simp add: served_ok_def owed_def unanswered_def set_queue_def Let_def del: pump_step.simps)
      show ?thesis using PumpPolls True rec receive_in_flight [OF rec] keep r ok
        by (cases st) (simp_all del: pump_step.simps)
    qed (use ok PumpPolls in simp)
  next
    case (PumpAcknowledges i)
    show ?thesis
    proof (cases "i < length (ps_owned ?p) \<and> (\<exists>fatal. ps_owned ?p ! i = OwnedClaimed fatal)")
      case True
      then obtain fatal where i: "i < length (ps_owned ?p)" and claimed: "ps_owned ?p ! i = OwnedClaimed fatal" by blast
      have less: "unanswered ?p = Suc (length (filter (\<lambda>x. \<not> owned_answered x)
          ((ps_owned ?p)[i := OwnedAnswered fatal None])))"
        unfolding unanswered_def by (rule count_moved(3) [OF i]) (simp_all add: claimed)
      then have "iq_in_flight ?q \<noteq> 0" using flight by (simp add: owed_def)
      then show ?thesis
        using PumpAcknowledges i claimed less flight other acks next_ok [of "TaskDoneAnswers i None"]
        by (auto simp: inbound_task_done_def served_ok_def owed_def unanswered_def set_queue_def owned_call_done_def Let_def)
    qed (use ok PumpAcknowledges in auto)
  qed
qed

interpretation served: invariant_machine "served_step rsz" served_ok for rsz
  by unfold_locales (rule served_ok_step)

lemma served_start_ok:
  assumes "new_inbound_queue limit policy flag bytes = Inr q"
  shows "served_ok (served_start has_gate has_on_ready q)"
  using assms new_pump_ok [of has_gate has_on_ready]
  by (auto simp: served_ok_def served_start_def inbound_initial_def new_inbound_queue_def owed_def unanswered_def
      new_pump_system_def Let_def split: if_splits)

section \<open>Properties of the event pump\<close>

lemma config_claim [simp]:
  "ep_has_gate (ps_pump (fst (claim_owned i d fatal s))) = ep_has_gate (ps_pump s)"
  "ep_has_on_ready (ps_pump (fst (claim_owned i d fatal s))) = ep_has_on_ready (ps_pump s)"
  "ep_has_gate (ps_pump (worker_finish i d fatal leave s)) = ep_has_gate (ps_pump s)"
  "ep_has_on_ready (ps_pump (worker_finish i d fatal leave s)) = ep_has_on_ready (ps_pump s)"
  "ep_has_gate (ps_pump (pump_record_fatal e s)) = ep_has_gate (ps_pump s)"
  "ep_has_on_ready (ps_pump (pump_record_fatal e s)) = ep_has_on_ready (ps_pump s)"
  by (simp_all add: worker_finish_def claim_owned_def pump_count_discarded_def case_prod_beta pump_record_fatal_def
      note_stop_def)

lemma config_step:
  "ep_has_gate (ps_pump (pump_step x s)) = ep_has_gate (ps_pump s) \<and>
   ep_has_on_ready (ps_pump (pump_step x s)) = ep_has_on_ready (ps_pump s)"
  by (cases x)
     (simp_all add: at_point_def note_stop_def pump_request_stop_def pump_start_def pump_exit_def take_ownership_def
       pump_count_timeout_def pump_count_closed_def on_dispatch_done_def owned_call_done_def owned_count_def
       pump_count_answer_def owned_release_def pump_release_def owned_report_def Let_def
       split: pump_point.split pump_received.split option.split dispatch_answer.split owned_state.split sum.split)

lemma pump_run_config:
  "ep_has_gate (ps_pump (pump_run has_gate has_on_ready ops)) = has_gate"
  "ep_has_on_ready (ps_pump (pump_run has_gate has_on_ready ops)) = has_on_ready"
proof -
  have "ep_has_gate (ps_pump (fold pump_step ops s)) = ep_has_gate (ps_pump s) \<and>
      ep_has_on_ready (ps_pump (fold pump_step ops s)) = ep_has_on_ready (ps_pump s)" for s
    by (induction ops arbitrary: s) (simp_all add: config_step del: pump_step.simps)
  from this [of "new_pump_system has_gate has_on_ready"]
  show "ep_has_gate (ps_pump (pump_run has_gate has_on_ready ops)) = has_gate"
    "ep_has_on_ready (ps_pump (pump_run has_gate has_on_ready ops)) = has_on_ready"
    by (simp_all add: new_pump_system_def new_event_pump_def)
qed

lemma none_unreleased:
  assumes "pump_ok s" and "pump_drained (ps_pump s)"
  shows "\<forall>x \<in> set (ps_owned s). owned_released x" and "ps_point s \<in> {NoPump, PumpGone}"
proof -
  have "unreleased s = 0" using assms by (simp add: pump_ok_def owned_ok_def pump_drained_def Let_def)
  then show "\<forall>x \<in> set (ps_owned s). owned_released x" by (simp add: unreleased_def filter_empty_conv)
  show "ps_point s \<in> {NoPump, PumpGone}"
    using assms by (simp add: pump_ok_def pump_point_ok_def pump_drained_def Let_def)
qed

lemma released_answered: "owned_released x \<Longrightarrow> owned_answered x \<and> \<not> owned_uncounted P x"
  by (cases x) auto

text \<open>
  C20. A drained event pump has acknowledged every event exactly once: over the inbound queue, whatever
  the producers, the scheduler and the threads that stop the pump do and however its worker ended, when
  \<open>drain\<close> reports success every event that was received has been acknowledged, no acknowledgement was
  refused, and the queue has nothing in flight.
\<close>

theorem drained_pump_acknowledged_all:
  assumes "new_inbound_queue limit policy flag bytes = Inr q"
    and "pump_drained (ps_pump (sv_pump (served_run rsz has_gate has_on_ready q ops)))"
  shows "iq_in_flight (is_queue (sv_source (served_run rsz has_gate has_on_ready q ops))) = 0 \<and>
    ep_events_acknowledged (ps_pump (sv_pump (served_run rsz has_gate has_on_ready q ops)))
      = ep_events_received (ps_pump (sv_pump (served_run rsz has_gate has_on_ready q ops))) \<and>
    ep_acknowledgement_failures (ps_pump (sv_pump (served_run rsz has_gate has_on_ready q ops))) = 0 \<and>
    distinct (map fst (ps_acks (sv_pump (served_run rsz has_gate has_on_ready q ops))))"
proof -
  define p where "p = sv_pump (served_run rsz has_gate has_on_ready q ops)"
  have ok: "served_ok (served_run rsz has_gate has_on_ready q ops)"
    by (rule served.inv_run [OF served_start_ok [OF assms(1)]])
  then have pump: "pump_ok p" and acks: "\<forall>x \<in> set (ps_acks p). snd x = None"
    and flight: "iq_in_flight (is_queue (sv_source (served_run rsz has_gate has_on_ready q ops))) = owed p"
    by (simp_all add: served_ok_def p_def Let_def)
  note released = none_unreleased [OF pump assms(2) [folded p_def]]
  have answered: "filter (\<lambda>x. \<not> owned_answered x) (ps_owned p) = []"
    "filter (owned_uncounted P) (ps_owned p) = []" for P
    using released(1) released_answered unfolding filter_empty_conv by blast+
  then have "owed p = 0" using released(2) by (auto simp: owed_def unanswered_def)
  have acked: "distinct (map fst (ps_acks p))" "fst ` set (ps_acks p) = {..<length (ps_owned p)}"
    using pump released(1) released_answered by (auto simp: pump_ok_def owned_ok_def Let_def)
  then have "length (ps_acks p) = length (ps_owned p)"
    by (metis card_lessThan distinct_card length_map set_map)
  moreover have "filter (\<lambda>x. snd x = None) (ps_acks p) = ps_acks p"
    "filter (\<lambda>x. refused_answer (snd x)) (ps_acks p) = []"
    using acks by (auto simp: filter_id_conv filter_empty_conv)
  ultimately have "ep_events_acknowledged (ps_pump p) = ep_events_received (ps_pump p)"
    "ep_acknowledgement_failures (ps_pump p) = 0"
    using pump answered by (simp_all add: pump_ok_def owned_ok_def acks_ok_def Let_def)
  with flight \<open>owed p = 0\<close> acked(1) show ?thesis unfolding p_def by simp
qed

text \<open>
  The event pump begins after readiness and stops promptly: it has received an event only when its
  gate was seen open and its readiness callback was called once, and after the first stop request, by a caller or by
  a fatal failure, it receives at most one more event. The observer hears of the first failure only.
\<close>

theorem pump_events_between_ready_and_stop:
  "(ps_owned (pump_run has_gate has_on_ready ops) = [] \<or>
      (ps_ready_seen (pump_run has_gate has_on_ready ops) \<or> \<not> has_gate) \<and>
      ps_ready_calls (pump_run has_gate has_on_ready ops) = (if has_on_ready then 1 else 0)) \<and>
   (case ps_at_stop (pump_run has_gate has_on_ready ops) of
      None \<Rightarrow> \<not> ep_stop_requested (ps_pump (pump_run has_gate has_on_ready ops))
    | Some n \<Rightarrow> ep_events_received (ps_pump (pump_run has_gate has_on_ready ops)) \<le> n + 1) \<and>
   ps_fatal (pump_run has_gate has_on_ready ops)
     = (case ep_failure (ps_pump (pump_run has_gate has_on_ready ops)) of None \<Rightarrow> [] | Some e \<Rightarrow> [e])"
proof -
  let ?s = "pump_run has_gate has_on_ready ops"
  have ok: "pump_ok ?s" by (rule pump_run_ok)
  then have parts: "ready_ok ?s" "stop_ok ?s" "fatal_ok ?s" "ep_events_received (ps_pump ?s) = length (ps_owned ?s)"
    by (simp_all add: pump_ok_def owned_ok_def Let_def)
  show ?thesis
  proof (intro conjI)
    show "ps_owned ?s = [] \<or> (ps_ready_seen ?s \<or> \<not> has_gate) \<and> ps_ready_calls ?s = (if has_on_ready then 1 else 0)"
      using parts(1) unfolding ready_ok_def Let_def pump_run_config by meson
    show "case ps_at_stop ?s of None \<Rightarrow> \<not> ep_stop_requested (ps_pump ?s)
        | Some n \<Rightarrow> ep_events_received (ps_pump ?s) \<le> n + 1"
      using parts(2) unfolding stop_ok_def parts(4) by (cases "ps_at_stop ?s") simp_all
    show "ps_fatal ?s = (case ep_failure (ps_pump ?s) of None \<Rightarrow> [] | Some e \<Rightarrow> [e])"
      using parts(3) unfolding fatal_ok_def by (rule conjunct1)
  qed
qed


section \<open>Witnesses\<close>

definition one_event_ops :: "served_op list" where
  "one_event_ops =
     [SourceDoes (SubmitBegin SystemDidWakeUp True), PumpDoes (PumpStart True), PumpDoes PumpCheckStop,
      PumpDoes (PumpGateAnswers True False False), PumpDoes PumpCheckStop, PumpDoes (PumpReadyReturns None),
      PumpDoes PumpCheckStop, PumpPolls None True, PumpDoes PumpOwn, PumpDoes PumpCheckStopping,
      PumpDoes PumpCountSubmitted, PumpDoes (PumpSubmitEnds True None),
      PumpDoes (DispatchDone 0 (DispatchGave (DispatchResult Handled None))), PumpAcknowledges 0,
      PumpDoes (CountAnswer 0), PumpDoes (ReleaseOwned 0), PumpDoes (ReportOwned 0), PumpDoes PumpRequestStop,
      PumpDoes PumpCheckStop, PumpDoes PumpExit]"

definition plain_queue :: inbound_queue where
  "plain_queue = (case new_inbound_queue 2 DROP_OLDEST False 8 of Inr q \<Rightarrow> q)"

lemma plain_new: "new_inbound_queue 2 DROP_OLDEST False 8 = Inr plain_queue"
  by (simp add: plain_queue_def new_inbound_queue_def)

lemmas pump_eval = new_pump_system_def new_event_pump_def pump_start_def at_point_def take_ownership_def
  pump_count_discarded_def pump_count_answer_def pump_release_def pump_request_stop_def pump_exit_def note_stop_def
  claim_owned_def worker_finish_def on_dispatch_done_def owned_call_done_def owned_count_def owned_release_def
  owned_report_def pump_drained_def Let_def

lemma one_event_drained:
  "pump_drained (ps_pump (sv_pump (served_run (\<lambda>_ _. 3) True True plain_queue one_event_ops))) \<and>
   ep_events_received (ps_pump (sv_pump (served_run (\<lambda>_ _. 3) True True plain_queue one_event_ops))) = 1"
  by (simp add: one_event_ops_def served_start_def pump_eval plain_queue_def new_inbound_queue_def inbound_initial_def
      submit_begin_def coalesce_def submit_loop.simps over_capacity_def append_event_def receive_attempt_def
      take_queued_def remove_item_def forget_queued_event_def break_context_coalescing_def set_queue_def del_at_def
      inbound_task_done_def)

lemma drained_pump_acknowledged_all_witness:
  "ep_events_acknowledged (ps_pump (sv_pump (served_run (\<lambda>_ _. 3) True True plain_queue one_event_ops))) = 1"
  using drained_pump_acknowledged_all [OF plain_new, where rsz = "\<lambda>_ _. 3"
      and has_gate = True and has_on_ready = True and ops = one_event_ops] one_event_drained by simp

lemma pump_events_between_ready_and_stop_witness:
  "ps_ready_calls (pump_run True True
     [PumpStart True, PumpCheckStop, PumpGateAnswers True False False, PumpCheckStop, PumpReadyReturns None,
      PumpCheckStop, PumpSourceAnswers ReceivedEvent, PumpOwn]) = 1"
  using pump_events_between_ready_and_stop [where has_gate = True and has_on_ready = True and ops = "[PumpStart True, PumpCheckStop,
    PumpGateAnswers True False False, PumpCheckStop, PumpReadyReturns None, PumpCheckStop,
    PumpSourceAnswers ReceivedEvent, PumpOwn]"]
  by (simp add: pump_eval)

end
