(* ===== verification/SessionPump.thy ===== *)
theory SessionPump
  imports TransportQueue Session
begin

text \<open>
  The second pump of runtime/pumps.py: it takes session events from the queue of the transport and gives
  them to the session coordinator, whose handlers it runs. The queue is that of theory TransportQueue, the
  coordinator that of theory Session; other threads close and fail the readiness gate, stop the pump, and
  offer events.
\<close>

section \<open>State\<close>

record session_pump =
  sp_thread :: bool
  sp_started :: bool
  sp_stop_requested :: bool
  sp_stopped :: bool
  sp_failure :: "exn option"

definition new_session_pump :: session_pump where
  "new_session_pump =
     \<lparr>sp_thread = False, sp_started = False, sp_stop_requested = False, sp_stopped = False, sp_failure = None\<rparr>"

definition session_pump_start :: "bool \<Rightarrow> session_pump \<Rightarrow> session_pump \<times> exn option \<times> bool" where
  "session_pump_start thread_starts p =
     (if sp_started p \<and> \<not> sp_stopped p then (p, None, False)
      else if sp_stopped p \<or> sp_stop_requested p
      then (p, Some (LifecycleError ''session pump has already been stopped''), False)
      else if thread_starts then (p\<lparr>sp_thread := True, sp_started := True\<rparr>, None, True)
      else (p\<lparr>sp_thread := False, sp_started := False\<rparr>, Some (RuntimeError ''can't start new thread''), False))"

definition session_pump_request_stop :: "session_pump \<Rightarrow> session_pump" where
  "session_pump_request_stop p =
     p\<lparr>sp_stop_requested := True, sp_stopped := sp_stopped p \<or> \<not> sp_thread p\<rparr>"

definition session_pump_drain_attempt :: "bool \<Rightarrow> session_pump \<Rightarrow> bool option" where
  "session_pump_drain_attempt expired p =
     (if sp_stopped p then Some True else if expired then Some False else None)"

definition session_pump_exit :: "session_pump \<Rightarrow> session_pump" where
  "session_pump_exit p = p\<lparr>sp_stopped := True\<rparr>"

text \<open>Where the worker is: an exception on its way to the gate, and then to \<open>_record_fatal\<close>, is kept.\<close>

datatype session_point =
    NoSessionPump
  | SessionTop
  | SessionReceiving
  | SessionTaken session_event
  | SessionHandling
  | SessionFailing exn
  | SessionReporting exn
  | SessionLeaving
  | SessionGone

text \<open>
  \<open>ss_accepted\<close>: the events that the queue accepted; \<open>ss_handled\<close>: those whose handler was called;
  \<open>ss_stop_asked\<close>: a stop was requested by another thread; \<open>ss_fatal\<close>: the calls of the observer.
\<close>

record session_system =
  ss_pump :: session_pump
  ss_session :: session
  ss_source :: "session_event transport_queue"
  ss_point :: session_point
  ss_accepted :: "session_event list"
  ss_handled :: "session_event list"
  ss_stop_asked :: bool
  ss_fatal :: "exn list"

definition session_record_fatal :: "exn \<Rightarrow> session_system \<Rightarrow> session_system" where
  "session_record_fatal e s =
     (if sp_failure (ss_pump s) \<noteq> None then s
      else s\<lparr>ss_pump := (ss_pump s)\<lparr>sp_failure := Some e, sp_stop_requested := True\<rparr>,
             ss_fatal := ss_fatal s @ [e]\<rparr>)"

text \<open>What is no \<open>Exception\<close> ends the worker wrapped in a \<open>RuntimeWorkerError\<close>.\<close>

definition session_failure :: "exn \<Rightarrow> exn" where
  "session_failure e = (if is_exception e then e else RuntimeWorkerError ''Runtime session pump'')"

datatype session_pump_op =
    SessionPumpStart bool
  | SessionPumpStop
  | SessionCheckStop
  | SessionPoll bool
  | SessionSourceRaises exn
  | SessionHandle
  | SessionSendEnds "exn option"
  | SessionHandleEnds
  | SessionFailReadiness
  | SessionReport
  | SessionPumpExit
  | SessionOffer session_event
  | SessionCloseSource
  | OtherFailsReadiness exn
  | OtherClosesGate

definition session_at :: "session_point \<Rightarrow> session_system \<Rightarrow> session_system" where
  "session_at pt s = s\<lparr>ss_point := pt\<rparr>"

fun session_pump_step :: "session_pump_op \<Rightarrow> session_system \<Rightarrow> session_system" where
  "session_pump_step (SessionPumpStart thread_starts) s =
     (case session_pump_start thread_starts (ss_pump s) of
        (p, _, started) \<Rightarrow> s\<lparr>ss_pump := p, ss_point := (if started then SessionTop else ss_point s)\<rparr>)"
| "session_pump_step SessionPumpStop s =
     s\<lparr>ss_pump := session_pump_request_stop (ss_pump s), ss_stop_asked := True\<rparr>"
| "session_pump_step SessionCheckStop s =
     (if ss_point s \<noteq> SessionTop then s
      else session_at (if sp_stop_requested (ss_pump s) then SessionLeaving else SessionReceiving) s)"
| "session_pump_step (SessionPoll expired) s =
     (if ss_point s \<noteq> SessionReceiving then s
      else case tq_receive_attempt expired (ss_source s) of
        (q, TQReceived e) \<Rightarrow> session_at (SessionTaken e) (s\<lparr>ss_source := q\<rparr>)
      | (q, TQWaiting) \<Rightarrow> s
      | (q, TQRaised e) \<Rightarrow>
          if e = TimeoutError then
            session_at SessionTop (s\<lparr>ss_session := record_source_poll_timeout (ss_session s)\<rparr>)
          else session_at SessionLeaving (s\<lparr>ss_session := record_source_closed (ss_session s)\<rparr>))"
| "session_pump_step (SessionSourceRaises e) s =
     (if ss_point s = SessionReceiving then session_at (SessionFailing (session_failure e)) s else s)"
| "session_pump_step SessionHandle s =
     (case ss_point s of
        SessionTaken e \<Rightarrow>
          session_at SessionHandling (s\<lparr>ss_session := handle_begin e (ss_session s), ss_handled := ss_handled s @ [e]\<rparr>)
      | _ \<Rightarrow> s)"
| "session_pump_step (SessionSendEnds failure) s =
     (if ss_point s \<noteq> SessionHandling \<or> se_handler (ss_session s) \<notin> {SendingRegistration, SendingSettingsRequest} then s
      else
        (let s1 = s\<lparr>ss_session := session_step (SendEnds failure) (ss_session s)\<rparr> in
         case failure of
           None \<Rightarrow> s1
         | Some e \<Rightarrow> if is_exception e then s1 else session_at (SessionFailing (session_failure e)) s1))"
| "session_pump_step SessionHandleEnds s =
     (if ss_point s \<noteq> SessionHandling \<or> se_handler (ss_session s) \<in> {SendingRegistration, SendingSettingsRequest} then s
      else
        (case handle_end (ss_session s) of
           (session, None) \<Rightarrow> session_at SessionTop (s\<lparr>ss_session := session\<rparr>)
         | (session, Some e) \<Rightarrow> session_at (SessionFailing (session_failure e)) (s\<lparr>ss_session := session\<rparr>)))"
| "session_pump_step SessionFailReadiness s =
     (case ss_point s of
        SessionFailing e \<Rightarrow> session_at (SessionReporting e) (s\<lparr>ss_session := fst (fail_readiness e (ss_session s))\<rparr>)
      | _ \<Rightarrow> s)"
| "session_pump_step SessionReport s =
     (case ss_point s of
        SessionReporting e \<Rightarrow> session_at SessionLeaving (session_record_fatal e s)
      | _ \<Rightarrow> s)"
| "session_pump_step SessionPumpExit s =
     (if ss_point s = SessionLeaving then session_at SessionGone (s\<lparr>ss_pump := session_pump_exit (ss_pump s)\<rparr>) else s)"
| "session_pump_step (SessionOffer e) s =
     (case session_submit e True (ss_source s) of
        (q, Submitted True, _) \<Rightarrow> s\<lparr>ss_source := q, ss_accepted := ss_accepted s @ [e]\<rparr>
      | (q, _, _) \<Rightarrow> s\<lparr>ss_source := q\<rparr>)"
| "session_pump_step SessionCloseSource s = s\<lparr>ss_source := tq_stop_accepting (ss_source s)\<rparr>"
| "session_pump_step (OtherFailsReadiness e) s = s\<lparr>ss_session := fst (fail_readiness e (ss_session s))\<rparr>"
| "session_pump_step OtherClosesGate s = s\<lparr>ss_session := session_step CloseGate (ss_session s)\<rparr>"

definition session_pump_initial :: "session \<Rightarrow> session_event transport_queue \<Rightarrow> session_system" where
  "session_pump_initial session q =
     \<lparr>ss_pump = new_session_pump, ss_session = session, ss_source = q, ss_point = NoSessionPump, ss_accepted = [],
      ss_handled = [], ss_stop_asked = False, ss_fatal = []\<rparr>"

section \<open>Invariant\<close>

text \<open>The gate no longer keeps anybody waiting.\<close>

definition gate_settled :: "session_system \<Rightarrow> bool" where
  "gate_settled s \<longleftrightarrow> rg_ready (se_gate (ss_session s)) \<or> rg_terminal (se_gate (ss_session s))"

fun taken_events :: "session_point \<Rightarrow> session_event list" where
  "taken_events (SessionTaken e) = [e]"
| "taken_events _ = []"

definition session_order_ok :: "session_system \<Rightarrow> bool" where
  "session_order_ok s \<longleftrightarrow>
     ss_accepted s = ss_handled s @ taken_events (ss_point s) @ map fst (tq_queue (ss_source s)) \<and>
     se_events_received (ss_session s) = length (ss_handled s)"

definition session_point_ok :: "session_system \<Rightarrow> bool" where
  "session_point_ok s \<longleftrightarrow> (let p = ss_pump s; pt = ss_point s in
     sp_thread p = sp_started p \<and> (sp_started p \<longleftrightarrow> pt \<noteq> NoSessionPump) \<and>
     (sp_stopped p \<longrightarrow> pt \<in> {NoSessionPump, SessionGone}) \<and>
     (se_handler (ss_session s) \<noteq> NoHandler \<longrightarrow> pt = SessionHandling) \<and>
     (\<forall>e. pt = SessionFailing e \<or> pt = SessionReporting e \<longrightarrow> is_exception e))"

definition session_settled_ok :: "session_system \<Rightarrow> bool" where
  "session_settled_ok s \<longleftrightarrow>
     (sp_stop_requested (ss_pump s) \<longrightarrow> ss_stop_asked s \<or> gate_settled s) \<and>
     (ss_point s \<in> {SessionLeaving, SessionGone} \<longrightarrow> ss_stop_asked s \<or> gate_settled s) \<and>
     (\<forall>e. ss_point s = SessionReporting e \<longrightarrow> gate_settled s) \<and>
     (sp_failure (ss_pump s) \<noteq> None \<longrightarrow> gate_settled s) \<and>
     ss_fatal s = (case sp_failure (ss_pump s) of None \<Rightarrow> [] | Some e \<Rightarrow> [e])"

definition session_pump_ok :: "session_system \<Rightarrow> bool" where
  "session_pump_ok s \<longleftrightarrow> session_ok (ss_session s) \<and> session_order_ok s \<and> session_point_ok s \<and> session_settled_ok s"


text \<open>What the coordinator's segments do to the gate, to the handler and to the count of events.\<close>

lemma events_received [simp]:
  "se_events_received (handle_begin v s) = Suc (se_events_received s)"
  "se_events_received (session_step (SendEnds x) s) = se_events_received s"
  "se_events_received (fst (handle_end s)) = se_events_received s"
  "se_events_received (record_source_poll_timeout s) = se_events_received s"
  "se_events_received (record_source_closed s) = se_events_received s"
  "se_events_received (fst (fail_readiness e s)) = se_events_received s"
  by (auto simp: session_operation_defs split: session_event.splits handler_point.splits option.splits init_phase.splits)

lemma handler_after [simp]:
  "se_handler (fst (handle_end s)) =
     (if se_handler s \<in> {SendingRegistration, SendingSettingsRequest} then se_handler s else NoHandler)"
  "se_handler (record_source_poll_timeout s) = se_handler s"
  "se_handler (record_source_closed s) = se_handler s"
  "se_handler (fst (fail_readiness e s)) = se_handler s"
  by (auto simp: session_operation_defs split: handler_point.splits option.splits)

lemma send_ends_raises:
  "se_handler s \<in> {SendingRegistration, SendingSettingsRequest} \<Longrightarrow> \<not> is_exception e \<Longrightarrow>
   se_handler (session_step (SendEnds (Some e)) s) = NoHandler"
  by (auto simp: registration_sent_def settings_request_sent_def Let_def)

lemma handle_end_raises: "session_ok s \<Longrightarrow> handle_end s = (s', Some e) \<Longrightarrow> is_exception e"
  by (cases "se_handler s") (auto simp: handle_end_def session_ok_def handler_ok_def gate_open_def Let_def split: if_splits)

definition settled_gate :: "session \<Rightarrow> bool" where
  "settled_gate s \<longleftrightarrow> rg_ready (se_gate s) \<or> rg_terminal (se_gate s)"

lemma settled_gate_kept:
  "settled_gate s \<Longrightarrow> settled_gate (handle_begin v s)"
  "settled_gate s \<Longrightarrow> settled_gate (session_step (SendEnds x) s)"
  "settled_gate s \<Longrightarrow> settled_gate (fst (handle_end s))"
  "settled_gate s \<Longrightarrow> settled_gate (record_source_poll_timeout s)"
  "settled_gate (record_source_closed s)"
  "settled_gate s \<or> is_exception e \<Longrightarrow> settled_gate (fst (fail_readiness e s))"
  by (auto simp: settled_gate_def session_operation_defs
      split: session_event.splits handler_point.splits option.splits init_phase.splits)

lemma gate_settled_iff: "gate_settled s = settled_gate (ss_session s)"
  by (simp add: gate_settled_def settled_gate_def)

text \<open>The parts of the invariant that a step of another thread on the session or the queue keeps.\<close>

lemma session_failure_exception [simp]: "is_exception (session_failure e)"
  by (simp add: session_failure_def)

lemmas session_pump_defs = session_order_ok_def session_point_ok_def session_settled_ok_def gate_settled_iff Let_def
  session_at_def

lemma session_pump_ok_step:
  assumes ok: "session_pump_ok s"
  shows "session_pump_ok (session_pump_step x s)"
proof -
  let ?u = "ss_session s"
  have session: "session_ok ?u" and order: "session_order_ok s" and point: "session_point_ok s"
    and settled: "session_settled_ok s"
    using ok by (simp_all add: session_pump_ok_def)
  have idle: "ss_point s \<noteq> SessionHandling \<Longrightarrow> se_handler ?u = NoHandler"
    using point by (auto simp: session_point_ok_def Let_def)
  note handled = session_ok_handle [OF session] session_ok_end [OF session] session_ok_gate_operations [OF session]
    session_ok_step [OF session]
  show ?thesis
  proof (cases x)
    case (SessionPumpStart b)
    show ?thesis
    proof (cases "ss_point s = NoSessionPump")
      case True
      then have "session_order_ok (s\<lparr>ss_pump := p, ss_point := SessionTop\<rparr>)"
        "session_order_ok (s\<lparr>ss_pump := p, ss_point := NoSessionPump\<rparr>)"
        "session_order_ok (s\<lparr>ss_point := NoSessionPump\<rparr>)" for p
        using order by (simp_all add: session_order_ok_def)
      then show ?thesis using True SessionPumpStart session point settled
        by (simp add: session_pump_ok_def session_pump_start_def session_point_ok_def session_settled_ok_def
            gate_settled_def Let_def)
    next
      case False
      then have "sp_started (ss_pump s)" using point by (simp add: session_point_ok_def Let_def)
      then have "\<exists>e. session_pump_start b (ss_pump s) = (ss_pump s, e, False)" by (simp add: session_pump_start_def)
      then show ?thesis using ok SessionPumpStart by auto
    qed
  next
    case SessionPumpStop
    then show ?thesis using ok
      by (simp_all add: session_pump_ok_def session_pump_defs session_pump_request_stop_def)
  next
    case SessionCheckStop
    then show ?thesis using ok by (cases "ss_point s") (simp_all add: session_pump_ok_def session_pump_defs)
  next
    case (SessionPoll expired)
    obtain q st where rec: "tq_receive_attempt expired (ss_source s) = (q, st)" by fastforce
    have q: "map fst (tq_queue (ss_source s)) = (case st of TQReceived f \<Rightarrow> [f] | _ \<Rightarrow> []) @ map fst (tq_queue q)"
      "st = TQRaised e \<Longrightarrow> q = ss_source s" for e
      using rec by (auto simp: tq_receive_attempt_def split: list.splits if_splits)
    show ?thesis
    proof (cases "ss_point s = SessionReceiving")
      case True
      have u: "session_ok (record_source_poll_timeout ?u)" "session_ok (record_source_closed ?u)"
        using session_ok_gate_operations [OF session] by simp_all
      have raised: "session_pump_ok (session_at pt (s\<lparr>ss_session := w\<rparr>))"
        if "pt = SessionTop \<and> w = record_source_poll_timeout ?u \<or> pt = SessionLeaving \<and> w = record_source_closed ?u" for pt w
        using that ok True u settled_gate_kept(4) [of ?u] settled_gate_kept(5) [of ?u]
        by (elim disjE) (auto simp: session_pump_ok_def session_pump_defs)
      show ?thesis
      proof (cases st)
        case (TQRaised e)
        then have "q = ss_source s" using q(2) by simp
        then have "s\<lparr>ss_source := q\<rparr> = s" by simp
        then show ?thesis using SessionPoll True rec TQRaised raised by simp
      qed (use ok SessionPoll True rec q in \<open>simp_all add: session_pump_ok_def session_pump_defs\<close>)
    qed (use ok SessionPoll in simp)
  next
    case (SessionSourceRaises e)
    then show ?thesis using ok by (cases "ss_point s") (simp_all add: session_pump_ok_def session_pump_defs)
  next
    case SessionHandle
    then show ?thesis using ok handled(1) idle settled_gate_kept(1) [of ?u]
      by (cases "ss_point s") (auto simp: session_pump_ok_def session_pump_defs)
  next
    case (SessionSendEnds failure)
    show ?thesis
    proof (cases "ss_point s = SessionHandling \<and> se_handler ?u \<in> {SendingRegistration, SendingSettingsRequest}")
      case True
      then show ?thesis
        using ok SessionSendEnds handled(7) [of "SendEnds failure"] settled_gate_kept(2) [of ?u failure]
          send_ends_raises [of ?u] events_received(2) [of failure ?u]
        by (cases failure) (auto simp: session_pump_ok_def session_pump_defs simp del: session_step.simps)
    next
      case False
      then show ?thesis using ok SessionSendEnds by (simp del: session_step.simps)
    qed
  next
    case SessionHandleEnds
    obtain u r where he: "handle_end ?u = (u, r)" by fastforce
    then have u: "u = fst (handle_end ?u)" by simp
    show ?thesis
      using ok SessionHandleEnds he handled(2) settled_gate_kept(3) [of ?u] handler_after(1) [of ?u]
        events_received(3) [of ?u] handle_end_raises [OF session]
      by (cases "ss_point s"; cases r) (auto simp: session_pump_ok_def session_pump_defs)
  next
    case SessionFailReadiness
    then show ?thesis using ok handled(3) settled_gate_kept(6) [of ?u]
      by (cases "ss_point s") (auto simp: session_pump_ok_def session_pump_defs)
  next
    case SessionReport
    then show ?thesis using ok
      by (cases "ss_point s") (auto simp: session_pump_ok_def session_pump_defs session_record_fatal_def split: option.splits)
  next
    case SessionPumpExit
    then show ?thesis using ok by (cases "ss_point s") (auto simp: session_pump_ok_def session_pump_defs session_pump_exit_def)
  next
    case (SessionOffer e)
    obtain q st r where sub: "session_submit e True (ss_source s) = (q, st, r)" by (metis prod_cases3)
    then have "map fst (tq_queue q) = map fst (tq_queue (ss_source s)) @ (if st = Submitted True then [e] else [])"
      using queued_submit(1) [of e 0 False True "ss_source s"] by (simp add: session_submit_def)
    then show ?thesis using ok SessionOffer sub
      by (cases st) (auto simp: session_pump_ok_def session_pump_defs split: bool.splits)
  next
    case SessionCloseSource
    then show ?thesis using ok by (auto simp: session_pump_ok_def session_pump_defs tq_stop_accepting_def)
  next
    case (OtherFailsReadiness e)
    then show ?thesis using ok handled(3) settled_gate_kept(6) [of ?u]
      by (auto simp: session_pump_ok_def session_pump_defs)
  next
    case OtherClosesGate
    then show ?thesis using ok handled(4)
      by (auto simp: session_pump_ok_def session_pump_defs gate_close_def settled_gate_def)
  qed
qed

interpretation session_worker: invariant_machine session_pump_step session_pump_ok
  by unfold_locales (rule session_pump_ok_step)


abbreviation session_pump_run :: "session \<Rightarrow> session_event transport_queue \<Rightarrow> session_pump_op list \<Rightarrow> session_system" where
  "session_pump_run session q ops \<equiv> fold session_pump_step ops (session_pump_initial session q)"

lemma session_pump_initial_ok:
  assumes "new_session register_event plugin_uuid = Inr session" and "tq_queue q = []"
  shows "session_pump_ok (session_pump_initial session q)"
  using assms new_session_ok [OF assms(1)]
  by (auto simp: session_pump_ok_def session_pump_defs session_pump_initial_def new_session_pump_def new_session_def
      split: if_splits)

section \<open>Properties\<close>


section \<open>Witness\<close>

definition session_queue :: "session_event transport_queue" where
  "session_queue = (case new_transport_queue 4 0 0 of Inr q \<Rightarrow> q)"

definition failed_registration :: "session_pump_op list" where
  "failed_registration =
     [SessionPumpStart True, SessionOffer Connected, SessionCheckStop, SessionPoll True, SessionHandle,
      SessionSendEnds (Some TimeoutError), SessionHandleEnds, SessionFailReadiness, SessionReport, SessionPumpExit]"


end
