(* ===== verification/Connector.thy ===== *)
theory Connector
  imports TransportQueue Session "HOL-Library.Sublist"
begin

text \<open>
  transport/websocket.py: the connector between the queues and the WebSocket client. Its threads are the one
  that runs the client (and its callbacks), the sender of outbound frames and the caller that closes; each
  is modelled by its segments under the connector's lock and its calls in between. Frames are numbers, each with
  the receipt of the same number in the store of receipts; outbound frames come from a queue of theory
  TransportQueue. The client, the inbound sink and the sink of session events answer as the steps say. A counter that
  follows an effect is one step with it, since only \<open>metrics()\<close> reads it.
\<close>

section \<open>State\<close>

record connector =
  cn_outbound_shutdown_timeout :: "rat option"
  cn_sender_thread :: bool
  cn_lifecycle_thread :: bool
  cn_started :: bool
  cn_terminal :: bool
  cn_closing :: bool
  cn_close_completed :: bool
  cn_connected :: bool
  cn_drain_requested :: bool
  cn_stop_requested :: bool
  cn_sender_stopped :: bool
  cn_outbound_drained :: bool
  cn_in_flight :: "nat option"
  cn_disconnected_published :: bool
  cn_websocket_close_requested :: bool
  cn_connect_count :: nat
  cn_disconnect_count :: nat
  cn_last_close_code :: "int option"
  cn_transport_error_count :: nat
  cn_session_events_rejected :: nat
  cn_inbound_frames_received :: nat
  cn_inbound_frames_forwarded :: nat
  cn_inbound_frames_rejected :: nat
  cn_binary_frames_rejected :: nat
  cn_outbound_frames_received :: nat
  cn_outbound_frames_sent :: nat
  cn_outbound_send_failures :: nat
  cn_outbound_drain_timeouts :: nat
  cn_outbound_discarded_during_shutdown :: nat

text \<open>The constructor; the port is an \<open>int\<close> (no \<open>bool\<close>) in the range of TCP ports, and is checked before the timeout.\<close>

definition new_connector :: "pyval \<Rightarrow> pyval \<Rightarrow> exn + connector" where
  "new_connector port timeout =
     (case port of
        PInt n \<Rightarrow>
          if 1 \<le> n \<and> n \<le> 65535 then
            rbind (validate_timeout ''outbound_shutdown_timeout must be a non-negative number or None'' timeout)
            (\<lambda>limit. Inr \<lparr>cn_outbound_shutdown_timeout = limit, cn_sender_thread = False, cn_lifecycle_thread = False, cn_started = False, cn_terminal = False,
              cn_closing = False, cn_close_completed = False, cn_connected = False, cn_drain_requested = False,
              cn_stop_requested = False, cn_sender_stopped = False, cn_outbound_drained = False,
              cn_in_flight = None, cn_disconnected_published = False, cn_websocket_close_requested = False,
              cn_connect_count = 0, cn_disconnect_count = 0, cn_last_close_code = None,
              cn_transport_error_count = 0, cn_session_events_rejected = 0, cn_inbound_frames_received = 0,
              cn_inbound_frames_forwarded = 0, cn_inbound_frames_rejected = 0, cn_binary_frames_rejected = 0,
              cn_outbound_frames_received = 0, cn_outbound_frames_sent = 0, cn_outbound_send_failures = 0,
              cn_outbound_drain_timeouts = 0, cn_outbound_discarded_during_shutdown = 0\<rparr>)
          else Inl (ValueError ''port must be an integer between 1 and 65535'')
      | _ \<Rightarrow> Inl (ValueError ''port must be an integer between 1 and 65535''))"

text \<open>
  Where a call of \<open>_discard_outbound\<close> is: reading the frame in flight, finishing it, taking a queued frame,
  finishing that, and at its end.
\<close>

datatype discard = ReadInFlight | SettleInFlight nat | TakeQueued | SettleQueued nat | Discarded

text \<open>
  Where the sender is. The number is the frame in hand; \<open>SenderClearing\<close> and \<open>SenderAbortClearing\<close> forget the frame in flight
  before the sender goes on, or before it aborts the transport with an error.
\<close>

datatype sender_point =
    NoSender
  | SenderWaiting
  | SenderReceiving
  | SenderTaken nat
  | SenderUnsent nat
  | SenderChecked nat
  | SenderSending nat
  | SenderSentOk nat
  | SenderClearing nat bool
  | SenderAbortClearing nat exn
  | SenderAborting exn
  | SenderDiscarding exn discard
  | SenderEnding
  | SenderGone

text \<open>
  Where the thread of \<open>run_forever\<close> is: the flag tells whether \<open>_handle_disconnect\<close> runs at the end of the
  run, the event is what it publishes.
\<close>

datatype run_point =
    NoRun
  | RunningClient
  | Disconnecting bool "session_event option" discard
  | PublishingDisconnect bool "session_event option"
  | JoiningSender
  | RunGone

datatype close_point =
    NoClose
  | CloseStopping bool
  | CloseWaiting
  | CloseUndrained bool exn
  | CloseDiscarding exn discard
  | ClosingSocket
  | CloseEnding
  | CloseGone

text \<open>
  \<open>cx_accepted\<close>: the frames that the queue accepted; \<open>cx_taken\<close>: those that the sender took; \<open>cx_sent\<close>:
  those whose \<open>send\<close> returned; \<open>cx_refused\<close>: those whose command would not begin to be sent;
  \<open>cx_events\<close>: the session events published.
\<close>

record connector_system =
  cx_conn :: connector
  cx_queue :: "nat transport_queue"
  cx_receipts :: "nat \<Rightarrow> receipt"
  cx_sender :: sender_point
  cx_run :: run_point
  cx_close :: close_point
  cx_accepted :: "nat list"
  cx_taken :: "nat list"
  cx_sent :: "nat list"
  cx_refused :: "nat list"
  cx_events :: "session_event list"

section \<open>Shared segments\<close>

definition set_conn :: "connector \<Rightarrow> connector_system \<Rightarrow> connector_system" where
  "set_conn c s = s\<lparr>cx_conn := c\<rparr>"

text \<open>\<open>_publish_session_event\<close>: \<open>sink n\<close> tells whether the sink accepts the \<open>n\<close>-th event.\<close>

definition publish_session_event :: "(nat \<Rightarrow> bool) \<Rightarrow> session_event \<Rightarrow> connector_system \<Rightarrow> connector_system" where
  "publish_session_event sink event s =
     (let c = cx_conn s in
      s\<lparr>cx_events := cx_events s @ [event],
        cx_conn := (if sink (length (cx_events s)) then c
          else c\<lparr>cn_session_events_rejected := Suc (cn_session_events_rejected c)\<rparr>)\<rparr>)"

definition publish_transport_error :: "(nat \<Rightarrow> bool) \<Rightarrow> exn \<Rightarrow> connector_system \<Rightarrow> connector_system" where
  "publish_transport_error sink e s =
     publish_session_event sink (TransportError e)
       (s\<lparr>cx_conn := (cx_conn s)\<lparr>cn_transport_error_count := Suc (cn_transport_error_count (cx_conn s))\<rparr>\<rparr>)"

text \<open>\<open>_finish_receipt\<close>; the flag tells whether this call settled the receipt.\<close>

definition finish_frame :: "nat \<Rightarrow> exn option \<Rightarrow> connector_system \<Rightarrow> connector_system \<times> bool" where
  "finish_frame f err s =
     (case receipt_finish err (cx_receipts s f) of
        Inl _ \<Rightarrow> (s, False)
      | Inr (r, _) \<Rightarrow> (s\<lparr>cx_receipts := (cx_receipts s)(f := r)\<rparr>, True))"

definition discard_frame :: "nat \<Rightarrow> exn \<Rightarrow> connector_system \<Rightarrow> connector_system" where
  "discard_frame f e s =
     (case finish_frame f (Some e) s of
        (s', mine) \<Rightarrow>
          if mine then s'\<lparr>cx_conn := (cx_conn s')\<lparr>cn_outbound_discarded_during_shutdown :=
            Suc (cn_outbound_discarded_during_shutdown (cx_conn s'))\<rparr>\<rparr>
          else s')"

definition fail_frame :: "nat \<Rightarrow> exn \<Rightarrow> connector_system \<Rightarrow> connector_system" where
  "fail_frame f e s =
     (case finish_frame f (Some e) s of
        (s', mine) \<Rightarrow>
          if mine then s'\<lparr>cx_conn := (cx_conn s')\<lparr>cn_outbound_send_failures :=
            Suc (cn_outbound_send_failures (cx_conn s'))\<rparr>\<rparr>
          else s')"

definition clear_in_flight :: "nat \<Rightarrow> connector \<Rightarrow> connector" where
  "clear_in_flight f c = (if cn_in_flight c = Some f then c\<lparr>cn_in_flight := None\<rparr> else c)"

text \<open>One segment of \<open>_discard_outbound\<close>.\<close>

definition discard_step :: "exn \<Rightarrow> discard \<Rightarrow> connector_system \<Rightarrow> connector_system \<times> discard" where
  "discard_step e d s =
     (case d of
        ReadInFlight \<Rightarrow>
          (s, case cn_in_flight (cx_conn s) of None \<Rightarrow> TakeQueued | Some f \<Rightarrow> SettleInFlight f)
      | SettleInFlight f \<Rightarrow> (discard_frame f e s, TakeQueued)
      | TakeQueued \<Rightarrow>
          (case tq_receive_attempt True (cx_queue s) of
             (q, TQReceived f) \<Rightarrow> (s\<lparr>cx_queue := q\<rparr>, SettleQueued f)
           | (q, _) \<Rightarrow> (s, Discarded))
      | SettleQueued f \<Rightarrow> (discard_frame f e s, TakeQueued)
      | Discarded \<Rightarrow> (s, Discarded))"

text \<open>\<open>_safe_close_websocket\<close>, with the answer of the client's \<open>close\<close>.\<close>

definition safe_close :: "(nat \<Rightarrow> bool) \<Rightarrow> bool \<Rightarrow> exn option \<Rightarrow> connector_system \<Rightarrow> connector_system" where
  "safe_close sink force answer s =
     (if cn_websocket_close_requested (cx_conn s) \<and> \<not> force then s
      else
        (let s1 = s\<lparr>cx_conn := (cx_conn s)\<lparr>cn_websocket_close_requested := True\<rparr>\<rparr> in
         case answer of None \<Rightarrow> s1 | Some e \<Rightarrow> publish_transport_error sink e s1))"

text \<open>The connector's exceptions are subclasses of \<open>RuntimeError\<close>; the name of the cause is left out of a message.\<close>

definition disconnected_error :: exn where
  "disconnected_error = RuntimeError ''WebSocket disconnected before frame send''"

section \<open>The thread of the client\<close>

definition run_begin :: "bool \<Rightarrow> connector_system \<Rightarrow> connector_system \<times> exn option" where
  "run_begin thread_starts s =
     (let c = cx_conn s in
      if cn_started c then (s, Some (LifecycleError ''Connector can only be run once''))
      else if cn_terminal c \<or> cn_closing c then (s, Some (LifecycleError ''Connector has already been closed''))
      else if thread_starts then
        (s\<lparr>cx_conn := c\<lparr>cn_sender_thread := True, cn_lifecycle_thread := True, cn_started := True\<rparr>,
           cx_sender := SenderWaiting, cx_run := RunningClient\<rparr>, None)
      else
        (s\<lparr>cx_conn := c\<lparr>cn_sender_thread := False, cn_lifecycle_thread := False, cn_started := False\<rparr>\<rparr>,
         Some (RuntimeError ''can't start new thread'')))"

definition on_open :: "(nat \<Rightarrow> bool) \<Rightarrow> exn option \<Rightarrow> connector_system \<Rightarrow> connector_system" where
  "on_open sink close_answer s =
     (let c = cx_conn s in
      if cn_closing c \<or> cn_stop_requested c \<or> cn_terminal c then safe_close sink True close_answer s
      else publish_session_event sink Connected
        (s\<lparr>cx_conn := c\<lparr>cn_connected := True, cn_connect_count := Suc (cn_connect_count c)\<rparr>\<rparr>))"

text \<open>\<open>_on_message\<close>: whether the message is a text, and what the inbound sink returns or raises.\<close>

definition on_message :: "(nat \<Rightarrow> bool) \<Rightarrow> bool \<Rightarrow> exn + bool \<Rightarrow> connector_system \<Rightarrow> connector_system" where
  "on_message sink is_text answer s =
     (let c = cx_conn s in
      if cn_closing c \<or> cn_stop_requested c \<or> \<not> cn_connected c then
        s\<lparr>cx_conn := c\<lparr>cn_inbound_frames_rejected := Suc (cn_inbound_frames_rejected c)\<rparr>\<rparr>
      else
        (let c1 = c\<lparr>cn_inbound_frames_received := Suc (cn_inbound_frames_received c)\<rparr>;
             rejected = c1\<lparr>cn_inbound_frames_rejected := Suc (cn_inbound_frames_rejected c1)\<rparr> in
         if \<not> is_text then
           publish_transport_error sink
             (RuntimeError ''Stream Dock transport supports WebSocket text frames only'')
             (s\<lparr>cx_conn := rejected\<lparr>cn_binary_frames_rejected := Suc (cn_binary_frames_rejected c1)\<rparr>\<rparr>)
         else case answer of
             Inl e \<Rightarrow> publish_transport_error sink e (s\<lparr>cx_conn := rejected\<rparr>)
           | Inr True \<Rightarrow> s\<lparr>cx_conn := c1\<lparr>cn_inbound_frames_forwarded := Suc (cn_inbound_frames_forwarded c1)\<rparr>\<rparr>
           | Inr False \<Rightarrow> s\<lparr>cx_conn := rejected\<rparr>))"

text \<open>
  \<open>_handle_disconnect\<close> up to the discarding: the locked part and both calls of \<open>stop_accepting\<close>. The event is
  published after the discarding, if at all.
\<close>

definition disconnect_begin :: "bool \<Rightarrow> int option \<Rightarrow> string option \<Rightarrow> connector_system \<Rightarrow> connector_system" where
  "disconnect_begin final code reason s =
     (let c = cx_conn s;
          c1 = c\<lparr>cn_connected := False, cn_stop_requested := True\<rparr>;
          c2 = (if cn_disconnected_published c then c1
            else c1\<lparr>cn_disconnected_published := True, cn_disconnect_count := Suc (cn_disconnect_count c1),
                    cn_last_close_code := code\<rparr>) in
      s\<lparr>cx_conn := c2, cx_queue := tq_stop_accepting (cx_queue s),
        cx_run := Disconnecting final
          (if cn_disconnected_published c then None else Some (DisconnectedEvent code reason)) ReadInFlight\<rparr>)"

text \<open>The next segment of that thread outside the client.\<close>

definition run_step :: "(nat \<Rightarrow> bool) \<Rightarrow> connector_system \<Rightarrow> connector_system" where
  "run_step sink s =
     (case cx_run s of
        Disconnecting final event d \<Rightarrow>
          if d = Discarded then s\<lparr>cx_run := PublishingDisconnect final event\<rparr>
          else (case discard_step disconnected_error d s of (s', d') \<Rightarrow> s'\<lparr>cx_run := Disconnecting final event d'\<rparr>)
      | PublishingDisconnect final event \<Rightarrow>
          (case event of None \<Rightarrow> s | Some e \<Rightarrow> publish_session_event sink e s)
            \<lparr>cx_run := (if final then JoiningSender else RunningClient)\<rparr>
      | JoiningSender \<Rightarrow>
          s\<lparr>cx_conn := (cx_conn s)\<lparr>cn_terminal := True, cn_connected := False, cn_stop_requested := True,
              cn_lifecycle_thread := False,
              cn_close_completed := cn_close_completed (cx_conn s) \<or> \<not> cn_closing (cx_conn s)\<rparr>,
            cx_run := RunGone\<rparr>
      | _ \<Rightarrow> s)"

section \<open>The sender\<close>

definition sender_wait :: "connector_system \<Rightarrow> connector_system" where
  "sender_wait s =
     (if cn_connected (cx_conn s) then s\<lparr>cx_sender := SenderReceiving\<rparr>
      else if cn_stop_requested (cx_conn s) \<or> cn_drain_requested (cx_conn s) then s\<lparr>cx_sender := SenderEnding\<rparr>
      else s)"

definition sender_poll :: "bool \<Rightarrow> connector_system \<Rightarrow> connector_system" where
  "sender_poll expired s =
     (let c = cx_conn s;
          drained = (if cn_drain_requested c \<and> \<not> cn_stop_requested c then c\<lparr>cn_outbound_drained := True\<rparr> else c) in
      case tq_receive_attempt expired (cx_queue s) of
        (q, TQReceived f) \<Rightarrow>
          s\<lparr>cx_queue := q, cx_taken := cx_taken s @ [f], cx_sender := SenderTaken f\<rparr>
      | (q, TQWaiting) \<Rightarrow> s
      | (q, TQRaised e) \<Rightarrow>
          s\<lparr>cx_conn := drained, cx_sender :=
            (if e = TimeoutError \<and> \<not> (cn_stop_requested c \<or> cn_drain_requested c) then SenderWaiting
             else SenderEnding)\<rparr>)"

text \<open>Any other exception of the source, or a value that is no frame.\<close>

definition sender_source_failed :: "(nat \<Rightarrow> bool) \<Rightarrow> exn \<Rightarrow> connector_system \<Rightarrow> connector_system" where
  "sender_source_failed sink e s =
     (publish_transport_error sink e s)\<lparr>cx_sender := SenderAborting (RuntimeError ''Raw outbound source failed'')\<rparr>"

definition sender_look :: "nat \<Rightarrow> connector_system \<Rightarrow> connector_system" where
  "sender_look f s =
     (let c = cx_conn s in
      s\<lparr>cx_conn := c\<lparr>cn_outbound_frames_received := Suc (cn_outbound_frames_received c), cn_in_flight := Some f\<rparr>,
        cx_sender := (if cn_connected c \<and> \<not> cn_stop_requested c then SenderChecked f else SenderUnsent f)\<rparr>)"

definition sender_unsent :: "nat \<Rightarrow> connector_system \<Rightarrow> connector_system" where
  "sender_unsent f s = (discard_frame f disconnected_error s)\<lparr>cx_sender := SenderClearing f False\<rparr>"

text \<open>The test of the payload and of the receipt, and the answer of \<open>begin_send\<close>.\<close>

definition sender_begin :: "(nat \<Rightarrow> bool) \<Rightarrow> bool \<Rightarrow> bool \<Rightarrow> nat \<Rightarrow> connector_system \<Rightarrow> connector_system" where
  "sender_begin sink is_text begins f s =
     (if \<not> is_text then
        (publish_transport_error sink (TypeError ''OutboundFrame payload must be a text frame'')
           (fail_frame f (TypeError ''OutboundFrame payload must be a text frame'') s))
          \<lparr>cx_sender := SenderClearing f True\<rparr>
      else if rc_done (cx_receipts s f) then s\<lparr>cx_sender := SenderClearing f True\<rparr>
      else if \<not> begins then s\<lparr>cx_refused := cx_refused s @ [f], cx_sender := SenderClearing f True\<rparr>
      else s\<lparr>cx_sender := SenderSending f\<rparr>)"

text \<open>What the client's \<open>send\<close> does; what is no \<open>Exception\<close> ends the sender.\<close>

definition sender_send :: "(nat \<Rightarrow> bool) \<Rightarrow> exn option \<Rightarrow> nat \<Rightarrow> connector_system \<Rightarrow> connector_system" where
  "sender_send sink failure f s =
     (case failure of
        None \<Rightarrow> s\<lparr>cx_sent := cx_sent s @ [f], cx_sender := SenderSentOk f\<rparr>
      | Some e \<Rightarrow>
          if is_exception e then
            (publish_transport_error sink e (fail_frame f e s))
              \<lparr>cx_sender := SenderAbortClearing f (RuntimeError ''WebSocket send failed'')\<rparr>
          else s\<lparr>cx_sender := SenderEnding\<rparr>)"

definition sender_sent :: "nat \<Rightarrow> connector_system \<Rightarrow> connector_system" where
  "sender_sent f s =
     (case finish_frame f None s of
        (s', mine) \<Rightarrow>
          (if mine then s'\<lparr>cx_conn := (cx_conn s')\<lparr>cn_outbound_frames_sent := Suc (cn_outbound_frames_sent (cx_conn s'))\<rparr>\<rparr>
           else s')\<lparr>cx_sender := SenderClearing f True\<rparr>)"

definition sender_clear :: "nat \<Rightarrow> sender_point \<Rightarrow> connector_system \<Rightarrow> connector_system" where
  "sender_clear f pt s = s\<lparr>cx_conn := clear_in_flight f (cx_conn s), cx_sender := pt\<rparr>"

text \<open>\<open>_abort_transport\<close> up to the discarding.\<close>

definition sender_abort :: "exn \<Rightarrow> connector_system \<Rightarrow> connector_system" where
  "sender_abort e s =
     s\<lparr>cx_conn := (cx_conn s)\<lparr>cn_connected := False, cn_stop_requested := True\<rparr>,
       cx_queue := tq_stop_accepting (cx_queue s), cx_sender := SenderDiscarding e ReadInFlight\<rparr>"

definition sender_exit :: "connector_system \<Rightarrow> connector_system" where
  "sender_exit s = s\<lparr>cx_conn := (cx_conn s)\<lparr>cn_sender_stopped := True\<rparr>, cx_sender := SenderGone\<rparr>"

text \<open>What the calls of the sender answer; the sender reads the part that its next segment needs.\<close>

record sender_answers =
  sa_expired :: bool
  sa_source :: "exn option"
  sa_is_text :: bool
  sa_begins :: bool
  sa_send :: "exn option"
  sa_close :: "exn option"

definition sender_step :: "(nat \<Rightarrow> bool) \<Rightarrow> sender_answers \<Rightarrow> connector_system \<Rightarrow> connector_system" where
  "sender_step sink a s =
     (case cx_sender s of
        SenderWaiting \<Rightarrow> sender_wait s
      | SenderReceiving \<Rightarrow>
          (case sa_source a of None \<Rightarrow> sender_poll (sa_expired a) s | Some e \<Rightarrow> sender_source_failed sink e s)
      | SenderTaken f \<Rightarrow> sender_look f s
      | SenderUnsent f \<Rightarrow> sender_unsent f s
      | SenderChecked f \<Rightarrow> sender_begin sink (sa_is_text a) (sa_begins a) f s
      | SenderSending f \<Rightarrow> sender_send sink (sa_send a) f s
      | SenderSentOk f \<Rightarrow> sender_sent f s
      | SenderClearing f go_on \<Rightarrow> sender_clear f (if go_on then SenderWaiting else SenderEnding) s
      | SenderAbortClearing f e \<Rightarrow> sender_clear f (SenderAborting e) s
      | SenderAborting e \<Rightarrow> sender_abort e s
      | SenderDiscarding e d \<Rightarrow>
          if d = Discarded then (safe_close sink False (sa_close a) s)\<lparr>cx_sender := SenderEnding\<rparr>
          else (case discard_step e d s of (s', d') \<Rightarrow> s'\<lparr>cx_sender := SenderDiscarding e d'\<rparr>)
      | SenderEnding \<Rightarrow> sender_exit s
      | _ \<Rightarrow> s)"

section \<open>Closing\<close>

text \<open>\<open>close\<close> by a caller: the first one owns the shutdown; the flag tells whether it is the sender itself.\<close>

definition close_begin :: "bool \<Rightarrow> connector_system \<Rightarrow> connector_system" where
  "close_begin from_sender s =
     (let c = cx_conn s in
      if cn_close_completed c \<or> cn_closing c then s
      else s\<lparr>cx_conn := c\<lparr>cn_closing := True\<rparr>, cx_close := CloseStopping from_sender\<rparr>)"

definition closed_error :: "string \<Rightarrow> exn" where
  "closed_error message = RuntimeError message"

text \<open>\<open>stop_accepting\<close> and the first locked part of \<open>_close_owned\<close>, with the choice whether to wait.\<close>

definition close_request :: "bool \<Rightarrow> connector_system \<Rightarrow> connector_system" where
  "close_request from_sender s =
     (let c = cx_conn s in
      s\<lparr>cx_queue := tq_stop_accepting (cx_queue s), cx_conn := c\<lparr>cn_drain_requested := True\<rparr>,
        cx_close :=
          (if cn_sender_thread c \<and> \<not> from_sender \<and> cn_connected c then CloseWaiting
           else CloseUndrained False (closed_error
             (if \<not> cn_sender_thread c then ''WebSocket connector closed before outbound sender started''
              else if from_sender then ''WebSocket connector closed from its sender thread''
              else ''WebSocket connector closed before connection; outbound frames could not be sent'')))\<rparr>)"

text \<open>One pass of \<open>_wait_for_outbound_drain\<close>.\<close>

definition close_wait :: "bool \<Rightarrow> connector_system \<Rightarrow> connector_system" where
  "close_wait expired s =
     (let c = cx_conn s in
      if cn_outbound_drained c then s\<lparr>cx_close := ClosingSocket\<rparr>
      else if cn_sender_stopped c then
        s\<lparr>cx_close := CloseUndrained False (closed_error ''WebSocket outbound sender stopped before the queue drained'')\<rparr>
      else if expired then
        s\<lparr>cx_close := CloseUndrained True (closed_error ''WebSocket connector shutdown timed out before outbound drain'')\<rparr>
      else s)"

definition close_undrained :: "bool \<Rightarrow> exn \<Rightarrow> connector_system \<Rightarrow> connector_system" where
  "close_undrained late e s =
     (let c = cx_conn s in
      s\<lparr>cx_conn := c\<lparr>cn_outbound_drain_timeouts := cn_outbound_drain_timeouts c + (if late then 1 else 0),
          cn_stop_requested := True, cn_connected := False\<rparr>,
        cx_close := CloseDiscarding e ReadInFlight\<rparr>)"

definition close_end :: "connector_system \<Rightarrow> connector_system" where
  "close_end s =
     (let c = cx_conn s;
          c1 = (if cn_sender_thread c then c
            else c\<lparr>cn_terminal := True, cn_stop_requested := True, cn_sender_stopped := True\<rparr>) in
      s\<lparr>cx_conn := c1\<lparr>cn_close_completed := True\<rparr>, cx_close := CloseGone\<rparr>)"

definition close_step :: "(nat \<Rightarrow> bool) \<Rightarrow> bool \<Rightarrow> exn option \<Rightarrow> connector_system \<Rightarrow> connector_system" where
  "close_step sink expired close_answer s =
     (case cx_close s of
        CloseStopping from_sender \<Rightarrow> close_request from_sender s
      | CloseWaiting \<Rightarrow> close_wait expired s
      | CloseUndrained late e \<Rightarrow> close_undrained late e s
      | CloseDiscarding e d \<Rightarrow>
          if d = Discarded then s\<lparr>cx_close := ClosingSocket\<rparr>
          else (case discard_step e d s of (s', d') \<Rightarrow> s'\<lparr>cx_close := CloseDiscarding e d'\<rparr>)
      | ClosingSocket \<Rightarrow> (safe_close sink False close_answer s)\<lparr>cx_close := CloseEnding\<rparr>
      | CloseEnding \<Rightarrow> close_end s
      | _ \<Rightarrow> s)"

text \<open>\<open>_abort_deadline_send\<close>, with the answer of the socket's \<open>abort\<close>.\<close>

definition abort_deadline_send :: "(nat \<Rightarrow> bool) \<Rightarrow> nat \<Rightarrow> exn option \<Rightarrow> connector_system \<Rightarrow> connector_system" where
  "abort_deadline_send sink f answer s =
     (let c = cx_conn s in
      if cn_in_flight c \<noteq> Some f then s
      else
        (let s1 = s\<lparr>cx_conn := c\<lparr>cn_connected := False, cn_stop_requested := True\<rparr>\<rparr> in
         case answer of None \<Rightarrow> s1 | Some e \<Rightarrow> publish_transport_error sink e s1))"

section \<open>Histories\<close>

datatype connector_op =
    RunForever bool
  | ClientOpens "exn option"
  | ClientMessage bool "exn + bool"
  | ClientError exn
  | ClientCloses "int option" "string option"
  | ClientReturns "exn option"
  | RunStep
  | SenderStep sender_answers
  | CallClose bool
  | CloseStep bool "exn option"
  | DeadlineAbort nat "exn option"
  | OfferFrame nat nat
  | FrameFails nat exn
  | DropSettled nat

text \<open>
  The client calls back while it runs. A frame is offered to the queue once; whoever settles a receipt from
  outside (the writer, for a command that is cancelled, expired or refused) does it with an error, and the queue drops
  a frame whose receipt is settled.
\<close>

fun connector_step :: "(nat \<Rightarrow> bool) \<Rightarrow> connector_op \<Rightarrow> connector_system \<Rightarrow> connector_system" where
  "connector_step sink (RunForever thread_starts) s = fst (run_begin thread_starts s)"
| "connector_step sink (ClientOpens close_answer) s =
     (if cx_run s = RunningClient then on_open sink close_answer s else s)"
| "connector_step sink (ClientMessage is_text answer) s =
     (if cx_run s = RunningClient then on_message sink is_text answer s else s)"
| "connector_step sink (ClientError e) s =
     (if cx_run s = RunningClient then publish_transport_error sink e s else s)"
| "connector_step sink (ClientCloses code reason) s =
     (if cx_run s = RunningClient then disconnect_begin False code reason s else s)"
| "connector_step sink (ClientReturns failure) s =
     (if cx_run s \<noteq> RunningClient then s
      else disconnect_begin True None None
        (case failure of
           None \<Rightarrow> s
         | Some e \<Rightarrow> if is_exception e then publish_transport_error sink e s else s))"
| "connector_step sink RunStep s = run_step sink s"
| "connector_step sink (SenderStep answers) s = sender_step sink answers s"
| "connector_step sink (CallClose from_sender) s = close_begin from_sender s"
| "connector_step sink (CloseStep expired close_answer) s = close_step sink expired close_answer s"
| "connector_step sink (DeadlineAbort f answer) s = abort_deadline_send sink f answer s"
| "connector_step sink (OfferFrame f sz) s =
     (if f \<in> set (cx_accepted s) then s
      else case tq_submit_begin f sz False True (cx_queue s) of
        (q, Submitted True, _) \<Rightarrow> s\<lparr>cx_queue := q, cx_accepted := cx_accepted s @ [f]\<rparr>
      | (q, _, _) \<Rightarrow> s\<lparr>cx_queue := q\<rparr>)"
| "connector_step sink (FrameFails f e) s = fst (finish_frame f (Some e) s)"
| "connector_step sink (DropSettled f) s =
     (if rc_done (cx_receipts s f) then s\<lparr>cx_queue := tq_discard f (cx_queue s)\<rparr> else s)"

definition connector_initial :: "connector \<Rightarrow> nat transport_queue \<Rightarrow> connector_system" where
  "connector_initial c q =
     \<lparr>cx_conn = c, cx_queue = q, cx_receipts = (\<lambda>_. new_receipt), cx_sender = NoSender, cx_run = NoRun,
      cx_close = NoClose, cx_accepted = [], cx_taken = [], cx_sent = [], cx_refused = [], cx_events = []\<rparr>"

abbreviation connector_run ::
    "(nat \<Rightarrow> bool) \<Rightarrow> connector \<Rightarrow> nat transport_queue \<Rightarrow> connector_op list \<Rightarrow> connector_system" where
  "connector_run sink c q ops \<equiv> fold (connector_step sink) ops (connector_initial c q)"


section \<open>What the segments touch\<close>

definition frame_done :: "connector_system \<Rightarrow> nat \<Rightarrow> bool" where
  "frame_done s f = rc_done (cx_receipts s f)"

definition frame_won :: "connector_system \<Rightarrow> nat \<Rightarrow> bool" where
  "frame_won s f \<longleftrightarrow> rc_done (cx_receipts s f) \<and> rc_error (cx_receipts s f) = None"

text \<open>All but the counters and the flags that no other thread reads.\<close>

definition same_frames :: "connector_system \<Rightarrow> connector_system \<Rightarrow> bool" where
  "same_frames s t \<longleftrightarrow>
     cx_queue t = cx_queue s \<and> cx_sender t = cx_sender s \<and> cx_run t = cx_run s \<and> cx_close t = cx_close s \<and>
     cx_accepted t = cx_accepted s \<and> cx_taken t = cx_taken s \<and> cx_sent t = cx_sent s \<and>
     cx_refused t = cx_refused s \<and> cn_in_flight (cx_conn t) = cn_in_flight (cx_conn s) \<and>
     cn_started (cx_conn t) = cn_started (cx_conn s) \<and>
     (cn_closing (cx_conn s) \<longrightarrow> cn_closing (cx_conn t)) \<and>
     (cn_stop_requested (cx_conn s) \<longrightarrow> cn_stop_requested (cx_conn t))"

fun is_disconnected :: "session_event \<Rightarrow> bool" where
  "is_disconnected (DisconnectedEvent code reason) = True"
| "is_disconnected _ = False"

definition same_events :: "connector_system \<Rightarrow> connector_system \<Rightarrow> bool" where
  "same_events s t \<longleftrightarrow> filter is_disconnected (cx_events t) = filter is_disconnected (cx_events s) \<and>
     cn_disconnected_published (cx_conn t) = cn_disconnected_published (cx_conn s)"


lemma publish_error_same [simp]:
  "same_frames s (publish_transport_error sink e s)" "same_events s (publish_transport_error sink e s)"
  "cx_receipts (publish_transport_error sink e s) = cx_receipts s"
  by (simp_all add: same_frames_def same_events_def publish_transport_error_def publish_session_event_def Let_def)

lemma safe_close_same [simp]:
  "same_frames s (safe_close sink force answer s)" "same_events s (safe_close sink force answer s)"
  "cx_receipts (safe_close sink force answer s) = cx_receipts s"
  by (auto simp: same_frames_def same_events_def safe_close_def publish_transport_error_def publish_session_event_def
      Let_def split: option.split)

lemma discard_frame_same [simp]:
  "same_frames s (discard_frame f e s)" "same_events s (discard_frame f e s)"
  by (simp_all add: same_frames_def same_events_def discard_frame_def finish_frame_def receipt_finish_def)

lemma fail_frame_same [simp]:
  "same_frames s (fail_frame f e s)" "same_events s (fail_frame f e s)"
  by (simp_all add: same_frames_def same_events_def fail_frame_def finish_frame_def receipt_finish_def)

lemma finish_frame_same [simp]:
  "same_frames s (fst (finish_frame f err s))" "cx_events (fst (finish_frame f err s)) = cx_events s"
  "cx_conn (fst (finish_frame f err s)) = cx_conn s"
  by (simp_all add: same_frames_def finish_frame_def receipt_finish_def)

lemma frame_done_after [simp]:
  "frame_done (fst (finish_frame f err s)) g \<longleftrightarrow> frame_done s g \<or> g = f"
  "frame_done (discard_frame f e s) g \<longleftrightarrow> frame_done s g \<or> g = f"
  "frame_done (fail_frame f e s) g \<longleftrightarrow> frame_done s g \<or> g = f"
  by (auto simp: frame_done_def discard_frame_def fail_frame_def finish_frame_def receipt_finish_def)

lemma frame_won_after [simp]:
  "frame_won (fst (finish_frame f (Some e) s)) g \<longleftrightarrow> frame_won s g"
  "frame_won (discard_frame f e s) g \<longleftrightarrow> frame_won s g"
  "frame_won (fail_frame f e s) g \<longleftrightarrow> frame_won s g"
  "frame_won (fst (finish_frame f None s)) g \<Longrightarrow> frame_won s g \<or> g = f"
  by (auto simp: frame_won_def discard_frame_def fail_frame_def finish_frame_def receipt_finish_def split: if_splits)

lemma frame_updates [simp]:
  "frame_done (s\<lparr>cx_sender := a\<rparr>) = frame_done s" "frame_won (s\<lparr>cx_sender := a\<rparr>) = frame_won s"
  "frame_done (s\<lparr>cx_run := b\<rparr>) = frame_done s" "frame_won (s\<lparr>cx_run := b\<rparr>) = frame_won s"
  "frame_done (s\<lparr>cx_close := d\<rparr>) = frame_done s" "frame_won (s\<lparr>cx_close := d\<rparr>) = frame_won s"
  "frame_done (s\<lparr>cx_conn := c\<rparr>) = frame_done s" "frame_won (s\<lparr>cx_conn := c\<rparr>) = frame_won s"
  "frame_done (s\<lparr>cx_queue := q\<rparr>) = frame_done s" "frame_won (s\<lparr>cx_queue := q\<rparr>) = frame_won s"
  "frame_done (s\<lparr>cx_accepted := l\<rparr>) = frame_done s" "frame_won (s\<lparr>cx_accepted := l\<rparr>) = frame_won s"
  "frame_done (s\<lparr>cx_taken := l\<rparr>) = frame_done s" "frame_won (s\<lparr>cx_taken := l\<rparr>) = frame_won s"
  "frame_done (s\<lparr>cx_sent := l\<rparr>) = frame_done s" "frame_won (s\<lparr>cx_sent := l\<rparr>) = frame_won s"
  "frame_done (s\<lparr>cx_refused := l\<rparr>) = frame_done s" "frame_won (s\<lparr>cx_refused := l\<rparr>) = frame_won s"
  by (rule ext; simp add: frame_done_def frame_won_def)+

section \<open>Invariant\<close>

definition resolved :: "connector_system \<Rightarrow> nat \<Rightarrow> bool" where
  "resolved s f \<longleftrightarrow> frame_done s f \<or> f \<in> set (cx_refused s)"

definition queued_frames :: "connector_system \<Rightarrow> nat list" where
  "queued_frames s = map fst (tq_queue (cx_queue s))"

text \<open>A thread that discards has taken the frame from the queue and is about to settle it.\<close>

definition discarding :: "connector_system \<Rightarrow> nat \<Rightarrow> bool" where
  "discarding s f \<longleftrightarrow>
     (\<exists>e. cx_sender s = SenderDiscarding e (SettleQueued f)) \<or>
     (\<exists>final event. cx_run s = Disconnecting final event (SettleQueued f)) \<or>
     (\<exists>e. cx_close s = CloseDiscarding e (SettleQueued f))"

definition placed :: "connector_system \<Rightarrow> nat \<Rightarrow> bool" where
  "placed s f \<longleftrightarrow> f \<in> set (queued_frames s) \<or> resolved s f \<or> cx_sender s = SenderTaken f \<or> discarding s f \<or>
     cn_in_flight (cx_conn s) = Some f"

text \<open>The frame that the sender has in hand is in flight, and resolved when the sender is about to forget it.\<close>

definition flight_point_ok :: "connector_system \<Rightarrow> bool" where
  "flight_point_ok s \<longleftrightarrow> (let flying = cn_in_flight (cx_conn s) in
     case cx_sender s of
       NoSender \<Rightarrow> flying = None
     | SenderWaiting \<Rightarrow> flying = None
     | SenderReceiving \<Rightarrow> flying = None
     | SenderTaken f \<Rightarrow> flying = None
     | SenderUnsent f \<Rightarrow> flying = Some f
     | SenderChecked f \<Rightarrow> flying = Some f
     | SenderSending f \<Rightarrow> flying = Some f
     | SenderSentOk f \<Rightarrow> flying = Some f \<and> f \<in> set (cx_sent s)
     | SenderClearing f go_on \<Rightarrow> flying = Some f \<and> resolved s f
     | SenderAbortClearing f e \<Rightarrow> flying = Some f \<and> resolved s f
     | SenderAborting e \<Rightarrow> flying = None
     | SenderDiscarding e d \<Rightarrow> flying = None
     | _ \<Rightarrow> True)"

text \<open>What the thread of the client has achieved by its point: how far the disconnection has come.\<close>

definition flight_settled :: "connector_system \<Rightarrow> nat set \<Rightarrow> bool" where
  "flight_settled s except \<longleftrightarrow>
     (\<forall>f. cn_in_flight (cx_conn s) = Some f \<longrightarrow> f \<in> except \<or> resolved s f \<or> cx_sender s = SenderUnsent f)"

fun disconnecting :: "run_point \<Rightarrow> bool" where
  "disconnecting NoRun = False"
| "disconnecting RunningClient = False"
| "disconnecting _ = True"

definition stage_ok :: "connector_system \<Rightarrow> bool" where
  "stage_ok s \<longleftrightarrow>
     (disconnecting (cx_run s) \<longrightarrow> cn_stop_requested (cx_conn s) \<and> \<not> tq_accepting (cx_queue s)) \<and>
     (case cx_run s of
        Disconnecting final event d \<Rightarrow>
          (case d of
             ReadInFlight \<Rightarrow> True
           | SettleInFlight f \<Rightarrow> flight_settled s {f}
           | TakeQueued \<Rightarrow> flight_settled s {}
           | SettleQueued f \<Rightarrow> flight_settled s {}
           | Discarded \<Rightarrow> flight_settled s {} \<and> queued_frames s = [])
      | PublishingDisconnect final event \<Rightarrow> flight_settled s {} \<and> queued_frames s = []
      | JoiningSender \<Rightarrow> flight_settled s {} \<and> queued_frames s = []
      | RunGone \<Rightarrow> flight_settled s {} \<and> queued_frames s = []
      | _ \<Rightarrow> True)"

definition started_ok :: "connector_system \<Rightarrow> bool" where
  "started_ok s \<longleftrightarrow> (cn_started (cx_conn s) \<longleftrightarrow> cx_run s \<noteq> NoRun) \<and> (cx_run s = NoRun \<longleftrightarrow> cx_sender s = NoSender) \<and>
     (cx_close s \<noteq> NoClose \<longrightarrow> cn_closing (cx_conn s))"

text \<open>The sender sends in the order of acceptance.\<close>

fun to_be_sent :: "sender_point \<Rightarrow> nat list" where
  "to_be_sent (SenderTaken f) = [f]"
| "to_be_sent (SenderUnsent f) = [f]"
| "to_be_sent (SenderChecked f) = [f]"
| "to_be_sent (SenderSending f) = [f]"
| "to_be_sent _ = []"

definition wire_order_ok :: "connector_system \<Rightarrow> bool" where
  "wire_order_ok s \<longleftrightarrow>
     subseq (cx_taken s @ queued_frames s) (cx_accepted s) \<and>
     subseq (cx_sent s @ to_be_sent (cx_sender s)) (cx_taken s)"

definition won_ok :: "connector_system \<Rightarrow> bool" where
  "won_ok s \<longleftrightarrow> (\<forall>f. frame_won s f \<longrightarrow> f \<in> set (cx_sent s))"

definition frames_ok :: "connector_system \<Rightarrow> bool" where
  "frames_ok s \<longleftrightarrow> (\<forall>f \<in> set (cx_accepted s). placed s f) \<and> flight_point_ok s \<and> stage_ok s \<and> started_ok s \<and>
     wire_order_ok s \<and> won_ok s"

text \<open>What keeps the invariant: changes that settle more receipts and request more stops, the frames staying where they are.\<close>

lemma same_frames_ok:
  assumes same: "same_frames s t" and more_done: "\<And>f. frame_done s f \<Longrightarrow> frame_done t f"
    and won: "\<And>f. frame_won t f \<Longrightarrow> frame_won s f \<or> f \<in> set (cx_sent s)"
    and ok: "frames_ok s"
  shows "frames_ok t"
proof -
  have eqs: "cx_queue t = cx_queue s" "cx_sender t = cx_sender s" "cx_run t = cx_run s" "cx_close t = cx_close s"
    "cx_accepted t = cx_accepted s" "cx_taken t = cx_taken s" "cx_sent t = cx_sent s" "cx_refused t = cx_refused s"
    "cn_in_flight (cx_conn t) = cn_in_flight (cx_conn s)" "cn_started (cx_conn t) = cn_started (cx_conn s)"
    and stop: "cn_stop_requested (cx_conn s) \<Longrightarrow> cn_stop_requested (cx_conn t)"
    and closing: "cn_closing (cx_conn s) \<Longrightarrow> cn_closing (cx_conn t)"
    using same by (simp_all add: same_frames_def)
  have res: "resolved s f \<Longrightarrow> resolved t f" for f using more_done eqs by (auto simp: resolved_def)
  have queued: "queued_frames t = queued_frames s" by (simp add: queued_frames_def eqs)
  have settled_flight: "flight_settled s X \<Longrightarrow> flight_settled t X" for X
    using res by (auto simp: flight_settled_def eqs)
  have "\<forall>f \<in> set (cx_accepted t). placed t f"
    using ok res by (auto simp: frames_ok_def placed_def discarding_def eqs queued)
  moreover have "flight_point_ok t"
    using ok res by (cases "cx_sender s") (auto simp: frames_ok_def flight_point_ok_def eqs Let_def)
  moreover have "stage_ok t"
    using ok settled_flight stop unfolding frames_ok_def stage_ok_def eqs queued
    by (auto split: run_point.splits discard.splits)
  moreover have "started_ok t" "wire_order_ok t"
    using ok closing by (auto simp: frames_ok_def started_ok_def wire_order_ok_def eqs queued)
  moreover have "won_ok t" using ok won by (auto simp: frames_ok_def won_ok_def eqs)
  ultimately show ?thesis by (simp add: frames_ok_def)
qed


text \<open>A thread moves to another point.\<close>

lemma subseq_front: "subseq (xs @ ys) zs \<Longrightarrow> subseq xs zs"
  by (rule subseq_order.trans [OF subseq_rev_drop_many [OF subseq_order.refl]])

lemma subseq_tail: "subseq xs (x # xs)"
  using subseq_drop_many [of xs xs "[x]"] by simp

lemma subseq_of_none: "subseq xs [] \<Longrightarrow> xs = []"
  using list_emb_length [of "(=)" xs "[]"] by simp

lemma frames_okD:
  assumes "frames_ok s"
  shows "f \<in> set (cx_accepted s) \<Longrightarrow> placed s f" "flight_point_ok s" "stage_ok s" "started_ok s" "wire_order_ok s" "won_ok s"
  using assms by (simp_all add: frames_ok_def)

lemma sender_moves:
  assumes ok: "frames_ok s" and pts: "cx_sender s \<noteq> NoSender" "pt \<noteq> NoSender"
    and flight: "flight_point_ok (s\<lparr>cx_sender := pt\<rparr>)"
    and taken: "\<forall>f. cx_sender s = SenderTaken f \<longrightarrow> placed (s\<lparr>cx_sender := pt\<rparr>) f"
    and discs: "\<forall>e f. cx_sender s = SenderDiscarding e (SettleQueued f) \<longrightarrow> resolved s f"
    and unsent: "\<forall>f. cx_sender s = SenderUnsent f \<longrightarrow> resolved s f"
    and hand: "to_be_sent pt = [] \<or> to_be_sent pt = to_be_sent (cx_sender s)"
  shows "frames_ok (s\<lparr>cx_sender := pt\<rparr>)"
proof -
  let ?t = "s\<lparr>cx_sender := pt\<rparr>"
  have "placed ?t f" if "f \<in> set (cx_accepted s)" for f
    using frames_okD(1) [OF ok that] taken discs
    by (auto simp: placed_def discarding_def queued_frames_def resolved_def)
  moreover have "flight_settled s X \<Longrightarrow> flight_settled ?t X" for X
    using unsent by (auto simp: flight_settled_def resolved_def)
  then have "stage_ok ?t" using frames_okD(3) [OF ok]
    by (auto simp: stage_ok_def queued_frames_def split: run_point.splits discard.splits)
  moreover have "started_ok ?t" using frames_okD(4) [OF ok] pts by (simp add: started_ok_def)
  moreover have "wire_order_ok ?t"
    using frames_okD(5) [OF ok] hand unfolding wire_order_ok_def queued_frames_def
    by (auto dest: subseq_front)
  moreover have "won_ok ?t" using frames_okD(6) [OF ok] by (simp add: won_ok_def)
  ultimately show ?thesis using flight by (simp add: frames_ok_def)
qed

lemma close_moves:
  assumes ok: "frames_ok s" and began: "cx_close s \<noteq> NoClose \<or> cn_closing (cx_conn s)"
    and discs: "\<forall>e f. cx_close s = CloseDiscarding e (SettleQueued f) \<longrightarrow> resolved s f"
  shows "frames_ok (s\<lparr>cx_close := pt\<rparr>)"
proof -
  let ?t = "s\<lparr>cx_close := pt\<rparr>"
  have "placed ?t f" if "f \<in> set (cx_accepted s)" for f
    using frames_okD(1) [OF ok that] discs by (auto simp: placed_def discarding_def queued_frames_def resolved_def)
  moreover have "flight_point_ok ?t" using frames_okD(2) [OF ok]
    by (auto simp: flight_point_ok_def resolved_def Let_def split: sender_point.splits)
  moreover have "flight_settled s X \<Longrightarrow> flight_settled ?t X" for X by (auto simp: flight_settled_def resolved_def)
  then have "stage_ok ?t" using frames_okD(3) [OF ok]
    by (auto simp: stage_ok_def queued_frames_def split: run_point.splits discard.splits)
  moreover have "started_ok ?t" using frames_okD(4) [OF ok] began by (auto simp: started_ok_def)
  ultimately show ?thesis using ok by (simp add: frames_ok_def wire_order_ok_def won_ok_def queued_frames_def)
qed

lemma run_moves:
  assumes ok: "frames_ok s" and pts: "cx_run s \<noteq> NoRun" "pt \<noteq> NoRun"
    and discs: "\<forall>a b f. cx_run s = Disconnecting a b (SettleQueued f) \<longrightarrow> resolved s f"
    and stage: "stage_ok (s\<lparr>cx_run := pt\<rparr>)"
  shows "frames_ok (s\<lparr>cx_run := pt\<rparr>)"
proof -
  let ?t = "s\<lparr>cx_run := pt\<rparr>"
  have "placed ?t f" if "f \<in> set (cx_accepted s)" for f
    using frames_okD(1) [OF ok that] discs by (auto simp: placed_def discarding_def queued_frames_def resolved_def)
  moreover have "flight_point_ok ?t" using frames_okD(2) [OF ok]
    by (auto simp: flight_point_ok_def resolved_def Let_def split: sender_point.splits)
  ultimately show ?thesis using ok stage pts
    by (simp add: frames_ok_def started_ok_def wire_order_ok_def won_ok_def queued_frames_def)
qed

text \<open>The queue loses a frame that is resolved, stops accepting, or gains a new frame.\<close>

lemma queue_shrinks:
  assumes ok: "frames_ok s" and kept: "\<forall>f \<in> set (queued_frames s). f \<in> set (map fst (tq_queue q)) \<or> placed (s\<lparr>cx_queue := q\<rparr>) f"
    and sub: "subseq (map fst (tq_queue q)) (queued_frames s)" and acc: "tq_accepting q \<longrightarrow> tq_accepting (cx_queue s)"
  shows "frames_ok (s\<lparr>cx_queue := q\<rparr>)"
proof -
  let ?t = "s\<lparr>cx_queue := q\<rparr>"
  have "placed ?t f" if "f \<in> set (cx_accepted s)" for f
    using frames_okD(1) [OF ok that] kept
    by (auto simp: placed_def [of s] placed_def [of ?t] discarding_def queued_frames_def resolved_def)
  moreover have "flight_point_ok ?t" using frames_okD(2) [OF ok]
    by (auto simp: flight_point_ok_def resolved_def Let_def split: sender_point.splits)
  moreover have "queued_frames s = [] \<Longrightarrow> queued_frames ?t = []" using sub subseq_of_none [of "map fst (tq_queue q)"]
    by (simp add: queued_frames_def)
  moreover have "flight_settled s X \<Longrightarrow> flight_settled ?t X" for X by (auto simp: flight_settled_def resolved_def)
  ultimately have "stage_ok ?t" using frames_okD(3) [OF ok] acc
    by (auto simp: stage_ok_def split: run_point.splits discard.splits)
  moreover have "subseq (cx_taken s @ map fst (tq_queue q)) (cx_taken s @ queued_frames s)"
    using sub by (simp add: subseq_append')
  then have "wire_order_ok ?t" using frames_okD(5) [OF ok]
    by (auto simp: wire_order_ok_def queued_frames_def elim: subseq_order.trans)
  ultimately show ?thesis using ok \<open>flight_point_ok ?t\<close> \<open>\<And>f. f \<in> set (cx_accepted s) \<Longrightarrow> placed ?t f\<close>
    by (simp add: frames_ok_def started_ok_def won_ok_def)
qed

lemma stop_accepting_ok: "frames_ok s \<Longrightarrow> frames_ok (s\<lparr>cx_queue := tq_stop_accepting (cx_queue s)\<rparr>)"
  by (rule queue_shrinks) (simp_all add: tq_stop_accepting_def queued_frames_def)

lemma queue_grows:
  assumes ok: "frames_ok s" and acc: "tq_accepting (cx_queue s)" "tq_accepting q"
    and new: "map fst (tq_queue q) = queued_frames s @ [f]"
  shows "frames_ok (s\<lparr>cx_queue := q, cx_accepted := cx_accepted s @ [f]\<rparr>)"
proof -
  let ?t = "s\<lparr>cx_queue := q, cx_accepted := cx_accepted s @ [f]\<rparr>"
  have queued: "queued_frames ?t = queued_frames s @ [f]" using new by (simp add: queued_frames_def)
  have "\<forall>g \<in> set (cx_accepted ?t). placed ?t g"
    using frames_okD(1) [OF ok] queued by (auto simp: placed_def discarding_def resolved_def)
  moreover have "flight_point_ok ?t" using frames_okD(2) [OF ok]
    by (auto simp: flight_point_ok_def resolved_def Let_def split: sender_point.splits)
  moreover have "stage_ok ?t" using frames_okD(3) [OF ok] acc
    by (cases "cx_run s") (simp_all add: stage_ok_def)
  moreover have "wire_order_ok ?t" using frames_okD(5) [OF ok] queued
    unfolding wire_order_ok_def queued by (simp add: append_assoc [symmetric] del: append_assoc)
  ultimately show ?thesis using ok by (simp add: frames_ok_def started_ok_def won_ok_def)
qed


section \<open>Every step keeps the invariant\<close>

lemma frames_in_point:
  "frames_ok s \<Longrightarrow> cx_sender s \<noteq> NoSender \<Longrightarrow> flight_point_ok (s\<lparr>cx_sender := pt\<rparr>) \<Longrightarrow> to_be_sent pt = [] \<Longrightarrow>
   pt \<noteq> NoSender \<Longrightarrow> to_be_sent (cx_sender s) = [] \<Longrightarrow> \<forall>e f. cx_sender s \<noteq> SenderDiscarding e (SettleQueued f) \<Longrightarrow>
   frames_ok (s\<lparr>cx_sender := pt\<rparr>)"
  by (rule sender_moves) auto

lemma publish_error_ok: "frames_ok s \<Longrightarrow> frames_ok (publish_transport_error sink e s)"
  by (rule same_frames_ok [where s = s]) (simp_all add: frame_done_def frame_won_def)

lemma safe_close_ok: "frames_ok s \<Longrightarrow> frames_ok (safe_close sink force answer s)"
  by (rule same_frames_ok [where s = s]) (simp_all add: frame_done_def frame_won_def)

lemma discard_frame_ok: "frames_ok s \<Longrightarrow> frames_ok (discard_frame f e s)"
  by (rule same_frames_ok [where s = s]) simp_all

lemma fail_frame_ok: "frames_ok s \<Longrightarrow> frames_ok (fail_frame f e s)"
  by (rule same_frames_ok [where s = s]) simp_all

text \<open>A change of the connector's flags that requests no less stops.\<close>

definition same_flags :: "connector \<Rightarrow> connector \<Rightarrow> bool" where
  "same_flags c d \<longleftrightarrow> cn_in_flight d = cn_in_flight c \<and> cn_started d = cn_started c \<and> (cn_closing c \<longrightarrow> cn_closing d) \<and> (cn_stop_requested c \<longrightarrow> cn_stop_requested d)"

lemma flags_ok: "frames_ok s \<Longrightarrow> same_flags (cx_conn s) c \<Longrightarrow> frames_ok (s\<lparr>cx_conn := c\<rparr>)"
  by (rule same_frames_ok [where s = s]) (simp_all add: same_frames_def same_flags_def)

lemma receive_shrinks:
  assumes "tq_receive_attempt x q = (q', st)"
  shows "st = TQReceived f \<Longrightarrow> map fst (tq_queue q) = f # map fst (tq_queue q') \<and> tq_accepting q' = tq_accepting q"
    and "st = TQRaised e \<Longrightarrow> q' = q \<and> tq_queue q = []"
    and "st = TQWaiting \<Longrightarrow> q' = q \<and> tq_queue q = [] \<and> \<not> x"
  using assms by (auto simp: tq_receive_attempt_def split: list.splits if_splits)

text \<open>The segments of the discarding, for each of the three threads.\<close>

lemma discard_points:
  assumes "discard_step e d s = (t, d')"
  shows "cx_sender t = cx_sender s" "cx_run t = cx_run s" "cx_close t = cx_close s"
  using assms discard_frame_same(1) [of s _ e]
  by (auto simp: discard_step_def same_frames_def split: discard.splits prod.splits tq_receive_status.splits)

lemma sender_source_taken:
  assumes ok: "frames_ok s" and pt: "cx_sender s = SenderReceiving"
    and rec: "tq_receive_attempt x (cx_queue s) = (q, TQReceived f)"
  shows "frames_ok (s\<lparr>cx_queue := q, cx_taken := cx_taken s @ [f], cx_sender := SenderTaken f\<rparr>)"
proof -
  let ?t = "s\<lparr>cx_queue := q, cx_taken := cx_taken s @ [f], cx_sender := SenderTaken f\<rparr>"
  have q: "queued_frames s = f # queued_frames ?t" "tq_accepting q = tq_accepting (cx_queue s)"
    using receive_shrinks(1) [OF rec, of f] by (simp_all add: queued_frames_def)
  have "placed ?t g" if "g \<in> set (cx_accepted s)" for g
    using frames_okD(1) [OF ok that] q(1) pt by (auto simp: placed_def discarding_def resolved_def)
  moreover have "flight_point_ok ?t" using frames_okD(2) [OF ok] pt by (simp add: flight_point_ok_def)
  moreover have "stage_ok ?t" using frames_okD(3) [OF ok] q pt
    by (auto simp: stage_ok_def flight_settled_def resolved_def split: run_point.splits discard.splits)
  moreover have "started_ok ?t" using frames_okD(4) [OF ok] pt by (simp add: started_ok_def)
  moreover have "wire_order_ok ?t"
    using frames_okD(5) [OF ok] pt q(1) by (simp add: wire_order_ok_def)
  moreover have "won_ok ?t" using frames_okD(6) [OF ok] by (simp add: won_ok_def)
  ultimately show ?thesis by (simp add: frames_ok_def)
qed

lemma sender_look_ok:
  assumes ok: "frames_ok s" and pt: "cx_sender s = SenderTaken f"
  shows "frames_ok (sender_look f s)"
proof -
  let ?c = "cx_conn s"
  let ?pt = "if cn_connected ?c \<and> \<not> cn_stop_requested ?c then SenderChecked f else SenderUnsent f"
  let ?t = "sender_look f s"
  have look: "?t = s\<lparr>cx_conn := ?c\<lparr>cn_outbound_frames_received := Suc (cn_outbound_frames_received ?c),
      cn_in_flight := Some f\<rparr>, cx_sender := ?pt\<rparr>"
    by (simp add: sender_look_def Let_def)
  have none: "cn_in_flight ?c = None" using frames_okD(2) [OF ok] pt by (simp add: flight_point_ok_def)
  have "placed ?t g" if "g \<in> set (cx_accepted s)" for g
    using frames_okD(1) [OF ok that] pt none unfolding look
    by (auto simp: placed_def discarding_def resolved_def queued_frames_def)
  moreover have "flight_point_ok ?t" unfolding look by (simp add: flight_point_ok_def)
  moreover have "stage_ok ?t" using frames_okD(3) [OF ok] unfolding look
    by (auto simp: stage_ok_def flight_settled_def resolved_def queued_frames_def split: run_point.splits discard.splits)
  moreover have "started_ok ?t" using frames_okD(4) [OF ok] pt unfolding look by (simp add: started_ok_def)
  moreover have "wire_order_ok ?t" using frames_okD(5) [OF ok] pt unfolding look
    by (simp add: wire_order_ok_def queued_frames_def)
  moreover have "won_ok ?t" using frames_okD(6) [OF ok] unfolding look by (simp add: won_ok_def)
  moreover have "cx_accepted ?t = cx_accepted s" unfolding look by simp
  ultimately show ?thesis by (simp add: frames_ok_def)
qed

lemma sender_at:
  assumes "same_frames s t"
  shows "cx_sender t = cx_sender s" "cn_in_flight (cx_conn t) = cn_in_flight (cx_conn s)"
    "cx_refused t = cx_refused s" "cx_sent t = cx_sent s"
  using assms by (simp_all add: same_frames_def)

lemma in_flight_point:
  "frames_ok s \<Longrightarrow> cx_sender s \<in> {SenderUnsent f, SenderChecked f, SenderSending f, SenderSentOk f} \<Longrightarrow>
   cn_in_flight (cx_conn s) = Some f"
  by (auto simp: frames_ok_def flight_point_ok_def)

lemma settled_moves:
  assumes ok: "frames_ok s" and same: "same_frames s t" and t: "frames_ok t" and f: "frame_done t f"
    and pt: "cx_sender s \<in> {SenderUnsent f, SenderChecked f, SenderSending f, SenderSentOk f}"
  shows "frames_ok (t\<lparr>cx_sender := SenderClearing f go_on\<rparr>)" "frames_ok (t\<lparr>cx_sender := SenderAbortClearing f e\<rparr>)"
proof -
  have "cx_sender t = cx_sender s" "cn_in_flight (cx_conn t) = Some f"
    using sender_at [OF same] in_flight_point [OF ok pt] by simp_all
  then show "frames_ok (t\<lparr>cx_sender := SenderClearing f go_on\<rparr>)" "frames_ok (t\<lparr>cx_sender := SenderAbortClearing f e\<rparr>)"
    using pt f by (intro sender_moves [OF t]; auto simp: flight_point_ok_def resolved_def)+
qed

lemma same_frames_trans: "same_frames s t \<Longrightarrow> same_frames t u \<Longrightarrow> same_frames s u"
  by (simp add: same_frames_def)

lemma same_frames_refl [simp]: "same_frames s s"
  by (simp add: same_frames_def)

lemma publish_done [simp]: "frame_done (publish_transport_error sink e s) = frame_done s"
  by (rule ext) (simp add: frame_done_def)

lemma sender_unsent_ok:
  assumes ok: "frames_ok s" and pt: "cx_sender s = SenderUnsent f"
  shows "frames_ok (sender_unsent f s)"
  unfolding sender_unsent_def
  by (rule settled_moves(1) [OF ok discard_frame_same(1) discard_frame_ok [OF ok]]) (simp_all add: pt)

lemma sender_begin_ok:
  assumes ok: "frames_ok s" and pt: "cx_sender s = SenderChecked f"
  shows "frames_ok (sender_begin sink is_text begins f s)"
proof -
  have one: "frames_ok ((publish_transport_error sink e (fail_frame f e s))\<lparr>cx_sender := SenderClearing f True\<rparr>)" for e
    by (rule settled_moves(1) [OF ok same_frames_trans [OF fail_frame_same(1) publish_error_same(1)]
        publish_error_ok [OF fail_frame_ok [OF ok]]]) (simp_all add: pt)
  have two: "frames_ok (s\<lparr>cx_sender := SenderClearing f True\<rparr>)" if "rc_done (cx_receipts s f)"
    by (rule settled_moves(1) [OF ok same_frames_refl ok]) (use that pt in \<open>simp_all add: frame_done_def\<close>)
  have flying: "cn_in_flight (cx_conn s) = Some f" using in_flight_point [OF ok] pt by simp
  have three: "frames_ok (s\<lparr>cx_sender := SenderSending f\<rparr>)"
    using pt flying by (intro sender_moves [OF ok]) (auto simp: flight_point_ok_def)
  let ?r = "s\<lparr>cx_refused := cx_refused s @ [f]\<rparr>"
  have "frames_ok ?r"
  proof -
    have "resolved s g \<Longrightarrow> resolved ?r g" for g by (auto simp: resolved_def)
    then have "\<forall>g \<in> set (cx_accepted ?r). placed ?r g" "flight_settled s X \<Longrightarrow> flight_settled ?r X" for X
      using frames_okD(1) [OF ok] by (auto simp: placed_def discarding_def queued_frames_def flight_settled_def)
    then show ?thesis using ok pt
      by (auto simp: frames_ok_def flight_point_ok_def stage_ok_def started_ok_def wire_order_ok_def won_ok_def
          queued_frames_def split: run_point.splits discard.splits)
  qed
  then have "frames_ok (?r\<lparr>cx_sender := SenderClearing f True\<rparr>)"
    using pt flying by (intro sender_moves) (auto simp: flight_point_ok_def resolved_def)
  then show ?thesis using one two three by (simp add: sender_begin_def)
qed


lemma sender_send_ok:
  assumes ok: "frames_ok s" and pt: "cx_sender s = SenderSending f"
  shows "frames_ok (sender_send sink failure f s)"
proof (cases failure)
  case None
  let ?t = "s\<lparr>cx_sent := cx_sent s @ [f], cx_sender := SenderSentOk f\<rparr>"
  have flying: "cn_in_flight (cx_conn s) = Some f" using in_flight_point [OF ok] pt by simp
  have "\<forall>g \<in> set (cx_accepted ?t). placed ?t g"
    using frames_okD(1) [OF ok] pt by (auto simp: placed_def discarding_def queued_frames_def resolved_def)
  moreover have "flight_settled s X \<Longrightarrow> flight_settled ?t X" for X
    using pt by (auto simp: flight_settled_def resolved_def)
  ultimately have "frames_ok ?t" using ok pt flying
    by (auto simp: frames_ok_def flight_point_ok_def stage_ok_def started_ok_def wire_order_ok_def won_ok_def
        queued_frames_def split: run_point.splits discard.splits)
  then show ?thesis using None by (simp add: sender_send_def)
next
  case (Some e)
  have one: "frames_ok ((publish_transport_error sink e (fail_frame f e s))\<lparr>cx_sender := SenderAbortClearing f x\<rparr>)" for x
    by (rule settled_moves(2) [OF ok same_frames_trans [OF fail_frame_same(1) publish_error_same(1)]
        publish_error_ok [OF fail_frame_ok [OF ok]]]) (simp_all add: pt)
  have "frames_ok (s\<lparr>cx_sender := SenderEnding\<rparr>)"
    using pt by (intro sender_moves [OF ok]) (auto simp: flight_point_ok_def)
  then show ?thesis using Some one by (simp add: sender_send_def)
qed

lemma sender_sent_ok:
  assumes ok: "frames_ok s" and pt: "cx_sender s = SenderSentOk f"
  shows "frames_ok (sender_sent f s)"
proof -
  have sent: "f \<in> set (cx_sent s)" using frames_okD(2) [OF ok] pt by (simp add: flight_point_ok_def)
  obtain t mine where t: "finish_frame f None s = (t, mine)" by fastforce
  then have fst: "t = fst (finish_frame f None s)" by simp
  let ?u = "if mine then t\<lparr>cx_conn := (cx_conn t)\<lparr>cn_outbound_frames_sent := Suc (cn_outbound_frames_sent (cx_conn t))\<rparr>\<rparr>
    else t"
  have same: "same_frames s ?u" unfolding fst using finish_frame_same(1) [of s f None] by (simp add: same_frames_def)
  have "frames_ok ?u"
  proof (rule same_frames_ok [OF same _ _ ok])
    have eq: "frame_done ?u = frame_done t" "frame_won ?u = frame_won t" by simp_all
    show "frame_done ?u g" if "frame_done s g" for g using that unfolding eq fst by simp
    show "frame_won s g \<or> g \<in> set (cx_sent s)" if u: "frame_won ?u g" for g
    proof -
      have "frame_won (fst (finish_frame f None s)) g" using u eq(2) t by simp
      then have "frame_won s g \<or> g = f" by (rule frame_won_after(4))
      then show ?thesis using sent by fast
    qed
  qed
  moreover have "frame_done ?u f" using fst by (simp add: fst)
  ultimately have "frames_ok (?u\<lparr>cx_sender := SenderClearing f True\<rparr>)"
    using pt by (intro settled_moves(1) [OF ok same]) simp_all
  then show ?thesis by (simp add: sender_sent_def t)
qed

lemma sender_clear_ok:
  assumes ok: "frames_ok s" and pt: "cx_sender s = SenderClearing f go_on \<or> cx_sender s = SenderAbortClearing f e"
    and to: "to = SenderWaiting \<or> to = SenderEnding \<or> to = SenderAborting e'"
  shows "frames_ok (sender_clear f to s)"
proof -
  let ?t = "sender_clear f to s"
  have f: "cn_in_flight (cx_conn s) = Some f" "resolved s f"
    using frames_okD(2) [OF ok] pt by (auto simp: flight_point_ok_def)
  have t: "?t = s\<lparr>cx_conn := (cx_conn s)\<lparr>cn_in_flight := None\<rparr>, cx_sender := to\<rparr>"
    using f(1) by (simp add: sender_clear_def clear_in_flight_def)
  have "placed ?t g" if "g \<in> set (cx_accepted s)" for g
    using frames_okD(1) [OF ok that] f pt unfolding t
    by (cases "g = f") (auto simp: placed_def discarding_def queued_frames_def resolved_def)
  then have "\<forall>g \<in> set (cx_accepted ?t). placed ?t g" unfolding t by simp
  moreover have "flight_settled ?t X" for X unfolding t by (simp add: flight_settled_def)
  then have "stage_ok ?t" using frames_okD(3) [OF ok] unfolding t
    by (auto simp: stage_ok_def queued_frames_def split: run_point.splits discard.splits)
  moreover have "flight_point_ok ?t" using to unfolding t by (auto simp: flight_point_ok_def)
  moreover have "started_ok ?t" using frames_okD(4) [OF ok] pt to unfolding t by (auto simp: started_ok_def)
  moreover have "wire_order_ok ?t" using frames_okD(5) [OF ok] pt to unfolding t
    by (auto simp: wire_order_ok_def queued_frames_def)
  moreover have "won_ok ?t" using frames_okD(6) [OF ok] unfolding t by (simp add: won_ok_def)
  ultimately show ?thesis by (simp add: frames_ok_def)
qed

lemma same_flags_simps [simp]:
  "same_flags c c" "same_flags c (c\<lparr>cn_connected := x\<rparr>) " "same_flags c (c\<lparr>cn_stop_requested := True\<rparr>)"
  "same_flags c (c\<lparr>cn_connected := x, cn_stop_requested := True\<rparr>)"
  "same_flags c (c\<lparr>cn_outbound_drained := x\<rparr>)" "same_flags c (c\<lparr>cn_sender_stopped := x\<rparr>)"
  "same_flags c (c\<lparr>cn_closing := True\<rparr>)" "same_flags c (c\<lparr>cn_drain_requested := x\<rparr>)"
  by (simp_all add: same_flags_def)

lemma sender_abort_ok:
  assumes ok: "frames_ok s" and pt: "cx_sender s = SenderAborting e"
  shows "frames_ok (sender_abort e s)"
proof -
  let ?u = "s\<lparr>cx_conn := (cx_conn s)\<lparr>cn_connected := False, cn_stop_requested := True\<rparr>\<rparr>"
  have u: "frames_ok (?u\<lparr>cx_queue := tq_stop_accepting (cx_queue s)\<rparr>)"
    using stop_accepting_ok [OF flags_ok [OF ok, of "(cx_conn s)\<lparr>cn_connected := False, cn_stop_requested := True\<rparr>"]]
    by simp
  have "cn_in_flight (cx_conn s) = None" using frames_okD(2) [OF ok] pt by (simp add: flight_point_ok_def)
  then show ?thesis using sender_moves [OF u, of "SenderDiscarding e ReadInFlight"] pt
    by (simp add: sender_abort_def flight_point_ok_def)
qed

text \<open>A thread whose discarding takes a frame from the queue holds it.\<close>

lemma sender_discard_ok:
  assumes ok: "frames_ok s" and pt: "cx_sender s = SenderDiscarding e d" and d: "discard_step e d s = (t, d')"
  shows "frames_ok (t\<lparr>cx_sender := SenderDiscarding e d'\<rparr>)"
proof -
  have none: "cn_in_flight (cx_conn s) = None" using frames_okD(2) [OF ok] pt by (simp add: flight_point_ok_def)
  have move: "frames_ok (u\<lparr>cx_sender := SenderDiscarding e x\<rparr>)"
    if "frames_ok u" "cx_sender u = SenderDiscarding e d" "cn_in_flight (cx_conn u) = None"
      "\<forall>f. d = SettleQueued f \<longrightarrow> resolved u f" for u x
    using that by (intro sender_moves) (auto simp: flight_point_ok_def)
  show ?thesis
  proof (cases d)
    case TakeQueued
    obtain q st where rec: "tq_receive_attempt True (cx_queue s) = (q, st)" by fastforce
    show ?thesis
    proof (cases st)
      case (TQReceived f)
      let ?s = "s\<lparr>cx_sender := SenderDiscarding e (SettleQueued f)\<rparr>"
      have "frames_ok (?s\<lparr>cx_queue := q\<rparr>)"
      proof (rule queue_shrinks)
        show "frames_ok ?s" using move [OF ok pt none] TakeQueued by simp
        show "\<forall>g \<in> set (queued_frames ?s). g \<in> set (map fst (tq_queue q)) \<or> placed (?s\<lparr>cx_queue := q\<rparr>) g"
          using receive_shrinks(1) [OF rec TQReceived] by (auto simp: queued_frames_def placed_def discarding_def)
        show "subseq (map fst (tq_queue q)) (queued_frames ?s)"
          using receive_shrinks(1) [OF rec TQReceived] subseq_tail [of "map fst (tq_queue q)" f]
          by (simp add: queued_frames_def)
      qed (use receive_shrinks(1) [OF rec TQReceived] in simp)
      moreover have "?s\<lparr>cx_queue := q\<rparr> = s\<lparr>cx_queue := q, cx_sender := SenderDiscarding e (SettleQueued f)\<rparr>" by simp
      ultimately show ?thesis using d TakeQueued rec TQReceived by (auto simp: discard_step_def)
    qed (use d TakeQueued rec move [OF ok pt none] in \<open>auto simp: discard_step_def\<close>)
  next
    case (SettleQueued f)
    have "cx_sender (discard_frame f e s) = cx_sender s" "cn_in_flight (cx_conn (discard_frame f e s)) = cn_in_flight (cx_conn s)"
      using sender_at [OF discard_frame_same(1)] by simp_all
    then show ?thesis using d SettleQueued move [OF discard_frame_ok [OF ok], of f e] pt none
      by (auto simp: discard_step_def resolved_def)
  next
    case (SettleInFlight f)
    have "cx_sender (discard_frame f e s) = cx_sender s" "cn_in_flight (cx_conn (discard_frame f e s)) = cn_in_flight (cx_conn s)"
      using sender_at [OF discard_frame_same(1)] by simp_all
    then show ?thesis using d SettleInFlight move [OF discard_frame_ok [OF ok], of f e] pt none
      by (auto simp: discard_step_def)
  qed (use d move [OF ok pt none] in \<open>auto simp: discard_step_def\<close>)
qed

lemma sender_poll_ok:
  assumes ok: "frames_ok s" and pt: "cx_sender s = SenderReceiving"
  shows "frames_ok (sender_poll expired s)"
proof -
  obtain q st where rec: "tq_receive_attempt expired (cx_queue s) = (q, st)" by fastforce
  have none: "cn_in_flight (cx_conn s) = None" using frames_okD(2) [OF ok] pt by (simp add: flight_point_ok_def)
  have go: "frames_ok (s\<lparr>cx_conn := c, cx_sender := to\<rparr>)"
    if "same_flags (cx_conn s) c" "to = SenderWaiting \<or> to = SenderEnding" for c to
    using sender_moves [OF flags_ok [OF ok that(1)], of to] that pt none
    by (auto simp: flight_point_ok_def same_flags_def)
  show ?thesis
  proof (cases st)
    case (TQReceived f)
    then show ?thesis using sender_source_taken [OF ok pt] rec by (simp add: sender_poll_def Let_def)
  next
    case (TQRaised e)
    then show ?thesis using go rec by (simp add: sender_poll_def Let_def)
  next
    case TQWaiting
    then show ?thesis using ok rec by (simp add: sender_poll_def Let_def)
  qed
qed

lemma sender_step_ok:
  assumes ok: "frames_ok s"
  shows "frames_ok (sender_step sink a s)"
proof (cases "cx_sender s")
  case SenderWaiting
  then have "frames_ok (s\<lparr>cx_sender := to\<rparr>)" if "to = SenderReceiving \<or> to = SenderEnding" for to
    using frames_okD(2) [OF ok] that by (intro sender_moves [OF ok]) (auto simp: flight_point_ok_def)
  then show ?thesis using SenderWaiting ok by (simp add: sender_step_def sender_wait_def)
next
  case SenderReceiving
  have "frames_ok ((publish_transport_error sink e s)\<lparr>cx_sender := SenderAborting x\<rparr>)" for e x
    using SenderReceiving frames_okD(2) [OF ok] sender_at [OF publish_error_same(1) [where s = s and sink = sink and e = e]]
    by (intro sender_moves [OF publish_error_ok [OF ok]]) (auto simp: flight_point_ok_def)
  then show ?thesis using SenderReceiving sender_poll_ok [OF ok]
    by (simp add: sender_step_def sender_source_failed_def split: option.split)
next
  case (SenderDiscarding e d)
  have none: "cn_in_flight (cx_conn s) = None" using frames_okD(2) [OF ok] SenderDiscarding by (simp add: flight_point_ok_def)
  have "frames_ok ((safe_close sink False (sa_close a) s)\<lparr>cx_sender := SenderEnding\<rparr>)" if "d = Discarded"
    using SenderDiscarding that sender_at [OF safe_close_same(1) [where s = s and sink = sink and force = False and answer = "sa_close a"]]
    by (intro sender_moves [OF safe_close_ok [OF ok]]) (auto simp: flight_point_ok_def)
  then show ?thesis using SenderDiscarding sender_discard_ok [OF ok SenderDiscarding]
    by (simp add: sender_step_def split: prod.split)
next
  case SenderEnding
  have "frames_ok (s\<lparr>cx_conn := (cx_conn s)\<lparr>cn_sender_stopped := True\<rparr>, cx_sender := SenderGone\<rparr>)"
    using SenderEnding sender_moves [OF flags_ok [OF ok], of "(cx_conn s)\<lparr>cn_sender_stopped := True\<rparr>" SenderGone]
    by (simp add: flight_point_ok_def)
  then show ?thesis using SenderEnding by (simp add: sender_step_def sender_exit_def)
next
  case (SenderClearing f go_on)
  then show ?thesis using sender_clear_ok [OF ok, of f go_on] by (simp add: sender_step_def)
next
  case (SenderAbortClearing f e)
  then show ?thesis using sender_clear_ok [OF ok, of f undefined e "SenderAborting e"] by (simp add: sender_step_def)
qed (use ok sender_look_ok [OF ok] sender_unsent_ok [OF ok] sender_begin_ok [OF ok] sender_send_ok [OF ok]
    sender_sent_ok [OF ok] sender_abort_ok [OF ok] in \<open>simp_all add: sender_step_def\<close>)


section \<open>The other threads\<close>

text \<open>One segment of the discarding, wherever it runs: it holds the frame that it takes from the queue.\<close>

lemma flight_settled_moves [simp]:
  "flight_settled (s\<lparr>cx_run := a\<rparr>) = flight_settled s" "flight_settled (s\<lparr>cx_close := b\<rparr>) = flight_settled s"
  "flight_settled (s\<lparr>cx_queue := q\<rparr>) = flight_settled s"
  by (rule ext; simp add: flight_settled_def resolved_def)+

lemma discard_takes:
  assumes ok: "frames_ok s" and rec: "tq_receive_attempt True (cx_queue s) = (q, TQReceived f)"
    and held: "discarding s f"
  shows "frames_ok (s\<lparr>cx_queue := q\<rparr>)"
proof (rule queue_shrinks [OF ok])
  note q = receive_shrinks(1) [OF rec refl]
  show "\<forall>g \<in> set (queued_frames s). g \<in> set (map fst (tq_queue q)) \<or> placed (s\<lparr>cx_queue := q\<rparr>) g"
    using q held by (auto simp: queued_frames_def placed_def discarding_def)
  show "subseq (map fst (tq_queue q)) (queued_frames s)"
    using q subseq_tail [of "map fst (tq_queue q)" f] by (simp add: queued_frames_def)
  show "tq_accepting q \<longrightarrow> tq_accepting (cx_queue s)" using q by simp
qed

lemma close_discard_ok:
  assumes ok: "frames_ok s" and pt: "cx_close s = CloseDiscarding e d" and d: "discard_step e d s = (t, d')"
  shows "frames_ok (t\<lparr>cx_close := CloseDiscarding e d'\<rparr>)"
proof (cases d)
  case TakeQueued
  have go: "frames_ok (s\<lparr>cx_close := CloseDiscarding e x\<rparr>)" for x
    by (rule close_moves [OF ok]) (simp_all add: pt TakeQueued)
  obtain q st where rec: "tq_receive_attempt True (cx_queue s) = (q, st)" by fastforce
  show ?thesis
  proof (cases st)
    case (TQReceived f)
    have "frames_ok (s\<lparr>cx_close := CloseDiscarding e (SettleQueued f), cx_queue := q\<rparr>)"
      by (rule discard_takes [OF go, where f = f]) (use rec TQReceived in \<open>simp_all add: discarding_def\<close>)
    moreover have "s\<lparr>cx_close := CloseDiscarding e (SettleQueued f), cx_queue := q\<rparr> =
        s\<lparr>cx_queue := q, cx_close := CloseDiscarding e (SettleQueued f)\<rparr>" by simp
    ultimately show ?thesis using d TakeQueued rec TQReceived by (auto simp: discard_step_def)
  qed (use d TakeQueued rec go in \<open>auto simp: discard_step_def\<close>)
next
  case (SettleQueued f)
  have "frames_ok ((discard_frame f e s)\<lparr>cx_close := CloseDiscarding e TakeQueued\<rparr>)"
    by (rule close_moves [OF discard_frame_ok [OF ok]])
      (use pt SettleQueued discard_frame_same(1) [of s f e] in \<open>simp_all add: same_frames_def resolved_def\<close>)
  then show ?thesis using d SettleQueued by (auto simp: discard_step_def)
next
  case (SettleInFlight f)
  have "frames_ok ((discard_frame f e s)\<lparr>cx_close := CloseDiscarding e TakeQueued\<rparr>)"
    by (rule close_moves [OF discard_frame_ok [OF ok]])
      (use pt SettleInFlight discard_frame_same(1) [of s f e] in \<open>simp_all add: same_frames_def\<close>)
  then show ?thesis using d SettleInFlight by (auto simp: discard_step_def)
qed (use d close_moves [OF ok] pt in \<open>auto simp: discard_step_def\<close>)

lemma run_discard_ok:
  assumes ok: "frames_ok s" and pt: "cx_run s = Disconnecting final ev d" and d: "discard_step e d s = (t, d')"
  shows "frames_ok (t\<lparr>cx_run := Disconnecting final ev d'\<rparr>)"
proof -
  note stage = frames_okD(3) [OF ok, unfolded stage_ok_def pt, simplified]
  have move: "frames_ok (u\<lparr>cx_run := Disconnecting final ev x\<rparr>)"
    if "frames_ok u" "cx_run u = Disconnecting final ev d" "\<forall>f. d = SettleQueued f \<longrightarrow> frame_done u f"
      "stage_ok (u\<lparr>cx_run := Disconnecting final ev x\<rparr>)" for u x
    using that by (intro run_moves) (auto simp: resolved_def)
  have after: "frames_ok ((discard_frame f e s)\<lparr>cx_run := Disconnecting final ev TakeQueued\<rparr>)"
    if f: "d = SettleInFlight f \<or> d = SettleQueued f" for f
  proof -
    let ?u = "discard_frame f e s"
    have u: "frames_ok ?u" "cx_run ?u = Disconnecting final ev d" "frame_done ?u f"
      using discard_frame_ok [OF ok] discard_frame_same(1) [of s f e] pt by (simp_all add: same_frames_def)
    have "flight_settled ?u {}"
      using frames_okD(3) [OF u(1)] u(2,3) f by (auto simp: stage_ok_def flight_settled_def resolved_def)
    then have "stage_ok (?u\<lparr>cx_run := Disconnecting final ev TakeQueued\<rparr>)"
      using frames_okD(3) [OF u(1)] u(2) by (simp add: stage_ok_def)
    then show ?thesis by (intro move [OF u(1,2)]) (use u(3) f in auto)
  qed
  show ?thesis
  proof (cases d)
    case TakeQueued
    obtain q st where rec: "tq_receive_attempt True (cx_queue s) = (q, st)" by fastforce
    show ?thesis
    proof (cases st)
      case (TQReceived f)
      have "frames_ok (s\<lparr>cx_run := Disconnecting final ev (SettleQueued f)\<rparr>)"
        using stage TakeQueued by (intro move [OF ok pt]) (simp_all add: stage_ok_def)
      then have "frames_ok (s\<lparr>cx_run := Disconnecting final ev (SettleQueued f), cx_queue := q\<rparr>)"
        by (rule discard_takes [where f = f]) (use rec TQReceived in \<open>simp_all add: discarding_def\<close>)
      moreover have "s\<lparr>cx_run := Disconnecting final ev (SettleQueued f), cx_queue := q\<rparr> =
          s\<lparr>cx_queue := q, cx_run := Disconnecting final ev (SettleQueued f)\<rparr>" by simp
      ultimately show ?thesis using d TakeQueued rec TQReceived by (auto simp: discard_step_def)
    next
      case (TQRaised x)
      have "tq_queue (cx_queue s) = []" using receive_shrinks(2) [OF rec TQRaised] by simp
      then have "frames_ok (s\<lparr>cx_run := Disconnecting final ev Discarded\<rparr>)"
        using stage TakeQueued by (intro move [OF ok pt]) (simp_all add: stage_ok_def queued_frames_def)
      then show ?thesis using d TakeQueued rec TQRaised by (auto simp: discard_step_def)
    next
      case TQWaiting
      then show ?thesis using receive_shrinks(3) [OF rec TQWaiting] by simp
    qed
  next
    case ReadInFlight
    then show ?thesis using d stage move [OF ok pt]
      by (cases "cn_in_flight (cx_conn s)") (auto simp: discard_step_def stage_ok_def flight_settled_def)
  next
    case (SettleInFlight f)
    then show ?thesis using d after [of f] by (auto simp: discard_step_def)
  next
    case (SettleQueued f)
    then show ?thesis using d after [of f] by (auto simp: discard_step_def)
  next
    case Discarded
    then have "frames_ok (s\<lparr>cx_run := Disconnecting final ev Discarded\<rparr>)"
      using stage by (intro move [OF ok pt]) (simp_all add: stage_ok_def queued_frames_def)
    then show ?thesis using d Discarded by (auto simp: discard_step_def)
  qed
qed

lemma disconnect_begin_ok:
  assumes ok: "frames_ok s" and pt: "cx_run s = RunningClient"
  shows "frames_ok (disconnect_begin final code reason s)"
proof -
  let ?c1 = "(cx_conn s)\<lparr>cn_connected := False, cn_stop_requested := True\<rparr>"
  let ?c = "if cn_disconnected_published (cx_conn s) then ?c1
    else ?c1\<lparr>cn_disconnected_published := True, cn_disconnect_count := Suc (cn_disconnect_count ?c1),
      cn_last_close_code := code\<rparr>"
  let ?u = "s\<lparr>cx_conn := ?c, cx_queue := tq_stop_accepting (cx_queue s)\<rparr>"
  have "frames_ok (s\<lparr>cx_conn := ?c\<rparr>)" by (rule flags_ok [OF ok]) (simp add: same_flags_def)
  then have u: "frames_ok ?u" using stop_accepting_ok [of "s\<lparr>cx_conn := ?c\<rparr>"] by simp
  have "frames_ok (?u\<lparr>cx_run := Disconnecting final ev ReadInFlight\<rparr>)" for ev
    by (rule run_moves [OF u]) (simp_all add: pt stage_ok_def tq_stop_accepting_def)
  then show ?thesis unfolding disconnect_begin_def Let_def by simp
qed

lemma publish_event_ok: "frames_ok s \<Longrightarrow> frames_ok (publish_session_event sink ev s)"
  by (rule same_frames_ok [where s = s])
    (simp_all add: same_frames_def publish_session_event_def frame_done_def frame_won_def Let_def)

lemma run_step_ok:
  assumes ok: "frames_ok s"
  shows "frames_ok (run_step sink s)"
proof (cases "cx_run s")
  case (Disconnecting final ev d)
  note stage = frames_okD(3) [OF ok, unfolded stage_ok_def Disconnecting, simplified]
  have "frames_ok (s\<lparr>cx_run := PublishingDisconnect final ev\<rparr>)" if "d = Discarded"
    by (rule run_moves [OF ok]) (use Disconnecting that stage in \<open>simp_all add: stage_ok_def queued_frames_def\<close>)
  then show ?thesis using Disconnecting run_discard_ok [OF ok Disconnecting]
    by (simp add: run_step_def split: prod.split)
next
  case (PublishingDisconnect final ev)
  let ?u = "case ev of None \<Rightarrow> s | Some e \<Rightarrow> publish_session_event sink e s"
  have u: "frames_ok ?u" "cx_run ?u = cx_run s"
    using ok publish_event_ok [OF ok] by (auto simp: publish_session_event_def Let_def split: option.split)
  note stage = frames_okD(3) [OF u(1), unfolded stage_ok_def u(2) PublishingDisconnect, simplified]
  have "frames_ok (?u\<lparr>cx_run := if final then JoiningSender else RunningClient\<rparr>)"
    by (rule run_moves [OF u(1)])
      (use u(2) PublishingDisconnect stage in \<open>simp_all add: stage_ok_def queued_frames_def\<close>)
  then show ?thesis using PublishingDisconnect by (simp add: run_step_def)
next
  case JoiningSender
  let ?u = "s\<lparr>cx_conn := (cx_conn s)\<lparr>cn_terminal := True, cn_connected := False, cn_stop_requested := True,
    cn_lifecycle_thread := False, cn_close_completed := cn_close_completed (cx_conn s) \<or> \<not> cn_closing (cx_conn s)\<rparr>\<rparr>"
  have u: "frames_ok ?u" by (rule flags_ok [OF ok]) (simp add: same_flags_def)
  note stage = frames_okD(3) [OF ok, unfolded stage_ok_def JoiningSender, simplified]
  have "frames_ok (?u\<lparr>cx_run := RunGone\<rparr>)"
    by (rule run_moves [OF u])
      (use JoiningSender stage in \<open>simp_all add: stage_ok_def queued_frames_def flight_settled_def resolved_def\<close>)
  then show ?thesis using JoiningSender by (simp add: run_step_def)
qed (use ok in \<open>simp_all add: run_step_def\<close>)

lemma close_step_ok:
  assumes ok: "frames_ok s"
  shows "frames_ok (close_step sink x a s)"
proof (cases "cx_close s")
  case (CloseStopping from_sender)
  let ?u = "s\<lparr>cx_queue := tq_stop_accepting (cx_queue s), cx_conn := (cx_conn s)\<lparr>cn_drain_requested := True\<rparr>\<rparr>"
  have u: "frames_ok ?u" using flags_ok [OF stop_accepting_ok [OF ok]] by simp
  have "frames_ok (?u\<lparr>cx_close := pt\<rparr>)" for pt by (rule close_moves [OF u]) (simp_all add: CloseStopping)
  then show ?thesis using CloseStopping by (simp add: close_step_def close_request_def Let_def)
next
  case CloseWaiting
  have "frames_ok (s\<lparr>cx_close := pt\<rparr>)" for pt by (rule close_moves [OF ok]) (simp_all add: CloseWaiting)
  then show ?thesis using CloseWaiting ok by (simp add: close_step_def close_wait_def Let_def)
next
  case (CloseUndrained late e)
  let ?c = "(cx_conn s)\<lparr>cn_outbound_drain_timeouts := cn_outbound_drain_timeouts (cx_conn s) + (if late then 1 else 0),
          cn_stop_requested := True, cn_connected := False\<rparr>"
  have u: "frames_ok (s\<lparr>cx_conn := ?c\<rparr>)" by (rule flags_ok [OF ok]) (simp add: same_flags_def)
  have "frames_ok (s\<lparr>cx_conn := ?c\<rparr>\<lparr>cx_close := CloseDiscarding e ReadInFlight\<rparr>)"
    by (rule close_moves [OF u]) (simp_all add: CloseUndrained)
  then show ?thesis unfolding close_step_def close_undrained_def CloseUndrained Let_def by simp
next
  case (CloseDiscarding e d)
  have "frames_ok (s\<lparr>cx_close := ClosingSocket\<rparr>)" if "d = Discarded"
    by (rule close_moves [OF ok]) (simp_all add: CloseDiscarding that)
  then show ?thesis using CloseDiscarding close_discard_ok [OF ok CloseDiscarding]
    by (simp add: close_step_def split: prod.split)
next
  case ClosingSocket
  have "frames_ok ((safe_close sink False a s)\<lparr>cx_close := CloseEnding\<rparr>)"
    by (rule close_moves [OF safe_close_ok [OF ok]])
      (use ClosingSocket safe_close_same(1) [of s sink False a] in \<open>simp_all add: same_frames_def\<close>)
  then show ?thesis using ClosingSocket by (simp add: close_step_def)
next
  case CloseEnding
  let ?c = "(if cn_sender_thread (cx_conn s) then cx_conn s
    else (cx_conn s)\<lparr>cn_terminal := True, cn_stop_requested := True, cn_sender_stopped := True\<rparr>)\<lparr>cn_close_completed := True\<rparr>"
  have u: "frames_ok (s\<lparr>cx_conn := ?c\<rparr>)" by (rule flags_ok [OF ok]) (simp add: same_flags_def)
  have "frames_ok (s\<lparr>cx_conn := ?c\<rparr>\<lparr>cx_close := CloseGone\<rparr>)" by (rule close_moves [OF u]) (simp_all add: CloseEnding)
  then show ?thesis unfolding close_step_def close_end_def CloseEnding Let_def by simp
qed (use ok in \<open>simp_all add: close_step_def\<close>)


lemma run_begin_ok:
  assumes ok: "frames_ok s"
  shows "frames_ok (fst (run_begin starts s))"
proof (cases "cn_started (cx_conn s)")
  case False
  then have at: "cx_run s = NoRun" "cx_sender s = NoSender" using frames_okD(4) [OF ok] by (auto simp: started_ok_def)
  let ?t = "s\<lparr>cx_conn := (cx_conn s)\<lparr>cn_sender_thread := True, cn_lifecycle_thread := True, cn_started := True\<rparr>,
      cx_sender := SenderWaiting, cx_run := RunningClient\<rparr>"
  have "\<forall>f \<in> set (cx_accepted ?t). placed ?t f"
    using frames_okD(1) [OF ok] at by (auto simp: placed_def discarding_def queued_frames_def resolved_def)
  then have "frames_ok ?t" using ok at
    by (simp add: frames_ok_def flight_point_ok_def stage_ok_def started_ok_def wire_order_ok_def won_ok_def
        queued_frames_def)
  moreover have "frames_ok (s\<lparr>cx_conn := (cx_conn s)\<lparr>cn_sender_thread := False, cn_lifecycle_thread := False,
      cn_started := False\<rparr>\<rparr>)"
    by (rule flags_ok [OF ok]) (simp add: same_flags_def False)
  ultimately show ?thesis using ok by (simp add: run_begin_def Let_def)
qed (use ok in \<open>simp add: run_begin_def\<close>)

lemma on_open_ok: "frames_ok s \<Longrightarrow> frames_ok (on_open sink a s)"
  by (simp add: on_open_def Let_def safe_close_ok publish_event_ok flags_ok same_flags_def)

lemma on_message_ok: "frames_ok s \<Longrightarrow> frames_ok (on_message sink is_text answer s)"
  by (auto simp: on_message_def Let_def publish_error_ok flags_ok same_flags_def split: sum.split bool.split)

lemma abort_deadline_ok: "frames_ok s \<Longrightarrow> frames_ok (abort_deadline_send sink f a s)"
  by (simp add: abort_deadline_send_def Let_def publish_error_ok flags_ok split: option.split)

lemma close_begin_ok:
  assumes ok: "frames_ok s"
  shows "frames_ok (close_begin from_sender s)"
proof (cases "cn_close_completed (cx_conn s) \<or> cn_closing (cx_conn s)")
  case False
  then have none: "cx_close s = NoClose" using frames_okD(4) [OF ok] by (auto simp: started_ok_def)
  let ?u = "s\<lparr>cx_conn := (cx_conn s)\<lparr>cn_closing := True\<rparr>\<rparr>"
  have u: "frames_ok ?u" by (rule flags_ok [OF ok]) simp
  have "frames_ok (?u\<lparr>cx_close := CloseStopping from_sender\<rparr>)"
    by (rule close_moves [OF u]) (simp_all add: none)
  then show ?thesis using False unfolding close_begin_def Let_def by simp
qed (use ok in \<open>simp add: close_begin_def\<close>)

lemma finish_frame_ok: "frames_ok s \<Longrightarrow> frames_ok (fst (finish_frame f (Some e) s))"
  by (rule same_frames_ok [where s = s]) simp_all

lemma offer_ok:
  assumes ok: "frames_ok s"
  shows "frames_ok (connector_step sink (OfferFrame f sz) s)"
proof -
  obtain q st r where sub: "tq_submit_begin f sz False True (cx_queue s) = (q, st, r)" using prod_cases3 by blast
  have kept: "frames_ok (s\<lparr>cx_queue := q\<rparr>)" if "tq_queue q = tq_queue (cx_queue s)"
    by (rule queue_shrinks [OF ok])
      (use that sub tq_accepting_ops(2) [of f sz False True "cx_queue s"] in \<open>simp_all add: queued_frames_def\<close>)
  have "st = Submitted True \<Longrightarrow> tq_accepting (cx_queue s) \<and> tq_accepting q \<and> map fst (tq_queue q) = queued_frames s @ [f]"
    "st \<noteq> Submitted True \<Longrightarrow> tq_queue q = tq_queue (cx_queue s)"
    using sub by (auto simp: tq_submit_begin_def tq_submit_loop_def tq_append_def queued_frames_def Let_def split: if_splits)
  then show ?thesis using ok kept queue_grows [OF ok] sub
    by (simp split: tq_status.split bool.split) 
qed

lemma subseq_remove1: "subseq (remove1 x xs) xs"
  by (induction xs) (simp_all add: subseq_tail)

lemma drop_ok:
  assumes ok: "frames_ok s"
  shows "frames_ok (connector_step sink (DropSettled f) s)"
proof (cases "rc_done (cx_receipts s f)")
  case True
  let ?q = "tq_discard f (cx_queue s)"
  have dropped: "\<forall>g \<in> set (queued_frames s). g \<in> set (map fst (tq_queue ?q)) \<or> g = f"
    "subseq (map fst (tq_queue ?q)) (queued_frames s)"
    unfolding tq_discard_items queued_frames_def [symmetric] by (auto simp: subseq_remove1)
  have "frames_ok (s\<lparr>cx_queue := ?q\<rparr>)"
    by (rule queue_shrinks [OF ok])
      (use dropped True in \<open>auto simp: placed_def resolved_def frame_done_def\<close>)
  then show ?thesis using True by simp
qed (use ok in simp)

lemma connector_step_ok: "frames_ok s \<Longrightarrow> frames_ok (connector_step sink x s)"
proof (cases x)
  case (ClientReturns failure)
  have "frames_ok (publish_transport_error sink e s)" if "frames_ok s" for e using that by (rule publish_error_ok)
  moreover have "cx_run (publish_transport_error sink e s) = cx_run s" for e
    using publish_error_same(1) [of s sink e] by (simp add: same_frames_def)
  moreover assume "frames_ok s"
  ultimately show ?thesis using ClientReturns disconnect_begin_ok by (auto split: option.split)
next
  case (OfferFrame f sz)
  moreover assume "frames_ok s"
  ultimately show ?thesis using offer_ok by blast
next
  case (DropSettled f)
  moreover assume "frames_ok s"
  ultimately show ?thesis using drop_ok by blast
qed (simp_all add: run_begin_ok on_open_ok on_message_ok publish_error_ok disconnect_begin_ok run_step_ok sender_step_ok
    close_begin_ok close_step_ok abort_deadline_ok finish_frame_ok)

interpretation frames_machine: invariant_machine "connector_step sink" frames_ok
  by unfold_locales (rule connector_step_ok)

lemma frames_ok_initial:
  "new_connector port timeout = Inr c \<Longrightarrow> tq_queue q = [] \<Longrightarrow> frames_ok (connector_initial c q)"
  by (auto simp: new_connector_def rbind_eq_Inr connector_initial_def frames_ok_def flight_point_ok_def stage_ok_def started_ok_def
      wire_order_ok_def won_ok_def queued_frames_def frame_won_def new_receipt_def split: pyval.splits if_splits)

section \<open>The disconnection is announced once\<close>

fun announcing :: "run_point \<Rightarrow> session_event list" where
  "announcing (Disconnecting final (Some event) d) = [event]"
| "announcing (PublishingDisconnect final (Some event)) = [event]"
| "announcing _ = []"

definition announced_ok :: "connector_system \<Rightarrow> bool" where
  "announced_ok s \<longleftrightarrow>
     length (filter is_disconnected (cx_events s)) + length (announcing (cx_run s)) =
       (if cn_disconnected_published (cx_conn s) then 1 else 0) \<and>
     list_all is_disconnected (announcing (cx_run s)) \<and>
     (disconnecting (cx_run s) \<longrightarrow> cn_disconnected_published (cx_conn s))"

lemma same_events_trans: "same_events s t \<Longrightarrow> same_events t u \<Longrightarrow> same_events s u"
  by (simp add: same_events_def)

lemma same_announced: "announced_ok s \<Longrightarrow> same_events s t \<Longrightarrow> cx_run t = cx_run s \<Longrightarrow> announced_ok t"
  by (simp add: announced_ok_def same_events_def)

lemma same_run [simp]:
  "cx_run (publish_transport_error sink e s) = cx_run s" "cx_run (safe_close sink force a s) = cx_run s"
  "cx_run (discard_frame f x s) = cx_run s" "cx_run (fail_frame f x s) = cx_run s"
  "cx_run (fst (finish_frame f err s)) = cx_run s"
  using publish_error_same(1) [of s sink e] safe_close_same(1) [of s sink force a] discard_frame_same(1) [of s f x]
    fail_frame_same(1) [of s f x] finish_frame_same(1) [of s f err] by (simp_all add: same_frames_def)

lemma same_announcements:
  "filter is_disconnected (cx_events (publish_transport_error sink e s)) = filter is_disconnected (cx_events s)"
  "filter is_disconnected (cx_events (safe_close sink force a s)) = filter is_disconnected (cx_events s)"
  "filter is_disconnected (cx_events (discard_frame f x s)) = filter is_disconnected (cx_events s)"
  "filter is_disconnected (cx_events (fail_frame f x s)) = filter is_disconnected (cx_events s)"
  "cn_disconnected_published (cx_conn (publish_transport_error sink e s)) = cn_disconnected_published (cx_conn s)"
  "cn_disconnected_published (cx_conn (safe_close sink force a s)) = cn_disconnected_published (cx_conn s)"
  "cn_disconnected_published (cx_conn (discard_frame f x s)) = cn_disconnected_published (cx_conn s)"
  "cn_disconnected_published (cx_conn (fail_frame f x s)) = cn_disconnected_published (cx_conn s)"
  using publish_error_same(2) [of s sink e] safe_close_same(2) [of s sink force a] discard_frame_same(2) [of s f x]
    fail_frame_same(2) [of s f x] by (simp_all add: same_events_def)

lemma discard_announced:
  "discard_step e d s = (t, d') \<Longrightarrow> same_events s t \<and> cx_run t = cx_run s"
  by (auto simp: discard_step_def same_events_def same_announcements split: discard.splits prod.splits
      tq_receive_status.splits)

definition announces_as :: "connector_system \<Rightarrow> connector_system \<Rightarrow> bool" where
  "announces_as s t \<longleftrightarrow> same_events s t \<and> cx_run t = cx_run s"

lemma announces_as_iff:
  "announces_as s t \<longleftrightarrow> filter is_disconnected (cx_events t) = filter is_disconnected (cx_events s) \<and>
     cn_disconnected_published (cx_conn t) = cn_disconnected_published (cx_conn s) \<and> cx_run t = cx_run s"
  by (auto simp: announces_as_def same_events_def)

lemma sender_segments_announce:
  "announces_as s (sender_wait s)" "announces_as s (sender_source_failed sink e s)" "announces_as s (sender_look f s)"
  "announces_as s (sender_unsent f s)" "announces_as s (sender_clear f pt s)" "announces_as s (sender_abort e s)"
  "announces_as s (sender_exit s)"
  by (simp_all add: sender_wait_def sender_source_failed_def sender_look_def sender_unsent_def sender_clear_def
      clear_in_flight_def sender_abort_def sender_exit_def announces_as_iff same_announcements Let_def)

lemma sender_poll_announces: "announces_as s (sender_poll x s)"
  by (auto simp: sender_poll_def announces_as_iff Let_def split: prod.split tq_receive_status.split)

lemma sender_begin_announces: "announces_as s (sender_begin sink is_text begins f s)"
  by (simp add: sender_begin_def announces_as_iff same_announcements)

lemma sender_send_announces: "announces_as s (sender_send sink failure f s)"
  by (simp add: sender_send_def announces_as_iff same_announcements split: option.split)

lemma sender_sent_announces: "announces_as s (sender_sent f s)"
  using finish_frame_same(2,3) [of f None s] same_run(5) [of f None s]
  by (cases "finish_frame f None s") (simp add: sender_sent_def announces_as_iff)

lemma sender_announced: "announces_as s (sender_step sink a s)"
proof (cases "cx_sender s")
  case (SenderDiscarding e d)
  then show ?thesis using discard_announced [of e d s]
    by (auto simp: sender_step_def announces_as_iff same_events_def same_announcements split: prod.split)
next
  case SenderReceiving
  then show ?thesis by (simp add: sender_step_def sender_poll_announces sender_segments_announce split: option.split)
next
  case NoSender
  then show ?thesis by (simp add: sender_step_def announces_as_iff)
next
  case SenderGone
  then show ?thesis by (simp add: sender_step_def announces_as_iff)
qed (simp_all add: sender_step_def sender_segments_announce sender_begin_announces sender_send_announces
    sender_sent_announces)

lemma close_segments_announce:
  "announces_as s (close_request from_sender s)" "announces_as s (close_wait x s)"
  "announces_as s (close_undrained late e s)" "announces_as s (close_end s)"
  by (simp_all add: announces_as_iff close_request_def close_wait_def close_undrained_def close_end_def Let_def)

lemma close_announced: "announces_as s (close_step sink x a s)"
proof (cases "cx_close s")
  case (CloseDiscarding e d)
  then show ?thesis using discard_announced [of e d s]
    by (auto simp: close_step_def announces_as_iff same_events_def split: prod.split)
next
  case ClosingSocket
  then show ?thesis by (simp add: close_step_def announces_as_iff same_announcements)
next
  case NoClose
  then show ?thesis by (simp add: close_step_def announces_as_iff)
next
  case CloseGone
  then show ?thesis by (simp add: close_step_def announces_as_iff)
qed (simp_all add: close_step_def close_segments_announce)

lemma disconnect_announced:
  "announced_ok s \<Longrightarrow> cx_run s = RunningClient \<Longrightarrow> announced_ok (disconnect_begin final code reason s)"
  by (simp add: announced_ok_def disconnect_begin_def Let_def)

lemma run_announced:
  assumes ok: "announced_ok s"
  shows "announced_ok (run_step sink s)"
proof (cases "cx_run s")
  case (Disconnecting final ev d)
  obtain t d' where d: "discard_step disconnected_error d s = (t, d')" by fastforce
  have t: "announced_ok t" "cx_run t = Disconnecting final ev d"
    using discard_announced [OF d] same_announced [OF ok] Disconnecting by simp_all
  have "announced_ok (t\<lparr>cx_run := Disconnecting final ev d'\<rparr>)" using t by (cases ev) (simp_all add: announced_ok_def)
  moreover have "announced_ok (s\<lparr>cx_run := PublishingDisconnect final ev\<rparr>)"
    using ok Disconnecting by (cases ev) (simp_all add: announced_ok_def)
  ultimately show ?thesis using Disconnecting d by (simp add: run_step_def)
next
  case (PublishingDisconnect final ev)
  then show ?thesis using ok PublishingDisconnect
    by (cases ev) (simp_all add: run_step_def announced_ok_def publish_session_event_def Let_def)
qed (use ok in \<open>simp_all add: run_step_def announced_ok_def\<close>)


lemma other_announced:
  "announces_as s (close_begin from_sender s)" "announces_as s (abort_deadline_send sink f answer s)"
  "announces_as s (connector_step sink (OfferFrame f sz) s)" "announces_as s (fst (finish_frame f err s))"
  "announces_as s (connector_step sink (DropSettled f) s)"
  by (auto simp: announces_as_iff close_begin_def abort_deadline_send_def same_announcements Let_def
      finish_frame_same(2,3) split: option.split prod.split tq_status.split bool.split)

lemma callbacks_announced:
  "announces_as s (on_open sink a s)" "announces_as s (on_message sink is_text answer s)"
  by (auto simp: announces_as_iff on_open_def on_message_def same_announcements publish_session_event_def Let_def
      split: sum.split bool.split)

lemma run_begin_announced: "frames_ok s \<Longrightarrow> announced_ok s \<Longrightarrow> announced_ok (fst (run_begin starts s))"
  using frames_okD(4) [of s] by (auto simp: run_begin_def announced_ok_def started_ok_def Let_def)

definition connector_ok :: "connector_system \<Rightarrow> bool" where
  "connector_ok s \<longleftrightarrow> frames_ok s \<and> announced_ok s"

lemma announces_keeps: "announced_ok s \<Longrightarrow> announces_as s t \<Longrightarrow> announced_ok t"
  by (auto simp: announces_as_def intro: same_announced)

lemma connector_step_announced:
  assumes ok: "connector_ok s"
  shows "announced_ok (connector_step sink x s)"
proof (cases x)
  case (ClientReturns failure)
  have "announces_as s (publish_transport_error sink e s)" for e by (simp add: announces_as_iff same_announcements)
  then have "announced_ok (publish_transport_error sink e s)" for e
    using ok announces_keeps unfolding connector_ok_def by blast
  then show ?thesis using ok ClientReturns disconnect_announced by (auto simp: connector_ok_def split: option.split)
next
  case (OfferFrame f sz)
  then show ?thesis using ok announces_keeps other_announced(3) unfolding connector_ok_def by blast
next
  case (DropSettled f)
  then show ?thesis using ok announces_keeps other_announced(5) unfolding connector_ok_def by blast
next
  case (SenderStep a)
  then show ?thesis using ok announces_keeps [OF _ sender_announced [of s sink a]] by (simp add: connector_ok_def)
next
  case (CloseStep late a)
  then show ?thesis using ok announces_keeps [OF _ close_announced [of s sink late a]] by (simp add: connector_ok_def)
next
  case (ClientError e)
  have "announces_as s (publish_transport_error sink e s)" by (simp add: announces_as_iff same_announcements)
  then have "announced_ok (publish_transport_error sink e s)" using ok announces_keeps unfolding connector_ok_def by blast
  then show ?thesis using ok ClientError by (simp add: connector_ok_def)
qed (use ok in \<open>simp_all add: connector_ok_def run_begin_announced disconnect_announced run_announced
    announces_keeps [OF _ callbacks_announced(1)] announces_keeps [OF _ callbacks_announced(2)]
    announces_keeps [OF _ other_announced(1)] announces_keeps [OF _ other_announced(2)]
    announces_keeps [OF _ other_announced(4)]\<close>)

interpretation announced_machine: invariant_machine "connector_step sink" connector_ok
  by unfold_locales (simp add: connector_ok_def connector_step_ok connector_step_announced)

lemma connector_ok_initial:
  "new_connector port timeout = Inr c \<Longrightarrow> tq_queue q = [] \<Longrightarrow> connector_ok (connector_initial c q)"
  using frames_ok_initial [of port timeout c q]
  by (auto simp: connector_ok_def announced_ok_def new_connector_def rbind_eq_Inr connector_initial_def
      split: pyval.splits if_splits)

section \<open>Properties\<close>

text \<open>
  C2. Safety: once \<open>run_forever\<close> has ended, every frame that the outbound queue has accepted, whatever the
  interleaving of client, sender, closer and cancellations, has a settled receipt or a command that refused
  to be sent, or is in the hand of a thread that is about to settle it: a sender that took it and has
  yet to see the stop, or one that is discarding it.
\<close>

theorem connector_loses_no_frame:
  assumes new: "new_connector port timeout = Inr c" "tq_queue q = []" and s: "s = connector_run sink c q ops"
    and gone: "cx_run s = RunGone" and f: "f \<in> set (cx_accepted s)"
  shows "rc_done (cx_receipts s f) \<or> f \<in> set (cx_refused s) \<or> cx_sender s = SenderTaken f \<or>
    cx_sender s = SenderUnsent f \<or> (\<exists>e. cx_sender s = SenderDiscarding e (SettleQueued f)) \<or>
    (\<exists>e. cx_close s = CloseDiscarding e (SettleQueued f))"
proof -
  have ok: "frames_ok s" unfolding s by (rule frames_machine.inv_run [OF frames_ok_initial [OF new]])
  show ?thesis using frames_okD(1) [OF ok f] frames_okD(3) [OF ok] gone
    by (auto simp: placed_def discarding_def stage_ok_def flight_settled_def resolved_def frame_done_def)
qed

text \<open>
  C22. Safety: the frames go over the wire in the order in which the queue accepted them, each at most as often
  as it was accepted, and a receipt reports success only for a frame whose \<open>send\<close> has returned.
\<close>

theorem connector_sends_in_order:
  assumes new: "new_connector port timeout = Inr c" "tq_queue q = []" and s: "s = connector_run sink c q ops"
  shows "subseq (cx_sent s) (cx_accepted s) \<and>
    (\<forall>f. rc_done (cx_receipts s f) \<and> rc_error (cx_receipts s f) = None \<longrightarrow> f \<in> set (cx_sent s))"
proof -
  have ok: "frames_ok s" unfolding s by (rule frames_machine.inv_run [OF frames_ok_initial [OF new]])
  have "subseq (cx_taken s) (cx_accepted s)" "subseq (cx_sent s) (cx_taken s)"
    using frames_okD(5) [OF ok] by (auto simp: wire_order_ok_def dest: subseq_front)
  then show ?thesis using frames_okD(6) [OF ok] by (auto simp: won_ok_def frame_won_def intro: subseq_order.trans)
qed

text \<open>
  Invariant: however often the client reports that the connection has closed, and whether it was ever
  open, the connector publishes at most one \<open>Disconnected\<close> event, and exactly one by the end of
  \<open>run_forever\<close>.
\<close>

theorem connector_disconnects_once:
  assumes new: "new_connector port timeout = Inr c" "tq_queue q = []" and s: "s = connector_run sink c q ops"
  shows "length (filter is_disconnected (cx_events s)) \<le> 1 \<and>
    (cx_run s = RunGone \<longrightarrow> length (filter is_disconnected (cx_events s)) = 1)"
proof -
  have "announced_ok s" using announced_machine.inv_run [OF connector_ok_initial [OF new]]
    unfolding s connector_ok_def by blast
  then show ?thesis by (cases "cx_run s") (auto simp: announced_ok_def split: if_splits)
qed


section \<open>Concrete histories\<close>

definition plain_answers :: sender_answers where
  "plain_answers = \<lparr>sa_expired = False, sa_source = None, sa_is_text = True, sa_begins = True, sa_send = None, sa_close = None\<rparr>"

text \<open>One frame is sent, a second one waits in the queue when the client reports the end of the connection.\<close>

definition sample_history :: "connector_op list" where
  "sample_history =
     [RunForever True, ClientOpens None, OfferFrame 7 2, SenderStep plain_answers, SenderStep plain_answers,
      SenderStep plain_answers, SenderStep plain_answers, SenderStep plain_answers, SenderStep plain_answers,
      SenderStep plain_answers, OfferFrame 8 3, ClientReturns None, RunStep, RunStep, RunStep, RunStep, RunStep, RunStep, RunStep]"

definition sample_connector :: connector where
  "sample_connector = (case new_connector (PInt 8080) PNone of Inr c \<Rightarrow> c)"

definition sample_tq :: "nat transport_queue" where
  "sample_tq = (case new_transport_queue 4 1000 100 of Inr q \<Rightarrow> q)"

lemma sample_new: "new_connector (PInt 8080) PNone = Inr sample_connector" "tq_queue sample_tq = []"
  by (simp_all add: sample_connector_def new_connector_def validate_timeout_def sample_tq_def new_transport_queue_def)

lemmas sample_run = validate_timeout_def sample_history_def plain_answers_def sample_connector_def new_connector_def sample_tq_def
  new_transport_queue_def connector_initial_def run_begin_def on_open_def publish_session_event_def
  tq_submit_begin_def tq_submit_loop_def tq_over_capacity_def tq_append_def sender_step_def sender_wait_def
  sender_poll_def tq_receive_attempt_def sender_look_def sender_begin_def sender_send_def sender_sent_def
  finish_frame_def receipt_finish_def new_receipt_def sender_clear_def clear_in_flight_def disconnect_begin_def
  tq_stop_accepting_def run_step_def discard_step_def discard_frame_def

definition sample_end :: connector_system where
  "sample_end = connector_run (\<lambda>_. True) sample_connector sample_tq sample_history"

lemma sample_end:
  "cx_run sample_end = RunGone \<and> cx_accepted sample_end = [7, 8] \<and> cx_sent sample_end = [7] \<and>
   rc_done (cx_receipts sample_end 7) \<and> rc_error (cx_receipts sample_end 7) = None"
  unfolding sample_end_def by (simp add: sample_run Let_def)


lemma connector_loses_no_frame_witness: "rc_done (cx_receipts sample_end 8) \<or> 8 \<in> set (cx_refused sample_end) \<or>
    cx_sender sample_end = SenderTaken 8 \<or> cx_sender sample_end = SenderUnsent 8 \<or>
    (\<exists>e. cx_sender sample_end = SenderDiscarding e (SettleQueued 8)) \<or>
    (\<exists>e. cx_close sample_end = CloseDiscarding e (SettleQueued 8))"
  using connector_loses_no_frame [OF sample_new sample_end_def, of 8] sample_end by simp

lemma connector_sends_in_order_witness: "subseq (cx_sent sample_end) (cx_accepted sample_end) \<and> 7 \<in> set (cx_sent sample_end)"
  using connector_sends_in_order [OF sample_new sample_end_def] sample_end by blast

lemma connector_disconnects_once_witness: "length (filter is_disconnected (cx_events sample_end)) = 1"
  using connector_disconnects_once [OF sample_new sample_end_def] sample_end by blast

end
