(* ===== verification/Boundary.thy ===== *)
theory Boundary
  imports Lifecycle InboundQueue Connector OutboundQueue "HOL-Library.Sublist"
begin

text \<open>
  boundary/composition.py: the boundary that owns the queues, the reader, the writer and the connector. Its
  \<open>run_forever\<close> starts the consumers before the transport; its \<open>close\<close> hands the shutdown of all parts to a
  worker, which is modelled as the list of stages that it has yet to do, a step a stage. What the parts
  answer, the clock and the ends of waits are given with the step. The shutdown state is that of theory
  Lifecycle, the state of the sink of commands that of theory OutboundQueue.
\<close>

section \<open>State\<close>

record shutdown_config =
  sc_raw_inbound_drain :: "rat option"
  sc_inbound_event_drain :: "rat option"
  sc_outbound_command_drain :: "rat option"
  sc_raw_outbound_drain :: "rat option"
  sc_session_event_drain :: "rat option"
  sc_worker_stop :: "rat option"
  sc_connector_stop :: "rat option"

text \<open>The check of one field, and of all of them in the order of the fields.\<close>

definition validate_stage_timeout :: "string \<Rightarrow> pyval \<Rightarrow> exn + rat option" where
  "validate_stage_timeout field v = validate_timeout (field @ '' must be a non-negative finite number or None'') v"

definition new_shutdown_config ::
    "pyval \<Rightarrow> pyval \<Rightarrow> pyval \<Rightarrow> pyval \<Rightarrow> pyval \<Rightarrow> pyval \<Rightarrow> pyval \<Rightarrow> exn + shutdown_config" where
  "new_shutdown_config a b c d e f g =
     rbind (validate_stage_timeout ''raw_inbound_drain_timeout'' a) (\<lambda>a'.
     rbind (validate_stage_timeout ''inbound_event_drain_timeout'' b) (\<lambda>b'.
     rbind (validate_stage_timeout ''outbound_command_drain_timeout'' c) (\<lambda>c'.
     rbind (validate_stage_timeout ''raw_outbound_drain_timeout'' d) (\<lambda>d'.
     rbind (validate_stage_timeout ''session_event_drain_timeout'' e) (\<lambda>e'.
     rbind (validate_stage_timeout ''worker_stop_timeout'' f) (\<lambda>f'.
     rbind (validate_stage_timeout ''connector_stop_timeout'' g) (\<lambda>g'.
     Inr \<lparr>sc_raw_inbound_drain = a', sc_inbound_event_drain = b', sc_outbound_command_drain = c',
       sc_raw_outbound_drain = d', sc_session_event_drain = e', sc_worker_stop = f', sc_connector_stop = g'\<rparr>)))))))"

datatype part =
    RawInbound | ReaderPart | InboundEvents | OutboundCommands | WriterPart | RawOutbound | SessionEvents

fun part_name :: "part \<Rightarrow> string" where
  "part_name RawInbound = ''Raw inbound queue''"
| "part_name ReaderPart = ''Event reader''"
| "part_name InboundEvents = ''Inbound event queue''"
| "part_name OutboundCommands = ''Outbound command queue''"
| "part_name WriterPart = ''Command writer''"
| "part_name RawOutbound = ''Raw outbound queue''"
| "part_name SessionEvents = ''Session event queue''"

text \<open>
  The stages of the shutdown, the time limit of each as configured. A call under \<open>_safe_call\<close> is two
  stages, since it is reported pending in between.
\<close>

datatype stage =
    PendStopAccepting part
  | StopAccepting part
  | DrainPart part "rat option"
  | DrainStarted part "rat option"
  | StopPart part "rat option"
  | ShutPart part "rat option"
  | BeginStoppingSink
  | ReportSender
  | PendConnectorClose
  | CloseConnector
  | AwaitRun "rat option"
  | PendStopEarly
  | StopEarly
  | AwaitRunAgain "rat option"
  | LastStop part
  | JoinSender
  | AwaitRunEnd
  | ReportWorkers
  | EndState
  | EndSink
  | EndPending
  | EndEvent

datatype answer = Returns bool | Raises bool failure_object

datatype run_stage =
    NotRunning
  | StartingReader
  | StartingWriter
  | RunningConnector
  | EndingRun "failure_object option"
  | ClosingAfterRun bool "failure_object option"
  | RunLeft "failure_object option"

text \<open>\<open>bd_stages\<close>: what the worker of \<open>close\<close> has yet to do; \<open>bd_done\<close>: what it has done, with the answers.\<close>

record boundary =
  bd_config :: shutdown_config
  bd_shutdown :: shutdown_state
  bd_sink :: sink_state
  bd_failure :: "failure_object option"
  bd_run_started :: bool
  bd_reader_started :: bool
  bd_writer_started :: bool
  bd_closing :: bool
  bd_closed :: bool
  bd_close_owner :: bool
  bd_lifecycle_thread :: bool
  bd_close_completed :: bool
  bd_workers_stopped :: bool
  bd_run_finished :: bool
  bd_all_stopped :: bool
  bd_run :: run_stage
  bd_stages :: "stage list"
  bd_done :: "(stage \<times> answer) list"

definition new_boundary :: "shutdown_config \<Rightarrow> rat option \<Rightarrow> boundary" where
  "new_boundary config timeout =
     \<lparr>bd_config = config, bd_shutdown = new_shutdown_state timeout, bd_sink = SinkCreated, bd_failure = None,
      bd_run_started = False, bd_reader_started = False, bd_writer_started = False, bd_closing = False,
      bd_closed = False, bd_close_owner = False, bd_lifecycle_thread = False, bd_close_completed = False,
      bd_workers_stopped = False, bd_run_finished = False, bd_all_stopped = True, bd_run = NotRunning,
      bd_stages = [], bd_done = []\<rparr>"

section \<open>The shutdown\<close>

definition close_ending :: "stage list" where
  "close_ending = [EndState, EndSink, EndPending, EndEvent]"

text \<open>\<open>_close_owned\<close> and the end of \<open>_finish_close\<close>.\<close>

definition close_first :: "shutdown_config \<Rightarrow> stage list" where
  "close_first c =
     [PendStopAccepting RawInbound, StopAccepting RawInbound, DrainPart RawInbound (sc_raw_inbound_drain c),
      DrainStarted ReaderPart (sc_raw_inbound_drain c), StopPart ReaderPart (sc_worker_stop c),
      ShutPart RawInbound (Some 0),
      PendStopAccepting InboundEvents, StopAccepting InboundEvents, ShutPart InboundEvents (sc_inbound_event_drain c),
      BeginStoppingSink,
      PendStopAccepting OutboundCommands, StopAccepting OutboundCommands,
      DrainPart OutboundCommands (sc_outbound_command_drain c),
      DrainStarted WriterPart (sc_outbound_command_drain c), StopPart WriterPart (sc_worker_stop c),
      ShutPart OutboundCommands (Some 0),
      PendStopAccepting RawOutbound, StopAccepting RawOutbound, DrainPart RawOutbound (sc_raw_outbound_drain c),
      ReportSender, PendConnectorClose, CloseConnector, AwaitRun (sc_connector_stop c)]"

definition close_last :: "shutdown_config \<Rightarrow> stage list" where
  "close_last c =
     [ShutPart RawOutbound (Some 0),
      PendStopAccepting SessionEvents, StopAccepting SessionEvents, ShutPart SessionEvents (sc_session_event_drain c),
      LastStop ReaderPart, LastStop WriterPart, JoinSender, AwaitRunEnd, ReportWorkers]"

definition close_script :: "shutdown_config \<Rightarrow> stage list" where
  "close_script c = close_first c @ close_last c @ close_ending"

text \<open>What an expired wait for the connector adds: the session queue stops accepting early, and a second wait.\<close>

definition close_retry :: "shutdown_config \<Rightarrow> stage list" where
  "close_retry c = [PendStopEarly, StopEarly, AwaitRunAgain (sc_worker_stop c)]"

definition upd_shutdown :: "(shutdown_state \<Rightarrow> shutdown_state) \<Rightarrow> boundary \<Rightarrow> boundary" where
  "upd_shutdown f b = b\<lparr>bd_shutdown := f (bd_shutdown b)\<rparr>"

text \<open>What a stage does: it goes on, or raises what nothing in \<open>_close_owned\<close> catches.\<close>

datatype stage_result = Goes boundary | Waits | Escapes failure_object boundary

text \<open>\<open>_safe_drain\<close>, \<open>_safe_stop\<close> and \<open>_safe_shutdown\<close>: the stage that a failure names, and the one of a timeout.\<close>

definition safe_timed :: "string \<Rightarrow> string \<Rightarrow> (bool \<Rightarrow> boundary \<Rightarrow> boundary) \<Rightarrow> answer \<Rightarrow> boundary \<Rightarrow> stage_result" where
  "safe_timed failing late report a b =
     (case a of
        Returns r \<Rightarrow> Goes (let b1 = report r b in if r then b1 else upd_shutdown (shutdown_timed_out late) b1)
      | Raises is_exn e \<Rightarrow> if is_exn then Goes (upd_shutdown (shutdown_failed failing e) b) else Escapes e b)"

text \<open>The second half of \<open>_safe_call\<close>.\<close>

definition safe_call_end :: "string \<Rightarrow> answer \<Rightarrow> boundary \<Rightarrow> stage_result" where
  "safe_call_end name a b =
     (case a of
        Returns r \<Rightarrow> Goes (upd_shutdown (shutdown_pending name False) b)
      | Raises is_exn e \<Rightarrow>
          if is_exn then Goes (upd_shutdown (shutdown_pending name False \<circ> shutdown_failed name e) b)
          else Escapes e (upd_shutdown (shutdown_pending name False) b))"

definition part_started :: "boundary \<Rightarrow> part \<Rightarrow> bool" where
  "part_started b p = (case p of ReaderPart \<Rightarrow> bd_reader_started b | WriterPart \<Rightarrow> bd_writer_started b | _ \<Rightarrow> False)"

text \<open>\<open>_wait_for_connector_run\<close>: the worker of \<open>close\<close> is never the thread that runs the boundary.\<close>

definition await_run :: "bool \<Rightarrow> boundary \<Rightarrow> (boundary \<times> bool) option" where
  "await_run expired b =
     (if \<not> bd_run_started b then Some (b, True)
      else if bd_run_finished b then Some (upd_shutdown (shutdown_worker ''WebSocket connector'' True) b, True)
      else if expired then
        Some (upd_shutdown (shutdown_worker ''WebSocket connector'' False \<circ>
          shutdown_timed_out ''WebSocket connector stop'') b, False)
      else None)"

definition stage_step :: "answer \<Rightarrow> bool \<Rightarrow> stage \<Rightarrow> boundary \<Rightarrow> stage_result" where
  "stage_step a expired st b =
     (case st of
        PendStopAccepting p \<Rightarrow> Goes (upd_shutdown (shutdown_pending (part_name p @ '' stop_accepting'') True) b)
      | StopAccepting p \<Rightarrow> safe_call_end (part_name p @ '' stop_accepting'') a b
      | DrainPart p limit \<Rightarrow> safe_timed (part_name p @ '' drain'') (part_name p @ '' drain'') (\<lambda>_. id) a b
      | DrainStarted p limit \<Rightarrow>
          if part_started b p then
            safe_timed (part_name p @ '' drain'') (part_name p @ '' drain'') (\<lambda>_. id) a b
          else Goes b
      | StopPart p limit \<Rightarrow>
          safe_timed (part_name p @ '' stop'') (part_name p @ '' stop'')
            (\<lambda>r. upd_shutdown (shutdown_worker (part_name p) r)) a b
      | ShutPart p limit \<Rightarrow> safe_timed (part_name p @ '' shutdown'') (part_name p @ '' drain'') (\<lambda>_. id) a b
      | BeginStoppingSink \<Rightarrow> Goes (b\<lparr>bd_sink := sink_begin_stopping (bd_sink b)\<rparr>)
      | ReportSender \<Rightarrow> Goes (upd_shutdown (shutdown_worker ''WebSocket sender'' False) b)
      | PendConnectorClose \<Rightarrow> Goes (upd_shutdown (shutdown_pending ''WebSocket connector close'' True) b)
      | CloseConnector \<Rightarrow> safe_call_end ''WebSocket connector close'' a b
      | AwaitRun limit \<Rightarrow>
          (case await_run expired b of
             None \<Rightarrow> Waits
           | Some (b1, ended) \<Rightarrow>
               Goes (if \<not> ended then b1\<lparr>bd_stages := close_retry (bd_config b1) @ bd_stages b1\<rparr> else b1))
      | PendStopEarly \<Rightarrow> Goes (upd_shutdown (shutdown_pending ''Session event queue stop_accepting'' True) b)
      | StopEarly \<Rightarrow> safe_call_end ''Session event queue stop_accepting'' a b
      | AwaitRunAgain limit \<Rightarrow> (case await_run expired b of None \<Rightarrow> Waits | Some (b1, ended) \<Rightarrow> Goes b1)
      | LastStop p \<Rightarrow>
          (case a of
             Returns r \<Rightarrow> Goes ((upd_shutdown (shutdown_worker (part_name p) r) b)\<lparr>bd_all_stopped := bd_all_stopped b \<and> r\<rparr>)
           | Raises is_exn e \<Rightarrow> Escapes e b)
      | JoinSender \<Rightarrow>
          if expired then Goes (upd_shutdown (shutdown_worker ''WebSocket sender'' True) b) else Waits
      | AwaitRunEnd \<Rightarrow> if bd_run_started b \<and> \<not> bd_run_finished b then Waits else Goes b
      | ReportWorkers \<Rightarrow> Goes (b\<lparr>bd_workers_stopped := bd_workers_stopped b \<or> bd_all_stopped b\<rparr>)
      | EndState \<Rightarrow> Goes (b\<lparr>bd_closed := True, bd_close_owner := False\<rparr>)
      | EndSink \<Rightarrow> Goes (b\<lparr>bd_sink := sink_mark_closed (bd_sink b)\<rparr>)
      | EndPending \<Rightarrow> Goes (upd_shutdown (shutdown_pending ''Boundary cleanup'' False) b)
      | EndEvent \<Rightarrow> Goes (b\<lparr>bd_close_completed := True\<rparr>))"

text \<open>
  The worker does its next stage. The flag ends a wait: the time of \<open>_wait_for_connector_run\<close> is over, or
  the sender thread has ended. What escapes is recorded, and the ending follows.
\<close>

definition close_worker_step :: "answer \<Rightarrow> bool \<Rightarrow> boundary \<Rightarrow> boundary" where
  "close_worker_step a expired b =
     (case bd_stages b of
        [] \<Rightarrow> b
      | st # rest \<Rightarrow>
          (case stage_step a expired st (b\<lparr>bd_stages := rest\<rparr>) of
             Waits \<Rightarrow> b
           | Goes b' \<Rightarrow> b'\<lparr>bd_done := bd_done b' @ [(st, a)]\<rparr>
           | Escapes e b' \<Rightarrow>
               (upd_shutdown (shutdown_failed ''Boundary cleanup'' e) b')
                 \<lparr>bd_stages := close_ending, bd_done := bd_done b' @ [(st, a)]\<rparr>))"

text \<open>\<open>close\<close> up to its wait; whether the caller owns the shutdown.\<close>

definition boundary_close :: "rat \<Rightarrow> failure_object option \<Rightarrow> boundary \<Rightarrow> boundary \<times> bool" where
  "boundary_close now start_failure b =
     (let b1 = upd_shutdown (shutdown_begin now) b in
      if bd_close_completed b1 \<or> bd_closing b1 then (b1, False)
      else
        (let b2 = upd_shutdown (shutdown_pending ''Boundary cleanup'' True) (b1\<lparr>bd_closing := True, bd_close_owner := True\<rparr>) in
         case start_failure of
           None \<Rightarrow> (b2\<lparr>bd_stages := close_script (bd_config b2)\<rparr>, True)
         | Some e \<Rightarrow>
             ((upd_shutdown (shutdown_failed ''Boundary close worker start'' e) b2)\<lparr>bd_close_completed := True\<rparr>, True)))"

text \<open>The end of the owner's wait in \<open>close\<close>.\<close>

definition close_wait_ends :: "boundary \<Rightarrow> boundary" where
  "close_wait_ends b = (if bd_close_completed b then b else upd_shutdown (shutdown_timed_out ''Boundary cleanup'') b)"

section \<open>Running\<close>

definition boundary_run_begin :: "boundary \<Rightarrow> boundary \<times> exn option" where
  "boundary_run_begin b =
     (if bd_run_started b then (b, Some (LifecycleError ''Boundary can only be run once''))
      else if bd_closing b \<or> bd_closed b then (b, Some (LifecycleError ''Boundary has already been closed''))
      else
        (upd_shutdown (shutdown_worker ''Event reader'' False)
           (b\<lparr>bd_run_started := True, bd_lifecycle_thread := True, bd_sink := sink_begin_starting (bd_sink b),
              bd_run := StartingReader\<rparr>), None))"

text \<open>
  The thread of \<open>run_forever\<close> goes on, with the answer of the call it is in, the clock and the start of the worker for
  its own \<open>close\<close>, and whether the wait of that call ends.
\<close>

definition boundary_run_step :: "answer \<Rightarrow> rat \<Rightarrow> failure_object option \<Rightarrow> bool \<Rightarrow> boundary \<Rightarrow> boundary" where
  "boundary_run_step a now start_failure expired b =
     (let failed = (case a of Returns r \<Rightarrow> None | Raises is_exn e \<Rightarrow> Some e) in
      case bd_run b of
        StartingReader \<Rightarrow>
          (case failed of
             Some e \<Rightarrow> b\<lparr>bd_run := EndingRun (Some e)\<rparr>
           | None \<Rightarrow>
               upd_shutdown (shutdown_worker ''Command writer'' False)
                 (b\<lparr>bd_reader_started := True, bd_run := StartingWriter\<rparr>))
      | StartingWriter \<Rightarrow>
          (case failed of
             Some e \<Rightarrow> b\<lparr>bd_run := EndingRun (Some e)\<rparr>
           | None \<Rightarrow>
               upd_shutdown (shutdown_worker ''WebSocket connector'' False)
                 (b\<lparr>bd_writer_started := True, bd_sink := sink_mark_ready (bd_sink b), bd_run := RunningConnector\<rparr>))
      | RunningConnector \<Rightarrow> b\<lparr>bd_run := EndingRun failed\<rparr>
      | EndingRun err \<Rightarrow>
          (case boundary_close now start_failure
             (upd_shutdown (shutdown_worker ''WebSocket connector'' True) (b\<lparr>bd_run_finished := True\<rparr>)) of
             (b1, owns) \<Rightarrow> b1\<lparr>bd_run := ClosingAfterRun owns err\<rparr>)
      | ClosingAfterRun owns err \<Rightarrow>
          if owns \<and> \<not> bd_close_completed b \<and> \<not> expired then b
          else
            (let b1 = (if owns then close_wait_ends b else b) in
             b1\<lparr>bd_lifecycle_thread := False,
               bd_run := RunLeft (case err of Some e \<Rightarrow> Some e | None \<Rightarrow> bd_failure b1)\<rparr>)
      | _ \<Rightarrow> b)"

text \<open>\<open>_on_worker_failure\<close> up to its callback, which closes from another thread.\<close>

definition on_worker_failure :: "rat \<Rightarrow> failure_object \<Rightarrow> boundary \<Rightarrow> boundary" where
  "on_worker_failure now e b =
     upd_shutdown (shutdown_begin now)
       (if bd_failure b = None then upd_shutdown (set_primary_failure e) (b\<lparr>bd_failure := Some e\<rparr>) else b)"

section \<open>Histories\<close>

datatype boundary_op =
    RunBegin
  | RunStep answer rat "failure_object option" bool
  | CloseCall rat "failure_object option"
  | CloseWaitEnds
  | CloseWorker answer bool
  | WorkerFails rat failure_object

fun boundary_step :: "boundary_op \<Rightarrow> boundary \<Rightarrow> boundary" where
  "boundary_step RunBegin b = fst (boundary_run_begin b)"
| "boundary_step (RunStep a now start_failure expired) b = boundary_run_step a now start_failure expired b"
| "boundary_step (CloseCall now start_failure) b = fst (boundary_close now start_failure b)"
| "boundary_step CloseWaitEnds b = (if bd_closing b then close_wait_ends b else b)"
| "boundary_step (CloseWorker a expired) b = close_worker_step a expired b"
| "boundary_step (WorkerFails now e) b = on_worker_failure now e b"

abbreviation boundary_run :: "shutdown_config \<Rightarrow> rat option \<Rightarrow> boundary_op list \<Rightarrow> boundary" where
  "boundary_run config timeout ops \<equiv> fold boundary_step ops (new_boundary config timeout)"


section \<open>Invariant\<close>

text \<open>All stages in order, the early stop of the session queue included, and the place of each.\<close>

definition close_order :: "shutdown_config \<Rightarrow> stage list" where
  "close_order c = close_first c @ close_retry c @ close_last c @ close_ending"

fun stage_rank :: "stage \<Rightarrow> nat" where
  "stage_rank (PendStopAccepting p) =
     (case p of RawInbound \<Rightarrow> 0 | InboundEvents \<Rightarrow> 6 | OutboundCommands \<Rightarrow> 10 | RawOutbound \<Rightarrow> 16 | _ \<Rightarrow> 27)"
| "stage_rank (StopAccepting p) =
     (case p of RawInbound \<Rightarrow> 1 | InboundEvents \<Rightarrow> 7 | OutboundCommands \<Rightarrow> 11 | RawOutbound \<Rightarrow> 17 | _ \<Rightarrow> 28)"
| "stage_rank (DrainPart p limit) = (case p of RawInbound \<Rightarrow> 2 | OutboundCommands \<Rightarrow> 12 | _ \<Rightarrow> 18)"
| "stage_rank (DrainStarted p limit) = (case p of ReaderPart \<Rightarrow> 3 | _ \<Rightarrow> 13)"
| "stage_rank (StopPart p limit) = (case p of ReaderPart \<Rightarrow> 4 | _ \<Rightarrow> 14)"
| "stage_rank (ShutPart p limit) =
     (case p of RawInbound \<Rightarrow> 5 | InboundEvents \<Rightarrow> 8 | OutboundCommands \<Rightarrow> 15 | RawOutbound \<Rightarrow> 26 | _ \<Rightarrow> 29)"
| "stage_rank BeginStoppingSink = 9"
| "stage_rank ReportSender = 19"
| "stage_rank PendConnectorClose = 20"
| "stage_rank CloseConnector = 21"
| "stage_rank (AwaitRun limit) = 22"
| "stage_rank PendStopEarly = 23"
| "stage_rank StopEarly = 24"
| "stage_rank (AwaitRunAgain limit) = 25"
| "stage_rank (LastStop p) = (case p of ReaderPart \<Rightarrow> 30 | _ \<Rightarrow> 31)"
| "stage_rank JoinSender = 32"
| "stage_rank AwaitRunEnd = 33"
| "stage_rank ReportWorkers = 34"
| "stage_rank EndState = 35"
| "stage_rank EndSink = 36"
| "stage_rank EndPending = 37"
| "stage_rank EndEvent = 38"

definition before :: "stage \<Rightarrow> stage \<Rightarrow> bool" where
  "before x y \<longleftrightarrow> stage_rank x < stage_rank y"

lemmas close_lists = close_first_def close_retry_def close_last_def close_ending_def

lemma close_order_sorted: "sorted_wrt before (close_order c)"
  by (simp add: close_order_def close_lists before_def)

lemma sorted_subseq:
  assumes "sorted_wrt before xs" "sorted_wrt before ys" "set xs \<subseteq> set ys"
  shows "subseq xs ys"
  using assms
proof (induction ys arbitrary: xs)
  case (Cons y ys)
  show ?case
  proof (cases xs)
    case (Cons x xs')
    show ?thesis
    proof (cases "x = y")
      case True
      then have "set xs' \<subseteq> set ys" using Cons Cons.prems by (auto simp: before_def)
      then show ?thesis using Cons Cons.IH [of xs'] Cons.prems True by simp
    next
      case False
      then have "before y x" using Cons Cons.prems by auto
      then have "y \<notin> set xs" using Cons Cons.prems(1) by (auto simp: before_def)
      then have "set xs \<subseteq> set ys" using Cons.prems(3) by auto
      then show ?thesis using Cons.IH [of xs] Cons.prems by (simp add: list_emb_Cons)
    qed
  qed simp
qed simp


text \<open>What a stage needed to pass without a failure or a timeout being reported.\<close>

fun passed :: "stage \<Rightarrow> answer \<Rightarrow> bool" where
  "passed (StopAccepting p) a = (\<exists>r. a = Returns r)"
| "passed CloseConnector a = (\<exists>r. a = Returns r)"
| "passed (DrainPart p limit) a = (a = Returns True)"
| "passed (StopPart p limit) a = (a = Returns True)"
| "passed (ShutPart p limit) a = (a = Returns True)"
| "passed (LastStop p) a = (\<exists>r. a = Returns r)"
| "passed _ a = True"

definition clean :: "boundary \<Rightarrow> bool" where
  "clean b \<longleftrightarrow> sh_failures (bd_shutdown b) = [] \<and> sh_timeouts (bd_shutdown b) = []"

definition stages_done :: "boundary \<Rightarrow> stage list" where
  "stages_done b = map fst (bd_done b)"

definition in_order :: "boundary \<Rightarrow> bool" where
  "in_order b \<longleftrightarrow> (let all = stages_done b @ bd_stages b in
     sorted_wrt before all \<and> set all \<subseteq> set (close_order (bd_config b)) \<and>
     ((\<exists>us. bd_stages b = us @ close_ending) \<or> (\<exists>us. close_ending = us @ bd_stages b)) \<and>
     ((\<exists>l. AwaitRun l \<in> set (bd_stages b)) \<longrightarrow> set (bd_stages b) \<subseteq> set (close_script (bd_config b))))"

definition progress_ok :: "boundary \<Rightarrow> bool" where
  "progress_ok b \<longleftrightarrow>
     (\<not> bd_closing b \<longrightarrow> bd_stages b = [] \<and> bd_done b = [] \<and> \<not> bd_close_completed b) \<and>
     (bd_closing b \<longrightarrow> (bd_stages b = [] \<longleftrightarrow> bd_close_completed b)) \<and>
     (bd_closing b \<and> clean b \<longrightarrow>
        stages_done b @ bd_stages b = close_script (bd_config b) \<and> (\<forall>(st, a) \<in> set (bd_done b). passed st a))"

definition effects_ok :: "boundary \<Rightarrow> bool" where
  "effects_ok b \<longleftrightarrow>
     (EndSink \<in> set (stages_done b) \<longrightarrow> bd_sink b = SinkClosed) \<and>
     (AwaitRunEnd \<in> set (stages_done b) \<longrightarrow> bd_run_started b \<longrightarrow> bd_run_finished b) \<and>
     (ReportWorkers \<in> set (stages_done b) \<longrightarrow> bd_all_stopped b \<longrightarrow> bd_workers_stopped b)"

definition last_stops_ok :: "boundary \<Rightarrow> bool" where
  "last_stops_ok b \<longleftrightarrow>
     (\<not> bd_all_stopped b \<longrightarrow> (\<exists>p \<in> {ReaderPart, WriterPart}. LastStop p \<in> set (stages_done b) \<and>
        map_of (sh_workers (bd_shutdown b)) (part_name p) = Some False))"

definition boundary_ok :: "boundary \<Rightarrow> bool" where
  "boundary_ok b \<longleftrightarrow> in_order b \<and> progress_ok b \<and> effects_ok b \<and> last_stops_ok b"

lemma upd_shutdown_simps [simp]:
  "bd_config (upd_shutdown f b) = bd_config b" "bd_sink (upd_shutdown f b) = bd_sink b"
  "bd_failure (upd_shutdown f b) = bd_failure b" "bd_run_started (upd_shutdown f b) = bd_run_started b"
  "bd_reader_started (upd_shutdown f b) = bd_reader_started b" "bd_writer_started (upd_shutdown f b) = bd_writer_started b"
  "bd_closing (upd_shutdown f b) = bd_closing b" "bd_closed (upd_shutdown f b) = bd_closed b"
  "bd_close_completed (upd_shutdown f b) = bd_close_completed b" "bd_workers_stopped (upd_shutdown f b) = bd_workers_stopped b"
  "bd_run_finished (upd_shutdown f b) = bd_run_finished b" "bd_all_stopped (upd_shutdown f b) = bd_all_stopped b"
  "bd_run (upd_shutdown f b) = bd_run b" "bd_stages (upd_shutdown f b) = bd_stages b"
  "bd_done (upd_shutdown f b) = bd_done b" "bd_shutdown (upd_shutdown f b) = f (bd_shutdown b)"
  by (simp_all add: upd_shutdown_def)

lemma shutdown_simps [simp]:
  "sh_failures (shutdown_pending n x s) = sh_failures s" "sh_timeouts (shutdown_pending n x s) = sh_timeouts s"
  "sh_workers (shutdown_pending n x s) = sh_workers s"
  "sh_failures (shutdown_worker n x s) = sh_failures s" "sh_timeouts (shutdown_worker n x s) = sh_timeouts s"
  "sh_workers (shutdown_worker n x s) = AList.update n x (sh_workers s)"
  "sh_failures (shutdown_failed n e s) = sh_failures s @ [\<lparr>sf_stage = n, sf_error = e\<rparr>]"
  "sh_timeouts (shutdown_failed n e s) = sh_timeouts s" "sh_workers (shutdown_failed n e s) = sh_workers s"
  "sh_failures (shutdown_timed_out n s) = sh_failures s" "sh_workers (shutdown_timed_out n s) = sh_workers s"
  "sh_timeouts (shutdown_timed_out n s) = [] \<longleftrightarrow> False"
  "sh_failures (shutdown_begin now s) = sh_failures s" "sh_timeouts (shutdown_begin now s) = sh_timeouts s"
  "sh_workers (shutdown_begin now s) = sh_workers s"
  "sh_failures (set_primary_failure e s) = sh_failures s" "sh_timeouts (set_primary_failure e s) = sh_timeouts s"
  "sh_workers (set_primary_failure e s) = sh_workers s"
  by (auto simp: shutdown_ops Let_def)

text \<open>Stages that change the shutdown state only.\<close>

definition only_reports :: "bool \<Rightarrow> boundary \<Rightarrow> boundary \<Rightarrow> bool" where
  "only_reports fine b b' \<longleftrightarrow> (\<exists>f. b' = upd_shutdown f b) \<and> (clean b' \<longrightarrow> clean b \<and> fine)"

lemma upd_upd [simp]: "upd_shutdown f (upd_shutdown g b) = upd_shutdown (f \<circ> g) b"
  by (simp add: upd_shutdown_def)

lemma only_reports_upd: "only_reports fine b (upd_shutdown f b) \<longleftrightarrow> (clean (upd_shutdown f b) \<longrightarrow> clean b \<and> fine)"
  by (auto simp: only_reports_def)

lemma only_reports_refl: "only_reports True b b"
proof -
  have "b = upd_shutdown id b" by (simp add: upd_shutdown_def)
  then show ?thesis unfolding only_reports_def by blast
qed

lemma safe_call_goes: "safe_call_end n a b = Goes b' \<Longrightarrow> only_reports (\<exists>r. a = Returns r) b b'"
  by (auto simp: safe_call_end_def only_reports_upd clean_def split: answer.splits if_splits)

lemma safe_timed_goes:
  "safe_timed f l (\<lambda>_. id) a b = Goes b' \<Longrightarrow> only_reports (a = Returns True) b b'"
  "safe_timed f l (\<lambda>r. upd_shutdown (shutdown_worker n r)) a b = Goes b' \<Longrightarrow> only_reports (a = Returns True) b b'"
  using only_reports_refl [of b]
  by (auto simp: safe_timed_def only_reports_upd clean_def Let_def split: answer.splits if_splits)

lemma await_run_goes:
  "await_run x b = Some (b', True) \<Longrightarrow> only_reports True b b'"
  "await_run x b = Some (b', False) \<Longrightarrow> only_reports False b b'"
  using only_reports_refl [of b] by (auto simp: await_run_def only_reports_upd clean_def split: if_splits)

fun reporting :: "stage \<Rightarrow> bool" where
  "reporting BeginStoppingSink = False"
| "reporting (AwaitRun l) = False"
| "reporting (LastStop p) = False"
| "reporting ReportWorkers = False"
| "reporting EndState = False"
| "reporting EndSink = False"
| "reporting EndEvent = False"
| "reporting _ = True"

lemma reporting_goes:
  assumes "stage_step a x st b = Goes b'" "reporting st"
  shows "only_reports (passed st a) b b'"
proof (cases st)
  case (StopAccepting p)
  then show ?thesis using assms safe_call_goes by (simp add: stage_step_def)
next
  case (DrainPart p l)
  then show ?thesis using assms safe_timed_goes(1) by (simp add: stage_step_def)
next
  case (DrainStarted p l)
  then show ?thesis using assms only_reports_refl [of b] safe_timed_goes(1) [of "part_name p @ '' drain''" "part_name p @ '' drain''" a b b']
    by (auto simp: stage_step_def only_reports_def split: if_splits)
next
  case (StopPart p l)
  then show ?thesis using assms safe_timed_goes(2) by (simp add: stage_step_def)
next
  case (ShutPart p l)
  then show ?thesis using assms safe_timed_goes(1) by (simp add: stage_step_def)
next
  case CloseConnector
  then show ?thesis using assms safe_call_goes by (simp add: stage_step_def)
next
  case StopEarly
  then show ?thesis using assms safe_call_goes [of "''Session event queue stop_accepting''" a b b']
    by (auto simp: stage_step_def only_reports_def)
next
  case (AwaitRunAgain l)
  then show ?thesis using assms await_run_goes [of x b b']
    by (auto simp: stage_step_def only_reports_def split: option.splits)
next
  case AwaitRunEnd
  then show ?thesis using assms only_reports_refl [of b] by (auto simp: stage_step_def split: if_splits)
qed (use assms in \<open>auto simp: stage_step_def only_reports_upd clean_def split: if_splits\<close>)

text \<open>What one stage changes.\<close>

definition stage_keeps :: "boundary \<Rightarrow> boundary \<Rightarrow> bool" where
  "stage_keeps b b' \<longleftrightarrow> bd_config b' = bd_config b \<and> bd_closing b' = bd_closing b \<and> bd_done b' = bd_done b \<and>
     bd_run b' = bd_run b \<and> bd_run_started b' = bd_run_started b \<and> bd_run_finished b' = bd_run_finished b"

definition stage_effect :: "stage \<Rightarrow> answer \<Rightarrow> boundary \<Rightarrow> boundary \<Rightarrow> bool" where
  "stage_effect st a b b' \<longleftrightarrow>
     (bd_stages b' = bd_stages b \<or>
      (\<exists>l. st = AwaitRun l \<and> bd_stages b' = close_retry (bd_config b) @ bd_stages b \<and> \<not> clean b')) \<and>
     (clean b' \<longrightarrow> clean b \<and> passed st a) \<and>
     bd_close_completed b' = (bd_close_completed b \<or> st = EndEvent) \<and>
     bd_sink b' = (if st = BeginStoppingSink then sink_begin_stopping (bd_sink b)
       else if st = EndSink then SinkClosed else bd_sink b) \<and>
     bd_workers_stopped b' = (bd_workers_stopped b \<or> st = ReportWorkers \<and> bd_all_stopped b) \<and>
     bd_all_stopped b' = (bd_all_stopped b \<and> (\<forall>p. st = LastStop p \<longrightarrow> a = Returns True))"

lemma stage_goes:
  assumes step: "stage_step a x st b = Goes b'"
  shows "stage_keeps b b'" "stage_effect st a b b'"
proof -
  have "stage_keeps b b' \<and> stage_effect st a b b'"
  proof (cases "reporting st")
    case True
    then have "st \<noteq> EndEvent" "st \<noteq> BeginStoppingSink" "st \<noteq> EndSink" "st \<noteq> ReportWorkers" "\<forall>p. st \<noteq> LastStop p" by auto
    then show ?thesis using reporting_goes [OF step True]
      by (auto simp: only_reports_def stage_keeps_def stage_effect_def)
  next
    case False
    show ?thesis
    proof (cases st)
      case (AwaitRun l)
      then obtain b1 ended where b1: "await_run x b = Some (b1, ended)"
        and b': "b' = (if \<not> ended then b1\<lparr>bd_stages := close_retry (bd_config b1) @ bd_stages b1\<rparr> else b1)"
        using step by (auto simp: stage_step_def split: option.splits)
      show ?thesis using await_run_goes [of x b b1] b1 b' AwaitRun
        by (cases ended) (auto simp: only_reports_def stage_keeps_def stage_effect_def clean_def)
    qed (use step False in \<open>auto simp: stage_step_def stage_keeps_def stage_effect_def clean_def sink_mark_closed_def
        split: answer.splits\<close>)
  qed
  then show "stage_keeps b b'" "stage_effect st a b b'" by simp_all
qed

lemma stage_ends_run: "stage_step a x AwaitRunEnd b = Goes b' \<Longrightarrow> bd_run_started b \<Longrightarrow> bd_run_finished b"
  by (simp add: stage_step_def split: if_splits)

fun escaping :: "stage \<Rightarrow> bool" where
  "escaping (StopAccepting p) = True"
| "escaping (DrainPart p l) = True"
| "escaping (DrainStarted p l) = True"
| "escaping (StopPart p l) = True"
| "escaping (ShutPart p l) = True"
| "escaping CloseConnector = True"
| "escaping StopEarly = True"
| "escaping (LastStop p) = True"
| "escaping _ = False"

lemma helpers_escape:
  "safe_call_end n a b = Escapes e b' \<Longrightarrow> b' = upd_shutdown (shutdown_pending n False) b"
  "safe_timed f l rep a b = Escapes e b' \<Longrightarrow> b' = b"
  by (auto simp: safe_call_end_def safe_timed_def Let_def split: answer.splits if_splits)

lemma stage_escapes:
  assumes step: "stage_step a x st b = Escapes e b'"
  shows "escaping st" "b' = b \<or> (\<exists>n. b' = upd_shutdown (shutdown_pending n False) b)"
proof -
  show e: "escaping st" using step by (cases st) (auto simp: stage_step_def split: option.splits if_splits answer.splits)
  show "b' = b \<or> (\<exists>n. b' = upd_shutdown (shutdown_pending n False) b)"
  proof (cases st)
    case (LastStop p)
    then show ?thesis using step by (simp add: stage_step_def split: answer.splits)
  qed (use e step in \<open>auto simp: stage_step_def split: if_splits dest: helpers_escape\<close>)
qed

text \<open>The lists of stages as the worker goes through them.\<close>

lemma ending_never_escapes: "st \<in> set close_ending \<Longrightarrow> \<not> escaping st"
  by (auto simp: close_ending_def)

lemma in_order_goes:
  assumes ok: "in_order b" and st: "bd_stages b = st # rest"
    and config: "bd_config b' = bd_config b" and b': "stages_done b' = stages_done b @ [st]" "bd_stages b' = rest"
  shows "in_order b'"
proof -
  have "\<exists>us. rest = us @ close_ending \<or> close_ending = us @ rest"
  proof -
    consider us where "st # rest = us @ close_ending" | us where "close_ending = us @ st # rest"
      using ok st by (auto simp: in_order_def Let_def)
    then show ?thesis
    proof cases
      case 1
      then show ?thesis by (cases us) (auto simp: close_ending_def intro: exI [of _ "[EndState]"])
    next
      case 2
      then have "close_ending = (us @ [st]) @ rest" by simp
      then show ?thesis by blast
    qed
  qed
  then show ?thesis using ok st config b' by (auto simp: in_order_def Let_def)
qed

lemma in_order_escapes:
  assumes ok: "in_order b" and st: "bd_stages b = st # rest" "escaping st"
    and config: "bd_config b' = bd_config b" and b': "stages_done b' = stages_done b @ [st]" "bd_stages b' = close_ending"
  shows "in_order b'"
proof -
  have "\<not> (\<exists>us. close_ending = us @ st # rest)" using st(2) ending_never_escapes [of st] in_set_conv_decomp [of st close_ending] by blast
  then obtain us where "st # rest = us @ close_ending" using ok st by (auto simp: in_order_def)
  then obtain us' where "rest = us' @ close_ending" using st(2) ending_never_escapes [of st]
    by (cases us) (auto simp: close_ending_def)
  then show ?thesis using ok st config b'
    by (auto simp: in_order_def Let_def sorted_wrt_append close_ending_def)
qed

lemma in_order_retry:
  assumes ok: "in_order b" and st: "bd_stages b = AwaitRun l # rest"
    and config: "bd_config b' = bd_config b" and b': "stages_done b' = stages_done b @ [AwaitRun l]"
      "bd_stages b' = close_retry (bd_config b) @ rest"
  shows "in_order b'"
proof -
  let ?c = "bd_config b"
  have sub: "set rest \<subseteq> set (close_script ?c)" using ok st by (auto simp: in_order_def)
  have after: "\<forall>y \<in> set rest. 22 < stage_rank y" using ok st by (auto simp: in_order_def before_def sorted_wrt_append)
  then have "\<forall>y \<in> set rest. y \<notin> set (close_first ?c)" by (auto simp: close_first_def)
  then have "set rest \<subseteq> set (close_last ?c @ close_ending)" using sub by (auto simp: close_script_def)
  then have "\<forall>y \<in> set rest. 25 < stage_rank y" by (auto simp: close_lists)
  moreover have "\<forall>x \<in> set (stages_done b). stage_rank x < 22" using ok st
    by (auto simp: in_order_def before_def sorted_wrt_append)
  ultimately have "sorted_wrt before (stages_done b' @ bd_stages b')"
    using ok st b' by (auto simp: in_order_def Let_def sorted_wrt_append close_retry_def before_def intro: less_trans)
  moreover have "set (stages_done b' @ bd_stages b') \<subseteq> set (close_order ?c)"
    using ok st b' by (auto simp: in_order_def Let_def close_order_def close_retry_def)
  moreover have "\<exists>us. bd_stages b' = us @ close_ending"
  proof -
    have "\<not> (\<exists>us. close_ending = us @ AwaitRun l # rest)"
    proof
      assume "\<exists>us. close_ending = us @ AwaitRun l # rest"
      then have "AwaitRun l \<in> set close_ending" using in_set_conv_decomp [of "AwaitRun l" close_ending] by blast
      then show False by (simp add: close_ending_def)
    qed
    then obtain us where "AwaitRun l # rest = us @ close_ending" using ok st by (auto simp: in_order_def)
    then obtain us' where "rest = us' @ close_ending" by (cases us) (auto simp: close_ending_def)
    then have "bd_stages b' = (close_retry ?c @ us') @ close_ending" using b' by simp
    then show ?thesis by blast
  qed
  moreover have "\<forall>l. AwaitRun l \<notin> set (bd_stages b')"
    using after b' by (auto simp: close_retry_def)
  ultimately show ?thesis using config by (simp add: in_order_def Let_def)
qed


section \<open>Every step keeps the invariant\<close>

lemma close_worker_cases:
  assumes "bd_stages b = st # rest"
  obtains (waits) "stage_step a x st (b\<lparr>bd_stages := rest\<rparr>) = Waits" "close_worker_step a x b = b"
  | (goes) b' where "stage_step a x st (b\<lparr>bd_stages := rest\<rparr>) = Goes b'"
      "close_worker_step a x b = b'\<lparr>bd_done := bd_done b' @ [(st, a)]\<rparr>"
  | (escapes) e b' where "stage_step a x st (b\<lparr>bd_stages := rest\<rparr>) = Escapes e b'"
      "close_worker_step a x b = (upd_shutdown (shutdown_failed ''Boundary cleanup'' e) b')
         \<lparr>bd_stages := close_ending, bd_done := bd_done b' @ [(st, a)]\<rparr>"
  using assms unfolding close_worker_step_def by (cases "stage_step a x st (b\<lparr>bd_stages := rest\<rparr>)") auto

lemma not_twice:
  assumes "in_order b" "bd_stages b = st # rest" "y \<in> set (stages_done b)"
  shows "stage_rank y < stage_rank st"
  using assms by (auto simp: in_order_def Let_def sorted_wrt_append before_def)

lemma clean_stages [simp]: "clean (b\<lparr>bd_stages := l\<rparr>) = clean b" "clean (b\<lparr>bd_done := m\<rparr>) = clean b"
  by (simp_all add: clean_def)

lemma last_is_end:
  assumes "in_order b" "bd_stages b = EndEvent # rest"
  shows "rest = []"
proof (rule ccontr)
  assume "rest \<noteq> []"
  then obtain y where y: "y \<in> set rest" by (cases rest) auto
  then have "38 < stage_rank y" "y \<in> set (close_order (bd_config b))"
    using assms by (auto simp: in_order_def Let_def sorted_wrt_append before_def)
  then show False by (auto simp: close_order_def close_lists)
qed

lemma ends_with_event:
  assumes "in_order b" "bd_stages b = [st]"
  shows "st = EndEvent"
proof -
  consider us where "[st] = us @ close_ending" | us where "close_ending = us @ [st]"
    using assms by (auto simp: in_order_def)
  then show ?thesis
  proof cases
    case 1
    then show ?thesis by (auto simp: close_ending_def)
  next
    case 2
    then have "last close_ending = last (us @ [st])" by (rule arg_cong)
    then show ?thesis by (simp add: close_ending_def)
  qed
qed

text \<open>Which stage reports on the reader and the writer.\<close>

lemma safe_call_workers: "safe_call_end n a b = Goes b' \<Longrightarrow> sh_workers (bd_shutdown b') = sh_workers (bd_shutdown b)"
  by (auto simp: safe_call_end_def split: answer.splits if_splits)

lemma safe_timed_workers:
  "safe_timed f l (\<lambda>_. id) a b = Goes b' \<Longrightarrow> sh_workers (bd_shutdown b') = sh_workers (bd_shutdown b)"
  "safe_timed f l (\<lambda>r. upd_shutdown (shutdown_worker n r)) a b = Goes b' \<Longrightarrow>
   sh_workers (bd_shutdown b') = sh_workers (bd_shutdown b) \<or>
   (\<exists>r. sh_workers (bd_shutdown b') = AList.update n r (sh_workers (bd_shutdown b)))"
  by (auto simp: safe_timed_def Let_def split: answer.splits if_splits)

lemma await_run_workers:
  "await_run x b = Some (b', e) \<Longrightarrow> sh_workers (bd_shutdown b') = sh_workers (bd_shutdown b) \<or>
   (\<exists>r. sh_workers (bd_shutdown b') = AList.update ''WebSocket connector'' r (sh_workers (bd_shutdown b)))"
  by (auto simp: await_run_def split: if_splits)

lemma stage_workers:
  assumes step: "stage_step a x st b = Goes b'" and p: "p \<in> {ReaderPart, WriterPart}"
    and other: "\<forall>l. st \<noteq> StopPart p l" "st \<noteq> LastStop p"
  shows "map_of (sh_workers (bd_shutdown b')) (part_name p) = map_of (sh_workers (bd_shutdown b)) (part_name p)"
proof -
  have names: "part_name q = part_name p \<longleftrightarrow> q = p" for q using p by (cases q) auto
  show ?thesis
  proof (cases st)
    case (StopPart q l)
    then have "q \<noteq> p" using other by simp
    moreover have "safe_timed (part_name q @ '' stop'') (part_name q @ '' stop'')
        (\<lambda>r. upd_shutdown (shutdown_worker (part_name q) r)) a b = Goes b'"
      using step StopPart by (simp add: stage_step_def)
    note safe_timed_workers(2) [OF this]
    ultimately show ?thesis using names [of q] by (auto simp: update_conv)
  next
    case (LastStop q)
    then have "q \<noteq> p" using other by simp
    then show ?thesis using LastStop step names [of q] by (auto simp: stage_step_def update_conv split: answer.splits)
  next
    case (AwaitRun l)
    then show ?thesis using step p await_run_workers [of x b] by (auto simp: stage_step_def update_conv split: option.splits)
  next
    case (AwaitRunAgain l)
    then show ?thesis using step p await_run_workers [of x b] by (auto simp: stage_step_def update_conv split: option.splits)
  qed (use step p in \<open>auto simp: stage_step_def update_conv split: if_splits
      dest: safe_call_workers safe_timed_workers(1)\<close>)
qed

lemma last_stop_says_no:
  "stage_step a x (LastStop p) b = Goes b' \<Longrightarrow> a \<noteq> Returns True \<Longrightarrow>
   map_of (sh_workers (bd_shutdown b')) (part_name p) = Some False"
  by (auto simp: stage_step_def update_conv split: answer.splits)

lemma worker_goes_ok:
  assumes ok: "boundary_ok b" and st: "bd_stages b = st # rest"
    and go: "stage_step a x st (b\<lparr>bd_stages := rest\<rparr>) = Goes b1"
  shows "boundary_ok (b1\<lparr>bd_done := bd_done b1 @ [(st, a)]\<rparr>)"
proof -
  let ?b = "b\<lparr>bd_stages := rest\<rparr>" and ?t = "b1\<lparr>bd_done := bd_done b1 @ [(st, a)]\<rparr>"
  note ord = ok [unfolded boundary_ok_def, THEN conjunct1]
  note prog = ok [unfolded boundary_ok_def, THEN conjunct2, THEN conjunct1]
  note eff = ok [unfolded boundary_ok_def, THEN conjunct2, THEN conjunct2, THEN conjunct1]
  have keep: "bd_config b1 = bd_config b" "bd_closing b1 = bd_closing b" "bd_done b1 = bd_done b"
    "bd_run_started b1 = bd_run_started b" "bd_run_finished b1 = bd_run_finished b"
    using stage_goes(1) [OF go] by (simp_all add: stage_keeps_def)
  note effect = stage_goes(2) [OF go, unfolded stage_effect_def]
  have stages: "bd_stages b1 = rest \<or> (\<exists>l. st = AwaitRun l \<and> bd_stages b1 = close_retry (bd_config b) @ rest \<and> \<not> clean b1)"
    and clean: "clean b1 \<longrightarrow> clean b \<and> passed st a"
    and completed: "bd_close_completed b1 = (bd_close_completed b \<or> st = EndEvent)"
    and sink: "bd_sink b1 = (if st = BeginStoppingSink then sink_begin_stopping (bd_sink b)
       else if st = EndSink then SinkClosed else bd_sink b)"
    and workers: "bd_workers_stopped b1 = (bd_workers_stopped b \<or> st = ReportWorkers \<and> bd_all_stopped b)"
    and all: "bd_all_stopped b1 = (bd_all_stopped b \<and> (\<forall>p. st = LastStop p \<longrightarrow> a = Returns True))"
    using effect by simp_all
  have did: "stages_done ?t = stages_done b @ [st]" using keep by (simp add: stages_done_def)
  have closing: "bd_closing b" using prog st by (auto simp: progress_ok_def)
  have ord': "in_order ?t"
    using stages
  proof
    assume "bd_stages b1 = rest"
    then show ?thesis using in_order_goes [OF ord st] keep did by simp
  next
    assume "\<exists>l. st = AwaitRun l \<and> bd_stages b1 = close_retry (bd_config b) @ rest \<and> \<not> clean b1"
    then obtain l where "st = AwaitRun l" "bd_stages b1 = close_retry (bd_config b) @ rest" by blast
    then show ?thesis using in_order_retry [OF ord] st keep did by simp
  qed
  have "bd_stages b1 = [] \<longleftrightarrow> bd_close_completed b1"
  proof
    assume none: "bd_stages b1 = []"
    then have "rest = []" using stages by (auto simp: close_retry_def)
    then show "bd_close_completed b1" using ends_with_event [OF ord] st completed by simp
  next
    assume "bd_close_completed b1"
    then have "st = EndEvent" using completed prog closing st by (simp add: progress_ok_def)
    then show "bd_stages b1 = []" using last_is_end [OF ord] st stages by auto
  qed
  then have "progress_ok ?t"
    using prog closing st stages clean keep did
    by (auto simp: progress_ok_def clean_def stages_done_def)
  moreover have "effects_ok ?t"
  proof -
    have "stage_rank EndSink < stage_rank st \<Longrightarrow> st \<noteq> BeginStoppingSink" by auto
    moreover have "EndSink \<in> set (stages_done b) \<Longrightarrow> stage_rank EndSink < stage_rank st" by (rule not_twice [OF ord st])
    ultimately show ?thesis using eff sink workers all keep did stage_ends_run [of a x ?b b1] go
        not_twice [OF ord st, of ReportWorkers]
      by (auto simp: effects_ok_def)
  qed
  moreover have "last_stops_ok ?t"
  proof (cases "bd_all_stopped b")
    case True
    show ?thesis
    proof (cases "bd_all_stopped b1")
      case False
      then obtain p where p: "st = LastStop p" "a \<noteq> Returns True" using True all by auto
      have "st \<in> set (close_order (bd_config b))" using ord st by (auto simp: in_order_def Let_def)
      then have "p \<in> {ReaderPart, WriterPart}" using p by (auto simp: close_order_def close_lists)
      then show ?thesis using p did last_stop_says_no [of a x p ?b b1] go by (auto simp: last_stops_ok_def)
    qed (simp add: last_stops_ok_def)
  next
    case False
    then obtain p where p: "p \<in> {ReaderPart, WriterPart}" "LastStop p \<in> set (stages_done b)"
      "map_of (sh_workers (bd_shutdown b)) (part_name p) = Some False"
      using ok False unfolding boundary_ok_def last_stops_ok_def by blast
    have "stage_rank (LastStop p) < stage_rank st" by (rule not_twice [OF ord st p(2)])
    then have "\<forall>l. st \<noteq> StopPart p l" "st \<noteq> LastStop p" using p(1) by auto
    then have "map_of (sh_workers (bd_shutdown b1)) (part_name p) = Some False"
      using stage_workers [OF go p(1)] p(3) by simp
    then show ?thesis using p did by (auto simp: last_stops_ok_def)
  qed
  ultimately show ?thesis using ord' by (simp add: boundary_ok_def)
qed


lemma worker_escapes_ok:
  assumes ok: "boundary_ok b" and st: "bd_stages b = st # rest"
    and go: "stage_step a x st (b\<lparr>bd_stages := rest\<rparr>) = Escapes e b1"
  shows "boundary_ok ((upd_shutdown (shutdown_failed ''Boundary cleanup'' e) b1)
         \<lparr>bd_stages := close_ending, bd_done := bd_done b1 @ [(st, a)]\<rparr>)"
proof -
  let ?b = "b\<lparr>bd_stages := rest\<rparr>"
  let ?t = "(upd_shutdown (shutdown_failed ''Boundary cleanup'' e) b1)\<lparr>bd_stages := close_ending, bd_done := bd_done b1 @ [(st, a)]\<rparr>"
  have esc: "escaping st" using stage_escapes(1) [OF go] .
  obtain f where b1: "b1 = upd_shutdown f ?b" "\<And>s. sh_workers (f s) = sh_workers s"
  proof (rule disjE [OF stage_escapes(2) [OF go]])
    assume "b1 = ?b"
    then have "b1 = upd_shutdown id ?b" by (simp add: upd_shutdown_def)
    then show ?thesis using that [of id] by simp
  next
    assume "\<exists>n. b1 = upd_shutdown (shutdown_pending n False) ?b"
    then obtain n where n: "b1 = upd_shutdown (shutdown_pending n False) ?b" by blast
    show ?thesis by (rule that [OF n]) simp
  qed
  define t where "t = ?t"
  have same: "bd_config t = bd_config b" "bd_closing t = bd_closing b" "bd_run_started t = bd_run_started b"
    "bd_run_finished t = bd_run_finished b" "bd_sink t = bd_sink b" "bd_workers_stopped t = bd_workers_stopped b"
    "bd_all_stopped t = bd_all_stopped b" "bd_close_completed t = bd_close_completed b"
    "sh_workers (bd_shutdown t) = sh_workers (bd_shutdown b)" "stages_done t = stages_done b @ [st]"
    "bd_stages t = close_ending" "\<not> clean t"
    unfolding t_def b1(1) by (simp_all add: stages_done_def clean_def b1(2))
  have "in_order t" by (rule in_order_escapes [OF _ st esc]) (use ok same in \<open>simp_all only: boundary_ok_def\<close>)
  moreover have "bd_closing b" "\<not> bd_close_completed b" using ok st by (auto simp: boundary_ok_def progress_ok_def)
  then have "progress_ok t" using same by (simp add: progress_ok_def close_ending_def)
  moreover have "effects_ok t"
  proof -
    have "effects_ok b" using ok by (simp only: boundary_ok_def)
    moreover have "st \<noteq> EndSink" "st \<noteq> AwaitRunEnd" "st \<noteq> ReportWorkers" using esc by auto
    ultimately show ?thesis by (simp add: effects_ok_def same)
  qed
  moreover have "last_stops_ok t"
  proof -
    have "last_stops_ok b" using ok by (simp only: boundary_ok_def)
    then show ?thesis unfolding last_stops_ok_def same by auto
  qed
  ultimately have "boundary_ok t" by (simp only: boundary_ok_def)
  then show ?thesis by (simp only: t_def)
qed

lemma close_worker_ok: "boundary_ok b \<Longrightarrow> boundary_ok (close_worker_step a x b)"
proof (cases "bd_stages b")
  case (Cons st rest)
  assume ok: "boundary_ok b"
  from Cons show ?thesis
  proof (cases rule: close_worker_cases [of b st rest a x])
    case (goes b')
    then show ?thesis using worker_goes_ok [OF ok Cons] by simp
  next
    case (escapes e b')
    then show ?thesis using worker_escapes_ok [OF ok Cons] by simp
  qed (use ok in simp)
qed (simp add: close_worker_step_def)

text \<open>The other operations leave the worker's stages alone once it has begun.\<close>

definition worker_same :: "boundary \<Rightarrow> boundary \<Rightarrow> bool" where
  "worker_same b b' \<longleftrightarrow> bd_config b' = bd_config b \<and> bd_closing b' = bd_closing b \<and> bd_done b' = bd_done b \<and>
     bd_stages b' = bd_stages b \<and> bd_close_completed b' = bd_close_completed b \<and> (clean b' \<longrightarrow> clean b) \<and>
     (bd_sink b = SinkClosed \<longrightarrow> bd_sink b' = SinkClosed) \<and>
     (bd_closing b \<longrightarrow> bd_run_started b' = bd_run_started b) \<and> (bd_run_finished b \<longrightarrow> bd_run_finished b') \<and>
     bd_workers_stopped b' = bd_workers_stopped b \<and> bd_all_stopped b' = bd_all_stopped b \<and>
     (\<forall>p \<in> {ReaderPart, WriterPart}. map_of (sh_workers (bd_shutdown b)) (part_name p) = Some False \<longrightarrow>
        map_of (sh_workers (bd_shutdown b')) (part_name p) = Some False)"

lemma worker_same_ok:
  assumes ok: "boundary_ok b" and same: "worker_same b b'"
  shows "boundary_ok b'"
proof -
  have eqs: "bd_config b' = bd_config b" "bd_closing b' = bd_closing b" "bd_done b' = bd_done b" "bd_stages b' = bd_stages b"
    "bd_close_completed b' = bd_close_completed b" "stages_done b' = stages_done b"
    "bd_workers_stopped b' = bd_workers_stopped b" "bd_all_stopped b' = bd_all_stopped b"
    using same by (simp_all add: worker_same_def stages_done_def)
  have "in_order b'" using ok by (simp add: boundary_ok_def in_order_def eqs)
  moreover have "progress_ok b'" using ok same by (auto simp: boundary_ok_def progress_ok_def worker_same_def eqs)
  moreover have "AwaitRunEnd \<in> set (stages_done b) \<Longrightarrow> bd_closing b"
    using ok by (auto simp: boundary_ok_def progress_ok_def stages_done_def)
  then have "effects_ok b'" using ok same by (auto simp: boundary_ok_def effects_ok_def worker_same_def eqs)
  moreover have "last_stops_ok b'" using ok same unfolding boundary_ok_def last_stops_ok_def worker_same_def eqs by fast
  ultimately show ?thesis by (simp add: boundary_ok_def)
qed

lemma boundary_begin_same: "worker_same b (fst (boundary_run_begin b))"
  by (auto simp: boundary_run_begin_def worker_same_def clean_def update_conv sink_begin_starting_def)

lemma worker_failure_same: "worker_same b (on_worker_failure now e b)"
  by (auto simp: on_worker_failure_def worker_same_def clean_def)

lemma close_wait_same: "worker_same b (close_wait_ends b)"
  by (auto simp: close_wait_ends_def worker_same_def clean_def)

lemma boundary_close_ok:
  assumes ok: "boundary_ok b"
  shows "boundary_ok (fst (boundary_close now failure b))"
proof (cases "bd_close_completed b \<or> bd_closing b")
  case True
  have "worker_same b (upd_shutdown (shutdown_begin now) b)" by (simp add: worker_same_def clean_def)
  then show ?thesis using worker_same_ok [OF ok] True by (simp add: boundary_close_def)
next
  case False
  then have idle: "bd_stages b = []" "bd_done b = []" "\<not> bd_close_completed b"
    using ok by (auto simp: boundary_ok_def progress_ok_def)
  have "bd_all_stopped b" using ok idle by (auto simp: boundary_ok_def last_stops_ok_def stages_done_def)
  moreover have "sorted_wrt before (close_script c) \<and> set (close_script c) \<subseteq> set (close_order c)" for c
    by (auto simp: close_script_def close_order_def close_lists before_def)
  moreover have "\<exists>us. close_script c = us @ close_ending" for c by (simp add: close_script_def append_assoc [symmetric] del: append_assoc)
  moreover have "\<exists>us. close_ending = us @ []" by simp
  moreover have "close_script c \<noteq> []" for c by (simp add: close_script_def close_first_def)
  ultimately show ?thesis using False idle
    by (cases failure) (simp_all add: boundary_close_def Let_def boundary_ok_def in_order_def progress_ok_def
        effects_ok_def last_stops_ok_def stages_done_def clean_def)
qed


lemma boundary_run_step_ok:
  assumes ok: "boundary_ok b"
  shows "boundary_ok (boundary_run_step a now failure x b)"
proof (cases "bd_run b")
  case (EndingRun err)
  have "worker_same b (upd_shutdown (shutdown_worker ''WebSocket connector'' True) (b\<lparr>bd_run_finished := True\<rparr>))"
    by (simp add: worker_same_def clean_def update_conv)
  then have "boundary_ok (fst (boundary_close now failure
      (upd_shutdown (shutdown_worker ''WebSocket connector'' True) (b\<lparr>bd_run_finished := True\<rparr>))))"
    by (rule boundary_close_ok [OF worker_same_ok [OF ok]])
  then have "boundary_ok ((fst (boundary_close now failure
      (upd_shutdown (shutdown_worker ''WebSocket connector'' True) (b\<lparr>bd_run_finished := True\<rparr>))))\<lparr>bd_run := r\<rparr>)" for r
    by (rule worker_same_ok) (simp add: worker_same_def clean_def)
  then show ?thesis using EndingRun by (simp add: boundary_run_step_def case_prod_unfold)
next
  case (ClosingAfterRun owns err)
  have left: "worker_same b' (b'\<lparr>bd_lifecycle_thread := False, bd_run := r\<rparr>)" for b' r
    by (simp add: worker_same_def clean_def)
  have "boundary_ok ((close_wait_ends b)\<lparr>bd_lifecycle_thread := False, bd_run := r\<rparr>)"
    "boundary_ok (b\<lparr>bd_lifecycle_thread := False, bd_run := r\<rparr>)" for r
    by (rule worker_same_ok [OF worker_same_ok [OF ok close_wait_same] left], rule worker_same_ok [OF ok left])
  then show ?thesis using ClosingAfterRun ok by (simp add: boundary_run_step_def Let_def)
next
  case StartingReader
  have "worker_same b (b\<lparr>bd_run := r\<rparr>)" "worker_same b (upd_shutdown (shutdown_worker ''Command writer'' False)
      (b\<lparr>bd_reader_started := True, bd_run := r\<rparr>))" for r
    by (simp_all add: worker_same_def clean_def update_conv)
  then show ?thesis using worker_same_ok [OF ok] StartingReader
    by (cases a) (simp_all add: boundary_run_step_def)
next
  case StartingWriter
  have "worker_same b (b\<lparr>bd_run := r\<rparr>)" "worker_same b (upd_shutdown (shutdown_worker ''WebSocket connector'' False)
      (b\<lparr>bd_writer_started := True, bd_sink := sink_mark_ready (bd_sink b), bd_run := r\<rparr>))" for r
    by (simp_all add: worker_same_def clean_def update_conv sink_mark_ready_def)
  then show ?thesis using worker_same_ok [OF ok] StartingWriter
    by (cases a) (simp_all add: boundary_run_step_def)
next
  case RunningConnector
  have "worker_same b (b\<lparr>bd_run := r\<rparr>)" for r by (simp add: worker_same_def clean_def)
  then show ?thesis using worker_same_ok [OF ok] RunningConnector by (simp add: boundary_run_step_def)
qed (use ok in \<open>simp_all add: boundary_run_step_def\<close>)

lemma boundary_step_ok: "boundary_ok b \<Longrightarrow> boundary_ok (boundary_step x b)"
  by (cases x) (simp_all add: boundary_run_step_ok boundary_close_ok close_worker_ok worker_same_ok [OF _ boundary_begin_same]
      worker_same_ok [OF _ worker_failure_same] worker_same_ok [OF _ close_wait_same])

interpretation shutting_boundary: invariant_machine boundary_step boundary_ok
  by unfold_locales (rule boundary_step_ok)

lemma boundary_ok_new: "boundary_ok (new_boundary config timeout)"
  by (simp add: new_boundary_def boundary_ok_def in_order_def progress_ok_def effects_ok_def last_stops_ok_def
      stages_done_def clean_def new_shutdown_state_def)

lemma close_keeps [simp]:
  "bd_config (fst (boundary_close now failure b)) = bd_config b"
  "bd_run_started (fst (boundary_close now failure b)) = bd_run_started b"
  "bd_run_finished (fst (boundary_close now failure b)) = bd_run_finished b"
  by (simp_all add: boundary_close_def Let_def split: option.split)

lemma boundary_run_keeps [simp]:
  "bd_config (boundary_run_step a now failure x b) = bd_config b"
  "bd_run_started (boundary_run_step a now failure x b) = bd_run_started b"
  by (simp_all add: boundary_run_step_def case_prod_unfold close_wait_ends_def Let_def split: run_stage.split option.split)

lemma close_worker_keeps [simp]:
  "bd_config (close_worker_step a x b) = bd_config b"
  "bd_closing (close_worker_step a x b) = bd_closing b"
  "bd_run_started (close_worker_step a x b) = bd_run_started b"
  "bd_run_finished (close_worker_step a x b) = bd_run_finished b"
proof -
  have "bd_config (close_worker_step a x b) = bd_config b \<and> bd_closing (close_worker_step a x b) = bd_closing b \<and>
    bd_run_started (close_worker_step a x b) = bd_run_started b \<and> bd_run_finished (close_worker_step a x b) = bd_run_finished b"
  proof (cases "bd_stages b")
    case (Cons st rest)
    then show ?thesis
    proof (cases rule: close_worker_cases [of b st rest a x])
      case (goes b')
      then show ?thesis using stage_goes(1) [OF goes(1)] by (simp add: stage_keeps_def)
    next
      case (escapes e b')
      then show ?thesis using stage_escapes(2) [OF escapes(1)] by auto
    qed simp
  qed (simp add: close_worker_step_def)
  then show "bd_config (close_worker_step a x b) = bd_config b" "bd_closing (close_worker_step a x b) = bd_closing b"
    "bd_run_started (close_worker_step a x b) = bd_run_started b"
    "bd_run_finished (close_worker_step a x b) = bd_run_finished b" by simp_all
qed

lemma boundary_config_fixed: "bd_config (fold boundary_step ops b) = bd_config b"
proof (induction ops arbitrary: b)
  case (Cons x ops)
  have "bd_config (boundary_step x b) = bd_config b"
    using boundary_begin_same [of b] worker_failure_same [of b] close_wait_same [of b]
    by (cases x) (simp_all add: worker_same_def)
  then show ?case using Cons by simp
qed simp

section \<open>The end of the shutdown\<close>

text \<open>Every step of the worker comes nearer to its end when nobody has to be waited for.\<close>

definition stage_weight :: "stage \<Rightarrow> nat" where
  "stage_weight st = (case st of AwaitRun l \<Rightarrow> 4 | _ \<Rightarrow> 1)"

definition work_left :: "boundary \<Rightarrow> nat" where
  "work_left b = sum_list (map stage_weight (bd_stages b))"


lemma stage_weight_pos: "0 < stage_weight st"
  by (cases st) (simp_all add: stage_weight_def)

lemma stage_weight_nonzero [simp]: "stage_weight st \<noteq> 0"
  using stage_weight_pos [of st] by simp

lemma never_waits:
  "bd_run_started b \<longrightarrow> bd_run_finished b \<Longrightarrow> stage_step a True st b \<noteq> Waits"
  by (cases st; cases a) (auto simp: stage_step_def safe_call_end_def safe_timed_def await_run_def split: option.split)

lemma escape_shrinks:
  assumes "in_order b" "bd_stages b = st # rest" "escaping st"
  shows "4 < work_left b"
proof -
  have "\<not> (\<exists>us. close_ending = us @ st # rest)"
    using assms(3) ending_never_escapes [of st] in_set_conv_decomp [of st close_ending] by blast
  then obtain us where us: "st # rest = us @ close_ending" using assms by (auto simp: in_order_def)
  then have "us \<noteq> []" using assms(3) by (auto simp: close_ending_def)
  then obtain u vs where "us = u # vs" by (cases us) auto
  then have "work_left b = stage_weight u + sum_list (map stage_weight vs) + 4"
    using us assms(2) by (simp add: work_left_def close_ending_def stage_weight_def)
  then show ?thesis using stage_weight_pos [of u] by simp
qed

lemma work_shrinks:
  assumes ok: "boundary_ok b" and st: "bd_stages b = st # rest" and run: "bd_run_started b \<longrightarrow> bd_run_finished b"
  shows "work_left (close_worker_step a True b) < work_left b"
  using st
proof (cases rule: close_worker_cases [of b st rest a True])
  case waits
  have "stage_step a True st (b\<lparr>bd_stages := rest\<rparr>) \<noteq> Waits" by (rule never_waits) (use run in simp)
  then show ?thesis using waits(1) by simp
next
  case (goes b')
  have "bd_stages b' = rest \<or> (\<exists>l. st = AwaitRun l \<and> bd_stages b' = close_retry (bd_config b) @ rest)"
    using stage_goes(2) [OF goes(1)] by (auto simp: stage_effect_def)
  then show ?thesis using st goes(2) stage_weight_pos [of st]
    by (auto simp: work_left_def close_retry_def stage_weight_def)
next
  case (escapes e b')
  have "work_left (close_worker_step a True b) = 4"
    by (simp add: escapes(2) work_left_def close_ending_def stage_weight_def)
  moreover have "in_order b" using ok by (simp add: boundary_ok_def)
  ultimately show ?thesis using escape_shrinks [OF _ st stage_escapes(1) [OF escapes(1)]] by simp
qed

text \<open>Once the worker has begun, nobody else changes its stages, and a run that has ended stays so.\<close>

definition settling :: "boundary \<Rightarrow> bool" where
  "settling b \<longleftrightarrow> bd_closing b \<and> (bd_run_started b \<longrightarrow> bd_run_finished b)"

lemma close_again: "bd_closing b \<Longrightarrow> fst (boundary_close now failure b) = upd_shutdown (shutdown_begin now) b"
  by (simp add: boundary_close_def)

lemma run_step_while_closing:
  assumes "bd_closing b"
  shows "bd_stages (boundary_run_step a now failure x b) = bd_stages b \<and> bd_closing (boundary_run_step a now failure x b) \<and>
    (bd_run_finished b \<longrightarrow> bd_run_finished (boundary_run_step a now failure x b))"
  using assms by (cases "bd_run b"; cases a)
    (simp_all add: boundary_run_step_def case_prod_unfold close_again close_wait_ends_def Let_def)

lemma other_while_settling:
  assumes "settling b" "\<forall>a x. op \<noteq> CloseWorker a x"
  shows "bd_stages (boundary_step op b) = bd_stages b \<and> settling (boundary_step op b)"
proof (cases op)
  case RunBegin
  then show ?thesis using assms by (simp add: boundary_run_begin_def settling_def)
next
  case (RunStep a now failure x)
  then show ?thesis using assms run_step_while_closing [of b a now failure x] by (auto simp: settling_def)
next
  case (CloseCall now failure)
  then show ?thesis using assms by (simp add: close_again settling_def)
qed (use assms in \<open>auto simp: close_wait_ends_def on_worker_failure_def settling_def\<close>)


lemma subseq_sum: "subseq xs ys \<Longrightarrow> sum_list (map f xs) \<le> (sum_list (map f ys) :: nat)"
  by (induction rule: list_emb.induct) auto

lemma in_order_subseq: "in_order b \<Longrightarrow> subseq (stages_done b @ bd_stages b) (close_order (bd_config b))"
  by (rule sorted_subseq) (simp_all add: in_order_def Let_def close_order_sorted)

lemma work_left_bound:
  assumes "in_order b"
  shows "work_left b \<le> 42"
proof -
  have "sum_list (map stage_weight (stages_done b @ bd_stages b)) \<le> sum_list (map stage_weight (close_order (bd_config b)))"
    by (rule subseq_sum [OF in_order_subseq [OF assms]])
  then show ?thesis by (simp add: work_left_def close_order_def close_lists stage_weight_def)
qed

fun unwaiting :: "boundary_op \<Rightarrow> bool" where
  "unwaiting (CloseWorker a x) = x"
| "unwaiting _ = False"

lemma close_worker_settling: "settling b \<Longrightarrow> settling (close_worker_step a x b)"
  by (simp add: settling_def)

lemma unexpired_step:
  "bd_run_started b \<longrightarrow> bd_run_finished b \<Longrightarrow>
   stage_step a False st b = Waits \<or> stage_step a False st b = stage_step a True st b"
  by (cases st) (auto simp: stage_step_def await_run_def)

lemma work_never_grows:
  assumes ok: "boundary_ok b" and settling: "settling b"
  shows "work_left (boundary_step op b) + (if unwaiting op \<and> bd_stages b \<noteq> [] then 1 else 0) \<le> work_left b"
proof (cases "\<exists>a x. op = CloseWorker a x")
  case True
  then obtain a x where op: "op = CloseWorker a x" by blast
  show ?thesis
  proof (cases "bd_stages b")
    case Nil
    then show ?thesis using op by (simp add: close_worker_step_def)
  next
    case (Cons st rest)
    then have strict: "work_left (close_worker_step a True b) < work_left b"
      using work_shrinks [OF ok Cons] settling by (simp add: settling_def)
    show ?thesis
    proof (cases x)
      case True
      then show ?thesis using strict op by simp
    next
      case False
      have "bd_stages (close_worker_step a False b) = bd_stages b \<or>
        close_worker_step a False b = close_worker_step a True b"
        using unexpired_step [of "b\<lparr>bd_stages := rest\<rparr>" a st] settling Cons
        by (auto simp: close_worker_step_def settling_def)
      then show ?thesis using strict op False by (auto simp: work_left_def)
    qed
  qed
next
  case False
  then have "\<forall>a x. op \<noteq> CloseWorker a x" by blast
  then have "bd_stages (boundary_step op b) = bd_stages b" "\<not> unwaiting op"
    using other_while_settling [OF settling] by (simp, cases op, auto)
  then show ?thesis by (simp add: work_left_def)
qed

lemma settling_step:
  assumes "settling b"
  shows "settling (boundary_step op b)"
proof (cases "\<exists>a x. op = CloseWorker a x")
  case True
  then show ?thesis using close_worker_settling [OF assms] by auto
next
  case False
  then show ?thesis using other_while_settling [OF assms, of op] by auto
qed

lemma settling_run: "settling b \<Longrightarrow> settling (fold boundary_step ops b)"
  by (induction ops arbitrary: b) (simp_all add: settling_step)

lemma work_runs_out:
  assumes "boundary_ok b" "settling b"
  shows "bd_stages (fold boundary_step ops b) = [] \<or>
    work_left (fold boundary_step ops b) + length (filter unwaiting ops) \<le> work_left b"
  using assms
proof (induction ops arbitrary: b)
  case (Cons op ops)
  have step: "boundary_ok (boundary_step op b)" "settling (boundary_step op b)"
    by (rule boundary_step_ok [OF Cons.prems(1)], rule settling_step [OF Cons.prems(2)])
  show ?case
  proof (cases "bd_stages b = []")
    case True
    have "bd_stages (boundary_step op b) = []"
    proof (cases "\<exists>a x. op = CloseWorker a x")
      case True
      then show ?thesis using \<open>bd_stages b = []\<close> by (auto simp: close_worker_step_def)
    next
      case False
      then show ?thesis using other_while_settling [OF Cons.prems(2), of op] \<open>bd_stages b = []\<close> by auto
    qed
    then show ?thesis using Cons.IH [OF step] by (auto simp: work_left_def)
  next
    case False
    then show ?thesis using Cons.IH [OF step] work_never_grows [OF Cons.prems, of op] by auto
  qed
qed simp


section \<open>Properties\<close>

text \<open>
  C12. Liveness: however the parts answer, with refusals, timeouts, exceptions or exceptions that nothing catches, and
  whatever the other threads do meanwhile, a shutdown whose run has ended and whose worker takes
  42 steps without having to wait is complete: the waiters of \<open>close\<close> are released.
\<close>

theorem boundary_close_completes:
  assumes b: "b = boundary_run config timeout ops" and closing: "bd_closing b"
    and run: "bd_run_started b \<longrightarrow> bd_run_finished b" and steps: "42 \<le> length (filter unwaiting more_ops)"
  shows "bd_close_completed (fold boundary_step more_ops b)"
proof -
  have ok: "boundary_ok b" unfolding b by (rule shutting_boundary.inv_run [OF boundary_ok_new])
  have settling: "settling b" using closing run by (simp add: settling_def)
  let ?t = "fold boundary_step more_ops b"
  have "boundary_ok ?t" by (rule shutting_boundary.inv_run [OF ok])
  moreover have "work_left ?t = 0"
  proof -
    have "work_left b \<le> 42" using ok by (intro work_left_bound) (simp add: boundary_ok_def)
    moreover have "bd_stages ?t = [] \<or> work_left ?t + length (filter unwaiting more_ops) \<le> work_left b"
      by (rule work_runs_out [OF ok settling])
    moreover have "bd_stages ?t = [] \<Longrightarrow> work_left ?t = 0" by (simp add: work_left_def)
    ultimately show ?thesis using steps by linarith
  qed
  then have "bd_stages ?t = []" using stage_weight_pos [of "hd (bd_stages ?t)"] by (cases "bd_stages ?t") (auto simp: work_left_def)
  moreover have "bd_closing ?t" using settling_run [OF settling, of more_ops] by (simp add: settling_def)
  ultimately show ?thesis by (simp add: boundary_ok_def progress_ok_def)
qed




section \<open>Concrete histories\<close>

text \<open>A boundary that is closed before it has run: every part answers that it has finished.\<close>

definition sample_limits :: shutdown_config where
  "sample_limits = \<lparr>sc_raw_inbound_drain = Some 5, sc_inbound_event_drain = Some 5, sc_outbound_command_drain = Some 5,
     sc_raw_outbound_drain = Some 5, sc_session_event_drain = None, sc_worker_stop = Some 2, sc_connector_stop = Some 2\<rparr>"

definition sample_close :: "boundary_op list" where
  "sample_close = CloseCall 0 None # replicate 36 (CloseWorker (Returns True) True)"

definition sample_closed :: boundary where
  "sample_closed = boundary_run sample_limits (Some 5) sample_close"

lemmas sample_steps = sample_close_def boundary_close_def new_boundary_def new_shutdown_state_def close_worker_step_def
  stage_step_def safe_call_end_def safe_timed_def await_run_def part_started_def close_script_def close_lists
  upd_shutdown_def shutdown_ops sample_limits_def sink_begin_stopping_def sink_mark_closed_def eval_nat_numeral

lemma sample_closed:
  "bd_close_completed sample_closed \<and> sh_failures (bd_shutdown sample_closed) = [] \<and>
   sh_timeouts (bd_shutdown sample_closed) = [] \<and> sh_primary (bd_shutdown sample_closed) = None \<and>
   sh_requested (bd_shutdown sample_closed) \<and> sh_pending (bd_shutdown sample_closed) = {} \<and>
   list_all snd (sh_workers (bd_shutdown sample_closed))"
  unfolding sample_closed_def by (simp add: sample_steps Let_def)


lemma boundary_close_completes_witness:
  "bd_close_completed (fold boundary_step (replicate 42 (CloseWorker (Raises False \<lparr>fo_id = 1, fo_type = ''KeyboardInterrupt''\<rparr>) True))
     (boundary_run sample_limits (Some 5) [CloseCall 0 None]))"
  by (rule boundary_close_completes [OF refl])
    (simp_all add: boundary_close_def new_boundary_def upd_shutdown_def Let_def)



section \<open>Building the boundary\<close>

text \<open>\<open>BoundaryQueueConfig\<close>, with its check of every field, and the parts that \<open>create_stream_dock_boundary\<close> connects.\<close>

record queue_config =
  qc_raw_inbound :: nat
  qc_inbound_event :: nat
  qc_outbound_command :: nat
  qc_raw_outbound :: nat
  qc_session_event :: nat
  qc_max_message_bytes :: nat
  qc_raw_inbound_bytes :: nat
  qc_inbound_event_bytes :: nat
  qc_outbound_command_bytes :: nat
  qc_raw_outbound_bytes :: nat

definition new_queue_config ::
    "pyval \<Rightarrow> pyval \<Rightarrow> pyval \<Rightarrow> pyval \<Rightarrow> pyval \<Rightarrow> pyval \<Rightarrow> pyval \<Rightarrow> pyval \<Rightarrow> pyval \<Rightarrow> pyval \<Rightarrow> exn + queue_config" where
  "new_queue_config a b c d e m ab bb cb db =
     rbind (positive_limit ''raw_inbound_limit'' a) (\<lambda>a'.
     rbind (positive_limit ''inbound_event_limit'' b) (\<lambda>b'.
     rbind (positive_limit ''outbound_command_limit'' c) (\<lambda>c'.
     rbind (positive_limit ''raw_outbound_limit'' d) (\<lambda>d'.
     rbind (positive_limit ''session_event_limit'' e) (\<lambda>e'.
     rbind (positive_limit ''max_message_bytes'' m) (\<lambda>m'.
     rbind (positive_limit ''raw_inbound_byte_limit'' ab) (\<lambda>ab'.
     rbind (positive_limit ''inbound_event_byte_limit'' bb) (\<lambda>bb'.
     rbind (positive_limit ''outbound_command_byte_limit'' cb) (\<lambda>cb'.
     rbind (positive_limit ''raw_outbound_byte_limit'' db) (\<lambda>db'.
     Inr \<lparr>qc_raw_inbound = a', qc_inbound_event = b', qc_outbound_command = c', qc_raw_outbound = d',
       qc_session_event = e', qc_max_message_bytes = m', qc_raw_inbound_bytes = ab', qc_inbound_event_bytes = bb',
       qc_outbound_command_bytes = cb', qc_raw_outbound_bytes = db'\<rparr>))))))))))"

record assembly =
  as_raw_inbound :: "codepoints transport_queue"
  as_inbound_events :: inbound_queue
  as_outbound_commands :: outbound_queue
  as_raw_outbound :: "nat transport_queue"
  as_session_events :: "session_event transport_queue"
  as_connector :: connector
  as_boundary :: boundary

definition create_boundary ::
    "queue_config \<Rightarrow> shutdown_config \<Rightarrow> rat option \<Rightarrow> pyval \<Rightarrow> overflow_policy \<Rightarrow> bool \<Rightarrow> bool \<Rightarrow> exn + assembly" where
  "create_boundary q limits budget port policy rotations commands =
     rbind (new_raw_queue (PInt (int (qc_raw_inbound q))) (PInt (int (qc_raw_inbound_bytes q)))
       (PInt (int (qc_max_message_bytes q)))) (\<lambda>raw_inbound.
     rbind (new_inbound_queue (qc_inbound_event q) policy rotations (qc_inbound_event_bytes q)) (\<lambda>inbound_events.
     rbind (new_outbound_queue (qc_outbound_command q) commands (qc_outbound_command_bytes q)) (\<lambda>outbound_commands.
     rbind (new_raw_queue (PInt (int (qc_raw_outbound q))) (PInt (int (qc_raw_outbound_bytes q)))
       (PInt (int (qc_max_message_bytes q)))) (\<lambda>raw_outbound.
     rbind (new_session_event_queue (PInt (int (qc_session_event q)))) (\<lambda>session_events.
     rbind (new_connector port
       (case sc_raw_outbound_drain limits of None \<Rightarrow> PNone | Some r \<Rightarrow> PFloat (FFinite r))) (\<lambda>connector.
     Inr \<lparr>as_raw_inbound = raw_inbound, as_inbound_events = inbound_events, as_outbound_commands = outbound_commands,
       as_raw_outbound = raw_outbound, as_session_events = session_events, as_connector = connector,
       as_boundary = new_boundary limits budget\<rparr>))))))"

text \<open>A checked configuration can only fail at the port; what is built is as the theories of the parts assume.\<close>

lemma positive_limit_pos: "positive_limit name v = Inr n \<Longrightarrow> 0 < n"
  by (auto simp: positive_limit_def split: pyval.splits if_splits)

lemma queue_config_pos:
  assumes "new_queue_config a b c d e m ab bb cb db = Inr q"
  shows "0 < qc_raw_inbound q \<and> 0 < qc_inbound_event q \<and> 0 < qc_outbound_command q \<and> 0 < qc_raw_outbound q \<and>
    0 < qc_session_event q \<and> 0 < qc_max_message_bytes q \<and> 0 < qc_raw_inbound_bytes q \<and>
    0 < qc_inbound_event_bytes q \<and> 0 < qc_outbound_command_bytes q \<and> 0 < qc_raw_outbound_bytes q"
  using assms by (auto simp: new_queue_config_def rbind_eq_Inr dest!: positive_limit_pos)

lemma new_connector_iff:
  "\<forall>r. limit = Some r \<longrightarrow> 0 \<le> r \<Longrightarrow>
   (\<exists>c. new_connector port (case limit of None \<Rightarrow> PNone | Some r \<Rightarrow> PFloat (FFinite r)) = Inr c) \<longleftrightarrow>
   (\<exists>n. port = PInt n \<and> 1 \<le> n \<and> n \<le> 65535)"
  by (cases port; cases limit) (auto simp: new_connector_def validate_timeout_def)

theorem boundary_is_built:
  assumes config: "new_queue_config a b c d e m ab bb cb db = Inr q"
    and limits: "new_shutdown_config t1 t2 t3 t4 t5 t6 t7 = Inr limits"
  shows "case create_boundary q limits budget port policy rotations commands of
      Inl err \<Rightarrow> \<not> (\<exists>n. port = PInt n \<and> 1 \<le> n \<and> n \<le> 65535)
    | Inr s \<Rightarrow> (\<exists>n. port = PInt n \<and> 1 \<le> n \<and> n \<le> 65535) \<and>
        as_boundary s = new_boundary limits budget \<and>
        tq_limits (as_raw_inbound s) =
          (qc_raw_inbound q, qc_raw_inbound_bytes q, min (qc_max_message_bytes q) (qc_raw_inbound_bytes q)) \<and>
        tq_limits (as_raw_outbound s) =
          (qc_raw_outbound q, qc_raw_outbound_bytes q, min (qc_max_message_bytes q) (qc_raw_outbound_bytes q)) \<and>
        tq_queue (as_raw_inbound s) = [] \<and> tq_queue (as_raw_outbound s) = [] \<and> tq_queue (as_session_events s) = [] \<and>
        iq_queue (as_inbound_events s) = [] \<and> iq_queue_limit (as_inbound_events s) = qc_inbound_event q \<and>
        iq_byte_limit (as_inbound_events s) = qc_inbound_event_bytes q \<and>
        oq_queue (as_outbound_commands s) = [] \<and> oq_queue_limit (as_outbound_commands s) = qc_outbound_command q \<and>
        oq_byte_limit (as_outbound_commands s) = qc_outbound_command_bytes q \<and>
        connector_ok (connector_initial (as_connector s) (as_raw_outbound s))"
proof -
  note pos = queue_config_pos [OF config]
  let ?limit = "sc_raw_outbound_drain limits"
  let ?timeout = "case ?limit of None \<Rightarrow> PNone | Some r \<Rightarrow> PFloat (FFinite r)"
  have "\<forall>r. ?limit = Some r \<longrightarrow> 0 \<le> r"
    using limits validate_timeout_nonneg
    by (auto simp: new_shutdown_config_def validate_stage_timeout_def rbind_eq_Inr)
  note connector = new_connector_iff [OF this]
  show ?thesis
  proof (cases "new_connector port ?timeout")
    case (Inl err)
    then have "\<not> (\<exists>n. port = PInt n \<and> 1 \<le> n \<and> n \<le> 65535)" unfolding connector [symmetric] by simp
    then show ?thesis using Inl pos
      by (simp add: create_boundary_def new_raw_queue_def new_session_event_queue_def positive_limit_def
          new_transport_queue_def new_inbound_queue_def new_outbound_queue_def)
  next
    case (Inr c)
    then have port: "\<exists>n. port = PInt n \<and> 1 \<le> n \<and> n \<le> 65535" unfolding connector [symmetric] by blast
    have "connector_ok (connector_initial c q')" if "tq_queue q' = []" for q'
      by (rule connector_ok_initial [OF Inr that])
    then show ?thesis using Inr pos port
      by (simp add: create_boundary_def new_raw_queue_def new_session_event_queue_def positive_limit_def
          new_transport_queue_def new_inbound_queue_def new_outbound_queue_def tq_limits_def)
  qed
qed

end
