(* ===== verification/Runtime.thy ===== *)
theory Runtime
  imports Boundary
begin

text \<open>
  runtime/composition.py: the runtime that owns the scheduler, the pumps and the boundary. Its \<open>run_forever\<close> is a
  thread by segments, with the thread of the boundary, the thread that closes the boundary and the
  cleanup worker beside it; the cleanup is a list of stages, as in theory Boundary. The limits of the waits
  are not modelled but for \<open>close\<close>'s budget: the steps say when a wait is over.
\<close>

section \<open>State\<close>

datatype run_point =
    RunNew
  | ReportingScheduler
  | StartingScheduler
  | TestingEvents
  | StartingEvents
  | TestingSession
  | StartingSession
  | SettingRunning
  | TestingBoundary
  | SpawningBoundary
  | AwaitingBoundary
  | AwaitingEnd
  | RunExcept bool failure_object
  | RunFinally "failure_object option"
  | SpawningCleanup "failure_object option"
  | AwaitingCleanup "failure_object option"
  | Settling "failure_object option"
  | RunReturned "failure_object option"

datatype boundary_thread =
    NoBoundaryThread
  | InBoundary
  | BoundaryTest bool failure_object
  | BoundaryTestFailure bool failure_object
  | BoundaryEnding
  | BoundaryGone

datatype closer_thread = NoCloser | InClose | CloserEnding | CloserGone

datatype cleanup =
    EnsureClosed
  | AwaitClosed
  | CloseReadinessUnstarted
  | DrainEvents
  | PendStopScheduler
  | StopAcceptingScheduler
  | PendRequestStop
  | RequestStopEvents
  | DrainSession
  | StopSession
  | CloseReadiness
  | DrainScheduler
  | StopScheduler
  | StopEvents
  | ReleaseWaiters
  | AwaitBoundaryClose
  | AwaitBoundaryWorkers
  | AwaitBoundaryRun
  | CheckFailedStops
  | StopSchedulerAgain
  | StopSessionAgain
  | StopEventsAgain
  | ClearActions
  | PendRelease string
  | ReleaseAction string
  | PendOnStop
  | CallOnStop
  | SetReleased
  | EndPendingCleanup
  | EndCleanup
  | EndCleanupWait

text \<open>
  \<open>rt_scheduler_down\<close> and the like: a call of \<open>stop\<close> has answered that the worker has stopped. \<open>rt_released\<close>: the contexts of
  the actions released; \<open>rt_on_stop_called\<close>: the plugin was told to stop; \<open>rt_illegal\<close>: a transition of the
  lifecycle was refused.
\<close>

record runtime =
  rt_shutdown :: shutdown_state
  rt_state :: runtime_state
  rt_lifecycle_thread :: bool
  rt_shutdown_requested :: bool
  rt_failure :: "failure_object option"
  rt_failed_stops :: "string set"
  rt_terminal :: bool
  rt_resources_released :: bool
  rt_cleanup_complete :: bool
  rt_cleanup_wait_complete :: bool
  rt_boundary_run_complete :: bool
  rt_close_started :: bool
  rt_close_complete :: bool
  rt_readiness_closed :: bool
  rt_scheduler_attempted :: bool
  rt_events_started :: bool
  rt_session_started :: bool
  rt_events_drained :: bool
  rt_session_stopped :: bool
  rt_scheduler_stopped :: bool
  rt_events_stopped :: bool
  rt_run :: run_point
  rt_boundary :: boundary_thread
  rt_closer :: closer_thread
  rt_stages :: "cleanup list"
  rt_early_closers :: nat
  rt_scheduler_down :: bool
  rt_events_down :: bool
  rt_session_down :: bool
  rt_released :: "string list"
  rt_on_stop_called :: bool
  rt_illegal :: bool

definition new_runtime :: "rat option \<Rightarrow> runtime" where
  "new_runtime budget =
     \<lparr>rt_shutdown = new_shutdown_state budget, rt_state = RtNew, rt_lifecycle_thread = False,
      rt_shutdown_requested = False, rt_failure = None, rt_failed_stops = {}, rt_terminal = False,
      rt_resources_released = False, rt_cleanup_complete = False, rt_cleanup_wait_complete = False,
      rt_boundary_run_complete = True, rt_close_started = False, rt_close_complete = False,
      rt_readiness_closed = False, rt_scheduler_attempted = False, rt_events_started = False,
      rt_session_started = False, rt_events_drained = True, rt_session_stopped = True, rt_scheduler_stopped = True,
      rt_events_stopped = True, rt_run = RunNew, rt_boundary = NoBoundaryThread, rt_closer = NoCloser, rt_stages = [],
      rt_early_closers = 0, rt_scheduler_down = False, rt_events_down = False, rt_session_down = False,
      rt_released = [], rt_on_stop_called = False, rt_illegal = False\<rparr>"

section \<open>Shared segments\<close>

definition rt_upd :: "(shutdown_state \<Rightarrow> shutdown_state) \<Rightarrow> runtime \<Rightarrow> runtime" where
  "rt_upd f s = s\<lparr>rt_shutdown := f (rt_shutdown s)\<rparr>"

text \<open>A transition of the lifecycle; the source would raise where it is refused.\<close>

definition rt_go :: "runtime_state \<Rightarrow> runtime \<Rightarrow> runtime" where
  "rt_go target s =
     (case transition_runtime_state (rt_state s) target of
        Inr st \<Rightarrow> s\<lparr>rt_state := st\<rparr>
      | Inl _ \<Rightarrow> s\<lparr>rt_illegal := True\<rparr>)"

definition record_primary :: "failure_object \<Rightarrow> runtime \<Rightarrow> runtime" where
  "record_primary e s =
     (if rt_failure s = None then rt_upd (set_primary_failure e) (s\<lparr>rt_failure := Some e\<rparr>) else s)
       \<lparr>rt_shutdown_requested := True\<rparr>"

definition record_cleanup_failure :: "string \<Rightarrow> failure_object \<Rightarrow> runtime \<Rightarrow> runtime" where
  "record_cleanup_failure name e = rt_upd (shutdown_failed name e)"

text \<open>\<open>_ensure_boundary_closed\<close> up to its wait.\<close>

definition ensure_closed :: "rat \<Rightarrow> failure_object option \<Rightarrow> runtime \<Rightarrow> runtime" where
  "ensure_closed now start_failure s =
     (let s1 = rt_upd (shutdown_begin now) s in
      if rt_close_started s1 then s1
      else
        (let s2 = rt_upd (shutdown_pending ''Boundary close'' True) (s1\<lparr>rt_close_started := True\<rparr>) in
         case start_failure of
           None \<Rightarrow> s2\<lparr>rt_closer := InClose\<rparr>
         | Some e \<Rightarrow> (record_cleanup_failure ''Boundary close worker start'' e s2)\<lparr>rt_close_complete := True\<rparr>))"

text \<open>\<open>_on_fatal_error\<close>, which the pumps and the scheduler call through the relay; its locked parts are one step.\<close>

definition on_fatal_error :: "rat \<Rightarrow> failure_object option \<Rightarrow> failure_object \<Rightarrow> runtime \<Rightarrow> runtime" where
  "on_fatal_error now start_failure e s =
     (let s1 = rt_upd (shutdown_begin now) s in
      ensure_closed now start_failure
        (record_primary (case sh_primary (rt_shutdown s1) of None \<Rightarrow> e | Some first \<Rightarrow> first) s1))"

definition safe_cleanup_end :: "string \<Rightarrow> answer \<Rightarrow> runtime \<Rightarrow> runtime" where
  "safe_cleanup_end name a s =
     rt_upd (shutdown_pending name False)
       (case a of Returns r \<Rightarrow> s | Raises is_exn e \<Rightarrow> record_cleanup_failure name e s)"

text \<open>\<open>_safe_bool_cleanup\<close>; the flag tells whether the name is one of a \<open>stop\<close>.\<close>

definition safe_bool_cleanup :: "string \<Rightarrow> bool \<Rightarrow> answer \<Rightarrow> runtime \<Rightarrow> runtime \<times> bool" where
  "safe_bool_cleanup name stopping a s =
     (case a of
        Returns r \<Rightarrow>
          (let s1 = (if stopping then rt_upd (shutdown_worker name r) s else s) in
           (if r then s1 else rt_upd (shutdown_timed_out name) s1, r))
      | Raises is_exn e \<Rightarrow>
          (let s1 = record_cleanup_failure name e s in
           (if stopping then rt_upd (shutdown_worker name False) (s1\<lparr>rt_failed_stops := insert name (rt_failed_stops s1)\<rparr>)
            else s1, False)))"

section \<open>The cleanup worker\<close>

definition cleanup_ending :: "cleanup list" where
  "cleanup_ending = [EndPendingCleanup, EndCleanup, EndCleanupWait]"

definition cleanup_script :: "cleanup list" where
  "cleanup_script =
     [EnsureClosed, AwaitClosed, CloseReadinessUnstarted, DrainEvents, PendStopScheduler, StopAcceptingScheduler,
      PendRequestStop, RequestStopEvents, DrainSession, StopSession, CloseReadiness, DrainScheduler, StopScheduler,
      StopEvents, ReleaseWaiters, AwaitBoundaryClose, AwaitBoundaryWorkers, AwaitBoundaryRun, CheckFailedStops,
      StopSchedulerAgain, StopSessionAgain, StopEventsAgain, ClearActions, PendOnStop, CallOnStop, SetReleased]
     @ cleanup_ending"

definition release_stages :: "string list \<Rightarrow> cleanup list" where
  "release_stages contexts = concat (map (\<lambda>c. [PendRelease c, ReleaseAction c]) contexts)"

definition release_name :: "string \<Rightarrow> string" where
  "release_name c = ''Runtime action release for context '' @ c"

text \<open>
  What the step of the cleanup worker is told: the answer of the call, whether its wait is over, the clock, how
  starting a thread fails, the contexts that \<open>contexts.clear\<close> returns, and whether the plugin has an \<open>on_stop\<close>.
\<close>

record cleanup_answers =
  ca_answer :: answer
  ca_over :: bool
  ca_now :: rat
  ca_start_failure :: "failure_object option"
  ca_contexts :: "string list"
  ca_has_on_stop :: bool

text \<open>What a stage does: it goes on, waits, or returns from \<open>_cleanup\<close>.\<close>

datatype cleanup_result = Continues runtime | Stays | Returned runtime

definition stop_stage ::
    "string \<Rightarrow> answer \<Rightarrow> (bool \<Rightarrow> runtime \<Rightarrow> runtime) \<Rightarrow> runtime \<Rightarrow> runtime \<times> bool" where
  "stop_stage name a note s = (case safe_bool_cleanup name True a s of (s1, r) \<Rightarrow> (note r s1, r))"

definition note_scheduler :: "bool \<Rightarrow> runtime \<Rightarrow> runtime" where
  "note_scheduler r s = s\<lparr>rt_scheduler_stopped := r, rt_scheduler_down := rt_scheduler_down s \<or> r\<rparr>"

definition note_events :: "bool \<Rightarrow> runtime \<Rightarrow> runtime" where
  "note_events r s = s\<lparr>rt_events_stopped := r, rt_events_down := rt_events_down s \<or> r\<rparr>"

definition note_session :: "bool \<Rightarrow> runtime \<Rightarrow> runtime" where
  "note_session r s = s\<lparr>rt_session_stopped := r, rt_session_down := rt_session_down s \<or> r\<rparr>"

definition stop_again :: "bool \<Rightarrow> string \<Rightarrow> answer \<Rightarrow> (bool \<Rightarrow> runtime \<Rightarrow> runtime) \<Rightarrow> runtime \<Rightarrow> cleanup_result" where
  "stop_again needed name a note s =
     (if \<not> needed then Continues s
      else case stop_stage name a note s of (s1, r) \<Rightarrow> if r then Continues s1 else Returned s1)"

definition cleanup_stage :: "cleanup_answers \<Rightarrow> cleanup \<Rightarrow> runtime \<Rightarrow> cleanup_result" where
  "cleanup_stage c st s =
     (let a = ca_answer c; over = ca_over c in
      case st of
        EnsureClosed \<Rightarrow> Continues (ensure_closed (ca_now c) (ca_start_failure c) s)
      | AwaitClosed \<Rightarrow>
          if rt_close_complete s then Continues s
          else if over then Continues (rt_upd (shutdown_timed_out ''Boundary close'') s) else Stays
      | CloseReadinessUnstarted \<Rightarrow> Continues (if rt_session_started s then s else s\<lparr>rt_readiness_closed := True\<rparr>)
      | DrainEvents \<Rightarrow>
          if rt_events_started s then
            (case safe_bool_cleanup ''Runtime event pump drain'' False a s of (s1, r) \<Rightarrow> Continues (s1\<lparr>rt_events_drained := r\<rparr>))
          else Continues s
      | PendStopScheduler \<Rightarrow>
          Continues (if rt_scheduler_attempted s then rt_upd (shutdown_pending ''Runtime scheduler stop_accepting'' True) s else s)
      | StopAcceptingScheduler \<Rightarrow>
          Continues (if rt_scheduler_attempted s then safe_cleanup_end ''Runtime scheduler stop_accepting'' a s else s)
      | PendRequestStop \<Rightarrow>
          Continues (if rt_events_started s \<and> \<not> rt_events_drained s then
            rt_upd (shutdown_pending ''Runtime event pump request_stop'' True) s else s)
      | RequestStopEvents \<Rightarrow>
          Continues (if rt_events_started s \<and> \<not> rt_events_drained s then
            safe_cleanup_end ''Runtime event pump request_stop'' a s else s)
      | DrainSession \<Rightarrow>
          Continues (if rt_session_started s then fst (safe_bool_cleanup ''Runtime session pump drain'' False a s) else s)
      | StopSession \<Rightarrow>
          Continues (if rt_session_started s then fst (stop_stage ''Runtime session pump stop'' a note_session s) else s)
      | CloseReadiness \<Rightarrow>
          Continues (if rt_session_started s \<and> rt_session_stopped s then s\<lparr>rt_readiness_closed := True\<rparr> else s)
      | DrainScheduler \<Rightarrow>
          Continues (if rt_scheduler_attempted s then fst (safe_bool_cleanup ''Runtime scheduler drain'' False a s) else s)
      | StopScheduler \<Rightarrow>
          Continues (if rt_scheduler_attempted s then fst (stop_stage ''Runtime scheduler stop'' a note_scheduler s) else s)
      | StopEvents \<Rightarrow>
          Continues (if rt_events_started s then fst (stop_stage ''Runtime event pump stop'' a note_events s) else s)
      | ReleaseWaiters \<Rightarrow>
          Continues (if \<not> (rt_scheduler_stopped s \<and> rt_events_stopped s \<and> rt_session_stopped s) then
            s\<lparr>rt_cleanup_wait_complete := True\<rparr> else s)
      | AwaitBoundaryClose \<Rightarrow> if rt_close_complete s then Continues s else Stays
      | AwaitBoundaryWorkers \<Rightarrow> if over then Continues s else Stays
      | AwaitBoundaryRun \<Rightarrow> if rt_boundary_run_complete s then Continues s else Stays
      | CheckFailedStops \<Rightarrow> if rt_failed_stops s \<noteq> {} then Returned s else Continues s
      | StopSchedulerAgain \<Rightarrow>
          stop_again (rt_scheduler_attempted s \<and> \<not> rt_scheduler_stopped s) ''Runtime scheduler stop'' a note_scheduler s
      | StopSessionAgain \<Rightarrow>
          stop_again (rt_session_started s \<and> \<not> rt_session_stopped s) ''Runtime session pump stop'' a
            (\<lambda>r s1. (note_session r s1)\<lparr>rt_readiness_closed := rt_readiness_closed s1 \<or> r\<rparr>) s
      | StopEventsAgain \<Rightarrow>
          stop_again (rt_events_started s \<and> \<not> rt_events_stopped s) ''Runtime event pump stop'' a note_events s
      | ClearActions \<Rightarrow>
          (case a of
             Returns r \<Rightarrow> Continues (s\<lparr>rt_stages := release_stages (ca_contexts c) @ rt_stages s\<rparr>)
           | Raises is_exn e \<Rightarrow> Continues (record_cleanup_failure ''Runtime action clear'' e s))
      | PendRelease ctx \<Rightarrow> Continues (rt_upd (shutdown_pending (release_name ctx) True) s)
      | ReleaseAction ctx \<Rightarrow>
          Continues (safe_cleanup_end (release_name ctx) a (s\<lparr>rt_released := rt_released s @ [ctx]\<rparr>))
      | PendOnStop \<Rightarrow>
          Continues (if ca_has_on_stop c then rt_upd (shutdown_pending ''Plugin session stop'' True) s else s)
      | CallOnStop \<Rightarrow>
          Continues (if ca_has_on_stop c then safe_cleanup_end ''Plugin session stop'' a (s\<lparr>rt_on_stop_called := True\<rparr>) else s)
      | SetReleased \<Rightarrow> Continues (s\<lparr>rt_resources_released := True\<rparr>)
      | EndPendingCleanup \<Rightarrow> Continues (rt_upd (shutdown_pending ''Runtime cleanup'' False) s)
      | EndCleanup \<Rightarrow> Continues (s\<lparr>rt_cleanup_complete := True\<rparr>)
      | EndCleanupWait \<Rightarrow> Continues (s\<lparr>rt_cleanup_wait_complete := True\<rparr>))"

definition cleanup_step :: "cleanup_answers \<Rightarrow> runtime \<Rightarrow> runtime" where
  "cleanup_step c s =
     (case rt_stages s of
        [] \<Rightarrow> s
      | st # rest \<Rightarrow>
          (case cleanup_stage c st (s\<lparr>rt_stages := rest\<rparr>) of
             Continues s' \<Rightarrow> s'
           | Stays \<Rightarrow> s
           | Returned s' \<Rightarrow> s'\<lparr>rt_stages := cleanup_ending\<rparr>))"


section \<open>The thread of \<open>run_forever\<close>\<close>

definition runtime_begin :: "runtime \<Rightarrow> runtime \<times> exn option" where
  "runtime_begin s =
     (if rt_state s \<noteq> RtNew \<or> rt_shutdown_requested s then (s, Some (LifecycleError ''runtime can only be run once''))
      else ((rt_go RtStarting s)\<lparr>rt_lifecycle_thread := True, rt_run := ReportingScheduler\<rparr>, None))"

text \<open>A \<open>BaseException\<close> becomes a \<open>RuntimeWorkerError\<close>, a new exception that has it as its cause.\<close>

definition as_failure :: "(failure_object \<Rightarrow> failure_object) \<Rightarrow> bool \<Rightarrow> failure_object \<Rightarrow> failure_object" where
  "as_failure wrap is_exn e = (if is_exn then e else wrap e)"

definition is_interrupt :: "bool \<Rightarrow> failure_object \<Rightarrow> bool" where
  "is_interrupt is_exn e \<longleftrightarrow> \<not> is_exn \<and> fo_type e = ''KeyboardInterrupt''"

text \<open>
  The next segment: what its call answers, whether its wait is over, and the clock. A wait can be broken by a
  \<open>KeyboardInterrupt\<close> only. The thread leaves with the exception that \<open>run_forever\<close> raises.
\<close>

definition run_thread_step ::
    "(failure_object \<Rightarrow> failure_object) \<Rightarrow> answer \<Rightarrow> bool \<Rightarrow> rat \<Rightarrow> runtime \<Rightarrow> runtime" where
  "run_thread_step wrap a over now s =
     (let move = (\<lambda>pt. s\<lparr>rt_run := pt\<rparr>);
          call = (\<lambda>go. case a of Returns r \<Rightarrow> go | Raises is_exn e \<Rightarrow> move (RunExcept is_exn e));
          wait = (\<lambda>broken go. case a of
              Returns r \<Rightarrow> go
            | Raises is_exn e \<Rightarrow> if is_interrupt is_exn e then broken is_exn e else go) in
      case rt_run s of
        ReportingScheduler \<Rightarrow>
          rt_upd (shutdown_worker ''Runtime scheduler stop'' False)
            (s\<lparr>rt_scheduler_attempted := True, rt_run := StartingScheduler\<rparr>)
      | StartingScheduler \<Rightarrow> call (move TestingEvents)
      | TestingEvents \<Rightarrow> move (if rt_shutdown_requested s then TestingSession else StartingEvents)
      | StartingEvents \<Rightarrow>
          call (rt_upd (shutdown_worker ''Runtime event pump stop'' False)
            (s\<lparr>rt_events_started := True, rt_run := TestingSession\<rparr>))
      | TestingSession \<Rightarrow> move (if rt_shutdown_requested s then TestingBoundary else StartingSession)
      | StartingSession \<Rightarrow>
          call (rt_upd (shutdown_worker ''Runtime session pump stop'' False)
            (s\<lparr>rt_session_started := True, rt_run := SettingRunning\<rparr>))
      | SettingRunning \<Rightarrow>
          (if rt_shutdown_requested s then s else rt_go RtRunning s)\<lparr>rt_run := TestingBoundary\<rparr>
      | TestingBoundary \<Rightarrow>
          if rt_shutdown_requested s then move (RunFinally None)
          else rt_upd (shutdown_worker ''Boundary run'' False)
            (s\<lparr>rt_boundary_run_complete := False, rt_run := SpawningBoundary\<rparr>)
      | SpawningBoundary \<Rightarrow>
          (case a of
             Returns r \<Rightarrow> s\<lparr>rt_boundary := InBoundary, rt_run := AwaitingBoundary\<rparr>
           | Raises is_exn e \<Rightarrow>
               rt_upd (shutdown_worker ''Boundary run'' True)
                 (s\<lparr>rt_boundary_run_complete := True, rt_run := RunExcept is_exn e\<rparr>))
      | AwaitingBoundary \<Rightarrow>
          wait (\<lambda>is_exn e. move (RunExcept is_exn e))
            (if rt_boundary_run_complete s \<or> rt_shutdown_requested s then move AwaitingEnd else s)
      | AwaitingEnd \<Rightarrow>
          wait (\<lambda>is_exn e. move (RunExcept is_exn e))
            (if rt_boundary_run_complete s then move (RunFinally None)
             else if over then rt_upd (shutdown_timed_out ''Boundary run'') (move (RunFinally None)) else s)
      | RunExcept is_exn e \<Rightarrow>
          if is_interrupt is_exn e then move (RunFinally (Some e))
          else if \<not> rt_shutdown_requested s \<or> rt_failure s \<noteq> None then
            (record_primary (as_failure wrap is_exn e) s)\<lparr>rt_run := RunFinally None\<rparr>
          else move (RunFinally None)
      | RunFinally raised \<Rightarrow>
          (if rt_state s = RtStarting \<or> rt_state s = RtRunning then rt_go RtStopping s else s)
            \<lparr>rt_shutdown_requested := True, rt_run := SpawningCleanup raised\<rparr>
      | SpawningCleanup raised \<Rightarrow>
          (let s1 = rt_upd (shutdown_pending ''Runtime cleanup'' True \<circ> shutdown_begin now) (move (AwaitingCleanup raised)) in
           case a of
             Returns r \<Rightarrow> s1\<lparr>rt_stages := cleanup_script\<rparr>
           | Raises is_exn e \<Rightarrow> record_cleanup_failure ''Runtime cleanup worker start'' e s1)
      | AwaitingCleanup raised \<Rightarrow>
          wait (\<lambda>is_exn e. move (RunReturned (Some e)))
            (if rt_cleanup_wait_complete s then move (Settling raised)
             else if over then rt_upd (shutdown_timed_out ''Runtime cleanup'') (move (Settling raised)) else s)
      | Settling raised \<Rightarrow>
          (let failure = (case rt_failure s of Some e \<Rightarrow> Some e | None \<Rightarrow> sh_primary (rt_shutdown s)) in
           (rt_go (if failure \<noteq> None then RtFailed else RtStopped) (s\<lparr>rt_failure := failure\<rparr>))
             \<lparr>rt_lifecycle_thread := False, rt_terminal := True,
              rt_run := RunReturned (case raised of Some e \<Rightarrow> Some e | None \<Rightarrow> failure)\<rparr>)
      | _ \<Rightarrow> s)"

text \<open>\<open>_run_boundary\<close>, in the thread of the boundary: the answer is that of the boundary's \<open>run_forever\<close>.\<close>

definition boundary_thread_step ::
    "(failure_object \<Rightarrow> failure_object) \<Rightarrow> answer \<Rightarrow> rat \<Rightarrow> failure_object option \<Rightarrow> runtime \<Rightarrow> runtime" where
  "boundary_thread_step wrap a now start_failure s =
     (case rt_boundary s of
        InBoundary \<Rightarrow>
          s\<lparr>rt_boundary := (case a of Returns r \<Rightarrow> BoundaryEnding | Raises is_exn e \<Rightarrow> BoundaryTest is_exn e)\<rparr>
      | BoundaryTest is_exn e \<Rightarrow>
          if \<not> rt_shutdown_requested s then
            (on_fatal_error now start_failure (as_failure wrap is_exn e) s)\<lparr>rt_boundary := BoundaryEnding\<rparr>
          else s\<lparr>rt_boundary := BoundaryTestFailure is_exn e\<rparr>
      | BoundaryTestFailure is_exn e \<Rightarrow>
          (if rt_failure s \<noteq> None then on_fatal_error now start_failure (as_failure wrap is_exn e) s else s)
            \<lparr>rt_boundary := BoundaryEnding\<rparr>
      | BoundaryEnding \<Rightarrow>
          rt_upd (shutdown_worker ''Boundary run'' True \<circ> shutdown_begin now)
            (s\<lparr>rt_boundary_run_complete := True, rt_boundary := BoundaryGone\<rparr>)
      | _ \<Rightarrow> s)"

text \<open>\<open>_close_boundary_owned\<close>.\<close>

definition closer_step :: "answer \<Rightarrow> runtime \<Rightarrow> runtime" where
  "closer_step a s =
     (case rt_closer s of
        InClose \<Rightarrow>
          (case a of Returns r \<Rightarrow> s | Raises is_exn e \<Rightarrow> record_cleanup_failure ''Stream Dock boundary close'' e s)
            \<lparr>rt_closer := CloserEnding\<rparr>
      | CloserEnding \<Rightarrow>
          rt_upd (shutdown_pending ''Boundary close'' False) (s\<lparr>rt_close_complete := True, rt_closer := CloserGone\<rparr>)
      | _ \<Rightarrow> s)"

text \<open>
  \<open>close\<close> up to its waits: a caller that is not a worker and comes before the run waits for the
  boundary's close and then ends the runtime itself.
\<close>

definition runtime_close :: "bool \<Rightarrow> rat \<Rightarrow> failure_object option \<Rightarrow> runtime \<Rightarrow> runtime" where
  "runtime_close from_worker now start_failure s =
     (let s1 = rt_upd (shutdown_begin now) s in
      if runtime_terminal (rt_state s1) then s1
      else
        (let early = (rt_state s1 = RtNew);
             s2 = ensure_closed now start_failure (s1\<lparr>rt_shutdown_requested := True\<rparr>) in
         if early \<and> \<not> from_worker then s2\<lparr>rt_early_closers := Suc (rt_early_closers s2)\<rparr> else s2))"

definition early_close_ends :: "bool \<Rightarrow> runtime \<Rightarrow> runtime" where
  "early_close_ends over s =
     (if rt_early_closers s = 0 \<or> \<not> (rt_close_complete s \<or> over) then s
      else
        (if rt_state s = RtNew then rt_go RtStopped s else s)
          \<lparr>rt_readiness_closed := True, rt_resources_released := True, rt_terminal := True,
           rt_early_closers := rt_early_closers s - 1\<rparr>)"

section \<open>Histories\<close>

datatype runtime_op =
    RunForever
  | RunThread answer bool rat
  | BoundaryThread answer rat "failure_object option"
  | CloserThread answer
  | CleanupWorker cleanup_answers
  | FatalError rat "failure_object option" failure_object
  | CloseRuntime bool rat "failure_object option"
  | EarlyCloseEnds bool
  | WaitExpires string
  | BoundaryFailed failure_object

text \<open>
  \<open>WaitExpires\<close>: a wait of \<open>close\<close> or of \<open>_ensure_boundary_closed\<close> is over. \<open>BoundaryFailed\<close>: the boundary, which shares the
  shutdown state, reports the failure of a worker.
\<close>

fun runtime_step :: "(failure_object \<Rightarrow> failure_object) \<Rightarrow> runtime_op \<Rightarrow> runtime \<Rightarrow> runtime" where
  "runtime_step wrap RunForever s = fst (runtime_begin s)"
| "runtime_step wrap (RunThread a over now) s = run_thread_step wrap a over now s"
| "runtime_step wrap (BoundaryThread a now start_failure) s = boundary_thread_step wrap a now start_failure s"
| "runtime_step wrap (CloserThread a) s = closer_step a s"
| "runtime_step wrap (CleanupWorker c) s = cleanup_step c s"
| "runtime_step wrap (FatalError now start_failure e) s = on_fatal_error now start_failure e s"
| "runtime_step wrap (CloseRuntime from_worker now start_failure) s = runtime_close from_worker now start_failure s"
| "runtime_step wrap (EarlyCloseEnds over) s = early_close_ends over s"
| "runtime_step wrap (WaitExpires name) s = rt_upd (shutdown_timed_out name) s"
| "runtime_step wrap (BoundaryFailed e) s = rt_upd (set_primary_failure e) s"

abbreviation runtime_run :: "(failure_object \<Rightarrow> failure_object) \<Rightarrow> rat option \<Rightarrow> runtime_op list \<Rightarrow> runtime" where
  "runtime_run wrap budget ops \<equiv> fold (runtime_step wrap) ops (new_runtime budget)"


section \<open>Invariant\<close>

fun cleanup_rank :: "cleanup \<Rightarrow> nat" where
  "cleanup_rank EnsureClosed = 0"
| "cleanup_rank AwaitClosed = 1"
| "cleanup_rank CloseReadinessUnstarted = 2"
| "cleanup_rank DrainEvents = 3"
| "cleanup_rank PendStopScheduler = 4"
| "cleanup_rank StopAcceptingScheduler = 5"
| "cleanup_rank PendRequestStop = 6"
| "cleanup_rank RequestStopEvents = 7"
| "cleanup_rank DrainSession = 8"
| "cleanup_rank StopSession = 9"
| "cleanup_rank CloseReadiness = 10"
| "cleanup_rank DrainScheduler = 11"
| "cleanup_rank StopScheduler = 12"
| "cleanup_rank StopEvents = 13"
| "cleanup_rank ReleaseWaiters = 14"
| "cleanup_rank AwaitBoundaryClose = 15"
| "cleanup_rank AwaitBoundaryWorkers = 16"
| "cleanup_rank AwaitBoundaryRun = 17"
| "cleanup_rank CheckFailedStops = 18"
| "cleanup_rank StopSchedulerAgain = 19"
| "cleanup_rank StopSessionAgain = 20"
| "cleanup_rank StopEventsAgain = 21"
| "cleanup_rank ClearActions = 22"
| "cleanup_rank (PendRelease ctx) = 22"
| "cleanup_rank (ReleaseAction ctx) = 22"
| "cleanup_rank PendOnStop = 24"
| "cleanup_rank CallOnStop = 25"
| "cleanup_rank SetReleased = 26"
| "cleanup_rank EndPendingCleanup = 27"
| "cleanup_rank EndCleanup = 28"
| "cleanup_rank EndCleanupWait = 29"

text \<open>The run has come to the cleanup, so that what was started is known.\<close>

fun late :: "run_point \<Rightarrow> bool" where
  "late (AwaitingCleanup r) = True"
| "late (Settling r) = True"
| "late (RunReturned r) = True"
| "late _ = False"

definition ready_to_release :: "runtime \<Rightarrow> bool" where
  "ready_to_release s \<longleftrightarrow> late (rt_run s) \<and> rt_close_complete s \<and> rt_boundary_run_complete s \<and>
     (rt_scheduler_attempted s \<longrightarrow> rt_scheduler_down s) \<and> (rt_session_started s \<longrightarrow> rt_session_down s) \<and>
     (rt_events_started s \<longrightarrow> rt_events_down s)"

definition passing :: "runtime \<Rightarrow> cleanup \<Rightarrow> bool" where
  "passing s st \<longleftrightarrow> SetReleased \<in> set (rt_stages s) \<and> st \<notin> set (rt_stages s)"

definition stages_ok :: "runtime \<Rightarrow> bool" where
  "stages_ok s \<longleftrightarrow> sorted (map cleanup_rank (rt_stages s)) \<and> (rt_stages s \<noteq> [] \<longrightarrow> late (rt_run s)) \<and>
     (passing s AwaitBoundaryClose \<longrightarrow> rt_close_complete s) \<and>
     (passing s AwaitBoundaryRun \<longrightarrow> rt_boundary_run_complete s) \<and>
     (passing s StopScheduler \<and> rt_scheduler_attempted s \<and> rt_scheduler_stopped s \<longrightarrow> rt_scheduler_down s) \<and>
     (passing s StopSession \<and> rt_session_started s \<and> rt_session_stopped s \<longrightarrow> rt_session_down s) \<and>
     (passing s StopEvents \<and> rt_events_started s \<and> rt_events_stopped s \<longrightarrow> rt_events_down s) \<and>
     (passing s StopSchedulerAgain \<and> rt_scheduler_attempted s \<longrightarrow> rt_scheduler_down s) \<and>
     (passing s StopSessionAgain \<and> rt_session_started s \<longrightarrow> rt_session_down s) \<and>
     (passing s StopEventsAgain \<and> rt_events_started s \<longrightarrow> rt_events_down s)"

definition releases_ok :: "runtime \<Rightarrow> bool" where
  "releases_ok s \<longleftrightarrow>
     (rt_released s \<noteq> [] \<or> rt_on_stop_called s \<or> rt_resources_released s \<and> rt_run s \<noteq> RunNew \<longrightarrow> ready_to_release s) \<and>
     (\<forall>st \<in> set (rt_stages s). (\<forall>ctx. st = PendRelease ctx \<or> st = ReleaseAction ctx \<longrightarrow> SetReleased \<in> set (rt_stages s)) \<and>
        (st = CallOnStop \<longrightarrow> SetReleased \<in> set (rt_stages s)) \<and> (st = ClearActions \<longrightarrow> SetReleased \<in> set (rt_stages s))) \<and>
     (0 < rt_early_closers s \<or> rt_resources_released s \<and> rt_run s = RunNew \<longrightarrow> rt_shutdown_requested s \<and> rt_run s = RunNew)"

definition interrupted :: "failure_object option \<Rightarrow> bool" where
  "interrupted r \<longleftrightarrow> (\<exists>e. r = Some e \<and> fo_type e = ''KeyboardInterrupt'')"

definition lifecycle_ok :: "runtime \<Rightarrow> bool" where
  "lifecycle_ok s \<longleftrightarrow> \<not> rt_illegal s \<and>
     (case rt_run s of
        RunNew \<Rightarrow> rt_state s = RtNew \<or> rt_state s = RtStopped \<and> rt_shutdown_requested s
      | TestingBoundary \<Rightarrow> rt_state s \<in> {RtStarting, RtRunning}
      | SpawningBoundary \<Rightarrow> rt_state s \<in> {RtStarting, RtRunning}
      | AwaitingBoundary \<Rightarrow> rt_state s \<in> {RtStarting, RtRunning}
      | AwaitingEnd \<Rightarrow> rt_state s \<in> {RtStarting, RtRunning}
      | RunExcept is_exn e \<Rightarrow> rt_state s \<in> {RtStarting, RtRunning}
      | RunFinally r \<Rightarrow> rt_state s \<in> {RtStarting, RtRunning} \<and> (r = None \<or> interrupted r)
      | SpawningCleanup r \<Rightarrow> rt_state s = RtStopping \<and> (r = None \<or> interrupted r)
      | AwaitingCleanup r \<Rightarrow> rt_state s = RtStopping \<and> (r = None \<or> interrupted r)
      | Settling r \<Rightarrow> rt_state s = RtStopping \<and> (r = None \<or> interrupted r)
      | RunReturned r \<Rightarrow>
          rt_state s = RtFailed \<and> rt_failure s \<noteq> None \<and> (r = rt_failure s \<or> interrupted r) \<or>
          rt_state s = RtStopped \<and> (r = None \<or> interrupted r) \<or> rt_state s = RtStopping \<and> interrupted r
      | _ \<Rightarrow> rt_state s = RtStarting)"

definition runtime_ok :: "runtime \<Rightarrow> bool" where
  "runtime_ok s \<longleftrightarrow> stages_ok s \<and> releases_ok s \<and> lifecycle_ok s"

lemma rt_upd_simps [simp]:
  "rt_state (rt_upd f s) = rt_state s" "rt_shutdown_requested (rt_upd f s) = rt_shutdown_requested s"
  "rt_failure (rt_upd f s) = rt_failure s" "rt_failed_stops (rt_upd f s) = rt_failed_stops s"
  "rt_resources_released (rt_upd f s) = rt_resources_released s" "rt_cleanup_wait_complete (rt_upd f s) = rt_cleanup_wait_complete s"
  "rt_boundary_run_complete (rt_upd f s) = rt_boundary_run_complete s" "rt_close_started (rt_upd f s) = rt_close_started s"
  "rt_close_complete (rt_upd f s) = rt_close_complete s" "rt_scheduler_attempted (rt_upd f s) = rt_scheduler_attempted s"
  "rt_events_started (rt_upd f s) = rt_events_started s" "rt_session_started (rt_upd f s) = rt_session_started s"
  "rt_session_stopped (rt_upd f s) = rt_session_stopped s" "rt_scheduler_stopped (rt_upd f s) = rt_scheduler_stopped s"
  "rt_events_stopped (rt_upd f s) = rt_events_stopped s" "rt_run (rt_upd f s) = rt_run s"
  "rt_boundary (rt_upd f s) = rt_boundary s" "rt_closer (rt_upd f s) = rt_closer s" "rt_stages (rt_upd f s) = rt_stages s"
  "rt_early_closers (rt_upd f s) = rt_early_closers s" "rt_scheduler_down (rt_upd f s) = rt_scheduler_down s"
  "rt_events_down (rt_upd f s) = rt_events_down s" "rt_session_down (rt_upd f s) = rt_session_down s"
  "rt_released (rt_upd f s) = rt_released s" "rt_on_stop_called (rt_upd f s) = rt_on_stop_called s"
  "rt_illegal (rt_upd f s) = rt_illegal s" "rt_shutdown (rt_upd f s) = f (rt_shutdown s)"
  by (simp_all add: rt_upd_def)

text \<open>Changes that the invariant does not see, but for more requests, closes and ends.\<close>

definition same_course :: "runtime \<Rightarrow> runtime \<Rightarrow> bool" where
  "same_course s t \<longleftrightarrow>
     rt_state t = rt_state s \<and> (rt_shutdown_requested s \<longrightarrow> rt_shutdown_requested t) \<and>
     (rt_failure s \<noteq> None \<longrightarrow> rt_failure t = rt_failure s) \<and>
     rt_resources_released t = rt_resources_released s \<and> (rt_boundary_run_complete s \<longrightarrow> rt_boundary_run_complete t) \<and>
     (rt_close_complete s \<longrightarrow> rt_close_complete t) \<and> rt_scheduler_attempted t = rt_scheduler_attempted s \<and>
     rt_events_started t = rt_events_started s \<and> rt_session_started t = rt_session_started s \<and>
     rt_session_stopped t = rt_session_stopped s \<and> rt_scheduler_stopped t = rt_scheduler_stopped s \<and>
     rt_events_stopped t = rt_events_stopped s \<and> rt_run t = rt_run s \<and> rt_stages t = rt_stages s \<and>
     rt_early_closers t = rt_early_closers s \<and> rt_scheduler_down t = rt_scheduler_down s \<and>
     rt_events_down t = rt_events_down s \<and> rt_session_down t = rt_session_down s \<and>
     rt_released t = rt_released s \<and> rt_on_stop_called t = rt_on_stop_called s \<and> rt_illegal t = rt_illegal s"

lemma same_course_ok:
  assumes ok: "runtime_ok s" and same: "same_course s t"
  shows "runtime_ok t"
proof -
  note same' = same [unfolded same_course_def]
  have pass: "passing t st = passing s st" for st using same' by (simp add: passing_def)
  have "stages_ok t" using ok same' unfolding runtime_ok_def stages_ok_def pass by auto
  moreover have "ready_to_release s \<Longrightarrow> ready_to_release t" using same' by (simp add: ready_to_release_def)
  then have "releases_ok t" using ok same' by (simp add: runtime_ok_def releases_ok_def)
  moreover have "lifecycle_ok t"
  proof -
  have "lifecycle_ok s" using ok by (simp add: runtime_ok_def)
  moreover have "rt_state t = rt_state s" "rt_run t = rt_run s" "rt_illegal t = rt_illegal s"
    "rt_failure s \<noteq> None \<longrightarrow> rt_failure t = rt_failure s" "rt_shutdown_requested s \<longrightarrow> rt_shutdown_requested t"
    using same' by simp_all
  ultimately show ?thesis by (cases "rt_run s") (simp_all add: lifecycle_ok_def, auto)
  qed
  ultimately show ?thesis by (simp add: runtime_ok_def)
qed


section \<open>The steps beside the run and the cleanup\<close>

lemma same_course_refl [simp]: "same_course s s"
  by (simp add: same_course_def)

lemma same_course_trans: "same_course s t \<Longrightarrow> same_course t u \<Longrightarrow> same_course s u"
  by (simp add: same_course_def)

lemma same_course_upd [simp]: "same_course s (rt_upd f s)"
  by (simp add: same_course_def)

lemma ensure_closed_same: "same_course s (ensure_closed now failure s)"
  by (simp add: ensure_closed_def record_cleanup_failure_def same_course_def Let_def split: option.split)

lemma record_primary_same: "same_course s (record_primary e s)"
  by (simp add: record_primary_def same_course_def)

lemma on_fatal_error_same: "same_course s (on_fatal_error now failure e s)"
  unfolding on_fatal_error_def Let_def
  by (rule same_course_trans [OF same_course_upd same_course_trans [OF record_primary_same ensure_closed_same]])

lemma closer_same: "same_course s (closer_step a s)"
  by (cases "rt_closer s"; cases a) (simp_all add: closer_step_def record_cleanup_failure_def same_course_def)

lemma boundary_thread_same: "same_course s (boundary_thread_step wrap a now failure s)"
proof -
  have b: "same_course t (t\<lparr>rt_boundary := x\<rparr>)" for t x by (simp add: same_course_def)
  note fatal = same_course_trans [OF on_fatal_error_same b]
  show ?thesis
  proof (cases "rt_boundary s")
    case (BoundaryTest is_exn e)
    then show ?thesis using fatal b by (simp add: boundary_thread_step_def)
  next
    case (BoundaryTestFailure is_exn e)
    then show ?thesis using fatal b by (simp add: boundary_thread_step_def)
  next
    case BoundaryEnding
    then show ?thesis by (simp add: boundary_thread_step_def same_course_def)
  qed (use b in \<open>simp_all add: boundary_thread_step_def\<close>)
qed

lemma go_simps [simp]:
  "rt_run (rt_go st s) = rt_run s" "rt_stages (rt_go st s) = rt_stages s" "rt_released (rt_go st s) = rt_released s"
  "rt_on_stop_called (rt_go st s) = rt_on_stop_called s" "rt_resources_released (rt_go st s) = rt_resources_released s"
  "rt_early_closers (rt_go st s) = rt_early_closers s" "rt_shutdown_requested (rt_go st s) = rt_shutdown_requested s"
  "rt_failure (rt_go st s) = rt_failure s" "rt_close_complete (rt_go st s) = rt_close_complete s"
  "rt_boundary_run_complete (rt_go st s) = rt_boundary_run_complete s"
  by (simp_all add: rt_go_def split: sum.split)

lemma go_state:
  "target \<in> runtime_transitions (rt_state s) \<Longrightarrow> rt_state (rt_go target s) = target"
  "target \<in> runtime_transitions (rt_state s) \<Longrightarrow> rt_illegal (rt_go target s) = rt_illegal s"
  by (simp_all add: rt_go_def transition_runtime_state_def)

text \<open>As long as the cleanup has not begun, the invariant is about the lifecycle only.\<close>

definition idle :: "runtime \<Rightarrow> bool" where
  "idle s \<longleftrightarrow> rt_stages s = [] \<and> rt_released s = [] \<and> \<not> rt_on_stop_called s"

lemma early_idle:
  assumes "runtime_ok s" "\<not> late (rt_run s)"
  shows "idle s" "rt_run s \<noteq> RunNew \<Longrightarrow> \<not> rt_resources_released s \<and> rt_early_closers s = 0"
  using assms by (auto simp: runtime_ok_def stages_ok_def releases_ok_def ready_to_release_def idle_def)

lemma idle_ok:
  assumes "idle s" "lifecycle_ok s" "rt_run s \<noteq> RunNew" "\<not> rt_resources_released s" "rt_early_closers s = 0"
  shows "runtime_ok s"
  using assms by (simp add: runtime_ok_def stages_ok_def releases_ok_def passing_def idle_def)

lemma runtime_begin_ok:
  assumes ok: "runtime_ok s"
  shows "runtime_ok (fst (runtime_begin s))"
proof (cases "rt_state s \<noteq> RtNew \<or> rt_shutdown_requested s")
  case False
  then have new: "rt_run s = RunNew" using ok
    by (cases "rt_run s") (auto simp: runtime_ok_def lifecycle_ok_def)
  then have idle: "idle s" using early_idle [OF ok] by simp
  have none: "\<not> rt_resources_released s" "rt_early_closers s = 0" using ok False new by (auto simp: runtime_ok_def releases_ok_def)
  have "\<not> rt_illegal s" using ok by (simp add: runtime_ok_def lifecycle_ok_def)
  then show ?thesis using False idle none
    by (intro idle_ok) (simp_all add: runtime_begin_def idle_def lifecycle_ok_def go_state)
qed (use ok in \<open>simp add: runtime_begin_def\<close>)

lemma runtime_close_ok:
  assumes ok: "runtime_ok s"
  shows "runtime_ok (runtime_close from_worker now failure s)"
proof -
  let ?s1 = "rt_upd (shutdown_begin now) s"
  let ?s2 = "ensure_closed now failure (?s1\<lparr>rt_shutdown_requested := True\<rparr>)"
  have "same_course ?s1 (?s1\<lparr>rt_shutdown_requested := True\<rparr>)" by (simp add: same_course_def)
  then have same: "same_course s ?s2"
    by (rule same_course_trans [OF same_course_upd same_course_trans [OF _ ensure_closed_same]])
  have ok2: "runtime_ok ?s2" by (rule same_course_ok [OF ok same])
  have requested: "rt_shutdown_requested ?s2" using ensure_closed_same [of "?s1\<lparr>rt_shutdown_requested := True\<rparr>" now failure]
    by (simp add: same_course_def)
  have "runtime_ok (?s2\<lparr>rt_early_closers := Suc (rt_early_closers ?s2)\<rparr>)" if "rt_state s = RtNew"
  proof -
    have "rt_run s = RunNew" using ok that by (cases "rt_run s") (auto simp: runtime_ok_def lifecycle_ok_def)
    then have "rt_run ?s2 = RunNew" using same by (simp add: same_course_def)
    then show ?thesis using ok2 requested
      by (auto simp: runtime_ok_def stages_ok_def releases_ok_def lifecycle_ok_def passing_def ready_to_release_def)
  qed
  then show ?thesis using ok2 same_course_ok [OF ok same_course_upd]
    by (simp add: runtime_close_def Let_def)
qed

lemma early_close_ok:
  assumes ok: "runtime_ok s"
  shows "runtime_ok (early_close_ends over s)"
proof (cases "rt_early_closers s = 0 \<or> \<not> (rt_close_complete s \<or> over)")
  case False
  then have new: "rt_run s = RunNew" "rt_shutdown_requested s" using ok by (auto simp: runtime_ok_def releases_ok_def)
  then have idle: "idle s" using early_idle [OF ok] by simp
  have "\<not> rt_illegal s" "rt_state s = RtNew \<or> rt_state s = RtStopped" using ok new by (auto simp: runtime_ok_def lifecycle_ok_def)
  then show ?thesis using False idle new
    by (auto simp: early_close_ends_def runtime_ok_def stages_ok_def releases_ok_def lifecycle_ok_def passing_def idle_def go_state)
qed (use ok in \<open>simp add: early_close_ends_def\<close>)


section \<open>The run\<close>

text \<open>The run moves on while nothing of the cleanup is at stake.\<close>

lemma early_moves:
  assumes ok: "runtime_ok s" and at: "\<not> late (rt_run s)" "rt_run s \<noteq> RunNew" "rt_run t \<noteq> RunNew"
    and same: "rt_stages t = rt_stages s" "rt_released t = rt_released s" "rt_on_stop_called t = rt_on_stop_called s"
      "rt_resources_released t = rt_resources_released s" "rt_early_closers t = rt_early_closers s"
    and life: "lifecycle_ok t"
  shows "runtime_ok t"
proof (rule idle_ok [OF _ life at(3)])
  show "idle t" using early_idle(1) [OF ok at(1)] same by (simp add: idle_def)
  show "\<not> rt_resources_released t" "rt_early_closers t = 0" using early_idle(2) [OF ok at(1,2)] same by simp_all
qed

lemma late_moves:
  assumes ok: "runtime_ok s" and at: "late (rt_run s)" "late (rt_run t)"
    and same: "rt_stages t = rt_stages s" "rt_released t = rt_released s" "rt_on_stop_called t = rt_on_stop_called s"
      "rt_resources_released t = rt_resources_released s" "rt_early_closers t = rt_early_closers s"
      "rt_close_complete t = rt_close_complete s" "rt_boundary_run_complete t = rt_boundary_run_complete s"
      "rt_scheduler_attempted t = rt_scheduler_attempted s" "rt_events_started t = rt_events_started s"
      "rt_session_started t = rt_session_started s" "rt_scheduler_stopped t = rt_scheduler_stopped s"
      "rt_session_stopped t = rt_session_stopped s" "rt_events_stopped t = rt_events_stopped s"
      "rt_scheduler_down t = rt_scheduler_down s" "rt_session_down t = rt_session_down s" "rt_events_down t = rt_events_down s"
    and life: "lifecycle_ok t"
  shows "runtime_ok t"
proof -
  have pass: "passing t st = passing s st" for st by (simp add: passing_def same)
  have "rt_run s \<noteq> RunNew" "rt_run t \<noteq> RunNew" using at by auto
  moreover have "ready_to_release t = ready_to_release s" using at by (simp add: ready_to_release_def same)
  ultimately have "releases_ok t" using ok by (simp add: runtime_ok_def releases_ok_def same)
  moreover have "stages_ok t" using ok at unfolding runtime_ok_def stages_ok_def pass same by simp
  ultimately show ?thesis using life by (simp add: runtime_ok_def)
qed

lemma life_of: "runtime_ok s \<Longrightarrow> lifecycle_ok s"
  by (simp add: runtime_ok_def)

lemma record_primary_simps [simp]:
  "rt_run (record_primary e s) = rt_run s" "rt_stages (record_primary e s) = rt_stages s"
  "rt_released (record_primary e s) = rt_released s" "rt_on_stop_called (record_primary e s) = rt_on_stop_called s"
  "rt_resources_released (record_primary e s) = rt_resources_released s" "rt_state (record_primary e s) = rt_state s"
  "rt_early_closers (record_primary e s) = rt_early_closers s" "rt_illegal (record_primary e s) = rt_illegal s"
  by (simp_all add: record_primary_def)

lemma script_begins:
  assumes ok: "runtime_ok s" and at: "\<not> late (rt_run s)" "rt_run s \<noteq> RunNew" "late (rt_run t)"
    and same: "rt_released t = rt_released s" "rt_on_stop_called t = rt_on_stop_called s"
      "rt_resources_released t = rt_resources_released s" "rt_early_closers t = rt_early_closers s"
      "rt_stages t = cleanup_script"
    and life: "lifecycle_ok t"
  shows "runtime_ok t"
proof -
  have new: "rt_run t \<noteq> RunNew" using at(3) by auto
  have "SetReleased \<in> set cleanup_script" by (simp add: cleanup_script_def)
  moreover have "\<not> passing t st" if "st \<in> set cleanup_script" for st using that by (simp add: passing_def same)
  ultimately have "stages_ok t" using at(3)
    by (simp add: stages_ok_def same) (simp add: cleanup_script_def cleanup_ending_def)
  moreover have "releases_ok t"
    using early_idle [OF ok at(1)] at(2) new \<open>SetReleased \<in> set cleanup_script\<close>
    by (simp add: releases_ok_def idle_def same)
  ultimately show ?thesis using life by (simp add: runtime_ok_def)
qed

lemma run_thread_ok:
  assumes ok: "runtime_ok s"
  shows "runtime_ok (run_thread_step wrap a over now s)"
proof (cases "rt_run s")
  case (RunFinally r)
  then have "lifecycle_ok (run_thread_step wrap a over now s)"
    using life_of [OF ok] by (auto simp: run_thread_step_def lifecycle_ok_def go_state)
  then show ?thesis using RunFinally by (intro early_moves [OF ok]) (simp_all add: run_thread_step_def)
next
  case (SpawningCleanup r)
  have life: "lifecycle_ok (run_thread_step wrap a over now s)"
    using life_of [OF ok] SpawningCleanup
    by (simp add: run_thread_step_def lifecycle_ok_def record_cleanup_failure_def Let_def split: answer.split)
  show ?thesis
  proof (cases a)
    case (Returns x)
    then show ?thesis using SpawningCleanup
      by (intro script_begins [OF ok _ _ _ _ _ _ _ _ life]) (simp_all add: run_thread_step_def Let_def)
  next
    case (Raises is_exn e)
    then show ?thesis using SpawningCleanup
      by (intro early_moves [OF ok _ _ _ _ _ _ _ _ life]) (simp_all add: run_thread_step_def record_cleanup_failure_def Let_def)
  qed
next
  case (AwaitingCleanup r)
  then have "lifecycle_ok (run_thread_step wrap a over now s)"
    using life_of [OF ok]
    by (simp add: run_thread_step_def lifecycle_ok_def interrupted_def is_interrupt_def Let_def split: answer.split)
  then show ?thesis using AwaitingCleanup
    by (intro late_moves [OF ok]) (simp_all add: run_thread_step_def Let_def split: answer.split)
next
  case (Settling r)
  have "lifecycle_ok (run_thread_step wrap a over now s)"
    using life_of [OF ok] Settling
    by (auto simp: run_thread_step_def lifecycle_ok_def go_state Let_def split: option.split)
  then show ?thesis using Settling
    by (intro late_moves [OF ok]) (simp_all add: run_thread_step_def rt_go_def Let_def split: sum.split)
next
  case SettingRunning
  then have "lifecycle_ok (run_thread_step wrap a over now s)"
    using life_of [OF ok] by (simp add: run_thread_step_def lifecycle_ok_def go_state Let_def)
  then show ?thesis using SettingRunning by (intro early_moves [OF ok]) (simp_all add: run_thread_step_def Let_def)
next
  case (RunExcept is_exn e)
  then have "lifecycle_ok (run_thread_step wrap a over now s)"
    using life_of [OF ok] by (auto simp: run_thread_step_def lifecycle_ok_def interrupted_def is_interrupt_def Let_def)
  then show ?thesis using RunExcept by (intro early_moves [OF ok]) (simp_all add: run_thread_step_def Let_def)
next
  case RunNew
  then show ?thesis using ok by (simp add: run_thread_step_def Let_def)
next
  case (RunReturned r)
  then show ?thesis using ok by (simp add: run_thread_step_def Let_def)
qed (rule early_moves [OF ok]; use life_of [OF ok] in \<open>simp add: run_thread_step_def lifecycle_ok_def Let_def split: answer.split\<close>)+


section \<open>The cleanup\<close>

text \<open>What a stage keeps and may only improve.\<close>

definition stage_course :: "runtime \<Rightarrow> runtime \<Rightarrow> bool" where
  "stage_course s t \<longleftrightarrow>
     rt_run t = rt_run s \<and> rt_state t = rt_state s \<and> rt_illegal t = rt_illegal s \<and> rt_failure t = rt_failure s \<and>
     rt_shutdown_requested t = rt_shutdown_requested s \<and> rt_early_closers t = rt_early_closers s \<and>
     (rt_close_complete s \<longrightarrow> rt_close_complete t) \<and> rt_boundary_run_complete t = rt_boundary_run_complete s \<and>
     rt_scheduler_attempted t = rt_scheduler_attempted s \<and> rt_events_started t = rt_events_started s \<and>
     rt_session_started t = rt_session_started s \<and>
     (rt_scheduler_down s \<longrightarrow> rt_scheduler_down t) \<and> (rt_events_down s \<longrightarrow> rt_events_down t) \<and>
     (rt_session_down s \<longrightarrow> rt_session_down t) \<and>
     (rt_scheduler_stopped t \<longrightarrow> rt_scheduler_stopped s \<or> rt_scheduler_down t) \<and>
     (rt_events_stopped t \<longrightarrow> rt_events_stopped s \<or> rt_events_down t) \<and>
     (rt_session_stopped t \<longrightarrow> rt_session_stopped s \<or> rt_session_down t)"

text \<open>What the passing of a stage must have achieved.\<close>

fun achieved :: "cleanup \<Rightarrow> runtime \<Rightarrow> bool" where
  "achieved AwaitBoundaryClose s = rt_close_complete s"
| "achieved AwaitBoundaryRun s = rt_boundary_run_complete s"
| "achieved StopScheduler s = (rt_scheduler_attempted s \<and> rt_scheduler_stopped s \<longrightarrow> rt_scheduler_down s)"
| "achieved StopSession s = (rt_session_started s \<and> rt_session_stopped s \<longrightarrow> rt_session_down s)"
| "achieved StopEvents s = (rt_events_started s \<and> rt_events_stopped s \<longrightarrow> rt_events_down s)"
| "achieved StopSchedulerAgain s = (rt_scheduler_attempted s \<longrightarrow> rt_scheduler_down s)"
| "achieved StopSessionAgain s = (rt_session_started s \<longrightarrow> rt_session_down s)"
| "achieved StopEventsAgain s = (rt_events_started s \<longrightarrow> rt_events_down s)"
| "achieved _ s = True"

lemma stages_okI:
  assumes "sorted (map cleanup_rank (rt_stages s))" "rt_stages s \<noteq> [] \<Longrightarrow> late (rt_run s)"
    and goal: "\<And>st. passing s st \<Longrightarrow> achieved st s"
  shows "stages_ok s"
  using assms(1,2) goal [of AwaitBoundaryClose] goal [of AwaitBoundaryRun] goal [of StopScheduler] goal [of StopSession]
    goal [of StopEvents] goal [of StopSchedulerAgain] goal [of StopSessionAgain] goal [of StopEventsAgain]
  unfolding stages_ok_def achieved.simps by blast

lemma stages_okD: "stages_ok s \<Longrightarrow> passing s st \<Longrightarrow> achieved st s"
  by (cases st) (simp_all add: stages_ok_def)

lemma achieved_mono: "achieved st s \<Longrightarrow> stage_course s t \<Longrightarrow> achieved st t"
  by (cases st) (auto simp: stage_course_def)

lemma life_kept: "lifecycle_ok s \<Longrightarrow> stage_course s t \<Longrightarrow> lifecycle_ok t"
proof -
  assume ok: "lifecycle_ok s" and c: "stage_course s t"
  have "rt_state t = rt_state s" "rt_run t = rt_run s" "rt_illegal t = rt_illegal s" "rt_failure t = rt_failure s"
    "rt_shutdown_requested t = rt_shutdown_requested s" using c by (simp_all add: stage_course_def)
  then show ?thesis using ok by (cases "rt_run s") (simp_all add: lifecycle_ok_def)
qed

lemma ready_kept: "ready_to_release s \<Longrightarrow> stage_course s t \<Longrightarrow> ready_to_release t"
  by (auto simp: ready_to_release_def stage_course_def)

lemma head_first:
  assumes "runtime_ok s" "rt_stages s = st # rest" "cleanup_rank x < cleanup_rank st"
  shows "x \<notin> set (rt_stages s)"
proof -
  have "sorted (map cleanup_rank (st # rest))" using assms(1,2) unfolding runtime_ok_def stages_ok_def by simp
  then show ?thesis using assms(2,3) by auto
qed

text \<open>At the head of the releasing stages everything has been achieved.\<close>

lemma release_is_ready:
  assumes ok: "runtime_ok s" and st: "rt_stages s = st # rest" "22 \<le> cleanup_rank st" "SetReleased \<in> set (rt_stages s)"
  shows "ready_to_release s"
proof -
  have pass: "passing s x" if "cleanup_rank x < 22" for x
    using head_first [OF ok st(1), of x] st that by (simp add: passing_def)
  have stages: "stages_ok s" using ok by (simp add: runtime_ok_def)
  have "late (rt_run s)" using stages st by (simp add: stages_ok_def)
  then show ?thesis
    using stages_okD [OF stages pass [of AwaitBoundaryClose]] stages_okD [OF stages pass [of AwaitBoundaryRun]]
      stages_okD [OF stages pass [of StopSchedulerAgain]] stages_okD [OF stages pass [of StopSessionAgain]]
      stages_okD [OF stages pass [of StopEventsAgain]]
    by (simp add: ready_to_release_def)
qed

lemma stage_passes:
  assumes ok: "runtime_ok s" and st: "rt_stages s = st # rest" and course: "stage_course s t" and stages: "rt_stages t = rest"
    and goal: "SetReleased \<in> set rest \<Longrightarrow> achieved st t"
    and effects: "rt_released t = rt_released s \<and> rt_on_stop_called t = rt_on_stop_called s \<and>
      rt_resources_released t = rt_resources_released s \<or> ready_to_release s"
  shows "runtime_ok t"
proof -
  have ok': "stages_ok s" "releases_ok s" "lifecycle_ok s" using ok by (simp_all add: runtime_ok_def)
  have late: "late (rt_run s)" "rt_run t = rt_run s" using ok'(1) st course by (auto simp: stages_ok_def stage_course_def)
  then have new: "rt_run s \<noteq> RunNew" by auto
  have "stages_ok t"
  proof (rule stages_okI)
    show "sorted (map cleanup_rank (rt_stages t))" using ok'(1) st stages by (simp add: stages_ok_def)
    show "late (rt_run t)" using late by simp
    show "achieved x t" if "passing t x" for x
    proof (cases "x = st")
      case True
      then show ?thesis using that goal stages by (simp add: passing_def)
    next
      case False
      then have "passing s x" using that st stages by (simp add: passing_def)
      then show ?thesis using achieved_mono [OF stages_okD [OF ok'(1)] course] by simp
    qed
  qed
  moreover have "releases_ok t"
  proof -
    have last: "SetReleased \<in> set rest" if "x \<in> set rest" "x = PendRelease c \<or> x = ReleaseAction c \<or> x = CallOnStop \<or> x = ClearActions" for x c
    proof -
      have "x \<in> set (rt_stages s)" using that st by simp
      then have "SetReleased \<in> set (rt_stages s)" using ok'(2) that(2) unfolding releases_ok_def by blast
      moreover have "st \<noteq> SetReleased"
      proof
        assume "st = SetReleased"
        then have "cleanup_rank x < cleanup_rank st" using that(2) by auto
        then show False using head_first [OF ok st] \<open>x \<in> set (rt_stages s)\<close> by simp
      qed
      ultimately show ?thesis using st by simp
    qed
    moreover have "rt_early_closers t = 0" using ok'(2) new course by (auto simp: releases_ok_def stage_course_def)
    moreover have "ready_to_release t" if did: "rt_released t \<noteq> [] \<or> rt_on_stop_called t \<or> rt_resources_released t"
    proof -
      have "ready_to_release s" using effects
      proof
        assume "rt_released t = rt_released s \<and> rt_on_stop_called t = rt_on_stop_called s \<and>
          rt_resources_released t = rt_resources_released s"
        then have "rt_released s \<noteq> [] \<or> rt_on_stop_called s \<or> rt_resources_released s" using did by simp
        then show ?thesis using ok'(2) new unfolding releases_ok_def by blast
      qed
      then show ?thesis by (rule ready_kept [OF _ course])
    qed
    moreover have "rt_run t \<noteq> RunNew" using new late by simp
    ultimately show ?thesis unfolding releases_ok_def stages by simp
  qed
  ultimately show ?thesis using life_kept [OF ok'(3) course] by (simp add: runtime_ok_def)
qed

lemma ending_ok:
  assumes ok: "runtime_ok s" and st: "rt_stages s = st # rest" and course: "stage_course s t" and stages: "rt_stages t = cleanup_ending"
    and effects: "rt_released t = rt_released s" "rt_on_stop_called t = rt_on_stop_called s" "rt_resources_released t = rt_resources_released s"
  shows "runtime_ok t"
proof -
  have ok': "stages_ok s" "releases_ok s" "lifecycle_ok s" using ok by (simp_all add: runtime_ok_def)
  have late: "late (rt_run s)" "rt_run t = rt_run s" using ok'(1) st course by (auto simp: stages_ok_def stage_course_def)
  then have new: "rt_run s \<noteq> RunNew" by auto
  have "stages_ok t" using late
    by (intro stages_okI) (simp_all add: stages cleanup_ending_def passing_def)
  moreover have "releases_ok t"
    using ok'(2) new late effects ready_kept [OF _ course] course
    by (auto simp: releases_ok_def stages cleanup_ending_def stage_course_def)
  ultimately show ?thesis using life_kept [OF ok'(3) course] by (simp add: runtime_ok_def)
qed


text \<open>The calls of the stages.\<close>

definition quiet :: "runtime \<Rightarrow> runtime \<Rightarrow> bool" where
  "quiet s t \<longleftrightarrow> stage_course s t \<and> rt_stages t = rt_stages s \<and> rt_released t = rt_released s \<and>
     rt_on_stop_called t = rt_on_stop_called s \<and> rt_resources_released t = rt_resources_released s"

lemma quiet_basic [simp]:
  "quiet s s" "quiet s (rt_upd f s)" "quiet s (s\<lparr>rt_readiness_closed := b\<rparr>)" "quiet s (s\<lparr>rt_cleanup_wait_complete := b\<rparr>)"
  "quiet s (s\<lparr>rt_cleanup_complete := b\<rparr>)" "quiet s (s\<lparr>rt_events_drained := b\<rparr>)" "quiet s (s\<lparr>rt_failed_stops := x\<rparr>)"
  by (simp_all add: quiet_def stage_course_def)

lemma stage_course_trans:
  assumes st: "stage_course s t" and tu: "stage_course t u"
  shows "stage_course s u"
proof -
  note a = st [unfolded stage_course_def] and b = tu [unfolded stage_course_def]
  have ups: "rt_scheduler_stopped t \<longrightarrow> rt_scheduler_stopped s \<or> rt_scheduler_down t"
    "rt_events_stopped t \<longrightarrow> rt_events_stopped s \<or> rt_events_down t"
    "rt_session_stopped t \<longrightarrow> rt_session_stopped s \<or> rt_session_down t"
    "rt_scheduler_down s \<longrightarrow> rt_scheduler_down t" "rt_events_down s \<longrightarrow> rt_events_down t"
    "rt_session_down s \<longrightarrow> rt_session_down t" "rt_close_complete s \<longrightarrow> rt_close_complete t"
    using a by simp_all
  have vps: "rt_scheduler_stopped u \<longrightarrow> rt_scheduler_stopped t \<or> rt_scheduler_down u"
    "rt_events_stopped u \<longrightarrow> rt_events_stopped t \<or> rt_events_down u"
    "rt_session_stopped u \<longrightarrow> rt_session_stopped t \<or> rt_session_down u"
    "rt_scheduler_down t \<longrightarrow> rt_scheduler_down u" "rt_events_down t \<longrightarrow> rt_events_down u"
    "rt_session_down t \<longrightarrow> rt_session_down u" "rt_close_complete t \<longrightarrow> rt_close_complete u"
    using b by simp_all
  have "rt_scheduler_stopped u \<longrightarrow> rt_scheduler_stopped s \<or> rt_scheduler_down u"
    "rt_events_stopped u \<longrightarrow> rt_events_stopped s \<or> rt_events_down u"
    "rt_session_stopped u \<longrightarrow> rt_session_stopped s \<or> rt_session_down u"
    using ups vps by blast+
  then show ?thesis unfolding stage_course_def using ups(4-7) vps(4-7) a b by simp
qed

lemma quiet_trans: "quiet s t \<Longrightarrow> quiet t u \<Longrightarrow> quiet s u"
  using stage_course_trans [of s t u] by (simp add: quiet_def)

lemma quiet_calls:
  "quiet s (safe_cleanup_end name a s)" "quiet s (fst (safe_bool_cleanup name stopping a s))"
  "quiet s (ensure_closed now failure s)" "quiet s (record_cleanup_failure name e s)"
proof -
  show "quiet s (safe_cleanup_end name a s)"
    by (cases a) (simp_all add: safe_cleanup_end_def record_cleanup_failure_def quiet_def stage_course_def)
  show "quiet s (fst (safe_bool_cleanup name stopping a s))"
    by (cases a) (simp_all add: safe_bool_cleanup_def record_cleanup_failure_def quiet_def stage_course_def Let_def)
  show "quiet s (ensure_closed now failure s)"
    by (cases failure) (simp_all add: ensure_closed_def record_cleanup_failure_def quiet_def stage_course_def Let_def)
  show "quiet s (record_cleanup_failure name e s)" by (simp add: record_cleanup_failure_def)
qed

lemma quiet_notes: "quiet s (note_scheduler r s)" "quiet s (note_events r s)" "quiet s (note_session r s)"
  by (auto simp: note_scheduler_def note_events_def note_session_def quiet_def stage_course_def)

lemma stop_stage_snd:
  assumes "stop_stage name a note s = (t, r)"
  shows "\<exists>u. t = note r u \<and> quiet s u"
proof -
  obtain u x where u: "safe_bool_cleanup name True a s = (u, x)" by fastforce
  then have "quiet s u" using quiet_calls(2) [of s name True a] by simp
  moreover have "t = note r u" using assms u by (auto simp: stop_stage_def)
  ultimately show ?thesis by blast
qed

lemma quiet_passes:
  assumes ok: "runtime_ok s" and st: "rt_stages s = st # rest" and q: "quiet (s\<lparr>rt_stages := rest\<rparr>) t"
    and goal: "SetReleased \<in> set rest \<Longrightarrow> achieved st t"
  shows "runtime_ok t"
proof (rule stage_passes [OF ok st])
  show "stage_course s t" using q by (simp add: quiet_def stage_course_def)
  show "rt_stages t = rest" using q by (simp add: quiet_def)
qed (use goal q in \<open>simp_all add: quiet_def\<close>)

lemma stop_stage_passes:
  assumes ok: "runtime_ok s" and st: "rt_stages s = st # rest"
    and nt: "\<And>r u. quiet u (note r u)" "\<And>r u. achieved st (note r u)"
  shows "runtime_ok (fst (stop_stage name a note (s\<lparr>rt_stages := rest\<rparr>)))"
proof -
  obtain t r where t: "stop_stage name a note (s\<lparr>rt_stages := rest\<rparr>) = (t, r)" by fastforce
  obtain u where u: "t = note r u" "quiet (s\<lparr>rt_stages := rest\<rparr>) u" using stop_stage_snd [OF t] by blast
  have "runtime_ok t" by (rule quiet_passes [OF ok st]) (use u nt quiet_trans in \<open>auto\<close>)
  then show ?thesis by (simp add: t)
qed

lemma stop_again_passes:
  assumes ok: "runtime_ok s" and st: "rt_stages s = st # rest"
    and nt: "\<And>r u. quiet u (note r u)" "\<And>u. achieved st (note True u)"
    and free: "SetReleased \<in> set rest \<Longrightarrow> \<not> needed \<Longrightarrow> achieved st s"
    and insensitive: "achieved st (s\<lparr>rt_stages := rest\<rparr>) = achieved st s"
  shows "case stop_again needed name a note (s\<lparr>rt_stages := rest\<rparr>) of
      Continues t \<Rightarrow> runtime_ok t | Stays \<Rightarrow> True | Returned t \<Rightarrow> runtime_ok (t\<lparr>rt_stages := cleanup_ending\<rparr>)"
proof (cases needed)
  case False
  have "runtime_ok (s\<lparr>rt_stages := rest\<rparr>)" by (rule quiet_passes [OF ok st]) (use free False insensitive in simp_all)
  then show ?thesis using False by (simp add: stop_again_def)
next
  case True
  obtain t r where t: "stop_stage name a note (s\<lparr>rt_stages := rest\<rparr>) = (t, r)" by fastforce
  obtain u where u: "t = note r u" "quiet (s\<lparr>rt_stages := rest\<rparr>) u" using stop_stage_snd [OF t] by blast
  have q: "quiet (s\<lparr>rt_stages := rest\<rparr>) t" unfolding u(1) by (rule quiet_trans [OF u(2) nt(1)])
  show ?thesis
  proof (cases r)
    case yes: True
    have "runtime_ok t" by (rule quiet_passes [OF ok st q]) (simp add: u(1) yes nt(2))
    then show ?thesis using True t yes by (simp add: stop_again_def)
  next
    case no: False
    have "runtime_ok (t\<lparr>rt_stages := cleanup_ending\<rparr>)"
      by (rule ending_ok [OF ok st]) (use q in \<open>simp_all add: quiet_def stage_course_def\<close>)
    then show ?thesis using True t no by (simp add: stop_again_def)
  qed
qed


lemma equal_sorted: "\<forall>x \<in> set xs. f x = (k :: nat) \<Longrightarrow> sorted (map f xs)"
  by (induction xs) auto

lemma cleanup_stage_ok:
  assumes ok: "runtime_ok s" and st: "rt_stages s = st # rest"
  shows "case cleanup_stage c st (s\<lparr>rt_stages := rest\<rparr>) of
      Continues t \<Rightarrow> runtime_ok t | Stays \<Rightarrow> True | Returned t \<Rightarrow> runtime_ok (t\<lparr>rt_stages := cleanup_ending\<rparr>)"
proof -
  let ?s = "s\<lparr>rt_stages := rest\<rparr>"
  note pass = quiet_passes [OF ok st]
  have same: "runtime_ok ?s" if "SetReleased \<in> set rest \<Longrightarrow> achieved st ?s" by (rule pass) (use that in simp_all)
  have ready: "ready_to_release s" if "22 \<le> cleanup_rank st" "SetReleased \<in> set (rt_stages s)"
    by (rule release_is_ready [OF ok st that])
  have stages: "stages_ok s" using ok by (simp add: runtime_ok_def)
  have behind: "passing s x" if "SetReleased \<in> set rest" "cleanup_rank x < cleanup_rank st" for x
    using head_first [OF ok st that(2)] that(1) st by (simp add: passing_def)
  show ?thesis
  proof (cases st)
    case EnsureClosed
    then show ?thesis using pass [OF quiet_calls(3)] by (simp add: cleanup_stage_def Let_def)
  next
    case AwaitClosed
    then show ?thesis using same pass [OF quiet_basic(2)] by (simp add: cleanup_stage_def Let_def)
  next
    case CloseReadinessUnstarted
    then show ?thesis using same pass [OF quiet_basic(3)] by (simp add: cleanup_stage_def Let_def)
  next
    case DrainEvents
    have "runtime_ok ((fst (safe_bool_cleanup n False a ?s))\<lparr>rt_events_drained := r\<rparr>)" for n a r
      by (rule pass [OF quiet_trans [OF quiet_calls(2) quiet_basic(6)]]) (simp add: DrainEvents)
    then show ?thesis using same DrainEvents by (simp add: cleanup_stage_def case_prod_unfold Let_def)
  next
    case PendStopScheduler
    then show ?thesis using same pass [OF quiet_basic(2)] by (simp add: cleanup_stage_def Let_def)
  next
    case StopAcceptingScheduler
    then show ?thesis using same pass [OF quiet_calls(1)] by (simp add: cleanup_stage_def Let_def)
  next
    case PendRequestStop
    then show ?thesis using same pass [OF quiet_basic(2)] by (simp add: cleanup_stage_def Let_def)
  next
    case RequestStopEvents
    then show ?thesis using same pass [OF quiet_calls(1)] by (simp add: cleanup_stage_def Let_def)
  next
    case DrainSession
    then show ?thesis using same pass [OF quiet_calls(2)] by (simp add: cleanup_stage_def Let_def)
  next
    case StopSession
    have "runtime_ok (fst (stop_stage n a note_session ?s))" for n a
      by (rule stop_stage_passes [OF ok st quiet_notes(3)]) (simp add: StopSession note_session_def)
    then show ?thesis using same StopSession by (simp add: cleanup_stage_def Let_def)
  next
    case CloseReadiness
    then show ?thesis using same pass [OF quiet_basic(3)] by (simp add: cleanup_stage_def Let_def)
  next
    case DrainScheduler
    then show ?thesis using same pass [OF quiet_calls(2)] by (simp add: cleanup_stage_def Let_def)
  next
    case StopScheduler
    have "runtime_ok (fst (stop_stage n a note_scheduler ?s))" for n a
      by (rule stop_stage_passes [OF ok st quiet_notes(1)]) (simp add: StopScheduler note_scheduler_def)
    then show ?thesis using same StopScheduler by (simp add: cleanup_stage_def Let_def)
  next
    case StopEvents
    have "runtime_ok (fst (stop_stage n a note_events ?s))" for n a
      by (rule stop_stage_passes [OF ok st quiet_notes(2)]) (simp add: StopEvents note_events_def)
    then show ?thesis using same StopEvents by (simp add: cleanup_stage_def Let_def)
  next
    case ReleaseWaiters
    then show ?thesis using same pass [OF quiet_basic(4)] by (simp add: cleanup_stage_def Let_def)
  next
    case AwaitBoundaryClose
    then show ?thesis using same by (simp add: cleanup_stage_def Let_def)
  next
    case AwaitBoundaryWorkers
    then show ?thesis using same by (simp add: cleanup_stage_def Let_def)
  next
    case AwaitBoundaryRun
    then show ?thesis using same by (simp add: cleanup_stage_def Let_def)
  next
    case CheckFailedStops
    have "runtime_ok (?s\<lparr>rt_stages := cleanup_ending\<rparr>)"
      by (rule ending_ok [OF ok st]) (simp_all add: stage_course_def)
    then show ?thesis using same CheckFailedStops by (simp add: cleanup_stage_def Let_def)
  next
    case StopSchedulerAgain
    have "case stop_again (rt_scheduler_attempted s \<and> \<not> rt_scheduler_stopped s) n a note_scheduler ?s of
        Continues t \<Rightarrow> runtime_ok t | Stays \<Rightarrow> True | Returned t \<Rightarrow> runtime_ok (t\<lparr>rt_stages := cleanup_ending\<rparr>)" for n a
      by (rule stop_again_passes [OF ok st quiet_notes(1)])
        (use stages_okD [OF stages behind [of StopScheduler]] in \<open>auto simp: StopSchedulerAgain note_scheduler_def\<close>)
    then show ?thesis using StopSchedulerAgain by (simp add: cleanup_stage_def Let_def)
  next
    case StopSessionAgain
    let ?note = "\<lambda>r s1. (note_session r s1)\<lparr>rt_readiness_closed := rt_readiness_closed s1 \<or> r\<rparr>"
    have q: "quiet u (?note r u)" for r u by (rule quiet_trans [OF quiet_notes(3) quiet_basic(3)])
    have "case stop_again (rt_session_started s \<and> \<not> rt_session_stopped s) n a ?note ?s of
        Continues t \<Rightarrow> runtime_ok t | Stays \<Rightarrow> True | Returned t \<Rightarrow> runtime_ok (t\<lparr>rt_stages := cleanup_ending\<rparr>)" for n a
      by (rule stop_again_passes [OF ok st q])
        (use stages_okD [OF stages behind [of StopSession]] in \<open>auto simp: StopSessionAgain note_session_def\<close>)
    then show ?thesis using StopSessionAgain by (simp add: cleanup_stage_def Let_def)
  next
    case StopEventsAgain
    have "case stop_again (rt_events_started s \<and> \<not> rt_events_stopped s) n a note_events ?s of
        Continues t \<Rightarrow> runtime_ok t | Stays \<Rightarrow> True | Returned t \<Rightarrow> runtime_ok (t\<lparr>rt_stages := cleanup_ending\<rparr>)" for n a
      by (rule stop_again_passes [OF ok st quiet_notes(2)])
        (use stages_okD [OF stages behind [of StopEvents]] in \<open>auto simp: StopEventsAgain note_events_def\<close>)
    then show ?thesis using StopEventsAgain by (simp add: cleanup_stage_def Let_def)
  next
    case ClearActions
    have q: "runtime_ok ?s" by (rule same) (simp add: ClearActions)
    have released: "SetReleased \<in> set rest"
      using ok st ClearActions by (auto simp: runtime_ok_def releases_ok_def)
    have "runtime_ok (?s\<lparr>rt_stages := release_stages cs @ rest\<rparr>)" for cs
    proof -
      let ?t = "?s\<lparr>rt_stages := release_stages cs @ rest\<rparr>"
      have kinds: "\<forall>x \<in> set (release_stages cs). \<exists>ctx. x = PendRelease ctx \<or> x = ReleaseAction ctx"
        by (auto simp: release_stages_def)
      then have ranks: "\<forall>x \<in> set (release_stages cs). cleanup_rank x = 22 \<and> achieved x ?t" by fastforce
      have "sorted (map cleanup_rank (st # rest))" "late (rt_run s)"
        using stages st unfolding stages_ok_def by simp_all
      then have "sorted (map cleanup_rank (release_stages cs @ rest))"
        using ranks ClearActions equal_sorted [of "release_stages cs" cleanup_rank 22] by (auto simp: sorted_append)
      moreover have "achieved x ?t" if "passing ?t x" for x
      proof -
        have "passing ?s x" using that released by (simp add: passing_def)
        moreover have "stages_ok ?s" using q by (simp add: runtime_ok_def)
        ultimately have "achieved x ?s" by (rule stages_okD [rotated])
        then show ?thesis by (cases x) simp_all
      qed
      ultimately have "stages_ok ?t" using \<open>late (rt_run s)\<close> by (intro stages_okI) simp_all
      moreover have "releases_ok ?t"
      proof -
        have "releases_ok ?s" using q by (simp add: runtime_ok_def)
        then show ?thesis using released kinds by (auto simp: releases_ok_def ready_to_release_def)
      qed
      moreover have "lifecycle_ok ?t" by (rule life_kept [OF life_of [OF q]]) (simp add: stage_course_def)
      ultimately show ?thesis by (simp add: runtime_ok_def)
    qed
    moreover have "runtime_ok (record_cleanup_failure n e ?s)" for n e
      by (rule pass [OF quiet_calls(4)]) (simp add: ClearActions)
    ultimately show ?thesis using ClearActions by (simp add: cleanup_stage_def Let_def split: answer.split)
  next
    case (PendRelease ctx)
    then show ?thesis using pass [OF quiet_basic(2)] by (simp add: cleanup_stage_def Let_def)
  next
    case (ReleaseAction ctx)
    then have "SetReleased \<in> set (rt_stages s)" using ok st unfolding runtime_ok_def releases_ok_def by auto
    then have r: "ready_to_release s" by (intro ready) (simp_all add: ReleaseAction)
    have "runtime_ok (safe_cleanup_end n a (?s\<lparr>rt_released := l\<rparr>))" for n a l
      by (rule stage_passes [OF ok st]) (use r quiet_calls(1) [of "?s\<lparr>rt_released := l\<rparr>" n a] in
        \<open>simp_all add: quiet_def stage_course_def ReleaseAction\<close>)
    then show ?thesis using ReleaseAction by (simp add: cleanup_stage_def Let_def)
  next
    case PendOnStop
    then show ?thesis using same pass [OF quiet_basic(2)] by (simp add: cleanup_stage_def Let_def)
  next
    case CallOnStop
    then have "SetReleased \<in> set (rt_stages s)" using ok st unfolding runtime_ok_def releases_ok_def by auto
    then have r: "ready_to_release s" by (intro ready) (simp_all add: CallOnStop)
    have "runtime_ok (safe_cleanup_end n a (?s\<lparr>rt_on_stop_called := True\<rparr>))" for n a
      by (rule stage_passes [OF ok st]) (use r quiet_calls(1) [of "?s\<lparr>rt_on_stop_called := True\<rparr>" n a] in
        \<open>simp_all add: quiet_def stage_course_def CallOnStop\<close>)
    then show ?thesis using same CallOnStop by (simp add: cleanup_stage_def Let_def)
  next
    case SetReleased
    then have r: "ready_to_release s" by (intro ready) (simp_all add: st)
    have "runtime_ok (?s\<lparr>rt_resources_released := True\<rparr>)"
      by (rule stage_passes [OF ok st]) (use r in \<open>simp_all add: stage_course_def SetReleased\<close>)
    then show ?thesis using SetReleased by (simp add: cleanup_stage_def Let_def)
  next
    case EndPendingCleanup
    then show ?thesis using pass [OF quiet_basic(2)] by (simp add: cleanup_stage_def Let_def)
  next
    case EndCleanup
    then show ?thesis using pass [OF quiet_basic(5)] by (simp add: cleanup_stage_def Let_def)
  next
    case EndCleanupWait
    then show ?thesis using pass [OF quiet_basic(4)] by (simp add: cleanup_stage_def Let_def)
  qed
qed


lemma cleanup_step_ok: "runtime_ok s \<Longrightarrow> runtime_ok (cleanup_step c s)"
  using cleanup_stage_ok [of s "hd (rt_stages s)" "tl (rt_stages s)" c]
  by (cases "rt_stages s") (auto simp: cleanup_step_def split: cleanup_result.splits)

lemma runtime_step_ok: "runtime_ok s \<Longrightarrow> runtime_ok (runtime_step wrap x s)"
proof (cases x)
  case (WaitExpires name)
  assume "runtime_ok s"
  then show ?thesis using WaitExpires same_course_ok [OF _ same_course_upd] by simp
next
  case (BoundaryFailed e)
  assume "runtime_ok s"
  then show ?thesis using BoundaryFailed same_course_ok [OF _ same_course_upd] by simp
next
  case (BoundaryThread a now failure)
  assume "runtime_ok s"
  then show ?thesis using BoundaryThread same_course_ok [OF _ boundary_thread_same] by simp
next
  case (CloserThread a)
  assume "runtime_ok s"
  then show ?thesis using CloserThread same_course_ok [OF _ closer_same] by simp
next
  case (FatalError now failure e)
  assume "runtime_ok s"
  then show ?thesis using FatalError same_course_ok [OF _ on_fatal_error_same] by simp
qed (simp_all add: runtime_begin_ok run_thread_ok cleanup_step_ok runtime_close_ok early_close_ok)

interpretation supervised: invariant_machine "runtime_step wrap" runtime_ok
  by unfold_locales (rule runtime_step_ok)

lemma runtime_ok_new: "runtime_ok (new_runtime budget)"
  by (simp add: new_runtime_def runtime_ok_def stages_ok_def releases_ok_def lifecycle_ok_def passing_def)

section \<open>The run ends\<close>

fun run_rank :: "run_point \<Rightarrow> nat" where
  "run_rank RunNew = 18"
| "run_rank ReportingScheduler = 17"
| "run_rank StartingScheduler = 16"
| "run_rank TestingEvents = 15"
| "run_rank StartingEvents = 14"
| "run_rank TestingSession = 13"
| "run_rank StartingSession = 12"
| "run_rank SettingRunning = 11"
| "run_rank TestingBoundary = 10"
| "run_rank SpawningBoundary = 9"
| "run_rank AwaitingBoundary = 8"
| "run_rank AwaitingEnd = 7"
| "run_rank (RunExcept is_exn e) = 6"
| "run_rank (RunFinally r) = 5"
| "run_rank (SpawningCleanup r) = 4"
| "run_rank (AwaitingCleanup r) = 3"
| "run_rank (Settling r) = 2"
| "run_rank (RunReturned r) = 1"

definition running_down :: "runtime \<Rightarrow> bool" where
  "running_down s \<longleftrightarrow> rt_shutdown_requested s \<and> rt_run s \<noteq> RunNew"

fun hurried :: "runtime_op \<Rightarrow> bool" where
  "hurried (RunThread a over now) = over"
| "hurried _ = False"

lemma run_rank_falls:
  assumes "running_down s"
  shows "run_rank (rt_run (run_thread_step wrap a over now s)) \<le> run_rank (rt_run s)"
    and "over \<Longrightarrow> (\<forall>r. rt_run s \<noteq> RunReturned r) \<Longrightarrow>
      run_rank (rt_run (run_thread_step wrap a over now s)) < run_rank (rt_run s)"
    and "running_down (run_thread_step wrap a over now s)"
  using assms
  by (cases "rt_run s"; cases a; simp add: run_thread_step_def running_down_def record_cleanup_failure_def
      record_primary_def Let_def)+

definition same_run :: "runtime \<Rightarrow> runtime \<Rightarrow> bool" where
  "same_run s t \<longleftrightarrow> rt_run t = rt_run s \<and> (rt_shutdown_requested s \<longrightarrow> rt_shutdown_requested t)"

lemma same_run_basic [simp]: "same_run s s" "same_run s (rt_upd f s)" "same_run s (s\<lparr>rt_readiness_closed := b\<rparr>)"
  by (simp_all add: same_run_def)

lemma quiet_same_run: "quiet s t \<Longrightarrow> same_run s t"
  by (simp add: quiet_def stage_course_def same_run_def)

lemmas calls_same_run = quiet_same_run [OF quiet_calls(1)] quiet_same_run [OF quiet_calls(2)]
  quiet_same_run [OF quiet_calls(3)] quiet_same_run [OF quiet_calls(4)]

lemma stop_same_run:
  assumes "\<And>r u. same_run u (note r u)"
  shows "same_run s (fst (stop_stage name a note s))"
    "case stop_again needed name a note s of Continues t \<Rightarrow> same_run s t | Stays \<Rightarrow> True | Returned t \<Rightarrow> same_run s t"
proof -
  obtain t r where t: "stop_stage name a note s = (t, r)" by fastforce
  obtain u where u: "t = note r u" "quiet s u" using stop_stage_snd [OF t] by blast
  have "same_run s t" using quiet_same_run [OF u(2)] assms [of u r] u(1) by (simp add: same_run_def)
  then show "same_run s (fst (stop_stage name a note s))"
    "case stop_again needed name a note s of Continues t \<Rightarrow> same_run s t | Stays \<Rightarrow> True | Returned t \<Rightarrow> same_run s t"
    using t by (simp_all add: stop_again_def)
qed

lemma cleanup_same_run:
  "case cleanup_stage c st s of Continues t \<Rightarrow> same_run s t | Stays \<Rightarrow> True | Returned t \<Rightarrow> same_run s t"
proof -
  have reports: "same_run u (note_scheduler r u)" "same_run u (note_events r u)" "same_run u (note_session r u)"
    "same_run u ((note_session r u)\<lparr>rt_readiness_closed := rt_readiness_closed u \<or> r\<rparr>)" for r u
    by (simp_all add: note_scheduler_def note_events_def note_session_def same_run_def)
  have sets: "same_run s (t\<lparr>rt_events_drained := b\<rparr>) = same_run s t" "same_run s (t\<lparr>rt_cleanup_wait_complete := b\<rparr>) = same_run s t"
    "same_run s (t\<lparr>rt_stages := l\<rparr>) = same_run s t" "same_run s (t\<lparr>rt_resources_released := b\<rparr>) = same_run s t"
    "same_run s (t\<lparr>rt_cleanup_complete := b\<rparr>) = same_run s t" for t b l
    by (simp_all add: same_run_def)
  have calls: "same_run s (safe_cleanup_end n a (s\<lparr>rt_released := l\<rparr>))" "same_run s (safe_cleanup_end n a (s\<lparr>rt_on_stop_called := b\<rparr>))"
    for n a l b using calls_same_run(1) [of "s\<lparr>rt_released := l\<rparr>" n a] calls_same_run(1) [of "s\<lparr>rt_on_stop_called := b\<rparr>" n a]
    by (simp_all add: same_run_def)
  show ?thesis
    by (cases st; cases "ca_answer c")
      (simp_all add: cleanup_stage_def sets calls calls_same_run stop_same_run reports case_prod_unfold Let_def)
qed

lemma cleanup_step_run: "same_run s (cleanup_step c s)"
proof (cases "rt_stages s")
  case (Cons st rest)
  have "case cleanup_stage c st (s\<lparr>rt_stages := rest\<rparr>) of Continues t \<Rightarrow> same_run s t | Stays \<Rightarrow> True | Returned t \<Rightarrow> same_run s t"
    using cleanup_same_run [where c = c and st = st and s = "s\<lparr>rt_stages := rest\<rparr>"] by (simp add: same_run_def split: cleanup_result.splits)
  then show ?thesis using Cons by (simp add: cleanup_step_def same_run_def split: cleanup_result.splits)
qed (simp add: cleanup_step_def)

lemma other_same_run:
  assumes "running_down s" "\<forall>a over now. x \<noteq> RunThread a over now"
  shows "same_run s (runtime_step wrap x s)"
proof (cases x)
  case RunForever
  then show ?thesis using assms(1) by (simp add: running_down_def runtime_begin_def)
next
  case (BoundaryThread a now failure)
  then show ?thesis using boundary_thread_same [of s wrap a now failure] by (simp add: same_course_def same_run_def)
next
  case (CloserThread a)
  then show ?thesis using closer_same [of s a] by (simp add: same_course_def same_run_def)
next
  case (FatalError now failure e)
  then show ?thesis using on_fatal_error_same [of s now failure e] by (simp add: same_course_def same_run_def)
next
  case (CloseRuntime from_worker now failure)
  have "same_course s1 s2 \<Longrightarrow> same_run s1 s2" for s1 s2 by (simp add: same_course_def same_run_def)
  note e = this [OF ensure_closed_same [of "(rt_upd (shutdown_begin now) s)\<lparr>rt_shutdown_requested := True\<rparr>" now failure]]
  then show ?thesis using CloseRuntime by (simp add: runtime_close_def Let_def same_run_def)
next
  case (EarlyCloseEnds over)
  then show ?thesis by (simp add: early_close_ends_def same_run_def)
qed (use assms(2) cleanup_step_run in simp_all)

lemma running_down_step:
  assumes "running_down s"
  shows "running_down (runtime_step wrap x s) \<and>
    run_rank (rt_run (runtime_step wrap x s)) + (if hurried x \<and> (\<forall>r. rt_run s \<noteq> RunReturned r) then 1 else 0) \<le> run_rank (rt_run s)"
proof (cases "\<exists>a over now. x = RunThread a over now")
  case True
  then obtain a over now where x: "x = RunThread a over now" by blast
  show ?thesis using run_rank_falls [OF assms, where wrap = wrap and a = a and over = over and now = now] x by auto
next
  case False
  then have "same_run s (runtime_step wrap x s)" by (intro other_same_run [OF assms]) blast
  moreover have "\<not> hurried x" using False by (cases x) auto
  ultimately show ?thesis using assms by (simp add: same_run_def running_down_def)
qed

lemma left_for_good: "running_down s \<Longrightarrow> rt_run s = RunReturned r \<Longrightarrow> rt_run (runtime_step wrap x s) = RunReturned r"
  using other_same_run [of s x wrap] by (cases x) (auto simp: same_run_def run_thread_step_def Let_def)

lemma run_comes_down:
  assumes "running_down s"
  shows "(\<exists>r. rt_run (fold (runtime_step wrap) ops s) = RunReturned r) \<or>
    run_rank (rt_run (fold (runtime_step wrap) ops s)) + length (filter hurried ops) \<le> run_rank (rt_run s)"
  using assms
proof (induction ops arbitrary: s)
  case (Cons x ops)
  note step = running_down_step [OF Cons.prems, of wrap x]
  show ?case
  proof (cases "\<exists>r. rt_run s = RunReturned r")
    case True
    then obtain r where "rt_run (runtime_step wrap x s) = RunReturned r" using left_for_good [OF Cons.prems] by blast
    moreover have "rt_run (fold (runtime_step wrap) ops t) = RunReturned r" if "running_down t" "rt_run t = RunReturned r" for t
      using that
    proof (induction ops arbitrary: t)
      case (Cons y ys)
      then show ?case using left_for_good [of t r wrap y] running_down_step [of t wrap y] by simp
    qed simp
    ultimately show ?thesis using step by auto
  next
    case False
    then show ?thesis using Cons.IH [of "runtime_step wrap x s"] step by auto
  qed
qed simp


section \<open>The relay of fatal errors and the plugin's session\<close>

text \<open>\<open>_FatalErrorRelay\<close>: a report gives what the target is called with, if it is bound.\<close>

record relay =
  rl_bound :: bool
  rl_pending :: "failure_object option"

definition new_relay :: relay where
  "new_relay = \<lparr>rl_bound = False, rl_pending = None\<rparr>"

definition relay_report :: "failure_object \<Rightarrow> relay \<Rightarrow> relay \<times> failure_object option" where
  "relay_report e r =
     (if rl_bound r then (r, Some e)
      else (if rl_pending r = None then r\<lparr>rl_pending := Some e\<rparr> else r, None))"

definition relay_bind :: "relay \<Rightarrow> exn + relay \<times> failure_object option" where
  "relay_bind r =
     (if rl_bound r then Inl (RuntimeError ''fatal-error relay is already bound'')
      else Inr (\<lparr>rl_bound = True, rl_pending = None\<rparr>, rl_pending r))"

lemma relay_keeps_first:
  "relay_bind (fold (\<lambda>e r. fst (relay_report e r)) (e # es) new_relay) = Inr (\<lparr>rl_bound = True, rl_pending = None\<rparr>, Some e)"
proof -
  have "fold (\<lambda>e r. fst (relay_report e r)) es \<lparr>rl_bound = False, rl_pending = Some e\<rparr> = \<lparr>rl_bound = False, rl_pending = Some e\<rparr>"
    by (induction es) (simp_all add: relay_report_def)
  then show ?thesis by (simp add: relay_bind_def relay_report_def new_relay_def)
qed

text \<open>\<open>PluginSessionLifecycle\<close>: whether a call invokes the callback of the plugin, and what the call raises.\<close>

record plugin_session =
  ps_ready_started :: bool
  ps_stopped :: bool

definition new_plugin_session :: plugin_session where
  "new_plugin_session = \<lparr>ps_ready_started = False, ps_stopped = False\<rparr>"

definition plugin_ready :: "plugin_session \<Rightarrow> plugin_session \<times> bool" where
  "plugin_ready p =
     (if ps_ready_started p \<or> ps_stopped p then (p, False) else (p\<lparr>ps_ready_started := True\<rparr>, True))"

definition plugin_stop :: "plugin_session \<Rightarrow> plugin_session \<times> bool" where
  "plugin_stop p = (if ps_stopped p then (p, False) else (p\<lparr>ps_stopped := True\<rparr>, ps_ready_started p))"

definition plugin_invoke :: "bool \<Rightarrow> answer \<Rightarrow> failure_object option" where
  "plugin_invoke stopping a =
     (case a of
        Returns r \<Rightarrow> None
      | Raises is_exn e \<Rightarrow> if is_exn \<and> \<not> stopping then None else Some e)"

datatype plugin_call = ReadyCall | StopCall

fun plugin_call_step :: "plugin_call \<Rightarrow> plugin_session \<Rightarrow> plugin_session \<times> bool" where
  "plugin_call_step ReadyCall p = plugin_ready p"
| "plugin_call_step StopCall p = plugin_stop p"

fun plugin_invoked :: "plugin_call list \<Rightarrow> plugin_session \<Rightarrow> plugin_call list" where
  "plugin_invoked [] p = []"
| "plugin_invoked (c # cs) p =
     (case plugin_call_step c p of (p', invoked) \<Rightarrow> (if invoked then [c] else []) @ plugin_invoked cs p')"

lemma plugin_stopped_quiet: "ps_stopped p \<Longrightarrow> plugin_invoked cs p = []"
proof (induction cs)
  case (Cons c cs)
  then show ?case by (cases c) (simp_all add: plugin_ready_def plugin_stop_def)
qed simp

lemma plugin_started_invokes: "ps_ready_started p \<Longrightarrow> \<not> ps_stopped p \<Longrightarrow> plugin_invoked cs p \<in> {[], [StopCall]}"
proof (induction cs)
  case (Cons c cs)
  then show ?case by (cases c) (simp_all add: plugin_ready_def plugin_stop_def plugin_stopped_quiet)
qed simp

text \<open>Whatever calls there are, the plugin is told to stop at most once, and only after it was told to be ready.\<close>

lemma plugin_session_paired: "plugin_invoked cs new_plugin_session \<in> {[], [ReadyCall], [ReadyCall, StopCall]}"
proof (cases cs)
  case (Cons c cs')
  then show ?thesis
    using plugin_started_invokes [of "\<lparr>ps_ready_started = True, ps_stopped = False\<rparr>" cs']
      plugin_stopped_quiet [of "\<lparr>ps_ready_started = False, ps_stopped = True\<rparr>" cs']
    by (cases c) (auto simp: new_plugin_session_def plugin_ready_def plugin_stop_def)
qed simp

section \<open>Properties\<close>



text \<open>
  C11. Liveness: once a shutdown has been requested, \<open>run_forever\<close> returns after at most 17 segments of its own whose waits
  expire, even when every other thread is stuck and every call raises.
\<close>

theorem runtime_returns_after_request:
  assumes s: "s = runtime_run wrap budget ops" and requested: "rt_shutdown_requested s" "rt_run s \<noteq> RunNew"
    and steps: "17 \<le> length (filter hurried more_ops)"
  shows "\<exists>raised. rt_run (fold (runtime_step wrap) more_ops s) = RunReturned raised"
proof -
  have "running_down s" using requested by (simp add: running_down_def)
  then have "(\<exists>r. rt_run (fold (runtime_step wrap) more_ops s) = RunReturned r) \<or>
      run_rank (rt_run (fold (runtime_step wrap) more_ops s)) + length (filter hurried more_ops) \<le> run_rank (rt_run s)"
    by (rule run_comes_down)
  moreover have "run_rank (rt_run s) \<le> 17" using requested(2) by (cases "rt_run s") auto
  moreover have "1 \<le> run_rank (rt_run (fold (runtime_step wrap) more_ops s))"
    by (cases "rt_run (fold (runtime_step wrap) more_ops s)") auto
  ultimately show ?thesis using steps by (elim disjE) (blast, linarith)
qed

section \<open>Concrete histories\<close>

definition kind_answers :: cleanup_answers where
  "kind_answers = \<lparr>ca_answer = Returns True, ca_over = True, ca_now = 0, ca_start_failure = None, ca_contexts = [''key''],
     ca_has_on_stop = True\<rparr>"

text \<open>A run whose boundary ends by itself, with one action to release.\<close>

definition sample_runtime_ops :: "runtime_op list" where
  "sample_runtime_ops = RunForever # replicate 9 (RunThread (Returns True) False 0) @
     [BoundaryThread (Returns True) 0 None, BoundaryThread (Returns True) 0 None] @
     replicate 4 (RunThread (Returns True) False 0) @ CleanupWorker kind_answers # 
     CloserThread (Returns True) # CloserThread (Returns True) # replicate 31 (CleanupWorker kind_answers)"

definition sample_runtime :: runtime where
  "sample_runtime = runtime_run id (Some 5) sample_runtime_ops"

lemmas sample_runtime_steps = sample_runtime_ops_def new_runtime_def runtime_begin_def run_thread_step_def rt_go_def
  transition_runtime_state_def boundary_thread_step_def closer_step_def cleanup_step_def cleanup_stage_def kind_answers_def
  cleanup_script_def cleanup_ending_def ensure_closed_def stop_stage_def stop_again_def safe_bool_cleanup_def
  safe_cleanup_end_def note_scheduler_def note_events_def note_session_def release_stages_def eval_nat_numeral

lemma sample_runtime:
  "rt_released sample_runtime = [''key''] \<and> rt_on_stop_called sample_runtime \<and> rt_resources_released sample_runtime \<and>
   rt_scheduler_attempted sample_runtime \<and> rt_events_started sample_runtime \<and> rt_session_started sample_runtime"
  by code_simp




definition sample_error :: failure_object where
  "sample_error = \<lparr>fo_id = 1, fo_type = ''ValueError''\<rparr>"

lemma sample_requested:
  "rt_shutdown_requested (runtime_run id None [RunForever, FatalError 0 None sample_error]) \<and>
   rt_run (runtime_run id None [RunForever, FatalError 0 None sample_error]) \<noteq> RunNew"
  by code_simp

lemma runtime_returns_after_request_witness:
  "\<exists>raised. rt_run (fold (runtime_step id) (replicate 17 (RunThread (Raises False sample_error) True 0))
     (runtime_run id None [RunForever, FatalError 0 None sample_error])) = RunReturned raised"
  by (rule runtime_returns_after_request [OF refl]) (use sample_requested in simp_all)

end
