(* ===== verification/Spec2Isabelle.thy ===== *)
theory Spec2Isabelle
  imports EventParser InboundQueue TransportQueue OutboundQueue KeyedSystem SequentialScheduler Router
    Session Reader Registration JsonObjects Writer Pumps SessionPump
    Connector Boundary Runtime
begin

text \<open>
  A verification library of the Mirabox Stream Dock SDK (Python package \<open>mirabox_sdk\<close>; all paths below
  are relative to \<open>src/mirabox_sdk/\<close>).

  The program connects a plugin to the Stream Dock application over one WebSocket
  (\<open>_internal/transport/websocket.py\<close>), whose port and identity come from the command line
  (\<open>registration.py\<close>). Text frames that come in are queued (\<open>_internal/transport/queues.py\<close>), decoded by a reader thread
  (\<open>_internal/messaging/reader.py\<close>) with the parser (\<open>parser.py\<close>) into typed events (\<open>events.py\<close>), queued
  again with coalescing of dial rotations (\<open>_internal/messaging/inbound.py\<close>), taken by a pump
  (\<open>_internal/runtime/pumps.py\<close>) and scheduled so that
  events of different actions run concurrently and barrier events alone
  (\<open>_internal/runtime/keyed_scheduler.py\<close>, or one at a time with \<open>scheduler.py\<close>), and routed to callbacks
  of actions and of the plugin (\<open>routes.py\<close>, \<open>actions.py\<close>, \<open>router.py\<close>). Commands go out through a
  coalescing queue with deadlines (\<open>_internal/messaging/outbound.py\<close>, \<open>completion.py\<close>), are encoded by a
  writer thread (\<open>_internal/messaging/writer.py\<close>) into frames with receipts
  (\<open>_internal/transport/frames.py\<close>), and sent by the connector. Settings of the plugin are written in transactions
  (\<open>_internal/runtime/global_settings.py\<close>), a session is initialised once
  (\<open>_internal/runtime/session.py\<close>) and everything is shut down within one budget
  (\<open>_internal/lifecycle.py\<close>). Two owners start and stop the parts in a fixed order: the boundary has the queues, the
  reader, the writer and the connector (\<open>_internal/boundary/composition.py\<close>), the runtime has the boundary, the
  pumps, the scheduler and the router (\<open>_internal/runtime/composition.py\<close>).

  Conventions. A Python value is a \<open>pyval\<close>, an exception an \<open>exn\<close>, a fallible call returns
  \<open>exn + 'a\<close>. Objects with identity (completions, receipts, abort hooks, threads) are numbers. Code that
  runs under one acquisition of a component's lock is one operation on that component's record, named
  after its method; a method with several such segments, or one that waits, is several operations
  (suffixes \<open>_begin\<close>, \<open>_resume\<close>, \<open>_attempt\<close>). Waiting is an operation that changes nothing and is tried
  again; timeouts enter as the Boolean \<open>expired\<close> or as a clock reading. All interleavings of the segments
  are the runs of a step function, or of an inductive relation in theory GlobalSettings; the locale
  \<open>invariant_machine\<close> of theory SdkPrelude gives the invariants of all of them, \<open>latch_machine\<close> what stays
  true, and each component interprets these on its own steps. Code of the application, the text of
  exceptions, the JSON decoder and the measured size of objects are parameters.

  Theories, in the order of the code:
    \<^item> SdkPrelude, PyValues: results, lists, machines; Python values, exceptions and the validation and
      copying of JSON (\<open>json_types.py\<close>, \<open>errors.py\<close>).
    \<^item> Events, EventParser (\<open>events.py\<close>, \<open>parser.py\<close>): the event classes and the parser with its codec registry.
      The parser accepts exactly the messages that a declarative relation describes, events survive
      writing and parsing, and every rejection names an event and a path to the offending field.
    \<^item> JsonObjects, JsonViews (\<open>json_types.py\<close>): the containers of a JSON document as objects by address, and the
      copy-on-write views of a shared document. A view behaves like a private copy, and no view writes
      into its source.
    \<^item> Registration (\<open>registration.py\<close>): launch arguments and registration information, accepted exactly when
      a declarative reading accepts them, with located errors and a round trip.
    \<^item> BufferLimits, InboundQueue, TransportQueue, OutboundQueue (\<open>buffer_limits.py\<close>, \<open>inbound.py\<close>,
      \<open>queues.py\<close>, \<open>frames.py\<close>, \<open>outbound.py\<close>): the byte accounting, equal to reference definitions, and the
      bounded queues with their waiting producers. Depth and bytes stay in their limits and are exact
      under every interleaving, order is kept, every submission is accounted for, coalescing has no effect
      but merging, receipts are settled once.
    \<^item> Commands, Completion (\<open>commands.py\<close>, \<open>completion.py\<close>): the wire form of commands, and the life of one
      command between send, cancellation and deadline: one outcome, published once.
    \<^item> Codecs (\<open>codecs.py\<close>): the typed codecs and the normalisation of their errors.
    \<^item> Lifecycle, Session (\<open>lifecycle.py\<close>, \<open>models.py\<close>, \<open>session.py\<close>): lifecycle graphs as a locale with a
      rank, the shutdown budget and its outcome, the readiness gate and the initialisation.
    \<^item> Reader (\<open>reader.py\<close>): the worker over the queue of TransportQueue. Order, accounting, graceful stop and
      termination.
    \<^item> Writer (\<open>writer.py\<close>): the worker between OutboundQueue and TransportQueue with its flight window and its
      deadlines. No accepted command is lost, and success is reported only after the receipt's success.
    \<^item> Pumps, SessionPump (\<open>pumps.py\<close>): the pump of events, with the callbacks of the scheduler's threads, and
      the pump of session events. Each event is acknowledged once, nothing is received before readiness or
      after a stop, and waiters on the readiness gate are released.
    \<^item> Connector (\<open>websocket.py\<close>): the threads of the client, of the sender and of \<open>close\<close>, by segments. No
      accepted frame is lost, the order of frames is kept, the disconnection is announced once.
    \<^item> Boundary (\<open>boundary/composition.py\<close>, \<open>boundary/config.py\<close>): the run of the boundary, and its shutdown by a
      worker as a list of stages. Stages are done in the order of the data, a successful outcome means that
      each was done and confirmed, and the shutdown completes however the parts answer.
    \<^item> Runtime (\<open>runtime/composition.py\<close>, the session of \<open>plugin.py\<close>): the run of the runtime with its helper
      threads, \<open>close\<close> and fatal errors. Nothing is released before every worker has stopped, every run ends
      stopped or failed, and it returns within its budget even if all else is stuck.
    \<^item> Routes, Router (\<open>routes.py\<close>, \<open>actions.py\<close>, \<open>router.py\<close>): the validated registry, ownership of actions,
      broadcasts equal to a reference delivery, rollback of failed appearances, isolation of failures.
    \<^item> KeyedScheduler, KeyedSystem, SequentialScheduler (\<open>keyed_scheduler.py\<close>, \<open>scheduler.py\<close>): the
      segments of the schedulers, and the system of submitters and workers: exclusion, order of conflicting
      events, completion of all work, bounds, drain by a worker.
    \<^item> GlobalSettings (\<open>global_settings.py\<close>): the write transactions, serialised against each other and
      against the pending asynchronous write.

  Bounds. Recursion is structural, or has a measure; no definition uses fuel. The bounds of the code (JSON
  depth 64, limits of queues) are those of the source or parameters.

  Not modelled: the WebSocket client library, the factory of the runtime and the entry point of an
  application (\<open>create_stream_dock_runtime\<close>, \<open>application.py\<close>), which pass the parts to each other, the JSON encoder and decoder
  (\<open>encoder.py\<close>, \<open>decoder.py\<close>), actions and their registry (\<open>action.py\<close>,
  \<open>action_registry.py\<close>), slices and sorting of JSON views (\<open>json_types.py\<close>), the check of a
  project directory (\<open>plugin_validation.py\<close>), logging, diagnostics, metrics snapshots, command lines, project
  templates, test doubles, scripts and the
  JavaScript property inspector. Threads, conditions, clocks and futures of the standard library enter
  only by what the code uses of them.
\<close>

end
